(* ===== verification/Prelude.thy ===== *)
theory Prelude
  imports Main "HOL-Library.Word"
begin

text \<open>
  Shared vocabulary of the development: the machine integers of the Rust sources, byte strings,
  slice helpers, and the interface locales that several components instantiate.

  A Rust slice is a list, \<^verbatim>\<open>Vec::push\<close> appends at the end, \<^verbatim>\<open>Result<T, E>\<close> is the sum
  \<open>E + T\<close> with \<open>Inl\<close> for the error, and \<^verbatim>\<open>Option\<close> is \<open>option\<close>.
\<close>

section \<open>Machine integers and byte strings\<close>

type_synonym u8 = "8 word"
type_synonym u16 = "16 word"
type_synonym u32 = "32 word"
type_synonym u64 = "64 word"
type_synonym i32 = "32 word"
type_synonym bytes = "u8 list"

abbreviation SLASH :: u8 where "SLASH \<equiv> 0x2F"
abbreviation DOT :: u8 where "DOT \<equiv> 0x2E"

named_theorems byte_simps \<open>byte constants and string literals, for evaluation\<close>

definition ascii :: "string \<Rightarrow> bytes" where
  "ascii = map of_char"

lemma ascii_Nil [simp]: "ascii [] = []"
  by (simp add: ascii_def)

lemma ascii_Cons [simp]: "ascii (c # cs) = of_char c # ascii cs"
  by (simp add: ascii_def)

lemma length_ascii [simp]: "length (ascii s) = length s"
  by (simp add: ascii_def)

text \<open>The \<^verbatim>\<open>Display\<close> of an integer that is not negative, as bytes and as text.\<close>

fun show_int :: "int \<Rightarrow> bytes" where
  "show_int n = (if n < 10 then [0x30 + of_int n] else show_int (n div 10) @ [0x30 + of_int (n mod 10)])"

declare show_int.simps [simp del]

definition text_of :: "bytes \<Rightarrow> String.literal" where
  "text_of s = String.implode (map (\<lambda>b. char_of (unat b)) s)"

section \<open>Little-endian integers\<close>

unbundle bit_operations_syntax

text \<open>\<^verbatim>\<open>i32::to_le_bytes\<close> and \<^verbatim>\<open>i32::from_le_bytes\<close>.\<close>

definition to_le_bytes :: "i32 \<Rightarrow> bytes" where
  "to_le_bytes v = [ucast v, ucast (drop_bit 8 v), ucast (drop_bit 16 v), ucast (drop_bit 24 v)]"

definition from_le_bytes :: "u8 \<Rightarrow> u8 \<Rightarrow> u8 \<Rightarrow> u8 \<Rightarrow> i32" where
  "from_le_bytes a b c d =
     ucast a OR push_bit 8 (ucast b) OR push_bit 16 (ucast c) OR push_bit 24 (ucast d)"

lemma bit_u8_high [simp]: "8 \<le> n \<Longrightarrow> \<not> bit (a :: u8) n"
  using bit_imp_le_length by fastforce

lemma mask16_i32: "(0xffff :: i32) = mask 16"
  by (simp add: mask_eq_decr_exp)

lemma byte_index_cases:
  fixes n :: nat
  assumes "n < LENGTH(32)"
  obtains "n < 8" | "8 \<le> n" "n < 16" | "16 \<le> n" "n < 24" | "24 \<le> n" "n < 32"
  using assms by fastforce

lemma bit_from_le_bytes:
  "bit (from_le_bytes a b c d) n \<longleftrightarrow>
     (if n < 8 then bit a n else if n < 16 then bit b (n - 8)
      else if n < 24 then bit c (n - 16) else n < 32 \<and> bit d (n - 24))"
  by (auto simp: from_le_bytes_def bit_simps)

lemma from_to_le_bytes:
  "from_le_bytes (ucast v) (ucast (drop_bit 8 v)) (ucast (drop_bit 16 v)) (ucast (drop_bit 24 v)) = v"
  (is "?lhs = v")
proof (rule bit_word_eqI)
  fix n assume "n < LENGTH(32)"
  then show "bit ?lhs n = bit v n"
    by (cases rule: byte_index_cases) (auto simp: bit_from_le_bytes bit_simps)
qed

lemma to_from_le_bytes: "to_le_bytes (from_le_bytes a b c d) = [a, b, c, d]"
  by (auto simp: to_le_bytes_def bit_from_le_bytes bit_simps intro!: bit_word_eqI)

lemma high_half_from_le_bytes:
  "(ucast (signed_drop_bit 16 (from_le_bytes a b c d)) :: u16) = ucast c OR push_bit 8 (ucast d)"
  by (auto simp: bit_from_le_bytes bit_simps intro!: bit_word_eqI split: if_splits)

lemma low_half_from_le_bytes:
  "from_le_bytes a b c d AND 0xffff = ucast a OR push_bit 8 (ucast b)" (is "?lhs = ?rhs")
proof (rule bit_word_eqI)
  fix n assume "n < LENGTH(32)"
  then show "bit ?lhs n = bit ?rhs n"
    by (cases rule: byte_index_cases) (auto simp: bit_from_le_bytes bit_simps mask16_i32)
qed

section \<open>The question mark operator\<close>

text \<open>\<^verbatim>\<open>x?\<close> followed by the rest of the function: an error returns at once.\<close>

lemma try_Inr_iff [simp]:
  "(case x of Inl e \<Rightarrow> Inl e | Inr y \<Rightarrow> f y) = Inr z \<longleftrightarrow> (\<exists>y. x = Inr y \<and> f y = Inr z)"
  by (cases x) simp_all

section \<open>ASCII case\<close>

definition to_ascii_lowercase :: "u8 \<Rightarrow> u8" where
  "to_ascii_lowercase b = (if 0x41 \<le> b \<and> b \<le> 0x5A then b + 0x20 else b)"

definition eq_ignore_ascii_case :: "bytes \<Rightarrow> bytes \<Rightarrow> bool" where
  "eq_ignore_ascii_case a b \<longleftrightarrow> map to_ascii_lowercase a = map to_ascii_lowercase b"

section \<open>Slices\<close>

text \<open>\<^verbatim>\<open>slice::get\<close>.\<close>

definition nth_opt :: "'a list \<Rightarrow> nat \<Rightarrow> 'a option" where
  "nth_opt xs n = (if n < length xs then Some (xs ! n) else None)"

text \<open>\<^verbatim>\<open>slice::split(pred)\<close>: the maximal runs between the elements that satisfy the predicate; an
  empty slice gives one empty run.\<close>

primrec split_on :: "('a \<Rightarrow> bool) \<Rightarrow> 'a list \<Rightarrow> 'a list list" where
  "split_on P [] = [[]]"
| "split_on P (x # xs) =
     (if P x then [] # split_on P xs
      else (x # hd (split_on P xs)) # tl (split_on P xs))"

lemma split_on_not_Nil [simp]: "split_on P xs \<noteq> []"
  by (cases xs) simp_all

lemma split_on_no_sep: "list_all (\<lambda>x. \<not> P x) xs \<Longrightarrow> split_on P xs = [xs]"
  by (induction xs) simp_all

lemma split_on_append_sep:
  "P x \<Longrightarrow> split_on P (xs @ x # ys) = split_on P xs @ split_on P ys"
  by (induction xs) auto

lemma split_on_pieces: "w \<in> set (split_on P xs) \<Longrightarrow> list_all (\<lambda>x. \<not> P x) w"
proof (induction xs arbitrary: w)
  case Nil
  then show ?case by simp
next
  case (Cons x xs)
  have "hd (split_on P xs) \<in> set (split_on P xs)" and "set (tl (split_on P xs)) \<subseteq> set (split_on P xs)"
    by (simp_all add: list.set_sel(2) subsetI)
  with Cons show ?case by (auto split: if_splits)
qed

text \<open>Putting the separators back: the inverse of \<open>split_on\<close> for a single separator.\<close>

fun intercalate :: "'a \<Rightarrow> 'a list list \<Rightarrow> 'a list" where
  "intercalate c [] = []"
| "intercalate c [w] = w"
| "intercalate c (w # v # ws) = w @ c # intercalate c (v # ws)"

lemma intercalate_Cons: "ws \<noteq> [] \<Longrightarrow> intercalate c (w # ws) = w @ c # intercalate c ws"
  by (cases ws) simp_all

lemma intercalate_split_on: "intercalate c (split_on (\<lambda>x. x = c) xs) = xs"
proof (induction xs)
  case Nil
  then show ?case by simp
next
  case (Cons x xs)
  obtain w ws where "split_on (\<lambda>x. x = c) xs = w # ws"
    using split_on_not_Nil by (cases "split_on (\<lambda>x. x = c) xs") blast+
  with Cons show ?case by (cases ws) (auto simp: intercalate_Cons)
qed

lemma split_on_intercalate:
  "ws \<noteq> [] \<Longrightarrow> (\<And>w. w \<in> set ws \<Longrightarrow> c \<notin> set w) \<Longrightarrow> split_on (\<lambda>x. x = c) (intercalate c ws) = ws"
proof (induction c ws rule: intercalate.induct)
  case (2 c w)
  then show ?case by (auto simp: list_all_iff intro!: split_on_no_sep)
next
  case (3 c w v ws)
  then have "split_on (\<lambda>x. x = c) w = [w]"
    by (intro split_on_no_sep) (auto simp: list_all_iff)
  with 3 show ?case by (simp add: split_on_append_sep)
qed simp

text \<open>\<^verbatim>\<open>iter().position(pred)\<close> and \<^verbatim>\<open>iter().rposition(pred)\<close>: the index of the first and of the last element that
  satisfies the predicate.\<close>

primrec position :: "('a \<Rightarrow> bool) \<Rightarrow> 'a list \<Rightarrow> nat option" where
  "position P [] = None"
| "position P (x # xs) = (if P x then Some 0 else map_option Suc (position P xs))"

primrec rposition :: "('a \<Rightarrow> bool) \<Rightarrow> 'a list \<Rightarrow> nat option" where
  "rposition P [] = None"
| "rposition P (x # xs) = (case rposition P xs of Some i \<Rightarrow> Some (Suc i) | None \<Rightarrow> if P x then Some 0 else None)"

lemma position_None_iff: "position P xs = None \<longleftrightarrow> (\<forall>x\<in>set xs. \<not> P x)"
  by (induction xs) auto

lemma position_Some_iff:
  "position P xs = Some i \<longleftrightarrow> i < length xs \<and> P (xs ! i) \<and> (\<forall>x\<in>set (take i xs). \<not> P x)"
proof (induction xs arbitrary: i)
  case (Cons x xs)
  then show ?case by (cases i) auto
qed simp

lemma rposition_None_iff: "rposition P xs = None \<longleftrightarrow> (\<forall>x\<in>set xs. \<not> P x)"
  by (induction xs) (auto split: option.splits)

lemma rposition_Some_iff:
  "rposition P xs = Some i \<longleftrightarrow> i < length xs \<and> P (xs ! i) \<and> (\<forall>x\<in>set (drop (Suc i) xs). \<not> P x)"
proof (induction xs arbitrary: i)
  case (Cons x xs)
  have "rposition P (x # xs) = Some 0 \<longleftrightarrow> P x \<and> rposition P xs = None"
    and "rposition P (x # xs) = Some (Suc n) \<longleftrightarrow> rposition P xs = Some n" for n
    by (auto split: option.splits)
  with Cons show ?case by (cases i) (simp_all add: rposition_None_iff conj_commute del: rposition.simps)
qed simp

lemma rposition_split:
  assumes "rposition P xs = Some i"
  obtains ys x zs where "xs = ys @ x # zs" and "length ys = i" and "P x" and "\<forall>z\<in>set zs. \<not> P z"
  using assms id_take_nth_drop [of i xs] unfolding rposition_Some_iff
  by (metis length_take min.absorb2 order_less_imp_le)

text \<open>The last run ends the slice, and the others spell what comes before the last separator.\<close>

lemma split_on_rposition:
  "split_on P xs = (case rposition P xs of None \<Rightarrow> [xs]
     | Some i \<Rightarrow> split_on P (take i xs) @ [drop (Suc i) xs])"
proof (cases "rposition P xs")
  case None
  then have "\<forall>x\<in>set xs. \<not> P x" by (simp add: rposition_None_iff)
  with None show ?thesis by (simp add: list_all_iff split_on_no_sep)
next
  case (Some i)
  then obtain ys x zs where "xs = ys @ x # zs" "length ys = i" "P x" "\<forall>z\<in>set zs. \<not> P z"
    by (rule rposition_split)
  with Some show ?thesis by (simp add: split_on_append_sep split_on_no_sep list_all_iff)
qed

section \<open>Orderings\<close>

text \<open>\<^verbatim>\<open>std::cmp::Ordering\<close>, \<^verbatim>\<open>Ord::cmp\<close> of a linear order and \<^verbatim>\<open>Ordering::then_with\<close>.\<close>

datatype Ordering = Less | Equal | Greater

definition cmp_of :: "'a::linorder \<Rightarrow> 'a \<Rightarrow> Ordering" where
  "cmp_of x y = (if x < y then Less else if x = y then Equal else Greater)"

definition then_with :: "Ordering \<Rightarrow> Ordering \<Rightarrow> Ordering" where
  "then_with a b = (case a of Equal \<Rightarrow> b | _ \<Rightarrow> a)"

primrec reverse :: "Ordering \<Rightarrow> Ordering" where
  "reverse Less = Greater"
| "reverse Equal = Equal"
| "reverse Greater = Less"

section \<open>Ordered maps\<close>

text \<open>A \<^verbatim>\<open>BTreeMap\<close>: its entries in the order of the keys.\<close>

fun bt_insert :: "'k::linorder \<Rightarrow> 'v \<Rightarrow> ('k \<times> 'v) list \<Rightarrow> ('k \<times> 'v) list" where
  "bt_insert k v [] = [(k, v)]"
| "bt_insert k v ((k', v') # m) =
     (if k < k' then (k, v) # (k', v') # m else if k = k' then (k, v) # m else (k', v') # bt_insert k v m)"

definition bt_ok :: "('k::linorder \<times> 'v) list \<Rightarrow> bool" where
  "bt_ok m \<longleftrightarrow> sorted_wrt (<) (map fst m)"

lemma bt_ok_Nil [simp]: "bt_ok []"
  by (simp add: bt_ok_def)

lemma keys_bt_insert [simp]: "fst ` set (bt_insert k v m) = insert k (fst ` set m)"
  by (induction k v m rule: bt_insert.induct) auto

lemma bt_insert_ok: "bt_ok m \<Longrightarrow> bt_ok (bt_insert k v m)"
proof (induction k v m rule: bt_insert.induct)
  case (2 k v k' v' m)
  have "k' < k \<Longrightarrow> \<forall>x\<in>fst ` set (bt_insert k v m). k' < x" using 2(2) by (auto simp: bt_ok_def)
  with 2 show ?case by (auto simp: bt_ok_def neq_iff)
qed (simp add: bt_ok_def)

lemma map_of_bt_insert: "bt_ok m \<Longrightarrow> map_of (bt_insert k v m) = (map_of m)(k \<mapsto> v)"
proof (induction k v m rule: bt_insert.induct)
  case (2 k v k' v' m)
  show ?case
  proof (cases k k' rule: linorder_cases)
    case less
    then show ?thesis by (auto simp: fun_eq_iff)
  next
    case greater
    with 2 show ?thesis by (auto simp: fun_eq_iff bt_ok_def)
  qed (auto simp: fun_eq_iff)
qed simp

lemma bt_ok_distinct: "bt_ok m \<Longrightarrow> distinct (map fst m)"
  by (auto simp: bt_ok_def strict_sorted_iff)

section \<open>Interfaces\<close>

text \<open>A comparison function that is a total order: \<open>Equal\<close> only for equal values, and consistent.\<close>

locale total_comparison =
  fixes cmp :: "'a \<Rightarrow> 'a \<Rightarrow> Ordering"
  assumes cmp_Equal: "cmp x y = Equal \<longleftrightarrow> x = y"
    and cmp_reverse: "cmp y x = reverse (cmp x y)"
    and cmp_Less_trans: "cmp x y = Less \<Longrightarrow> cmp y z = Less \<Longrightarrow> cmp x z = Less"
begin

lemma cmp_Greater_iff: "cmp x y = Greater \<longleftrightarrow> cmp y x = Less"
  using cmp_reverse [of y x] by (cases "cmp x y") simp_all

lemma cmp_trichotomy: "cmp x y = Less \<or> x = y \<or> cmp y x = Less"
  using cmp_Greater_iff cmp_Equal by (cases "cmp x y") auto

lemma cmp_irrefl: "cmp x x \<noteq> Less"
  using cmp_Equal [of x x] by simp

end

text \<open>A quoting of argument vectors: \<open>split\<close> reads back what \<open>join\<close> wrote.\<close>

locale argv_quoting =
  fixes join :: "'a list list \<Rightarrow> 'a list"
    and split :: "'a list \<Rightarrow> 'e + 'a list list"
    and representable :: "'a list list \<Rightarrow> bool"
  assumes split_join: "representable args \<Longrightarrow> split (join args) = Inr args"
begin

lemma join_inj:
  assumes "representable xs" and "representable ys" and "join xs = join ys"
  shows "xs = ys"
proof -
  from assms(3) have "split (join xs) = split (join ys)" by simp
  with assms(1,2) show ?thesis by (simp add: split_join)
qed

lemma join_normal_form: "split s = Inr args \<Longrightarrow> representable args \<Longrightarrow> split (join args) = split s"
  by (simp add: split_join)

end

text \<open>An encoding with one spelling per value: decoding reads back what was encoded, and whatever
  decodes is the encoding of its value.\<close>

locale codec =
  fixes encode :: "'a \<Rightarrow> 'b"
    and decode :: "'b \<Rightarrow> 'e + 'a"
    and valid :: "'a \<Rightarrow> bool"
  assumes decode_encode: "valid x \<Longrightarrow> decode (encode x) = Inr x"
    and encode_decode: "decode y = Inr x \<Longrightarrow> valid x \<and> encode x = y"
begin

lemma decode_iff: "decode y = Inr x \<longleftrightarrow> valid x \<and> encode x = y"
  using decode_encode encode_decode by blast

lemma one_spelling: "decode y = Inr x \<Longrightarrow> decode z = Inr x \<Longrightarrow> y = z"
  using encode_decode by blast

lemma encode_inj: "valid x \<Longrightarrow> valid y \<Longrightarrow> encode x = encode y \<Longrightarrow> x = y"
  by (metis decode_encode sum.inject(2))

end

text \<open>A transition system with an invariant, and one whose steps also move along a preorder: what holds of
  every step then holds of every run.\<close>

locale transition_system =
  fixes init :: "'s \<Rightarrow> bool"
    and step :: "'s \<Rightarrow> 's \<Rightarrow> bool"
    and inv :: "'s \<Rightarrow> bool"
  assumes init_inv: "init s \<Longrightarrow> inv s"
    and step_inv: "inv s \<Longrightarrow> step s s' \<Longrightarrow> inv s'"
begin

lemma run_inv: "step\<^sup>*\<^sup>* s s' \<Longrightarrow> inv s \<Longrightarrow> inv s'"
  by (induction rule: rtranclp_induct) (auto dest: step_inv)

lemma reachable_inv: "init s \<Longrightarrow> step\<^sup>*\<^sup>* s s' \<Longrightarrow> inv s'"
  using run_inv init_inv by blast

end

locale ordered_system = transition_system init step inv
  for init :: "'s \<Rightarrow> bool" and step :: "'s \<Rightarrow> 's \<Rightarrow> bool" and inv :: "'s \<Rightarrow> bool" +
  fixes before_or_at :: "'s \<Rightarrow> 's \<Rightarrow> bool"
  assumes refl_at: "before_or_at s s"
    and trans_at: "before_or_at s t \<Longrightarrow> before_or_at t u \<Longrightarrow> before_or_at s u"
    and step_at: "inv s \<Longrightarrow> step s s' \<Longrightarrow> before_or_at s s'"
begin

lemma run_at:
  assumes "step\<^sup>*\<^sup>* s s'" and "inv s"
  shows "before_or_at s s'"
  using assms
proof (induction rule: rtranclp_induct)
  case base
  show ?case by (rule refl_at)
next
  case (step t u)
  then have "inv t" using run_inv by blast
  with step show ?case using step_at trans_at by blast
qed

lemma reachable_run_at: "init r \<Longrightarrow> step\<^sup>*\<^sup>* r s \<Longrightarrow> step\<^sup>*\<^sup>* s s' \<Longrightarrow> before_or_at s s'"
  using run_at reachable_inv by blast

end

end
