(* ===== verification/Utf8.thy ===== *)
theory Utf8
  imports Prelude
begin

text \<open>
  The standard library's reading of UTF-8 that the sources use: \<^verbatim>\<open>std::str::from_utf8\<close>, and \<^verbatim>\<open>to_string_lossy\<close> and
  \<^verbatim>\<open>String::from_utf8_lossy\<close>, which write U+FFFD once for each maximal prefix of a character that is not completed. A
  \<^verbatim>\<open>str\<close> is its bytes.
\<close>

section \<open>One character\<close>

definition cont :: "u8 \<Rightarrow> bool" where
  "cont b \<longleftrightarrow> 0x80 \<le> b \<and> b \<le> 0xBF"

text \<open>The second bytes a lead byte of three or of four bytes allows.\<close>

definition second3 :: "u8 \<Rightarrow> u8 \<Rightarrow> bool" where
  "second3 a b \<longleftrightarrow> (if a = 0xE0 then 0xA0 \<le> b \<and> b \<le> 0xBF else if a = 0xED then 0x80 \<le> b \<and> b \<le> 0x9F else cont b)"

definition second4 :: "u8 \<Rightarrow> u8 \<Rightarrow> bool" where
  "second4 a b \<longleftrightarrow> (if a = 0xF0 then 0x90 \<le> b \<and> b \<le> 0xBF else if a = 0xF4 then 0x80 \<le> b \<and> b \<le> 0x8F else cont b)"

text \<open>Whether the bytes start with a character, and how many bytes it has; or how many bytes are one broken one.\<close>

definition next_char :: "bytes \<Rightarrow> bool \<times> nat" where
  "next_char s = (case s of
      [] \<Rightarrow> (False, 1)
    | a # r \<Rightarrow>
        if a < 0x80 then (True, 1)
        else if 0xC2 \<le> a \<and> a \<le> 0xDF then
          (case r of b # _ \<Rightarrow> if cont b then (True, 2) else (False, 1) | _ \<Rightarrow> (False, 1))
        else if 0xE0 \<le> a \<and> a \<le> 0xEF then
          (case r of
             b # c # _ \<Rightarrow> if \<not> second3 a b then (False, 1) else if cont c then (True, 3) else (False, 2)
           | [b] \<Rightarrow> if second3 a b then (False, 2) else (False, 1)
           | [] \<Rightarrow> (False, 1))
        else if 0xF0 \<le> a \<and> a \<le> 0xF4 then
          (case r of
             b # c # d # _ \<Rightarrow> if \<not> second4 a b then (False, 1) else if \<not> cont c then (False, 2)
               else if cont d then (True, 4) else (False, 3)
           | [b, c] \<Rightarrow> if \<not> second4 a b then (False, 1) else if cont c then (False, 3) else (False, 2)
           | [b] \<Rightarrow> if second4 a b then (False, 2) else (False, 1)
           | [] \<Rightarrow> (False, 1))
        else (False, 1))"

lemma next_char_pos: "0 < snd (next_char s)"
  by (auto simp: next_char_def split: list.splits)

lemma next_char_ascii: "a < 0x80 \<Longrightarrow> next_char (a # r) = (True, 1)"
  by (simp add: next_char_def)

text \<open>The character of its own bytes.\<close>

definition decode_char :: "bytes \<Rightarrow> nat" where
  "decode_char s = (case s of
      [a] \<Rightarrow> unat a
    | [a, b] \<Rightarrow> (unat a - 0xC0) * 64 + (unat b - 0x80)
    | [a, b, c] \<Rightarrow> (unat a - 0xE0) * 4096 + (unat b - 0x80) * 64 + (unat c - 0x80)
    | [a, b, c, d] \<Rightarrow> (unat a - 0xF0) * 262144 + (unat b - 0x80) * 4096 + (unat c - 0x80) * 64 + (unat d - 0x80)
    | _ \<Rightarrow> 0)"

section \<open>Strings\<close>

function utf8_valid :: "bytes \<Rightarrow> bool" where
  "utf8_valid s = (if s = [] then True else (case next_char s of (ok, n) \<Rightarrow> ok \<and> utf8_valid (drop n s)))"
  by auto

termination
  by (relation "measure length") (auto, metis diff_less length_greater_0_conv next_char_pos snd_conv)

definition from_utf8 :: "bytes \<Rightarrow> bytes option" where
  "from_utf8 s = (if utf8_valid s then Some s else None)"

definition REPLACEMENT :: bytes where
  "REPLACEMENT = [0xEF, 0xBF, 0xBD]"

function to_string_lossy :: "bytes \<Rightarrow> bytes" where
  "to_string_lossy s = (if s = [] then [] else (case next_char s of (ok, n) \<Rightarrow>
     (if ok then take n s else REPLACEMENT) @ to_string_lossy (drop n s)))"
  by auto

termination
  by (relation "measure length") (auto, metis diff_less length_greater_0_conv next_char_pos snd_conv)

declare utf8_valid.simps [simp del] to_string_lossy.simps [simp del]

lemma utf8_valid_Nil [simp]: "utf8_valid []" and lossy_Nil [simp]: "to_string_lossy [] = []"
  by (simp_all add: utf8_valid.simps [of "[]"] to_string_lossy.simps [of "[]"])

lemma utf8_valid_code [code]:
  "utf8_valid [] = True"
  "utf8_valid (a # s) = (case next_char (a # s) of (ok, n) \<Rightarrow> ok \<and> utf8_valid (drop n (a # s)))"
  by (simp_all add: utf8_valid.simps [of "a # s"])

lemma utf8_valid_ascii [simp]: "a < 0x80 \<Longrightarrow> utf8_valid (a # s) \<longleftrightarrow> utf8_valid s"
  by (simp add: utf8_valid.simps [of "a # s"] next_char_ascii)

lemma lossy_ascii: "a < 0x80 \<Longrightarrow> to_string_lossy (a # s) = a # to_string_lossy s"
  by (simp add: to_string_lossy.simps [of "a # s"] next_char_ascii)

lemma utf8_valid_all_ascii: "list_all (\<lambda>b. b < 0x80) s \<Longrightarrow> utf8_valid s"
  by (induction s) simp_all

text \<open>A byte that is not ASCII is not turned into one: a string whose lossy form starts with an ASCII byte starts with
  that byte.\<close>

lemma lossy_not_ascii: "\<not> a < 0x80 \<Longrightarrow> \<exists>b r. to_string_lossy (a # s) = b # r \<and> \<not> b < 0x80"
proof -
  assume a: "\<not> a < 0x80"
  obtain ok n where n: "next_char (a # s) = (ok, n)" by fastforce
  then obtain m where "n = Suc m" using next_char_pos [of "a # s"] gr0_implies_Suc by auto
  with a n show ?thesis by (auto simp: to_string_lossy.simps [of "a # s"] REPLACEMENT_def)
qed

lemma lossy_prefix_ascii:
  assumes "list_all (\<lambda>b. b < 0x80) p"
  shows "(\<exists>r. to_string_lossy s = p @ r) \<longleftrightarrow> (\<exists>r. s = p @ r)"
  using assms
proof (induction p arbitrary: s)
  case (Cons a p)
  show ?case
  proof (cases s)
    case (Cons b t)
    show ?thesis
    proof (cases "b < 0x80")
      case True
      with Cons.IH [of t] Cons.prems \<open>s = b # t\<close> show ?thesis by (auto simp: lossy_ascii)
    next
      case False
      with lossy_not_ascii [OF this, of t] Cons.prems \<open>s = b # t\<close> show ?thesis by auto
    qed
  qed simp
qed simp

lemma lossy_eq_ascii:
  assumes "list_all (\<lambda>b. b < 0x80) p"
  shows "to_string_lossy s = p \<longleftrightarrow> s = p"
proof
  assume e: "to_string_lossy s = p"
  then obtain r where r: "s = p @ r" using lossy_prefix_ascii [OF assms, of s] by (metis append_Nil2)
  have "to_string_lossy (p @ r) = p @ to_string_lossy r"
    using assms by (induction p) (simp_all add: lossy_ascii)
  with e r have "to_string_lossy r = []" by simp
  then have "r = []"
    using next_char_pos [of r] by (auto simp: to_string_lossy.simps [of r] REPLACEMENT_def split: if_splits prod.splits)
  with r show "s = p" by simp
next
  assume "s = p"
  with assms show "to_string_lossy s = p" by (induction p arbitrary: s) (simp_all add: lossy_ascii)
qed

lemma lossy_valid: "utf8_valid s \<Longrightarrow> to_string_lossy s = s"
proof (induction s rule: utf8_valid.induct)
  case (1 s)
  obtain ok n where n: "next_char s = (ok, n)" by fastforce
  show ?case
  proof (cases "s = []")
    case False
    with 1 n have "ok" "utf8_valid (drop n s)" by (auto simp: utf8_valid.simps [of s])
    with 1 n False show ?thesis by (simp add: to_string_lossy.simps [of s])
  qed simp
qed

end
