(* ===== verification/Env_Sanitize.thy ===== *)
theory Env_Sanitize
  imports Utf8 "HOL-Library.Multiset" "HOL-Library.List_Lexorder" "HOL-Library.Sublist"
begin

text \<open>
  \<^verbatim>\<open>src/src/elevation/sanitize.rs\<close>: which of the variables a caller sets reach an elevated program. A key or a value is
  an \<^verbatim>\<open>OsString\<close>, its bytes; a \<^verbatim>\<open>BTreeSet\<close> is a set; the order of keys is the order of bytes.
\<close>

section \<open>Policies\<close>

definition DEFAULT_DENYLIST :: "bytes list" where
  "DEFAULT_DENYLIST = map ascii [''IFS'', ''BASH_ENV'', ''ENV'', ''PS4'', ''TERMINFO'', ''TERMCAP'', ''HOSTALIASES'',
     ''RES_OPTIONS'', ''LIBPATH'', ''SHLIB_PATH'', ''GCONV_PATH'', ''PYTHONPATH'', ''PERL5LIB'', ''NODE_OPTIONS'']"

definition DENYLIST_PREFIXES :: "bytes list" where
  "DENYLIST_PREFIXES = map ascii [''LD_'', ''DYLD_'', ''_RLD'', ''LDR_'']"

definition is_denied :: "bytes \<Rightarrow> bool" where
  "is_denied key = (let k = to_string_lossy key in
     list_ex (\<lambda>p. prefix p k) DENYLIST_PREFIXES \<or> k \<in> set DEFAULT_DENYLIST)"

datatype Policy =
    Denylist "bytes set"
  | Allowlist "bytes set"
  | Filter "bytes \<Rightarrow> bytes \<Rightarrow> bool"
  | NonePolicy

record EnvSanitizer = policy :: Policy

definition default_sanitizer :: EnvSanitizer where
  "default_sanitizer = \<lparr>policy = Denylist {}\<rparr>"

definition keep_keys :: "EnvSanitizer \<Rightarrow> bytes list \<Rightarrow> EnvSanitizer" where
  "keep_keys s keys = (let extra = set keys in s\<lparr>policy := (case policy s of
      Denylist keep \<Rightarrow> Denylist (keep \<union> extra)
    | Allowlist allow \<Rightarrow> Allowlist (allow \<union> extra)
    | Filter f \<Rightarrow> Filter (\<lambda>k v. k \<in> extra \<or> f k v)
    | NonePolicy \<Rightarrow> NonePolicy)\<rparr>)"

definition allowlist :: "bytes list \<Rightarrow> EnvSanitizer" where
  "allowlist keys = \<lparr>policy = Allowlist (set keys)\<rparr>"

definition filter_sanitizer :: "(bytes \<Rightarrow> bytes \<Rightarrow> bool) \<Rightarrow> EnvSanitizer" where
  "filter_sanitizer f = \<lparr>policy = Filter f\<rparr>"

definition none_sanitizer :: EnvSanitizer where
  "none_sanitizer = \<lparr>policy = NonePolicy\<rparr>"

section \<open>Applying a policy\<close>

definition keeps :: "Policy \<Rightarrow> bytes \<Rightarrow> bytes \<Rightarrow> bool" where
  "keeps p k v = (case p of
      NonePolicy \<Rightarrow> True
    | Allowlist allow \<Rightarrow> k \<in> allow
    | Filter f \<Rightarrow> f k v
    | Denylist keep \<Rightarrow> k \<in> keep \<or> \<not> is_denied k)"

definition apply_step ::
  "Policy \<Rightarrow> (bytes \<times> bytes) list \<times> bytes list \<Rightarrow> bytes \<times> bytes \<Rightarrow> (bytes \<times> bytes) list \<times> bytes list" where
  "apply_step p s kv = (case s of (kept, stripped) \<Rightarrow> (case kv of (k, v) \<Rightarrow>
     if keeps p k v then (kept @ [(k, v)], stripped) else (kept, stripped @ [k])))"

definition apply_env :: "EnvSanitizer \<Rightarrow> (bytes \<times> bytes) list \<Rightarrow> (bytes \<times> bytes) list \<times> bytes list" where
  "apply_env s env = (case foldl (apply_step (policy s)) ([], []) env of
     (kept, stripped) \<Rightarrow> (sort_key fst kept, sort stripped))"

section \<open>What is kept\<close>

lemma apply_loop:
  "foldl (apply_step p) (ks, ss) env =
     (ks @ filter (\<lambda>(k, v). keeps p k v) env, ss @ map fst (filter (\<lambda>(k, v). \<not> keeps p k v) env))"
  by (induction env arbitrary: ks ss) (auto simp: apply_step_def)

lemma apply_env_eq:
  "apply_env s env = (sort_key fst (filter (\<lambda>(k, v). keeps (policy s) k v) env),
     sort (map fst (filter (\<lambda>(k, v). \<not> keeps (policy s) k v) env)))"
  by (simp add: apply_env_def apply_loop)

lemma DENYLIST_ascii:
  "p \<in> set DENYLIST_PREFIXES \<Longrightarrow> list_all (\<lambda>b. b < 0x80) p"
  "p \<in> set DEFAULT_DENYLIST \<Longrightarrow> list_all (\<lambda>b. b < 0x80) p"
  by (auto simp: DENYLIST_PREFIXES_def DEFAULT_DENYLIST_def of_char_def)

text \<open>A key that is not UTF-8 cannot hide a denied name behind its lossy form.\<close>

lemma is_denied_iff: "is_denied key \<longleftrightarrow> (\<exists>p\<in>set DENYLIST_PREFIXES. prefix p key) \<or> key \<in> set DEFAULT_DENYLIST"
proof -
  have "prefix p (to_string_lossy key) \<longleftrightarrow> prefix p key" if "p \<in> set DENYLIST_PREFIXES" for p
    using lossy_prefix_ascii [OF DENYLIST_ascii(1) [OF that], of key] by (simp add: prefix_def)
  moreover have "to_string_lossy key \<in> set DEFAULT_DENYLIST \<longleftrightarrow> key \<in> set DEFAULT_DENYLIST"
    using lossy_eq_ascii [OF DENYLIST_ascii(2)] by (metis (full_types))
  ultimately show ?thesis by (auto simp: is_denied_def Let_def list_ex_iff)
qed

text \<open>Sanitising loses and invents nothing: a variable is kept exactly when the policy keeps it, with its value,
  and its name is reported as stripped otherwise, with its number of occurrences; both lists are sorted by name.\<close>

theorem sanitize_partition:
  "case apply_env s env of (kept, stripped) \<Rightarrow>
     mset kept = filter_mset (\<lambda>(k, v). keeps (policy s) k v) (mset env) \<and>
     mset (map fst kept) + mset stripped = mset (map fst env) \<and>
     sorted (map fst kept) \<and> sorted stripped"
proof -
  have "mset (map fst (filter (\<lambda>(k, v). keeps (policy s) k v) env)) +
      mset (map fst (filter (\<lambda>(k, v). \<not> keeps (policy s) k v) env)) = mset (map fst env)"
    by (induction env) auto
  then show ?thesis by (simp add: apply_env_eq)
qed

text \<open>Under the default policy, with any keys added by \<open>keep\<close>, no variable of a denied name reaches the elevated
  program unless \<open>keep\<close> named it, whether or not the name is UTF-8; adding keys to a policy never strips what it kept.\<close>

theorem denied_not_forwarded:
  "((k, v) \<in> set (fst (apply_env (keep_keys default_sanitizer keys) env)) \<longleftrightarrow>
      (k, v) \<in> set env \<and> (k \<in> set keys \<or>
        (\<forall>p\<in>set DENYLIST_PREFIXES. \<not> prefix p k) \<and> k \<notin> set DEFAULT_DENYLIST)) \<and>
   set (fst (apply_env s env)) \<subseteq> set (fst (apply_env (keep_keys s keys) env))"
proof
  show "(k, v) \<in> set (fst (apply_env (keep_keys default_sanitizer keys) env)) \<longleftrightarrow>
      (k, v) \<in> set env \<and> (k \<in> set keys \<or>
        (\<forall>p\<in>set DENYLIST_PREFIXES. \<not> prefix p k) \<and> k \<notin> set DEFAULT_DENYLIST)"
    by (auto simp: apply_env_eq keep_keys_def default_sanitizer_def keeps_def is_denied_iff)
  show "set (fst (apply_env s env)) \<subseteq> set (fst (apply_env (keep_keys s keys) env))"
    by (cases "policy s") (auto simp: apply_env_eq keep_keys_def keeps_def Let_def)
qed

theorem denied_not_forwarded_witness:
  "(ascii ''LD_X'', ascii ''1'') \<notin> set (fst (apply_env (keep_keys default_sanitizer [ascii ''ENV'']) [(ascii ''LD_X'', ascii ''1''), (ascii ''ENV'', ascii ''2'')])) \<and>
   (ascii ''ENV'', ascii ''2'') \<in> set (fst (apply_env (keep_keys default_sanitizer [ascii ''ENV'']) [(ascii ''LD_X'', ascii ''1''), (ascii ''ENV'', ascii ''2'')]))"
proof -
  have "ascii ''LD_X'' \<notin> set [ascii ''ENV'']" and "\<exists>p\<in>set DENYLIST_PREFIXES. prefix p (ascii ''LD_X'')"
    and "(ascii ''ENV'', ascii ''2'') \<in> set [(ascii ''LD_X'', ascii ''1''), (ascii ''ENV'', ascii ''2'')]" by code_simp+
  with denied_not_forwarded [of _ _ "[ascii ''ENV'']" "[(ascii ''LD_X'', ascii ''1''), (ascii ''ENV'', ascii ''2'')]" default_sanitizer]
  show ?thesis by simp
qed

end
