(* ===== verification/Errors.thy ===== *)
theory Errors
  imports Prelude
begin

text \<open>
  \<^verbatim>\<open>src/src/error.rs\<close>: the error values the modelled components return. Message texts are not modelled,
  except where the code decides on them.
\<close>

datatype QuoteErrorKind = UnterminatedSingleQuote | UnterminatedDoubleQuote | TrailingBackslash
  | NonUtf8 | UnrepresentableChar

datatype QuoteError = QuoteError (qe_pos: nat) (qe_kind: QuoteErrorKind)

datatype ElevationErrorKind = BackendUnavailable | AuthFailed | AuthDeclined | NoTty | Unkillable | Untracked
  | CommandTooLong

datatype IoErrorKind = InvalidInput | InvalidData | NotFound | PermissionDenied | UnsupportedKind | OtherKind

datatype RecordErrorKind = UnknownVersion | ForeignPlatform | InvalidPid | ForeignBootSession | MissingBootSession
  | ForeignPidNamespace | MissingPidNamespace | ScopeUnreadable

text \<open>\<^verbatim>\<open>std::io::Error\<close>: what the system answered, or an error the library made from a kind.\<close>

datatype IoError = OsError i32 | KindError IoErrorKind

definition raw_os_error :: "IoError \<Rightarrow> i32 option" where
  "raw_os_error e = (case e of OsError n \<Rightarrow> Some n | KindError _ \<Rightarrow> None)"

text \<open>An error without the text that explains it to a person (\<^verbatim>\<open>detail\<close>): \<open>Unsupported\<close> names the operation and the platform,
  \<open>Unassessable\<close> has the I/O error behind it, if there is one, \<open>Io\<close> is the errno, \<open>IoKind\<close> an I/O error made from a kind, without an errno, and \<open>IoContext\<close> one that wraps another (\<^verbatim>\<open>io_context\<close>). The variants that no modelled component returns are left out.\<close>

datatype Error =
    Quote QuoteError
  | Io i32
  | IoKind IoErrorKind
  | IoContext IoError
  | Unsupported String.literal String.literal
  | Containment
  | Elevation ElevationErrorKind
  | Unassessable "IoError option"
  | NotThreadGroupLeader u32 IoError
  | IdentityRecord RecordErrorKind

definition io_error :: "IoError \<Rightarrow> Error" where
  "io_error e = (case e of OsError n \<Rightarrow> Io n | KindError k \<Rightarrow> IoKind k)"

end
