(* ===== verification/Elevation_Plan.thy ===== *)
theory Elevation_Plan
  imports Utf8 Errors
begin

text \<open>
  \<^verbatim>\<open>src/src/elevation/plan.rs\<close>, with the types of \<^verbatim>\<open>elevation.rs\<close>, and \<^verbatim>\<open>src/src/elevation/pkexec.rs\<close>: whether and how a
  request for privilege is carried out, from the facts of the host alone. Paths and secrets are bytes; the open file of
  \<^verbatim>\<open>pkexec_pin\<close> is its descriptor.
\<close>

section \<open>The request and the host\<close>

datatype Os = Unix | Linux | MacOs | Windows

datatype Backend = Auto | Sudo | Doas | Pkexec

datatype Auth = Interactive | NonInteractive | Askpass bytes | Stdin bytes | Gui

datatype Privilege = Unprivileged | Elevated

definition debug_backend :: "Backend \<Rightarrow> String.literal" where
  "debug_backend b = (case b of Auto \<Rightarrow> STR ''Auto'' | Sudo \<Rightarrow> STR ''Sudo'' | Doas \<Rightarrow> STR ''Doas'' | Pkexec \<Rightarrow> STR ''Pkexec'')"

definition is_macos_gui_auto :: "Os \<Rightarrow> Backend \<Rightarrow> Auth \<Rightarrow> bool" where
  "is_macos_gui_auto os backend auth \<longleftrightarrow> os = MacOs \<and> auth = Gui \<and> backend = Auto"

record BackendSet =
  bs_sudo :: "bytes option"
  bs_doas :: "bytes option"
  bs_pkexec :: "bytes option"
  bs_osascript :: "bytes option"

definition no_backends :: BackendSet where
  "no_backends = \<lparr>bs_sudo = None, bs_doas = None, bs_pkexec = None, bs_osascript = None\<rparr>"

definition backend_path :: "BackendSet \<Rightarrow> Backend \<Rightarrow> bytes option" where
  "backend_path s backend = (case backend of
      Sudo \<Rightarrow> bs_sudo s
    | Doas \<Rightarrow> bs_doas s
    | Pkexec \<Rightarrow> bs_pkexec s
    | Auto \<Rightarrow> (case bs_sudo s of Some p \<Rightarrow> Some p | None \<Rightarrow> bs_doas s))"

section \<open>The version of \<open>pkexec\<close>\<close>

datatype PkexecVersion =
    NotProbed
  | Unresolved bytes bytes
  | SpawnFailed bytes
  | VersionFailed bytes bytes bytes
  | NonUtf8Version bytes
  | Unparsed bytes
  | Parsed bytes "u32 option"

abbreviation KEEP_CWD_SINCE :: u32 where "KEEP_CWD_SINCE \<equiv> 121"

definition strip_prefix :: "bytes \<Rightarrow> bytes \<Rightarrow> bytes option" where
  "strip_prefix p s = (if take (length p) s = p then Some (drop (length p) s) else None)"

definition strip_newline :: "bytes \<Rightarrow> bytes option" where
  "strip_newline s = (if s \<noteq> [] \<and> last s = 0x0A then Some (butlast s) else None)"

definition all_digits :: "bytes \<Rightarrow> bool" where
  "all_digits s \<longleftrightarrow> s \<noteq> [] \<and> list_all (\<lambda>b. 0x30 \<le> b \<and> b \<le> 0x39) s"

text \<open>\<^verbatim>\<open>str::parse::<u32>\<close> on digits alone: the number, refused when it does not fit.\<close>

definition digits_value :: "bytes \<Rightarrow> nat" where
  "digits_value = foldl (\<lambda>n b. 10 * n + unat (b - 0x30)) 0"

definition parse_u32 :: "bytes \<Rightarrow> u32 option" where
  "parse_u32 s = (if digits_value s < 2 ^ 32 then Some (of_nat (digits_value s)) else None)"

definition parse_version :: "bytes \<Rightarrow> PkexecVersion" where
  "parse_version stdout = (case from_utf8 stdout of
      None \<Rightarrow> NonUtf8Version (to_string_lossy stdout)
    | Some text \<Rightarrow> (case Option.bind (strip_prefix (ascii ''pkexec version '') text) strip_newline of
          None \<Rightarrow> Unparsed text
        | Some version \<Rightarrow> (case strip_prefix (ascii ''0.'') version of
              Some minor \<Rightarrow> if all_digits minor then Parsed version None else Unparsed text
            | None \<Rightarrow>
                if all_digits version \<and> hd version \<noteq> 0x30 then
                  (case parse_u32 version of Some n \<Rightarrow> Parsed version (Some n) | None \<Rightarrow> Unparsed text)
                else Unparsed text)))"

definition version_refusal :: "PkexecVersion \<Rightarrow> Error option" where
  "version_refusal v = (let refused =
      Some (Unsupported (STR ''elevation through a pkexec not shown to be polkit 121 or later'') (STR ''unix'')) in
     (case v of
        Parsed _ (Some n) \<Rightarrow> if KEEP_CWD_SINCE \<le> n then None else refused
      | _ \<Rightarrow> refused))"

section \<open>The planner\<close>

record Host =
  elevated :: bool
  has_tty :: bool
  available :: BackendSet
  host_os :: Os
  arg_max :: "nat option"
  pkexec_version :: PkexecVersion
  pkexec_pin :: "nat option"

datatype Transition =
    RunAsIs
  | ElevatePosix Backend bytes Auth
  | ElevateWindows Auth
  | ElevateMacosGui bytes "nat option"
  | Reject Error

definition reject_backend_unavailable :: Transition where
  "reject_backend_unavailable = Reject (Elevation BackendUnavailable)"

definition asks_password :: "Auth \<Rightarrow> bool" where
  "asks_password auth = (case auth of Askpass _ \<Rightarrow> True | Stdin _ \<Rightarrow> True | _ \<Rightarrow> False)"

definition effective_backend :: "Backend \<Rightarrow> BackendSet \<Rightarrow> Backend option" where
  "effective_backend backend avail = (case backend of
      Auto \<Rightarrow> if bs_sudo avail \<noteq> None then Some Sudo else if bs_doas avail \<noteq> None then Some Doas else None
    | explicit \<Rightarrow> Some explicit)"

definition structural_posix :: "Os \<Rightarrow> Backend \<Rightarrow> Auth \<Rightarrow> BackendSet \<Rightarrow> Error option" where
  "structural_posix os backend auth avail = (
     let platform = (if os = MacOs then STR ''macos'' else STR ''unix'');
         unsupported = (\<lambda>op. Some (Unsupported op platform))
     in
     if os = MacOs \<and> backend = Pkexec then unsupported (STR ''Backend::'' + debug_backend backend)
     else if os = Unix \<and> backend = Pkexec then unsupported (STR ''Backend::Pkexec'')
     else if auth = Gui \<and> (if os = MacOs then \<not> is_macos_gui_auto os backend auth else backend \<noteq> Pkexec)
       then unsupported (debug_backend backend + STR '' + Auth::Gui'')
     else if backend = Pkexec \<and> auth \<noteq> Gui then unsupported (STR ''pkexec + non-Gui auth'')
     else if asks_password auth then
       (case effective_backend backend avail of
          None \<Rightarrow> None
        | Some eff \<Rightarrow>
            if eff = Sudo then None
            else
              let kind = (case auth of Askpass _ \<Rightarrow> STR ''Askpass'' | _ \<Rightarrow> STR ''Stdin'');
                  op = (if backend = Auto then STR ''Auto (resolves to '' + debug_backend eff + STR '') + '' + kind
                        else debug_backend backend + STR '' + '' + kind)
              in unsupported op)
     else None)"

definition structural_windows :: "Backend \<Rightarrow> Auth \<Rightarrow> Error option" where
  "structural_windows backend auth =
     (if backend \<noteq> Auto then Some (Unsupported (STR ''elevation backend '' + debug_backend backend) (STR ''windows''))
      else if auth = NonInteractive \<or> asks_password auth
        then Some (Unsupported (STR ''runas + non-interactive/askpass/stdin auth'') (STR ''windows''))
      else None)"

definition resolve_backend :: "Host \<Rightarrow> Backend \<Rightarrow> (Backend \<times> bytes) option" where
  "resolve_backend h backend = (case backend of
      Auto \<Rightarrow>
        (case bs_sudo (available h) of
           Some p \<Rightarrow> Some (Sudo, p)
         | None \<Rightarrow> (case bs_doas (available h) of Some p \<Rightarrow> Some (Doas, p) | None \<Rightarrow> None))
    | explicit \<Rightarrow>
        (case backend_path (available h) explicit of Some p \<Rightarrow> Some (explicit, p) | None \<Rightarrow> None))"

definition resolve_posix :: "Host \<Rightarrow> Backend \<Rightarrow> Auth \<Rightarrow> Transition" where
  "resolve_posix h backend auth = (case resolve_backend h backend of
      None \<Rightarrow> reject_backend_unavailable
    | Some (resolved, path) \<Rightarrow>
        if auth = Interactive \<and> \<not> has_tty h then Reject (Elevation NoTty)
        else ElevatePosix resolved path auth)"

definition structural :: "Host \<Rightarrow> Backend \<Rightarrow> Auth \<Rightarrow> Error option" where
  "structural h backend auth =
     (if host_os h = Windows then structural_windows backend auth
      else structural_posix (host_os h) backend auth (available h))"

definition carry_out :: "Host \<Rightarrow> Backend \<Rightarrow> Auth \<Rightarrow> Transition" where
  "carry_out h backend auth =
     (if host_os h = Windows then ElevateWindows auth
      else if host_os h = MacOs \<and> is_macos_gui_auto (host_os h) backend auth then
        (case bs_osascript (available h) of
           Some p \<Rightarrow> ElevateMacosGui p (arg_max h)
         | None \<Rightarrow> reject_backend_unavailable)
      else resolve_posix h backend auth)"

definition plan :: "Host \<Rightarrow> Privilege \<Rightarrow> Backend \<Rightarrow> Auth \<Rightarrow> Transition" where
  "plan h target backend auth =
     (if target \<noteq> Elevated then RunAsIs
      else (case structural h backend auth of
          Some error \<Rightarrow> Reject error
        | None \<Rightarrow> if elevated h then RunAsIs else carry_out h backend auth))"

definition launches_pkexec :: "Os \<Rightarrow> Backend \<Rightarrow> Auth \<Rightarrow> bool \<Rightarrow> bool" where
  "launches_pkexec os backend auth elev = (
     let host = \<lparr>elevated = elev, has_tty = True, available = no_backends\<lparr>bs_pkexec := Some (ascii ''pkexec'')\<rparr>,
           host_os = os, arg_max = None, pkexec_version = NotProbed, pkexec_pin = None\<rparr>
     in (case plan host Elevated backend auth of ElevatePosix b _ _ \<Rightarrow> b = Pkexec | _ \<Rightarrow> False))"

section \<open>What the planner guarantees\<close>

lemma structural_Unsupported: "structural h b a = Some e \<Longrightarrow> \<exists>op pl. e = Unsupported op pl"
  by (auto simp: structural_def structural_posix_def structural_windows_def Let_def split: if_splits option.splits)

lemma structural_elevated [simp]: "structural (h\<lparr>elevated := e\<rparr>) b a = structural h b a"
  by (simp add: structural_def)

lemma carry_out_rejects: "carry_out h b a = Reject e \<Longrightarrow> \<exists>k. e = Elevation k"
  by (auto simp: carry_out_def resolve_posix_def reject_backend_unavailable_def split: if_splits option.splits)

text \<open>C10: a verdict on the shape of a request does not depend on the privilege of the caller: an elevated caller is
  refused exactly the requests an unprivileged one is refused as unsupported, with the same error, and otherwise runs
  the program as it is.\<close>

theorem verdict_ignores_privilege:
  "plan (h\<lparr>elevated := True\<rparr>) Elevated b a =
     (case plan (h\<lparr>elevated := False\<rparr>) Elevated b a of
        Reject (Unsupported op pl) \<Rightarrow> Reject (Unsupported op pl)
      | _ \<Rightarrow> RunAsIs)"
proof (cases "structural h b a")
  case (Some e)
  with structural_Unsupported [OF this] show ?thesis by (auto simp: plan_def)
next
  case None
  then show ?thesis
    using carry_out_rejects [of "h\<lparr>elevated := False\<rparr>" b a]
    by (cases "carry_out (h\<lparr>elevated := False\<rparr>) b a") (auto simp: plan_def)
qed

lemma resolve_backend_path:
  "resolve_backend h b = Some (b', p) \<Longrightarrow>
     b' \<noteq> Auto \<and> backend_path (available h) b' = Some p \<and> effective_backend b (available h) = Some b' \<and>
     (b \<noteq> Auto \<longrightarrow> b' = b) \<and> (b' = Pkexec \<longrightarrow> b = Pkexec)"
  by (cases b) (auto simp: resolve_backend_def backend_path_def effective_backend_def split: option.splits)

lemma structural_posix_None:
  assumes "structural_posix os b a bs = None"
  shows "b = Pkexec \<Longrightarrow> os \<noteq> MacOs \<and> os \<noteq> Unix \<and> a = Gui"
    and "a = Gui \<Longrightarrow> (if os = MacOs then b = Auto else b = Pkexec)"
    and "asks_password a \<Longrightarrow> effective_backend b bs = Some b' \<Longrightarrow> b' = Sudo"
proof -
  show "b = Pkexec \<Longrightarrow> os \<noteq> MacOs \<and> os \<noteq> Unix \<and> a = Gui"
    using assms by (simp add: structural_posix_def Let_def split: if_splits)
  show "a = Gui \<Longrightarrow> (if os = MacOs then b = Auto else b = Pkexec)"
    using assms by (simp add: structural_posix_def Let_def is_macos_gui_auto_def split: if_splits)
  show "asks_password a \<Longrightarrow> effective_backend b bs = Some b' \<Longrightarrow> b' = Sudo"
    using assms by (simp add: structural_posix_def Let_def split: if_splits)
qed

lemma plan_ElevatePosix:
  assumes "plan h t b a = ElevatePosix b' p a'"
  shows "t = Elevated" "\<not> elevated h" "host_os h \<noteq> Windows" "a' = a" "a = Interactive \<longrightarrow> has_tty h"
    "structural_posix (host_os h) b a (available h) = None" "resolve_backend h b = Some (b', p)"
    "a = Gui \<longleftrightarrow> b' = Pkexec" "b' = Pkexec \<longrightarrow> host_os h = Linux \<and> b = Pkexec"
proof -
  have s: "structural h b a = None" and t: "t = Elevated" "\<not> elevated h" and c: "carry_out h b a = ElevatePosix b' p a'"
    using assms by (auto simp: plan_def split: if_splits option.splits)
  show "t = Elevated" "\<not> elevated h" by fact+
  show w: "host_os h \<noteq> Windows" using c by (auto simp: carry_out_def)
  with s show sp: "structural_posix (host_os h) b a (available h) = None" by (simp add: structural_def)
  have m: "\<not> is_macos_gui_auto (host_os h) b a" and r: "resolve_posix h b a = ElevatePosix b' p a'"
    using c w by (auto simp: carry_out_def is_macos_gui_auto_def reject_backend_unavailable_def split: if_splits option.splits)
  then show rb: "resolve_backend h b = Some (b', p)" and "a' = a" and "a = Interactive \<longrightarrow> has_tty h"
    by (auto simp: resolve_posix_def reject_backend_unavailable_def split: option.splits prod.splits if_splits)
  note rb' = resolve_backend_path [OF rb]
  show "a = Gui \<longleftrightarrow> b' = Pkexec"
  proof
    assume "a = Gui"
    with structural_posix_None(2) [OF sp] m have "b = Pkexec" by (simp add: is_macos_gui_auto_def split: if_splits)
    with rb' show "b' = Pkexec" by simp
  qed (use rb' structural_posix_None(1) [OF sp] in simp)
  show "b' = Pkexec \<longrightarrow> host_os h = Linux \<and> b = Pkexec"
    using rb' w structural_posix_None(1) [OF sp] by (cases "host_os h") auto
qed

lemma launches_pkexec_eq: "launches_pkexec os b a e \<longleftrightarrow> os = Linux \<and> b = Pkexec \<and> a = Gui \<and> \<not> e"
proof
  assume "launches_pkexec os b a e"
  then obtain p a' where "plan \<lparr>elevated = e, has_tty = True, available = no_backends\<lparr>bs_pkexec := Some (ascii ''pkexec'')\<rparr>,
      host_os = os, arg_max = None, pkexec_version = NotProbed, pkexec_pin = None\<rparr> Elevated b a = ElevatePosix Pkexec p a'"
    by (auto simp: launches_pkexec_def Let_def split: Transition.splits)
  from plan_ElevatePosix [OF this] show "os = Linux \<and> b = Pkexec \<and> a = Gui \<and> \<not> e" by simp
next
  assume "os = Linux \<and> b = Pkexec \<and> a = Gui \<and> \<not> e"
  moreover have "launches_pkexec Linux Pkexec Gui False" by code_simp
  ultimately show "launches_pkexec os b a e" by simp
qed

text \<open>C9: when the planner wraps a program, it names the resolved backend by the path that was found for it, only for an
  unprivileged caller; a password goes only to \<open>sudo\<close>, a graphical request only to a \<open>pkexec\<close> on Linux that detection
  opens and probes, and an interactive one only to a caller with a terminal.\<close>

theorem elevation_is_guarded:
  assumes "plan h t b a = ElevatePosix b' p a'"
  shows "t = Elevated \<and> \<not> elevated h \<and> host_os h \<noteq> Windows \<and> a' = a \<and>
    b' \<noteq> Auto \<and> backend_path (available h) b' = Some p \<and> (b \<noteq> Auto \<longrightarrow> b' = b) \<and>
    (asks_password a \<longrightarrow> b' = Sudo) \<and> (a = Gui \<longleftrightarrow> b' = Pkexec) \<and>
    (b' = Pkexec \<longrightarrow> launches_pkexec (host_os h) b a (elevated h)) \<and>
    (a = Interactive \<longrightarrow> has_tty h)"
proof -
  note p = plan_ElevatePosix [OF assms]
  note rb = resolve_backend_path [OF p(7)]
  have "asks_password a \<longrightarrow> b' = Sudo" using structural_posix_None(3) [OF p(6)] rb by blast
  with p(1-5,8,9) rb show ?thesis unfolding launches_pkexec_eq by (intro conjI) blast+
qed

theorem elevation_is_guarded_witness:
  "plan \<lparr>elevated = False, has_tty = False, available = no_backends\<lparr>bs_sudo := Some (ascii ''/usr/bin/sudo'')\<rparr>,
      host_os = Linux, arg_max = None, pkexec_version = NotProbed, pkexec_pin = None\<rparr> Elevated Auto (Stdin [1])
    = ElevatePosix Sudo (ascii ''/usr/bin/sudo'') (Stdin [1]) \<and> (Stdin [1] = Gui \<longleftrightarrow> Sudo = Pkexec)"
  (is "?plan \<and> _")
proof -
  have p: ?plan by code_simp
  from elevation_is_guarded [OF this] have "Stdin [1] = Gui \<longleftrightarrow> Sudo = Pkexec" by blast
  with p show ?thesis by blast
qed

section \<open>Which \<open>pkexec\<close> may be launched\<close>

lemma strip_prefix_Some: "strip_prefix p s = Some r \<longleftrightarrow> s = p @ r"
  by (auto simp: strip_prefix_def) (metis append_take_drop_id)

lemma strip_newline_Some: "strip_newline s = Some r \<longleftrightarrow> s = r @ [0x0A]"
  by (auto simp: strip_newline_def) (metis append_butlast_last_id)

lemma parse_u32_Some: "parse_u32 v = Some n \<longleftrightarrow> digits_value v = unat n"
proof -
  have "unat n < 2 ^ 32" for n :: u32 using unsigned_less [of n] by simp
  then show ?thesis by (auto simp: parse_u32_def unat_of_nat unsigned_of_nat take_bit_nat_eq_self)
qed

lemma not_old_scheme: "all_digits v \<Longrightarrow> hd v \<noteq> 0x30 \<Longrightarrow> strip_prefix (ascii ''0.'') v = None"
  by (cases v) (auto simp: strip_prefix_def of_char_def)

lemma parse_version_Some:
  "(\<exists>w. parse_version out = Parsed w (Some n)) \<longleftrightarrow>
     (\<exists>v. out = ascii ''pkexec version '' @ v @ [0x0A] \<and> all_digits v \<and> hd v \<noteq> 0x30 \<and> digits_value v = unat n)"
  (is "?l \<longleftrightarrow> ?r")
proof
  assume ?l
  then show ?r
    by (fastforce simp: parse_version_def from_utf8_def bind_eq_Some_conv strip_prefix_Some strip_newline_Some
        parse_u32_Some split: option.splits if_splits)
next
  assume ?r
  then obtain v where v: "out = ascii ''pkexec version '' @ v @ [0x0A]" "all_digits v" "hd v \<noteq> 0x30" "digits_value v = unat n"
    by blast
  have d: "list_all (\<lambda>b. b < 0x80) v"
    using v(2) unfolding all_digits_def list_all_iff by (auto intro: le_less_trans)
  have "utf8_valid out" unfolding v(1) using d by (intro utf8_valid_all_ascii) (simp add: of_char_def)
  moreover have "strip_prefix (ascii ''pkexec version '') out = Some (v @ [0x0A])" "strip_newline (v @ [0x0A]) = Some v"
    unfolding strip_prefix_Some strip_newline_Some v(1) by simp_all
  moreover have "parse_u32 v = Some n" using v(4) by (simp add: parse_u32_Some)
  ultimately show ?l using v(2,3) not_old_scheme [OF v(2,3)] by (simp add: parse_version_def from_utf8_def)
qed

text \<open>Cosca launches only a \<open>pkexec\<close> whose \<open>--version\<close> printed exactly \<open>pkexec version N\<close> and a newline, with \<open>N\<close> a number
  without a leading zero that is 121 or more: every other output, and every failure to read one, is refused.\<close>

theorem version_accepted_iff:
  "version_refusal (parse_version out) = None \<longleftrightarrow>
     (\<exists>v. out = ascii ''pkexec version '' @ v @ [0x0A] \<and> all_digits v \<and> hd v \<noteq> 0x30 \<and>
        121 \<le> digits_value v \<and> digits_value v < 2 ^ 32)"
  (is "?l \<longleftrightarrow> ?r")
proof -
  have "?l \<longleftrightarrow> (\<exists>n w. parse_version out = Parsed w (Some n) \<and> KEEP_CWD_SINCE \<le> n)"
    by (auto simp: version_refusal_def Let_def split: PkexecVersion.splits option.splits if_splits)
  also have "\<dots> \<longleftrightarrow> (\<exists>n. KEEP_CWD_SINCE \<le> n \<and> (\<exists>v. out = ascii ''pkexec version '' @ v @ [0x0A] \<and> all_digits v \<and>
      hd v \<noteq> 0x30 \<and> digits_value v = unat n))"
    unfolding parse_version_Some [symmetric] by blast
  also have "\<dots> \<longleftrightarrow> ?r"
  proof -
    have "(\<exists>n. KEEP_CWD_SINCE \<le> n \<and> d = unat n) \<longleftrightarrow> 121 \<le> d \<and> d < 2 ^ 32" for d
    proof
      assume "\<exists>n. KEEP_CWD_SINCE \<le> n \<and> d = unat n"
      then obtain n :: u32 where "KEEP_CWD_SINCE \<le> n" "d = unat n" by blast
      then show "121 \<le> d \<and> d < 2 ^ 32" using unsigned_less [of n] by (simp add: word_le_nat_alt)
    next
      assume d: "121 \<le> d \<and> d < 2 ^ 32"
      then have "unat (of_nat d :: u32) = d" by (simp add: unsigned_of_nat take_bit_nat_eq_self)
      with d show "\<exists>n. KEEP_CWD_SINCE \<le> n \<and> d = unat n"
        by (intro exI [of _ "of_nat d :: u32"]) (simp add: word_le_nat_alt)
    qed
    then show ?thesis by blast
  qed
  finally show ?thesis .
qed

end
