(* ===== verification/Elevation_Front.thy ===== *)
theory Elevation_Front
  imports Elevation_Plan
begin

text \<open>
  \<^verbatim>\<open>src/src/elevation/front.rs\<close>, and \<^verbatim>\<open>kill\<close> on Unix from \<^verbatim>\<open>src/src/child.rs\<close>: what a forced kill and a \<^verbatim>\<open>SIGTERM\<close> of a
  child may do when the tracked process is an elevation front. Every read of the system (\<^verbatim>\<open>running\<close>, \<^verbatim>\<open>in_cgroup\<close>, \<^verbatim>\<open>exited\<close>,
  \<^verbatim>\<open>under_leaf\<close>) is an argument, one per read in the order of the code, with \<open>Inl errno\<close> for a failed one; the same for
  what a send answers. What is sent is a trace.
\<close>

section \<open>Fronts\<close>

datatype ElevatedVia = Wrapped Backend | WindowsUac | MacosOsascript | AlreadyElevated

definition program_outlives_child :: "ElevatedVia \<Rightarrow> bool" where
  "program_outlives_child via = (case via of Wrapped _ \<Rightarrow> True | MacosOsascript \<Rightarrow> True | _ \<Rightarrow> False)"

datatype Front = FrontSudo | FrontDoas | FrontOsascript

definition relays_term :: "Front \<Rightarrow> bool" where
  "relays_term f \<longleftrightarrow> f \<noteq> FrontOsascript"

definition front :: "ElevatedVia option \<Rightarrow> Front option" where
  "front via = (case via of
      None \<Rightarrow> None
    | Some (Wrapped Sudo) \<Rightarrow> Some FrontSudo
    | Some (Wrapped Doas) \<Rightarrow> Some FrontDoas
    | Some MacosOsascript \<Rightarrow> Some FrontOsascript
    | Some _ \<Rightarrow> None)"

section \<open>Gates\<close>

datatype Gate = Open | ExitedFront | CgroupOnly | Closed Error

definition refused :: Error where
  "refused = Elevation Unkillable"

type_synonym io_bool = "i32 + bool"

definition kill_gate :: "Front option \<Rightarrow> 'e + bool \<Rightarrow> 'f + bool \<Rightarrow> 'e + bool \<Rightarrow> Gate" where
  "kill_gate fr running placed running_again = (case fr of
      None \<Rightarrow> Open
    | Some f \<Rightarrow>
        if running = Inr False then ExitedFront
        else if placed \<noteq> Inr True \<and> running_again = Inr False then ExitedFront
        else (case placed of
            Inr True \<Rightarrow> CgroupOnly
          | Inr False \<Rightarrow> Closed refused
          | Inl _ \<Rightarrow> Closed refused))"

definition cgroup_kill_reached :: "Front option \<Rightarrow> 'e + bool \<Rightarrow> 'f + bool \<Rightarrow> 'e + bool \<Rightarrow> Error + unit" where
  "cgroup_kill_reached fr exited under_leaf exited_again = (case fr of
      None \<Rightarrow> Inl Containment
    | Some f \<Rightarrow>
        if exited = Inr True then Inr ()
        else if under_leaf \<noteq> Inr True \<and> exited_again = Inr True then Inr ()
        else if under_leaf = Inr True then Inr ()
        else Inl refused)"

definition cgroup_kill_failed :: "Front option \<Rightarrow> Error \<Rightarrow> Error" where
  "cgroup_kill_failed fr error = (case fr of None \<Rightarrow> error | Some f \<Rightarrow> refused)"

definition terminate_gate :: "Front option \<Rightarrow> 'e + bool \<Rightarrow> Gate" where
  "terminate_gate fr running = (case fr of
      None \<Rightarrow> Open
    | Some f \<Rightarrow>
        if relays_term f then Open
        else (case running of
            Inr False \<Rightarrow> Open
          | Inr True \<Rightarrow> Closed refused
          | Inl _ \<Rightarrow> Closed refused))"

section \<open>Killing a child\<close>

text \<open>\<^verbatim>\<open>io::ErrorKind::PermissionDenied\<close> on Linux: \<^verbatim>\<open>EPERM\<close> and \<^verbatim>\<open>EACCES\<close>.\<close>

definition permission_denied :: "i32 \<Rightarrow> bool" where
  "permission_denied e \<longleftrightarrow> e = 1 \<or> e = 13"

definition map_elevated_kill_error :: "i32 \<Rightarrow> bool \<Rightarrow> Error" where
  "map_elevated_kill_error e elevated_wrapper =
     (if elevated_wrapper \<and> permission_denied e then Elevation Unkillable else Io e)"

datatype Sent = Delivered | Gone | Unverified

datatype Send = Root_Kill | Cgroup_Kill

record KillWorld =
  kw_running :: io_bool
  kw_in_cgroup :: io_bool
  kw_running_again :: io_bool
  kw_unpinned :: bool
  kw_kill_root :: "i32 + Sent"
  kw_cgroup_kill :: "Error + unit"
  kw_exited :: io_bool
  kw_under_leaf :: io_bool
  kw_exited_again :: io_bool

record Child =
  ch_front :: "Front option"
  ch_elevated_wrapper :: bool

definition kill_sent_gated :: "KillWorld \<Rightarrow> Child \<Rightarrow> Gate \<Rightarrow> Send list \<times> (Error + Sent)" where
  "kill_sent_gated w c gate = (case gate of
      Open \<Rightarrow> ([Root_Kill], (case kw_kill_root w of
          Inr s \<Rightarrow> Inr s
        | Inl e \<Rightarrow> Inl (map_elevated_kill_error e (ch_elevated_wrapper c))))
    | ExitedFront \<Rightarrow> ([Root_Kill], (case kw_kill_root w of
          Inr s \<Rightarrow> Inr s
        | Inl e \<Rightarrow> if permission_denied e then Inr Delivered else Inl (Io e)))
    | CgroupOnly \<Rightarrow> ([Cgroup_Kill], (case kw_cgroup_kill w of
          Inl e \<Rightarrow> Inl (cgroup_kill_failed (ch_front c) e)
        | Inr _ \<Rightarrow> (case cgroup_kill_reached (ch_front c) (kw_exited w) (kw_under_leaf w) (kw_exited_again w) of
              Inl e \<Rightarrow> Inl e
            | Inr _ \<Rightarrow> Inr Delivered)))
    | Closed unkillable \<Rightarrow> ([], Inl unkillable))"

text \<open>A root that launchd holds (\<open>kw_unpinned\<close>, which only macOS reads) is refused before anything is sent, unless the gate
  is closed already.\<close>

definition kill_sent :: "KillWorld \<Rightarrow> Child \<Rightarrow> Send list \<times> (Error + Sent)" where
  "kill_sent w c = (let gate = kill_gate (ch_front c) (kw_running w) (kw_in_cgroup w) (kw_running_again w) in
     if (case gate of Closed _ \<Rightarrow> False | _ \<Rightarrow> True) \<and> kw_unpinned w then ([], Inl (Unassessable None))
     else kill_sent_gated w c gate)"

definition kill :: "KillWorld \<Rightarrow> Child \<Rightarrow> Send list \<times> (Error + unit)" where
  "kill w c = (case kill_sent w c of (sent, r) \<Rightarrow> (sent, (case r of Inl e \<Rightarrow> Inl e | Inr _ \<Rightarrow> Inr ())))"

section \<open>What a kill may do to a front\<close>

lemma kill_gate_front:
  "kill_gate (Some f) r p r' = Open \<longleftrightarrow> False"
  "kill_gate (Some f) r p r' = ExitedFront \<longleftrightarrow> r = Inr False \<or> p \<noteq> Inr True \<and> r' = Inr False"
  "kill_gate (Some f) r p r' = CgroupOnly \<longleftrightarrow> r \<noteq> Inr False \<and> p = Inr True"
  by (auto simp: kill_gate_def split: sum.splits bool.splits)

text \<open>C8: a forced kill never signals a front that may be running: the root is signalled only after a read showed the front
  had exited, and otherwise the kill goes to a cgroup that was read to hold it, or nowhere; and it answers success only
  if a read showed that the front had exited or that the cgroup kill reached it.\<close>

theorem live_front_never_signalled:
  assumes "ch_front c = Some f" and "kill w c = (sent, r)"
  shows "(Root_Kill \<in> set sent \<longrightarrow> kw_running w = Inr False \<or> kw_running_again w = Inr False) \<and>
    (Cgroup_Kill \<in> set sent \<longrightarrow> kw_in_cgroup w = Inr True) \<and> length sent \<le> 1 \<and>
    (r = Inr () \<longrightarrow> sent = [Root_Kill] \<or>
       sent = [Cgroup_Kill] \<and> kw_cgroup_kill w = Inr () \<and>
       (kw_exited w = Inr True \<or> kw_exited_again w = Inr True \<or> kw_under_leaf w = Inr True))"
proof (cases "kill_gate (Some f) (kw_running w) (kw_in_cgroup w) (kw_running_again w)")
  case Open
  then show ?thesis by (simp add: kill_gate_front)
next
  case ExitedFront
  with assms kill_gate_front(2) [of f "kw_running w" "kw_in_cgroup w" "kw_running_again w"] show ?thesis
    by (auto simp: kill_def kill_sent_def kill_sent_gated_def Let_def split: if_splits sum.splits)
next
  case CgroupOnly
  with assms kill_gate_front(3) [of f "kw_running w" "kw_in_cgroup w" "kw_running_again w"] show ?thesis
    by (auto simp: kill_def kill_sent_def kill_sent_gated_def Let_def cgroup_kill_reached_def
        split: if_splits sum.splits)
next
  case (Closed e)
  with assms show ?thesis by (auto simp: kill_def kill_sent_def kill_sent_gated_def Let_def)
qed

theorem live_front_never_signalled_witness:
  "\<exists>r. kill \<lparr>kw_running = Inr True, kw_in_cgroup = Inr True, kw_running_again = Inr True, kw_unpinned = False,
      kw_kill_root = Inr Delivered, kw_cgroup_kill = Inr (), kw_exited = Inr False, kw_under_leaf = Inr True,
      kw_exited_again = Inr False\<rparr> \<lparr>ch_front = Some FrontSudo, ch_elevated_wrapper = True\<rparr> = ([Cgroup_Kill], r) \<and>
    Root_Kill \<notin> set [Cgroup_Kill] \<and> r = Inr ()"
  (is "\<exists>r. kill ?w ?c = _ \<and> _")
proof -
  have k: "kill ?w ?c = ([Cgroup_Kill], Inr ())" by code_simp
  have f: "ch_front ?c = Some FrontSudo" by simp
  from live_front_never_signalled [OF f k] have "Root_Kill \<notin> set [Cgroup_Kill]" by simp
  with k show ?thesis by blast
qed

text \<open>A \<open>SIGTERM\<close> is withheld exactly from an osascript front not read to have exited: any other child is signalled.\<close>

theorem terminate_withheld_iff:
  "terminate_gate f r \<noteq> Open \<longleftrightarrow> f = Some FrontOsascript \<and> r \<noteq> Inr False"
  by (auto simp: terminate_gate_def relays_term_def split: option.splits sum.splits bool.splits)

text \<open>A front is exactly what runs as the caller and outlives its program, except that \<open>pkexec\<close> becomes the program.\<close>

lemma front_outlives: "front (Some via) \<noteq> None \<Longrightarrow> program_outlives_child via"
  by (auto simp: front_def program_outlives_child_def split: ElevatedVia.splits Backend.splits)

end
