(* ===== verification/Command_Model.thy ===== *)
theory Command_Model
  imports Env_Sanitize Elevation_Front
begin

text \<open>
  \<^verbatim>\<open>src/src/command.rs\<close> with the descriptors of \<^verbatim>\<open>stdio.rs\<close>, the containment request of \<^verbatim>\<open>containment.rs\<close>, the creation-flag request
  of \<^verbatim>\<open>command/flags.rs\<close> and the elevation request of \<^verbatim>\<open>elevation.rs\<close>: what a \<^verbatim>\<open>Command\<close> records, and every call that records
  it. An open file is its descriptor; \<^verbatim>\<open>fds\<close> is a \<^verbatim>\<open>BTreeMap\<close>, its entries in the order of the descriptors.
\<close>

section \<open>Descriptors\<close>

type_synonym Fd = int

abbreviation STDIN :: Fd where "STDIN \<equiv> 0"
abbreviation STDOUT :: Fd where "STDOUT \<equiv> 1"
abbreviation STDERR :: Fd where "STDERR \<equiv> 2"

definition display_fd :: "Fd \<Rightarrow> String.literal" where
  "display_fd n = (if n = 0 then STR ''stdin'' else if n = 1 then STR ''stdout'' else if n = 2 then STR ''stderr''
     else STR ''fd '' + text_of (show_int n))"

datatype Direction = In | Out

text \<open>\<^verbatim>\<open>StdioKind\<close>: a bare pipe has no direction yet.\<close>

datatype Stdio = Stdio_Inherit | Stdio_Null | Stdio_Pipe "Direction option" | Stdio_File nat | Stdio_Merge Fd

datatype ResolvedStdio = Inherit | Null | Pipe Direction | File nat | Merge Fd

text \<open>The \<open>os\<close> is \<^verbatim>\<open>std::env::consts::OS\<close>.\<close>

definition resolve_stdio :: "String.literal \<Rightarrow> Stdio \<Rightarrow> Fd \<Rightarrow> Error + ResolvedStdio" where
  "resolve_stdio os target slot = (case target of
      Stdio_Inherit \<Rightarrow> Inr Inherit
    | Stdio_Null \<Rightarrow> Inr Null
    | Stdio_File f \<Rightarrow> Inr (File f)
    | Stdio_Merge t \<Rightarrow> Inr (Merge t)
    | Stdio_Pipe (Some dir) \<Rightarrow> Inr (Pipe dir)
    | Stdio_Pipe None \<Rightarrow>
        if slot = STDIN then Inr (Pipe In)
        else if slot = STDOUT \<or> slot = STDERR then Inr (Pipe Out)
        else Inl (Unsupported (STR ''ambiguous pipe direction on '' + display_fd slot) os))"

section \<open>Requests\<close>

datatype ContainMode = Strongest | TreeWalkMode | Session

datatype Nesting = Mark | Opaque

record ContainRequest =
  cq_mode :: "ContainMode option"
  cq_nesting :: Nesting

definition default_contain :: ContainRequest where
  "default_contain = \<lparr>cq_mode = None, cq_nesting = Mark\<rparr>"

record ElevationRequest =
  er_enabled :: bool
  er_backend :: Backend
  er_auth :: Auth
  er_sanitizer :: EnvSanitizer

definition default_elevation :: ElevationRequest where
  "default_elevation = \<lparr>er_enabled = False, er_backend = Auto, er_auth = Interactive, er_sanitizer = default_sanitizer\<rparr>"

text \<open>Every field but \<open>fr_no_window\<close> is there on Windows only.\<close>

record FlagsRequest =
  fr_no_window :: bool
  fr_detached :: bool
  fr_breakaway_from_job :: bool
  fr_suspended :: bool
  fr_raw :: u32

definition default_flags :: FlagsRequest where
  "default_flags = \<lparr>fr_no_window = False, fr_detached = False, fr_breakaway_from_job = False, fr_suspended = False, fr_raw = 0\<rparr>"

section \<open>Commands\<close>

datatype ExecutableSpec = Search (spec_path: bytes) | Exact (spec_path: bytes)

datatype EnvOp = Set bytes bytes | Remove bytes | Clear

datatype CommandInput = EmptyInput | Argv "bytes list" | CommandLine bytes

record Command =
  cm_input :: CommandInput
  cm_executable :: "ExecutableSpec option"
  cm_fds :: "(Fd \<times> ResolvedStdio) list"
  cm_env_ops :: "EnvOp list"
  cm_cwd :: "bytes option"
  cm_kill_on_drop :: bool
  cm_contain :: ContainRequest
  cm_elevation :: ElevationRequest
  cm_fd_marker_suppressed :: bool
  cm_elevation_front :: "Front option"
  cm_flags :: FlagsRequest
  cm_held :: "nat list"

definition new_command :: Command where
  "new_command = \<lparr>cm_input = EmptyInput, cm_executable = None, cm_fds = [], cm_env_ops = [], cm_cwd = None,
     cm_kill_on_drop = True, cm_contain = default_contain, cm_elevation = default_elevation,
     cm_fd_marker_suppressed = False, cm_elevation_front = None, cm_flags = default_flags, cm_held = []\<rparr>"

subsection \<open>The program and its arguments\<close>

definition cmd_arg :: "bytes \<Rightarrow> Command \<Rightarrow> Command" where
  "cmd_arg a c = (case cm_input c of
      Argv v \<Rightarrow> c\<lparr>cm_input := Argv (v @ [a])\<rparr>
    | _ \<Rightarrow> c\<lparr>cm_input := Argv [a]\<rparr>)"

definition cmd_args :: "bytes list \<Rightarrow> Command \<Rightarrow> Command" where
  "cmd_args items c = (case cm_input c of
      Argv v \<Rightarrow> c\<lparr>cm_input := Argv (v @ items)\<rparr>
    | _ \<Rightarrow> c\<lparr>cm_input := Argv items\<rparr>)"

definition cmd_commandline :: "bytes \<Rightarrow> Command \<Rightarrow> Command" where
  "cmd_commandline line c = c\<lparr>cm_input := CommandLine line\<rparr>"

definition cmd_executable :: "bytes \<Rightarrow> Command \<Rightarrow> Command" where
  "cmd_executable path c = c\<lparr>cm_executable := Some (Search path)\<rparr>"

definition raw_executable :: "bytes \<Rightarrow> Command \<Rightarrow> Command" where
  "raw_executable path c = c\<lparr>cm_executable := Some (Exact path)\<rparr>"

definition executable_path :: "Command \<Rightarrow> bytes option" where
  "executable_path c = map_option spec_path (cm_executable c)"

definition set_executable_spec :: "ExecutableSpec option \<Rightarrow> Command \<Rightarrow> Command" where
  "set_executable_spec spec c = c\<lparr>cm_executable := spec\<rparr>"

definition set_input_argv :: "bytes list \<Rightarrow> Command \<Rightarrow> Command" where
  "set_input_argv argv c = c\<lparr>cm_input := Argv argv, cm_executable := None\<rparr>"

definition hold :: "nat \<Rightarrow> Command \<Rightarrow> Command" where
  "hold file c = c\<lparr>cm_held := cm_held c @ [file]\<rparr>"

subsection \<open>Descriptors, environment and directory\<close>

definition insert_fd :: "Fd \<Rightarrow> ResolvedStdio \<Rightarrow> Command \<Rightarrow> Command" where
  "insert_fd slot resolved c = c\<lparr>cm_fds := bt_insert slot resolved (cm_fds c)\<rparr>"

definition cmd_fd :: "String.literal \<Rightarrow> Fd \<Rightarrow> Stdio \<Rightarrow> Command \<Rightarrow> Error + Command" where
  "cmd_fd os slot target c =
     (if slot < 0 then Inl (IoKind InvalidInput)
      else (case resolve_stdio os target slot of
          Inl e \<Rightarrow> Inl e
        | Inr resolved \<Rightarrow> Inr (insert_fd slot resolved c)))"

definition cmd_env :: "bytes \<Rightarrow> bytes \<Rightarrow> Command \<Rightarrow> Command" where
  "cmd_env k v c = c\<lparr>cm_env_ops := cm_env_ops c @ [Set k v]\<rparr>"

definition cmd_envs :: "(bytes \<times> bytes) list \<Rightarrow> Command \<Rightarrow> Command" where
  "cmd_envs vars c = foldl (\<lambda>c (k, v). c\<lparr>cm_env_ops := cm_env_ops c @ [Set k v]\<rparr>) c vars"

definition env_remove :: "bytes \<Rightarrow> Command \<Rightarrow> Command" where
  "env_remove k c = c\<lparr>cm_env_ops := cm_env_ops c @ [Remove k]\<rparr>"

definition env_clear :: "Command \<Rightarrow> Command" where
  "env_clear c = c\<lparr>cm_env_ops := cm_env_ops c @ [Clear]\<rparr>"

definition set_env_ops :: "EnvOp list \<Rightarrow> Command \<Rightarrow> Command" where
  "set_env_ops ops c = c\<lparr>cm_env_ops := ops\<rparr>"

definition current_dir :: "bytes \<Rightarrow> Command \<Rightarrow> Command" where
  "current_dir dir c = c\<lparr>cm_cwd := Some dir\<rparr>"

definition kill_on_drop :: "bool \<Rightarrow> Command \<Rightarrow> Command" where
  "kill_on_drop yes c = c\<lparr>cm_kill_on_drop := yes\<rparr>"

text \<open>\<^verbatim>\<open>for (slot, resolved) in std::mem::take(cmd.fds_mut()) { derived.fds_mut().insert(slot, resolved) }\<close>, with the slots the
  caller skips.\<close>

definition move_fds :: "(Fd \<Rightarrow> bool) \<Rightarrow> (Fd \<times> ResolvedStdio) list \<Rightarrow> Command \<Rightarrow> Command" where
  "move_fds skip fds derived = foldl (\<lambda>d (slot, resolved). if skip slot then d else insert_fd slot resolved d) derived fds"

subsection \<open>Containment, creation flags and elevation\<close>

definition contain_with :: "ContainMode \<Rightarrow> Command \<Rightarrow> Command" where
  "contain_with mode c = c\<lparr>cm_contain := (cm_contain c)\<lparr>cq_mode := Some mode\<rparr>\<rparr>"

definition cmd_contain :: "Command \<Rightarrow> Command" where
  "cmd_contain = contain_with Strongest"

definition cmd_nesting :: "Nesting \<Rightarrow> Command \<Rightarrow> Command" where
  "cmd_nesting n c = c\<lparr>cm_contain := (cm_contain c)\<lparr>cq_nesting := n\<rparr>\<rparr>"

definition set_contain :: "ContainRequest \<Rightarrow> Command \<Rightarrow> Command" where
  "set_contain req c = c\<lparr>cm_contain := req\<rparr>"

definition cmd_no_window :: "Command \<Rightarrow> Command" where
  "cmd_no_window c = c\<lparr>cm_flags := (cm_flags c)\<lparr>fr_no_window := True\<rparr>\<rparr>"

definition cmd_detached :: "Command \<Rightarrow> Command" where
  "cmd_detached c = c\<lparr>cm_flags := (cm_flags c)\<lparr>fr_detached := True\<rparr>\<rparr>"

definition cmd_breakaway_from_job :: "Command \<Rightarrow> Command" where
  "cmd_breakaway_from_job c = c\<lparr>cm_flags := (cm_flags c)\<lparr>fr_breakaway_from_job := True\<rparr>\<rparr>"

definition cmd_creation_flags :: "u32 \<Rightarrow> Command \<Rightarrow> Command" where
  "cmd_creation_flags flags c = c\<lparr>cm_flags := (cm_flags c)\<lparr>fr_raw := flags\<rparr>\<rparr>"

definition set_suspended :: "bool \<Rightarrow> Command \<Rightarrow> Command \<times> bool" where
  "set_suspended yes c = (c\<lparr>cm_flags := (cm_flags c)\<lparr>fr_suspended := yes\<rparr>\<rparr>, fr_suspended (cm_flags c))"

definition elevate :: "Command \<Rightarrow> Command" where
  "elevate c = c\<lparr>cm_elevation := (cm_elevation c)\<lparr>er_enabled := True\<rparr>\<rparr>"

definition elevation_backend :: "Backend \<Rightarrow> Command \<Rightarrow> Command" where
  "elevation_backend b c = c\<lparr>cm_elevation := (cm_elevation c)\<lparr>er_enabled := True, er_backend := b\<rparr>\<rparr>"

definition elevation_auth :: "Auth \<Rightarrow> Command \<Rightarrow> Command" where
  "elevation_auth a c = c\<lparr>cm_elevation := (cm_elevation c)\<lparr>er_enabled := True, er_auth := a\<rparr>\<rparr>"

definition sanitize_env :: "EnvSanitizer \<Rightarrow> Command \<Rightarrow> Command" where
  "sanitize_env s c = c\<lparr>cm_elevation := (cm_elevation c)\<lparr>er_enabled := True, er_sanitizer := s\<rparr>\<rparr>"

definition suppress_fd_marker :: "Command \<Rightarrow> Command" where
  "suppress_fd_marker c = c\<lparr>cm_fd_marker_suppressed := True\<rparr>"

definition set_elevation_front :: "Front option \<Rightarrow> Command \<Rightarrow> Command" where
  "set_elevation_front f c = c\<lparr>cm_elevation_front := f\<rparr>"

subsection \<open>The run-to-completion helpers, up to their spawn\<close>

definition apply_default_stdin :: "String.literal \<Rightarrow> Stdio \<Rightarrow> Command \<Rightarrow> Error + Command" where
  "apply_default_stdin os target c =
     (if (case er_auth (cm_elevation c) of Stdin _ \<Rightarrow> False | _ \<Rightarrow> True) then cmd_fd os STDIN target c else Inr c)"

definition output_stdio :: "String.literal \<Rightarrow> Command \<Rightarrow> Error + Command" where
  "output_stdio os c = (case apply_default_stdin os Stdio_Null c of
      Inl e \<Rightarrow> Inl e
    | Inr c \<Rightarrow> (case cmd_fd os STDOUT (Stdio_Pipe None) c of
          Inl e \<Rightarrow> Inl e
        | Inr c \<Rightarrow> cmd_fd os STDERR (Stdio_Pipe None) c))"

definition status_stdio :: "String.literal \<Rightarrow> Command \<Rightarrow> Error + Command" where
  "status_stdio os c = (case apply_default_stdin os Stdio_Inherit c of
      Inl e \<Rightarrow> Inl e
    | Inr c \<Rightarrow> (case cmd_fd os STDOUT Stdio_Inherit c of
          Inl e \<Rightarrow> Inl e
        | Inr c \<Rightarrow> cmd_fd os STDERR Stdio_Inherit c))"

definition read_stdio :: "String.literal \<Rightarrow> Command \<Rightarrow> Error + Command" where
  "read_stdio os c = (case apply_default_stdin os Stdio_Null c of
      Inl e \<Rightarrow> Inl e
    | Inr c \<Rightarrow> cmd_fd os STDOUT (Stdio_Pipe None) c)"

section \<open>What the calls build\<close>

datatype Call = Arg bytes | Args "bytes list" | Commandline bytes | Executable bytes | Raw_Executable bytes
  | FdCall Fd Stdio | EnvCall bytes bytes | Envs "(bytes \<times> bytes) list" | Env_Remove bytes | Env_Clear
  | Current_Dir bytes | Kill_On_Drop bool | Contain_With ContainMode | NestingCall Nesting | No_Window | Detached
  | Breakaway_From_Job | Creation_Flags u32 | Elevate | Elevation_Backend Backend | Elevation_Auth Auth
  | Sanitize_Env EnvSanitizer

definition call :: "String.literal \<Rightarrow> Call \<Rightarrow> Command \<Rightarrow> Error + Command" where
  "call os k c = (case k of
      Arg a \<Rightarrow> Inr (cmd_arg a c) | Args as \<Rightarrow> Inr (cmd_args as c) | Commandline l \<Rightarrow> Inr (cmd_commandline l c)
    | Executable p \<Rightarrow> Inr (cmd_executable p c) | Raw_Executable p \<Rightarrow> Inr (raw_executable p c)
    | FdCall slot target \<Rightarrow> cmd_fd os slot target c
    | EnvCall n v \<Rightarrow> Inr (cmd_env n v c) | Envs vars \<Rightarrow> Inr (cmd_envs vars c) | Env_Remove n \<Rightarrow> Inr (env_remove n c)
    | Env_Clear \<Rightarrow> Inr (env_clear c) | Current_Dir d \<Rightarrow> Inr (current_dir d c) | Kill_On_Drop y \<Rightarrow> Inr (kill_on_drop y c)
    | Contain_With m \<Rightarrow> Inr (contain_with m c) | NestingCall n \<Rightarrow> Inr (cmd_nesting n c) | No_Window \<Rightarrow> Inr (cmd_no_window c)
    | Detached \<Rightarrow> Inr (cmd_detached c) | Breakaway_From_Job \<Rightarrow> Inr (cmd_breakaway_from_job c)
    | Creation_Flags w \<Rightarrow> Inr (cmd_creation_flags w c) | Elevate \<Rightarrow> Inr (elevate c)
    | Elevation_Backend b \<Rightarrow> Inr (elevation_backend b c) | Elevation_Auth a \<Rightarrow> Inr (elevation_auth a c)
    | Sanitize_Env s \<Rightarrow> Inr (sanitize_env s c))"

text \<open>A call that fails leaves the command as it was: the caller still has it.\<close>

definition after_call :: "String.literal \<Rightarrow> Command \<Rightarrow> Call \<Rightarrow> Command" where
  "after_call os c k = (case call os k c of Inl e \<Rightarrow> c | Inr c' \<Rightarrow> c')"

definition built :: "String.literal \<Rightarrow> Call list \<Rightarrow> Command" where
  "built os calls = foldl (after_call os) new_command calls"

definition elevation_default :: "ElevationRequest \<Rightarrow> bool" where
  "elevation_default r \<longleftrightarrow> er_backend r = Auto \<and> er_auth r = Interactive \<and> er_sanitizer r = default_sanitizer"

text \<open>What every command of a caller satisfies: its descriptors are a map of numbers that are not negative, an elevation that
  is not asked for is the default one, and what only the crate itself sets is not set.\<close>

definition command_ok :: "Command \<Rightarrow> bool" where
  "command_ok c \<longleftrightarrow> bt_ok (cm_fds c) \<and> list_all (\<lambda>(slot, _). 0 \<le> slot) (cm_fds c)
     \<and> (er_enabled (cm_elevation c) \<or> elevation_default (cm_elevation c))
     \<and> cm_held c = [] \<and> cm_elevation_front c = None \<and> \<not> cm_fd_marker_suppressed c \<and> \<not> fr_suspended (cm_flags c)"

lemmas setter_defs = cmd_arg_def cmd_args_def cmd_commandline_def cmd_executable_def raw_executable_def cmd_env_def
  env_remove_def env_clear_def current_dir_def kill_on_drop_def contain_with_def cmd_nesting_def cmd_no_window_def
  cmd_detached_def cmd_breakaway_from_job_def cmd_creation_flags_def elevate_def elevation_backend_def elevation_auth_def
  sanitize_env_def

lemma envs_ops [simp]: "cmd_envs vars c = c\<lparr>cm_env_ops := cm_env_ops c @ map (\<lambda>(k, v). Set k v) vars\<rparr>"
  unfolding cmd_envs_def by (induction vars arbitrary: c) auto

lemma set_bt_insert: "set (bt_insert k v m) \<subseteq> insert (k, v) (set m)"
  by (induction k v m rule: bt_insert.induct) auto

lemma fd_Inr:
  "cmd_fd os slot target c = Inr c' \<longleftrightarrow>
     0 \<le> slot \<and> (\<exists>r. resolve_stdio os target slot = Inr r \<and> c' = insert_fd slot r c)"
  by (auto simp: cmd_fd_def split: sum.splits)

lemma insert_fd_ok: "command_ok c \<Longrightarrow> 0 \<le> slot \<Longrightarrow> command_ok (insert_fd slot r c)"
  using set_bt_insert [of slot r "cm_fds c"]
  by (auto simp: command_ok_def insert_fd_def bt_insert_ok list_all_iff)

lemma call_ok: "command_ok c \<Longrightarrow> call os k c = Inr c' \<Longrightarrow> command_ok c'"
  by (cases k) (auto simp: call_def fd_Inr insert_fd_ok, auto simp: command_ok_def setter_defs elevation_default_def split: CommandInput.splits)

lemma after_call_ok: "command_ok c \<Longrightarrow> command_ok (after_call os c k)"
  by (cases "call os k c") (simp_all add: after_call_def call_ok)

lemma new_command_ok: "command_ok new_command"
  by (simp add: command_ok_def new_command_def default_elevation_def elevation_default_def default_flags_def)

text \<open>A builder is a transition system: one call is a step.\<close>

interpretation builder: transition_system "\<lambda>c. c = new_command" "\<lambda>c c'. \<exists>k. c' = after_call os c k" command_ok
  by unfold_locales (auto simp: new_command_ok after_call_ok)

text \<open>What a sequence of calls asks of one descriptor, and for the arguments: the last call that succeeds decides a descriptor;
  the words are those given since the last command line.\<close>

definition asked :: "String.literal \<Rightarrow> Fd \<Rightarrow> Call \<Rightarrow> ResolvedStdio option" where
  "asked os slot k = (case k of
      FdCall s target \<Rightarrow> if s = slot \<and> 0 \<le> s then (case resolve_stdio os target s of Inl _ \<Rightarrow> None | Inr r \<Rightarrow> Some r) else None
    | _ \<Rightarrow> None)"

definition words_of :: "Call \<Rightarrow> bytes list option" where
  "words_of k = (case k of Arg a \<Rightarrow> Some [a] | Args as \<Rightarrow> Some as | _ \<Rightarrow> None)"

definition last_line :: "Call list \<Rightarrow> CommandInput" where
  "last_line calls = (let ls = List.map_filter (\<lambda>k. case k of Commandline l \<Rightarrow> Some l | _ \<Rightarrow> None) calls
     in if ls = [] then EmptyInput else CommandLine (last ls))"

definition words_since_line :: "Call list \<Rightarrow> bytes list list" where
  "words_since_line calls = List.map_filter words_of (rev (takeWhile (\<lambda>k. \<forall>l. k \<noteq> Commandline l) (rev calls)))"

lemma built_snoc: "built os (calls @ [k]) = after_call os (built os calls) k"
  by (simp add: built_def)

lemma built_ok: "command_ok (built os calls)"
proof -
  have "(\<lambda>c c'. \<exists>k. c' = after_call os c k)\<^sup>*\<^sup>* new_command (built os calls)"
  proof (induction calls rule: rev_induct)
    case Nil
    show ?case by (simp add: built_def)
  next
    case (snoc k calls)
    then show ?case unfolding built_snoc by (blast intro: rtranclp.rtrancl_into_rtrancl)
  qed
  then show ?thesis by (rule builder.reachable_inv [OF refl])
qed

lemma map_filter_snoc [simp]:
  "List.map_filter f (xs @ [x]) = List.map_filter f xs @ (case f x of None \<Rightarrow> [] | Some y \<Rightarrow> [y])"
  by (simp add: map_filter_def split: option.splits)

lemma after_call_fds:
  "cm_fds (after_call os c k) = (case k of
      FdCall s target \<Rightarrow> if 0 \<le> s then (case resolve_stdio os target s of Inl _ \<Rightarrow> cm_fds c | Inr r \<Rightarrow> bt_insert s r (cm_fds c)) else cm_fds c
    | _ \<Rightarrow> cm_fds c)"
  by (cases k) (auto simp: after_call_def call_def setter_defs cmd_fd_def insert_fd_def split: sum.splits CommandInput.splits)

lemma after_call_input:
  "cm_input (after_call os c k) = (case k of
      Commandline l \<Rightarrow> CommandLine l
    | _ \<Rightarrow> (case words_of k of None \<Rightarrow> cm_input c
        | Some ws \<Rightarrow> (case cm_input c of Argv v \<Rightarrow> Argv (v @ ws) | _ \<Rightarrow> Argv ws)))"
  by (cases k) (auto simp: after_call_def call_def setter_defs cmd_fd_def insert_fd_def words_of_def split: sum.splits CommandInput.splits)

lemma built_fds:
  "map_of (cm_fds (built os calls)) slot =
     (let rs = List.map_filter (asked os slot) calls in if rs = [] then None else Some (last rs))"
proof (induction calls rule: rev_induct)
  case Nil
  then show ?case by (simp add: built_def new_command_def)
next
  case (snoc k calls)
  have ok: "bt_ok (cm_fds (built os calls))" using built_ok by (simp add: command_ok_def)
  show ?case
    using snoc by (cases k) (auto simp: built_snoc after_call_fds asked_def map_of_bt_insert [OF ok] Let_def split: sum.splits)
qed

lemma words_since_line_snoc:
  "words_since_line (calls @ [k]) = (if \<exists>l. k = Commandline l then [] else words_since_line calls @ (case words_of k of None \<Rightarrow> [] | Some w \<Rightarrow> [w]))"
  by (auto simp: words_since_line_def)

lemma built_input:
  "cm_input (built os calls) =
     (if words_since_line calls = [] then last_line calls else Argv (concat (words_since_line calls)))"
proof (induction calls rule: rev_induct)
  case Nil
  then show ?case by (simp add: built_def new_command_def words_since_line_def last_line_def)
next
  case (snoc k calls)
  show ?case
    unfolding built_snoc after_call_input words_since_line_snoc snoc
    by (cases k) (auto simp: words_of_def last_line_def Let_def)
qed

text \<open>C30: whatever calls a caller makes, in any order and with any of them failing, the command is well formed: its
  descriptors are a map with no negative number, elevation settings imply that elevation is asked for, and nothing that
  only the crate sets is set. A descriptor has what the last successful call gave it; the arguments are those given since
  the last command line, and the command line stands only when none were.\<close>

theorem built_command:
  "command_ok (built os calls) \<and>
   map_of (cm_fds (built os calls)) slot =
     (let rs = List.map_filter (asked os slot) calls in if rs = [] then None else Some (last rs)) \<and>
   cm_input (built os calls) =
     (if words_since_line calls = [] then last_line calls else Argv (concat (words_since_line calls)))"
  using built_ok built_fds built_input by blast

section \<open>Moving descriptors\<close>

lemma insert_fd_simps [simp]:
  "cm_input (insert_fd s r c) = cm_input c" "cm_env_ops (insert_fd s r c) = cm_env_ops c" "cm_cwd (insert_fd s r c) = cm_cwd c"
  "cm_executable (insert_fd s r c) = cm_executable c" "cm_elevation_front (insert_fd s r c) = cm_elevation_front c"
  "cm_held (insert_fd s r c) = cm_held c" "cm_contain (insert_fd s r c) = cm_contain c"
  "cm_kill_on_drop (insert_fd s r c) = cm_kill_on_drop c"
  "cm_fd_marker_suppressed (insert_fd s r c) = cm_fd_marker_suppressed c"
  "cm_elevation (insert_fd s r c) = cm_elevation c" "cm_flags (insert_fd s r c) = cm_flags c"
  by (simp_all add: insert_fd_def)

text \<open>Moving descriptors changes nothing else, and leaves each slot with what it was moved.\<close>

lemma move_fds_fields [simp]:
  "cm_input (move_fds k fds c) = cm_input c" "cm_env_ops (move_fds k fds c) = cm_env_ops c"
  "cm_cwd (move_fds k fds c) = cm_cwd c" "cm_executable (move_fds k fds c) = cm_executable c"
  "cm_elevation_front (move_fds k fds c) = cm_elevation_front c" "cm_held (move_fds k fds c) = cm_held c"
  "cm_contain (move_fds k fds c) = cm_contain c" "cm_kill_on_drop (move_fds k fds c) = cm_kill_on_drop c"
  "cm_fd_marker_suppressed (move_fds k fds c) = cm_fd_marker_suppressed c"
  "cm_elevation (move_fds k fds c) = cm_elevation c" "cm_flags (move_fds k fds c) = cm_flags c"
  unfolding move_fds_def by (induction fds arbitrary: c) (simp_all add: split_beta)

lemma move_fds_fds: "cm_fds (move_fds k fds c) = foldl (\<lambda>m (slot, r). if k slot then m else bt_insert slot r m) (cm_fds c) fds"
  unfolding move_fds_def by (induction fds arbitrary: c) (simp_all add: split_beta insert_fd_def)

lemma move_fds_cong: "cm_fds c = cm_fds d \<Longrightarrow> cm_fds (move_fds k fds c) = cm_fds (move_fds k fds d)"
  by (simp add: move_fds_fds)

lemma move_fds_map:
  assumes "bt_ok (cm_fds c)" and "distinct (map fst fds)"
  shows "bt_ok (cm_fds (move_fds k fds c)) \<and> map_of (cm_fds (move_fds k fds c)) s =
    (case map_of fds s of Some r \<Rightarrow> if k s then map_of (cm_fds c) s else Some r | None \<Rightarrow> map_of (cm_fds c) s)"
  using assms
proof (induction fds arbitrary: c)
  case Nil
  then show ?case by (simp add: move_fds_def)
next
  case (Cons e fds)
  obtain t r where e: "e = (t, r)" by fastforce
  have m: "move_fds k (e # fds) c = move_fds k fds (if k t then c else insert_fd t r c)" by (simp add: move_fds_def e)
  have ok: "bt_ok (cm_fds (if k t then c else insert_fd t r c))"
    using Cons.prems(1) by (simp add: insert_fd_def bt_insert_ok)
  have t: "map_of fds t = None" using Cons.prems(2) by (simp add: e map_of_eq_None_iff)
  have d: "distinct (map fst fds)" using Cons.prems(2) by simp
  show ?case unfolding m using Cons.IH [OF ok d] t Cons.prems(1)
    by (simp add: e insert_fd_def map_of_bt_insert split: option.splits)
qed

end
