(* ===== verification/Spawn_Flags.thy ===== *)
theory Spawn_Flags
  imports Command_Model
begin

text \<open>
  \<^verbatim>\<open>src/src/command/flags.rs\<close> with \<^verbatim>\<open>windows_contain_setup\<close> of \<^verbatim>\<open>containment/dispatch.rs\<close> and the flag words of
  \<^verbatim>\<open>containment/windows.rs\<close>: the \<^verbatim>\<open>dwCreationFlags\<close> word of a Windows spawn, and what it says about cooperative shutdown. The bits are
  those of the Win32 interface.
\<close>

unbundle bit_operations_syntax

section \<open>The bits\<close>

definition DEBUG_PROCESS :: u32 where "DEBUG_PROCESS = 0x1"
definition DEBUG_ONLY_THIS_PROCESS :: u32 where "DEBUG_ONLY_THIS_PROCESS = 0x2"
definition CREATE_SUSPENDED :: u32 where "CREATE_SUSPENDED = 0x4"
definition DETACHED_PROCESS :: u32 where "DETACHED_PROCESS = 0x8"
definition CREATE_NEW_CONSOLE :: u32 where "CREATE_NEW_CONSOLE = 0x10"
definition CREATE_NEW_PROCESS_GROUP :: u32 where "CREATE_NEW_PROCESS_GROUP = 0x200"
definition CREATE_UNICODE_ENVIRONMENT :: u32 where "CREATE_UNICODE_ENVIRONMENT = 0x400"
definition EXTENDED_STARTUPINFO_PRESENT :: u32 where "EXTENDED_STARTUPINFO_PRESENT = 0x80000"
definition CREATE_BREAKAWAY_FROM_JOB :: u32 where "CREATE_BREAKAWAY_FROM_JOB = 0x1000000"
definition CREATE_NO_WINDOW :: u32 where "CREATE_NO_WINDOW = 0x8000000"

section \<open>Containment before the spawn\<close>

definition root_flags :: u32 where
  "root_flags = CREATE_SUSPENDED OR CREATE_NEW_PROCESS_GROUP"

definition group_flags :: u32 where
  "group_flags = CREATE_NEW_PROCESS_GROUP"

record WindowsContain =
  wc_creation_flags :: u32
  wc_marker_env :: bool

definition windows_contain_setup :: "ContainRequest \<Rightarrow> bool \<Rightarrow> WindowsContain" where
  "windows_contain_setup req is_root = (case cq_mode req of
      None \<Rightarrow> \<lparr>wc_creation_flags = 0, wc_marker_env = False\<rparr>
    | Some mode \<Rightarrow> \<lparr>wc_creation_flags = (if is_root \<and> mode \<noteq> TreeWalkMode then root_flags else group_flags),
        wc_marker_env = (is_root \<and> cq_nesting req = Mark)\<rparr>)"

section \<open>The word\<close>

datatype SpawnBackend = StdBackend | RawBackend

record WindowsSpawn =
  ws_creation_flags :: u32
  ws_marker_env :: bool

text \<open>The names and remedies of the table are text of the refusal.\<close>

definition reserved_table :: "u32 list" where
  "reserved_table = [DEBUG_PROCESS, DEBUG_ONLY_THIS_PROCESS, CREATE_SUSPENDED, DETACHED_PROCESS, CREATE_NEW_CONSOLE,
     CREATE_NEW_PROCESS_GROUP, CREATE_UNICODE_ENVIRONMENT, EXTENDED_STARTUPINFO_PRESENT, CREATE_BREAKAWAY_FROM_JOB,
     CREATE_NO_WINDOW]"

definition reserved_bits_in :: "u32 \<Rightarrow> u32 list" where
  "reserved_bits_in raw = sort (filter (\<lambda>b. raw AND b \<noteq> 0) reserved_table)"

definition windows_spawn :: "ContainRequest \<Rightarrow> FlagsRequest \<Rightarrow> bool \<Rightarrow> SpawnBackend \<Rightarrow> Error + WindowsSpawn" where
  "windows_spawn req flags is_root backend =
     (if reserved_bits_in (fr_raw flags) \<noteq> [] then Inl (Unsupported (STR ''creation_flags'') (STR ''windows''))
      else if fr_breakaway_from_job flags \<and> cq_mode req \<noteq> None
        then Inl (Unsupported (STR ''breakaway_from_job() with contain()'') (STR ''windows''))
      else
        let setup = windows_contain_setup req is_root;
            w = wc_creation_flags setup OR fr_raw flags;
            w = (if fr_no_window flags then w OR CREATE_NO_WINDOW else w);
            w = (if fr_detached flags then w OR DETACHED_PROCESS else w);
            w = (if fr_breakaway_from_job flags then w OR CREATE_BREAKAWAY_FROM_JOB else w);
            w = (if fr_suspended flags then w OR CREATE_SUSPENDED else w);
            w = (if backend = RawBackend then w OR (CREATE_UNICODE_ENVIRONMENT OR EXTENDED_STARTUPINFO_PRESENT) else w)
        in Inr \<lparr>ws_creation_flags = w, ws_marker_env = wc_marker_env setup\<rparr>)"

datatype JobBreakaway = NotInJob | Permitted | SilentBreakaway | Forbidden | JobUnknown

abbreviation ERROR_ACCESS_DENIED :: i32 where "ERROR_ACCESS_DENIED \<equiv> 5"

definition classify_spawn_denial :: "Error \<Rightarrow> FlagsRequest \<Rightarrow> JobBreakaway \<Rightarrow> Error" where
  "classify_spawn_denial err flags job =
     (if \<not> fr_breakaway_from_job flags then err
      else (case err of
          Io e \<Rightarrow> if e \<noteq> ERROR_ACCESS_DENIED then err else if job \<noteq> Forbidden then err else Containment
        | _ \<Rightarrow> err))"

section \<open>Cooperative shutdown\<close>

datatype GracefulMechanism = Process_Mechanism | ConsoleGroup | OtherConsoleGroup | Unknown_Mechanism | No_Mechanism

definition mechanism_from_flags :: "u32 \<Rightarrow> GracefulMechanism" where
  "mechanism_from_flags w =
     (if w AND CREATE_NEW_PROCESS_GROUP = 0 then No_Mechanism
      else if w AND (DETACHED_PROCESS OR CREATE_NEW_CONSOLE OR CREATE_NO_WINDOW) \<noteq> 0 then OtherConsoleGroup
      else ConsoleGroup)"

section \<open>Which bits the word has\<close>

lemma flag_powers:
  "DEBUG_PROCESS = 2 ^ 0"
  "DEBUG_ONLY_THIS_PROCESS = 2 ^ 1"
  "CREATE_SUSPENDED = 2 ^ 2"
  "DETACHED_PROCESS = 2 ^ 3"
  "CREATE_NEW_CONSOLE = 2 ^ 4"
  "CREATE_NEW_PROCESS_GROUP = 2 ^ 9"
  "CREATE_UNICODE_ENVIRONMENT = 2 ^ 10"
  "EXTENDED_STARTUPINFO_PRESENT = 2 ^ 19"
  "CREATE_BREAKAWAY_FROM_JOB = 2 ^ 24"
  "CREATE_NO_WINDOW = 2 ^ 27"
  by (simp_all add: DEBUG_PROCESS_def DEBUG_ONLY_THIS_PROCESS_def CREATE_SUSPENDED_def DETACHED_PROCESS_def CREATE_NEW_CONSOLE_def CREATE_NEW_PROCESS_GROUP_def CREATE_UNICODE_ENVIRONMENT_def EXTENDED_STARTUPINFO_PRESENT_def CREATE_BREAKAWAY_FROM_JOB_def CREATE_NO_WINDOW_def)

lemma flag_bits [simp]:
  "bit DEBUG_PROCESS n \<longleftrightarrow> n = 0"
  "bit DEBUG_ONLY_THIS_PROCESS n \<longleftrightarrow> n = 1"
  "bit CREATE_SUSPENDED n \<longleftrightarrow> n = 2"
  "bit DETACHED_PROCESS n \<longleftrightarrow> n = 3"
  "bit CREATE_NEW_CONSOLE n \<longleftrightarrow> n = 4"
  "bit CREATE_NEW_PROCESS_GROUP n \<longleftrightarrow> n = 9"
  "bit CREATE_UNICODE_ENVIRONMENT n \<longleftrightarrow> n = 10"
  "bit EXTENDED_STARTUPINFO_PRESENT n \<longleftrightarrow> n = 19"
  "bit CREATE_BREAKAWAY_FROM_JOB n \<longleftrightarrow> n = 24"
  "bit CREATE_NO_WINDOW n \<longleftrightarrow> n = 27"
  by (auto simp only: flag_powers bit_exp_iff possible_bit_word len_num0 len_num1 len_bit0 len_bit1)

definition reserved_positions :: "nat set" where
  "reserved_positions = {0, 1, 2, 3, 4, 9, 10, 19, 24, 27}"

lemma and_flag_zero: "(w AND f = 0) \<longleftrightarrow> (\<forall>n. \<not> (bit w n \<and> bit (f :: u32) n))"
  using bit_imp_le_length [of w] by (fastforce simp: bit_eq_iff bit_and_iff)

lemma no_bit_at: "(\<forall>n. \<not> (bit w n \<and> n = k)) \<longleftrightarrow> \<not> bit (w :: u32) k"
  by blast

lemma reserved_bits_in_Nil: "reserved_bits_in raw = [] \<longleftrightarrow> (\<forall>n\<in>reserved_positions. \<not> bit raw n)"
proof -
  have "reserved_bits_in raw = [] \<longleftrightarrow> (\<forall>f\<in>set reserved_table. raw AND f = 0)"
    by (auto simp: reserved_bits_in_def filter_empty_conv simp flip: set_empty)
  then show ?thesis
    by (simp only: reserved_table_def reserved_positions_def and_flag_zero list.set ball_simps flag_bits no_bit_at)
qed

lemma setup_bits:
  "bit (wc_creation_flags (windows_contain_setup req is_root)) n \<longleftrightarrow>
     (n = 9 \<and> cq_mode req \<noteq> None) \<or> (n = 2 \<and> is_root \<and> cq_mode req \<noteq> None \<and> cq_mode req \<noteq> Some TreeWalkMode)"
  by (auto simp: windows_contain_setup_def root_flags_def group_flags_def bit_or_iff split: option.splits)

text \<open>What asks for each reserved bit.\<close>

definition asks_bit :: "ContainRequest \<Rightarrow> FlagsRequest \<Rightarrow> bool \<Rightarrow> SpawnBackend \<Rightarrow> nat \<Rightarrow> bool" where
  "asks_bit req flags is_root backend n \<longleftrightarrow>
     n = 2 \<and> (fr_suspended flags \<or> is_root \<and> cq_mode req \<noteq> None \<and> cq_mode req \<noteq> Some TreeWalkMode)
     \<or> n = 3 \<and> fr_detached flags
     \<or> n = 9 \<and> cq_mode req \<noteq> None
     \<or> (n = 10 \<or> n = 19) \<and> backend = RawBackend
     \<or> n = 24 \<and> fr_breakaway_from_job flags
     \<or> n = 27 \<and> fr_no_window flags"

lemma windows_spawn_Inr:
  "windows_spawn req flags is_root backend = Inr s \<longleftrightarrow>
     reserved_bits_in (fr_raw flags) = [] \<and> \<not> (fr_breakaway_from_job flags \<and> cq_mode req \<noteq> None) \<and>
     ws_marker_env s = (is_root \<and> cq_mode req \<noteq> None \<and> cq_nesting req = Mark) \<and>
     (\<forall>n. bit (ws_creation_flags s) n \<longleftrightarrow> bit (fr_raw flags) n \<or> asks_bit req flags is_root backend n)"
proof -
  have m: "wc_marker_env (windows_contain_setup req is_root) = (is_root \<and> cq_mode req \<noteq> None \<and> cq_nesting req = Mark)"
    by (auto simp: windows_contain_setup_def split: option.splits)
  have e: "s = \<lparr>ws_creation_flags = w, ws_marker_env = b\<rparr> \<longleftrightarrow> ws_marker_env s = b \<and> (\<forall>n. bit (ws_creation_flags s) n = bit w n)" for w b
    by (cases s) (auto intro: bit_eqI)
  have i: "bit (if c then w OR f else w) n \<longleftrightarrow> bit w n \<or> c \<and> bit f n" for c n and w f :: u32
    by (simp add: bit_or_iff)
  have sum_if: "(if c then Inl x else y) = Inr z \<longleftrightarrow> \<not> c \<and> y = Inr z" for c x y z by simp
  have inj: "Inr t = Inr s \<longleftrightarrow> s = t" for s t by auto
  have b: "((((((n = 9 \<and> c \<or> n = 2 \<and> r) \<or> raw) \<or> k \<and> n = 27) \<or> d \<and> n = 3) \<or> br \<and> n = 24) \<or> su \<and> n = 2) \<or> ba \<and> (n = 10 \<or> n = 19)
    \<longleftrightarrow> raw \<or> n = 2 \<and> (su \<or> r) \<or> n = 3 \<and> d \<or> n = 9 \<and> c \<or> (n = 10 \<or> n = 19) \<and> ba \<or> n = 24 \<and> br \<or> n = 27 \<and> k"
    for n :: nat and c r raw k d br su ba by argo
  show ?thesis
    unfolding windows_spawn_def Let_def sum_if inj e m i bit_or_iff setup_bits flag_bits not_not b asks_bit_def by argo
qed

lemma windows_spawn_mechanism:
  assumes "windows_spawn req flags is_root backend = Inr s"
  shows "mechanism_from_flags (ws_creation_flags s) =
    (if cq_mode req = None then No_Mechanism
     else if fr_detached flags \<or> fr_no_window flags then OtherConsoleGroup else ConsoleGroup)"
proof -
  note s = assms [unfolded windows_spawn_Inr reserved_bits_in_Nil]
  have b: "bit (ws_creation_flags s) n \<longleftrightarrow> asks_bit req flags is_root backend n" if "n \<in> reserved_positions" for n
    using s that by blast
  have "ws_creation_flags s AND CREATE_NEW_PROCESS_GROUP = 0 \<longleftrightarrow> cq_mode req = None"
    using b [of 9] by (auto simp: and_flag_zero reserved_positions_def asks_bit_def)
  moreover have "ws_creation_flags s AND (DETACHED_PROCESS OR CREATE_NEW_CONSOLE OR CREATE_NO_WINDOW) \<noteq> 0 \<longleftrightarrow>
      fr_detached flags \<or> fr_no_window flags"
    using b [of 3] b [of 4] b [of 27] by (auto simp: and_flag_zero reserved_positions_def asks_bit_def bit_or_iff)
  ultimately show ?thesis by (simp add: mechanism_from_flags_def)
qed

text \<open>C31: the exact word of a Windows spawn. A request is refused exactly when it asks for a reserved bit through the raw
  hatch, or to break away from the job that contains it. Otherwise each reserved bit is set exactly when something asks for
  it: no request is dropped and nothing is added; the debug and new-console bits never are; and every other bit is the
  caller's. What the word says about cooperative shutdown follows from the request.\<close>

theorem windows_flag_word:
  "case windows_spawn req flags is_root backend of
     Inl e \<Rightarrow> (\<exists>n\<in>reserved_positions. bit (fr_raw flags) n) \<or> fr_breakaway_from_job flags \<and> cq_mode req \<noteq> None
   | Inr s \<Rightarrow>
       (\<nexists>n. n \<in> reserved_positions \<and> bit (fr_raw flags) n) \<and> \<not> (fr_breakaway_from_job flags \<and> cq_mode req \<noteq> None) \<and>
       (\<forall>n. bit (ws_creation_flags s) n =
          (if n \<in> reserved_positions then asks_bit req flags is_root backend n else bit (fr_raw flags) n)) \<and>
       mechanism_from_flags (ws_creation_flags s) =
         (if cq_mode req = None then No_Mechanism
          else if fr_detached flags \<or> fr_no_window flags then OtherConsoleGroup else ConsoleGroup)"
proof (cases "windows_spawn req flags is_root backend")
  case (Inl e)
  then have "reserved_bits_in (fr_raw flags) \<noteq> [] \<or> fr_breakaway_from_job flags \<and> cq_mode req \<noteq> None"
    by (auto simp: windows_spawn_def Let_def split: if_splits)
  with Inl show ?thesis unfolding reserved_bits_in_Nil by auto
next
  case (Inr s)
  have "asks_bit req flags is_root backend n \<Longrightarrow> n \<in> reserved_positions" for n
    unfolding asks_bit_def reserved_positions_def by blast
  with Inr windows_spawn_Inr [THEN iffD1, OF Inr] windows_spawn_mechanism [OF Inr] show ?thesis
    unfolding reserved_bits_in_Nil by auto
qed

theorem windows_flag_word_witness:
  "(case windows_spawn \<lparr>cq_mode = Some Strongest, cq_nesting = Mark\<rparr> (default_flags\<lparr>fr_no_window := True, fr_raw := 0x40\<rparr>) True RawBackend of
      Inl e \<Rightarrow> False
    | Inr s \<Rightarrow> bit (ws_creation_flags s) 6 \<and> bit (ws_creation_flags s) 27 \<and> \<not> bit (ws_creation_flags s) 4)"
proof -
  have "case windows_spawn \<lparr>cq_mode = Some Strongest, cq_nesting = Mark\<rparr> (default_flags\<lparr>fr_no_window := True, fr_raw := 0x40\<rparr>) True RawBackend of
      Inl e \<Rightarrow> False | Inr s \<Rightarrow> True" by code_simp
  moreover have "bit (0x40 :: u32) 6" by simp
  ultimately show ?thesis
    using windows_flag_word [where req = "\<lparr>cq_mode = Some Strongest, cq_nesting = Mark\<rparr>"
        and flags = "default_flags\<lparr>fr_no_window := True, fr_raw := 0x40\<rparr>" and is_root = True and backend = RawBackend]
    by (auto simp: asks_bit_def reserved_positions_def split: sum.splits)
qed

end
