(* ===== verification/Effects.thy ===== *)
theory Effects
  imports Prelude "HOL-Library.State_Monad"
begin

text \<open>
  Code that makes many calls into the system, as a state monad: the state is what the system is in and a log of the calls made, newest first, with what
  each answered. \<open>wp\<close> is the weakest precondition of such a computation; its rules, in the collection \<open>wp_simps\<close>, turn a statement about a run into
  one about the answers of its calls.
\<close>

record ('k, 'e) Machine =
  w_kernel :: 'k
  w_log :: "'e list"

type_synonym ('k, 'e, 'a) eff = "(('k, 'e) Machine, 'a) state"

text \<open>One call, logged.\<close>

definition call :: "('a \<Rightarrow> 'e) \<Rightarrow> ('k \<Rightarrow> 'a \<times> 'k) \<Rightarrow> ('k, 'e, 'a) eff" where
  "call ev f = State (\<lambda>w. case f (w_kernel w) of (a, k) \<Rightarrow> (a, \<lparr>w_kernel = k, w_log = ev a # w_log w\<rparr>))"

definition wp :: "('s, 'a) state \<Rightarrow> ('a \<Rightarrow> 's \<Rightarrow> bool) \<Rightarrow> 's \<Rightarrow> bool" where
  "wp m Q s = (case run_state m s of (a, s') \<Rightarrow> Q a s')"

named_theorems wp_simps

lemma wp_return [wp_simps]: "wp (State_Monad.return a) Q = Q a"
  by (rule ext) (simp add: wp_def)

lemma wp_bind [wp_simps]: "wp (State_Monad.bind m f) Q = wp m (\<lambda>a. wp (f a) Q)"
  by (rule ext) (simp add: wp_def split: prod.splits)

lemma wp_if [wp_simps]: "wp (if b then m else n) Q = (if b then wp m Q else wp n Q)"
  by simp

lemma wp_call [wp_simps]:
  "wp (call ev f) Q w = Q (fst (f (w_kernel w))) \<lparr>w_kernel = snd (f (w_kernel w)), w_log = ev (fst (f (w_kernel w))) # w_log w\<rparr>"
  by (simp add: wp_def call_def split: prod.splits)

lemma wp_sum [wp_simps]: "wp (case r of Inl e \<Rightarrow> m e | Inr v \<Rightarrow> n v) Q = (case r of Inl e \<Rightarrow> wp (m e) Q | Inr v \<Rightarrow> wp (n v) Q)"
  by (cases r) simp_all

lemma wp_option [wp_simps]: "wp (case r of None \<Rightarrow> m | Some v \<Rightarrow> n v) Q = (case r of None \<Rightarrow> wp m Q | Some v \<Rightarrow> wp (n v) Q)"
  by (cases r) simp_all

lemma wp_pair [wp_simps]: "wp (case p of (a, b) \<Rightarrow> m a b) Q = (case p of (a, b) \<Rightarrow> wp (m a b) Q)"
  by (cases p) simp

lemma wp_mono: "wp m Q s \<Longrightarrow> (\<And>a s'. Q a s' \<Longrightarrow> R a s') \<Longrightarrow> wp m R s"
  by (auto simp: wp_def split: prod.splits)

lemma wp_conj: "wp m Q s \<Longrightarrow> wp m R s \<Longrightarrow> wp m (\<lambda>a s'. Q a s' \<and> R a s') s"
  by (auto simp: wp_def split: prod.splits)

lemma wp_then: "(\<And>a s. wp (f a) Q s) \<Longrightarrow> wp (State_Monad.bind m f) Q s"
  unfolding wp_bind by (simp add: wp_def [of m] split: prod.split)

lemma wp_runs: "wp m Q s \<longleftrightarrow> (\<forall>a s'. run_state m s = (a, s') \<longrightarrow> Q a s')"
  by (auto simp: wp_def split: prod.splits)

section \<open>What every run keeps\<close>

text \<open>A relation between the state before and the state after a computation. When it is reflexive and transitive, a computation keeps it as soon as its
calls do.\<close>

definition keeps :: "('s \<Rightarrow> 's \<Rightarrow> bool) \<Rightarrow> ('s, 'a) state \<Rightarrow> bool" where
  "keeps R m \<longleftrightarrow> (\<forall>s. wp m (\<lambda>_. R s) s)"

lemma keeps_wp: "keeps R m \<Longrightarrow> wp m (\<lambda>_. R s) s"
  by (simp add: keeps_def)

locale run_order =
  fixes R :: "'s \<Rightarrow> 's \<Rightarrow> bool"
  assumes refl: "R s s"
    and trans: "R s t \<Longrightarrow> R t u \<Longrightarrow> R s u"
begin

lemma keeps_return: "keeps R (State_Monad.return a)"
  by (simp add: keeps_def wp_simps refl)

lemma keeps_bind:
  assumes "keeps R m" and "\<And>a. keeps R (f a)"
  shows "keeps R (State_Monad.bind m f)"
  unfolding keeps_def wp_bind
proof
  fix s
  show "wp m (\<lambda>a. wp (f a) (\<lambda>_. R s)) s"
    by (rule wp_mono [OF keeps_wp [OF assms(1)]]) (rule wp_mono [OF keeps_wp [OF assms(2)]], rule trans)
qed

lemma keeps_if: "keeps R m \<Longrightarrow> keeps R n \<Longrightarrow> keeps R (if b then m else n)"
  by simp

lemma keeps_sum: "(\<And>e. keeps R (m e)) \<Longrightarrow> (\<And>v. keeps R (n v)) \<Longrightarrow> keeps R (case r of Inl e \<Rightarrow> m e | Inr v \<Rightarrow> n v)"
  by (cases r) simp_all

lemma keeps_option: "keeps R m \<Longrightarrow> (\<And>v. keeps R (n v)) \<Longrightarrow> keeps R (case r of None \<Rightarrow> m | Some v \<Rightarrow> n v)"
  by (cases r) simp_all

lemmas keeps_rules = keeps_return keeps_bind keeps_if keeps_sum keeps_option

end

text \<open>The log only grows.\<close>

definition extends :: "('k, 'e) Machine \<Rightarrow> ('k, 'e) Machine \<Rightarrow> bool" where
  "extends w w' \<longleftrightarrow> (\<exists>es. w_log w' = es @ w_log w)"

interpretation log: run_order extends
  by unfold_locales (auto simp: extends_def)

lemma call_extends: "keeps extends (call ev f)"
  by (auto simp: keeps_def wp_simps extends_def)

lemma extends_set: "extends w w' \<Longrightarrow> e \<in> set (w_log w) \<Longrightarrow> e \<in> set (w_log w')"
  by (auto simp: extends_def)

end
