(* ===== verification/Owned_Child.thy ===== *)
theory Owned_Child
  imports Errors
begin

text \<open>
  The handle of a spawned child that several threads wait on and signal at once: \<^verbatim>\<open>src/src/child/owned.rs\<close>, \<^verbatim>\<open>owned/waiting.rs\<close>, \<^verbatim>\<open>owned/holder.rs\<close>
  and the wait loop of \<^verbatim>\<open>src/src/os_process/drive.rs\<close>. Each critical section is a definition on the guarded state; a step relation interleaves the
  threads, the clock and the child.
\<close>

section \<open>What the OS says of a child\<close>

datatype ExitRecord = Status i32 | Unreadable i32

datatype Foreign = Foreign_Gone | Foreign_Other | Orphaned

datatype PeekOutcome = Peek_Exit ExitRecord | Peek_Running | Peek_Foreign Foreign

text \<open>\<^verbatim>\<open>TryReapOutcome\<close>; the wait that \<^verbatim>\<open>Running\<close> carries is what the holder polls on.\<close>

datatype TryReapOutcome = Reap_Done ExitRecord | Reap_Running | Reap_Recheck | Reap_Foreign Foreign

datatype ChildWaitOutcome = Exited ExitRecord | Not_Ours Foreign | DeadlinePassed

section \<open>The guarded state\<close>

datatype State = St_N | St_W u64 | St_E ExitRecord

record Inner =
  i_state :: State
  i_next_token :: u64

definition new_inner :: Inner where
  "new_inner = \<lparr>i_state = St_N, i_next_token = 0\<rparr>"

text \<open>\<^verbatim>\<open>HolderGuard::arm\<close>, and the write of a guard that is finished or dropped.\<close>

definition arm :: "Inner \<Rightarrow> Inner" where
  "arm inner = \<lparr>i_state = St_W (i_next_token inner), i_next_token = i_next_token inner + 1\<rparr>"

definition set_state :: "State \<Rightarrow> Inner \<Rightarrow> Inner" where
  "set_state st inner = inner\<lparr>i_state := st\<rparr>"

text \<open>An instant is a natural number; \<open>passed\<close> is \<^verbatim>\<open>remaining(deadline) == Some(ZERO)\<close>.\<close>

definition passed :: "nat option \<Rightarrow> nat \<Rightarrow> bool" where
  "passed deadline now = (case deadline of None \<Rightarrow> False | Some d \<Rightarrow> d \<le> now)"

definition peeked :: "PeekOutcome \<Rightarrow> ChildWaitOutcome" where
  "peeked p = (case p of Peek_Exit r \<Rightarrow> Exited r | Peek_Running \<Rightarrow> DeadlinePassed | Peek_Foreign f \<Rightarrow> Not_Ours f)"

text \<open>One round of \<^verbatim>\<open>OwnedChild::wait\<close> under the lock. \<open>peek\<close> is the answer of \<^verbatim>\<open>peek_locked\<close>, should the round make the call.\<close>

datatype Round = Return "Error + ChildWaitOutcome" | Hold | Block

definition wait_round :: "State \<Rightarrow> nat option \<Rightarrow> nat \<Rightarrow> Error + PeekOutcome \<Rightarrow> Round" where
  "wait_round st deadline now peek = (case st of
      St_E r \<Rightarrow> Return (Inr (Exited r))
    | St_N \<Rightarrow> Hold
    | St_W _ \<Rightarrow> if passed deadline now then Return (map_sum id peeked peek) else Block)"

text \<open>One look of the holder under the lock, and what \<^verbatim>\<open>run\<close> does with it: the holder settles the state and returns, drops its guard with the lock
held or not, waits with the lock released, or pauses on the condition variable.\<close>

datatype Looked = Settle State ChildWaitOutcome | Quit bool "Error + ChildWaitOutcome" | Wait_On | Pause_For

definition holder_look :: "bool \<Rightarrow> Error + TryReapOutcome \<Rightarrow> Looked" where
  "holder_look final_look ans = (case ans of
      Inl e \<Rightarrow> Quit True (Inl e)
    | Inr (Reap_Done r) \<Rightarrow> Settle (St_E r) (Exited r)
    | Inr (Reap_Foreign f) \<Rightarrow> Settle St_N (Not_Ours f)
    | Inr Reap_Recheck \<Rightarrow> if final_look then Quit True (Inr DeadlinePassed) else Pause_For
    | Inr Reap_Running \<Rightarrow> if final_look then Quit False (Inr DeadlinePassed) else Wait_On)"

section \<open>The child\<close>

text \<open>The kernel's view of the child: running, exited and unreaped, reaped through this handle, or reaped by someone else.\<close>

datatype World = Live | Zombie ExitRecord | Own ExitRecord | Taken ExitRecord

inductive world_step :: "World \<Rightarrow> World \<Rightarrow> bool" where
  exits: "world_step Live (Zombie r)"
| taken: "world_step (Zombie r) (Taken r)"

text \<open>What \<^verbatim>\<open>OsChild\<close> promises of its answers: a consumed record is the child's, an exit that is peeked is an unreaped one, and a child is foreign only
when it was reaped.\<close>

fun was_reaped :: "World \<Rightarrow> bool" where
  "was_reaped (Own _) = True"
| "was_reaped (Taken _) = True"
| "was_reaped _ = False"

definition reap_answer :: "World \<Rightarrow> Error + TryReapOutcome \<Rightarrow> World \<Rightarrow> bool" where
  "reap_answer w ans w' = (case ans of
      Inr (Reap_Done r) \<Rightarrow> w = Zombie r \<and> w' = Own r
    | Inr (Reap_Foreign _) \<Rightarrow> was_reaped w \<and> w' = w
    | _ \<Rightarrow> w' = w)"

definition peek_answer :: "World \<Rightarrow> Error + PeekOutcome \<Rightarrow> bool" where
  "peek_answer w ans = (case ans of
      Inr (Peek_Exit r) \<Rightarrow> w = Zombie r
    | Inr (Peek_Foreign _) \<Rightarrow> was_reaped w
    | _ \<Rightarrow> True)"

section \<open>The threads\<close>

text \<open>Where a thread is: outside, about to take the lock, holding it to dispatch, asleep on the condition variable (with whether it was notified), or the
holder before a read of the clock, before a look, in its poll, in its pause, or dropping its guard.\<close>

datatype Pc =
    Idle
  | Entering "nat option"
  | Dispatching "nat option"
  | Sleeping "nat option" bool
  | Heading u64 "nat option"
  | Looking u64 "nat option" bool
  | Polling u64 "nat option"
  | Pausing u64 "nat option"
  | Quitting u64 "nat option" "Error + ChildWaitOutcome"
  | Returned "nat option" "Error + ChildWaitOutcome"
  | Holding_Reaps

record Sys =
  sys_inner :: Inner
  sys_mutex :: "nat option"
  sys_now :: nat
  sys_world :: World
  sys_pcs :: "nat \<Rightarrow> Pc"
  sys_sends :: "World list"

definition new_sys :: "nat \<Rightarrow> Sys" where
  "new_sys now = \<lparr>sys_inner = new_inner, sys_mutex = None, sys_now = now, sys_world = Live, sys_pcs = (\<lambda>_. Idle), sys_sends = []\<rparr>"

definition wake :: "Pc \<Rightarrow> Pc" where
  "wake pc = (case pc of Sleeping d _ \<Rightarrow> Sleeping d True | _ \<Rightarrow> pc)"

text \<open>A thread goes on with the mutex as given; a write of the state notifies every sleeper.\<close>

definition go :: "nat \<Rightarrow> Pc \<Rightarrow> nat option \<Rightarrow> Sys \<Rightarrow> Sys" where
  "go t pc mutex s = s\<lparr>sys_mutex := mutex, sys_pcs := (sys_pcs s)(t := pc)\<rparr>"

definition write_state :: "Inner \<Rightarrow> Sys \<Rightarrow> Sys" where
  "write_state inner s = s\<lparr>sys_inner := inner, sys_pcs := (\<lambda>t. wake (sys_pcs s t))\<rparr>"

definition after_look :: "nat \<Rightarrow> u64 \<Rightarrow> nat option \<Rightarrow> Looked \<Rightarrow> Sys \<Rightarrow> Sys" where
  "after_look t tok d looked s = (case looked of
      Settle st out \<Rightarrow> go t (Returned d (Inr out)) None (write_state (set_state st (sys_inner s)) s)
    | Quit locked r \<Rightarrow> go t (Quitting tok d r) (if locked then Some t else None) s
    | Wait_On \<Rightarrow> go t (if passed d (sys_now s) then Heading tok d else Polling tok d) None s
    | Pause_For \<Rightarrow> if passed d (sys_now s) then go t (Heading tok d) (Some t) s else go t (Pausing tok d) None s)"

text \<open>\<^verbatim>\<open>signal_locked\<close>: nothing is sent once the exit is recorded. A send is logged with the child's state when it was made.\<close>

definition signal_locked :: "Sys \<Rightarrow> Sys" where
  "signal_locked s = (case i_state (sys_inner s) of St_E _ \<Rightarrow> s | _ \<Rightarrow> s\<lparr>sys_sends := sys_world s # sys_sends s\<rparr>)"

definition free_for :: "nat \<Rightarrow> Sys \<Rightarrow> bool" where
  "free_for t s \<longleftrightarrow> sys_mutex s = None \<or> sys_mutex s = Some t"

inductive step :: "Sys \<Rightarrow> Sys \<Rightarrow> bool" where
  start: "sys_pcs s t = Idle \<Longrightarrow> step s (go t (Entering d) (sys_mutex s) s)"
| lock: "sys_pcs s t = Entering d \<Longrightarrow> sys_mutex s = None \<Longrightarrow> step s (go t (Dispatching d) (Some t) s)"
| woken: "sys_pcs s t = Sleeping d b \<Longrightarrow> sys_mutex s = None \<Longrightarrow> step s (go t (Dispatching d) (Some t) s)"
| answered: "sys_pcs s t = Dispatching d \<Longrightarrow> peek_answer (sys_world s) p \<Longrightarrow> wait_round (i_state (sys_inner s)) d (sys_now s) p = Return r \<Longrightarrow>
    step s (go t (Returned d r) None s)"
| blocked: "sys_pcs s t = Dispatching d \<Longrightarrow> wait_round (i_state (sys_inner s)) d (sys_now s) p = Block \<Longrightarrow> step s (go t (Sleeping d False) None s)"
| armed: "sys_pcs s t = Dispatching d \<Longrightarrow> wait_round (i_state (sys_inner s)) d (sys_now s) p = Hold \<Longrightarrow>
    step s (go t (Heading (i_next_token (sys_inner s)) d) (Some t) (write_state (arm (sys_inner s)) s))"
| head: "sys_pcs s t = Heading tok d \<Longrightarrow> step s (go t (Looking tok d (passed d (sys_now s))) (sys_mutex s) s)"
| look: "sys_pcs s t = Looking tok d final \<Longrightarrow> free_for t s \<Longrightarrow> reap_answer (sys_world s) ans w \<Longrightarrow>
    step s (after_look t tok d (holder_look final ans) (s\<lparr>sys_world := w\<rparr>))"
| polled: "sys_pcs s t = Polling tok d \<Longrightarrow> step s (go t (Heading tok d) (sys_mutex s) s)"
| poll_failed: "sys_pcs s t = Polling tok d \<Longrightarrow> step s (go t (Quitting tok d (Inl e)) (sys_mutex s) s)"
| paused: "sys_pcs s t = Pausing tok d \<Longrightarrow> sys_mutex s = None \<Longrightarrow> step s (go t (Heading tok d) (Some t) s)"
| dropped: "sys_pcs s t = Quitting tok d r \<Longrightarrow> free_for t s \<Longrightarrow> step s (go t (Returned d r) None (write_state (set_state St_N (sys_inner s)) s))"
| leave: "sys_pcs s t = Returned d r \<Longrightarrow> step s (go t Idle (sys_mutex s) s)"
| signal: "sys_pcs s t = Idle \<Longrightarrow> sys_mutex s = None \<Longrightarrow> step s (signal_locked s)"
| hold_reaps: "sys_pcs s t = Idle \<Longrightarrow> sys_mutex s = None \<Longrightarrow> step s (go t Holding_Reaps (Some t) s)"
| held_signal: "sys_pcs s t = Holding_Reaps \<Longrightarrow> step s (signal_locked s)"
| release: "sys_pcs s t = Holding_Reaps \<Longrightarrow> step s (go t Idle None s)"
| tick: "sys_now s \<le> n \<Longrightarrow> step s (s\<lparr>sys_now := n\<rparr>)"
| world: "world_step (sys_world s) w \<Longrightarrow> step s (s\<lparr>sys_world := w\<rparr>)"

inductive reachable :: "Sys \<Rightarrow> bool" where
  init: "reachable (new_sys now)"
| step: "reachable s \<Longrightarrow> step s s' \<Longrightarrow> reachable s'"

section \<open>The invariant\<close>

fun holder :: "Pc \<Rightarrow> u64 option" where
  "holder (Heading tok _) = Some tok"
| "holder (Looking tok _ _) = Some tok"
| "holder (Polling tok _) = Some tok"
| "holder (Pausing tok _) = Some tok"
| "holder (Quitting tok _ _) = Some tok"
| "holder _ = None"

fun locked_in :: "Pc \<Rightarrow> bool" where
  "locked_in (Dispatching _) = True"
| "locked_in Holding_Reaps = True"
| "locked_in _ = False"

text \<open>What a returned outcome says is true of the child and of the clock.\<close>

definition truthful :: "World \<Rightarrow> nat \<Rightarrow> nat option \<Rightarrow> Error + ChildWaitOutcome \<Rightarrow> bool" where
  "truthful w now d r = (case r of
      Inl _ \<Rightarrow> True
    | Inr (Exited x) \<Rightarrow> w \<in> {Zombie x, Own x, Taken x}
    | Inr (Not_Ours _) \<Rightarrow> (case w of Taken _ \<Rightarrow> True | _ \<Rightarrow> False)
    | Inr DeadlinePassed \<Rightarrow> passed d now)"

fun pc_truthful :: "World \<Rightarrow> nat \<Rightarrow> Pc \<Rightarrow> bool" where
  "pc_truthful w now (Returned d r) = truthful w now d r"
| "pc_truthful w now (Quitting _ d r) = truthful w now d r"
| "pc_truthful w now (Looking _ d final) = (final \<longrightarrow> passed d now)"
| "pc_truthful w now _ = True"

text \<open>The holder's token is in the state and it is the only holder; who has the lock; the exit is recorded exactly when this handle reaped; a sleeper that was
not notified has a holder; outcomes are truthful; nothing was sent after the reap.\<close>

definition one_holder :: "State \<Rightarrow> (nat \<Rightarrow> u64 option) \<Rightarrow> bool" where
  "one_holder st h \<longleftrightarrow> (case st of St_W tok \<Rightarrow> \<exists>t. h = (\<lambda>_. None)(t := Some tok) | _ \<Rightarrow> h = (\<lambda>_. None))"

definition sleepers_held :: "State \<Rightarrow> (nat \<Rightarrow> Pc) \<Rightarrow> bool" where
  "sleepers_held st pcs \<longleftrightarrow> (\<forall>t d. pcs t = Sleeping d False \<longrightarrow> (\<exists>tok. st = St_W tok))"

definition recorded :: "State \<Rightarrow> World \<Rightarrow> bool" where
  "recorded st w \<longleftrightarrow> (\<forall>r. st = St_E r \<longleftrightarrow> w = Own r)"

definition inv :: "Sys \<Rightarrow> bool" where
  "inv s \<longleftrightarrow> one_holder (i_state (sys_inner s)) (\<lambda>t. holder (sys_pcs s t)) \<and> sleepers_held (i_state (sys_inner s)) (sys_pcs s)
     \<and> recorded (i_state (sys_inner s)) (sys_world s) \<and> (\<forall>t. pc_truthful (sys_world s) (sys_now s) (sys_pcs s t))
     \<and> (\<forall>t. locked_in (sys_pcs s t) \<longrightarrow> sys_mutex s = Some t) \<and> (\<forall>w\<in>set (sys_sends s). \<forall>r. w \<noteq> Own r)"

lemma holder_wake [simp]: "holder (wake pc) = holder pc" and locked_in_wake [simp]: "locked_in (wake pc) = locked_in pc"
  and pc_truthful_wake [simp]: "pc_truthful w now (wake pc) = pc_truthful w now pc" and wake_asleep [simp]: "wake pc \<noteq> Sleeping d False"
  by (cases pc; simp add: wake_def)+

lemma passed_mono: "passed d now \<Longrightarrow> now \<le> n \<Longrightarrow> passed d n"
  by (auto simp: passed_def split: option.splits)

lemma pc_truthful_tick: "pc_truthful w now pc \<Longrightarrow> now \<le> n \<Longrightarrow> pc_truthful w n pc"
  by (cases pc) (auto simp: truthful_def intro: passed_mono split: sum.splits ChildWaitOutcome.splits)

lemma pc_truthful_world: "world_step w w' \<Longrightarrow> pc_truthful w now pc \<Longrightarrow> pc_truthful w' now pc"
  by (cases pc; cases rule: world_step.cases) (auto simp: truthful_def split: sum.splits ChildWaitOutcome.splits)

lemma sys_go [simp]:
  "sys_inner (go t pc m s) = sys_inner s" "sys_mutex (go t pc m s) = m" "sys_now (go t pc m s) = sys_now s" "sys_world (go t pc m s) = sys_world s"
  "sys_pcs (go t pc m s) = (sys_pcs s)(t := pc)" "sys_sends (go t pc m s) = sys_sends s"
  by (simp_all add: go_def)

lemma sys_write_state [simp]:
  "sys_inner (write_state i s) = i" "sys_mutex (write_state i s) = sys_mutex s" "sys_now (write_state i s) = sys_now s" "sys_world (write_state i s) = sys_world s"
  "sys_pcs (write_state i s) = (\<lambda>t. wake (sys_pcs s t))" "sys_sends (write_state i s) = sys_sends s"
  by (simp_all add: write_state_def)

lemma holder_upd: "holder pc = holder (pcs t) \<Longrightarrow> (\<lambda>t'. holder ((pcs(t := pc)) t')) = (\<lambda>t'. holder (pcs t'))"
  by auto

text \<open>A thread that moves on and writes nothing.\<close>

lemma inv_go:
  assumes "inv s" and "holder pc = holder (sys_pcs s t)" and "pc_truthful (sys_world s) (sys_now s) pc"
    and "\<And>d. pc = Sleeping d False \<Longrightarrow> \<exists>tok. i_state (sys_inner s) = St_W tok"
    and "locked_in pc \<Longrightarrow> mutex = Some t" and "\<And>t'. t' \<noteq> t \<Longrightarrow> sys_mutex s = Some t' \<Longrightarrow> mutex = Some t'"
  shows "inv (go t pc mutex s)"
proof -
  have "sleepers_held (i_state (sys_inner s)) ((sys_pcs s)(t := pc))" using assms(1,4) by (auto simp: inv_def sleepers_held_def)
  moreover have "\<forall>t'. locked_in (((sys_pcs s)(t := pc)) t') \<longrightarrow> mutex = Some t'" using assms(1,5,6) by (auto simp: inv_def)
  ultimately show ?thesis using assms(1,3) holder_upd [of pc "sys_pcs s" t, OF assms(2)] by (simp add: inv_def)
qed

lemma one_holder_of: "one_holder st h \<Longrightarrow> h t = Some tok \<Longrightarrow> st = St_W tok \<and> h = (\<lambda>_. None)(t := Some tok)"
  by (auto simp: one_holder_def split: State.splits if_splits)

lemma inv_holder:
  "inv s \<Longrightarrow> holder (sys_pcs s t) = Some tok \<Longrightarrow> i_state (sys_inner s) = St_W tok \<and> (\<lambda>t. holder (sys_pcs s t)) = (\<lambda>_. None)(t := Some tok)"
  using one_holder_of [of "i_state (sys_inner s)" "\<lambda>t. holder (sys_pcs s t)" t tok] by (simp add: inv_def)

text \<open>The holder that settles the state, or drops its guard.\<close>

lemma inv_settled:
  assumes "inv s" and "holder (sys_pcs s t) \<noteq> None" and "free_for t s" and "\<And>tok. st \<noteq> St_W tok" and "recorded st w"
    and "\<And>pc. pc_truthful (sys_world s) (sys_now s) pc \<Longrightarrow> pc_truthful w (sys_now s) pc" and "truthful w (sys_now s) d r"
  shows "inv (go t (Returned d r) None (write_state (set_state st (sys_inner s)) (s\<lparr>sys_world := w\<rparr>)))"
proof -
  from assms(2) obtain tok where "holder (sys_pcs s t) = Some tok" by auto
  then have h: "(\<lambda>t. holder (sys_pcs s t)) = (\<lambda>_. None)(t := Some tok)" using inv_holder [OF assms(1)] by blast
  have "(\<lambda>t'. holder (((\<lambda>t. wake (sys_pcs s t))(t := Returned d r)) t')) = (\<lambda>_. None)" using h by (auto simp: fun_eq_iff split: if_splits)
  moreover have "\<not> locked_in (sys_pcs s t')" if "t' \<noteq> t" for t' using assms(1,3) that by (auto simp: inv_def free_for_def)
  ultimately show ?thesis using assms(1,4-7)
    by (auto simp: inv_def set_state_def one_holder_def sleepers_held_def split: State.splits)
qed

lemma inv_armed:
  assumes "inv s" and "sys_pcs s t = Dispatching d" and "i_state (sys_inner s) = St_N"
  shows "inv (go t (Heading (i_next_token (sys_inner s)) d) (Some t) (write_state (arm (sys_inner s)) s))"
proof -
  let ?pc = "Heading (i_next_token (sys_inner s)) d"
  have "(\<lambda>t. holder (sys_pcs s t)) = (\<lambda>_. None)" using assms(1,3) by (simp add: inv_def one_holder_def)
  then have h: "holder (sys_pcs s t') = None" for t' by (rule fun_cong)
  have "(\<lambda>t'. holder (((\<lambda>t. wake (sys_pcs s t))(t := ?pc)) t')) = (\<lambda>_. None)(t := Some (i_next_token (sys_inner s)))" by (auto simp: h)
  then have "one_holder (St_W (i_next_token (sys_inner s))) (\<lambda>t'. holder (((\<lambda>t. wake (sys_pcs s t))(t := ?pc)) t'))" unfolding one_holder_def by auto
  moreover have "sys_mutex s = Some t" using assms(1,2) by (auto simp: inv_def)
  ultimately show ?thesis using assms(1,3) by (auto simp: inv_def arm_def recorded_def sleepers_held_def)
qed

lemma unowned: "inv s \<Longrightarrow> i_state (sys_inner s) = St_W tok \<Longrightarrow> sys_world s \<noteq> Own r"
  by (auto simp: inv_def recorded_def)

lemma was_reaped_unowned: "was_reaped w \<Longrightarrow> (\<And>r. w \<noteq> Own r) \<Longrightarrow> \<exists>r. w = Taken r"
  by (cases w) auto

lemma inv_look:
  assumes i: "inv s" and pc: "sys_pcs s t = Looking tok d final" and f: "free_for t s" and a: "reap_answer (sys_world s) ans w"
  shows "inv (after_look t tok d (holder_look final ans) (s\<lparr>sys_world := w\<rparr>))"
proof -
  have W: "i_state (sys_inner s) = St_W tok" using inv_holder [OF i, of t tok] pc by simp
  have fin: "final \<Longrightarrow> passed d (sys_now s)" using i pc unfolding inv_def by (metis pc_truthful.simps(3))
  have mx: "sys_mutex s = Some t' \<Longrightarrow> t' = t" for t' using f by (auto simp: free_for_def)
  have move: "inv (go t pc' m s)" if "holder pc' = Some tok" "pc_truthful (sys_world s) (sys_now s) pc'" "\<not> locked_in pc'" for pc' m
    using that i pc mx by (intro inv_go) auto
  show ?thesis
  proof (cases ans)
    case (Inl e)
    with a have "w = sys_world s" by (simp add: reap_answer_def)
    then show ?thesis using Inl by (simp add: holder_look_def after_look_def move truthful_def)
  next
    case (Inr out)
    show ?thesis
    proof (cases out)
      case (Reap_Done r)
      with Inr a have w: "sys_world s = Zombie r" "w = Own r" by (simp_all add: reap_answer_def)
      have t: "pc_truthful w (sys_now s) pc'" if "pc_truthful (sys_world s) (sys_now s) pc'" for pc'
        using that unfolding w by (cases pc') (auto simp: truthful_def split: sum.splits ChildWaitOutcome.splits)
      have "inv (go t (Returned d (Inr (Exited r))) None (write_state (set_state (St_E r) (sys_inner s)) (s\<lparr>sys_world := w\<rparr>)))"
        by (rule inv_settled [OF i _ f _ _ t]) (use pc w in \<open>auto simp: recorded_def truthful_def\<close>)
      then show ?thesis using Inr Reap_Done by (simp add: holder_look_def after_look_def)
    next
      case (Reap_Foreign g)
      with Inr a have w: "was_reaped (sys_world s)" "w = sys_world s" by (simp_all add: reap_answer_def)
      with was_reaped_unowned unowned [OF i W] obtain r where r: "sys_world s = Taken r" by blast
      have "inv (go t (Returned d (Inr (Not_Ours g))) None (write_state (set_state St_N (sys_inner s)) (s\<lparr>sys_world := w\<rparr>)))"
        by (rule inv_settled [OF i _ f]) (use pc w r in \<open>auto simp: recorded_def truthful_def\<close>)
      then show ?thesis using Inr Reap_Foreign by (simp add: holder_look_def after_look_def)
    next
      case Reap_Running
      with Inr a have "w = sys_world s" by (simp add: reap_answer_def)
      then show ?thesis using Inr Reap_Running fin by (simp add: holder_look_def after_look_def move truthful_def)
    next
      case Reap_Recheck
      with Inr a have "w = sys_world s" by (simp add: reap_answer_def)
      then show ?thesis using Inr Reap_Recheck fin by (simp add: holder_look_def after_look_def move truthful_def)
    qed
  qed
qed

lemma inv_answered:
  assumes "inv s" and "peek_answer (sys_world s) p" and "wait_round (i_state (sys_inner s)) d (sys_now s) p = Return r"
  shows "truthful (sys_world s) (sys_now s) d r"
proof (cases "i_state (sys_inner s)")
  case (St_E x)
  with assms show ?thesis by (auto simp: wait_round_def truthful_def inv_def recorded_def)
next
  case (St_W tok)
  with assms(3) have d: "passed d (sys_now s)" "r = map_sum id peeked p" by (auto simp: wait_round_def split: if_splits)
  show ?thesis
  proof (cases p)
    case (Inr out)
    then show ?thesis using d assms(2) was_reaped_unowned [OF _ unowned [OF assms(1) St_W]]
      by (cases out) (auto simp: truthful_def peeked_def peek_answer_def)
  qed (use d in \<open>simp add: truthful_def\<close>)
qed (use assms in \<open>simp add: wait_round_def\<close>)

lemma inv_signal: "inv s \<Longrightarrow> inv (signal_locked s)"
  by (auto simp: signal_locked_def inv_def recorded_def split: State.splits)

lemma inv_new: "inv (new_sys now)"
  by (simp add: inv_def new_sys_def new_inner_def one_holder_def sleepers_held_def recorded_def)

lemma inv_step: "step s s' \<Longrightarrow> inv s \<Longrightarrow> inv s'"
proof (induction rule: step.induct)
  case (answered s t d p r)
  then have "sys_mutex s = Some t" by (auto simp: inv_def)
  with answered show ?case by (intro inv_go) (auto simp: inv_answered)
next
  case (blocked s t d p)
  then have "sys_mutex s = Some t" by (auto simp: inv_def)
  with blocked show ?case by (intro inv_go) (auto simp: wait_round_def split: State.splits if_splits)
next
  case (armed s t d p)
  then show ?case by (intro inv_armed) (auto simp: wait_round_def split: State.splits if_splits)
next
  case (look s t tok d final ans w)
  then show ?case by (intro inv_look)
next
  case (dropped s t tok d r)
  then have "truthful (sys_world s) (sys_now s) d r" unfolding inv_def by (metis pc_truthful.simps(2))
  moreover have "recorded St_N (sys_world s)" using unowned [OF dropped(3)] inv_holder [OF dropped(3), of t tok] dropped(1) by (simp add: recorded_def)
  ultimately have "inv (go t (Returned d r) None (write_state (set_state St_N (sys_inner s)) (s\<lparr>sys_world := sys_world s\<rparr>)))"
    using dropped by (intro inv_settled) auto
  then show ?case by simp
next
  case (release s t)
  then have "sys_mutex s = Some t" by (auto simp: inv_def)
  with release show ?case by (intro inv_go) auto
next
  case (tick s n)
  then show ?case by (auto simp: inv_def intro: pc_truthful_tick)
next
  case (world s w)
  then have "recorded (i_state (sys_inner s)) w" by (auto simp: inv_def recorded_def elim: world_step.cases)
  with world show ?case by (auto simp: inv_def intro: pc_truthful_world)
qed (auto intro!: inv_go inv_signal simp: truthful_def)

lemma inv_reachable: "reachable s \<Longrightarrow> inv s"
  by (induction rule: reachable.induct) (auto intro: inv_new inv_step)

section \<open>What the handle promises\<close>

lemma reaped_stays: "step s s' \<Longrightarrow> inv s \<Longrightarrow> i_state (sys_inner s) = St_E r \<Longrightarrow> i_state (sys_inner s') = St_E r"
proof (induction rule: step.induct)
  case (look s t tok d final ans w)
  then have "i_state (sys_inner s) = St_W tok" using inv_holder [of s t tok] by simp
  with look show ?case by simp
next
  case (dropped s t tok d x)
  then have "i_state (sys_inner s) = St_W tok" using inv_holder [of s t tok] by simp
  with dropped show ?case by simp
qed (auto simp: wait_round_def signal_locked_def)

lemma look_notifies: "i_state (sys_inner (after_look t tok d looked s)) \<noteq> i_state (sys_inner s) \<Longrightarrow> t' \<noteq> t \<Longrightarrow> sys_pcs s t' = Sleeping d' b \<Longrightarrow>
    sys_pcs (after_look t tok d looked s) t' = Sleeping d' True"
  by (cases looked) (auto simp: after_look_def wake_def split: if_splits)

lemma writes_notify:
  "step s s' \<Longrightarrow> i_state (sys_inner s') \<noteq> i_state (sys_inner s) \<Longrightarrow> sys_pcs s t' = Sleeping d' b \<Longrightarrow> sys_pcs s' t' = Sleeping d' True"
proof (induction rule: step.induct)
  case (look s t tok d final ans w)
  moreover from this have "t' \<noteq> t" by auto
  ultimately show ?case using look_notifies [of t tok d "holder_look final ans" "s\<lparr>sys_world := w\<rparr>" t' d' b] by auto
qed (auto simp: signal_locked_def wake_def split: State.splits)


text \<open>C12: no waiter is stranded. A thread that sleeps on the condition variable and was not notified has exactly one holder to wait for, which runs the wait
loop under the token in the state; and whichever step writes the state, the sleeper is notified by that very step, so a holder that gives up, fails or reaps
always hands on.\<close>

theorem no_waiter_is_stranded:
  assumes "reachable s" and "sys_pcs s t = Sleeping d False"
  shows "(\<exists>!h. holder (sys_pcs s h) \<noteq> None) \<and> (\<exists>h tok. holder (sys_pcs s h) = Some tok \<and> i_state (sys_inner s) = St_W tok)
    \<and> (\<forall>s'. step s s' \<longrightarrow> i_state (sys_inner s') \<noteq> i_state (sys_inner s) \<longrightarrow> sys_pcs s' t = Sleeping d True)"
proof -
  have i: "inv s" using assms(1) by (rule inv_reachable)
  then obtain tok where tok: "i_state (sys_inner s) = St_W tok" using assms(2) by (auto simp: inv_def sleepers_held_def)
  with i obtain h where h: "(\<lambda>t. holder (sys_pcs s t)) = (\<lambda>_. None)(h := Some tok)" by (auto simp: inv_def one_holder_def)
  then have "holder (sys_pcs s t') = (if t' = h then Some tok else None)" for t' by (metis fun_upd_apply)
  then show ?thesis using tok writes_notify assms(2) by auto
qed

text \<open>C13: the child is reaped once, and nothing is sent to it after that. The exit is recorded exactly when this handle reaped the child, with the record it
consumed; no signal was ever sent with the child already reaped through this handle; and what is recorded stays, so the reap is never repeated.\<close>

theorem reaped_once_and_never_signalled_after:
  assumes "reachable s"
  shows "(\<forall>r. i_state (sys_inner s) = St_E r \<longleftrightarrow> sys_world s = Own r) \<and> (\<forall>w\<in>set (sys_sends s). \<forall>r. w \<noteq> Own r)
    \<and> (\<forall>s' r. step s s' \<longrightarrow> i_state (sys_inner s) = St_E r \<longrightarrow> i_state (sys_inner s') = St_E r \<and> sys_world s' = Own r)"
proof -
  have i: "inv s" using assms by (rule inv_reachable)
  have "i_state (sys_inner s') = St_E r \<and> sys_world s' = Own r" if "step s s'" "i_state (sys_inner s) = St_E r" for s' r
    using reaped_stays [OF that(1) i that(2)] inv_step [OF that(1) i] by (auto simp: inv_def recorded_def)
  then show ?thesis using i by (auto simp: inv_def recorded_def)
qed

subsection \<open>A run\<close>

text \<open>Thread 0 holds the wait and polls; thread 1 comes with the deadline \<open>d\<close> and has the lock.\<close>

definition polling_run :: "nat option \<Rightarrow> Sys" where
  "polling_run d = go 1 (Dispatching d) (Some 1) (go 1 (Entering d) None (go 0 (Polling 0 None) None (go 0 (Looking 0 None False) (Some 0)
     (go 0 (Heading 0 None) (Some 0) (write_state (arm new_inner) (go 0 (Dispatching None) (Some 0) (go 0 (Entering None) None (new_sys 0))))))))"

lemma new_sys_simps [simp]:
  "sys_inner (new_sys n) = new_inner" "sys_mutex (new_sys n) = None" "sys_now (new_sys n) = n" "sys_world (new_sys n) = Live" "sys_pcs (new_sys n) t = Idle"
  "i_state new_inner = St_N" "i_next_token new_inner = 0" "i_state (arm i) = St_W (i_next_token i)" "sys_sends (new_sys n) = []"
  by (simp_all add: new_sys_def new_inner_def arm_def)

lemma polling_run_reachable: "reachable (polling_run d)"
proof -
  let ?s1 = "go 0 (Entering None) None (new_sys 0)"
  let ?s2 = "go 0 (Dispatching None) (Some 0) ?s1"
  let ?s3 = "go 0 (Heading 0 None) (Some 0) (write_state (arm new_inner) ?s2)"
  let ?s4 = "go 0 (Looking 0 None False) (Some 0) ?s3"
  let ?s5 = "go 0 (Polling 0 None) None ?s4"
  let ?s6 = "go 1 (Entering d) None ?s5"
  have 1: "reachable ?s1" using step.start [of "new_sys 0" 0 None] reachable.init [of 0] by (auto intro: reachable.step)
  have 2: "reachable ?s2" using step.lock [of ?s1 0 None] 1 by (auto intro: reachable.step)
  have 3: "reachable ?s3" using step.armed [of ?s2 0 None "Inr Peek_Running"] 2 by (auto simp: wait_round_def intro: reachable.step)
  have 4: "reachable ?s4" using step.head [of ?s3 0 0 None] 3 by (auto simp: passed_def intro: reachable.step)
  have s4: "?s4\<lparr>sys_world := Live\<rparr> = ?s4" by (simp add: go_def write_state_def new_sys_def)
  have "step ?s4 (after_look 0 0 None (holder_look False (Inr Reap_Running)) (?s4\<lparr>sys_world := Live\<rparr>))"
    by (rule step.look) (simp_all add: free_for_def reap_answer_def)
  then have "step ?s4 ?s5" unfolding s4 by (simp add: holder_look_def after_look_def passed_def)
  then have 5: "reachable ?s5" using 4 by (rule reachable.step [rotated])
  have 6: "reachable ?s6" using step.start [of ?s5 1 d] 5 by (auto simp: wake_def intro: reachable.step)
  show ?thesis using step.lock [of ?s6 1 d] 6 by (auto simp: polling_run_def intro: reachable.step)
qed

text \<open>An expired waiter peeks: it is told of the exit while the child is still unreaped.\<close>

lemma exited_without_reap: "\<exists>s t d r. reachable s \<and> sys_pcs s t = Returned d (Inr (Exited r)) \<and> sys_world s = Zombie r"
proof -
  let ?s = "(polling_run (Some 0))\<lparr>sys_world := Zombie (Status 0)\<rparr>"
  have "reachable ?s" using polling_run_reachable by (rule reachable.step) (rule step.world, simp add: polling_run_def world_step.exits)
  moreover have "step ?s (go 1 (Returned (Some 0) (Inr (Exited (Status 0)))) None ?s)"
    by (rule step.answered [of _ _ _ "Inr (Peek_Exit (Status 0))"])
      (simp_all add: polling_run_def peek_answer_def wait_round_def passed_def peeked_def new_inner_def arm_def)
  ultimately have "reachable (go 1 (Returned (Some 0) (Inr (Exited (Status 0)))) None ?s)" by (rule reachable.step)
  then show ?thesis by (intro exI [of _ "go 1 (Returned (Some 0) (Inr (Exited (Status 0)))) None ?s"] exI [of _ 1] exI [of _ "Some 0"] exI [of _ "Status 0"]) simp
qed


theorem no_waiter_is_stranded_witness:
  "\<exists>s. reachable s \<and> sys_pcs s 1 = Sleeping None False \<and> (\<exists>!h. holder (sys_pcs s h) \<noteq> None)"
proof -
  let ?s = "go 1 (Sleeping None False) None (polling_run None)"
  have "step (polling_run None) ?s"
    by (rule step.blocked [of _ _ _ "Inr Peek_Running"]) (simp_all add: polling_run_def wait_round_def passed_def)
  with polling_run_reachable have r: "reachable ?s" by (rule reachable.step)
  have p: "sys_pcs ?s 1 = Sleeping None False" by simp
  from no_waiter_is_stranded [OF r p] r p show ?thesis by (intro exI [of _ ?s]) blast
qed

theorem reaped_once_and_never_signalled_after_witness:
  "reachable (polling_run None) \<and> (\<forall>r. i_state (sys_inner (polling_run None)) = St_E r \<longleftrightarrow> sys_world (polling_run None) = Own r)"
  using polling_run_reachable [of None] reaped_once_and_never_signalled_after [OF polling_run_reachable [of None]] by blast

end
