(* ===== verification/Fd_Map.thy ===== *)
theory Fd_Map
  imports Errors
begin

text \<open>
  The descriptors a Unix child is given: \<^verbatim>\<open>src/src/child/spawn/fd_map.rs\<close>. A plan made in the parent moves each mapping's source onto its number in
  the child, between fork and exec. The kernel is a parameter: its calls change a descriptor table that the model never looks into.
\<close>

section \<open>The kernel\<close>

text \<open>A descriptor number is an \<^verbatim>\<open>i32\<close>, kept as an integer. A call answers an errno or a value, and the kernel's next state.\<close>

type_synonym RawFd = int
type_synonym ('k, 'a) call = "'k \<Rightarrow> (i32 + 'a) \<times> 'k"

record 'k FdKernel =
  k_dupfd_cloexec :: "RawFd \<Rightarrow> RawFd \<Rightarrow> ('k, RawFd) call"
  k_dup2 :: "RawFd \<Rightarrow> RawFd \<Rightarrow> ('k, RawFd) call"
  k_clear_flags :: "RawFd \<Rightarrow> ('k, unit) call"
  k_close :: "RawFd \<Rightarrow> 'k \<Rightarrow> 'k"

abbreviation EINTR :: i32 where "EINTR \<equiv> 4"

definition I32_MAX :: int where "I32_MAX = 2147483647"

section \<open>The calls\<close>

text \<open>A call is repeated for as long as it is interrupted, which may be forever: the outcome is then \<open>None\<close>.\<close>

type_synonym ('k, 'a) outcome = "((IoError + 'a) \<times> 'k) option"

partial_function (option) retry_eintr :: "('k, 'a) call \<Rightarrow> 'k \<Rightarrow> ('k, 'a) outcome" where
  "retry_eintr f k = (case f k of
      (Inr r, k') \<Rightarrow> Some (Inr r, k')
    | (Inl e, k') \<Rightarrow> if e = EINTR then retry_eintr f k' else Some (Inl (OsError e), k'))"

declare retry_eintr.simps [code]

definition dup_fd_cloexec_at_or_above :: "'k FdKernel \<Rightarrow> RawFd \<Rightarrow> RawFd \<Rightarrow> 'k \<Rightarrow> ('k, RawFd) outcome" where
  "dup_fd_cloexec_at_or_above K fd low = retry_eintr (k_dupfd_cloexec K fd low)"

definition dup2_onto :: "'k FdKernel \<Rightarrow> RawFd \<Rightarrow> RawFd \<Rightarrow> 'k \<Rightarrow> ('k, unit) outcome" where
  "dup2_onto K oldfd newfd k = map_option (\<lambda>(r, k'). (map_sum id (\<lambda>_. ()) r, k')) (retry_eintr (k_dup2 K oldfd newfd) k)"

definition clear_cloexec :: "'k FdKernel \<Rightarrow> RawFd \<Rightarrow> 'k \<Rightarrow> ('k, unit) outcome" where
  "clear_cloexec K fd = retry_eintr (k_clear_flags K fd)"

text \<open>A duplicate at a number that no mapping wants: a duplicate at such a number is closed, and the search goes on above it.\<close>

partial_function (option) dup_avoiding_from :: "'k FdKernel \<Rightarrow> RawFd list \<Rightarrow> RawFd \<Rightarrow> RawFd \<Rightarrow> 'k \<Rightarrow> ('k, RawFd) outcome" where
  "dup_avoiding_from K forbidden fd low k = (case dup_fd_cloexec_at_or_above K fd low k of
      None \<Rightarrow> None
    | Some rk \<Rightarrow> (case fst rk of
        Inl e \<Rightarrow> Some (Inl e, snd rk)
      | Inr tmp \<Rightarrow>
          if tmp \<notin> set forbidden then Some (Inr tmp, snd rk)
          else if tmp = I32_MAX then Some (Inl (KindError InvalidInput), k_close K tmp (snd rk))
          else dup_avoiding_from K forbidden fd (tmp + 1) (k_close K tmp (snd rk))))"

declare dup_avoiding_from.simps [code]

definition dup_avoiding :: "'k FdKernel \<Rightarrow> RawFd \<Rightarrow> RawFd list \<Rightarrow> 'k \<Rightarrow> ('k, RawFd) outcome" where
  "dup_avoiding K fd forbidden = dup_avoiding_from K forbidden fd 3"

section \<open>The plan\<close>

record FdMapping =
  fm_parent :: RawFd
  fm_child :: RawFd

record Plan =
  pl_mappings :: "FdMapping list"
  pl_child_fds :: "RawFd list"
  pl_retired :: "RawFd list"

definition build :: "FdMapping list \<Rightarrow> RawFd list \<Rightarrow> Plan" where
  "build mappings retired = \<lparr>pl_mappings = mappings, pl_child_fds = remdups_adj (sort (map fm_child mappings)), pl_retired = retired\<rparr>"

text \<open>\<^verbatim>\<open>windows(2).find(|w| w[0] == w[1])\<close> on the sorted numbers.\<close>

fun adjacent_equal :: "RawFd list \<Rightarrow> bool" where
  "adjacent_equal (a # b # r) = (a = b \<or> adjacent_equal (b # r))"
| "adjacent_equal _ = False"

definition drop_fds :: "'k FdKernel \<Rightarrow> RawFd list \<Rightarrow> 'k \<Rightarrow> 'k" where
  "drop_fds K fds k = foldl (\<lambda>k fd. k_close K fd k) k fds"

text \<open>A source below 3 is relocated and kept open; a failure drops every descriptor taken over.\<close>

fun relocate :: "'k FdKernel \<Rightarrow> FdMapping list \<Rightarrow> RawFd list \<Rightarrow> FdMapping list \<Rightarrow> 'k \<Rightarrow> ('k, FdMapping list \<times> RawFd list) outcome" where
  "relocate K done retired [] k = Some (Inr (done, retired), k)"
| "relocate K done retired (m # ms) k =
     (if fm_parent m < 3 then (case dup_fd_cloexec_at_or_above K (fm_parent m) 3 k of
          None \<Rightarrow> None
        | Some (Inl e, k') \<Rightarrow> Some (Inl e, drop_fds K (retired @ map fm_parent (done @ m # ms)) k')
        | Some (Inr tmp, k') \<Rightarrow> relocate K (done @ [m\<lparr>fm_parent := tmp\<rparr>]) (retired @ [fm_parent m]) ms k')
      else relocate K (done @ [m]) retired ms k)"

text \<open>The outcome of \<^verbatim>\<open>install\<close> is the plan it adds, or none for no mapping.\<close>

definition install :: "'k FdKernel \<Rightarrow> FdMapping list \<Rightarrow> 'k \<Rightarrow> ('k, Plan option) outcome" where
  "install K mappings k =
     (if mappings = [] then Some (Inr None, k)
      else if adjacent_equal (sort (map fm_child mappings)) then Some (Inl (KindError InvalidInput), drop_fds K (map fm_parent mappings) k)
      else (case relocate K [] [] mappings k of
          None \<Rightarrow> None
        | Some (Inl e, k') \<Rightarrow> Some (Inl e, k')
        | Some (Inr (ms, retired), k') \<Rightarrow> Some (Inr (Some (build ms retired)), k')))"

text \<open>The first pass moves a source that another mapping's number collides with; taking over the temporary drops the source.\<close>

fun pass1 :: "'k FdKernel \<Rightarrow> RawFd list \<Rightarrow> FdMapping list \<Rightarrow> 'k \<Rightarrow> ('k, FdMapping list) outcome" where
  "pass1 K child_fds [] k = Some (Inr [], k)"
| "pass1 K child_fds (m # ms) k =
     (if fm_parent m \<noteq> fm_child m \<and> fm_parent m \<in> set child_fds then (case dup_avoiding K (fm_parent m) child_fds k of
          None \<Rightarrow> None
        | Some (Inl e, k') \<Rightarrow> Some (Inl e, k')
        | Some (Inr tmp, k') \<Rightarrow> (case pass1 K child_fds ms (k_close K (fm_parent m) k') of
            None \<Rightarrow> None
          | Some (Inl e, k'') \<Rightarrow> Some (Inl e, k'')
          | Some (Inr ms', k'') \<Rightarrow> Some (Inr (m\<lparr>fm_parent := tmp\<rparr> # ms'), k'')))
      else (case pass1 K child_fds ms k of
            None \<Rightarrow> None
          | Some (Inl e, k'') \<Rightarrow> Some (Inl e, k'')
          | Some (Inr ms', k'') \<Rightarrow> Some (Inr (m # ms'), k'')))"

definition land :: "'k FdKernel \<Rightarrow> FdMapping \<Rightarrow> 'k \<Rightarrow> ('k, unit) outcome" where
  "land K m = (if fm_parent m = fm_child m then clear_cloexec K (fm_parent m) else dup2_onto K (fm_parent m) (fm_child m))"

fun pass2 :: "'k FdKernel \<Rightarrow> FdMapping list \<Rightarrow> 'k \<Rightarrow> ('k, unit) outcome" where
  "pass2 K [] k = Some (Inr (), k)"
| "pass2 K (m # ms) k = (case land K m k of
      None \<Rightarrow> None
    | Some (Inl e, k') \<Rightarrow> Some (Inl e, k')
    | Some (Inr _, k') \<Rightarrow> pass2 K ms k')"

definition apply_plan :: "'k FdKernel \<Rightarrow> Plan \<Rightarrow> 'k \<Rightarrow> ('k, unit) outcome" where
  "apply_plan K plan k =
     (if pl_mappings plan = [] then Some (Inr (), k)
      else (case pass1 K (pl_child_fds plan) (pl_mappings plan) k of
          None \<Rightarrow> None
        | Some (Inl e, k') \<Rightarrow> Some (Inl e, k')
        | Some (Inr ms, k') \<Rightarrow> pass2 K ms k'))"

section \<open>What the kernel documents\<close>

text \<open>\<open>tbl k\<close> is the table of state \<open>k\<close>: the open file of a descriptor, and whether it closes on exec. A failed call leaves the table as it was; a
duplicate is a number that was free, at least the one asked for. \<open>pend k\<close> bounds how often a call is interrupted in a row from \<open>k\<close>.\<close>

definition posix_fds :: "'k FdKernel \<Rightarrow> ('k \<Rightarrow> RawFd \<rightharpoonup> 'f \<times> bool) \<Rightarrow> ('k \<Rightarrow> nat) \<Rightarrow> bool" where
  "posix_fds K tbl pend \<longleftrightarrow>
     (\<forall>fd low k. case k_dupfd_cloexec K fd low k of
         (Inl e, k') \<Rightarrow> tbl k' = tbl k \<and> (e = EINTR \<longrightarrow> pend k' < pend k)
       | (Inr n, k') \<Rightarrow> \<exists>f c. tbl k fd = Some (f, c) \<and> low \<le> n \<and> n \<le> I32_MAX \<and> tbl k n = None \<and> tbl k' = (tbl k)(n \<mapsto> (f, True)))
   \<and> (\<forall>old new k. old \<noteq> new \<longrightarrow> (case k_dup2 K old new k of
         (Inl e, k') \<Rightarrow> tbl k' = tbl k \<and> (e = EINTR \<longrightarrow> pend k' < pend k)
       | (Inr n, k') \<Rightarrow> \<exists>f c. tbl k old = Some (f, c) \<and> tbl k' = (tbl k)(new \<mapsto> (f, False))))
   \<and> (\<forall>fd k. case k_clear_flags K fd k of
         (Inl e, k') \<Rightarrow> tbl k' = tbl k \<and> (e = EINTR \<longrightarrow> pend k' < pend k)
       | (Inr _, k') \<Rightarrow> \<exists>f c. tbl k fd = Some (f, c) \<and> tbl k' = (tbl k)(fd \<mapsto> (f, False)))
   \<and> (\<forall>fd k. tbl (k_close K fd k) = (tbl k)(fd := None))"

text \<open>A call that runs to its end, with what holds of the tables before and after for each answer.\<close>

definition answers :: "('k \<Rightarrow> RawFd \<rightharpoonup> 'f \<times> bool) \<Rightarrow> ('k, 'a) outcome \<Rightarrow> 'k \<Rightarrow> ('a \<Rightarrow> (RawFd \<rightharpoonup> 'f \<times> bool) \<Rightarrow> (RawFd \<rightharpoonup> 'f \<times> bool) \<Rightarrow> bool) \<Rightarrow> bool" where
  "answers tbl out k Q \<longleftrightarrow> (\<exists>r k'. out = Some (r, k') \<and> (\<forall>x. r = Inr x \<longrightarrow> Q x (tbl k) (tbl k')))"

lemma answersI: "out = Some (r, k') \<Longrightarrow> (\<And>x. r = Inr x \<Longrightarrow> Q x (tbl k) (tbl k')) \<Longrightarrow> answers tbl out k Q"
  by (auto simp: answers_def)

lemma answersE:
  assumes "answers tbl out k Q"
  obtains e k' where "out = Some (Inl e, k')" | x k' where "out = Some (Inr x, k')" and "Q x (tbl k) (tbl k')"
  using assms unfolding answers_def by (metis sum.exhaust)

lemma retry_answers:
  assumes f: "\<And>k. case f k of (Inl e, k') \<Rightarrow> tbl k' = tbl k \<and> (e = EINTR \<longrightarrow> (pend k' :: nat) < pend k) | (Inr x, k') \<Rightarrow> Q x (tbl k) (tbl k')"
  shows "answers tbl (retry_eintr f k) k Q"
proof (induction "pend k" arbitrary: k rule: less_induct)
  case less
  obtain r k' where fk: "f k = (r, k')" by fastforce
  show ?case
  proof (cases "r = Inl EINTR")
    case True
    with f [of k] fk have "tbl k' = tbl k" "pend k' < pend k" by auto
    with less [of k'] fk True show ?thesis by (simp add: answers_def retry_eintr.simps [of f k])
  next
    case False
    with f [of k] fk show ?thesis by (cases r) (auto simp: answers_def retry_eintr.simps [of f k])
  qed
qed

lemma dup_fd_answers:
  assumes "posix_fds K tbl pend"
  shows "answers tbl (dup_fd_cloexec_at_or_above K fd low k) k
    (\<lambda>n t t'. \<exists>f c. t fd = Some (f, c) \<and> low \<le> n \<and> n \<le> I32_MAX \<and> t n = None \<and> t' = t(n \<mapsto> (f, True)))"
  unfolding dup_fd_cloexec_at_or_above_def
  by (rule retry_answers [where pend = pend]) (use assms in \<open>simp add: posix_fds_def\<close>)

lemma close_table: "posix_fds K tbl pend \<Longrightarrow> tbl (k_close K fd k) = (tbl k)(fd := None)"
  by (simp add: posix_fds_def)

lemma dup_avoiding_from_answers:
  assumes K: "posix_fds K tbl pend"
  shows "answers tbl (dup_avoiding_from K forbidden fd low k) k
    (\<lambda>n t t'. n \<notin> set forbidden \<and> t n = None \<and> (\<exists>f c. t fd = Some (f, c) \<and> t' = t(n \<mapsto> (f, True))))"
proof (induction "card {x \<in> set forbidden. low \<le> x}" arbitrary: low k rule: less_induct)
  case less
  note step = dup_avoiding_from.simps [of K forbidden fd low k]
  from dup_fd_answers [OF K, of fd low k] show ?case
  proof (cases rule: answersE)
    case (1 e k')
    then show ?thesis by (simp add: answers_def step)
  next
    case (2 tmp k')
    then have t: "low \<le> tmp" "tbl k tmp = None" "\<exists>f c. tbl k fd = Some (f, c) \<and> tbl k' = (tbl k)(tmp \<mapsto> (f, True))" by auto
    show ?thesis
    proof (cases "tmp \<in> set forbidden \<and> tmp \<noteq> I32_MAX")
      case True
      have closed: "tbl (k_close K tmp k') = tbl k" using t by (auto simp: close_table [OF K])
      have "{x \<in> set forbidden. tmp + 1 \<le> x} \<subset> {x \<in> set forbidden. low \<le> x}" using True t(1) by force
      then have "card {x \<in> set forbidden. tmp + 1 \<le> x} < card {x \<in> set forbidden. low \<le> x}" by (intro psubset_card_mono) auto
      from less [OF this, of "k_close K tmp k'"] show ?thesis using 2 True closed by (simp add: answers_def step)
    next
      case False
      with 2 t show ?thesis by (auto simp: answers_def step)
    qed
  qed
qed

section \<open>The two passes\<close>

text \<open>Every source is open, on the file its number in the child is to have.\<close>

definition opened :: "(RawFd \<rightharpoonup> 'f \<times> bool) \<Rightarrow> (RawFd \<Rightarrow> 'f) \<Rightarrow> FdMapping list \<Rightarrow> bool" where
  "opened t F ms \<longleftrightarrow> (\<forall>m\<in>set ms. \<exists>c. t (fm_parent m) = Some (F (fm_child m), c))"

text \<open>What a step may do to the rest of the table: descriptors outside \<open>P\<close> keep their file, and a new one closes on exec.\<close>

definition frame :: "RawFd set \<Rightarrow> (RawFd \<rightharpoonup> 'f \<times> bool) \<Rightarrow> (RawFd \<rightharpoonup> 'f \<times> bool) \<Rightarrow> bool" where
  "frame P t t' \<longleftrightarrow> (\<forall>x. x \<notin> P \<longrightarrow> t' x = t x \<or> t x = None \<and> (\<exists>f. t' x = Some (f, True)))"

lemma frameD: "frame P t t' \<Longrightarrow> x \<notin> P \<Longrightarrow> t x = Some v \<Longrightarrow> t' x = Some v"
  by (auto simp: frame_def)

lemma frame_refl: "frame P t t"
  by (auto simp: frame_def)

lemma frame_trans:
  assumes "frame P t t'" and "frame Q t' t''" and "P \<union> Q \<subseteq> R"
  shows "frame R t t''"
  unfolding frame_def
proof (intro allI impI)
  fix x
  assume "x \<notin> R"
  then have "t' x = t x \<or> t x = None \<and> (\<exists>f. t' x = Some (f, True))" "t'' x = t' x \<or> t' x = None \<and> (\<exists>f. t'' x = Some (f, True))"
    using assms unfolding frame_def by blast+
  then show "t'' x = t x \<or> t x = None \<and> (\<exists>f. t'' x = Some (f, True))" by fastforce
qed

lemma frame_mono: "frame P t t' \<Longrightarrow> P \<subseteq> Q \<Longrightarrow> frame Q t t'"
  by (auto simp: frame_def)

lemma frame_new: "t n = None \<Longrightarrow> frame {} t (t(n \<mapsto> (f, True)))"
  by (auto simp: frame_def)

lemma frame_closed: "frame {x} t (t(x := None))"
  by (auto simp: frame_def)

lemma opened_frame:
  assumes "opened t F ms" and "frame P t t'" and "P \<inter> fm_parent ` set ms = {}"
  shows "opened t' F ms"
  unfolding opened_def
proof
  fix m
  assume m: "m \<in> set ms"
  with assms(1) obtain c where "t (fm_parent m) = Some (F (fm_child m), c)" unfolding opened_def by blast
  moreover have "fm_parent m \<notin> P" using m assms(3) by blast
  ultimately show "\<exists>c. t' (fm_parent m) = Some (F (fm_child m), c)" using frameD [OF assms(2)] by blast
qed

text \<open>A source that collides with no number but its own.\<close>

definition settled :: "RawFd set \<Rightarrow> FdMapping \<Rightarrow> bool" where
  "settled C m \<longleftrightarrow> fm_parent m = fm_child m \<or> fm_parent m \<notin> C"

lemma pass1_answers:
  assumes K: "posix_fds K tbl pend" and "distinct (map fm_parent ms)" and "opened (tbl k) F ms" and "C = set child_fds"
  shows "answers tbl (pass1 K child_fds ms k) k
    (\<lambda>ms' t t'. map fm_child ms' = map fm_child ms \<and> opened t' F ms' \<and> (\<forall>m\<in>set ms'. settled C m) \<and> frame (fm_parent ` set ms \<inter> C) t t')"
  using assms(2-4)
proof (induction ms arbitrary: k)
  case Nil
  then show ?case by (auto simp: answers_def opened_def frame_refl)
next
  case (Cons m ms)
  let ?Q = "\<lambda>ms ms' t t'. map fm_child ms' = map fm_child ms \<and> opened t' F ms' \<and> (\<forall>m\<in>set ms'. settled C m) \<and> frame (fm_parent ` set ms \<inter> C) t t'"
  from Cons.prems obtain c where m: "tbl k (fm_parent m) = Some (F (fm_child m), c)" "fm_parent m \<notin> fm_parent ` set ms" "opened (tbl k) F ms" "distinct (map fm_parent ms)"
    by (auto simp: opened_def)
  show ?case
  proof (cases "fm_parent m \<noteq> fm_child m \<and> fm_parent m \<in> set child_fds")
    case True
    note d = dup_avoiding_from_answers [OF K, of child_fds "fm_parent m" 3 k, folded dup_avoiding_def]
    from d show ?thesis
    proof (cases rule: answersE)
      case (1 e k')
      with True show ?thesis by (simp add: answers_def)
    next
      case (2 tmp k')
      with m(1) have tmp: "tmp \<notin> C" "tbl k tmp = None" "tbl k' = (tbl k)(tmp \<mapsto> (F (fm_child m), True))" using Cons.prems(3) by auto
      define k1 where "k1 = k_close K (fm_parent m) k'"
      have ne: "tmp \<noteq> fm_parent m" using m(1) tmp(2) by auto
      have t1: "tbl k1 = (tbl k')(fm_parent m := None)" by (simp add: k1_def close_table [OF K])
      have f1: "frame {fm_parent m} (tbl k) (tbl k1)"
        unfolding t1 tmp(3) by (rule frame_trans [OF frame_new frame_closed]) (use tmp(2) in simp_all)
      have o1: "opened (tbl k1) F ms" using opened_frame [OF m(3) f1] m(2) by simp
      have held: "tbl k1 tmp = Some (F (fm_child m), True)" using ne by (simp add: t1 tmp(3))
      from Cons.IH [OF m(4) o1 Cons.prems(3)] show ?thesis
      proof (cases rule: answersE)
        case i: (1 e k2)
        with 2 True show ?thesis by (simp add: answers_def k1_def)
      next
        case i: (2 ms' k2)
        have "tbl k2 tmp = Some (F (fm_child m), True)" using frameD [of _ "tbl k1" "tbl k2" tmp] held i(2) tmp(1) by blast
        moreover have "frame (fm_parent ` set (m # ms) \<inter> C) (tbl k) (tbl k2)" 
        proof (rule frame_trans [OF f1])
          show "frame (fm_parent ` set ms \<inter> C) (tbl k1) (tbl k2)" using i(2) by blast
          show "{fm_parent m} \<union> fm_parent ` set ms \<inter> C \<subseteq> fm_parent ` set (m # ms) \<inter> C" using True Cons.prems(3) by auto
        qed
        ultimately have "?Q (m # ms) (m\<lparr>fm_parent := tmp\<rparr> # ms') (tbl k) (tbl k2)" using i(2) tmp(1) by (auto simp: opened_def settled_def)
        with 2 i(1) True show ?thesis by (simp add: answers_def k1_def)
      qed
    qed
  next
    case False
    from Cons.IH [OF m(4) m(3) Cons.prems(3)] show ?thesis
    proof (cases rule: answersE)
      case (1 e k')
      with False show ?thesis by (auto simp: answers_def)
    next
      case (2 ms' k')
      have "tbl k' (fm_parent m) = Some (F (fm_child m), c)" using frameD [of _ "tbl k" "tbl k'" "fm_parent m"] m(1,2) 2(2) by blast
      moreover have "settled C m" using False Cons.prems(3) by (auto simp: settled_def)
      moreover have "frame (fm_parent ` set (m # ms) \<inter> C) (tbl k) (tbl k')" using 2(2) by (auto intro: frame_mono)
      ultimately have "?Q (m # ms) (m # ms') (tbl k) (tbl k')" using 2(2) by (auto simp: opened_def)
      with 2(1) False show ?thesis by (auto simp: answers_def)
    qed
  qed
qed

lemma land_answers:
  assumes K: "posix_fds K tbl pend"
  shows "answers tbl (land K m k) k (\<lambda>_ t t'. \<exists>f c. t (fm_parent m) = Some (f, c) \<and> t' = t(fm_child m \<mapsto> (f, False)))"
proof (cases "fm_parent m = fm_child m")
  case True
  have "answers tbl (retry_eintr (k_clear_flags K (fm_child m)) k) k (\<lambda>_ t t'. \<exists>f c. t (fm_child m) = Some (f, c) \<and> t' = t(fm_child m \<mapsto> (f, False)))"
    by (rule retry_answers [where pend = pend]) (use K in \<open>simp add: posix_fds_def\<close>)
  with True show ?thesis by (simp add: land_def clear_cloexec_def)
next
  case False
  have "answers tbl (retry_eintr (k_dup2 K (fm_parent m) (fm_child m)) k) k (\<lambda>_ t t'. \<exists>f c. t (fm_parent m) = Some (f, c) \<and> t' = t(fm_child m \<mapsto> (f, False)))"
    by (rule retry_answers [where pend = pend]) (use K False in \<open>simp add: posix_fds_def\<close>)
  with False show ?thesis by (elim answersE) (simp_all add: answers_def land_def dup2_onto_def)
qed

lemma pass2_answers:
  assumes K: "posix_fds K tbl pend" and "distinct (map fm_child ms)" and "opened (tbl k) F ms" and "\<forall>m\<in>set ms. settled (fm_child ` set ms) m"
  shows "answers tbl (pass2 K ms k) k (\<lambda>_ t t'. (\<forall>m\<in>set ms. t' (fm_child m) = Some (F (fm_child m), False)) \<and> (\<forall>x. x \<notin> fm_child ` set ms \<longrightarrow> t' x = t x))"
  using assms(2-4)
proof (induction ms arbitrary: k)
  case Nil
  then show ?case by (simp add: answers_def)
next
  case (Cons m ms)
  from Cons.prems(2) obtain c where m: "tbl k (fm_parent m) = Some (F (fm_child m), c)" by (auto simp: opened_def)
  from land_answers [OF K, of m k] show ?case
  proof (cases rule: answersE)
    case (1 e k')
    then show ?thesis by (simp add: answers_def)
  next
    case (2 u k')
    with m have t: "tbl k' = (tbl k)(fm_child m \<mapsto> (F (fm_child m), False))" by auto
    have "\<exists>c. tbl k' (fm_parent m') = Some (F (fm_child m'), c)" if m': "m' \<in> set ms" for m'
    proof (cases "fm_parent m' = fm_child m")
      case True
      then have "fm_parent m' = fm_child m'" using Cons.prems(3) m' by (auto simp: settled_def)
      then show ?thesis using True t by auto
    next
      case False
      then show ?thesis using Cons.prems(2) m' by (simp add: opened_def t)
    qed
    then have "opened (tbl k') F ms" unfolding opened_def by blast
    moreover have "\<forall>m\<in>set ms. settled (fm_child ` set ms) m" using Cons.prems(3) by (auto simp: settled_def)
    ultimately have "answers tbl (pass2 K ms k') k' (\<lambda>_ t t'. (\<forall>m\<in>set ms. t' (fm_child m) = Some (F (fm_child m), False)) \<and> (\<forall>x. x \<notin> fm_child ` set ms \<longrightarrow> t' x = t x))"
      using Cons.prems(1) by (intro Cons.IH) auto
    then show ?thesis
    proof (cases rule: answersE)
      case i: (1 e k2)
      with 2(1) show ?thesis by (simp add: answers_def)
    next
      case i: (2 v k2)
      have "fm_child m \<notin> fm_child ` set ms" using Cons.prems(1) by auto
      then have "tbl k2 (fm_child m) = Some (F (fm_child m), False)" using i(2) t by simp
      with i t 2(1) show ?thesis by (simp add: answers_def)
    qed
  qed
qed

section \<open>Installing the plan\<close>

lemma relocate_answers:
  assumes K: "posix_fds K tbl pend" and "distinct (map fm_parent (done @ ms))" and "opened (tbl k) F (done @ ms)" and "\<forall>m\<in>set done. 3 \<le> fm_parent m"
  shows "answers tbl (relocate K done retired ms k) k (\<lambda>(ms', retired') t t'. map fm_child ms' = map fm_child (done @ ms) \<and> opened t' F ms'
    \<and> distinct (map fm_parent ms') \<and> (\<forall>m\<in>set ms'. 3 \<le> fm_parent m) \<and> frame {} t t')"
  using assms(2-4)
proof (induction ms arbitrary: "done" retired k)
  case Nil
  then show ?case by (simp add: answers_def frame_refl)
next
  case (Cons m ms)
  show ?case
  proof (cases "fm_parent m < 3")
    case low: True
    from dup_fd_answers [OF K, of "fm_parent m" 3 k] show ?thesis
    proof (cases rule: answersE)
      case (1 e k')
      with low show ?thesis by (simp add: answers_def)
    next
      case (2 tmp k')
      have m: "\<exists>c. tbl k (fm_parent m) = Some (F (fm_child m), c)" using Cons.prems(2) by (simp add: opened_def)
      with 2(2) have tmp: "3 \<le> tmp" "tbl k tmp = None" "tbl k' = (tbl k)(tmp \<mapsto> (F (fm_child m), True))" by auto
      let ?done = "done @ [m\<lparr>fm_parent := tmp\<rparr>]"
      have fr: "frame {} (tbl k) (tbl k')" unfolding tmp(3) by (rule frame_new) (rule tmp(2))
      have fresh: "tmp \<notin> fm_parent ` set (done @ ms)" using Cons.prems(2) tmp(2) unfolding opened_def by (metis Un_iff imageE list.set_intros(2) option.distinct(1) set_append)
      have "opened (tbl k') F (done @ ms)" by (rule opened_frame [OF _ fr]) (use Cons.prems(2) in \<open>simp_all add: opened_def\<close>)
      then have "opened (tbl k') F (?done @ ms)" by (auto simp: opened_def tmp(3))
      moreover have "distinct (map fm_parent (?done @ ms))" using Cons.prems(1) fresh by auto
      moreover have "\<forall>m\<in>set ?done. 3 \<le> fm_parent m" using Cons.prems(3) tmp(1) by auto
      ultimately have "answers tbl (relocate K ?done (retired @ [fm_parent m]) ms k') k' (\<lambda>(ms', retired') t t'. map fm_child ms' = map fm_child (?done @ ms)
          \<and> opened t' F ms' \<and> distinct (map fm_parent ms') \<and> (\<forall>m\<in>set ms'. 3 \<le> fm_parent m) \<and> frame {} t t')" by (intro Cons.IH)
      then show ?thesis
        by (cases rule: answersE) (use 2(1) low frame_trans [OF fr, of "{}"] in \<open>auto simp: answers_def\<close>)
    qed
  next
    case False
    with Cons.prems have "answers tbl (relocate K (done @ [m]) retired ms k) k (\<lambda>(ms', retired') t t'. map fm_child ms' = map fm_child ((done @ [m]) @ ms)
        \<and> opened t' F ms' \<and> distinct (map fm_parent ms') \<and> (\<forall>m\<in>set ms'. 3 \<le> fm_parent m) \<and> frame {} t t')" by (intro Cons.IH) auto
    with False show ?thesis by simp
  qed
qed

lemma adjacent_equal_sorted: "sorted xs \<Longrightarrow> adjacent_equal xs \<longleftrightarrow> \<not> distinct xs"
  by (induction xs rule: adjacent_equal.induct) auto

lemma install_repeated: "\<not> distinct (map fm_child ms) \<Longrightarrow> install K ms k = Some (Inl (KindError InvalidInput), drop_fds K (map fm_parent ms) k)"
proof -
  assume d: "\<not> distinct (map fm_child ms)"
  then have "adjacent_equal (sort (map fm_child ms))" by (simp add: adjacent_equal_sorted)
  moreover have "ms \<noteq> []" using d by auto
  ultimately show ?thesis by (simp add: install_def)
qed

text \<open>What \<^verbatim>\<open>install\<close> leaves for the child: sources out of the way of the standard streams, on the same files.\<close>

definition planned :: "(RawFd \<rightharpoonup> 'f \<times> bool) \<Rightarrow> (RawFd \<Rightarrow> 'f) \<Rightarrow> FdMapping list \<Rightarrow> Plan \<Rightarrow> bool" where
  "planned t F ms plan \<longleftrightarrow> distinct (map fm_child ms) \<and> map fm_child (pl_mappings plan) = map fm_child ms \<and> set (pl_child_fds plan) = fm_child ` set ms
     \<and> opened t F (pl_mappings plan) \<and> distinct (map fm_parent (pl_mappings plan)) \<and> (\<forall>m\<in>set (pl_mappings plan). 3 \<le> fm_parent m)"

lemma install_planned:
  assumes K: "posix_fds K tbl pend" and "distinct (map fm_parent ms)" and "opened (tbl k) F ms" and i: "install K ms k = Some (Inr (Some plan), k')"
  shows "planned (tbl k') F ms plan"
proof -
  from i have ms: "ms \<noteq> []" "distinct (map fm_child ms)" by (auto simp: install_def adjacent_equal_sorted split: if_splits)
  from relocate_answers [OF K, of "[]" ms k F "[]"] assms(2,3) have "answers tbl (relocate K [] [] ms k) k (\<lambda>(ms', retired') t t'. map fm_child ms' = map fm_child ms
      \<and> opened t' F ms' \<and> distinct (map fm_parent ms') \<and> (\<forall>m\<in>set ms'. 3 \<le> fm_parent m) \<and> frame {} t t')" by simp
  then show ?thesis
  proof (cases rule: answersE)
    case (1 e k1)
    with i ms show ?thesis by (simp add: install_def adjacent_equal_sorted)
  next
    case (2 r k1)
    obtain ms' rt where r: "r = (ms', rt)" by fastforce
    with 2(1) i ms have "plan = build ms' rt" "k' = k1" by (simp_all add: install_def adjacent_equal_sorted)
    with 2(2) r ms show ?thesis by (simp add: planned_def build_def flip: set_map)
  qed
qed

lemma apply_planned:
  assumes K: "posix_fds K tbl pend" and p: "planned (tbl k) F ms plan"
  shows "answers tbl (apply_plan K plan k) k (\<lambda>_ t t'. (\<forall>m\<in>set ms. t' (fm_child m) = Some (F (fm_child m), False))
    \<and> (\<forall>fd f. fd \<notin> fm_child ` set ms \<longrightarrow> (t' fd = Some (f, False) \<longleftrightarrow> t fd = Some (f, False))))"
proof -
  let ?C = "fm_child ` set ms" and ?ps = "pl_mappings plan"
  have c: "fm_child ` set ?ps = ?C" using p unfolding planned_def by (metis set_map)
  have "answers tbl (pass1 K (pl_child_fds plan) ?ps k) k (\<lambda>ms' t t'. map fm_child ms' = map fm_child ?ps \<and> opened t' F ms' \<and> (\<forall>m\<in>set ms'. settled ?C m)
      \<and> frame (fm_parent ` set ?ps \<inter> ?C) t t')"
    by (rule pass1_answers [OF K]) (use p in \<open>auto simp: planned_def\<close>)
  then show ?thesis
  proof (cases rule: answersE)
    case (1 e k1)
    then show ?thesis by (cases "?ps = []") (auto simp: answers_def apply_plan_def)
  next
    case (2 ms1 k1)
    have c1: "fm_child ` set ms1 = ?C" using 2(2) c by (metis set_map)
    have "answers tbl (pass2 K ms1 k1) k1 (\<lambda>_ t t'. (\<forall>m\<in>set ms1. t' (fm_child m) = Some (F (fm_child m), False)) \<and> (\<forall>x. x \<notin> fm_child ` set ms1 \<longrightarrow> t' x = t x))"
      by (rule pass2_answers [OF K]) (use p 2(2) c1 in \<open>auto simp: planned_def\<close>)
    then show ?thesis
    proof (cases rule: answersE)
      case i: (1 e k2)
      with 2(1) show ?thesis by (cases "?ps = []") (auto simp: answers_def apply_plan_def)
    next
      case i: (2 u k2)
      have "\<forall>x\<in>?C. tbl k2 x = Some (F x, False)" using i(2) unfolding c1 [symmetric] by blast
      moreover have "tbl k2 x = Some (f, False) \<longleftrightarrow> tbl k x = Some (f, False)" if "x \<notin> ?C" for x f
      proof -
        have "tbl k2 x = tbl k1 x" using i(2) that unfolding c1 by blast
        moreover have "tbl k1 x = tbl k x \<or> tbl k x = None \<and> (\<exists>f. tbl k1 x = Some (f, True))" using 2(2) that unfolding frame_def by blast
        ultimately show ?thesis by auto
      qed
      ultimately have q: "(\<forall>m\<in>set ms. tbl k2 (fm_child m) = Some (F (fm_child m), False))
          \<and> (\<forall>fd f. fd \<notin> ?C \<longrightarrow> (tbl k2 fd = Some (f, False) \<longleftrightarrow> tbl k fd = Some (f, False)))" by blast
      show ?thesis
      proof (cases "?ps = []")
        case True
        then have "ms = []" using c by auto
        then show ?thesis using True by (simp add: answers_def apply_plan_def)
      next
        case False
        then have "apply_plan K plan k = Some (Inr u, k2)" using 2(1) i(1) by (simp add: apply_plan_def)
        then show ?thesis using q unfolding answers_def by blast
      qed
    qed
  qed
qed

text \<open>C25: a child gets exactly the descriptors it was given. For a plan that was installed, and whatever the set-up of the standard streams did to the
descriptors below 3 in between, applying it always ends; and when it succeeds every number the caller named is open on the file the caller gave for it and
survives the exec, whatever collisions there are among the sources and the numbers, and every other descriptor survives the exec exactly when it did before.\<close>

theorem child_gets_its_descriptors:
  assumes "posix_fds K tbl pend" and "distinct (map fm_parent ms)" and "opened (tbl k) F ms" and "install K ms k = Some (Inr (Some plan), k1)"
    and "\<forall>fd\<ge>3. tbl k2 fd = tbl k1 fd"
  shows "\<exists>r k3. apply_plan K plan k2 = Some (r, k3) \<and> (\<forall>u. r = Inr u \<longrightarrow>
     (\<forall>m\<in>set ms. tbl k3 (fm_child m) = Some (F (fm_child m), False))
     \<and> (\<forall>fd f. fd \<notin> fm_child ` set ms \<longrightarrow> (tbl k3 fd = Some (f, False) \<longleftrightarrow> tbl k2 fd = Some (f, False))))"
proof -
  have "planned (tbl k2) F ms plan" using install_planned [OF assms(1-4)] assms(5) by (auto simp: planned_def opened_def)
  from apply_planned [OF assms(1) this] show ?thesis unfolding answers_def by blast
qed

text \<open>A kernel of 64 descriptors that interrupts nothing, and the exchange of two descriptors.\<close>

definition table_kernel :: "(RawFd \<Rightarrow> (nat \<times> bool) option) FdKernel" where
  "table_kernel = \<lparr>
     k_dupfd_cloexec = (\<lambda>fd low k. case k fd of
         None \<Rightarrow> (Inl 9, k)
       | Some (f, _) \<Rightarrow> (case find (\<lambda>n. k n = None) [low..63] of None \<Rightarrow> (Inl 24, k) | Some n \<Rightarrow> (Inr n, k(n \<mapsto> (f, True))))),
     k_dup2 = (\<lambda>old new k. case k old of
         None \<Rightarrow> (Inl 9, k)
       | Some (f, _) \<Rightarrow> if 0 \<le> new \<and> new < 64 then (Inr new, k(new \<mapsto> (f, False))) else (Inl 9, k)),
     k_clear_flags = (\<lambda>fd k. case k fd of None \<Rightarrow> (Inl 9, k) | Some (f, _) \<Rightarrow> (Inr (), k(fd \<mapsto> (f, False)))),
     k_close = (\<lambda>fd k. k(fd := None))\<rparr>"

definition swap_table :: "RawFd \<Rightarrow> (nat \<times> bool) option" where
  "swap_table = [1 \<mapsto> (10, False), 3 \<mapsto> (13, True), 4 \<mapsto> (14, True)]"

definition swap_mappings :: "FdMapping list" where
  "swap_mappings = [\<lparr>fm_parent = 3, fm_child = 4\<rparr>, \<lparr>fm_parent = 4, fm_child = 3\<rparr>]"

lemma table_kernel_posix: "posix_fds table_kernel (\<lambda>k. k) (\<lambda>_. 0)"
  by (auto simp: posix_fds_def table_kernel_def I32_MAX_def find_Some_iff in_set_conv_nth split: option.splits)

lemma swap_succeeds: "map_option fst (apply_plan table_kernel (build swap_mappings []) swap_table) = Some (Inr ())"
  by code_simp

theorem child_gets_its_descriptors_witness:
  "\<exists>k3. apply_plan table_kernel (build swap_mappings []) swap_table = Some (Inr (), k3) \<and> k3 4 = Some (13, False) \<and> k3 3 = Some (14, False)"
proof -
  let ?F = "\<lambda>c :: RawFd. if c = 4 then 13 else 14 :: nat"
  have "opened swap_table ?F swap_mappings" by (auto simp: opened_def swap_table_def swap_mappings_def)
  moreover have "install table_kernel swap_mappings swap_table = Some (Inr (Some (build swap_mappings [])), swap_table)"
    by (simp add: install_def swap_mappings_def)
  moreover have "distinct (map fm_parent swap_mappings)" by (simp add: swap_mappings_def)
  ultimately obtain r k3 where r: "apply_plan table_kernel (build swap_mappings []) swap_table = Some (r, k3)"
    "\<forall>u. r = Inr u \<longrightarrow> (\<forall>m\<in>set swap_mappings. k3 (fm_child m) = Some (?F (fm_child m), False))"
    using child_gets_its_descriptors [OF table_kernel_posix, of swap_mappings swap_table ?F "build swap_mappings []" swap_table swap_table] by blast
  moreover from this swap_succeeds have "r = Inr ()" by simp
  ultimately show ?thesis by (auto simp: swap_mappings_def)
qed

end
