(* ===== verification/Child_Linux.thy ===== *)
theory Child_Linux
  imports Owned_Child Fd_Map
begin

text \<open>
  The Linux side of a child's handle: the exit records of \<^verbatim>\<open>src/src/wait/exit_only.rs\<close>, \<^verbatim>\<open>exit_only/linux.rs\<close>, \<^verbatim>\<open>src/src/os_process/poll.rs\<close> and
  \<^verbatim>\<open>src/src/os_process/linux.rs\<close>. The kernel's answers are a parameter, as for the descriptors.
\<close>

section \<open>Exit records\<close>

record SigRecord =
  si_code :: i32
  si_status :: i32

abbreviation CLD_EXITED :: i32 where "CLD_EXITED \<equiv> 1"
abbreviation CLD_KILLED :: i32 where "CLD_KILLED \<equiv> 2"
abbreviation CLD_DUMPED :: i32 where "CLD_DUMPED \<equiv> 3"
abbreviation ECHILD :: i32 where "ECHILD \<equiv> 10"
abbreviation ESRCH :: i32 where "ESRCH \<equiv> 3"

definition is_exit_record :: "i32 \<Rightarrow> bool" where
  "is_exit_record code \<longleftrightarrow> code \<in> {CLD_EXITED, CLD_KILLED, CLD_DUMPED}"

unbundle bit_operations_syntax

definition exit_record_of :: "SigRecord \<Rightarrow> ExitRecord" where
  "exit_record_of rec =
     (if si_code rec = CLD_EXITED then Status (push_bit 8 (si_status rec AND 0xFF))
      else if si_code rec = CLD_KILLED then Status (si_status rec AND 0x7F)
      else if si_code rec = CLD_DUMPED then Status ((si_status rec AND 0x7F) OR 0x80)
      else Unreadable (si_code rec))"

text \<open>How \<^verbatim>\<open>ExitStatus\<close> reads a raw status: the exit code, or the signal.\<close>

definition status_code :: "i32 \<Rightarrow> i32 option" where
  "status_code raw = (if raw AND 0x7F = 0 then Some (drop_bit 8 raw AND 0xFF) else None)"

definition status_signal :: "i32 \<Rightarrow> i32 option" where
  "status_signal raw = (if raw AND 0x7F \<noteq> 0 \<and> raw AND 0x7F \<noteq> 0x7F then Some (raw AND 0x7F) else None)"

lemma exit_code_kept: "si_code rec = CLD_EXITED \<Longrightarrow> \<exists>raw. exit_record_of rec = Status raw \<and> status_code raw = Some (si_status rec AND 0xFF) \<and> status_signal raw = None"
proof -
  assume c: "si_code rec = CLD_EXITED"
  let ?raw = "push_bit 8 (si_status rec AND 0xFF)"
  have m: "(0x7F :: i32) = mask 7" "(0xFF :: i32) = mask 8" by (simp_all add: mask_eq_exp_minus_1)
  have "?raw AND 0x7F = 0" unfolding m by (rule bit_word_eqI) (auto simp: bit_simps)
  moreover have "drop_bit 8 ?raw AND 0xFF = si_status rec AND 0xFF" unfolding m by (rule bit_word_eqI) (auto simp: bit_simps)
  ultimately show ?thesis using c by (simp add: exit_record_of_def status_code_def status_signal_def)
qed

section \<open>The calls\<close>

text \<open>\<open>wk_waitid nowait\<close> is \<^verbatim>\<open>waitid(P_PIDFD, WEXITED | WNOHANG)\<close>, with \<^verbatim>\<open>WNOWAIT\<close> if asked, and \<open>wk_poll\<close> a poll that does not block, with the events
of a descriptor that is ready.\<close>

record Revents =
  re_nval :: bool
  re_err :: bool

record 'k WaitKernel =
  wk_waitid :: "bool \<Rightarrow> ('k, SigRecord option) call"
  wk_poll :: "('k, Revents option) call"
  wk_send :: "('k, unit) call"

definition waitid_record :: "'k WaitKernel \<Rightarrow> bool \<Rightarrow> 'k \<Rightarrow> ('k, SigRecord option) outcome" where
  "waitid_record K nowait = retry_eintr (wk_waitid K nowait)"

definition readable :: "Revents \<Rightarrow> IoError + bool" where
  "readable re = (if re_nval re \<or> re_err re then Inl (KindError OtherKind) else Inr True)"

definition is_readable :: "'k WaitKernel \<Rightarrow> 'k \<Rightarrow> ('k, bool) outcome" where
  "is_readable K k = map_option (\<lambda>(r, k'). (case r of
      Inl e \<Rightarrow> Inl e
    | Inr None \<Rightarrow> Inr False
    | Inr (Some re) \<Rightarrow> readable re, k')) (retry_eintr (wk_poll K) k)"

definition peek_of :: "IoError + SigRecord option \<Rightarrow> IoError + PeekOutcome" where
  "peek_of ans = (case ans of
      Inr (Some rec) \<Rightarrow> Inr (if is_exit_record (si_code rec) then Peek_Exit (exit_record_of rec) else Peek_Running)
    | Inr None \<Rightarrow> Inr Peek_Running
    | Inl e \<Rightarrow> if e = OsError ECHILD then Inr (Peek_Foreign Foreign_Gone) else Inl e)"

definition peek :: "'k WaitKernel \<Rightarrow> 'k \<Rightarrow> ('k, PeekOutcome) outcome" where
  "peek K k = map_option (\<lambda>(r, k'). (peek_of r, k')) (waitid_record K True k)"

datatype Reap = Reaped_By_Us ExitRecord | Still_Running | Reaped_Elsewhere Foreign

definition consumed_of :: "IoError + SigRecord option \<Rightarrow> IoError + Reap" where
  "consumed_of ans = (case ans of
      Inr (Some rec) \<Rightarrow> Inr (Reaped_By_Us (exit_record_of rec))
    | Inr None \<Rightarrow> Inr Still_Running
    | Inl e \<Rightarrow> if e = OsError ECHILD then Inr (Reaped_Elsewhere Foreign_Gone) else Inl e)"

definition try_reap_record :: "'k WaitKernel \<Rightarrow> 'k \<Rightarrow> ('k, Reap) outcome" where
  "try_reap_record K k = (case peek K k of
      None \<Rightarrow> None
    | Some (Inl e, k') \<Rightarrow> Some (Inl e, k')
    | Some (Inr Peek_Running, k') \<Rightarrow> Some (Inr Still_Running, k')
    | Some (Inr (Peek_Foreign f), k') \<Rightarrow> Some (Inr (Reaped_Elsewhere f), k')
    | Some (Inr (Peek_Exit _), k') \<Rightarrow> map_option (\<lambda>(r, k''). (consumed_of r, k'')) (waitid_record K False k'))"

definition looked_as :: "bool \<Rightarrow> Reap \<Rightarrow> TryReapOutcome" where
  "looked_as seen reap = (case reap of
      Reaped_By_Us rec \<Rightarrow> Reap_Done rec
    | Reaped_Elsewhere f \<Rightarrow> Reap_Foreign f
    | Still_Running \<Rightarrow> if seen then Reap_Recheck else Reap_Running)"

definition try_reap :: "'k WaitKernel \<Rightarrow> 'k \<Rightarrow> ('k, TryReapOutcome) outcome" where
  "try_reap K k = (case is_readable K k of
      None \<Rightarrow> None
    | Some (Inl e, k') \<Rightarrow> Some (Inl e, k')
    | Some (Inr seen, k') \<Rightarrow> map_option (\<lambda>(r, k''). (map_sum id (looked_as seen) r, k'')) (try_reap_record K k'))"

section \<open>What the kernel documents\<close>

text \<open>\<open>world k\<close> is the child in state \<open>k\<close>; it may exit, and be reaped by someone else, at any moment up to the answer. A record with an exit code is that of the
unreaped child, and is consumed unless \<^verbatim>\<open>WNOWAIT\<close> says otherwise; any other record is a stop of a running child; \<^verbatim>\<open>ECHILD\<close> says it was reaped.
\<open>pend\<close> bounds the interruptions in a row.\<close>

definition waitid_says :: "bool \<Rightarrow> World \<Rightarrow> i32 + SigRecord option \<Rightarrow> World \<Rightarrow> bool" where
  "waitid_says nowait w ans w' = (case ans of
      Inr (Some rec) \<Rightarrow>
        if is_exit_record (si_code rec) then w = Zombie (exit_record_of rec) \<and> w' = (if nowait then w else Own (exit_record_of rec))
        else w = Live \<and> w' = w
    | Inr None \<Rightarrow> w' = w
    | Inl e \<Rightarrow> w' = w \<and> (e = ECHILD \<longrightarrow> was_reaped w))"

definition waitid_documented :: "'k WaitKernel \<Rightarrow> ('k \<Rightarrow> World) \<Rightarrow> ('k \<Rightarrow> nat) \<Rightarrow> bool" where
  "waitid_documented K world pend \<longleftrightarrow>
     (\<forall>nowait k ans k'. wk_waitid K nowait k = (ans, k') \<longrightarrow>
        (\<exists>w. world_step\<^sup>*\<^sup>* (world k) w \<and> waitid_says nowait w ans (world k')) \<and> (ans = Inl EINTR \<longrightarrow> pend k' < pend k))
   \<and> (\<forall>k ans k'. wk_poll K k = (ans, k') \<longrightarrow> world_step\<^sup>*\<^sup>* (world k) (world k') \<and> (ans = Inl EINTR \<longrightarrow> pend k' < pend k))"

lemma retry_returns:
  assumes f: "\<And>k k'. f k = (Inl EINTR, k') \<Longrightarrow> world_step\<^sup>*\<^sup>* (world k) (world k') \<and> (pend k' :: nat) < pend k"
  shows "\<exists>k0 a k'. world_step\<^sup>*\<^sup>* (world k) (world k0) \<and> f k0 = (a, k') \<and> a \<noteq> Inl EINTR \<and> retry_eintr f k = Some (map_sum OsError id a, k')"
proof (induction "pend k" arbitrary: k rule: less_induct)
  case less
  obtain a k' where a: "f k = (a, k')" by fastforce
  show ?case
  proof (cases "a = Inl EINTR")
    case True
    with f a have w: "world_step\<^sup>*\<^sup>* (world k) (world k')" "pend k' < pend k" by auto
    from less [OF w(2)] obtain k0 b k1 where "world_step\<^sup>*\<^sup>* (world k') (world k0)" "f k0 = (b, k1)" "b \<noteq> Inl EINTR" "retry_eintr f k' = Some (map_sum OsError id b, k1)" by blast
    moreover have "retry_eintr f k = retry_eintr f k'" using a True by (simp add: retry_eintr.simps [of f k])
    ultimately show ?thesis using w(1) by (metis rtranclp_trans)
  next
    case False
    then have "retry_eintr f k = Some (map_sum OsError id a, k')" using a by (cases a) (auto simp: retry_eintr.simps [of f k])
    with a False show ?thesis by blast
  qed
qed

text \<open>An answer of a \<^verbatim>\<open>waitid\<close> that is not interrupted.\<close>

lemma waitid_answers:
  assumes K: "waitid_documented K world pend"
  obtains w a k' where "waitid_record K nowait k = Some (map_sum OsError id a, k')" and "world_step\<^sup>*\<^sup>* (world k) w" and "waitid_says nowait w a (world k')"
proof -
  have "world_step\<^sup>*\<^sup>* (world k) (world k') \<and> pend k' < pend k" if "wk_waitid K nowait k = (Inl EINTR, k')" for k k'
  proof -
    from K that obtain w where "world_step\<^sup>*\<^sup>* (world k) w" "waitid_says nowait w (Inl EINTR) (world k')" "pend k' < pend k" unfolding waitid_documented_def by blast
    then show ?thesis by (simp add: waitid_says_def)
  qed
  from retry_returns [of "wk_waitid K nowait" world pend, OF this] obtain k0 a k' where
    a: "world_step\<^sup>*\<^sup>* (world k) (world k0)" "wk_waitid K nowait k0 = (a, k')" "waitid_record K nowait k = Some (map_sum OsError id a, k')"
    unfolding waitid_record_def by blast
  from K a(2) obtain w where w: "world_step\<^sup>*\<^sup>* (world k0) w" "waitid_says nowait w a (world k')" unfolding waitid_documented_def by blast
  from a(3) rtranclp_trans [OF a(1) w(1)] w(2) show thesis by (rule that)
qed

lemma from_dead: "world_step\<^sup>*\<^sup>* (Zombie r) w \<Longrightarrow> w = Zombie r \<or> w = Taken r"
  by (induction rule: rtranclp_induct) (auto elim: world_step.cases)

text \<open>A look of the Linux handle, and the world at its answer.\<close>

definition looks_right :: "('k \<Rightarrow> World) \<Rightarrow> 'k \<Rightarrow> World \<Rightarrow> IoError + Reap \<Rightarrow> 'k \<Rightarrow> bool" where
  "looks_right world k w r k' \<longleftrightarrow> world_step\<^sup>*\<^sup>* (world k) w \<and> (case r of
      Inr (Reaped_By_Us x) \<Rightarrow> w = Zombie x \<and> world k' = Own x
    | Inr (Reaped_Elsewhere _) \<Rightarrow> was_reaped w \<and> world k' = w
    | _ \<Rightarrow> world k' = w)"

lemma peek_looks:
  assumes K: "waitid_documented K world pend"
  shows "\<exists>p k' w. peek K k = Some (p, k') \<and> world_step\<^sup>*\<^sup>* (world k) w \<and> world k' = w \<and> peek_answer w (map_sum io_error id p)"
proof -
  obtain w a k' where a: "waitid_record K True k = Some (map_sum OsError id a, k')" "world_step\<^sup>*\<^sup>* (world k) w" "waitid_says True w a (world k')"
    by (rule waitid_answers [OF K])
  then have "world k' = w \<and> peek_answer w (map_sum io_error id (peek_of (map_sum OsError id a)))"
    by (auto simp: waitid_says_def peek_of_def peek_answer_def split: sum.splits option.splits if_splits)
  with a(1,2) show ?thesis by (auto simp: peek_def)
qed

lemma try_reap_record_looks:
  assumes K: "waitid_documented K world pend"
  shows "\<exists>r k' w. try_reap_record K k = Some (r, k') \<and> looks_right world k w r k'"
proof -
  from peek_looks [OF K, of k] obtain p k' w where p: "peek K k = Some (p, k')" "world_step\<^sup>*\<^sup>* (world k) w" "world k' = w" "peek_answer w (map_sum io_error id p)" by blast
  show ?thesis
  proof (cases "\<exists>x. p = Inr (Peek_Exit x)")
    case True
    then obtain x where x: "p = Inr (Peek_Exit x)" by blast
    with p(4) have d: "world k' = Zombie x" using p(3) by (simp add: peek_answer_def)
    obtain w1 a k2 where a: "waitid_record K False k' = Some (map_sum OsError id a, k2)" "world_step\<^sup>*\<^sup>* (world k') w1" "waitid_says False w1 a (world k2)"
      by (rule waitid_answers [OF K])
    have "w1 = Zombie x \<or> w1 = Taken x" using a(2) d from_dead by simp
    moreover have "world_step\<^sup>*\<^sup>* (world k) w1" using p(2,3) a(2) by (simp add: rtranclp_trans)
    ultimately have "looks_right world k w1 (consumed_of (map_sum OsError id a)) k2" using a(3)
      by (auto simp: waitid_says_def looks_right_def consumed_of_def split: sum.splits option.splits if_splits)
    then show ?thesis using p(1) x a(1) by (auto simp: try_reap_record_def)
  next
    case False
    then show ?thesis using p
      by (cases p) (auto simp: try_reap_record_def looks_right_def peek_answer_def split: PeekOutcome.splits sum.splits)
  qed
qed

lemma is_readable_looks:
  assumes K: "waitid_documented K world pend"
  shows "\<exists>r k'. is_readable K k = Some (r, k') \<and> world_step\<^sup>*\<^sup>* (world k) (world k')"
proof -
  have p: "world_step\<^sup>*\<^sup>* (world k) (world k') \<and> (a = Inl EINTR \<longrightarrow> pend k' < pend k)" if "wk_poll K k = (a, k')" for a k k'
    using K that unfolding waitid_documented_def by blast
  from retry_returns [of "wk_poll K" world pend k] p obtain k0 a k' where
    "world_step\<^sup>*\<^sup>* (world k) (world k0)" "wk_poll K k0 = (a, k')" "retry_eintr (wk_poll K) k = Some (map_sum OsError id a, k')" by blast
  moreover then have "world_step\<^sup>*\<^sup>* (world k) (world k')" using p by (metis rtranclp_trans)
  ultimately show ?thesis by (auto simp: is_readable_def)
qed

text \<open>C15: on Linux the holder's look is an \<^verbatim>\<open>OsChild\<close>'s. It returns; the record it hands out is the one it consumed, of a child that was dead and unreaped; it
calls the child foreign only when it was reaped; and a look that hands out no record consumed none, though the child may exit, and be reaped by someone
else, between its calls.\<close>

theorem linux_look_keeps_the_contract:
  assumes "waitid_documented K world pend"
  shows "\<exists>r k' w. try_reap K k = Some (r, k') \<and> world_step\<^sup>*\<^sup>* (world k) w \<and> reap_answer w (map_sum io_error id r) (world k')"
proof -
  from is_readable_looks [OF assms] obtain b k1 where b: "is_readable K k = Some (b, k1)" "world_step\<^sup>*\<^sup>* (world k) (world k1)" by blast
  show ?thesis
  proof (cases b)
    case (Inl e)
    with b show ?thesis by (auto simp: try_reap_def reap_answer_def)
  next
    case (Inr seen)
    from try_reap_record_looks [OF assms] obtain r k' w where r: "try_reap_record K k1 = Some (r, k')" "looks_right world k1 w r k'" by blast
    then have "world_step\<^sup>*\<^sup>* (world k) w" using b(2) unfolding looks_right_def by (metis rtranclp_trans)
    moreover have "reap_answer w (map_sum io_error id (map_sum id (looked_as seen) r)) (world k')"
      using r(2) by (auto simp: looks_right_def looked_as_def reap_answer_def split: sum.splits Reap.splits)
    ultimately show ?thesis using b(1) Inr r(1) by (intro exI [of _ "map_sum id (looked_as seen) r"] exI [of _ k'] exI [of _ w]) (simp add: try_reap_def)
  qed
qed

text \<open>A kernel of one child that exits with code 0.\<close>

definition one_child :: "World WaitKernel" where
  "one_child = \<lparr>
     wk_waitid = (\<lambda>nowait w. case w of
         Live \<Rightarrow> (Inr None, w)
       | Zombie r \<Rightarrow> if r = Status 0 then (Inr (Some \<lparr>si_code = CLD_EXITED, si_status = 0\<rparr>), if nowait then w else Own r) else (Inr None, w)
       | _ \<Rightarrow> (Inl ECHILD, w)),
     wk_poll = (\<lambda>w. (Inr (case w of Live \<Rightarrow> None | _ \<Rightarrow> Some \<lparr>re_nval = False, re_err = False\<rparr>), w)),
     wk_send = (\<lambda>w. (if was_reaped w then Inl ESRCH else Inr (), w))\<rparr>"

lemma one_child_documented: "waitid_documented one_child (\<lambda>w. w) (\<lambda>_. 0)"
  unfolding waitid_documented_def one_child_def waitid_says_def
  by (auto simp: is_exit_record_def exit_record_of_def intro!: exI [of _ _] split: World.splits if_splits)

theorem linux_look_keeps_the_contract_witness:
  "try_reap one_child (Zombie (Status 0)) = Some (Inr (Reap_Done (Status 0)), Own (Status 0))
    \<and> (\<exists>r w' w. try_reap one_child (Zombie (Status 0)) = Some (r, w') \<and> world_step\<^sup>*\<^sup>* (Zombie (Status 0)) w \<and> reap_answer w (map_sum io_error id r) w')"
proof
  show "try_reap one_child (Zombie (Status 0)) = Some (Inr (Reap_Done (Status 0)), Own (Status 0))" by code_simp
qed (rule linux_look_keeps_the_contract [OF one_child_documented])

end
