(* ===== verification/Identity.thy ===== *)
theory Identity
  imports Prelude
begin

text \<open>
  \<^verbatim>\<open>src/src/identity.rs\<close>, \<^verbatim>\<open>identity/state.rs\<close> and \<^verbatim>\<open>identity/probe.rs\<close>: a process identity is a pid with the raw
  start token the kernel gave the process, and every question about one has three answers.
\<close>

type_synonym RawPid = u32

record ProcessId =
  pid :: RawPid
  start_token :: u64

datatype Existence = Present | Existence_Gone | Existence_Unknown

datatype Liveness = Alive | Dead | Liveness_Unknown

datatype 'a Resolved = Found 'a | Resolved_Gone | Resolved_Unknown

definition found :: "'a Resolved \<Rightarrow> 'a option" where
  "found r = (case r of Found v \<Rightarrow> Some v | _ \<Rightarrow> None)"

text \<open>\<^verbatim>\<open>existence_from\<close>: what the start token now at the pid says about the process.\<close>

definition existence_from :: "ProcessId \<Rightarrow> u64 Resolved \<Rightarrow> Existence" where
  "existence_from self read = (case read of
      Found t \<Rightarrow> if t = start_token self then Present else Existence_Gone
    | Resolved_Gone \<Rightarrow> Existence_Gone
    | Resolved_Unknown \<Rightarrow> Existence_Unknown)"

text \<open>\<^verbatim>\<open>ProcessId::of\<close> over a read of the start token.\<close>

definition identity_of :: "(RawPid \<Rightarrow> u64 Resolved) \<Rightarrow> RawPid \<Rightarrow> ProcessId Resolved" where
  "identity_of read p = map_Resolved (\<lambda>t. \<lparr>pid = p, start_token = t\<rparr>) (read p)"

datatype SignalProbe = Signalable | NoSuchProcess | Probe_Denied | NotAPid

definition signal_target :: "RawPid \<Rightarrow> i32 option" where
  "signal_target p = (if p < 0x80000000 \<and> 0 < p then Some p else None)"

definition classify_unreadable :: "SignalProbe \<Rightarrow> unit Resolved" where
  "classify_unreadable probe = (if probe \<in> {NoSuchProcess, NotAPid} then Resolved_Gone else Resolved_Unknown)"

lemma signal_target_positive:
  assumes "signal_target p = Some t"
  shows "sint t = uint p" and "0 < sint t"
proof -
  have t: "t = p" and p: "p < 0x80000000" "0 < p"
    using assms by (auto simp: signal_target_def split: if_splits)
  have "uint p < 2 ^ 31" using p(1) by (simp add: word_less_def)
  moreover have "- (2 ^ 31) \<le> uint p" by (rule order_trans [OF _ unsigned_greater_eq]) simp
  ultimately have "signed_take_bit 31 (uint p) = uint p" by (intro signed_take_bit_int_eq_self)
  then show "sint t = uint p" by (simp add: t sint_uint)
  with p(2) show "0 < sint t" by (simp add: word_less_def)
qed

end
