(* ===== verification/Teardown.thy ===== *)
theory Teardown
  imports Child_Linux Elevation_Front Identity
begin

text \<open>
  The teardown of a child: \<^verbatim>\<open>src/src/child/owned/teardown.rs\<close>, with \<^verbatim>\<open>status_of_outcome\<close> of \<^verbatim>\<open>child/lifecycle.rs\<close>, \<^verbatim>\<open>fate_of_a_look\<close> of
  \<^verbatim>\<open>child/spawn.rs\<close>, \<^verbatim>\<open>send_pidfd\<close> and \<^verbatim>\<open>RootState\<close> of \<^verbatim>\<open>signal.rs\<close>, and the policies of \<^verbatim>\<open>src/src/graceful.rs\<close>. The calls on the handle are answers, and each definition
  says which it makes; log lines and the texts of a warning are left out.
\<close>

section \<open>Outcomes as statuses and fates\<close>

definition status_of_outcome :: "ChildWaitOutcome \<Rightarrow> Error + i32 option" where
  "status_of_outcome out = (case out of
      Exited (Status raw) \<Rightarrow> Inr (Some raw)
    | Exited (Unreadable _) \<Rightarrow> Inl (IoKind InvalidData)
    | Not_Ours _ \<Rightarrow> Inl (Io ECHILD)
    | DeadlinePassed \<Rightarrow> Inr None)"

datatype ChildFate = Fate_Reaped | Fate_Killed | Fate_Running "ProcessId option" | Fate_Gone | Fate_Unknown

definition foreign_fate :: "Foreign \<Rightarrow> bool \<Rightarrow> ChildFate" where
  "foreign_fate f kill_delivered = (if kill_delivered then Fate_Killed else Fate_Gone)"

text \<open>\<open>looked\<close> carries the OS error of a failed look, if it has one.\<close>

definition fate_of_a_look :: "i32 option + i32 option \<Rightarrow> ProcessId option \<Rightarrow> ChildFate" where
  "fate_of_a_look looked ident = (case looked of
      Inr (Some _) \<Rightarrow> Fate_Reaped
    | Inr None \<Rightarrow> Fate_Running ident
    | Inl e \<Rightarrow> if e = Some ECHILD then Fate_Gone else Fate_Unknown)"

definition raw_os :: "Error \<Rightarrow> i32 option" where
  "raw_os e = (case e of Io n \<Rightarrow> Some n | _ \<Rightarrow> None)"

section \<open>Signals and the root's state\<close>

definition send_pidfd :: "'k WaitKernel \<Rightarrow> 'k \<Rightarrow> (i32 + Sent) \<times> 'k" where
  "send_pidfd K k = (case wk_send K k of
      (Inr _, k') \<Rightarrow> (Inr Delivered, k')
    | (Inl e, k') \<Rightarrow> if e = ESRCH then (Inr Gone, k') else (Inl e, k'))"

datatype RootState = Unreaped | Root_Reaped bool | Root_Unknown Error | Unpinned

definition of_peek :: "Error + PeekOutcome \<Rightarrow> RootState" where
  "of_peek p = (case p of
      Inr (Peek_Foreign Orphaned) \<Rightarrow> Unpinned
    | Inr (Peek_Foreign _) \<Rightarrow> Root_Reaped False
    | Inr _ \<Rightarrow> Unreaped
    | Inl e \<Rightarrow> Root_Unknown e)"

definition state_locked :: "State \<Rightarrow> Error + PeekOutcome \<Rightarrow> RootState" where
  "state_locked st p = (case st of St_E _ \<Rightarrow> Root_Reaped True | _ \<Rightarrow> of_peek p)"

section \<open>The teardown\<close>

text \<open>What the calls answer: the kill, the look at the present moment, the wait without a deadline (which may never end), and whether a kill sent elsewhere reached
the child.\<close>

record TeardownWorld =
  tw_kill :: "Error + Sent"
  tw_look :: "Error + ChildWaitOutcome"
  tw_wait :: "(Error + ChildWaitOutcome) option"
  tw_reached :: "IoError + bool"

datatype Act = Send_Kill | Look_Now | Wait_Unbounded | Read_Reach

text \<open>\<open>Kind_Look\<close> carries the reach: none, one to ask, or the error of the subtree that could not be read.\<close>

datatype TeardownKind = Kind_Kill | Kind_Look "IoError + bool"

datatype LookOutcome = Look_Reaped i32 | ReapedElsewhere | LookFailed Error | ReapFailed Error | LeftRunning | PlaceUnreadable IoError | SubtreeUnreadable IoError

text \<open>\<open>to_left\<close>: whether there is something for the caller's warning.\<close>

record TeardownOutcome =
  to_fate :: ChildFate
  to_look :: "LookOutcome option"
  to_left :: bool

definition outcome_with :: "ChildFate \<Rightarrow> TeardownOutcome" where
  "outcome_with fate = \<lparr>to_fate = fate, to_look = None, to_left = False\<rparr>"

definition of_front :: "ChildFate \<Rightarrow> LookOutcome \<Rightarrow> TeardownOutcome" where
  "of_front fate look = \<lparr>to_fate = fate, to_look = Some look, to_left = False\<rparr>"

datatype Unreaped_Why = Elsewhere Foreign | Wait_Failed Error | Wait_Deadline

definition wait_after_kill :: "Error + ChildWaitOutcome \<Rightarrow> Unreaped_Why + i32" where
  "wait_after_kill waited = (case waited of
      Inl e \<Rightarrow> Inl (Wait_Failed e)
    | Inr (Not_Ours f) \<Rightarrow> Inl (Elsewhere f)
    | Inr out \<Rightarrow> (case status_of_outcome out of
          Inr (Some st) \<Rightarrow> Inr st
        | Inr None \<Rightarrow> Inl Wait_Deadline
        | Inl e \<Rightarrow> Inl (Wait_Failed e)))"

definition settle_unreaped :: "bool \<Rightarrow> Unreaped_Why \<Rightarrow> TeardownOutcome" where
  "settle_unreaped delivered why = (
     let fate = (if delivered then Fate_Killed else Fate_Unknown)
     in case why of
         Elsewhere f \<Rightarrow> \<lparr>to_fate = foreign_fate f delivered, to_look = None, to_left = (f = Orphaned)\<rparr>
       | Wait_Failed _ \<Rightarrow> \<lparr>to_fate = fate, to_look = None, to_left = True\<rparr>
       | Wait_Deadline \<Rightarrow> \<lparr>to_fate = fate, to_look = None, to_left = False\<rparr>)"

text \<open>What a look answered, read as a status.\<close>

definition looked_status :: "Error + ChildWaitOutcome \<Rightarrow> Error + i32 option" where
  "looked_status looked = (case looked of Inl e \<Rightarrow> Inl e | Inr out \<Rightarrow> status_of_outcome out)"

definition look_after_refused_kill :: "TeardownWorld \<Rightarrow> ProcessId option \<Rightarrow> Act list \<times> TeardownOutcome option" where
  "look_after_refused_kill w ident = ([Look_Now], Some (case tw_look w of
      Inr (Not_Ours f) \<Rightarrow> outcome_with (foreign_fate f False)
    | looked \<Rightarrow> (
        let status = looked_status looked;
            fate = fate_of_a_look (map_sum raw_os id status) ident
        in \<lparr>to_fate = fate, to_look = None,
             to_left = (case fate of Fate_Running _ \<Rightarrow> True | Fate_Unknown \<Rightarrow> (case status of Inl _ \<Rightarrow> True | Inr _ \<Rightarrow> False) | _ \<Rightarrow> False)\<rparr>)))"

text \<open>A kill that was delivered, or found nothing to signal, is followed by the wait; one that failed only by a look.\<close>

definition kill_and_settle :: "TeardownWorld \<Rightarrow> ProcessId option \<Rightarrow> Act list \<times> TeardownOutcome option" where
  "kill_and_settle w ident = (case tw_kill w of
      Inr sent \<Rightarrow> ([Send_Kill, Wait_Unbounded], map_option (\<lambda>waited. case wait_after_kill waited of
          Inr _ \<Rightarrow> outcome_with Fate_Reaped
        | Inl why \<Rightarrow> settle_unreaped (sent = Delivered) why) (tw_wait w))
    | Inl _ \<Rightarrow> (case look_after_refused_kill w ident of (acts, out) \<Rightarrow> (Send_Kill # acts, out)))"

definition reap_after_tree_kill :: "TeardownWorld \<Rightarrow> Act list \<times> TeardownOutcome option" where
  "reap_after_tree_kill w = ([Wait_Unbounded], map_option (\<lambda>waited. case wait_after_kill waited of
      Inr _ \<Rightarrow> outcome_with Fate_Reaped
    | Inl why \<Rightarrow> settle_unreaped True why) (tw_wait w))"

definition wait_for_front :: "Error + ChildWaitOutcome \<Rightarrow> TeardownOutcome" where
  "wait_for_front waited = (case wait_after_kill waited of
      Inr st \<Rightarrow> of_front Fate_Reaped (Look_Reaped st)
    | Inl (Elsewhere f) \<Rightarrow> of_front (foreign_fate f True) ReapedElsewhere
    | Inl (Wait_Failed e) \<Rightarrow> of_front Fate_Killed (ReapFailed e)
    | Inl Wait_Deadline \<Rightarrow> outcome_with Fate_Killed)"

definition look_at_front :: "TeardownWorld \<Rightarrow> ProcessId option \<Rightarrow> IoError + bool \<Rightarrow> Act list \<times> TeardownOutcome option" where
  "look_at_front w ident reach = (case tw_look w of
      Inr (Not_Ours f) \<Rightarrow> ([Look_Now], Some (of_front (foreign_fate f False) ReapedElsewhere))
    | looked \<Rightarrow> (case looked_status looked of
        Inr (Some st) \<Rightarrow> ([Look_Now], Some (of_front Fate_Reaped (Look_Reaped st)))
      | Inl e \<Rightarrow> ([Look_Now], Some (of_front Fate_Unknown (LookFailed e)))
      | Inr None \<Rightarrow> (case reach of
          Inl e \<Rightarrow> ([Look_Now], Some (of_front Fate_Unknown (SubtreeUnreadable e)))
        | Inr False \<Rightarrow> ([Look_Now], Some (of_front (Fate_Running ident) LeftRunning))
        | Inr True \<Rightarrow> (case tw_reached w of
            Inr False \<Rightarrow> ([Look_Now, Read_Reach], Some (of_front (Fate_Running ident) LeftRunning))
          | Inl e \<Rightarrow> ([Look_Now, Read_Reach], Some (of_front Fate_Unknown (PlaceUnreadable e)))
          | Inr True \<Rightarrow> ([Look_Now, Read_Reach, Wait_Unbounded], map_option wait_for_front (tw_wait w))))))"

definition tear_down :: "TeardownWorld \<Rightarrow> ProcessId option \<Rightarrow> TeardownKind \<Rightarrow> Act list \<times> TeardownOutcome option" where
  "tear_down w ident kind = (case kind of
      Kind_Kill \<Rightarrow> kill_and_settle w ident
    | Kind_Look reach \<Rightarrow> look_at_front w ident reach)"

section \<open>The policies of a graceful shutdown\<close>

definition after_grace :: "Error + bool \<Rightarrow> Error + unit \<Rightarrow> bool \<times> (Error + unit)" where
  "after_grace watch killed =
     (if watch = Inr True then (False, Inr ())
      else (True, case killed of Inl e \<Rightarrow> Inl e | Inr _ \<Rightarrow> map_sum id (\<lambda>_. ()) watch))"

definition after_tree_grace :: "Error + bool \<Rightarrow> Error + unit \<Rightarrow> Error + unit" where
  "after_tree_grace watch swept = (case swept of Inl e \<Rightarrow> Inl e | Inr _ \<Rightarrow> map_sum id (\<lambda>_. ()) watch)"

section \<open>What a teardown settles\<close>

text \<open>Whether a kill is known to have reached the child: this teardown's own was delivered, or one sent elsewhere reached the front.\<close>

definition kill_reached :: "TeardownWorld \<Rightarrow> TeardownKind \<Rightarrow> bool" where
  "kill_reached w kind \<longleftrightarrow> kind = Kind_Kill \<and> tw_kill w = Inr Delivered \<or> kind = Kind_Look (Inr True) \<and> tw_reached w = Inr True"

definition answered_exit :: "Error + ChildWaitOutcome \<Rightarrow> bool" where
  "answered_exit r = (case r of Inr (Exited (Status _)) \<Rightarrow> True | _ \<Rightarrow> False)"

lemma waited_exit: "answered_exit r \<longleftrightarrow> (\<exists>st. wait_after_kill r = Inr st)" and looked_exit: "answered_exit r \<longleftrightarrow> (\<exists>st. looked_status r = Inr (Some st))"
  by (auto simp: answered_exit_def wait_after_kill_def looked_status_def status_of_outcome_def split: sum.splits ChildWaitOutcome.splits ExitRecord.splits)

lemma settle_unreaped_fate:
  "to_fate (settle_unreaped delivered why) \<noteq> Fate_Reaped" "to_fate (settle_unreaped delivered why) = Fate_Killed \<Longrightarrow> delivered" "to_fate (settle_unreaped delivered why) \<noteq> Fate_Running i"
  by (auto simp: settle_unreaped_def foreign_fate_def Let_def split: Unreaped_Why.splits if_splits)

lemma wait_for_front_fate: "to_fate (wait_for_front r) = Fate_Reaped \<longleftrightarrow> answered_exit r" "to_fate (wait_for_front r) \<noteq> Fate_Running i"
  by (auto simp: wait_for_front_def waited_exit of_front_def outcome_with_def foreign_fate_def split: sum.splits Unreaped_Why.splits)

text \<open>The two ways to look, in what they say of the child.\<close>

definition look_fate :: "TeardownWorld \<Rightarrow> ProcessId option \<Rightarrow> ChildFate \<Rightarrow> bool" where
  "look_fate w ident fate \<longleftrightarrow> (fate = Fate_Reaped \<longleftrightarrow> answered_exit (tw_look w)) \<and> fate \<noteq> Fate_Killed \<and> (\<forall>i. fate = Fate_Running i \<longrightarrow> i = ident \<and> tw_look w = Inr DeadlinePassed)"

lemma refused_kill_look:
  "\<exists>t. look_after_refused_kill w ident = ([Look_Now], Some t) \<and> look_fate w ident (to_fate t)"
  by (cases "tw_look w") (auto simp: look_after_refused_kill_def look_fate_def answered_exit_def looked_status_def status_of_outcome_def outcome_with_def fate_of_a_look_def foreign_fate_def Let_def
      split: ChildWaitOutcome.splits ExitRecord.splits if_splits)

lemma look_at_front_cases:
  assumes "look_at_front w ident reach = (acts, out)"
  obtains (settled) fate look where "acts = [Look_Now]" "out = Some (of_front fate look)" "look_fate w ident fate" "\<And>i. fate = Fate_Running i \<Longrightarrow> reach = Inr False"
      "reach = Inr True \<Longrightarrow> tw_look w \<noteq> Inr DeadlinePassed"
    | (asked) fate look where "acts = [Look_Now, Read_Reach]" "out = Some (of_front fate look)" "look_fate w ident fate" "tw_reached w \<noteq> Inr True"
    | (waited) "acts = [Look_Now, Read_Reach, Wait_Unbounded]" "out = map_option wait_for_front (tw_wait w)" "tw_look w = Inr DeadlinePassed" "reach = Inr True" "tw_reached w = Inr True"
proof (cases "tw_look w = Inr DeadlinePassed")
  case True
  then have l: "look_at_front w ident reach = (case reach of
          Inl e \<Rightarrow> ([Look_Now], Some (of_front Fate_Unknown (SubtreeUnreadable e)))
        | Inr False \<Rightarrow> ([Look_Now], Some (of_front (Fate_Running ident) LeftRunning))
        | Inr True \<Rightarrow> (case tw_reached w of
            Inr False \<Rightarrow> ([Look_Now, Read_Reach], Some (of_front (Fate_Running ident) LeftRunning))
          | Inl e \<Rightarrow> ([Look_Now, Read_Reach], Some (of_front Fate_Unknown (PlaceUnreadable e)))
          | Inr True \<Rightarrow> ([Look_Now, Read_Reach, Wait_Unbounded], map_option wait_for_front (tw_wait w))))"
    by (simp add: look_at_front_def looked_status_def status_of_outcome_def)
  have f: "look_fate w ident (Fate_Running ident)" "look_fate w ident Fate_Unknown" using True by (simp_all add: look_fate_def answered_exit_def)
  from assms l f show thesis by (cases reach; cases "tw_reached w") (auto split: bool.splits intro: settled asked waited simp: True)
next
  case False
  have "\<exists>fate look. look_at_front w ident reach = ([Look_Now], Some (of_front fate look)) \<and> look_fate w ident fate \<and> (\<forall>i. fate \<noteq> Fate_Running i)"
    using False by (cases "tw_look w") (auto simp: look_at_front_def looked_status_def status_of_outcome_def look_fate_def answered_exit_def foreign_fate_def
        split: ChildWaitOutcome.splits ExitRecord.splits)
  then show thesis using assms False by (auto intro: settled)
qed

lemma tear_down_cases:
  assumes "tear_down w ident kind = (acts, out)"
  obtains (killed) sent where "kind = Kind_Kill" "tw_kill w = Inr sent" "acts = [Send_Kill, Wait_Unbounded]"
      "out = map_option (\<lambda>waited. case wait_after_kill waited of Inr _ \<Rightarrow> outcome_with Fate_Reaped | Inl why \<Rightarrow> settle_unreaped (sent = Delivered) why) (tw_wait w)"
    | (refused) e t where "kind = Kind_Kill" "tw_kill w = Inl e" "acts = [Send_Kill, Look_Now]" "out = Some t" "look_fate w ident (to_fate t)"
    | (looked) reach where "kind = Kind_Look reach" "look_at_front w ident reach = (acts, out)"
proof (cases kind)
  case Kind_Kill
  obtain t where t: "look_after_refused_kill w ident = ([Look_Now], Some t)" "look_fate w ident (to_fate t)" using refused_kill_look by blast
  show thesis
  proof (cases "tw_kill w")
    case (Inl e)
    with assms Kind_Kill t show thesis by (intro refused [of e t]) (simp_all add: tear_down_def kill_and_settle_def)
  next
    case (Inr sent)
    with assms Kind_Kill show thesis by (intro killed [of sent]) (simp_all add: tear_down_def kill_and_settle_def)
  qed
next
  case (Kind_Look reach)
  with assms show thesis by (intro looked) (simp_all add: tear_down_def)
qed

lemma teardown_acts:
  assumes "tear_down w ident kind = (acts, out)"
  shows "(Send_Kill \<in> set acts \<longleftrightarrow> kind = Kind_Kill)
    \<and> (Wait_Unbounded \<in> set acts \<longleftrightarrow> kind = Kind_Kill \<and> (\<exists>sent. tw_kill w = Inr sent)
        \<or> kind = Kind_Look (Inr True) \<and> tw_look w = Inr DeadlinePassed \<and> tw_reached w = Inr True)
    \<and> (Wait_Unbounded \<notin> set acts \<longrightarrow> out \<noteq> None)"
  using assms
proof (cases rule: tear_down_cases)
  case (looked reach)
  from looked(2) show ?thesis by (cases rule: look_at_front_cases) (auto simp: looked(1))
qed auto

lemma killed_fate:
  assumes "t = (case wait_after_kill r of Inr _ \<Rightarrow> outcome_with Fate_Reaped | Inl why \<Rightarrow> settle_unreaped (sent = Delivered) why)"
  shows "(to_fate t = Fate_Reaped \<longleftrightarrow> answered_exit r) \<and> (to_fate t = Fate_Killed \<longrightarrow> sent = Delivered) \<and> (\<forall>i. to_fate t \<noteq> Fate_Running i)"
  using assms settle_unreaped_fate by (cases "wait_after_kill r") (auto simp: waited_exit outcome_with_def)

lemma teardown_fate:
  assumes "tear_down w ident kind = (acts, Some t)"
  shows "(to_fate t = Fate_Reaped \<longleftrightarrow> Look_Now \<in> set acts \<and> answered_exit (tw_look w) \<or> Wait_Unbounded \<in> set acts \<and> (\<exists>r. tw_wait w = Some r \<and> answered_exit r))
    \<and> (to_fate t = Fate_Killed \<longrightarrow> kill_reached w kind)
    \<and> (\<forall>i. to_fate t = Fate_Running i \<longrightarrow> i = ident \<and> tw_look w = Inr DeadlinePassed \<and> \<not> kill_reached w kind)"
  using assms
proof (cases rule: tear_down_cases)
  case (killed sent)
  then obtain r where "tw_wait w = Some r" and "t = (case wait_after_kill r of Inr _ \<Rightarrow> outcome_with Fate_Reaped | Inl why \<Rightarrow> settle_unreaped (sent = Delivered) why)"
    by (cases "tw_wait w") simp_all
  with killed killed_fate [of t sent r] show ?thesis by (auto simp: kill_reached_def)
next
  case (refused e t')
  then show ?thesis by (auto simp: look_fate_def kill_reached_def)
next
  case (looked reach)
  from looked(2) show ?thesis
  proof (cases rule: look_at_front_cases)
    case waited
    then obtain r where "tw_wait w = Some r" and "t = wait_for_front r" by (cases "tw_wait w") simp_all
    with waited looked(1) wait_for_front_fate [of r] show ?thesis by (simp add: kill_reached_def answered_exit_def)
  qed (auto simp: look_fate_def of_front_def kill_reached_def looked(1))
qed

text \<open>C14: a teardown never blocks on a child that nothing asked to exit, and its report is what happened. It sends the kill exactly when it is to kill, so an elevation
front is never signalled; it waits without a deadline only after a kill was answered, or when the front was seen running and a kill sent elsewhere
reached it, and returns whenever it does not wait; it says \<open>Reaped\<close> exactly when a call answered an exit status, \<open>Killed\<close> only when a kill reached the
child, and \<open>Running\<close>, with the identity it was given, only when the look found the child running and no kill reached it.\<close>

theorem teardown_settles_truthfully:
  assumes "tear_down w ident kind = (acts, out)"
  shows "(Send_Kill \<in> set acts \<longleftrightarrow> kind = Kind_Kill)
    \<and> (Wait_Unbounded \<in> set acts \<longleftrightarrow> kind = Kind_Kill \<and> (\<exists>sent. tw_kill w = Inr sent)
        \<or> kind = Kind_Look (Inr True) \<and> tw_look w = Inr DeadlinePassed \<and> tw_reached w = Inr True)
    \<and> (Wait_Unbounded \<notin> set acts \<longrightarrow> out \<noteq> None)
    \<and> (\<forall>t. out = Some t \<longrightarrow>
         (to_fate t = Fate_Reaped \<longleftrightarrow> Look_Now \<in> set acts \<and> answered_exit (tw_look w) \<or> Wait_Unbounded \<in> set acts \<and> (\<exists>r. tw_wait w = Some r \<and> answered_exit r))
         \<and> (to_fate t = Fate_Killed \<longrightarrow> kill_reached w kind)
         \<and> (\<forall>i. to_fate t = Fate_Running i \<longrightarrow> i = ident \<and> tw_look w = Inr DeadlinePassed \<and> \<not> kill_reached w kind))"
  using teardown_acts [OF assms] teardown_fate [of w ident kind acts] assms by blast

theorem teardown_settles_truthfully_witness:
  "tear_down \<lparr>tw_kill = Inl (Io 1), tw_look = Inr DeadlinePassed, tw_wait = None, tw_reached = Inr False\<rparr> None Kind_Kill
     = ([Send_Kill, Look_Now], Some \<lparr>to_fate = Fate_Running None, to_look = None, to_left = True\<rparr>)
   \<and> Wait_Unbounded \<notin> set [Send_Kill, Look_Now]"
proof -
  let ?w = "\<lparr>tw_kill = Inl (Io 1), tw_look = Inr DeadlinePassed, tw_wait = None, tw_reached = Inr False\<rparr>"
  have t: "tear_down ?w None Kind_Kill = ([Send_Kill, Look_Now], Some \<lparr>to_fate = Fate_Running None, to_look = None, to_left = True\<rparr>)"
    by code_simp
  from teardown_settles_truthfully [OF t] t show ?thesis by simp
qed

end
