(* ===== verification/Decimal.thy ===== *)
theory Decimal
  imports Prelude
begin

text \<open>
  Decimal numbers in text, as the standard library writes them (\<^verbatim>\<open>to_string\<close>) and reads them (\<^verbatim>\<open>str::parse\<close>).
\<close>

section \<open>Writing and reading\<close>

text \<open>\<^verbatim>\<open>u32::to_string\<close>, \<^verbatim>\<open>u64::to_string\<close>.\<close>

definition show_uint :: "'a::len word \<Rightarrow> bytes" where
  "show_uint w = show_int (uint w)"

definition is_ascii_digit :: "u8 \<Rightarrow> bool" where
  "is_ascii_digit b \<longleftrightarrow> 0x30 \<le> b \<and> b \<le> 0x39"

primrec digits_value :: "int \<Rightarrow> bytes \<Rightarrow> int" where
  "digits_value acc [] = acc"
| "digits_value acc (d # ds) = digits_value (10 * acc + uint (d - 0x30)) ds"

text \<open>\<^verbatim>\<open>str::parse\<close> for an unsigned and for a signed integer type: one leading sign, then digits only, and a value that fits.\<close>

definition parse_digits :: "bytes \<Rightarrow> int option" where
  "parse_digits s = (if s \<noteq> [] \<and> list_all is_ascii_digit s then Some (digits_value 0 s) else None)"

definition parse_uint :: "bytes \<Rightarrow> 'a::len word option" where
  "parse_uint s = (case parse_digits (if s \<noteq> [] \<and> hd s = 0x2B then tl s else s) of
      Some n \<Rightarrow> if n < 2 ^ LENGTH('a) then Some (of_int n) else None
    | None \<Rightarrow> None)"

definition parse_i64 :: "bytes \<Rightarrow> int option" where
  "parse_i64 s = (
     if s \<noteq> [] \<and> hd s = 0x2D then (case parse_digits (tl s) of Some n \<Rightarrow> if n \<le> 2 ^ 63 then Some (- n) else None | None \<Rightarrow> None)
     else (case parse_digits (if s \<noteq> [] \<and> hd s = 0x2B then tl s else s) of Some n \<Rightarrow> if n < 2 ^ 63 then Some n else None | None \<Rightarrow> None))"

section \<open>Digits\<close>

lemma digits_value_snoc: "digits_value acc (xs @ [d]) = 10 * digits_value acc xs + uint (d - 0x30)"
  by (induction xs arbitrary: acc) simp_all

lemma is_ascii_digit_value: "is_ascii_digit d \<Longrightarrow> 0 \<le> uint (d - 0x30) \<and> uint (d - 0x30) < 10"
  unfolding is_ascii_digit_def by uint_arith

lemma show_digit: "0 \<le> n \<Longrightarrow> n < 10 \<Longrightarrow> is_ascii_digit (0x30 + of_int n) \<and> uint ((0x30 + of_int n) - 0x30 :: u8) = n"
  by (auto simp: is_ascii_digit_def word_le_def uint_word_ariths of_int_eq_numeral_iff unsigned_of_int take_bit_eq_mod)

lemma show_int_small: "n < 10 \<Longrightarrow> show_int n = [0x30 + of_int n]"
  by (subst show_int.simps) simp

lemma show_int_step: "10 \<le> n \<Longrightarrow> show_int n = show_int (n div 10) @ [0x30 + of_int (n mod 10)]"
  by (subst show_int.simps) simp

lemma show_int_decimal:
  "0 \<le> n \<Longrightarrow> show_int n \<noteq> [] \<and> list_all is_ascii_digit (show_int n) \<and> digits_value 0 (show_int n) = n
     \<and> (1 < length (show_int n) \<longrightarrow> hd (show_int n) \<noteq> 0x30)
     \<and> (0 < n \<longrightarrow> hd (show_int n) \<noteq> 0x30)"
proof (induction n rule: show_int.induct)
  case (1 n)
  show ?case
  proof (cases "n < 10")
    case True
    with "1.prems" show_digit [of n] show ?thesis
      by (auto simp: show_int_small uint_word_ariths)
  next
    case False
    with "1.prems" "1.IH" have IH: "show_int (n div 10) \<noteq> []" "list_all is_ascii_digit (show_int (n div 10))"
      "digits_value 0 (show_int (n div 10)) = n div 10" "hd (show_int (n div 10)) \<noteq> 0x30"
      by auto
    have "0 \<le> n mod 10" "n mod 10 < 10" by simp_all
    with show_digit [of "n mod 10"] IH False show ?thesis
      by (auto simp: show_int_step digits_value_snoc)
  qed
qed

lemma digits_value_ge: "list_all is_ascii_digit a \<Longrightarrow> 0 \<le> acc \<Longrightarrow> acc \<le> digits_value acc a"
proof (induction a arbitrary: acc)
  case Nil
  then show ?case by simp
next
  case (Cons d a)
  have "0 \<le> uint (d - 0x30)" by simp
  then have "acc \<le> 10 * acc + uint (d - 0x30)" and "0 \<le> 10 * acc + uint (d - 0x30)"
    using Cons.prems by linarith+
  note this(1)
  also have "10 * acc + uint (d - 0x30) \<le> digits_value (10 * acc + uint (d - 0x30)) a"
    using Cons.prems \<open>0 \<le> 10 * acc + uint (d - 0x30)\<close> by (intro Cons.IH) auto
  finally show ?case by simp
qed

lemma digits_value_pos:
  assumes "list_all is_ascii_digit a" and "a \<noteq> []" and "hd a \<noteq> 0x30"
  shows "0 < digits_value 0 a"
proof -
  obtain d r where a: "a = d # r" using assms(2) by (cases a) auto
  with assms have "d \<noteq> 0x30" by simp
  then have "d - 0x30 \<noteq> 0" by simp
  then have "0 < uint (d - 0x30)" by (simp add: uint_0_iff order_less_le)
  with digits_value_ge [of r "uint (d - 0x30)"] a assms(1) show ?thesis by auto
qed

lemma uint_digit_inverse: "is_ascii_digit d \<Longrightarrow> 0x30 + of_int (uint (d - 0x30)) = d"
  by simp

lemma show_int_digits_value:
  "list_all is_ascii_digit a \<Longrightarrow> a \<noteq> [] \<Longrightarrow> (1 < length a \<longrightarrow> hd a \<noteq> 0x30) \<Longrightarrow> show_int (digits_value 0 a) = a"
proof (induction a rule: rev_induct)
  case Nil
  then show ?case by simp
next
  case (snoc d a)
  note d = is_ascii_digit_value [of d]
  show ?case
  proof (cases "a = []")
    case True
    with snoc.prems d show ?thesis by (simp add: show_int_small)
  next
    case False
    with snoc.prems have a: "list_all is_ascii_digit a" "hd a \<noteq> 0x30" "is_ascii_digit d"
      by (auto simp: hd_append)
    with False snoc.IH have IH: "show_int (digits_value 0 a) = a" by auto
    have v: "digits_value 0 (a @ [d]) = 10 * digits_value 0 a + uint (d - 0x30)"
      by (rule digits_value_snoc)
    have pos: "0 < digits_value 0 a" using a False by (intro digits_value_pos) auto
    have "10 \<le> digits_value 0 (a @ [d])" using pos d [OF a(3)] unfolding v by linarith
    moreover have "digits_value 0 (a @ [d]) div 10 = digits_value 0 a"
      and "digits_value 0 (a @ [d]) mod 10 = uint (d - 0x30)"
      using d [OF a(3)] unfolding v by auto
    ultimately show ?thesis using IH by (simp add: show_int_step)
  qed
qed

lemma parse_show_uint [simp]: "parse_uint (show_uint w) = Some w"
proof -
  have d: "show_int (uint w) \<noteq> []" "list_all is_ascii_digit (show_int (uint w))" "digits_value 0 (show_int (uint w)) = uint w"
    using show_int_decimal [of "uint w"] by auto
  then have "is_ascii_digit (hd (show_int (uint w)))" by (cases "show_int (uint w)") auto
  then have "hd (show_int (uint w)) \<noteq> 0x2B" by (auto simp: is_ascii_digit_def)
  then show ?thesis using d uint_lt2p [of w] by (simp add: parse_uint_def parse_digits_def show_uint_def)
qed

end
