(* ===== verification/Proc_Text.thy ===== *)
theory Proc_Text
  imports Decimal Utf8 Identity
begin

text \<open>
  The texts of \<^verbatim>\<open>/proc\<close> that cosca reads: \<^verbatim>\<open>src/src/identity/stat_parse.rs\<close> and \<^verbatim>\<open>src/src/containment/cgroup/parse.rs\<close>, with the standard library's
  \<^verbatim>\<open>lines\<close>, \<^verbatim>\<open>split_whitespace\<close> and \<^verbatim>\<open>trim\<close>, which read a \<^verbatim>\<open>str\<close> by its characters. A character is its own bytes.
\<close>

section \<open>Text by characters\<close>

function chars :: "bytes \<Rightarrow> bytes list" where
  "chars s = (if s = [] then [] else let n = snd (next_char s) in take n s # chars (drop n s))"
  by auto

termination
  by (relation "measure length") (auto simp: next_char_pos)

declare chars.simps [simp del]

lemma chars_code [code]:
  "chars [] = []"
  "chars (a # s) = (let n = snd (next_char (a # s)) in take n (a # s) # chars (drop n (a # s)))"
  by (simp_all add: chars.simps [of "[]"] chars.simps [of "a # s"])

text \<open>\<^verbatim>\<open>char::is_whitespace\<close>: the White_Space property of Unicode, by the UTF-8 form of the character.\<close>

definition is_whitespace :: "bytes \<Rightarrow> bool" where
  "is_whitespace ch = (case ch of
      [b] \<Rightarrow> (0x09 \<le> b \<and> b \<le> 0x0D) \<or> b = 0x20
    | [a, b] \<Rightarrow> a = 0xC2 \<and> (b = 0x85 \<or> b = 0xA0)
    | [a, b, c] \<Rightarrow> (a = 0xE1 \<and> b = 0x9A \<and> c = 0x80)
        \<or> (a = 0xE2 \<and> b = 0x80 \<and> ((0x80 \<le> c \<and> c \<le> 0x8A) \<or> c = 0xA8 \<or> c = 0xA9 \<or> c = 0xAF))
        \<or> (a = 0xE2 \<and> b = 0x81 \<and> c = 0x9F)
        \<or> (a = 0xE3 \<and> b = 0x80 \<and> c = 0x80)
    | _ \<Rightarrow> False)"

lemma is_whitespace_1: "is_whitespace [b] \<longleftrightarrow> (0x09 \<le> b \<and> b \<le> 0x0D) \<or> b = 0x20"
  by (simp add: is_whitespace_def)

definition split_whitespace :: "bytes \<Rightarrow> bytes list" where
  "split_whitespace s = filter (\<lambda>w. w \<noteq> []) (map concat (split_on is_whitespace (chars s)))"

definition trim :: "bytes \<Rightarrow> bytes" where
  "trim s = concat (rev (dropWhile is_whitespace (rev (dropWhile is_whitespace (chars s)))))"

abbreviation LF :: u8 where "LF \<equiv> 0x0A"
abbreviation CR :: u8 where "CR \<equiv> 0x0D"

text \<open>\<^verbatim>\<open>str::lines\<close>: a line ends with a line feed, or with a carriage return and one; what follows the last line feed is a line if it is not empty.\<close>

definition strip_cr :: "bytes \<Rightarrow> bytes" where
  "strip_cr l = (if l \<noteq> [] \<and> last l = CR then butlast l else l)"

definition lines_of :: "bytes \<Rightarrow> bytes list" where
  "lines_of s = (let ps = split_on (\<lambda>b. b = LF) s in
     map strip_cr (butlast ps) @ (if last ps = [] then [] else [last ps]))"

definition strip_text :: "string \<Rightarrow> bytes \<Rightarrow> bytes option" where
  "strip_text p s = (if take (length p) s = ascii p then Some (drop (length p) s) else None)"

section \<open>The stat file of a process\<close>

abbreviation RPAREN :: u8 where "RPAREN \<equiv> 0x29"

definition stat_tail :: "bytes \<Rightarrow> bytes option" where
  "stat_tail stat = (case rposition (\<lambda>b. b = RPAREN) stat of
      None \<Rightarrow> None
    | Some close \<Rightarrow> from_utf8 (drop (close + 1) stat))"

definition stat_field :: "bytes \<Rightarrow> nat \<Rightarrow> bytes option" where
  "stat_field stat n = Option.bind (stat_tail stat) (\<lambda>t. nth_opt (split_whitespace t) n)"

definition parse_starttime_jiffies :: "bytes \<Rightarrow> u64 option" where
  "parse_starttime_jiffies stat = Option.bind (stat_field stat 19) parse_uint"

definition parse_state :: "bytes \<Rightarrow> u8 option" where
  "parse_state stat = Option.bind (stat_field stat 0) (\<lambda>w. nth_opt w 0)"

definition parse_ppid :: "bytes \<Rightarrow> u32 option" where
  "parse_ppid stat = Option.bind (stat_field stat 1) parse_uint"

definition parse_pgrp :: "bytes \<Rightarrow> u32 option" where
  "parse_pgrp stat = Option.bind (stat_field stat 2) parse_uint"

definition running_from_stat :: "bytes \<Rightarrow> u64 \<Rightarrow> Liveness" where
  "running_from_stat stat start = (case parse_starttime_jiffies stat of
      None \<Rightarrow> Liveness_Unknown
    | Some j \<Rightarrow>
        if j \<noteq> start then Dead
        else (case parse_state stat of
            None \<Rightarrow> Liveness_Unknown
          | Some s \<Rightarrow> if s \<in> {0x5A, 0x58, 0x78} then Dead else Alive))"

section \<open>The files of a cgroup\<close>

definition is_at_or_under :: "bytes \<Rightarrow> bytes \<Rightarrow> bool" where
  "is_at_or_under path leaf \<longleftrightarrow> take (length leaf) path = leaf
     \<and> (let rest = drop (length leaf) path in rest = [] \<or> hd rest = SLASH)"

definition find_line :: "string \<Rightarrow> bytes \<Rightarrow> bytes option" where
  "find_line p text = (case find (\<lambda>l. strip_text p l \<noteq> None) (lines_of text) of None \<Rightarrow> None | Some l \<Rightarrow> strip_text p l)"

definition parse_v2_relative_path :: "bytes \<Rightarrow> bytes option" where
  "parse_v2_relative_path text = find_line ''0::'' text"

text \<open>The text before the second colon of a line.\<close>

definition second_colon :: "bytes \<Rightarrow> nat option" where
  "second_colon l = (case position (\<lambda>b. b = 0x3A) l of
      None \<Rightarrow> None
    | Some i \<Rightarrow> map_option (\<lambda>j. i + 1 + j) (position (\<lambda>b. b = 0x3A) (drop (i + 1) l)))"

definition controllers_of :: "bytes \<Rightarrow> bytes" where
  "controllers_of l = (case second_colon l of Some i \<Rightarrow> take i l | None \<Rightarrow> ascii ''<unparseable line>'')"

definition join_texts :: "bytes \<Rightarrow> bytes list \<Rightarrow> bytes" where
  "join_texts sep ws = (case ws of [] \<Rightarrow> [] | w # r \<Rightarrow> w @ concat (map ((@) sep) r))"

definition summarize_cgroup_controllers :: "bytes \<Rightarrow> nat \<times> bytes" where
  "summarize_cgroup_controllers text = (
     let controllers = map controllers_of (lines_of text)
     in (length controllers, if controllers = [] then ascii ''no controllers'' else join_texts (ascii '', '') controllers))"

definition parse_populated :: "bytes \<Rightarrow> bool option" where
  "parse_populated text = (case find_line ''populated '' text of
      None \<Rightarrow> None
    | Some rest \<Rightarrow> if trim rest = ascii ''0'' then Some False else if trim rest = ascii ''1'' then Some True else None)"

definition parse_proc_stat_state :: "bytes \<Rightarrow> bytes option" where
  "parse_proc_stat_state stat = (case rposition (\<lambda>b. b = RPAREN) stat of
      None \<Rightarrow> None
    | Some i \<Rightarrow> Option.bind (nth_opt (split_whitespace (drop (i + 1) stat)) 0) (\<lambda>w. nth_opt (chars w) 0))"

section \<open>Text of one byte per character\<close>

definition ascii_text :: "bytes \<Rightarrow> bool" where
  "ascii_text s \<longleftrightarrow> list_all (\<lambda>b. b < 0x80) s"

lemma chars_ascii: "ascii_text s \<Longrightarrow> chars s = map (\<lambda>b. [b]) s"
proof (induction s)
  case (Cons b s)
  then have "next_char (b # s) = (True, 1)" by (simp add: ascii_text_def next_char_ascii)
  then show ?case using Cons by (subst chars.simps) (simp add: ascii_text_def)
qed (simp add: chars.simps)

lemma ascii_text_utf8: "ascii_text s \<Longrightarrow> utf8_valid s"
  by (simp add: ascii_text_def utf8_valid_all_ascii list_all_iff)

text \<open>A word that a space, a tab or the end of a line ends.\<close>

definition plain_word :: "bytes \<Rightarrow> bool" where
  "plain_word w \<longleftrightarrow> w \<noteq> [] \<and> list_all (\<lambda>b. 0x21 \<le> b \<and> b < 0x7F) w"

lemma plain_word_ascii: "plain_word w \<Longrightarrow> ascii_text w"
  unfolding plain_word_def ascii_text_def list_all_iff by (auto intro: order_less_trans [of _ "0x7F :: u8"])

lemma is_whitespace_byte: "0x21 \<le> b \<Longrightarrow> b < 0x7F \<Longrightarrow> \<not> is_whitespace [b]"
  by (auto simp: is_whitespace_1 word_le_def word_less_def)

lemma is_whitespace_blank: "b \<in> {0x20, 0x0A, 0x09} \<Longrightarrow> is_whitespace [b]"
  by (auto simp: is_whitespace_1)

lemma rposition_last: "P x \<Longrightarrow> list_all (\<lambda>y. \<not> P y) ys \<Longrightarrow> rposition P (xs @ x # ys) = Some (length xs)"
proof (induction xs)
  case Nil
  then show ?case using rposition_None_iff [of P ys] by (simp add: list_all_iff)
qed simp

lemma map_singleton_split:
  "split_on (\<lambda>c. Q (hd c)) (map (\<lambda>b. [b]) s) = map (map (\<lambda>b. [b])) (split_on Q s)"
  by (induction s) (auto simp: map_tl hd_map)

lemma split_on_cong: "(\<And>x. x \<in> set xs \<Longrightarrow> P x = Q x) \<Longrightarrow> split_on P xs = split_on Q xs"
  by (induction xs) auto

lemma concat_singletons [simp]: "concat (map (\<lambda>b. [b]) s) = s"
  by (induction s) simp_all

text \<open>On text of one byte per character, \<^verbatim>\<open>split_whitespace\<close> splits bytes.\<close>

lemma split_whitespace_ascii:
  assumes "ascii_text s"
  shows "split_whitespace s = filter (\<lambda>w. w \<noteq> []) (split_on (\<lambda>b. is_whitespace [b]) s)"
proof -
  have "split_on is_whitespace (map (\<lambda>b. [b]) s) = split_on (\<lambda>c. is_whitespace [hd c]) (map (\<lambda>b. [b]) s)"
    by (rule split_on_cong) auto
  also have "\<dots> = map (map (\<lambda>b. [b])) (split_on (\<lambda>b. is_whitespace [b]) s)" by (rule map_singleton_split)
  finally show ?thesis by (simp add: split_whitespace_def chars_ascii assms comp_def)
qed

lemma plain_word_no_blank: "plain_word w \<Longrightarrow> list_all (\<lambda>b. \<not> is_whitespace [b]) w"
  by (auto simp: plain_word_def list_all_iff is_whitespace_byte)

lemma split_on_words:
  assumes "list_all plain_word ws" and "is_whitespace [e]"
  shows "filter (\<lambda>w. w \<noteq> []) (split_on (\<lambda>b. is_whitespace [b]) (concat (map ((#) 0x20) ws) @ [e])) = ws"
  using assms(1)
proof (induction ws)
  case Nil
  then show ?case using assms(2) by simp
next
  case (Cons w ws)
  obtain c rest where r: "concat (map ((#) 0x20) ws) @ [e] = c # rest" and c: "is_whitespace [c]"
    using assms(2) is_whitespace_blank [of "0x20"] by (cases ws) auto
  have "split_on (\<lambda>b. is_whitespace [b]) (w @ c # rest) = w # split_on (\<lambda>b. is_whitespace [b]) rest"
    using Cons.prems plain_word_no_blank [of w] c by (simp add: split_on_append_sep split_on_no_sep)
  moreover have "filter (\<lambda>w. w \<noteq> []) (split_on (\<lambda>b. is_whitespace [b]) rest) = ws"
    using Cons r c by simp
  moreover have "w \<noteq> []" using Cons.prems by (simp add: plain_word_def)
  ultimately show ?case using r is_whitespace_blank [of "0x20"] by simp
qed

text \<open>A stat file as the kernel writes it: the fields after the command name are words of printable characters.\<close>

definition stat_text :: "bytes \<Rightarrow> bytes \<Rightarrow> bytes list \<Rightarrow> bytes" where
  "stat_text num comm flds = num @ ascii '' ('' @ comm @ RPAREN # concat (map ((#) 0x20) flds) @ [LF]"

definition stat_word :: "bytes \<Rightarrow> bool" where
  "stat_word w \<longleftrightarrow> plain_word w \<and> RPAREN \<notin> set w"

lemma stat_tail_of:
  assumes "RPAREN \<notin> set t" and "utf8_valid t"
  shows "stat_tail (a @ RPAREN # t) = Some t"
proof -
  have "rposition (\<lambda>b. b = RPAREN) (a @ RPAREN # t) = Some (length a)"
    using assms(1) by (intro rposition_last) (auto simp: list_all_iff)
  then show ?thesis using assms(2) by (simp add: stat_tail_def from_utf8_def)
qed

lemma stat_field_read:
  assumes "list_all stat_word flds"
  shows "stat_field (stat_text num comm flds) n = nth_opt flds n"
proof -
  let ?t = "concat (map ((#) 0x20) flds) @ [LF]"
  have p: "list_all plain_word flds" using assms by (auto simp: stat_word_def list_all_iff)
  have n: "RPAREN \<notin> set ?t" using assms by (auto simp: stat_word_def list_all_iff)
  have t: "ascii_text ?t"
    using p plain_word_ascii by (auto simp: ascii_text_def list_all_iff)
  have "stat_tail (stat_text num comm flds) = Some ?t"
    using stat_tail_of [OF n ascii_text_utf8 [OF t], of "num @ ascii '' ('' @ comm"] by (simp add: stat_text_def)
  moreover have "split_whitespace ?t = flds"
    using split_whitespace_ascii [OF t] split_on_words [OF p is_whitespace_blank, of LF] by simp
  ultimately show ?thesis by (simp add: stat_field_def)
qed

lemma stat_fields_read:
  assumes "list_all stat_word (st # show_uint pp # show_uint pg # mid @ show_uint start # rest)" and "length mid = 16"
    and "stat = stat_text num comm (st # show_uint pp # show_uint pg # mid @ show_uint start # rest)"
  shows "parse_state stat = Some (hd st) \<and> parse_ppid stat = Some pp \<and> parse_pgrp stat = Some pg
    \<and> parse_starttime_jiffies stat = Some start
    \<and> (running_from_stat stat t = Alive \<longleftrightarrow> t = start \<and> hd st \<notin> {0x5A, 0x58, 0x78})
    \<and> running_from_stat stat t \<noteq> Liveness_Unknown"
proof -
  note f = stat_field_read [OF assms(1), of num comm, folded assms(3)]
  have st: "nth_opt st 0 = Some (hd st)" using assms(1) by (auto simp: stat_word_def plain_word_def nth_opt_def hd_conv_nth)
  have "stat_field stat 0 = Some st" unfolding f by (simp add: nth_opt_def)
  then have "parse_state stat = Some (hd st)" using st by (simp add: parse_state_def)
  moreover have "parse_ppid stat = Some pp" "parse_pgrp stat = Some pg" by (simp_all add: parse_ppid_def parse_pgrp_def f nth_opt_def)
  moreover have "parse_starttime_jiffies stat = Some start"
    using assms(2) by (simp add: parse_starttime_jiffies_def f nth_opt_def nth_append)
  ultimately show ?thesis by (auto simp: running_from_stat_def)
qed

text \<open>A stat file is read the same whatever bytes the command name holds (parentheses, blanks, line feeds and broken UTF-8 included): the state,
  the parent, the process group and the start time are the third, fourth, fifth and twenty-second fields, and a process is running exactly when the start time is the expected one and the state is none of
  \<^verbatim>\<open>Z\<close>, \<^verbatim>\<open>X\<close> and \<^verbatim>\<open>x\<close>.\<close>

theorem stat_ignores_comm:
  assumes "list_all stat_word (st # show_uint pp # show_uint pg # mid @ show_uint start # rest)" and "length mid = 16"
    and "stat = stat_text num comm (st # show_uint pp # show_uint pg # mid @ show_uint start # rest)"
  shows "parse_state stat = Some (hd st) \<and> parse_ppid stat = Some pp \<and> parse_pgrp stat = Some pg
    \<and> parse_starttime_jiffies stat = Some start
    \<and> (running_from_stat stat t = Alive \<longleftrightarrow> t = start \<and> hd st \<notin> {0x5A, 0x58, 0x78})
    \<and> running_from_stat stat t \<noteq> Liveness_Unknown"
  using assms by (rule stat_fields_read)

theorem stat_ignores_comm_witness:
  "parse_state (stat_text (ascii ''7'') (ascii ''a) Z '' @ [0xFF]) (ascii ''S'' # show_uint (1 :: u32) # show_uint (7 :: u32) # replicate 16 (ascii ''0'') @ [show_uint (99 :: u64)]))
    = Some 0x53"
proof -
  have d: "list_all stat_word (ascii ''S'' # show_uint (1 :: u32) # show_uint (7 :: u32) # replicate 16 (ascii ''0'') @ show_uint (99 :: u64) # [])"
    by code_simp
  from stat_ignores_comm [OF d _ refl] show ?thesis by (simp add: of_char_def)
qed

end
