(* ===== verification/Identity_Linux.thy ===== *)
theory Identity_Linux
  imports Proc_Text Errors
begin

text \<open>
  Process identity on Linux: \<^verbatim>\<open>src/src/identity/linux.rs\<close>, \<^verbatim>\<open>identity/linux/proc_view.rs\<close>, \<^verbatim>\<open>identity/linux/pid_stat.rs\<close> and
  the process table of \<^verbatim>\<open>src/src/containment/enumerate/linux.rs\<close>. What the kernel answers is the record \<open>Kernel\<close>, which extends the trait of
  \<^verbatim>\<open>identity/linux/kernel.rs\<close> by the calls \<^verbatim>\<open>ProcDir\<close> makes itself. The texts of errors are not modelled.
\<close>

section \<open>The kernel\<close>

abbreviation EPERM :: i32 where "EPERM \<equiv> 1"
abbreviation ENOENT :: i32 where "ENOENT \<equiv> 2"
abbreviation ESRCH :: i32 where "ESRCH \<equiv> 3"
abbreviation EACCES :: i32 where "EACCES \<equiv> 13"
abbreviation EXDEV :: i32 where "EXDEV \<equiv> 18"
abbreviation ENOSYS :: i32 where "ENOSYS \<equiv> 38"
abbreviation ELOOP :: i32 where "ELOOP \<equiv> 40"

type_synonym ProcDir = u32

text \<open>\<open>k_openat2\<close> opens \<^verbatim>\<open>/proc\<close>, \<open>k_fstatfs\<close> and \<open>k_fstat\<close> give the type and the inode of what was opened; \<open>k_read\<close>,
  \<open>k_open_link\<close> and \<open>k_read_link\<close> work on a path beneath it; \<open>k_names\<close> lists it, an error instead of an entry included; \<open>k_signal_probe\<close> is
  \<^verbatim>\<open>kill(pid, 0)\<close>.\<close>

record Kernel =
  k_openat2 :: "i32 + ProcDir"
  k_fstatfs :: "ProcDir \<Rightarrow> i32 + u64"
  k_fstat :: "ProcDir \<Rightarrow> i32 + u64"
  k_read :: "ProcDir \<Rightarrow> bytes \<Rightarrow> IoError + bytes"
  k_open_link :: "ProcDir \<Rightarrow> bytes \<Rightarrow> i32 option"
  k_read_link :: "ProcDir \<Rightarrow> bytes \<Rightarrow> IoError + bytes"
  k_names :: "ProcDir \<Rightarrow> IoError + (IoError + bytes) list"
  k_signal_probe :: "i32 \<Rightarrow> i32 option"

section \<open>The view\<close>

record ViewUnreadable =
  vu_source :: "IoError option"
  openat2_refused :: "String.literal option"

definition view_unreadable :: "IoError option \<Rightarrow> ViewUnreadable" where
  "view_unreadable source = \<lparr>vu_source = source, openat2_refused = None\<rparr>"

definition from_open_errno :: "i32 \<Rightarrow> ViewUnreadable" where
  "from_open_errno errno = \<lparr>vu_source = Some (OsError errno),
     openat2_refused = (if errno = ENOSYS then Some (STR ''ENOSYS'') else if errno = EPERM then Some (STR ''EPERM'') else None)\<rparr>"

definition unsupported :: "ViewUnreadable \<Rightarrow> String.literal \<Rightarrow> Error option" where
  "unsupported why op = map_option (\<lambda>_. Unsupported op (STR ''linux'')) (openat2_refused why)"

definition PROC_SUPER_MAGIC :: u64 where "PROC_SUPER_MAGIC = 0x9FA0"

definition PROC_ROOT_INO :: u64 where "PROC_ROOT_INO = 1"

definition open_root :: "Kernel \<Rightarrow> ViewUnreadable + ProcDir" where
  "open_root k = (case k_openat2 k of
      Inl errno \<Rightarrow> Inl (from_open_errno errno)
    | Inr fd \<Rightarrow> (case k_fstatfs k fd of
          Inl e \<Rightarrow> Inl (view_unreadable (Some (OsError e)))
        | Inr f_type \<Rightarrow>
            if f_type \<noteq> PROC_SUPER_MAGIC then Inl (view_unreadable None)
            else (case k_fstat k fd of
                Inl e \<Rightarrow> Inl (view_unreadable (Some (OsError e)))
              | Inr ino \<Rightarrow> if ino \<noteq> PROC_ROOT_INO then Inl (view_unreadable None) else Inr fd)))"

definition utf8_text :: "bytes \<Rightarrow> IoError + bytes" where
  "utf8_text b = (case from_utf8 b of Some s \<Rightarrow> Inr s | None \<Rightarrow> Inl (KindError InvalidData))"

definition read_to_string :: "Kernel \<Rightarrow> ProcDir \<Rightarrow> bytes \<Rightarrow> IoError + bytes" where
  "read_to_string k dir path = (case k_read k dir path of Inl e \<Rightarrow> Inl e | Inr b \<Rightarrow> utf8_text b)"

definition link_exists :: "Kernel \<Rightarrow> ProcDir \<Rightarrow> bytes \<Rightarrow> IoError + bool" where
  "link_exists k dir path = (case k_open_link k dir path of
      None \<Rightarrow> Inr True
    | Some e \<Rightarrow> if e = ENOENT then Inr False else Inl (OsError e))"

datatype Verdict = Verdict_Same | NoNspid | Verdict_Diverged | Verdict_Unassessable ViewUnreadable

definition classify_status :: "bytes \<Rightarrow> IoError + bool \<Rightarrow> Verdict" where
  "classify_status status ns_pid_exists = (case find_line ''NSpid:'' status of
      None \<Rightarrow> (case ns_pid_exists of
          Inr False \<Rightarrow> Verdict_Same
        | Inr True \<Rightarrow> NoNspid
        | Inl e \<Rightarrow> Verdict_Unassessable (view_unreadable (Some e)))
    | Some line \<Rightarrow> (case length (split_whitespace line) of
          0 \<Rightarrow> Verdict_Unassessable (view_unreadable None)
        | Suc 0 \<Rightarrow> Verdict_Same
        | _ \<Rightarrow> Verdict_Diverged))"

definition is_pid_ns_link :: "bytes \<Rightarrow> bool" where
  "is_pid_ns_link target \<longleftrightarrow> take 5 target = ascii ''pid:['' \<and> target \<noteq> [] \<and> last target = 0x5D"

definition pid_ns_link :: "IoError + bytes \<Rightarrow> ViewUnreadable + bytes" where
  "pid_ns_link link = (case link of
      Inr target \<Rightarrow> if is_pid_ns_link target then Inr target else Inl (view_unreadable None)
    | Inl e \<Rightarrow> Inl (view_unreadable (Some e)))"

definition classify_ns_links :: "IoError + bytes \<Rightarrow> IoError + bytes \<Rightarrow> Verdict" where
  "classify_ns_links own init = (case pid_ns_link own of
      Inl why \<Rightarrow> Verdict_Unassessable why
    | Inr o' \<Rightarrow> (case pid_ns_link init of
          Inl why \<Rightarrow> Verdict_Unassessable why
        | Inr i \<Rightarrow> if o' = i then Verdict_Same else Verdict_Diverged))"

definition cross_check_with_init_ns :: "Kernel \<Rightarrow> ProcDir \<Rightarrow> Verdict" where
  "cross_check_with_init_ns k dir = classify_ns_links (k_read_link k dir (ascii ''thread-self/ns/pid'')) (k_read_link k dir (ascii ''1/ns/pid''))"

datatype ProcView = Same ProcDir | Diverged | View_Unassessable ViewUnreadable

definition into_dir :: "ProcView \<Rightarrow> ViewUnreadable + ProcDir" where
  "into_dir v = (case v of Same dir \<Rightarrow> Inr dir | Diverged \<Rightarrow> Inl (view_unreadable None) | View_Unassessable why \<Rightarrow> Inl why)"

definition proc_view_with :: "Kernel \<Rightarrow> ProcView" where
  "proc_view_with k = (case open_root k of
      Inl why \<Rightarrow> View_Unassessable why
    | Inr dir \<Rightarrow> (case read_to_string k dir (ascii ''self/status'') of
          Inl e \<Rightarrow> View_Unassessable (view_unreadable (Some e))
        | Inr status \<Rightarrow> (
            let decided = classify_status status (link_exists k dir (ascii ''self/ns/pid''));
                verdict = (if decided = NoNspid then cross_check_with_init_ns k dir else decided)
            in case verdict of
                Verdict_Same \<Rightarrow> Same dir
              | NoNspid \<Rightarrow> Same dir
              | Verdict_Diverged \<Rightarrow> Diverged
              | Verdict_Unassessable why \<Rightarrow> View_Unassessable why)))"

section \<open>A pidfd's target\<close>

datatype PidfdTarget = Pid u32 | Reaped

definition parse_fdinfo_pid :: "bytes \<Rightarrow> PidfdTarget option" where
  "parse_fdinfo_pid fdinfo = Option.bind (find_line ''Pid:'' fdinfo) (\<lambda>rest. Option.bind (parse_i64 (trim rest)) (\<lambda>p.
     if p = -1 then Some Reaped else if 0 \<le> p \<and> p < 2 ^ 32 then Some (Pid (of_int p)) else None))"

definition pidfd_target_in :: "Kernel \<Rightarrow> ProcDir \<Rightarrow> u32 \<Rightarrow> ViewUnreadable + PidfdTarget" where
  "pidfd_target_in k dir pidfd = (case read_to_string k dir (ascii ''thread-self/fdinfo/'' @ show_uint pidfd) of
      Inl e \<Rightarrow> Inl (view_unreadable (Some e))
    | Inr fdinfo \<Rightarrow> (case parse_fdinfo_pid fdinfo of Some t \<Rightarrow> Inr t | None \<Rightarrow> Inl (view_unreadable None)))"

section \<open>One pid\<close>

definition stat_path :: "RawPid \<Rightarrow> bytes" where
  "stat_path p = show_uint p @ ascii ''/stat''"

definition read_stat_file :: "Kernel \<Rightarrow> ProcDir \<Rightarrow> RawPid \<Rightarrow> IoError + bytes" where
  "read_stat_file k dir p = k_read k dir (stat_path p)"

definition signal_probe :: "Kernel \<Rightarrow> RawPid \<Rightarrow> SignalProbe" where
  "signal_probe k p = (case signal_target p of
      None \<Rightarrow> NotAPid
    | Some target \<Rightarrow> (case k_signal_probe k target of
          None \<Rightarrow> Signalable
        | Some e \<Rightarrow> if e = ESRCH then NoSuchProcess else Probe_Denied))"

definition resolve_unreadable :: "Kernel \<Rightarrow> RawPid \<Rightarrow> bytes Resolved" where
  "resolve_unreadable k p = (if classify_unreadable (signal_probe k p) = Resolved_Gone then Resolved_Gone else Resolved_Unknown)"

definition stat_by_pid :: "Kernel \<Rightarrow> ProcDir \<Rightarrow> RawPid \<Rightarrow> bytes Resolved" where
  "stat_by_pid k dir p = (case read_stat_file k dir p of Inr b \<Rightarrow> Found b | Inl _ \<Rightarrow> resolve_unreadable k p)"

definition read_stat_explained :: "Kernel \<Rightarrow> RawPid \<Rightarrow> bytes Resolved \<times> ViewUnreadable option" where
  "read_stat_explained k p = (case into_dir (proc_view_with k) of
      Inr dir \<Rightarrow> (stat_by_pid k dir p, None)
    | Inl why \<Rightarrow> (resolve_unreadable k p, Some why))"

definition read_stat :: "Kernel \<Rightarrow> RawPid \<Rightarrow> bytes Resolved" where
  "read_stat k p = fst (read_stat_explained k p)"

definition signal_says_no_such_process :: "Kernel \<Rightarrow> RawPid \<Rightarrow> bool" where
  "signal_says_no_such_process k p \<longleftrightarrow> signal_probe k p = NoSuchProcess"

definition start_token_from :: "bytes Resolved \<Rightarrow> u64 Resolved" where
  "start_token_from stat = (case stat of
      Found s \<Rightarrow> (case parse_starttime_jiffies s of Some j \<Rightarrow> Found j | None \<Rightarrow> Resolved_Unknown)
    | Resolved_Gone \<Rightarrow> Resolved_Gone
    | Resolved_Unknown \<Rightarrow> Resolved_Unknown)"

definition start_token_explained :: "Kernel \<Rightarrow> RawPid \<Rightarrow> u64 Resolved \<times> ViewUnreadable option" where
  "start_token_explained k p = (case read_stat_explained k p of (stat, cause) \<Rightarrow> (start_token_from stat, cause))"

definition start_token_in :: "Kernel \<Rightarrow> ProcDir \<Rightarrow> RawPid \<Rightarrow> u64 Resolved" where
  "start_token_in k dir p = start_token_from (stat_by_pid k dir p)"

definition liveness_of :: "bytes Resolved \<Rightarrow> u64 \<Rightarrow> Liveness" where
  "liveness_of stat start = (case stat of
      Found s \<Rightarrow> running_from_stat s start
    | Resolved_Gone \<Rightarrow> Dead
    | Resolved_Unknown \<Rightarrow> Liveness_Unknown)"

definition is_running :: "Kernel \<Rightarrow> RawPid \<Rightarrow> u64 \<Rightarrow> Liveness" where
  "is_running k p start = liveness_of (read_stat k p) start"

definition is_running_in :: "Kernel \<Rightarrow> ProcDir \<Rightarrow> RawPid \<Rightarrow> u64 \<Rightarrow> Liveness" where
  "is_running_in k dir p start = liveness_of (stat_by_pid k dir p) start"

text \<open>\<^verbatim>\<open>current_token\<close>, with what reading \<^verbatim>\<open>/proc/self/stat\<close> answered.\<close>

definition current_token :: "IoError + bytes \<Rightarrow> u64 Resolved" where
  "current_token own_stat = (case own_stat of Inr s \<Rightarrow> start_token_from (Found s) | Inl _ \<Rightarrow> Resolved_Unknown)"

definition view_error :: "String.literal \<Rightarrow> ViewUnreadable \<Rightarrow> Error" where
  "view_error subject why = (case unsupported why (STR ''identifying '' + subject) of Some e \<Rightarrow> e | None \<Rightarrow> Unassessable (vu_source why))"

text \<open>The operations of \<^verbatim>\<open>ProcessId\<close> over a kernel, from \<^verbatim>\<open>src/src/identity.rs\<close>.\<close>

definition of_with :: "Kernel \<Rightarrow> RawPid \<Rightarrow> ProcessId Resolved \<times> ViewUnreadable option" where
  "of_with k p = (case start_token_explained k p of (read, view) \<Rightarrow> (map_Resolved (\<lambda>t. \<lparr>pid = p, start_token = t\<rparr>) read, view))"

definition exists_with :: "Kernel \<Rightarrow> ProcessId \<Rightarrow> Existence \<times> ViewUnreadable option" where
  "exists_with k self = (case start_token_explained k (pid self) of (read, view) \<Rightarrow> (existence_from self read, view))"

definition is_alive_with :: "Kernel \<Rightarrow> ProcessId \<Rightarrow> Liveness" where
  "is_alive_with k self = is_running k (pid self) (start_token self)"

definition exists_in :: "Kernel \<Rightarrow> ProcDir \<Rightarrow> ProcessId \<Rightarrow> Existence" where
  "exists_in k dir self = existence_from self (start_token_in k dir (pid self))"

definition is_alive_in :: "Kernel \<Rightarrow> ProcDir \<Rightarrow> ProcessId \<Rightarrow> Liveness" where
  "is_alive_in k dir self = is_running_in k dir (pid self) (start_token self)"

definition into_error :: "String.literal \<Rightarrow> ViewUnreadable option \<Rightarrow> Error option" where
  "into_error subject cause = map_option (view_error subject) cause"

section \<open>The table of processes\<close>

datatype PidStat = Stat_Read bytes | Stat_Skipped IoError

datatype UnreadableKind = BeyondMount | DirectoryRefuses IoError | UnreadableOther

record Unreadable =
  ur_pid :: RawPid
  ur_kind :: UnreadableKind
  ur_source :: IoError

definition check_dir_answers :: "Kernel \<Rightarrow> ProcDir \<Rightarrow> IoError + unit" where
  "check_dir_answers k dir = (case k_read k dir (ascii ''self/stat'') of Inl e \<Rightarrow> Inl e | Inr _ \<Rightarrow> Inr ())"

definition read_in_scan :: "Kernel \<Rightarrow> ProcDir \<Rightarrow> RawPid \<Rightarrow> Unreadable + PidStat" where
  "read_in_scan k dir p = (case read_stat_file k dir p of
      Inr stat \<Rightarrow> Inr (Stat_Read stat)
    | Inl source \<Rightarrow> (
        let e = raw_os_error source;
            refuse = (\<lambda>kind. Inl \<lparr>ur_pid = p, ur_kind = kind, ur_source = source\<rparr>)
        in if e \<in> {Some ENOENT, Some ESRCH, Some EACCES} then Inr (Stat_Skipped source)
           else if e = Some EPERM then (case check_dir_answers k dir of
               Inr () \<Rightarrow> Inr (Stat_Skipped source)
             | Inl refusal \<Rightarrow> refuse (DirectoryRefuses refusal))
           else if e \<in> {Some EXDEV, Some ELOOP} then refuse BeyondMount
           else refuse UnreadableOther))"

fun collect_pids :: "(IoError + bytes) list \<Rightarrow> IoError + u32 list" where
  "collect_pids [] = Inr []"
| "collect_pids (Inl e # _) = Inl e"
| "collect_pids (Inr name # names) =
     (if name = [] \<or> \<not> list_all is_ascii_digit name then collect_pids names
      else (case parse_uint name of
          None \<Rightarrow> Inl (KindError InvalidData)
        | Some p \<Rightarrow> map_sum id (\<lambda>ps. p # ps) (collect_pids names)))"

definition proc_pids :: "Kernel \<Rightarrow> ProcDir \<Rightarrow> IoError + u32 list" where
  "proc_pids k dir = (case k_names k dir of Inl e \<Rightarrow> Inl e | Inr names \<Rightarrow> collect_pids names)"

definition ppid_of_stat :: "bytes \<Rightarrow> Error + RawPid" where
  "ppid_of_stat stat = (case parse_ppid stat of Some p \<Rightarrow> Inr p | None \<Rightarrow> Inl (Unassessable None))"

text \<open>The loop of \<^verbatim>\<open>process_parents\<close>: the kernel may answer differently at each entry, so its answers are given per position.\<close>

primrec scan_parents :: "(nat \<Rightarrow> Kernel) \<Rightarrow> ProcDir \<Rightarrow> nat \<Rightarrow> RawPid list \<Rightarrow> Error + (RawPid \<times> RawPid) list" where
  "scan_parents k dir i [] = Inr []"
| "scan_parents k dir i (p # ps) = (case read_in_scan (k i) dir p of
      Inl unreadable \<Rightarrow> Inl (Unassessable (Some (ur_source unreadable)))
    | Inr (Stat_Skipped _) \<Rightarrow> scan_parents k dir (Suc i) ps
    | Inr (Stat_Read stat) \<Rightarrow> (case ppid_of_stat stat of
          Inl e \<Rightarrow> Inl e
        | Inr pp \<Rightarrow> map_sum id (\<lambda>out. (p, pp) # out) (scan_parents k dir (Suc i) ps)))"

definition process_parents :: "Kernel \<Rightarrow> (nat \<Rightarrow> Kernel) \<Rightarrow> Error + (RawPid \<times> RawPid) list" where
  "process_parents k at = (case into_dir (proc_view_with k) of
      Inl why \<Rightarrow> Inl (case unsupported why (STR ''listing the process table'') of Some e \<Rightarrow> e | None \<Rightarrow> Unassessable (vu_source why))
    | Inr dir \<Rightarrow> (case proc_pids k dir of
          Inl e \<Rightarrow> Inl (Unassessable (Some e))
        | Inr ps \<Rightarrow> scan_parents at dir 0 ps))"

section \<open>Time\<close>

text \<open>\<^verbatim>\<open>clock_ticks_per_sec\<close> and \<^verbatim>\<open>boot_time_secs\<close>, with what \<^verbatim>\<open>sysconf\<close> and reading \<^verbatim>\<open>/proc/stat\<close> answered.\<close>

definition clock_ticks_per_sec :: "64 word \<Rightarrow> u64 option" where
  "clock_ticks_per_sec hz = (if 0 < sint hz then Some hz else None)"

definition boot_time_secs :: "bytes option \<Rightarrow> u64 option" where
  "boot_time_secs proc_stat = Option.bind (Option.bind proc_stat from_utf8) (\<lambda>text.
     Option.bind (find_line ''btime '' text) (\<lambda>v. parse_uint (trim v)))"

text \<open>\<^verbatim>\<open>created_at\<close>: the seconds and the nanoseconds of the duration since the epoch, in arithmetic that wraps.\<close>

definition created_at :: "64 word \<Rightarrow> bytes option \<Rightarrow> u64 \<Rightarrow> (u64 \<times> u32) option" where
  "created_at sysconf_hz proc_stat jiffies = Option.bind (clock_ticks_per_sec sysconf_hz) (\<lambda>hz.
     Option.bind (boot_time_secs proc_stat) (\<lambda>btime.
       Some (btime + jiffies div hz, ucast ((jiffies mod hz) * 1000000000 div hz))))"

section \<open>What the kernel is relied on for\<close>

text \<open>A process as the kernel knows it: what \<^verbatim>\<open>proc(5)\<close> prints about it.\<close>

record Process =
  e_comm :: bytes
  e_state :: bytes
  e_ppid :: RawPid
  e_pgrp :: RawPid
  e_between :: "bytes list"
  e_start :: u64
  e_rest :: "bytes list"

definition process_fields :: "Process \<Rightarrow> bytes list" where
  "process_fields e = e_state e # show_uint (e_ppid e) # show_uint (e_pgrp e) # e_between e @ show_uint (e_start e) # e_rest e"

definition well_printed :: "Process \<Rightarrow> bool" where
  "well_printed e \<longleftrightarrow> list_all stat_word (process_fields e) \<and> length (e_between e) = 16"

definition stat_of :: "RawPid \<Rightarrow> Process \<Rightarrow> bytes" where
  "stat_of p e = stat_text (show_uint p) (e_comm e) (process_fields e)"

definition finished :: "Process \<Rightarrow> bool" where
  "finished e \<longleftrightarrow> hd (e_state e) \<in> {0x5A, 0x58, 0x78}"

text \<open>The documented behaviour of Linux that the answers rest on, for the table of the processes in the caller's own pid namespace and for which \<^verbatim>\<open>/proc\<close> directories describe that namespace (\<open>own\<close>):
  \<^item> a \<^verbatim>\<open>/proc\<close> whose \<^verbatim>\<open>NSpid\<close> line has one entry, on a kernel with no pid namespaces, or whose pid 1 has the reader's own namespace link, describes the reader's namespace;
  \<^item> such a \<^verbatim>\<open>/proc\<close> prints the stat file of the process with the pid, when it prints one; any other may print anything;
  \<^item> \<^verbatim>\<open>kill(pid, 0)\<close> answers \<^verbatim>\<open>ESRCH\<close> only for a pid no process has, and a process has a positive pid.\<close>

definition honest_kernel :: "Kernel \<Rightarrow> (RawPid \<rightharpoonup> Process) \<Rightarrow> (ProcDir \<Rightarrow> bool) \<Rightarrow> bool" where
  "honest_kernel k tab own \<longleftrightarrow>
     (\<forall>d s l. k_read k d (ascii ''self/status'') = Inr s \<and> find_line ''NSpid:'' s = Some l \<and> length (split_whitespace l) = 1 \<longrightarrow> own d)
   \<and> (\<forall>d. k_open_link k d (ascii ''self/ns/pid'') = Some ENOENT \<longrightarrow> own d)
   \<and> (\<forall>d a. k_read_link k d (ascii ''thread-self/ns/pid'') = Inr a \<and> k_read_link k d (ascii ''1/ns/pid'') = Inr a \<and> is_pid_ns_link a \<longrightarrow> own d)
   \<and> (\<forall>d p b. own d \<and> k_read k d (stat_path p) = Inr b \<longrightarrow> (\<exists>e. tab p = Some e \<and> b = stat_of p e))
   \<and> (\<forall>t. k_signal_probe k t = Some ESRCH \<longrightarrow> tab t = None)
   \<and> (\<forall>p e. tab p = Some e \<longrightarrow> signal_target p \<noteq> None \<and> well_printed e)"

lemma honest_kernelD:
  assumes "honest_kernel k tab own"
  shows "k_read k d (ascii ''self/status'') = Inr s \<Longrightarrow> find_line ''NSpid:'' s = Some l \<Longrightarrow> length (split_whitespace l) = 1 \<Longrightarrow> own d"
    and "k_open_link k d (ascii ''self/ns/pid'') = Some ENOENT \<Longrightarrow> own d"
    and "k_read_link k d (ascii ''thread-self/ns/pid'') = Inr a \<Longrightarrow> k_read_link k d (ascii ''1/ns/pid'') = Inr a \<Longrightarrow> is_pid_ns_link a \<Longrightarrow> own d"
    and "own d \<Longrightarrow> k_read k d (stat_path p) = Inr b \<Longrightarrow> \<exists>e. tab p = Some e \<and> b = stat_of p e"
    and "k_signal_probe k t = Some ESRCH \<Longrightarrow> tab t = None"
    and "tab p = Some e \<Longrightarrow> signal_target p \<noteq> None"
    and "tab p = Some e \<Longrightarrow> well_printed e"
  using assms unfolding honest_kernel_def by blast+

lemma read_to_string_Inr: "read_to_string k d path = Inr s \<longleftrightarrow> k_read k d path = Inr s \<and> utf8_valid s"
  by (auto simp: read_to_string_def utf8_text_def from_utf8_def split: sum.splits)

lemma classify_status_Same:
  assumes "classify_status s x = Verdict_Same"
  shows "(\<exists>l. find_line ''NSpid:'' s = Some l \<and> length (split_whitespace l) = 1) \<or> x = Inr False"
  using assms by (auto simp: classify_status_def split: option.splits sum.splits bool.splits nat.splits)

lemma classify_ns_links_cases:
  "classify_ns_links a b \<noteq> NoNspid"
  "classify_ns_links a b = Verdict_Same \<Longrightarrow> \<exists>t. a = Inr t \<and> b = Inr t \<and> is_pid_ns_link t"
  by (auto simp: classify_ns_links_def pid_ns_link_def split: sum.splits if_splits)

lemma view_is_own:
  assumes "honest_kernel k tab own" and "into_dir (proc_view_with k) = Inr d"
  shows "own d"
proof -
  from assms(2) have "proc_view_with k = Same d" by (auto simp: into_dir_def split: ProcView.splits)
  then obtain s where s: "k_read k d (ascii ''self/status'') = Inr s"
    and v: "classify_status s (link_exists k d (ascii ''self/ns/pid'')) = Verdict_Same
      \<or> cross_check_with_init_ns k d \<in> {Verdict_Same, NoNspid}"
    by (auto simp: proc_view_with_def read_to_string_Inr Let_def split: sum.splits Verdict.splits if_splits)
  from v show ?thesis
  proof
    assume "classify_status s (link_exists k d (ascii ''self/ns/pid'')) = Verdict_Same"
    from classify_status_Same [OF this] show ?thesis
      using s honest_kernelD(1, 2) [OF assms(1)] by (auto simp: link_exists_def split: option.splits if_splits)
  next
    assume "cross_check_with_init_ns k d \<in> {Verdict_Same, NoNspid}"
    then show ?thesis
      using honest_kernelD(3) [OF assms(1), of d] classify_ns_links_cases unfolding cross_check_with_init_ns_def by blast
  qed
qed

lemma resolve_unreadable_honest:
  assumes "honest_kernel k tab own"
  shows "resolve_unreadable k p \<noteq> Found b" and "resolve_unreadable k p = Resolved_Gone \<Longrightarrow> tab p = None"
proof -
  show "resolve_unreadable k p \<noteq> Found b" by (simp add: resolve_unreadable_def)
  assume "resolve_unreadable k p = Resolved_Gone"
  then have "signal_probe k p \<in> {NoSuchProcess, NotAPid}"
    by (auto simp: resolve_unreadable_def classify_unreadable_def split: if_splits)
  then have "signal_target p = None \<or> k_signal_probe k p = Some ESRCH"
    by (auto simp: signal_probe_def signal_target_def split: option.splits if_splits)
  then show "tab p = None"
    using honest_kernelD(5) [OF assms, of p] honest_kernelD(6) [OF assms, of p] by (cases "tab p") auto
qed

lemma stat_by_pid_honest:
  assumes "honest_kernel k tab own" and "own d"
  shows "stat_by_pid k d p = Found b \<Longrightarrow> \<exists>e. tab p = Some e \<and> b = stat_of p e"
    and "stat_by_pid k d p = Resolved_Gone \<Longrightarrow> tab p = None"
  using resolve_unreadable_honest [OF assms(1)] honest_kernelD(4) [OF assms]
  by (auto simp: stat_by_pid_def read_stat_file_def split: sum.splits)

lemma read_stat_honest:
  assumes "honest_kernel k tab own"
  shows "read_stat k p = Found b \<Longrightarrow> \<exists>e. tab p = Some e \<and> b = stat_of p e"
    and "read_stat k p = Resolved_Gone \<Longrightarrow> tab p = None"
  using resolve_unreadable_honest [OF assms] stat_by_pid_honest [OF assms view_is_own [OF assms]]
  by (auto simp: read_stat_def read_stat_explained_def split: sum.splits)

lemma parse_stat_of:
  assumes "well_printed e"
  shows "parse_starttime_jiffies (stat_of p e) = Some (e_start e)" and "parse_ppid (stat_of p e) = Some (e_ppid e)"
    and "running_from_stat (stat_of p e) t = (if t = e_start e \<and> \<not> finished e then Alive else Dead)"
    and "parse_pgrp (stat_of p e) = Some (e_pgrp e)"
proof -
  note f = assms [unfolded well_printed_def process_fields_def]
  note c = stat_fields_read [OF f [THEN conjunct1] f [THEN conjunct2] refl, of "show_uint p" "e_comm e", folded process_fields_def stat_of_def]
  show "parse_starttime_jiffies (stat_of p e) = Some (e_start e)" "parse_ppid (stat_of p e) = Some (e_ppid e)" "parse_pgrp (stat_of p e) = Some (e_pgrp e)" using c by simp_all
  show "running_from_stat (stat_of p e) t = (if t = e_start e \<and> \<not> finished e then Alive else Dead)"
    using c by (auto simp: finished_def running_from_stat_def)
qed

text \<open>What the answers mean: \<open>live_as\<close> is the process with the pid and the start time, finished or not.\<close>

definition live_as :: "(RawPid \<rightharpoonup> Process) \<Rightarrow> ProcessId \<Rightarrow> Process \<Rightarrow> bool" where
  "live_as tab self e \<longleftrightarrow> tab (pid self) = Some e \<and> e_start e = start_token self"

lemma start_token_honest:
  assumes "honest_kernel k tab own"
  shows "fst (start_token_explained k p) = Found t \<Longrightarrow> \<exists>e. tab p = Some e \<and> e_start e = t"
    and "fst (start_token_explained k p) = Resolved_Gone \<Longrightarrow> tab p = None"
proof -
  have r: "fst (start_token_explained k p) = start_token_from (read_stat k p)"
    by (simp add: start_token_explained_def read_stat_def split: prod.splits)
  show "\<exists>e. tab p = Some e \<and> e_start e = t" if "fst (start_token_explained k p) = Found t"
  proof -
    from that r obtain b where b: "read_stat k p = Found b" "parse_starttime_jiffies b = Some t"
      by (auto simp: start_token_from_def split: Resolved.splits option.splits)
    from read_stat_honest(1) [OF assms b(1)] obtain e where e: "tab p = Some e" "b = stat_of p e" by blast
    with b(2) parse_stat_of(1) [OF honest_kernelD(7) [OF assms e(1)]] show ?thesis by auto
  qed
  show "tab p = None" if "fst (start_token_explained k p) = Resolved_Gone"
    using that r read_stat_honest(2) [OF assms] by (auto simp: start_token_from_def split: Resolved.splits option.splits)
qed

lemma is_alive_honest:
  assumes "honest_kernel k tab own"
  shows "is_alive_with k q = Alive \<Longrightarrow> \<exists>e. live_as tab q e \<and> \<not> finished e"
    and "is_alive_with k q = Dead \<Longrightarrow> live_as tab q e \<Longrightarrow> finished e"
proof -
  have a: "is_alive_with k q = liveness_of (read_stat k (pid q)) (start_token q)"
    by (simp add: is_alive_with_def is_running_def)
  have f: "\<exists>e. tab (pid q) = Some e \<and> is_alive_with k q = (if start_token q = e_start e \<and> \<not> finished e then Alive else Dead)"
    if "read_stat k (pid q) = Found b" for b
    using read_stat_honest(1) [OF assms that] that parse_stat_of(3) [OF honest_kernelD(7) [OF assms]]
    by (fastforce simp: a liveness_of_def)
  show "\<exists>e. live_as tab q e \<and> \<not> finished e" if "is_alive_with k q = Alive"
    using that f by (cases "read_stat k (pid q)") (auto simp: a liveness_of_def live_as_def split: if_splits)
  show "finished e" if "is_alive_with k q = Dead" "live_as tab q e"
    using that f read_stat_honest(2) [OF assms, of "pid q"]
    by (cases "read_stat k (pid q)") (auto simp: a liveness_of_def live_as_def split: if_splits)
qed

section \<open>The answers\<close>


text \<open>A kernel on which the hypotheses hold: pid 7 is a sleeping process whose command name imitates a stat line, pid 8 has no process.\<close>

definition demo_process :: Process where
  "demo_process = \<lparr>e_comm = ascii ''x) Z 1 1'', e_state = ascii ''S'', e_ppid = 1, e_pgrp = 7, e_between = replicate 16 (ascii ''0''), e_start = 99, e_rest = []\<rparr>"

definition demo_kernel :: Kernel where
  "demo_kernel = \<lparr>k_openat2 = Inr 3, k_fstatfs = (\<lambda>_. Inr 0x9FA0), k_fstat = (\<lambda>_. Inr 1),
     k_read = (\<lambda>d path. if path = ascii ''self/status'' then Inr (ascii ''NSpid: 5'') else if path = stat_path 7 then Inr (stat_of 7 demo_process) else Inl (OsError ENOENT)),
     k_open_link = (\<lambda>_ _. None), k_read_link = (\<lambda>_ _. Inl (OsError EACCES)), k_names = (\<lambda>_. Inr [Inr (ascii ''7''), Inr (ascii ''self'')]),
     k_signal_probe = (\<lambda>t. if t = 7 then None else Some ESRCH)\<rparr>"

lemma stat_path_inj: "stat_path p = stat_path q \<Longrightarrow> p = q"
  by (metis append_same_eq option.inject parse_show_uint stat_path_def)

lemma stat_path_digit: "stat_path p \<noteq> ascii ''self/status''"
proof
  assume "stat_path p = ascii ''self/status''"
  then have "hd (show_int (uint p)) = 0x73" using show_int_decimal [of "uint p"] by (cases "show_int (uint p)") (auto simp: stat_path_def show_uint_def of_char_def)
  moreover have "is_ascii_digit (hd (show_int (uint p)))" using show_int_decimal [of "uint p"] by (cases "show_int (uint p)") auto
  ultimately show False by (simp add: is_ascii_digit_def)
qed

lemma stat_paths: "stat_path p \<noteq> [115, 101, 108, 102, SLASH, 115, 116, 97, 116, 117, 115]" "stat_path p = stat_path q \<longleftrightarrow> p = q"
  using stat_path_digit [of p] stat_path_inj by auto

lemma demo_kernel_honest: "honest_kernel demo_kernel [7 \<mapsto> demo_process] (\<lambda>_. True)"
proof -
  have "well_printed demo_process" by code_simp
  moreover have "signal_target 7 \<noteq> None" by (simp add: signal_target_def)
  ultimately show ?thesis
    by (auto simp: honest_kernel_def demo_kernel_def stat_paths split: if_splits)
qed

lemma demo_view: "proc_view_with demo_kernel = Same 3"
  by code_simp

lemma demo_printed: "well_printed demo_process"
  by code_simp

lemma demo_reads: "read_stat_explained demo_kernel 7 = (Found (stat_of 7 demo_process), None)"
proof -
  have "k_read demo_kernel 3 (stat_path 7) = Inr (stat_of 7 demo_process)" by (simp add: demo_kernel_def stat_paths)
  then show ?thesis by (simp add: read_stat_explained_def demo_view into_dir_def stat_by_pid_def read_stat_file_def)
qed


section \<open>The snapshot\<close>

text \<open>Why an entry may be left out of a scan.\<close>

definition absent_for_us :: "Kernel \<Rightarrow> ProcDir \<Rightarrow> RawPid \<Rightarrow> bool" where
  "absent_for_us k d p \<longleftrightarrow> (\<exists>err. k_read k d (stat_path p) = Inl (OsError err)
     \<and> (err \<in> {ENOENT, ESRCH, EACCES} \<or> err = EPERM \<and> (\<exists>b. k_read k d (ascii ''self/stat'') = Inr b)))"

lemma read_in_scan_Skipped: "read_in_scan k d p = Inr (Stat_Skipped e) \<Longrightarrow> absent_for_us k d p"
  by (cases e) (auto simp: read_in_scan_def absent_for_us_def read_stat_file_def raw_os_error_def check_dir_answers_def Let_def
      split: sum.splits if_splits IoError.splits)

lemma read_in_scan_Read: "read_in_scan k d p = Inr (Stat_Read s) \<longleftrightarrow> k_read k d (stat_path p) = Inr s"
  by (auto simp: read_in_scan_def read_stat_file_def check_dir_answers_def Let_def split: sum.splits if_splits unit.splits)

lemma map_sum_Inr: "map_sum f g x = Inr y \<longleftrightarrow> (\<exists>z. x = Inr z \<and> y = g z)"
  by (cases x) auto

lemma scan_parents_Cons:
  assumes "scan_parents k d i (p # ps) = Inr out"
  obtains s pp out' where "k_read (k i) d (stat_path p) = Inr s" "parse_ppid s = Some pp" "out = (p, pp) # out'" "scan_parents k d (Suc i) ps = Inr out'"
  | "absent_for_us (k i) d p" "scan_parents k d (Suc i) ps = Inr out"
proof (cases "read_in_scan (k i) d p")
  case (Inr st)
  show ?thesis
  proof (cases st)
    case (Stat_Read s)
    with Inr assms that(1) [of s] show ?thesis
      by (auto simp: ppid_of_stat_def map_sum_Inr split: option.splits) (use Inr in \<open>simp add: read_in_scan_Read\<close>)
  next
    case (Stat_Skipped e)
    with Inr assms that(2) read_in_scan_Skipped show ?thesis by simp
  qed
qed (use assms in simp)

lemma scan_parents_entries:
  assumes "scan_parents k d i ps = Inr out" and "j < length ps"
  shows "(\<exists>s pp. k_read (k (i + j)) d (stat_path (ps ! j)) = Inr s \<and> parse_ppid s = Some pp \<and> (ps ! j, pp) \<in> set out)
    \<or> absent_for_us (k (i + j)) d (ps ! j)"
  using assms
proof (induction ps arbitrary: i j out)
  case (Cons p ps)
  show ?case using Cons.prems(1)
  proof (cases rule: scan_parents_Cons)
    case (1 s pp out')
    with Cons.IH [OF 1(4), of "j - 1"] Cons.prems(2) show ?thesis by (cases j) auto
  next
    case 2
    with Cons.IH [OF 2(2), of "j - 1"] Cons.prems(2) show ?thesis by (cases j) auto
  qed
qed simp

lemma scan_parents_sound:
  assumes "scan_parents k d i ps = Inr out" and "(p, pp) \<in> set out"
  shows "\<exists>j s. k_read (k j) d (stat_path p) = Inr s \<and> parse_ppid s = Some pp"
  using assms
proof (induction ps arbitrary: i out)
  case (Cons a ps)
  show ?case using Cons.prems(1)
  proof (cases rule: scan_parents_Cons)
    case (1 s q out')
    with Cons.IH [OF 1(4)] Cons.prems(2) show ?thesis by auto
  next
    case 2
    with Cons.IH [OF 2(2)] Cons.prems(2) show ?thesis by auto
  qed
qed simp

text \<open>A snapshot of the process table is the table: a row names a process and its parent, and a listed process has its row, unless at its turn the kernel answered
  that it is not there (\<^verbatim>\<open>ENOENT\<close>, \<^verbatim>\<open>ESRCH\<close>), or hid it (\<^verbatim>\<open>EACCES\<close>, or \<^verbatim>\<open>EPERM\<close> from a \<^verbatim>\<open>/proc\<close> that still answers). A process is never left out for any other failure.\<close>

theorem snapshot_is_the_table:
  assumes "process_parents k at = Inr out" and "into_dir (proc_view_with k) = Inr d" and "proc_pids k d = Inr ps"
    and "honest_kernel k tab own" and "\<forall>i. honest_kernel (at i) tab own"
  shows "(\<forall>p pp. (p, pp) \<in> set out \<longrightarrow> (\<exists>e. tab p = Some e \<and> e_ppid e = pp))
    \<and> (\<forall>i e. i < length ps \<and> tab (ps ! i) = Some e \<longrightarrow> (ps ! i, e_ppid e) \<in> set out \<or> absent_for_us (at i) d (ps ! i))"
proof -
  have s: "scan_parents at d 0 ps = Inr out" using assms(1-3) by (simp add: process_parents_def)
  have own: "own d" by (rule view_is_own [OF assms(4, 2)])
  have row: "tab p = Some e \<and> e_ppid e = pp"
    if "k_read (at j) d (stat_path p) = Inr b" "parse_ppid b = Some pp" "tab p = Some e \<or> \<not> (\<exists>e. tab p = Some e \<and> e_ppid e = pp)" for j p b pp e
  proof -
    from honest_kernelD(4) [OF spec [OF assms(5)] own that(1)] obtain e' where e': "tab p = Some e'" "b = stat_of p e'" by blast
    with parse_stat_of(2) [OF honest_kernelD(7) [OF assms(4) e'(1)], of p] that(2,3) show ?thesis by auto
  qed
  show ?thesis
  proof (intro conjI allI impI)
    fix p pp
    assume "(p, pp) \<in> set out"
    from scan_parents_sound [OF s this] row show "\<exists>e. tab p = Some e \<and> e_ppid e = pp" by meson
  next
    fix i e
    assume i: "i < length ps \<and> tab (ps ! i) = Some e"
    with scan_parents_entries [OF s, of i] row [of i "ps ! i" _ _ e]
    show "(ps ! i, e_ppid e) \<in> set out \<or> absent_for_us (at i) d (ps ! i)" by auto
  qed
qed

theorem snapshot_is_the_table_witness:
  "process_parents demo_kernel (\<lambda>_. demo_kernel) = Inr [(7, 1)] \<and> (\<exists>e. ([7 \<mapsto> demo_process] :: RawPid \<rightharpoonup> Process) 7 = Some e \<and> e_ppid e = 1)"
proof -
  have l: "proc_pids demo_kernel 3 = Inr [7]" by code_simp
  have "k_read demo_kernel 3 (stat_path 7) = Inr (stat_of 7 demo_process)" by (simp add: demo_kernel_def stat_paths)
  then have r: "read_in_scan demo_kernel 3 7 = Inr (Stat_Read (stat_of 7 demo_process))" by (simp add: read_in_scan_Read)
  have v: "into_dir (proc_view_with demo_kernel) = Inr 3" by (simp add: demo_view into_dir_def)
  have p: "process_parents demo_kernel (\<lambda>_. demo_kernel) = Inr [(7, 1)]"
    using parse_stat_of(2) [OF demo_printed, of 7]
    by (simp add: process_parents_def v l r ppid_of_stat_def) (simp add: demo_process_def)
  from snapshot_is_the_table [OF p v l demo_kernel_honest] demo_kernel_honest p show ?thesis by auto
qed

section \<open>The wall clock\<close>

text \<open>A creation time is what the jiffies say, to the nanosecond below, wherever the arithmetic does not wrap.\<close>

lemma int_div_less:
  fixes x :: int
  assumes "x < c * h" and "0 < h"
  shows "x div h < c"
proof (rule ccontr)
  assume "\<not> x div h < c"
  then have "c * h \<le> x div h * h" using assms(2) by (intro mult_right_mono) auto
  also have "\<dots> = x - x mod h" by (simp add: minus_mod_eq_div_mult)
  finally show False using assms pos_mod_sign [of h x] by linarith
qed

lemma created_at_accurate:
  assumes "created_at hz proc_stat j = Some (secs, nanos)" and "boot_time_secs proc_stat = Some btime"
    and "uint hz < 2 ^ 32" and "uint btime + uint j div uint hz < 2 ^ 64"
  shows "uint nanos < 1000000000"
    and "(uint secs - uint btime) * 1000000000 + uint nanos = uint j * 1000000000 div uint hz"
proof -
  have h: "0 < sint hz" and s: "secs = btime + j div hz" and n: "nanos = ucast ((j mod hz) * 1000000000 div hz)"
    using assms(1,2) by (auto simp: created_at_def clock_ticks_per_sec_def split: if_splits)
  from h have pos: "0 < uint hz" by (metis order_less_le order_less_irrefl sint_0 uint_0_iff unsigned_greater_eq)
  let ?h = "uint hz" and ?j = "uint j"
  have m: "0 \<le> ?j mod ?h" "?j mod ?h < ?h" using pos by simp_all
  then have "(?j mod ?h) * 1000000000 < 2 ^ 64" using assms(3) by simp
  then have mm: "uint ((j mod hz) * 1000000000) = (?j mod ?h) * 1000000000"
    using m by (simp add: uint_word_ariths uint_mod)
  have "(?j mod ?h) * 1000000000 < 1000000000 * ?h" using m(2) by simp
  then have q: "(?j mod ?h) * 1000000000 div ?h < 1000000000"
    using pos by (rule int_div_less)
  have q0: "0 \<le> (?j mod ?h) * 1000000000 div ?h" using m pos by (simp add: pos_imp_zdiv_nonneg_iff)
  have n': "uint nanos = (?j mod ?h) * 1000000000 div ?h"
    using q q0 by (simp add: n unsigned_ucast_eq uint_div mm take_bit_int_eq_self)
  with q show "uint nanos < 1000000000" by simp
  have s': "uint secs = uint btime + ?j div ?h"
    using assms(4) pos by (simp add: s uint_word_ariths uint_div pos_imp_zdiv_nonneg_iff)
  have split: "x * 1000000000 div h = x div h * 1000000000 + (x mod h) * 1000000000 div h" if "0 < h" for x h :: int
  proof -
    have "(q * h + r) * 1000000000 = r * 1000000000 + (q * 1000000000) * h" for q r :: int
      by (simp add: distrib_right)
    from this [of "x div h" "x mod h"] have "x * 1000000000 = (x mod h) * 1000000000 + (x div h * 1000000000) * h"
      by (simp only: div_mult_mod_eq)
    then show ?thesis using that div_mult_self1 [of h "(x mod h) * 1000000000" "x div h * 1000000000"] by (simp add: add.commute)
  qed
  from split [OF pos, of ?j]
  s' n' show "(uint secs - uint btime) * 1000000000 + uint nanos = ?j * 1000000000 div ?h" by simp
qed

end
