(* ===== verification/Group_Kill.thy ===== *)
theory Group_Kill
  imports Effects Teardown Identity_Linux
begin

text \<open>
  Signalling a process group on Linux: \<^verbatim>\<open>src/src/containment/group_root.rs\<close>, \<^verbatim>\<open>containment/unix.rs\<close>, \<^verbatim>\<open>containment/unix/group.rs\<close> and
  \<^verbatim>\<open>open_verified\<close> of \<^verbatim>\<open>src/src/os_process/linux/open.rs\<close>. The calls are made in the monad of \<open>Effects\<close>, so that the log says what was read and sent, in
  which order, and what was answered.
\<close>

section \<open>The calls\<close>

abbreviation EINVAL :: i32 where "EINVAL \<equiv> 22"
abbreviation ENODEV :: i32 where "ENODEV \<equiv> 19"
abbreviation SIGKILL :: i32 where "SIGKILL \<equiv> 9"
abbreviation SIGTERM :: i32 where "SIGTERM \<equiv> 15"

text \<open>\<open>gs_read\<close> gives what \<^verbatim>\<open>/proc\<close> and \<^verbatim>\<open>kill(pid, 0)\<close> answer to the reads of one question; \<open>gs_peek\<close> is the peek through the root's own handle. A descriptor's
number names a pidfd; the flag of \<open>gs_pidfd_send\<close> is \<^verbatim>\<open>PIDFD_SIGNAL_PROCESS_GROUP\<close>.\<close>

record 'k GroupSys =
  gs_read :: "'k \<Rightarrow> Kernel \<times> 'k"
  gs_peek :: "'k \<Rightarrow> (Error + PeekOutcome) \<times> 'k"
  gs_pidfd_open :: "RawPid \<Rightarrow> ('k, u32) call"
  gs_pidfd_send :: "u32 \<Rightarrow> i32 \<Rightarrow> bool \<Rightarrow> ('k, unit) call"
  gs_killpg :: "i32 \<Rightarrow> i32 \<Rightarrow> ('k, unit) call"
  gs_kill :: "i32 \<Rightarrow> i32 \<Rightarrow> ('k, unit) call"

record Member =
  m_pid :: RawPid
  m_token :: u64
  m_system :: bool

definition member_id :: "Member \<Rightarrow> ProcessId" where
  "member_id m = \<lparr>pid = m_pid m, start_token = m_token m\<rparr>"

text \<open>A call and its answer.\<close>

datatype Ev =
    Probed_Group "i32 + unit"
  | Peeked RootState
  | Root_Named "ProcessId Resolved"
  | Group_By_Pidfd i32 "i32 + unit"
  | Group_By_Number i32 i32 "i32 + unit"
  | Leader_By_Pidfd i32 "i32 + unit"
  | Leader_By_Number i32 i32 "i32 + unit"
  | Listed "IoError + Member list"
  | Lives ProcessId Liveness
  | Pid_Named RawPid "ProcessId Resolved"
  | Opened ProcessId "Error + u32 option"
  | Member_By_Pidfd u32 "i32 + unit"
  | Member_By_Number i32 i32 "i32 + unit"

type_synonym ('k, 'a) geff = "('k, Ev, 'a) eff"

text \<open>A question put to \<open>gs_read\<close>.\<close>

definition asked :: "'k GroupSys \<Rightarrow> (Kernel \<Rightarrow> 'a) \<Rightarrow> 'k \<Rightarrow> 'a \<times> 'k" where
  "asked S f k = (case gs_read S k of (K, k') \<Rightarrow> (f K, k'))"

section \<open>Opening a process\<close>

definition refusal_name :: "i32 \<Rightarrow> String.literal option" where
  "refusal_name e =
     (if e = ENOSYS then Some (STR ''ENOSYS'') else if e = EPERM then Some (STR ''EPERM'') else if e = EACCES then Some (STR ''EACCES'')
      else if e = ENODEV then Some (STR ''ENODEV'') else None)"

definition OP_NAME :: String.literal where "OP_NAME = STR ''process open''"

definition pidfd_open_unsupported :: "String.literal \<Rightarrow> Error" where
  "pidfd_open_unsupported op = Unsupported op (STR ''linux'')"

definition spawn_open_error :: "i32 \<Rightarrow> Error" where
  "spawn_open_error e = (case refusal_name e of Some _ \<Rightarrow> pidfd_open_unsupported (STR ''spawn'') | None \<Rightarrow> IoContext (OsError e))"

definition open_unassessable :: "IoError option \<Rightarrow> i32 option \<Rightarrow> Error" where
  "open_unassessable source pidfd_errno = Unassessable (case source of Some e \<Rightarrow> Some e | None \<Rightarrow> map_option OsError pidfd_errno)"

definition open_view_unreadable :: "ViewUnreadable \<Rightarrow> i32 option \<Rightarrow> Error" where
  "open_view_unreadable why pidfd_errno = (case unsupported why OP_NAME of Some e \<Rightarrow> e | None \<Rightarrow> open_unassessable (vu_source why) pidfd_errno)"

definition verify_without_pidfd :: "Kernel \<Rightarrow> ProcessId \<Rightarrow> i32 \<Rightarrow> Error + u32 option" where
  "verify_without_pidfd K self errno =
     (if signal_says_no_such_process K (pid self) then Inr None
      else (case proc_view_with K of
          Same dir \<Rightarrow> (case exists_in K dir self of
              Existence_Gone \<Rightarrow> Inr None
            | Present \<Rightarrow> (case is_alive_in K dir self of
                  Dead \<Rightarrow> Inr None
                | Alive \<Rightarrow> Inl (NotThreadGroupLeader (pid self) (OsError errno))
                | Liveness_Unknown \<Rightarrow> Inl (open_unassessable None (Some errno)))
            | Existence_Unknown \<Rightarrow> Inl (open_unassessable None (Some errno)))
        | Diverged \<Rightarrow> Inl (open_unassessable None (Some errno))
        | View_Unassessable why \<Rightarrow> Inl (open_view_unreadable why (Some errno))))"

definition verify_pidfd_target :: "Kernel \<Rightarrow> ProcessId \<Rightarrow> u32 \<Rightarrow> Error + u32 option" where
  "verify_pidfd_target K self pidfd = (case open_root K of
      Inl why \<Rightarrow> Inl (open_view_unreadable why None)
    | Inr dir \<Rightarrow> (case pidfd_target_in K dir pidfd of
          Inl why \<Rightarrow> Inl (open_unassessable (vu_source why) None)
        | Inr Reaped \<Rightarrow> Inr None
        | Inr (Pid p) \<Rightarrow>
            if p \<noteq> pid self then Inl (open_unassessable None None)
            else (case exists_in K dir self of
                Present \<Rightarrow> Inr (Some pidfd)
              | Existence_Gone \<Rightarrow> Inr None
              | Existence_Unknown \<Rightarrow> Inl (open_unassessable None None))))"

definition open_verified :: "'k GroupSys \<Rightarrow> ProcessId \<Rightarrow> 'k \<Rightarrow> (Error + u32 option) \<times> 'k" where
  "open_verified S self k = (case gs_pidfd_open S (pid self) k of
      (Inr pidfd, k') \<Rightarrow> asked S (\<lambda>K. verify_pidfd_target K self pidfd) k'
    | (Inl e, k') \<Rightarrow>
        if e = ESRCH then (Inr None, k')
        else if e = EINVAL \<or> e = ENOENT then asked S (\<lambda>K. verify_without_pidfd K self e) k'
        else (Inl (case refusal_name e of Some _ \<Rightarrow> pidfd_open_unsupported OP_NAME | None \<Rightarrow> IoContext (OsError e)), k'))"

section \<open>The members of a group\<close>

text \<open>The loop of \<^verbatim>\<open>members\<close>: a pid whose stat is absent or hidden, of another group, or that does not parse, is left out; any other failed read ends it.\<close>

definition member_of_stat :: "i32 \<Rightarrow> RawPid \<Rightarrow> bytes \<Rightarrow> Member option" where
  "member_of_stat pgid p stat = (case parse_pgrp stat of
      None \<Rightarrow> None
    | Some g \<Rightarrow> if g \<noteq> pgid then None
        else map_option (\<lambda>t. \<lparr>m_pid = p, m_token = t, m_system = False\<rparr>) (parse_starttime_jiffies stat))"

primrec scan_members :: "'k GroupSys \<Rightarrow> ProcDir \<Rightarrow> i32 \<Rightarrow> RawPid list \<Rightarrow> 'k \<Rightarrow> (IoError + Member list) \<times> 'k" where
  "scan_members S dir pgid [] k = (Inr [], k)"
| "scan_members S dir pgid (p # ps) k = (case asked S (\<lambda>K. read_in_scan K dir p) k of
      (Inl _, k') \<Rightarrow> (Inl (KindError OtherKind), k')
    | (Inr (Stat_Skipped _), k') \<Rightarrow> scan_members S dir pgid ps k'
    | (Inr (Stat_Read stat), k') \<Rightarrow> (case scan_members S dir pgid ps k' of
          (rest, k'') \<Rightarrow> (case member_of_stat pgid p stat of None \<Rightarrow> rest | Some m \<Rightarrow> map_sum id (\<lambda>ms. m # ms) rest, k'')))"

definition listing :: "Kernel \<Rightarrow> IoError + ProcDir \<times> RawPid list" where
  "listing K = (case into_dir (proc_view_with K) of
      Inl why \<Rightarrow> Inl (KindError (if openat2_refused why \<noteq> None then UnsupportedKind else OtherKind))
    | Inr dir \<Rightarrow> map_sum id (\<lambda>ps. (dir, ps)) (proc_pids K dir))"

definition members :: "'k GroupSys \<Rightarrow> i32 \<Rightarrow> 'k \<Rightarrow> (IoError + Member list) \<times> 'k" where
  "members S pgid k = (case asked S listing k of
      (Inl e, k') \<Rightarrow> (Inl e, k')
    | (Inr (dir, ps), k') \<Rightarrow> scan_members S dir pgid ps k')"

section \<open>The root of a group\<close>

text \<open>\<open>ReapHold\<close>: the child's guarded state, read under its lock, and its pid.\<close>

record ReapHold =
  rh_pid :: RawPid
  rh_state :: State

record GroupRoot =
  gr_pidfd :: "u32 option"
  gr_hold :: "ReapHold option"

definition root_none :: GroupRoot where
  "root_none = \<lparr>gr_pidfd = None, gr_hold = None\<rparr>"

datatype NotItsGroup = Group_Empty | Unproven

definition held_state :: "'k GroupSys \<Rightarrow> ReapHold \<Rightarrow> ('k, RootState) geff" where
  "held_state S h = call Peeked (\<lambda>k. case rh_state h of
      St_E _ \<Rightarrow> (state_locked (rh_state h) (Inr Peek_Running), k)
    | _ \<Rightarrow> (case gs_peek S k of (p, k') \<Rightarrow> (state_locked (rh_state h) p, k')))"

definition root_identity_now :: "'k GroupSys \<Rightarrow> RawPid \<Rightarrow> ('k, ProcessId Resolved) geff" where
  "root_identity_now S p = call Root_Named (asked S (\<lambda>K. fst (of_with K p)))"

definition group_number_holds :: "'k GroupSys \<Rightarrow> RawPid \<Rightarrow> RootState \<Rightarrow> ('k, NotItsGroup + unit) geff" where
  "group_number_holds S p st = (
     if st = Unreaped then State_Monad.return (Inr ())
     else if st = Root_Reaped True then do {
       now \<leftarrow> root_identity_now S p;
       State_Monad.return (if now = Resolved_Gone then Inr () else Inl Unproven)
     }
     else State_Monad.return (Inl Unproven))"

definition pidfd_group_has_member :: "'k GroupSys \<Rightarrow> u32 \<Rightarrow> ('k, bool option) geff" where
  "pidfd_group_has_member S fd = do {
     ans \<leftarrow> call Probed_Group (gs_pidfd_send S fd 0 True);
     State_Monad.return (case ans of Inr _ \<Rightarrow> Some True | Inl e \<Rightarrow> if e = ESRCH then Some False else None)
   }"

definition has_member :: "'k GroupSys \<Rightarrow> GroupRoot \<Rightarrow> ('k, bool option) geff" where
  "has_member S root = (case gr_pidfd root of None \<Rightarrow> State_Monad.return None | Some fd \<Rightarrow> pidfd_group_has_member S fd)"

definition root_check :: "'k GroupSys \<Rightarrow> GroupRoot \<Rightarrow> ('k, NotItsGroup + unit) geff" where
  "root_check S root = do {
     m \<leftarrow> has_member S root;
     if m = Some True then State_Monad.return (Inr ())
     else if m = Some False then State_Monad.return (Inl Group_Empty)
     else (case gr_hold root of
         None \<Rightarrow> State_Monad.return (Inl Unproven)
       | Some h \<Rightarrow> do { st \<leftarrow> held_state S h; group_number_holds S (rh_pid h) st })
   }"

section \<open>The sends\<close>

text \<open>\<^verbatim>\<open>send_to_group\<close>: the outer sum is the call's error, the inner one the kernel's answer.\<close>

definition send_by_number :: "'k GroupSys \<Rightarrow> i32 \<Rightarrow> i32 \<Rightarrow> GroupRoot \<Rightarrow> ('k, Error + (i32 + unit)) geff" where
  "send_by_number S pgid signal root = do {
     ok \<leftarrow> root_check S root;
     case ok of
       Inl _ \<Rightarrow> State_Monad.return (Inl (Unassessable None))
     | Inr _ \<Rightarrow> do { ans \<leftarrow> call (Group_By_Number pgid signal) (gs_killpg S pgid signal); State_Monad.return (Inr ans) }
   }"

definition send_to_group :: "'k GroupSys \<Rightarrow> i32 \<Rightarrow> i32 \<Rightarrow> GroupRoot \<Rightarrow> ('k, Error + (i32 + unit)) geff" where
  "send_to_group S pgid signal root = (case gr_pidfd root of
      None \<Rightarrow> send_by_number S pgid signal root
    | Some fd \<Rightarrow> do {
        ans \<leftarrow> call (Group_By_Pidfd signal) (gs_pidfd_send S fd signal True);
        if ans = Inl EINVAL then send_by_number S pgid signal root else State_Monad.return (Inr ans)
      })"

text \<open>\<^verbatim>\<open>signal_direct\<close>, whose result its only caller discards.\<close>

definition signal_direct :: "'k GroupSys \<Rightarrow> i32 \<Rightarrow> i32 \<Rightarrow> GroupRoot \<Rightarrow> ('k, unit) geff" where
  "signal_direct S p signal root = (case gr_pidfd root of
      Some fd \<Rightarrow> do { ans \<leftarrow> call (Leader_By_Pidfd signal) (gs_pidfd_send S fd signal False); State_Monad.return () }
    | None \<Rightarrow> do {
        ok \<leftarrow> root_check S root;
        case ok of
          Inl _ \<Rightarrow> State_Monad.return ()
        | Inr _ \<Rightarrow> do { ans \<leftarrow> call (Leader_By_Number p signal) (gs_kill S p signal); State_Monad.return () }
      })"

section \<open>One pass over the members\<close>

datatype Reached = Reached_Yes | Reached_No | Reached_Unknown

datatype MemberOutcome = NotASurvivor | Survivor RawPid | Member_Unassessable RawPid

datatype GroupState = Cleared | Refused "RawPid list" "RawPid list" | Unlistable "IoError option"

definition classify_member :: "RawPid \<Rightarrow> Liveness \<Rightarrow> ('k, Reached) geff \<Rightarrow> ('k, MemberOutcome) geff" where
  "classify_member p liveness reached = (
     if liveness = Dead then State_Monad.return NotASurvivor
     else do {
       r \<leftarrow> reached;
       State_Monad.return (case r of Reached_Yes \<Rightarrow> NotASurvivor | Reached_No \<Rightarrow> Survivor p | Reached_Unknown \<Rightarrow> Member_Unassessable p)
     })"

definition reached_by :: "i32 + unit \<Rightarrow> Reached" where
  "reached_by ans = (case ans of
      Inr _ \<Rightarrow> Reached_Yes
    | Inl e \<Rightarrow> if e = ESRCH then Reached_Yes else if e = EPERM then Reached_No else Reached_Unknown)"

definition root_check_before_send :: "'k GroupSys \<Rightarrow> GroupRoot \<Rightarrow> ('k, Reached + unit) geff" where
  "root_check_before_send S root = do {
     ok \<leftarrow> root_check S root;
     State_Monad.return (map_sum (\<lambda>why. if why = Group_Empty then Reached_Yes else Reached_Unknown) id ok)
   }"

text \<open>\<^verbatim>\<open>check_or_signal\<close>; \<open>signal = None\<close> is the probe.\<close>

definition check_or_signal :: "'k GroupSys \<Rightarrow> RawPid \<Rightarrow> ProcessId \<Rightarrow> i32 option \<Rightarrow> GroupRoot \<Rightarrow> ('k, Reached) geff" where
  "check_or_signal S p self signal root = do {
     ok \<leftarrow> root_check_before_send S root;
     case ok of
       Inl reached \<Rightarrow> State_Monad.return reached
     | Inr _ \<Rightarrow> do {
         now \<leftarrow> call (Pid_Named p) (asked S (\<lambda>K. fst (of_with K p)));
         if now = Resolved_Unknown then State_Monad.return Reached_Unknown
         else if now \<noteq> Found self then State_Monad.return Reached_Yes
         else (case signal_target p of
             None \<Rightarrow> State_Monad.return Reached_Unknown
           | Some t \<Rightarrow> do {
               ans \<leftarrow> call (Member_By_Number t (case signal of Some s \<Rightarrow> s | None \<Rightarrow> 0)) (gs_kill S t (case signal of Some s \<Rightarrow> s | None \<Rightarrow> 0));
               State_Monad.return (reached_by ans)
             })
       }
   }"

definition falls_back :: "Error \<Rightarrow> bool" where
  "falls_back e = (case e of Unsupported _ _ \<Rightarrow> True | Io _ \<Rightarrow> True | IoKind _ \<Rightarrow> True | IoContext _ \<Rightarrow> True | _ \<Rightarrow> False)"

definition check_or_signal_linux_sigkill :: "'k GroupSys \<Rightarrow> RawPid \<Rightarrow> ProcessId \<Rightarrow> GroupRoot \<Rightarrow> ('k, Reached) geff" where
  "check_or_signal_linux_sigkill S p self root = do {
     opened \<leftarrow> call (Opened self) (open_verified S self);
     case opened of
       Inl e \<Rightarrow> if falls_back e then check_or_signal S p self (Some SIGKILL) root else State_Monad.return Reached_Unknown
     | Inr None \<Rightarrow> State_Monad.return Reached_Yes
     | Inr (Some fd) \<Rightarrow> do {
         ok \<leftarrow> root_check_before_send S root;
         case ok of
           Inl reached \<Rightarrow> State_Monad.return reached
         | Inr _ \<Rightarrow> do { ans \<leftarrow> call (Member_By_Pidfd fd) (gs_pidfd_send S fd SIGKILL False); State_Monad.return (reached_by ans) }
       }
   }"

definition reconfirm_survivor :: "MemberOutcome \<Rightarrow> ('k, Liveness) geff \<Rightarrow> ('k, MemberOutcome) geff" where
  "reconfirm_survivor outcome recheck = (case outcome of
      Survivor p \<Rightarrow> do { l \<leftarrow> recheck; State_Monad.return (if l = Dead then NotASurvivor else Survivor p) }
    | _ \<Rightarrow> State_Monad.return outcome)"

definition excluded_from_sigkill_resend :: "RawPid \<Rightarrow> bool \<Rightarrow> bool" where
  "excluded_from_sigkill_resend p system \<longleftrightarrow> p = 1 \<or> system"

definition lives :: "'k GroupSys \<Rightarrow> ProcessId \<Rightarrow> ('k, Liveness) geff" where
  "lives S self = call (Lives self) (asked S (\<lambda>K. is_alive_with K self))"

definition visit_member :: "'k GroupSys \<Rightarrow> i32 \<Rightarrow> GroupRoot \<Rightarrow> Member \<Rightarrow> ('k, MemberOutcome) geff" where
  "visit_member S signal root m = do {
     l \<leftarrow> lives S (member_id m);
     outcome \<leftarrow> classify_member (m_pid m) l
       (if signal = SIGKILL \<and> excluded_from_sigkill_resend (m_pid m) (m_system m) then State_Monad.return Reached_Unknown
        else if signal = SIGKILL then check_or_signal_linux_sigkill S (m_pid m) (member_id m) root
        else check_or_signal S (m_pid m) (member_id m) None root);
     reconfirm_survivor outcome (lives S (member_id m))
   }"

definition count_outcome :: "MemberOutcome \<Rightarrow> RawPid list \<times> RawPid list \<Rightarrow> RawPid list \<times> RawPid list" where
  "count_outcome outcome acc = (case acc of (rs, us) \<Rightarrow> (case outcome of
      NotASurvivor \<Rightarrow> (rs, us)
    | Survivor p \<Rightarrow> (rs @ [p], us)
    | Member_Unassessable p \<Rightarrow> (rs, us @ [p])))"

primrec visit_members :: "'k GroupSys \<Rightarrow> i32 \<Rightarrow> GroupRoot \<Rightarrow> Member list \<Rightarrow> RawPid list \<times> RawPid list \<Rightarrow> ('k, RawPid list \<times> RawPid list) geff" where
  "visit_members S signal root [] acc = State_Monad.return acc"
| "visit_members S signal root (m # ms) acc = do {
     outcome \<leftarrow> visit_member S signal root m;
     visit_members S signal root ms (count_outcome outcome acc)
   }"

definition decide_group :: "RawPid list \<times> RawPid list \<Rightarrow> GroupState" where
  "decide_group acc = (case acc of (rs, us) \<Rightarrow>
     if rs \<noteq> [] then Refused rs us
     else if us \<noteq> [] then Unlistable None
     else Cleared)"

definition converge :: "'k GroupSys \<Rightarrow> i32 \<Rightarrow> i32 \<Rightarrow> GroupRoot \<Rightarrow> ('k, IoError + GroupState) geff" where
  "converge S pgid signal root = do {
     listed \<leftarrow> call Listed (members S pgid);
     case listed of
       Inl e \<Rightarrow> State_Monad.return (Inl e)
     | Inr ms \<Rightarrow> do { acc \<leftarrow> visit_members S signal root ms ([], []); State_Monad.return (Inr (decide_group acc)) }
   }"

definition group_state :: "'k GroupSys \<Rightarrow> i32 \<Rightarrow> i32 \<Rightarrow> GroupRoot \<Rightarrow> ('k, GroupState) geff" where
  "group_state S pgid signal root = do {
     r \<leftarrow> converge S pgid signal root;
     State_Monad.return (case r of Inr gs \<Rightarrow> gs | Inl e \<Rightarrow> Unlistable (Some e))
   }"

definition verify_error :: "GroupState \<Rightarrow> Error + unit" where
  "verify_error gs = (case gs of
      Cleared \<Rightarrow> Inr ()
    | Refused _ _ \<Rightarrow> Inl Containment
    | Unlistable source \<Rightarrow> Inl (if source \<in> {Some (KindError UnsupportedKind), Some (OsError ENOSYS)} then Unsupported (STR ''listing process group'') (STR ''linux'') else Unassessable source))"

definition verify_group :: "'k GroupSys \<Rightarrow> i32 \<Rightarrow> i32 \<Rightarrow> GroupRoot \<Rightarrow> ('k, Error + unit) geff" where
  "verify_group S pgid signal root = do { gs \<leftarrow> group_state S pgid signal root; State_Monad.return (verify_error gs) }"

definition signal_group :: "'k GroupSys \<Rightarrow> i32 \<Rightarrow> i32 \<Rightarrow> GroupRoot \<Rightarrow> ('k, Error + unit) geff" where
  "signal_group S pgid signal root = (
     if sint pgid \<le> 0 then State_Monad.return (Inl (Unassessable None))
     else do {
       sent \<leftarrow> send_to_group S pgid signal root;
       case sent of
         Inl e \<Rightarrow> State_Monad.return (Inl e)
       | Inr (Inr _) \<Rightarrow> verify_group S pgid signal root
       | Inr (Inl e) \<Rightarrow>
           if e = ESRCH then verify_group S pgid signal root
           else if e = EPERM then do { signal_direct S pgid signal root; verify_group S pgid signal root }
           else State_Monad.return (Inl (Io e))
     })"

definition kill_group :: "'k GroupSys \<Rightarrow> i32 \<Rightarrow> GroupRoot \<Rightarrow> ('k, Error + unit) geff" where
  "kill_group S pgid root = signal_group S pgid SIGKILL root"

definition term_group :: "'k GroupSys \<Rightarrow> i32 \<Rightarrow> GroupRoot \<Rightarrow> ('k, Error + unit) geff" where
  "term_group S pgid root = signal_group S pgid SIGTERM root"

section \<open>The log of a run\<close>

lemmas log_rules = log.keeps_rules call_extends

lemma root_check_extends: "keeps extends (root_check S root)"
  unfolding root_check_def has_member_def pidfd_group_has_member_def held_state_def group_number_holds_def root_identity_now_def
  by (intro log_rules)

lemma check_or_signal_extends: "keeps extends (check_or_signal S p i s root)"
  unfolding check_or_signal_def root_check_before_send_def by (intro log_rules root_check_extends)

lemma visit_member_extends: "keeps extends (visit_member S s root m)"
proof -
  have "keeps extends (check_or_signal_linux_sigkill S p i root)" for p i
    unfolding check_or_signal_linux_sigkill_def root_check_before_send_def by (intro log_rules check_or_signal_extends root_check_extends)
  moreover have "keeps extends (reconfirm_survivor out (lives S i))" for out i
    unfolding reconfirm_survivor_def lives_def by (cases out) (simp_all add: log_rules)
  ultimately show ?thesis
    unfolding visit_member_def classify_member_def lives_def [of S "member_id m"]
    by (intro log_rules check_or_signal_extends) (simp_all add: lives_def)
qed

section \<open>Sends that are vouched for\<close>

text \<open>The newest entries of the log show that the number is still the group's: the root's pidfd named a member, or the root is an unreaped child, or this handle
reaped it and no process has its pid.\<close>

fun vouches :: "Ev list \<Rightarrow> bool" where
  "vouches (Probed_Group (Inr _) # _) = True"
| "vouches (Peeked Unreaped # _) = True"
| "vouches (Root_Named Resolved_Gone # Peeked (Root_Reaped True) # _) = True"
| "vouches _ = False"

fun is_check :: "Ev \<Rightarrow> bool" where
  "is_check (Probed_Group _) = True"
| "is_check (Peeked _) = True"
| "is_check (Root_Named _) = True"
| "is_check _ = False"

definition listed_in :: "Ev list \<Rightarrow> ProcessId \<Rightarrow> bool" where
  "listed_in l i \<longleftrightarrow> (\<exists>ms. Listed (Inr ms) \<in> set l \<and> i \<in> member_id ` set ms)"

text \<open>A send by the group's number or the leader's comes right after such a check; a send by a member's pid right after a read that found the listed identity at the
pid, and that after such a check; a send by a member's pidfd right after such a check, and that after the pidfd was opened for a listed identity. A member is never sent
a signal that is not \<^verbatim>\<open>SIGKILL\<close>, only probed.\<close>

primrec vouched :: "i32 \<Rightarrow> i32 \<Rightarrow> Ev list \<Rightarrow> bool" where
  "vouched pgid s [] = True"
| "vouched pgid s (e # l) = (vouched pgid s l \<and> (case e of
      Group_By_Pidfd t _ \<Rightarrow> t = s
    | Leader_By_Pidfd t _ \<Rightarrow> t = s
    | Group_By_Number p t _ \<Rightarrow> vouches l \<and> p = pgid \<and> t = s
    | Leader_By_Number p t _ \<Rightarrow> vouches l \<and> p = pgid \<and> t = s
    | Member_By_Number p t _ \<Rightarrow> (case l of
          Pid_Named q (Found i) # l' \<Rightarrow> vouches l' \<and> p = q \<and> pid i = q \<and> listed_in l' i \<and> t = (if s = SIGKILL then SIGKILL else 0)
        | _ \<Rightarrow> False)
    | Member_By_Pidfd fd _ \<Rightarrow> s = SIGKILL \<and> vouches l \<and>
        (case dropWhile is_check l of Opened i (Inr (Some fd')) # l' \<Rightarrow> fd' = fd \<and> listed_in l' i | _ \<Rightarrow> False)
    | _ \<Rightarrow> True))"

lemma vouched_checks: "list_all is_check cs \<Longrightarrow> vouched pgid s (cs @ l) = vouched pgid s l"
proof (induction cs)
  case (Cons e cs)
  then show ?case by (cases e) auto
qed simp

lemma dropWhile_checks: "list_all is_check cs \<Longrightarrow> dropWhile is_check (cs @ l) = dropWhile is_check l"
  by (induction cs) auto

lemma root_check_logs:
  "wp (root_check S root) (\<lambda>r w'. (\<exists>cs. list_all is_check cs \<and> w_log w' = cs @ w_log w) \<and> (r = Inr () \<longrightarrow> vouches (w_log w'))) w"
  by (auto simp: root_check_def has_member_def pidfd_group_has_member_def held_state_def group_number_holds_def root_identity_now_def wp_simps
      split: option.splits sum.splits if_splits)

lemma listed_in_append: "listed_in l i \<Longrightarrow> listed_in (es @ l) i"
  by (auto simp: listed_in_def)

text \<open>A check, then a computation that sends on its strength.\<close>

lemma root_check_then:
  assumes "\<And>cs r w'. list_all is_check cs \<Longrightarrow> w_log w' = cs @ w_log w \<Longrightarrow> (r = Inr () \<Longrightarrow> vouches (w_log w')) \<Longrightarrow> Q r w'"
  shows "wp (root_check S root) Q w"
  by (rule wp_mono [OF root_check_logs]) (use assms in blast)

lemma check_or_signal_vouched:
  assumes "vouched pgid s (w_log w)" and "listed_in (w_log w) self" and "pid self = p" and "signal = (if s = SIGKILL then Some SIGKILL else None)"
  shows "wp (check_or_signal S p self signal root) (\<lambda>_ w'. vouched pgid s (w_log w')) w"
  unfolding check_or_signal_def root_check_before_send_def wp_bind
proof (rule root_check_then, goal_cases)
  case (1 cs r w')
  then have "vouched pgid s (w_log w')" "listed_in (w_log w') self" using assms(1, 2) by (simp_all add: vouched_checks listed_in_append)
  with 1(3) assms(3, 4) show ?case by (cases r) (auto simp: wp_simps signal_target_def split: option.splits)
qed

lemma sigkill_vouched:
  assumes "vouched pgid SIGKILL (w_log w)" and "listed_in (w_log w) self" and "pid self = p"
  shows "wp (check_or_signal_linux_sigkill S p self root) (\<lambda>_ w'. vouched pgid SIGKILL (w_log w')) w"
proof -
  define r where "r = fst (open_verified S self (w_kernel w))"
  define w1 where "w1 = \<lparr>w_kernel = snd (open_verified S self (w_kernel w)), w_log = Opened self r # w_log w\<rparr>"
  have w1: "vouched pgid SIGKILL (w_log w1)" "listed_in (w_log w1) self" using assms(1, 2) by (simp_all add: w1_def listed_in_def)
  have fd: "wp (root_check_before_send S root) (\<lambda>ok. wp (case ok of Inl reached \<Rightarrow> State_Monad.return reached
      | Inr _ \<Rightarrow> State_Monad.bind (call (Member_By_Pidfd fd) (gs_pidfd_send S fd SIGKILL False)) (\<lambda>ans. State_Monad.return (reached_by ans)))
      (\<lambda>_ w'. vouched pgid SIGKILL (w_log w'))) w1" if "r = Inr (Some fd)" for fd
    unfolding root_check_before_send_def wp_bind
  proof (rule root_check_then, goal_cases)
    case (1 cs r' w')
    then have "vouched pgid SIGKILL (w_log w')" "dropWhile is_check (w_log w') = w_log w1" using w1(1) by (simp_all add: vouched_checks dropWhile_checks w1_def)
    with 1(3) assms(2) that show ?case by (cases r') (auto simp: wp_simps w1_def)
  qed
  show ?thesis
    unfolding check_or_signal_linux_sigkill_def wp_bind wp_call r_def [symmetric] w1_def [symmetric]
    using w1 fd check_or_signal_vouched [of pgid SIGKILL w1 self p "Some SIGKILL" S root] assms(3)
    by (auto simp: wp_simps split: sum.splits option.splits)
qed

lemma wp_lives: "wp (lives S i) Q w = wp (call (Lives i) (asked S (\<lambda>K. is_alive_with K i))) Q w"
  by (simp add: lives_def)

text \<open>The parts of a visit that send nothing.\<close>

lemma classify_member_sends_nothing: "Q w \<Longrightarrow> wp act (\<lambda>_. Q) w \<Longrightarrow> wp (classify_member p l act) (\<lambda>_. Q) w"
  by (simp add: classify_member_def wp_simps)

lemma reconfirm_sends_nothing:
  assumes "Q w" and "\<And>l. Q \<lparr>w_kernel = snd (asked S (\<lambda>K. is_alive_with K i) (w_kernel w)), w_log = Lives i l # w_log w\<rparr>"
  shows "wp (reconfirm_survivor out (lives S i)) (\<lambda>_. Q) w"
  using assms by (auto simp: reconfirm_survivor_def wp_lives wp_simps split: MemberOutcome.splits)

lemma visit_member_vouched:
  assumes "vouched pgid s (w_log w)" and "listed_in (w_log w) (member_id m)"
  shows "wp (visit_member S s root m) (\<lambda>_ w'. vouched pgid s (w_log w')) w"
  unfolding visit_member_def wp_bind wp_lives wp_call
proof (rule wp_mono [OF classify_member_sends_nothing [of "\<lambda>w'. vouched pgid s (w_log w')"]])
  let ?w = "\<lparr>w_kernel = snd (asked S (\<lambda>K. is_alive_with K (member_id m)) (w_kernel w)),
    w_log = Lives (member_id m) (fst (asked S (\<lambda>K. is_alive_with K (member_id m)) (w_kernel w))) # w_log w\<rparr>"
  have p: "pid (member_id m) = m_pid m" by (simp add: member_id_def)
  have l: "listed_in (e # w_log w) (member_id m)" for e using listed_in_append [OF assms(2), of "[e]"] by simp
  show "wp (if s = SIGKILL \<and> excluded_from_sigkill_resend (m_pid m) (m_system m) then State_Monad.return Reached_Unknown
      else if s = SIGKILL then check_or_signal_linux_sigkill S (m_pid m) (member_id m) root
      else check_or_signal S (m_pid m) (member_id m) None root) (\<lambda>_ w'. vouched pgid s (w_log w')) ?w"
    using assms(1) l p by (cases "s = SIGKILL") (simp_all add: wp_if wp_return check_or_signal_vouched sigkill_vouched)
qed (use assms(1) in \<open>auto intro!: reconfirm_sends_nothing\<close>)

lemma visit_members_vouched:
  assumes "vouched pgid s (w_log w)" and "Listed (Inr all) \<in> set (w_log w)" and "set ms \<subseteq> set all"
  shows "wp (visit_members S s root ms acc) (\<lambda>_ w'. vouched pgid s (w_log w')) w"
  using assms
proof (induction ms arbitrary: acc w)
  case (Cons m ms)
  have l: "listed_in (w_log w) (member_id m)" using Cons.prems by (auto simp: listed_in_def)
  have "wp (visit_member S s root m) (\<lambda>_ w'. vouched pgid s (w_log w') \<and> extends w w') w"
    by (rule wp_conj [OF visit_member_vouched [OF Cons.prems(1) l] keeps_wp [OF visit_member_extends]])
  then show ?case
    by (auto simp: wp_bind elim!: wp_mono intro!: Cons.IH dest: extends_set [OF _ Cons.prems(2)] simp: subsetD [OF Cons.prems(3)])
qed (simp add: wp_return)

lemma verify_group_vouched:
  assumes "vouched pgid s (w_log w)"
  shows "wp (verify_group S pgid s root) (\<lambda>_ w'. vouched pgid s (w_log w')) w"
proof -
  have "wp (visit_members S s root ms ([], [])) (\<lambda>_ w'. vouched pgid s (w_log w')) \<lparr>w_kernel = k, w_log = Listed (Inr ms) # w_log w\<rparr>" for ms k
    by (rule visit_members_vouched [of _ _ _ ms]) (use assms in simp_all)
  then show ?thesis using assms
    by (simp add: verify_group_def group_state_def converge_def wp_bind wp_call wp_return wp_sum split: sum.splits)
qed

lemma send_by_number_vouched:
  assumes "vouched pgid s (w_log w)"
  shows "wp (send_by_number S pgid s root) (\<lambda>_ w'. vouched pgid s (w_log w')) w"
  unfolding send_by_number_def wp_bind
proof (rule root_check_then, goal_cases)
  case (1 cs r w')
  with assms show ?case by (cases r) (auto simp: wp_simps vouched_checks)
qed

lemma send_to_group_vouched:
  assumes "vouched pgid s (w_log w)"
  shows "wp (send_to_group S pgid s root) (\<lambda>_ w'. vouched pgid s (w_log w')) w"
  using assms by (auto simp: send_to_group_def wp_simps split: option.splits intro!: send_by_number_vouched)

lemma signal_direct_vouched:
  assumes "vouched pgid s (w_log w)"
  shows "wp (signal_direct S pgid s root) (\<lambda>_ w'. vouched pgid s (w_log w')) w"
proof (cases "gr_pidfd root")
  case None
  show ?thesis unfolding signal_direct_def None option.case wp_bind
  proof (rule root_check_then, goal_cases)
    case (1 cs r w')
    with assms show ?case by (cases r) (auto simp: wp_simps vouched_checks)
  qed
qed (use assms in \<open>simp add: signal_direct_def wp_simps\<close>)

lemma signal_group_vouched:
  assumes "vouched pgid s (w_log w)"
  shows "wp (signal_group S pgid s root) (\<lambda>_ w'. vouched pgid s (w_log w')) w"
  using assms
  by (auto simp: signal_group_def wp_bind wp_if wp_return wp_sum split: sum.splits
      intro!: wp_mono [OF send_to_group_vouched] wp_mono [OF signal_direct_vouched] verify_group_vouched)

section \<open>What the kernel documents\<close>

text \<open>\<open>ps_known k i\<close>: a process with the identity \<open>i\<close> has been there by \<open>k\<close>; \<open>ps_down\<close>: it is gone or finished, or a \<^verbatim>\<open>SIGKILL\<close> it was sent is pending, which nothing takes
back; \<open>ps_names k fd i\<close>: the pidfd \<open>fd\<close> was opened on it; \<open>ps_empty\<close>: the root's group has no member, and so gains none;
\<open>ps_own d\<close>: the opened \<^verbatim>\<open>/proc\<close> \<open>d\<close> describes the caller's pid namespace.\<close>

record 'k Processes =
  ps_known :: "'k \<Rightarrow> ProcessId \<Rightarrow> bool"
  ps_down :: "'k \<Rightarrow> ProcessId \<Rightarrow> bool"
  ps_names :: "'k \<Rightarrow> u32 \<Rightarrow> ProcessId \<Rightarrow> bool"
  ps_empty :: "'k \<Rightarrow> bool"
  ps_own :: "ProcDir \<Rightarrow> bool"

definition later :: "'k Processes \<Rightarrow> 'k \<Rightarrow> 'k \<Rightarrow> bool" where
  "later P k k' \<longleftrightarrow> (\<forall>i. (ps_known P k i \<longrightarrow> ps_known P k' i) \<and> (ps_down P k i \<longrightarrow> ps_down P k' i) \<and> (\<forall>fd. ps_names P k fd i \<longrightarrow> ps_names P k' fd i))
     \<and> (ps_empty P k \<longrightarrow> ps_empty P k')"

text \<open>The reads of one question see one table of processes, that of the state they end in: the processes in it are known, and one that is known and not running in it is down.
The \<^verbatim>\<open>fdinfo\<close> of a pidfd says when its process was reaped, and a \<^verbatim>\<open>/proc\<close> in which the pidfd's process has the number \<open>p\<close> prints that process's stat for \<open>p\<close>.\<close>

definition shown :: "'k Processes \<Rightarrow> 'k \<Rightarrow> Kernel \<Rightarrow> (RawPid \<rightharpoonup> Process) \<Rightarrow> bool" where
  "shown P k K tab \<longleftrightarrow>
     (\<forall>i e. live_as tab i e \<longrightarrow> ps_known P k i)
   \<and> (\<forall>i. ps_known P k i \<and> \<not> (\<exists>e. live_as tab i e \<and> \<not> finished e) \<longrightarrow> ps_down P k i)
   \<and> (\<forall>d fd i. ps_names P k fd i \<and> pidfd_target_in K d fd = Inr Reaped \<longrightarrow> ps_down P k i)
   \<and> (\<forall>d fd i b. ps_names P k fd i \<and> pidfd_target_in K d fd = Inr (Pid (pid i)) \<and> k_read K d (stat_path (pid i)) = Inr b \<longrightarrow>
        (\<exists>e. well_printed e \<and> b = stat_of (pid i) e \<and> e_start e = start_token i))"

definition reads_documented :: "'k GroupSys \<Rightarrow> 'k Processes \<Rightarrow> bool" where
  "reads_documented S P \<longleftrightarrow> (\<forall>k K k'. gs_read S k = (K, k') \<longrightarrow> later P k k' \<and> (\<exists>tab. honest_kernel K tab (ps_own P) \<and> shown P k' K tab))"

text \<open>A pidfd opened by a number is the process's that has it, so a known process with that number is that one or no more; and a \<^verbatim>\<open>SIGKILL\<close> that was accepted, or found no
process, leaves the process with the number, or behind the pidfd, down.\<close>

definition calls_documented :: "'k GroupSys \<Rightarrow> GroupRoot \<Rightarrow> 'k Processes \<Rightarrow> bool" where
  "calls_documented S root P \<longleftrightarrow>
     (\<forall>k r k'. gs_peek S k = (r, k') \<longrightarrow> later P k k')
   \<and> (\<forall>p k r k'. gs_pidfd_open S p k = (r, k') \<longrightarrow> later P k k' \<and> (\<forall>i. ps_known P k i \<and> pid i = p \<longrightarrow>
        (case r of Inr fd \<Rightarrow> ps_names P k' fd i \<or> ps_down P k' i | Inl e \<Rightarrow> e = ESRCH \<longrightarrow> ps_down P k' i)))
   \<and> (\<forall>fd s g k r k'. gs_pidfd_send S fd s g k = (r, k') \<longrightarrow> later P k k'
        \<and> (s = SIGKILL \<and> \<not> g \<and> r \<in> {Inr (), Inl ESRCH} \<longrightarrow> (\<forall>i. ps_names P k fd i \<longrightarrow> ps_down P k' i))
        \<and> (gr_pidfd root = Some fd \<and> s = 0 \<and> g \<and> r = Inl ESRCH \<longrightarrow> ps_empty P k'))
   \<and> (\<forall>p s k r k'. gs_killpg S p s k = (r, k') \<longrightarrow> later P k k')
   \<and> (\<forall>t s k r k'. gs_kill S t s k = (r, k') \<longrightarrow> later P k k'
        \<and> (s = SIGKILL \<and> r \<in> {Inr (), Inl ESRCH} \<longrightarrow> (\<forall>i. ps_known P k i \<and> pid i = t \<longrightarrow> ps_down P k' i)))"

abbreviation after :: "'k Processes \<Rightarrow> ('k, Ev) Machine \<Rightarrow> ('k, Ev) Machine \<Rightarrow> bool" where
  "after P w w' \<equiv> later P (w_kernel w) (w_kernel w')"

interpretation after: run_order "after P" for P
  by unfold_locales (auto simp: later_def)

lemma laterD:
  assumes "later P k k'"
  shows "ps_known P k i \<Longrightarrow> ps_known P k' i" and "ps_down P k i \<Longrightarrow> ps_down P k' i" and "ps_names P k fd i \<Longrightarrow> ps_names P k' fd i" and "ps_empty P k \<Longrightarrow> ps_empty P k'"
  using assms by (auto simp: later_def)

lemma later_trans: "later P k k' \<Longrightarrow> later P k' k'' \<Longrightarrow> later P k k''"
  by (auto simp: later_def)

lemma readsE:
  assumes "reads_documented S P" and "asked S f k = (r, k')"
  obtains K tab where "r = f K" "later P k k'" "honest_kernel K tab (ps_own P)" "shown P k' K tab"
proof -
  obtain K where K: "gs_read S k = (K, k')" "r = f K" using assms(2) by (auto simp: asked_def split: prod.splits)
  with assms(1) obtain tab where "later P k k'" "honest_kernel K tab (ps_own P)" "shown P k' K tab" unfolding reads_documented_def by blast
  with K(2) show thesis by (rule that)
qed

lemma shown_down: "shown P k K tab \<Longrightarrow> ps_known P k i \<Longrightarrow> (\<And>e. live_as tab i e \<Longrightarrow> finished e) \<Longrightarrow> ps_down P k i"
  by (auto simp: shown_def)

lemma asked_later: "reads_documented S P \<Longrightarrow> asked S f k = (r, k') \<Longrightarrow> later P k k'"
  by (erule readsE)

lemma asked_dead:
  assumes "reads_documented S P" and "asked S (\<lambda>K. is_alive_with K i) k = (Dead, k')" and "ps_known P k i"
  shows "ps_down P k' i"
  using assms(1, 2)
proof (rule readsE)
  fix K tab
  assume h: "Dead = is_alive_with K i" "later P k k'" "honest_kernel K tab (ps_own P)" "shown P k' K tab"
  show ?thesis by (rule shown_down [OF h(4) laterD(1) [OF h(2) assms(3)] is_alive_honest(2) [OF h(3) h(1) [symmetric]]])
qed

lemma asked_name:
  assumes "reads_documented S P" and "asked S (\<lambda>K. fst (of_with K (pid i))) k = (r, k')" and "ps_known P k i" and "r \<noteq> Resolved_Unknown" and "r \<noteq> Found i"
  shows "ps_down P k' i"
  using assms(1, 2)
proof (rule readsE)
  fix K tab
  assume h: "r = fst (of_with K (pid i))" "later P k k'" "honest_kernel K tab (ps_own P)" "shown P k' K tab"
  have r: "r = map_Resolved (\<lambda>t. \<lparr>pid = pid i, start_token = t\<rparr>) (fst (start_token_explained K (pid i)))"
    by (simp add: h(1) of_with_def split: prod.splits)
  have "\<not> live_as tab i e" for e
    using r assms(4, 5) start_token_honest [OF h(3), of "pid i"] by (cases "fst (start_token_explained K (pid i))") (auto simp: live_as_def)
  then show ?thesis by (intro shown_down [OF h(4) laterD(1) [OF h(2) assms(3)]]) blast
qed

lemma stat_by_pid_shows:
  assumes "honest_kernel K tab own" and "own d"
  shows "exists_in K d i = Existence_Gone \<Longrightarrow> \<not> live_as tab i e" and "is_alive_in K d i = Dead \<Longrightarrow> live_as tab i e \<Longrightarrow> finished e"
proof -
  note s = stat_by_pid_honest [OF assms, of "pid i"] and w = parse_stat_of [OF honest_kernelD(7) [OF assms(1)]]
  show "\<not> live_as tab i e" if "exists_in K d i = Existence_Gone"
    using that s w(1) [of "pid i"] by (cases "stat_by_pid K d (pid i)")
      (auto simp: exists_in_def start_token_in_def start_token_from_def existence_from_def live_as_def split: option.splits if_splits)
  show "finished e" if "is_alive_in K d i = Dead" "live_as tab i e"
    using that s w(3) [of "pid i"] by (cases "stat_by_pid K d (pid i)")
      (auto simp: is_alive_in_def is_running_in_def liveness_of_def live_as_def split: if_splits)
qed

lemma without_pidfd_down:
  assumes "honest_kernel K tab own" and "verify_without_pidfd K i e = Inr None" and "live_as tab i x"
  shows "finished x"
proof (cases "signal_says_no_such_process K (pid i)")
  case True
  then have "k_signal_probe K (pid i) = Some ESRCH"
    by (auto simp: signal_says_no_such_process_def signal_probe_def signal_target_def split: option.splits if_splits)
  then show ?thesis using honest_kernelD(5) [OF assms(1)] assms(3) by (auto simp: live_as_def)
next
  case False
  with assms(2) obtain d where d: "proc_view_with K = Same d" and "exists_in K d i = Existence_Gone \<or> is_alive_in K d i = Dead"
    by (auto simp: verify_without_pidfd_def split: ProcView.splits Existence.splits Liveness.splits)
  moreover have "own d" using view_is_own [OF assms(1)] d by (simp add: into_dir_def)
  ultimately show ?thesis using stat_by_pid_shows [OF assms(1)] assms(3) by blast
qed

lemma pidfd_target_down:
  assumes "honest_kernel K tab own" and "shown P k K tab" and "verify_pidfd_target K i fd = Inr None" and "ps_known P k i" and "ps_names P k fd i"
  shows "ps_down P k i"
proof -
  from assms(3) obtain d where d: "pidfd_target_in K d fd = Inr Reaped \<or> pidfd_target_in K d fd = Inr (Pid (pid i)) \<and> exists_in K d i = Existence_Gone"
    by (auto simp: verify_pidfd_target_def split: sum.splits PidfdTarget.splits if_splits Existence.splits)
  then show ?thesis
  proof
    assume p: "pidfd_target_in K d fd = Inr (Pid (pid i)) \<and> exists_in K d i = Existence_Gone"
    have "k_read K d (stat_path (pid i)) \<noteq> Inr b" for b
    proof
      assume b: "k_read K d (stat_path (pid i)) = Inr b"
      then obtain x where "well_printed x" "b = stat_of (pid i) x" "e_start x = start_token i"
        using assms(2, 5) p unfolding shown_def by blast
      with parse_stat_of(1) [of x "pid i"] b p show False
        by (simp add: exists_in_def start_token_in_def stat_by_pid_def read_stat_file_def start_token_from_def existence_from_def)
    qed
    then have "resolve_unreadable K (pid i) = Resolved_Gone" using p
      by (cases "k_read K d (stat_path (pid i))"; cases "resolve_unreadable K (pid i)")
        (auto simp: exists_in_def start_token_in_def stat_by_pid_def read_stat_file_def start_token_from_def existence_from_def resolve_unreadable_def split: if_splits)
    then have "\<not> live_as tab i e" for e using resolve_unreadable_honest(2) [OF assms(1)] by (auto simp: live_as_def)
    then show ?thesis by (intro shown_down [OF assms(2, 4)]) blast
  qed (use assms(2, 5) in \<open>auto simp: shown_def\<close>)
qed

lemma calls_documentedD:
  assumes "calls_documented S root P"
  shows "gs_peek S k = (r0, k') \<Longrightarrow> later P k k'"
    and "gs_pidfd_open S p k = (r1, k') \<Longrightarrow> later P k k'"
    and "gs_pidfd_open S (pid i) k = (Inr fd, k') \<Longrightarrow> ps_known P k i \<Longrightarrow> ps_names P k' fd i \<or> ps_down P k' i"
    and "gs_pidfd_open S (pid i) k = (Inl ESRCH, k') \<Longrightarrow> ps_known P k i \<Longrightarrow> ps_down P k' i"
    and "gs_pidfd_send S fd s g k = (r2, k') \<Longrightarrow> later P k k'"
    and "gs_pidfd_send S fd SIGKILL False k = (r2, k') \<Longrightarrow> r2 \<in> {Inr (), Inl ESRCH} \<Longrightarrow> ps_names P k fd i \<Longrightarrow> ps_down P k' i"
    and "gs_pidfd_send S fd 0 True k = (Inl ESRCH, k') \<Longrightarrow> gr_pidfd root = Some fd \<Longrightarrow> ps_empty P k'"
    and "gs_killpg S t s k = (r2, k') \<Longrightarrow> later P k k'"
    and "gs_kill S t s k = (r2, k') \<Longrightarrow> later P k k'"
    and "gs_kill S (pid i) SIGKILL k = (r2, k') \<Longrightarrow> r2 \<in> {Inr (), Inl ESRCH} \<Longrightarrow> ps_known P k i \<Longrightarrow> ps_down P k' i"
proof -
  note d = assms [unfolded calls_documented_def]
  note peek = d [THEN conjunct1] and opens = d [THEN conjunct2, THEN conjunct1] and sends = d [THEN conjunct2, THEN conjunct2, THEN conjunct1]
    and groups = d [THEN conjunct2, THEN conjunct2, THEN conjunct2, THEN conjunct1] and kills = d [THEN conjunct2, THEN conjunct2, THEN conjunct2, THEN conjunct2]
  show "gs_peek S k = (r0, k') \<Longrightarrow> later P k k'" using peek by blast
  show "gs_pidfd_open S p k = (r1, k') \<Longrightarrow> later P k k'" using opens by blast
  show "ps_names P k' fd i \<or> ps_down P k' i" if "gs_pidfd_open S (pid i) k = (Inr fd, k')" "ps_known P k i"
    using opens [rule_format, OF that(1)] that(2) by simp
  show "ps_down P k' i" if "gs_pidfd_open S (pid i) k = (Inl ESRCH, k')" "ps_known P k i"
    using opens [rule_format, OF that(1)] that(2) by simp
  show "gs_pidfd_send S fd s g k = (r2, k') \<Longrightarrow> later P k k'" using sends by blast
  show "ps_down P k' i" if "gs_pidfd_send S fd SIGKILL False k = (r2, k')" "r2 \<in> {Inr (), Inl ESRCH}" "ps_names P k fd i"
    using sends [rule_format, OF that(1)] that(2, 3) by auto
  show "ps_empty P k'" if "gs_pidfd_send S fd 0 True k = (Inl ESRCH, k')" "gr_pidfd root = Some fd"
    using sends [rule_format, OF that(1)] that(2) by simp
  show "gs_killpg S t s k = (r2, k') \<Longrightarrow> later P k k'" using groups by blast
  show "gs_kill S t s k = (r2, k') \<Longrightarrow> later P k k'" using kills by blast
  show "ps_down P k' i" if "gs_kill S (pid i) SIGKILL k = (r2, k')" "r2 \<in> {Inr (), Inl ESRCH}" "ps_known P k i"
    using kills [rule_format, OF that(1)] that(2, 3) by auto
qed

lemma opened_down:
  assumes "reads_documented S P" and "calls_documented S root P" and "open_verified S i k = (r, k')" and "ps_known P k i"
  shows "later P k k' \<and> (r = Inr None \<longrightarrow> ps_down P k' i) \<and> (\<forall>fd. r = Inr (Some fd) \<longrightarrow> ps_names P k' fd i \<or> ps_down P k' i)"
proof -
  obtain o1 k1 where o: "gs_pidfd_open S (pid i) k = (o1, k1)" by fastforce
  have k1: "later P k k1" by (rule calls_documentedD(2) [OF assms(2) o])
  then have known: "ps_known P k1 i" using assms(4) by (rule laterD(1))
  show ?thesis
  proof (cases o1)
    case (Inr fd)
    then have a: "asked S (\<lambda>K. verify_pidfd_target K i fd) k1 = (r, k')" using assms(3) o by (simp add: open_verified_def)
    from assms(1) a show ?thesis
    proof (rule readsE)
      fix K tab
      assume h: "r = verify_pidfd_target K i fd" "later P k1 k'" "honest_kernel K tab (ps_own P)" "shown P k' K tab"
      have n: "ps_names P k' fd i \<or> ps_down P k' i" using calls_documentedD(3) [OF assms(2) o [unfolded Inr] assms(4)] laterD(2, 3) [OF h(2)] by blast
      have "fd' = fd" if "r = Inr (Some fd')" for fd'
        using that h(1) by (auto simp: verify_pidfd_target_def split: sum.splits PidfdTarget.splits if_splits Existence.splits)
      moreover have "ps_down P k' i" if "r = Inr None"
        using n pidfd_target_down [OF h(3, 4)] that h(1) laterD(1) [OF h(2) known] by auto
      ultimately show ?thesis using n later_trans [OF k1 h(2)] by blast
    qed
  next
    case (Inl e)
    show ?thesis
    proof (cases "e = EINVAL \<or> e = ENOENT")
      case True
      then have a: "asked S (\<lambda>K. verify_without_pidfd K i e) k1 = (r, k')" using assms(3) o Inl by (auto simp: open_verified_def)
      from assms(1) a show ?thesis
      proof (rule readsE)
        fix K tab
        assume h: "r = verify_without_pidfd K i e" "later P k1 k'" "honest_kernel K tab (ps_own P)" "shown P k' K tab"
        have "r \<noteq> Inr (Some fd)" for fd
          by (auto simp: h(1) verify_without_pidfd_def split: ProcView.splits Existence.splits Liveness.splits)
        moreover have "ps_down P k' i" if "r = Inr None"
          using that h(1) by (intro shown_down [OF h(4) laterD(1) [OF h(2) known]] without_pidfd_down [OF h(3), of i e]) simp
        ultimately show ?thesis using later_trans [OF k1 h(2)] by blast
      qed
    next
      case False
      then have "k' = k1" "r = Inr None \<Longrightarrow> e = ESRCH" "r \<noteq> Inr (Some fd)" for fd
        using assms(3) o Inl by (auto simp: open_verified_def split: if_splits)
      then show ?thesis using k1 calls_documentedD(4) [OF assms(2), of i k k1] o Inl assms(4) by blast
    qed
  qed
qed

section \<open>A killed group is down\<close>

lemma call_after: "(\<And>k r k'. f k = (r, k') \<Longrightarrow> later P k k') \<Longrightarrow> keeps (after P) (call ev f)"
  by (metis (mono_tags, lifting) Machine.select_convs(1) keeps_def prod.collapse wp_call)

lemma root_check_after:
  assumes "reads_documented S P" and "calls_documented S root P"
  shows "keeps (after P) (root_check S root)"
proof -
  have "keeps (after P) (held_state S h)" for h
    unfolding held_state_def using calls_documentedD(1) [OF assms(2)]
    by (intro call_after) (auto split: State.splits prod.splits simp: after.refl [where s = "\<lparr>w_kernel = k, w_log = []\<rparr>" for k, simplified])
  moreover have "keeps (after P) (root_identity_now S p)" for p
    unfolding root_identity_now_def by (intro call_after) (rule asked_later [OF assms(1)])
  moreover have "keeps (after P) (pidfd_group_has_member S fd)" for fd
    unfolding pidfd_group_has_member_def by (intro after.keeps_rules call_after) (rule calls_documentedD(5) [OF assms(2)])
  ultimately show ?thesis
    unfolding root_check_def has_member_def group_number_holds_def by (intro after.keeps_rules)
qed

lemma root_check_empty:
  assumes "calls_documented S root P"
  shows "wp (root_check S root) (\<lambda>r w'. r = Inl Group_Empty \<longrightarrow> ps_empty P (w_kernel w')) w"
proof (cases "gr_pidfd root")
  case (Some fd)
  obtain r k' where s: "gs_pidfd_send S fd 0 True (w_kernel w) = (r, k')" by fastforce
  have "ps_empty P k'" if "r = Inl ESRCH" using calls_documentedD(7) [OF assms] s that Some by blast
  then show ?thesis using s Some
    by (auto simp: root_check_def has_member_def pidfd_group_has_member_def held_state_def group_number_holds_def root_identity_now_def wp_simps split: sum.splits option.splits)
qed (auto simp: root_check_def has_member_def held_state_def group_number_holds_def root_identity_now_def wp_simps split: option.splits)

text \<open>A check, then a computation that knows what it showed.\<close>

lemma checked_then:
  assumes "reads_documented S P" and "calls_documented S root P"
    and "\<And>r w'. after P w w' \<Longrightarrow> (r = Inl Group_Empty \<Longrightarrow> ps_empty P (w_kernel w')) \<Longrightarrow> Q r w'"
  shows "wp (root_check S root) Q w"
  by (rule wp_mono [OF wp_conj [OF keeps_wp [OF root_check_after [OF assms(1, 2)]] root_check_empty [OF assms(2)]]]) (use assms(3) in blast)

text \<open>A member that was reached, by any of the three ways, is down, or its group is empty.\<close>

definition settled_member :: "'k Processes \<Rightarrow> ('k, Ev) Machine \<Rightarrow> ProcessId \<Rightarrow> bool" where
  "settled_member P w i \<longleftrightarrow> ps_down P (w_kernel w) i \<or> ps_empty P (w_kernel w)"

lemma settled_after: "after P w w' \<Longrightarrow> settled_member P w i \<Longrightarrow> settled_member P w' i"
  by (auto simp: settled_member_def dest: laterD)

lemma reached_by_Yes: "reached_by ans = Reached_Yes \<longleftrightarrow> ans \<in> {Inr (), Inl ESRCH}"
  by (auto simp: reached_by_def split: sum.splits)

lemma check_or_signal_settles:
  assumes "reads_documented S P" and "calls_documented S root P" and "ps_known P (w_kernel w) i"
  shows "wp (check_or_signal S (pid i) i (Some SIGKILL) root) (\<lambda>r w'. after P w w' \<and> (r = Reached_Yes \<longrightarrow> settled_member P w' i)) w"
  unfolding check_or_signal_def root_check_before_send_def wp_bind
proof (rule checked_then [OF assms(1, 2)], goal_cases)
  case (1 r w')
  have known: "ps_known P (w_kernel w') i" using laterD(1) [OF 1(1) assms(3)] .
  obtain now k1 where now: "asked S (\<lambda>K. fst (of_with K (pid i))) (w_kernel w') = (now, k1)" by fastforce
  have k1: "later P (w_kernel w') k1" by (rule asked_later [OF assms(1) now])
  obtain ans k2 where send: "gs_kill S (pid i) SIGKILL k1 = (ans, k2)" by fastforce
  have k2: "later P k1 k2" by (rule calls_documentedD(9) [OF assms(2) send])
  have "ps_down P k1 i" if "now \<noteq> Resolved_Unknown" "now \<noteq> Found i" by (rule asked_name [OF assms(1) now known that])
  moreover have "ps_down P k2 i" if "ans \<in> {Inr (), Inl ESRCH}" using calls_documentedD(10) [OF assms(2) send that laterD(1) [OF k1 known]] .
  ultimately show ?case using 1 k1 k2 now send later_trans [of P "w_kernel w" "w_kernel w'" k1] later_trans [of P "w_kernel w" k1 k2]
    by (cases r) (auto simp: wp_simps settled_member_def reached_by_Yes signal_target_def)
qed

lemma sigkill_settles:
  assumes "reads_documented S P" and "calls_documented S root P" and "ps_known P (w_kernel w) i"
  shows "wp (check_or_signal_linux_sigkill S (pid i) i root) (\<lambda>r w'. after P w w' \<and> (r = Reached_Yes \<longrightarrow> settled_member P w' i)) w"
proof -
  obtain r k1 where o: "open_verified S i (w_kernel w) = (r, k1)" by fastforce
  define w1 where "w1 = \<lparr>w_kernel = k1, w_log = Opened i r # w_log w\<rparr>"
  note d = opened_down [OF assms(1, 2) o assms(3)]
  have w1: "after P w w1" "ps_known P (w_kernel w1) i" using d laterD(1) [OF _ assms(3)] by (simp_all add: w1_def)
  have fd: "wp (root_check_before_send S root) (\<lambda>ok. wp (case ok of Inl reached \<Rightarrow> State_Monad.return reached
      | Inr _ \<Rightarrow> State_Monad.bind (call (Member_By_Pidfd fd) (gs_pidfd_send S fd SIGKILL False)) (\<lambda>ans. State_Monad.return (reached_by ans)))
      (\<lambda>r w'. after P w w' \<and> (r = Reached_Yes \<longrightarrow> settled_member P w' i))) w1" if "r = Inr (Some fd)" for fd
    unfolding root_check_before_send_def wp_bind
  proof (rule checked_then [OF assms(1, 2)], goal_cases)
    case (1 ok w')
    have n: "ps_names P (w_kernel w') fd i \<or> ps_down P (w_kernel w') i" using d that 1(1) laterD(2, 3) [OF 1(1)] by (auto simp: w1_def)
    obtain ans k2 where send: "gs_pidfd_send S fd SIGKILL False (w_kernel w') = (ans, k2)" by fastforce
    have k2: "later P (w_kernel w') k2" by (rule calls_documentedD(5) [OF assms(2) send])
    have "ps_down P k2 i" if "ans \<in> {Inr (), Inl ESRCH}"
      using n calls_documentedD(6) [OF assms(2) send that] laterD(2) [OF k2] by blast
    then show ?case using 1 w1(1) send k2 later_trans [of P "w_kernel w" k1 "w_kernel w'"] later_trans [of P "w_kernel w" "w_kernel w'" k2]
      by (cases ok) (auto simp: wp_simps settled_member_def reached_by_Yes w1_def)
  qed
  have again: "wp (check_or_signal S (pid i) i (Some SIGKILL) root) (\<lambda>r w'. after P w w' \<and> (r = Reached_Yes \<longrightarrow> settled_member P w' i)) w1"
    by (rule wp_mono [OF check_or_signal_settles [OF assms(1, 2) w1(2)]]) (auto intro: later_trans [OF w1(1)])
  show ?thesis using w1 d fd again o
    by (auto simp: check_or_signal_linux_sigkill_def wp_bind wp_call wp_sum wp_option wp_if wp_return settled_member_def w1_def split: sum.splits option.splits)
qed

lemma lives_after: "reads_documented S P \<Longrightarrow> keeps (after P) (lives S i)"
  unfolding lives_def by (intro call_after) (rule asked_later)

lemma visit_member_settles:
  assumes "reads_documented S P" and "calls_documented S root P" and "ps_known P (w_kernel w) (member_id m)"
  shows "wp (visit_member S SIGKILL root m) (\<lambda>out w'. after P w w' \<and> (out = NotASurvivor \<longrightarrow> settled_member P w' (member_id m))) w"
proof -
  let ?i = "member_id m"
  let ?R = "\<lambda>w r w'. after P w w' \<and> (r = Reached_Yes \<longrightarrow> settled_member P w' ?i)"
  let ?Q = "\<lambda>w out w'. after P w w' \<and> (out = NotASurvivor \<longrightarrow> settled_member P w' ?i)"
  define act where "act = (if SIGKILL = SIGKILL \<and> excluded_from_sigkill_resend (m_pid m) (m_system m) then State_Monad.return Reached_Unknown
      else if SIGKILL = SIGKILL then check_or_signal_linux_sigkill S (m_pid m) ?i root else check_or_signal S (m_pid m) ?i None root)"
  have p: "m_pid m = pid ?i" by (simp add: member_id_def)
  obtain l k1 where l: "asked S (\<lambda>K. is_alive_with K ?i) (w_kernel w) = (l, k1)" by fastforce
  define w1 where "w1 = \<lparr>w_kernel = k1, w_log = Lives ?i l # w_log w\<rparr>"
  have w1: "after P w w1" "ps_known P (w_kernel w1) ?i" using asked_later [OF assms(1) l] laterD(1) [OF _ assms(3)] by (simp_all add: w1_def)
  have dead: "settled_member P w1 ?i" if "l = Dead" using asked_dead [OF assms(1) _ assms(3)] l that by (simp add: settled_member_def w1_def)
  have "wp act (?R w1) w1" unfolding act_def p using sigkill_settles [OF assms(1, 2) w1(2)] by (simp add: wp_return after.refl)
  then have c: "wp (classify_member (m_pid m) l act) (?Q w1) w1" using dead
    by (auto simp: classify_member_def wp_simps after.refl elim!: wp_mono split: Reached.splits)
  have re: "wp (reconfirm_survivor out (lives S ?i)) (?Q w) w2" if q: "?Q w1 out w2" for out w2
  proof -
    from q have a: "after P w1 w2" ..
    have w2: "after P w w2" "ps_known P (w_kernel w2) ?i" by (rule later_trans [OF w1(1) a], rule laterD(1) [OF a w1(2)])
    obtain l' k2 where l': "asked S (\<lambda>K. is_alive_with K ?i) (w_kernel w2) = (l', k2)" by fastforce
    have "later P (w_kernel w2) k2" "l' = Dead \<longrightarrow> ps_down P k2 ?i" using asked_later [OF assms(1) l'] asked_dead [OF assms(1) _ w2(2)] l' by auto
    then show ?thesis using w2 q l' later_trans [of P "w_kernel w" "w_kernel w2" k2]
      by (auto simp: reconfirm_survivor_def wp_lives wp_simps settled_member_def split: MemberOutcome.splits)
  qed
  show ?thesis
    using wp_mono [OF c re] l by (simp add: visit_member_def wp_bind wp_lives wp_call act_def w1_def)
qed

lemma read_member_known:
  assumes "reads_documented S P" and "ps_own P d" and "asked S (\<lambda>K. read_in_scan K d p) k = (Inr (Stat_Read stat), k')" and "member_of_stat pgid p stat = Some m"
  shows "ps_known P k' (member_id m)"
  using assms(1, 3)
proof (rule readsE)
  fix K tab
  assume h: "Inr (Stat_Read stat) = read_in_scan K d p" "honest_kernel K tab (ps_own P)" "shown P k' K tab"
  from h(1) have "k_read K d (stat_path p) = Inr stat" using read_in_scan_Read by metis
  then obtain e where e: "tab p = Some e" "stat = stat_of p e" using honest_kernelD(4) [OF h(2) assms(2)] by blast
  have "m = \<lparr>m_pid = p, m_token = e_start e, m_system = False\<rparr>"
    using assms(4) parse_stat_of(1) [OF honest_kernelD(7) [OF h(2) e(1)]] by (auto simp: member_of_stat_def e(2) split: option.splits if_splits)
  then have "live_as tab (member_id m) e" using e(1) by (simp add: live_as_def member_id_def)
  then show ?thesis using h(3) unfolding shown_def by blast
qed

lemma scan_members_known:
  assumes "reads_documented S P" and "ps_own P d"
  shows "scan_members S d pgid ps k = (r, k') \<Longrightarrow> later P k k' \<and> (\<forall>ms m. r = Inr ms \<longrightarrow> m \<in> set ms \<longrightarrow> ps_known P k' (member_id m))"
proof (induction ps arbitrary: k r k')
  case Nil
  then show ?case by (auto simp: later_def)
next
  case (Cons p ps)
  obtain a k1 where a: "asked S (\<lambda>K. read_in_scan K d p) k = (a, k1)" by fastforce
  have k1: "later P k k1" by (rule asked_later [OF assms(1) a])
  obtain rest k2 where rest: "scan_members S d pgid ps k1 = (rest, k2)" by fastforce
  note ih = Cons.IH [OF rest]
  consider (unreadable) e where "a = Inl e" | (skipped) e where "a = Inr (Stat_Skipped e)" | (stat) stat where "a = Inr (Stat_Read stat)"
    by (cases a) (auto intro: PidStat.exhaust)
  then show ?case
  proof cases
    case unreadable
    with Cons.prems a k1 show ?thesis by auto
  next
    case skipped
    with Cons.prems a rest have "r = rest" "k' = k2" by auto
    with ih later_trans [OF k1 conjunct1 [OF ih]] show ?thesis by simp
  next
    case (stat stat)
    with Cons.prems a rest have r: "r = (case member_of_stat pgid p stat of None \<Rightarrow> rest | Some m \<Rightarrow> map_sum id (\<lambda>ms. m # ms) rest)" and k: "k' = k2" by auto
    have "ps_known P k2 (member_id m)" if "member_of_stat pgid p stat = Some m" for m
      by (rule laterD(1) [OF conjunct1 [OF ih] read_member_known [OF assms a [unfolded stat] that]])
    then show ?thesis using conjunct2 [OF ih] later_trans [OF k1 conjunct1 [OF ih]] unfolding r k by (auto split: option.splits simp: map_sum_Inr)
  qed
qed

lemma members_known:
  assumes "reads_documented S P" and "members S pgid k = (r, k')"
  shows "later P k k'" and "r = Inr ms \<Longrightarrow> m \<in> set ms \<Longrightarrow> ps_known P k' (member_id m)"
proof -
  obtain a k1 where a: "asked S listing k = (a, k1)" by fastforce
  have k1: "later P k k1" by (rule asked_later [OF assms(1) a])
  have "later P k k' \<and> (\<forall>ms m. r = Inr ms \<longrightarrow> m \<in> set ms \<longrightarrow> ps_known P k' (member_id m))"
  proof (cases a)
    case (Inl e)
    with assms(2) a k1 show ?thesis by (auto simp: members_def)
  next
    case (Inr l)
    obtain d ps where l: "l = (d, ps)" by fastforce
    have "ps_own P d" using assms(1) a
    proof (rule readsE)
      fix K tab
      assume h: "a = listing K" "honest_kernel K tab (ps_own P)"
      from h(1) Inr l have "listing K = Inr (d, ps)" by simp
      then have "into_dir (proc_view_with K) = Inr d" by (auto simp: listing_def map_sum_Inr split: sum.splits)
      then show ?thesis by (rule view_is_own [OF h(2)])
    qed
    moreover have "scan_members S d pgid ps k1 = (r, k')" using assms(2) a Inr l by (simp add: members_def)
    ultimately show ?thesis using scan_members_known [OF assms(1)] later_trans [OF k1] by blast
  qed
  then show "later P k k'" and "r = Inr ms \<Longrightarrow> m \<in> set ms \<Longrightarrow> ps_known P k' (member_id m)" by blast+
qed

text \<open>A process that \<^verbatim>\<open>/proc\<close> shows in the group at every read is listed.\<close>

definition stays_in_group :: "'k GroupSys \<Rightarrow> 'k Processes \<Rightarrow> i32 \<Rightarrow> ProcessId \<Rightarrow> bool" where
  "stays_in_group S P pgid i \<longleftrightarrow> (\<forall>k K k' d. gs_read S k = (K, k') \<and> ps_own P d \<longrightarrow>
     (\<exists>e. well_printed e \<and> e_start e = start_token i \<and> e_pgrp e = pgid \<and> k_read K d (stat_path (pid i)) = Inr (stat_of (pid i) e))
     \<and> (\<forall>ps. proc_pids K d = Inr ps \<longrightarrow> pid i \<in> set ps))"

lemma scan_members_complete:
  assumes "stays_in_group S P pgid i" and "ps_own P d" and "pid i \<in> set ps" and "scan_members S d pgid ps k = (Inr ms, k')"
  shows "i \<in> member_id ` set ms"
  using assms(3, 4)
proof (induction ps arbitrary: k ms)
  case (Cons p ps)
  obtain K k1 where K: "gs_read S k = (K, k1)" by fastforce
  have a: "asked S (\<lambda>K. read_in_scan K d p) k = (read_in_scan K d p, k1)" using K by (simp add: asked_def)
  show ?case
  proof (cases "p = pid i")
    case True
    from assms(1, 2) K obtain e where e: "well_printed e" "e_start e = start_token i" "e_pgrp e = pgid" and b: "k_read K d (stat_path p) = Inr (stat_of p e)"
      unfolding stays_in_group_def True by blast
    from b have "read_in_scan K d p = Inr (Stat_Read (stat_of p e))" by (simp add: read_in_scan_Read)
    moreover have "member_of_stat pgid p (stat_of p e) = Some \<lparr>m_pid = p, m_token = start_token i, m_system = False\<rparr>"
      using e parse_stat_of(1, 4) [OF e(1), of p] by (simp add: member_of_stat_def)
    ultimately obtain ms' where "ms = \<lparr>m_pid = p, m_token = start_token i, m_system = False\<rparr> # ms'"
      using Cons.prems(2) a by (auto simp: map_sum_Inr split: prod.splits)
    then show ?thesis by (simp add: member_id_def True)
  next
    case False
    then have "pid i \<in> set ps" using Cons.prems(1) by simp
    then show ?thesis using Cons.prems(2) Cons.IH a
      by (fastforce simp: map_sum_Inr split: prod.splits sum.splits PidStat.splits option.splits)
  qed
qed simp

lemma members_complete:
  assumes "reads_documented S P" and "stays_in_group S P pgid i" and "members S pgid k = (Inr ms, k')"
  shows "i \<in> member_id ` set ms"
proof -
  obtain K k1 where K: "gs_read S k = (K, k1)" by fastforce
  then have a: "asked S listing k = (listing K, k1)" by (simp add: asked_def)
  with assms(3) obtain d ps where l: "listing K = Inr (d, ps)" and sc: "scan_members S d pgid ps k1 = (Inr ms, k')"
    by (auto simp: members_def split: sum.splits prod.splits)
  from l have v: "into_dir (proc_view_with K) = Inr d" and p: "proc_pids K d = Inr ps" by (auto simp: listing_def map_sum_Inr split: sum.splits)
  from assms(1) K obtain tab where "honest_kernel K tab (ps_own P)" unfolding reads_documented_def by blast
  from view_is_own [OF this v] have d: "ps_own P d" .
  then have "pid i \<in> set ps" using assms(2) K p unfolding stays_in_group_def by blast
  then show ?thesis by (rule scan_members_complete [OF assms(2) d _ sc])
qed

lemma visit_members_settle:
  assumes "reads_documented S P" and "calls_documented S root P"
  shows "(\<And>m. m \<in> set ms \<Longrightarrow> ps_known P (w_kernel w) (member_id m)) \<Longrightarrow>
    wp (visit_members S SIGKILL root ms acc) (\<lambda>acc' w'. after P w w' \<and> (acc' = ([], []) \<longrightarrow> acc = ([], []) \<and> (\<forall>m\<in>set ms. settled_member P w' (member_id m)))) w"
proof (induction ms arbitrary: acc w)
  case Nil
  then show ?case by (simp add: wp_return after.refl)
next
  case (Cons m ms)
  have "wp (visit_members S SIGKILL root ms (count_outcome out acc))
      (\<lambda>acc' w'. after P w w' \<and> (acc' = ([], []) \<longrightarrow> acc = ([], []) \<and> (\<forall>m\<in>set (m # ms). settled_member P w' (member_id m)))) w1"
    if o: "after P w w1 \<and> (out = NotASurvivor \<longrightarrow> settled_member P w1 (member_id m))" for out w1
  proof (rule wp_mono [OF Cons.IH])
    show "ps_known P (w_kernel w1) (member_id m')" if "m' \<in> set ms" for m' using o Cons.prems [of m'] that laterD(1) by force
    fix acc' w'
    assume i: "after P w1 w' \<and> (acc' = ([], []) \<longrightarrow> count_outcome out acc = ([], []) \<and> (\<forall>m\<in>set ms. settled_member P w' (member_id m)))"
    have "acc = ([], []) \<and> out = NotASurvivor" if "count_outcome out acc = ([], [])"
      using that by (auto simp: count_outcome_def split: prod.splits MemberOutcome.splits)
    then show "after P w w' \<and> (acc' = ([], []) \<longrightarrow> acc = ([], []) \<and> (\<forall>m\<in>set (m # ms). settled_member P w' (member_id m)))"
      using i o later_trans [of P "w_kernel w" "w_kernel w1"] settled_after [of P w1 w'] by auto
  qed
  moreover have "wp (visit_member S SIGKILL root m) (\<lambda>out w'. after P w w' \<and> (out = NotASurvivor \<longrightarrow> settled_member P w' (member_id m))) w"
    by (rule visit_member_settles [OF assms]) (simp add: Cons.prems)
  ultimately show ?case by (auto simp: wp_bind elim!: wp_mono)
qed

lemma decide_Cleared: "decide_group acc = Cleared \<longleftrightarrow> acc = ([], [])"
  by (auto simp: decide_group_def split: prod.splits)

text \<open>The verdict of a group that was killed: there was a listing, and everything it named is down or the group is empty.\<close>

definition down_as_listed :: "'k GroupSys \<Rightarrow> 'k Processes \<Rightarrow> i32 \<Rightarrow> ('k, Ev) Machine \<Rightarrow> bool" where
  "down_as_listed S P pgid w \<longleftrightarrow> (\<exists>ms. Listed (Inr ms) \<in> set (w_log w) \<and> (\<forall>m\<in>set ms. settled_member P w (member_id m))
     \<and> (\<forall>i. stays_in_group S P pgid i \<longrightarrow> i \<in> member_id ` set ms))"

lemma visit_members_extends: "keeps extends (visit_members S s root ms acc)"
  by (induction ms arbitrary: acc) (simp_all add: log.keeps_return log.keeps_bind visit_member_extends)

lemma verify_group_down:
  assumes "reads_documented S P" and "calls_documented S root P"
  shows "wp (verify_group S pgid SIGKILL root) (\<lambda>r w'. r = Inr () \<longrightarrow> down_as_listed S P pgid w') w"
proof -
  obtain r k1 where l: "members S pgid (w_kernel w) = (r, k1)" by fastforce
  have "wp (visit_members S SIGKILL root ms ([], [])) (\<lambda>acc w'. decide_group acc = Cleared \<longrightarrow> down_as_listed S P pgid w') \<lparr>w_kernel = k1, w_log = Listed (Inr ms) # w_log w\<rparr>"
    if "r = Inr ms" for ms
  proof (rule wp_mono [OF wp_conj [OF visit_members_settle [OF assms] keeps_wp [OF visit_members_extends]]])
    show "ps_known P (w_kernel \<lparr>w_kernel = k1, w_log = Listed (Inr ms) # w_log w\<rparr>) (member_id m)" if "m \<in> set ms" for m
      using members_known(2) [OF assms(1) l \<open>r = Inr ms\<close> that] by simp
  next
    fix acc :: "RawPid list \<times> RawPid list" and w'
    assume a: "(after P \<lparr>w_kernel = k1, w_log = Listed (Inr ms) # w_log w\<rparr> w'
        \<and> (acc = ([], []) \<longrightarrow> ([], []) = ([], []) \<and> (\<forall>m\<in>set ms. settled_member P w' (member_id m)))) \<and> extends \<lparr>w_kernel = k1, w_log = Listed (Inr ms) # w_log w\<rparr> w'"
    then have "Listed (Inr ms) \<in> set (w_log w')" by (auto dest: extends_set [where e = "Listed (Inr ms)"])
    moreover have "i \<in> member_id ` set ms" if "stays_in_group S P pgid i" for i
      using members_complete [OF assms(1) that] l \<open>r = Inr ms\<close> by blast
    ultimately show "decide_group acc = Cleared \<longrightarrow> down_as_listed S P pgid w'" using a by (auto simp: decide_Cleared down_as_listed_def)
  qed
  then show ?thesis using l
    by (auto simp: verify_group_def group_state_def converge_def wp_bind wp_call wp_return wp_sum verify_error_def split: sum.splits GroupState.splits elim!: wp_mono)
qed

lemma signal_group_down:
  assumes "reads_documented S P" and "calls_documented S root P"
  shows "wp (signal_group S pgid SIGKILL root) (\<lambda>r w'. r = Inr () \<longrightarrow> down_as_listed S P pgid w') w"
proof -
  have t: "wp m (\<lambda>_ _. True) w" for m :: "('a, unit) geff" and w by (simp add: wp_def split: prod.splits)
  have t': "wp m (\<lambda>_ _. True) w" for m :: "('a, Error + (i32 + unit)) geff" and w by (simp add: wp_def split: prod.splits)
  show ?thesis using verify_group_down [OF assms]
    by (auto simp: signal_group_def wp_if wp_return wp_bind wp_sum split: sum.splits intro!: wp_mono [OF t] wp_mono [OF t'])
qed

section \<open>Signalling a group\<close>

text \<open>C16: a number that may have come to name another group or process is never signalled. In any run, every send by the group's number or the leader's is made right
after the root was shown to hold it, by its pidfd or its own handle; every send by a member's number right after a read found the listed identity at that pid, and
that right after such a check; every send by a member's pidfd after such a check and to an identity that was listed and opened. Only the signal asked for is sent, a member
is sent nothing but \<^verbatim>\<open>SIGKILL\<close>, and a group id that is not positive, which would name the caller's own group or everything, is sent nothing.\<close>

theorem group_sends_are_vouched:
  "vouched pgid SIGKILL (w_log (snd (run_state (kill_group S pgid root) \<lparr>w_kernel = k, w_log = []\<rparr>)))
   \<and> vouched pgid SIGTERM (w_log (snd (run_state (term_group S pgid root) \<lparr>w_kernel = k, w_log = []\<rparr>)))
   \<and> (if 0 < sint pgid then True else
        run_state (kill_group S pgid root) \<lparr>w_kernel = k, w_log = []\<rparr> = (Inl (Unassessable None), \<lparr>w_kernel = k, w_log = []\<rparr>)
      \<and> run_state (term_group S pgid root) \<lparr>w_kernel = k, w_log = []\<rparr> = (Inl (Unassessable None), \<lparr>w_kernel = k, w_log = []\<rparr>))"
proof -
  have "vouched pgid s (w_log (snd (run_state (signal_group S pgid s root) \<lparr>w_kernel = k, w_log = []\<rparr>)))" for s
    using signal_group_vouched [of pgid s "\<lparr>w_kernel = k, w_log = []\<rparr>" S root] by (simp add: wp_def split: prod.splits)
  then show ?thesis by (simp add: kill_group_def term_group_def signal_group_def)
qed

text \<open>C17: a group that was killed is down. When \<^verbatim>\<open>kill_group\<close> succeeds, it listed the group, every process of the listing is gone, finished or has the kill pending,
whatever the kernel answered to the send to the group as a whole, or else the group has no member left; and any process that \<^verbatim>\<open>/proc\<close> showed in the group throughout was
listed.\<close>

theorem killed_group_is_down:
  assumes "reads_documented S P" and "calls_documented S root P"
    and "run_state (kill_group S pgid root) \<lparr>w_kernel = k, w_log = []\<rparr> = (Inr (), w)"
  shows "\<exists>ms. Listed (Inr ms) \<in> set (w_log w)
    \<and> (\<forall>m\<in>set ms. ps_down P (w_kernel w) (member_id m) \<or> ps_empty P (w_kernel w))
    \<and> (\<forall>i. stays_in_group S P pgid i \<longrightarrow> i \<in> member_id ` set ms)"
  using signal_group_down [OF assms(1, 2), of pgid "\<lparr>w_kernel = k, w_log = []\<rparr>"] assms(3)
  by (simp add: wp_def kill_group_def down_as_listed_def settled_member_def)

subsection \<open>A group of one\<close>

text \<open>The process of pid 7 leads a group of its own; the kernel has no pidfds, and a \<^verbatim>\<open>SIGKILL\<close> to it is recorded.\<close>

definition demo_member :: ProcessId where
  "demo_member = \<lparr>pid = 7, start_token = 99\<rparr>"

definition demo_group :: "bool GroupSys" where
  "demo_group = \<lparr>gs_read = (\<lambda>k. (demo_kernel, k)), gs_peek = (\<lambda>k. (Inr Peek_Running, k)), gs_pidfd_open = (\<lambda>_ k. (Inl EPERM, k)),
     gs_pidfd_send = (\<lambda>_ _ _ k. (Inl EINVAL, k)), gs_killpg = (\<lambda>_ _ k. (Inr (), k)), gs_kill = (\<lambda>t s k. (Inr (), k \<or> t = 7 \<and> s = SIGKILL))\<rparr>"

definition demo_processes :: "bool Processes" where
  "demo_processes = \<lparr>ps_known = (\<lambda>_ i. i = demo_member), ps_down = (\<lambda>k i. k \<and> i = demo_member), ps_names = (\<lambda>_ _ _. False), ps_empty = (\<lambda>_. False), ps_own = (\<lambda>_. True)\<rparr>"

definition demo_root :: GroupRoot where
  "demo_root = \<lparr>gr_pidfd = None, gr_hold = Some \<lparr>rh_pid = 7, rh_state = St_N\<rparr>\<rparr>"

lemma demo_group_documented: "reads_documented demo_group demo_processes" "calls_documented demo_group demo_root demo_processes"
proof -
  have l: "live_as [7 \<mapsto> demo_process] i e \<longleftrightarrow> i = demo_member \<and> e = demo_process" for i e
    by (cases i) (auto simp: live_as_def demo_member_def demo_process_def)
  have "\<not> finished demo_process" by code_simp
  then have "shown demo_processes k demo_kernel [7 \<mapsto> demo_process]" for k by (simp add: shown_def l demo_processes_def)
  then show "reads_documented demo_group demo_processes"
    using demo_kernel_honest by (auto simp: reads_documented_def demo_group_def demo_processes_def later_def)
  show "calls_documented demo_group demo_root demo_processes"
    by (auto simp: calls_documented_def demo_group_def demo_root_def demo_processes_def later_def demo_member_def)
qed

lemma demo_answers:
  "listing demo_kernel = Inr (3, [7])" "read_in_scan demo_kernel 3 7 = Inr (Stat_Read (stat_of 7 demo_process))"
  "member_of_stat 7 7 (stat_of 7 demo_process) = Some \<lparr>m_pid = 7, m_token = 99, m_system = False\<rparr>"
  "is_alive_with demo_kernel demo_member = Alive" "fst (of_with demo_kernel 7) = Found demo_member"
proof -
  have "proc_pids demo_kernel 3 = Inr [7]" by code_simp
  then show "listing demo_kernel = Inr (3, [7])" by (simp add: listing_def demo_view into_dir_def)
  have "k_read demo_kernel 3 (stat_path 7) = Inr (stat_of 7 demo_process)" by (simp add: demo_kernel_def stat_paths)
  then show "read_in_scan demo_kernel 3 7 = Inr (Stat_Read (stat_of 7 demo_process))" by (simp add: read_in_scan_Read)
  note s = parse_stat_of [OF demo_printed, of 7]
  show "member_of_stat 7 7 (stat_of 7 demo_process) = Some \<lparr>m_pid = 7, m_token = 99, m_system = False\<rparr>"
    using s(1, 4) by (simp add: member_of_stat_def) (simp add: demo_process_def)
  have "\<not> finished demo_process" by code_simp
  then show "is_alive_with demo_kernel demo_member = Alive"
    using s(3) [of 99] by (simp add: demo_member_def is_alive_with_def is_running_def read_stat_def demo_reads liveness_of_def) (simp add: demo_process_def)
  show "fst (of_with demo_kernel 7) = Found demo_member"
    using s(1) by (simp add: of_with_def start_token_explained_def demo_reads start_token_from_def) (simp add: demo_process_def demo_member_def)
qed

lemma demo_group_killed:
  "\<exists>w. run_state (kill_group demo_group 7 demo_root) \<lparr>w_kernel = False, w_log = []\<rparr> = (Inr (), w) \<and> w_kernel w"
proof -
  have i: "member_id \<lparr>m_pid = 7, m_token = 99, m_system = False\<rparr> = demo_member" by (simp add: member_id_def demo_member_def)
  have o: "open_verified demo_group demo_member k = (Inl (Unsupported (STR ''process open'') (STR ''linux'')), k)" for k
    by (simp add: open_verified_def demo_group_def demo_member_def refusal_name_def pidfd_open_unsupported_def OP_NAME_def)
  have a: "asked demo_group f k = (f demo_kernel, k)" for f k by (simp add: asked_def demo_group_def)
  have c: "run_state (root_check demo_group demo_root) w = (Inr (), \<lparr>w_kernel = w_kernel w, w_log = Peeked Unreaped # w_log w\<rparr>)" for w
    by (simp add: root_check_def has_member_def held_state_def demo_root_def demo_group_def state_locked_def of_peek_def group_number_holds_def call_def)
  have p: "pid demo_member = 7" "signal_target 7 = Some 7" by (simp_all add: demo_member_def signal_target_def)
  have m: "members demo_group 7 k = (Inr [\<lparr>m_pid = 7, m_token = 99, m_system = False\<rparr>], k)" for k
    by (simp add: members_def a demo_answers)
  have s: "run_state (check_or_signal demo_group 7 demo_member (Some SIGKILL) demo_root) w
      = (Reached_Yes, \<lparr>w_kernel = True, w_log = Member_By_Number 7 SIGKILL (Inr ()) # Pid_Named 7 (Found demo_member) # Peeked Unreaped # w_log w\<rparr>)" for w
    by (simp add: check_or_signal_def root_check_before_send_def c call_def a demo_answers p reached_by_def) (simp add: demo_group_def)
  have v: "run_state (visit_member demo_group SIGKILL demo_root \<lparr>m_pid = 7, m_token = 99, m_system = False\<rparr>) w
      = (NotASurvivor, \<lparr>w_kernel = True, w_log = Member_By_Number 7 SIGKILL (Inr ()) # Pid_Named 7 (Found demo_member) # Peeked Unreaped
          # Opened demo_member (Inl (Unsupported (STR ''process open'') (STR ''linux''))) # Lives demo_member Alive # w_log w\<rparr>)" for w
    by (simp add: visit_member_def i lives_def call_def a demo_answers classify_member_def excluded_from_sigkill_resend_def check_or_signal_linux_sigkill_def o falls_back_def s
        reconfirm_survivor_def)
  have r: "gr_pidfd demo_root = None" "gs_killpg demo_group t s k = (Inr (), k)" for t s k by (simp_all add: demo_root_def demo_group_def)
  have g: "run_state (send_to_group demo_group 7 SIGKILL demo_root) w = (Inr (Inr ()), \<lparr>w_kernel = w_kernel w, w_log = Group_By_Number 7 SIGKILL (Inr ()) # Peeked Unreaped # w_log w\<rparr>)" for w
    using r by (simp add: send_to_group_def send_by_number_def c call_def)
  show ?thesis
    by (simp add: kill_group_def signal_group_def g verify_group_def group_state_def converge_def call_def m v count_outcome_def decide_group_def verify_error_def)
qed

theorem killed_group_is_down_witness:
  "\<exists>w. run_state (kill_group demo_group 7 demo_root) \<lparr>w_kernel = False, w_log = []\<rparr> = (Inr (), w)
    \<and> (\<exists>ms. Listed (Inr ms) \<in> set (w_log w) \<and> demo_member \<in> member_id ` set ms \<and> ps_down demo_processes (w_kernel w) demo_member)"
proof -
  obtain w where w: "run_state (kill_group demo_group 7 demo_root) \<lparr>w_kernel = False, w_log = []\<rparr> = (Inr (), w)" "w_kernel w"
    using demo_group_killed by blast
  have n: "proc_pids demo_kernel d = Inr [7]" for d by code_simp
  have "k_read demo_kernel d (stat_path 7) = Inr (stat_of 7 demo_process)" for d by (simp add: demo_kernel_def stat_paths)
  then have "stays_in_group demo_group demo_processes 7 demo_member"
    using demo_printed n by (auto simp: stays_in_group_def demo_group_def demo_member_def intro!: exI [of _ demo_process]) (simp_all add: demo_process_def)
  then show ?thesis using killed_group_is_down [OF demo_group_documented w(1)] w by (fastforce simp: demo_processes_def)
qed

end
