(* ===== verification/Tree_Call.thy ===== *)
theory Tree_Call
  imports Spawn_Flags Group_Kill
begin

text \<open>
  The calls on a contained tree, on Linux: \<^verbatim>\<open>src/src/child/tree_call.rs\<close>, \<^verbatim>\<open>Attached\<close> and \<^verbatim>\<open>DropView\<close> of \<^verbatim>\<open>src/src/containment/dispatch.rs\<close>, \<^verbatim>\<open>kill_tree\<close>, \<^verbatim>\<open>terminate_tree\<close> and
  the drop of \<^verbatim>\<open>src/src/child.rs\<close>, and the shutdowns of \<^verbatim>\<open>src/src/child/graceful.rs\<close>. They are computations of \<open>Effects\<close>; those on a process group are the ones of
  \<open>Group_Kill\<close>. The kills of a cgroup's leaf and of a walked tree are calls. The texts of errors, and what is only logged, are left out.
\<close>

section \<open>The system\<close>

datatype Sig = Sig_Kill | Sig_Term

datatype TreeDrain = AllMembersExited | AllMarkersClosed | MembersRemain

definition permits_skipping_sweep :: "TreeDrain \<Rightarrow> bool" where
  "permits_skipping_sweep d = (case d of AllMembersExited \<Rightarrow> True | AllMarkersClosed \<Rightarrow> False | MembersRemain \<Rightarrow> False)"

text \<open>\<open>ts_lock\<close> is what the handle's lock guards when it is taken: other threads wait on the child too, so it may differ from one time to the next, but not while it is
held. \<open>ts_send\<close> is the send through the child's pidfd, \<open>ts_placed\<close> and \<open>ts_named\<close> ask the leaf whether it holds and whether it names the child, \<open>ts_drain\<close> and \<open>ts_watch\<close>
wait for the tree and the root without reaping, for at most the given time, and \<open>ts_wait\<close> waits and reaps, for at most the given time or without a deadline.\<close>

record 'k TreeSys =
  ts_group :: "'k GroupSys"
  ts_pidfd :: u32
  ts_lock :: "'k \<Rightarrow> State \<times> 'k"
  ts_send :: "Sig \<Rightarrow> 'k \<Rightarrow> (i32 + Sent) \<times> 'k"
  ts_placed :: "'k \<Rightarrow> (IoError + bool) \<times> 'k"
  ts_named :: "'k \<Rightarrow> (IoError + bool) \<times> 'k"
  ts_leaf_kill :: "'k \<Rightarrow> (Error + unit) \<times> 'k"
  ts_leaf_term :: "'k \<Rightarrow> (Error + unit) \<times> 'k"
  ts_subtree :: "'k \<Rightarrow> (IoError + unit) \<times> 'k"
  ts_leaf_drop :: "'k \<Rightarrow> unit \<times> 'k"
  ts_walk_kill :: "ProcessId \<Rightarrow> 'k \<Rightarrow> (Error + bool) \<times> 'k"
  ts_walk_term :: "ProcessId \<Rightarrow> 'k \<Rightarrow> (Error + unit) \<times> 'k"
  ts_drain :: "nat \<Rightarrow> 'k \<Rightarrow> (Error + TreeDrain) \<times> 'k"
  ts_watch :: "nat \<Rightarrow> 'k \<Rightarrow> (Error + bool) \<times> 'k"
  ts_wait :: "nat option \<Rightarrow> 'k \<Rightarrow> (Error + ChildWaitOutcome) \<times> 'k"
  ts_teardown :: "'k \<Rightarrow> TeardownWorld \<times> 'k"

datatype TEv =
    G Ev
  | Locked State
  | Front_Runs "Error + bool"
  | Front_Placed "IoError + bool"
  | Front_Named "IoError + bool"
  | Root_Sent Sig "i32 + Sent"
  | Leaf_Killed "Error + unit"
  | Leaf_Termed "Error + unit"
  | Subtree_Read "IoError + unit"
  | Leaf_Dropped
  | Walk_Killed ProcessId "Error + bool"
  | Walk_Termed ProcessId "Error + unit"
  | Marked
  | Drained "Error + TreeDrain"
  | Watched "Error + bool"
  | Waited "nat option" "Error + ChildWaitOutcome"
  | Torn_Down TeardownWorld "Act list"

type_synonym ('k, 'a) teff = "('k, TEv, 'a) eff"

text \<open>A computation of \<open>Group_Kill\<close>, with its log in this one.\<close>

definition in_group :: "('k, 'a) geff \<Rightarrow> ('k, 'a) teff" where
  "in_group m = State (\<lambda>w. case run_state m \<lparr>w_kernel = w_kernel w, w_log = []\<rparr> of
     (a, v) \<Rightarrow> (a, \<lparr>w_kernel = w_kernel v, w_log = map G (w_log v) @ w_log w\<rparr>))"

lemma wp_in_group [wp_simps]:
  "wp (in_group m) Q w = wp m (\<lambda>a v. Q a \<lparr>w_kernel = w_kernel v, w_log = map G (w_log v) @ w_log w\<rparr>) \<lparr>w_kernel = w_kernel w, w_log = []\<rparr>"
  by (simp add: wp_def in_group_def split: prod.splits)

lemma in_group_return [simp]: "in_group (State_Monad.return a) = State_Monad.return a"
  by (simp add: in_group_def State_Monad.return_def fun_eq_iff)

section \<open>The containment of a child\<close>

datatype Attached = Attached_None | Delegated | ProcessGroup i32 | Cgroup | TreeWalk ProcessId

definition is_actionable :: "Attached \<Rightarrow> bool" where
  "is_actionable a = (case a of Attached_None \<Rightarrow> False | Delegated \<Rightarrow> False | _ \<Rightarrow> True)"

definition needs_root_check :: "Attached \<Rightarrow> bool" where
  "needs_root_check a = (case a of ProcessGroup _ \<Rightarrow> True | _ \<Rightarrow> False)"

definition can_observe_drain :: "Attached \<Rightarrow> bool" where
  "can_observe_drain a = (a = Cgroup)"

text \<open>Whether a kill names the tree by the root's number; the text it is phrased as is left out.\<close>

definition named_by_root_number :: "Attached \<Rightarrow> bool" where
  "named_by_root_number a = (case a of ProcessGroup _ \<Rightarrow> True | TreeWalk _ \<Rightarrow> True | _ \<Rightarrow> False)"

definition linux_unsupported :: "String.literal \<Rightarrow> Error" where
  "linux_unsupported op = Unsupported op (STR ''linux'')"

definition require_contained :: "Attached \<Rightarrow> Error + unit" where
  "require_contained a = (if is_actionable a then Inr () else Inl (linux_unsupported (STR ''tree teardown (kill_tree / terminate_tree)'')))"

record TreeChild =
  tc_id :: ProcessId
  tc_attached :: Attached
  tc_front :: "Front option"
  tc_elevated_wrapper :: bool
  tc_graceful :: GracefulMechanism

definition mark :: "('k, unit) teff" where
  "mark = call (\<lambda>_. Marked) (\<lambda>k. ((), k))"

definition hard_kill_report :: "'k TreeSys \<Rightarrow> Attached \<Rightarrow> GroupRoot \<Rightarrow> ('k, (Error + unit) \<times> bool) teff" where
  "hard_kill_report S a root = (case a of
      ProcessGroup pgid \<Rightarrow> do { r \<leftarrow> in_group (kill_group (ts_group S) pgid root); State_Monad.return (r, r = Inr ()) }
    | Cgroup \<Rightarrow> do { r \<leftarrow> call Leaf_Killed (ts_leaf_kill S); State_Monad.return (r, r = Inr ()) }
    | TreeWalk i \<Rightarrow> do {
        r \<leftarrow> call (Walk_Killed i) (ts_walk_kill S i);
        State_Monad.return (case r of Inr complete \<Rightarrow> (Inr (), complete) | Inl e \<Rightarrow> (Inl e, False))
      }
    | _ \<Rightarrow> State_Monad.return (Inr (), True))"

definition hard_kill_marking :: "'k TreeSys \<Rightarrow> Attached \<Rightarrow> GroupRoot \<Rightarrow> ('k, Error + unit) teff" where
  "hard_kill_marking S a root = do {
     (r, complete) \<leftarrow> hard_kill_report S a root;
     if r = Inr () \<and> complete then do { _ \<leftarrow> mark; State_Monad.return r } else State_Monad.return r
   }"

definition hard_kill_refused_to_walk :: "Attached \<Rightarrow> Error + unit \<Rightarrow> bool" where
  "hard_kill_refused_to_walk a r = (case a of TreeWalk _ \<Rightarrow> r \<noteq> Inr () | _ \<Rightarrow> False)"

definition attached_terminate :: "'k TreeSys \<Rightarrow> Attached \<Rightarrow> GroupRoot \<Rightarrow> ('k, Error + unit) teff" where
  "attached_terminate S a root = (case a of
      ProcessGroup pgid \<Rightarrow> in_group (term_group (ts_group S) pgid root)
    | Cgroup \<Rightarrow> call Leaf_Termed (ts_leaf_term S)
    | TreeWalk i \<Rightarrow> call (Walk_Termed i) (ts_walk_term S i)
    | _ \<Rightarrow> State_Monad.return (Inl (linux_unsupported (STR ''terminate on a non-actionable mechanism''))))"

section \<open>The handle\<close>

definition lock :: "'k TreeSys \<Rightarrow> ('k, State) teff" where
  "lock S = call Locked (ts_lock S)"

text \<open>\<^verbatim>\<open>ReapHold\<close>, once the lock is taken, and the root it gives a send to the group.\<close>

definition hold :: "'k TreeSys \<Rightarrow> TreeChild \<Rightarrow> ('k, ReapHold) teff" where
  "hold S c = do { st \<leftarrow> lock S; State_Monad.return \<lparr>rh_pid = pid (tc_id c), rh_state = st\<rparr> }"

definition held_group :: "'k TreeSys \<Rightarrow> ReapHold \<Rightarrow> GroupRoot" where
  "held_group S h = \<lparr>gr_pidfd = Some (ts_pidfd S), gr_hold = Some h\<rparr>"

text \<open>The handle's send, with the lock held.\<close>

definition held_signal :: "'k TreeSys \<Rightarrow> ReapHold \<Rightarrow> Sig \<Rightarrow> ('k, i32 + Sent) teff" where
  "held_signal S h sig = (case rh_state h of
      St_E _ \<Rightarrow> State_Monad.return (Inr Gone)
    | _ \<Rightarrow> call (Root_Sent sig) (ts_send S sig))"

definition owned_signal :: "'k TreeSys \<Rightarrow> TreeChild \<Rightarrow> Sig \<Rightarrow> ('k, i32 + Sent) teff" where
  "owned_signal S c sig = do { h \<leftarrow> hold S c; held_signal S h sig }"

definition root_running :: "'k TreeSys \<Rightarrow> ('k, Error + bool) teff" where
  "root_running S = do {
     st \<leftarrow> lock S;
     call Front_Runs (\<lambda>k. case st of
         St_E _ \<Rightarrow> (Inr False, k)
       | _ \<Rightarrow> (case gs_peek (ts_group S) k of (p, k') \<Rightarrow> (map_sum id (\<lambda>out. out = Peek_Running) p, k')))
   }"

text \<open>The reads of the leaf answer \<open>False\<close> at once for every other mechanism.\<close>

definition leaf_asked :: "Attached \<Rightarrow> (IoError + bool \<Rightarrow> TEv) \<Rightarrow> ('k \<Rightarrow> (IoError + bool) \<times> 'k) \<Rightarrow> ('k, IoError + bool) teff" where
  "leaf_asked a ev f = (if a = Cgroup then call ev f else State_Monad.return (Inr False))"

definition child_kill_gate :: "'k TreeSys \<Rightarrow> TreeChild \<Rightarrow> ('k, Gate) teff" where
  "child_kill_gate S c = (case tc_front c of
      None \<Rightarrow> State_Monad.return Open
    | Some f \<Rightarrow> do {
        running \<leftarrow> root_running S;
        if running = Inr False then State_Monad.return ExitedFront
        else do {
          placed \<leftarrow> leaf_asked (tc_attached c) Front_Placed (ts_placed S);
          if placed = Inr True then State_Monad.return (kill_gate (tc_front c) running placed running)
          else do { again \<leftarrow> root_running S; State_Monad.return (kill_gate (tc_front c) running placed again) }
        }
      })"

definition child_terminate_gate :: "'k TreeSys \<Rightarrow> TreeChild \<Rightarrow> ('k, Gate) teff" where
  "child_terminate_gate S c = (case tc_front c of
      None \<Rightarrow> State_Monad.return Open
    | Some f \<Rightarrow>
        if relays_term f then State_Monad.return Open
        else do { running \<leftarrow> root_running S; State_Monad.return (terminate_gate (tc_front c) running) })"

definition child_cgroup_kill_reached :: "'k TreeSys \<Rightarrow> TreeChild \<Rightarrow> ('k, Error + unit) teff" where
  "child_cgroup_kill_reached S c = (case tc_front c of
      None \<Rightarrow> State_Monad.return (Inl Containment)
    | Some f \<Rightarrow> do {
        running \<leftarrow> root_running S;
        if running = Inr False then State_Monad.return (Inr ())
        else do {
          named \<leftarrow> leaf_asked (tc_attached c) Front_Named (ts_named S);
          if named = Inr True then State_Monad.return (Inr ())
          else do {
            again \<leftarrow> root_running S;
            State_Monad.return (cgroup_kill_reached (tc_front c) (map_sum id Not running) named (map_sum id Not again))
          }
        }
      })"

section \<open>The look at the root\<close>

text \<open>The reason a number may name another process is left out; \<open>exact_root\<close> is kept.\<close>

datatype RootNumber = Number_Trusted | Number_Empty | MayNameAnother bool | GroupGone

definition own_reaped_free :: RootNumber where
  "own_reaped_free = Number_Trusted"

definition root_number :: "'k TreeSys \<Rightarrow> Attached \<Rightarrow> RawPid \<Rightarrow> ('k, RootState) geff \<Rightarrow> ('k, RootNumber) geff" where
  "root_number S a p state = (
     if \<not> needs_root_check a then State_Monad.return Number_Trusted
     else do {
       st \<leftarrow> state;
       if st = Unreaped then State_Monad.return Number_Trusted
       else if st = Root_Reaped True then do {
         now \<leftarrow> root_identity_now (ts_group S) p;
         State_Monad.return (case now of Resolved_Gone \<Rightarrow> own_reaped_free | Found _ \<Rightarrow> Number_Empty | Resolved_Unknown \<Rightarrow> MayNameAnother False)
       }
       else State_Monad.return (MayNameAnother (case st of Root_Unknown _ \<Rightarrow> True | _ \<Rightarrow> False))
     })"

definition through_the_pidfd :: "'k TreeSys \<Rightarrow> Attached \<Rightarrow> RootNumber \<Rightarrow> GroupRoot \<Rightarrow> ('k, RootNumber) geff" where
  "through_the_pidfd S a number root = (case number of
      MayNameAnother exact_root \<Rightarrow> (case a of
          ProcessGroup _ \<Rightarrow> do {
            m \<leftarrow> has_member (ts_group S) root;
            State_Monad.return (
              if m = Some True then Number_Trusted
              else if m = Some False \<and> \<not> exact_root then GroupGone
              else number)
          }
        | _ \<Rightarrow> State_Monad.return number)
    | _ \<Rightarrow> State_Monad.return number)"

definition call_root_number :: "'k TreeSys \<Rightarrow> TreeChild \<Rightarrow> ReapHold \<Rightarrow> ('k, RootNumber) geff" where
  "call_root_number S c h = do {
     number \<leftarrow> root_number S (tc_attached c) (pid (tc_id c)) (held_state (ts_group S) h);
     through_the_pidfd S (tc_attached c) number (held_group S h)
   }"

definition mark_if_kill :: "Sig \<Rightarrow> ('k, unit) teff" where
  "mark_if_kill sig = (if sig = Sig_Kill then mark else State_Monad.return ())"

text \<open>No mechanism of Linux names its tree by identity, so there are no holders to signal.\<close>

definition number_skipped :: "(Error + Sent) option \<Rightarrow> Error" where
  "number_skipped root = (case root of Some (Inl e) \<Rightarrow> e | _ \<Rightarrow> Unassessable None)"

definition root_checked ::
  "'k TreeSys \<Rightarrow> TreeChild \<Rightarrow> Sig \<Rightarrow> ReapHold \<Rightarrow> ('k, Error + Sent) teff \<Rightarrow> ('k, (Error + unit) option) teff" where
  "root_checked S c sig h signal_root = do {
     number \<leftarrow> in_group (call_root_number S c h);
     case number of
       Number_Trusted \<Rightarrow> State_Monad.return None
     | Number_Empty \<Rightarrow> do { _ \<leftarrow> mark_if_kill sig; State_Monad.return (Some (Inr ())) }
     | GroupGone \<Rightarrow> do { _ \<leftarrow> mark_if_kill sig; State_Monad.return (Some (Inr ())) }
     | MayNameAnother exact_root \<Rightarrow>
         if exact_root then do { sent \<leftarrow> signal_root; State_Monad.return (Some (Inl (number_skipped (Some sent)))) }
         else State_Monad.return (Some (Inl (number_skipped None)))
   }"

datatype Graceful = Signal_Tree | Sent_Already "Error + unit" | End_Call Error | RootThroughPidfd

definition graceful :: "'k TreeSys \<Rightarrow> TreeChild \<Rightarrow> ReapHold \<Rightarrow> ('k, Graceful) teff" where
  "graceful S c h = do {
     number \<leftarrow> in_group (call_root_number S c h);
     State_Monad.return (case number of
         Number_Trusted \<Rightarrow> Signal_Tree
       | GroupGone \<Rightarrow> Sent_Already (Inr ())
       | Number_Empty \<Rightarrow> Sent_Already (Inr ())
       | MayNameAnother exact_root \<Rightarrow> if exact_root then RootThroughPidfd else End_Call (number_skipped None))
   }"

section \<open>Killing and terminating the tree\<close>

definition elevated_kill :: "TreeChild \<Rightarrow> i32 + Sent \<Rightarrow> Error + Sent" where
  "elevated_kill c = map_sum (\<lambda>e. map_elevated_kill_error e (tc_elevated_wrapper c)) id"

text \<open>\<^verbatim>\<open>kill_tree_after\<close>, in three parts: after the sweep, after the gate, and as a whole.\<close>

definition kill_tree_swept :: "'k TreeSys \<Rightarrow> TreeChild \<Rightarrow> Gate \<Rightarrow> Error + unit \<Rightarrow> ('k, Error + unit) teff" where
  "kill_tree_swept S c gate swept = (
     if hard_kill_refused_to_walk (tc_attached c) swept then State_Monad.return swept
     else if gate = CgroupOnly then (case swept of
         Inr _ \<Rightarrow> child_cgroup_kill_reached S c
       | Inl e \<Rightarrow> State_Monad.return (Inl (cgroup_kill_failed (tc_front c) e)))
     else if gate = ExitedFront then State_Monad.return swept
     else do {
       r \<leftarrow> owned_signal S c Sig_Kill;
       State_Monad.return (case swept of Inl e \<Rightarrow> Inl e | Inr _ \<Rightarrow> map_sum id (\<lambda>_. ()) (elevated_kill c r))
     })"

definition kill_tree_gated :: "'k TreeSys \<Rightarrow> TreeChild \<Rightarrow> Gate \<Rightarrow> ('k, Error + unit) teff" where
  "kill_tree_gated S c gate = do {
     h \<leftarrow> hold S c;
     decided \<leftarrow> root_checked S c Sig_Kill h (do { r \<leftarrow> held_signal S h Sig_Kill; State_Monad.return (elevated_kill c r) });
     case decided of
       Some result \<Rightarrow> State_Monad.return result
     | None \<Rightarrow> do { swept \<leftarrow> hard_kill_marking S (tc_attached c) (held_group S h); kill_tree_swept S c gate swept }
   }"

definition kill_tree :: "'k TreeSys \<Rightarrow> TreeChild \<Rightarrow> ('k, Error + unit) teff" where
  "kill_tree S c = (case require_contained (tc_attached c) of
      Inl e \<Rightarrow> State_Monad.return (Inl e)
    | Inr _ \<Rightarrow> do {
        gate \<leftarrow> child_kill_gate S c;
        case gate of
          Closed unkillable \<Rightarrow> State_Monad.return (Inl unkillable)
        | _ \<Rightarrow> kill_tree_gated S c gate
      })"

definition terminate_tree :: "'k TreeSys \<Rightarrow> TreeChild \<Rightarrow> ('k, Error + unit) teff" where
  "terminate_tree S c = (case require_contained (tc_attached c) of
      Inl e \<Rightarrow> State_Monad.return (Inl e)
    | Inr _ \<Rightarrow> do {
        h \<leftarrow> hold S c;
        decided \<leftarrow> root_checked S c Sig_Term h (do { r \<leftarrow> held_signal S h Sig_Term; State_Monad.return (map_sum Io id r) });
        case decided of
          Some result \<Rightarrow> State_Monad.return result
        | None \<Rightarrow> attached_terminate S (tc_attached c) (held_group S h)
      })"

section \<open>Waiting\<close>

definition wait_root :: "'k TreeSys \<Rightarrow> nat option \<Rightarrow> ('k, Error + i32 option) teff" where
  "wait_root S deadline = do {
     waited \<leftarrow> call (Waited deadline) (ts_wait S deadline);
     State_Monad.return (looked_status waited)
   }"

definition wait_root_unbounded :: "'k TreeSys \<Rightarrow> ('k, Error + i32) teff" where
  "wait_root_unbounded S = do {
     r \<leftarrow> wait_root S None;
     State_Monad.return (case r of Inl e \<Rightarrow> Inl e | Inr (Some status) \<Rightarrow> Inr status | Inr None \<Rightarrow> Inl (IoKind OtherKind))
   }"

definition exited_by :: "'k TreeSys \<Rightarrow> nat \<Rightarrow> ('k, Error + bool) teff" where
  "exited_by S grace = call Watched (ts_watch S grace)"

definition wait_drained :: "'k TreeSys \<Rightarrow> Attached \<Rightarrow> nat \<Rightarrow> ('k, Error + TreeDrain) teff" where
  "wait_drained S a grace =
     (if a = Cgroup then call Drained (ts_drain S grace)
      else State_Monad.return (Inl (linux_unsupported (STR ''wait for the contained tree to drain''))))"

definition status_unless_reaped_elsewhere :: "Error + i32 \<Rightarrow> Error + i32" where
  "status_unless_reaped_elsewhere waited = (case waited of
      Inl e \<Rightarrow> if raw_os e = Some ECHILD then Inl (Unassessable None) else Inl e
    | Inr status \<Rightarrow> Inr status)"

section \<open>Graceful shutdown\<close>

definition signal_graceful :: "'k TreeSys \<Rightarrow> TreeChild \<Rightarrow> ('k, Error + unit) teff" where
  "signal_graceful S c = (case tc_graceful c of
      Process_Mechanism \<Rightarrow> do { r \<leftarrow> owned_signal S c Sig_Term; State_Monad.return (map_sum Io (\<lambda>_. ()) r) }
    | _ \<Rightarrow> State_Monad.return (Inl (linux_unsupported (STR ''graceful terminate''))))"

definition child_terminate :: "'k TreeSys \<Rightarrow> TreeChild \<Rightarrow> ('k, Error + unit) teff" where
  "child_terminate S c = do {
     gate \<leftarrow> child_terminate_gate S c;
     case gate of
       Closed unkillable \<Rightarrow> State_Monad.return (Inl unkillable)
     | _ \<Rightarrow> signal_graceful S c
   }"

text \<open>The escalation, after the grace.\<close>

definition escalate_gated :: "'k TreeSys \<Rightarrow> TreeChild \<Rightarrow> Gate \<Rightarrow> ('k, Error + unit) teff" where
  "escalate_gated S c gate = (case gate of
      Closed unkillable \<Rightarrow> State_Monad.return (Inl unkillable)
    | ExitedFront \<Rightarrow> do {
        r \<leftarrow> owned_signal S c Sig_Kill;
        State_Monad.return (case r of Inl e \<Rightarrow> if permission_denied e then Inr () else Inl (Io e) | Inr _ \<Rightarrow> Inr ())
      }
    | Open \<Rightarrow> do { r \<leftarrow> owned_signal S c Sig_Kill; State_Monad.return (map_sum Io (\<lambda>_. ()) r) }
    | CgroupOnly \<Rightarrow> do {
        r \<leftarrow> hard_kill_marking S (tc_attached c) root_none;
        case r of
          Inl e \<Rightarrow> State_Monad.return (Inl (cgroup_kill_failed (tc_front c) e))
        | Inr _ \<Rightarrow> child_cgroup_kill_reached S c
      })"

definition escalate :: "'k TreeSys \<Rightarrow> TreeChild \<Rightarrow> ('k, Error + unit) teff" where
  "escalate S c = do { gate \<leftarrow> child_kill_gate S c; escalate_gated S c gate }"

definition kill_and_reap :: "'k TreeSys \<Rightarrow> TreeChild \<Rightarrow> Error + i32 option \<Rightarrow> ('k, Error + i32) teff" where
  "kill_and_reap S c watch = do {
     killed \<leftarrow> escalate S c;
     case killed of
       Inl e \<Rightarrow> State_Monad.return (Inl e)
     | Inr _ \<Rightarrow> do {
         status \<leftarrow> wait_root_unbounded S;
         State_Monad.return (case status of Inl e \<Rightarrow> Inl e | Inr st \<Rightarrow> (case watch of Inl e \<Rightarrow> Inl e | Inr _ \<Rightarrow> Inr st))
       }
   }"

definition graceful_shutdown :: "'k TreeSys \<Rightarrow> TreeChild \<Rightarrow> nat \<Rightarrow> ('k, Error + i32) teff" where
  "graceful_shutdown S c grace = do {
     termed \<leftarrow> child_terminate S c;
     case termed of
       Inl e \<Rightarrow> State_Monad.return (Inl e)
     | Inr _ \<Rightarrow> do {
         watch \<leftarrow> wait_root S (Some grace);
         case watch of
           Inr (Some status) \<Rightarrow> State_Monad.return (Inr status)
         | _ \<Rightarrow> kill_and_reap S c watch
       }
   }"

text \<open>\<^verbatim>\<open>PidfdShutdown\<close>: the root alone, through its pidfd. The result is the call's error.\<close>

definition pidfd_shutdown_error :: "Error + Sent \<Rightarrow> (Error + Sent) option \<Rightarrow> Error" where
  "pidfd_shutdown_error term killed = (case term of
      Inl e \<Rightarrow> e
    | Inr _ \<Rightarrow> (case killed of Some (Inl e) \<Rightarrow> e | _ \<Rightarrow> Unassessable None))"

definition kill_unless_closed :: "'k TreeSys \<Rightarrow> TreeChild \<Rightarrow> ('k, Error + Sent) teff" where
  "kill_unless_closed S c = do {
     gate \<leftarrow> child_kill_gate S c;
     case gate of
       Closed unkillable \<Rightarrow> State_Monad.return (Inl unkillable)
     | _ \<Rightarrow> do { r \<leftarrow> owned_signal S c Sig_Kill; State_Monad.return (elevated_kill c r) }
   }"

definition shut_down_root_through_pidfd :: "'k TreeSys \<Rightarrow> TreeChild \<Rightarrow> nat \<Rightarrow> ('k, Error) teff" where
  "shut_down_root_through_pidfd S c grace = do {
     gate \<leftarrow> child_terminate_gate S c;
     case gate of
       Closed unkillable \<Rightarrow> State_Monad.return unkillable
     | _ \<Rightarrow> do {
         r \<leftarrow> owned_signal S c Sig_Term;
         if r = Inr Delivered then do {
           exited \<leftarrow> exited_by S grace;
           if exited = Inr True then State_Monad.return (pidfd_shutdown_error (map_sum Io id r) None)
           else do { killed \<leftarrow> kill_unless_closed S c; State_Monad.return (pidfd_shutdown_error (map_sum Io id r) (Some killed)) }
         }
         else State_Monad.return (pidfd_shutdown_error (map_sum Io id r) None)
       }
   }"

text \<open>Whether the grace and the sweep follow a cooperative signal that was answered so.\<close>

definition holds_and_continues :: "Error + unit \<Rightarrow> bool" where
  "holds_and_continues r = (case r of Inr _ \<Rightarrow> True | Inl Containment \<Rightarrow> True | Inl (Unassessable None) \<Rightarrow> True | _ \<Rightarrow> False)"

text \<open>The grace: whether the sweep may be skipped, whether the root was seen to have exited, and the error of the watch.\<close>

definition root_watched :: "Error + bool \<Rightarrow> bool \<times> bool \<times> Error option" where
  "root_watched r = (case r of Inr exited \<Rightarrow> (False, exited, None) | Inl e \<Rightarrow> (False, False, Some e))"

definition watch_grace :: "'k TreeSys \<Rightarrow> TreeChild \<Rightarrow> nat \<Rightarrow> ('k, bool \<times> bool \<times> Error option) teff" where
  "watch_grace S c grace = (
     if can_observe_drain (tc_attached c) then do {
       d \<leftarrow> wait_drained S (tc_attached c) grace;
       case d of
         Inl e \<Rightarrow> State_Monad.return (False, False, Some e)
       | Inr verdict \<Rightarrow>
           if permits_skipping_sweep verdict then State_Monad.return (True, True, None)
           else do { r \<leftarrow> exited_by S 0; State_Monad.return (root_watched r) }
     }
     else do { r \<leftarrow> exited_by S grace; State_Monad.return (root_watched r) })"

definition reap_swept :: "'k TreeSys \<Rightarrow> Error option \<Rightarrow> ('k, Error + i32) teff" where
  "reap_swept S watch_err = do {
     waited \<leftarrow> wait_root_unbounded S;
     State_Monad.return (case status_unless_reaped_elsewhere waited of
         Inl e \<Rightarrow> Inl e
       | Inr status \<Rightarrow> (case watch_err of Some e \<Rightarrow> Inl e | None \<Rightarrow> Inr status))
   }"

definition sweep_and_reap :: "'k TreeSys \<Rightarrow> TreeChild \<Rightarrow> bool \<Rightarrow> Error option \<Rightarrow> ('k, Error + i32) teff" where
  "sweep_and_reap S c root_exited watch_err = do {
     swept \<leftarrow> kill_tree S c;
     case swept of
       Inr _ \<Rightarrow> reap_swept S watch_err
     | Inl e \<Rightarrow>
         if root_exited then do { _ \<leftarrow> wait_root_unbounded S; State_Monad.return (Inl e) }
         else State_Monad.return (Inl e)
   }"

definition after_tree_signal :: "'k TreeSys \<Rightarrow> TreeChild \<Rightarrow> nat \<Rightarrow> ('k, Error + i32) teff" where
  "after_tree_signal S c grace = do {
     (drained, root_exited, watch_err) \<leftarrow> watch_grace S c grace;
     if drained then reap_swept S watch_err else sweep_and_reap S c root_exited watch_err
   }"

definition settle_signal :: "'k TreeSys \<Rightarrow> TreeChild \<Rightarrow> nat \<Rightarrow> Error + unit \<Rightarrow> ('k, Error + i32) teff" where
  "settle_signal S c grace r = (case r of
      Inl e \<Rightarrow> if holds_and_continues r then after_tree_signal S c grace else State_Monad.return (Inl e)
    | Inr _ \<Rightarrow> after_tree_signal S c grace)"

definition graceful_shutdown_tree :: "'k TreeSys \<Rightarrow> TreeChild \<Rightarrow> nat \<Rightarrow> ('k, Error + i32) teff" where
  "graceful_shutdown_tree S c grace = (case require_contained (tc_attached c) of
      Inl e \<Rightarrow> State_Monad.return (Inl e)
    | Inr _ \<Rightarrow> do {
        h \<leftarrow> hold S c;
        decided \<leftarrow> graceful S c h;
        case decided of
          End_Call e \<Rightarrow> State_Monad.return (Inl e)
        | RootThroughPidfd \<Rightarrow> do { e \<leftarrow> shut_down_root_through_pidfd S c grace; State_Monad.return (Inl e) }
        | Sent_Already r \<Rightarrow> settle_signal S c grace r
        | Signal_Tree \<Rightarrow> do { r \<leftarrow> attached_terminate S (tc_attached c) (held_group S h); settle_signal S c grace r }
      })"

section \<open>The drop\<close>

datatype RootView = View_Reaped | View_Unknown Error | View_Unpinned | View_Trusted

record DropView =
  dv_root :: RootView
  dv_tree_killed :: bool

definition root_reaped :: "bool \<Rightarrow> ProcessId \<Rightarrow> ProcessId Resolved \<Rightarrow> bool" where
  "root_reaped own_reap self now = (own_reap \<or> (case now of Found i \<Rightarrow> i \<noteq> self | Resolved_Gone \<Rightarrow> True | Resolved_Unknown \<Rightarrow> False))"

definition view_of :: "ProcessId \<Rightarrow> ProcessId Resolved \<Rightarrow> RootState \<Rightarrow> RootView" where
  "view_of self now st = (
     if root_reaped (case st of Root_Reaped _ \<Rightarrow> True | _ \<Rightarrow> False) self now then View_Reaped
     else (case st of
         Unreaped \<Rightarrow> View_Trusted
       | Root_Unknown e \<Rightarrow> View_Unknown e
       | Unpinned \<Rightarrow> View_Unpinned
       | Root_Reaped _ \<Rightarrow> View_Reaped))"

definition drop_view_read :: "'k TreeSys \<Rightarrow> TreeChild \<Rightarrow> bool \<Rightarrow> ('k, DropView) teff" where
  "drop_view_read S c tree_killed = do {
     now \<leftarrow> in_group (root_identity_now (ts_group S) (pid (tc_id c)));
     h \<leftarrow> hold S c;
     st \<leftarrow> in_group (held_state (ts_group S) h);
     State_Monad.return \<lparr>dv_root = view_of (tc_id c) now st, dv_tree_killed = tree_killed\<rparr>
   }"

definition number_untrusted :: "DropView \<Rightarrow> bool" where
  "number_untrusted v = (dv_root v \<noteq> View_Trusted)"

definition leaves_root_alone :: "DropView \<Rightarrow> bool" where
  "leaves_root_alone v = (dv_root v = View_Reaped \<or> dv_root v = View_Unpinned)"

definition skipped_action :: "DropView \<Rightarrow> Attached \<Rightarrow> bool" where
  "skipped_action v a = (named_by_root_number a \<and> number_untrusted v)"

datatype DropReach = Reach_Kill | Reach_GroupGone | Reach_Skip

definition drop_reach :: "'k TreeSys \<Rightarrow> Attached \<Rightarrow> DropView \<Rightarrow> GroupRoot \<Rightarrow> ('k, DropReach) teff" where
  "drop_reach S a v root = (
     if \<not> skipped_action v a then State_Monad.return Reach_Kill
     else do {
       number \<leftarrow> in_group (through_the_pidfd S a (MayNameAnother (case dv_root v of View_Unknown _ \<Rightarrow> True | _ \<Rightarrow> False)) root);
       State_Monad.return (case number of Number_Trusted \<Rightarrow> Reach_Kill | GroupGone \<Rightarrow> Reach_GroupGone | _ \<Rightarrow> Reach_Skip)
     })"

text \<open>The kill's result, and whether something was left undone that the drop warns of.\<close>

definition hard_kill_for_drop :: "'k TreeSys \<Rightarrow> Attached \<Rightarrow> DropView \<Rightarrow> GroupRoot \<Rightarrow> ('k, (Error + unit) \<times> bool) teff" where
  "hard_kill_for_drop S a v root = do {
     reach \<leftarrow> drop_reach S a v root;
     case reach of
       Reach_Kill \<Rightarrow> do { (r, _) \<leftarrow> hard_kill_report S a root; State_Monad.return (r, False) }
     | Reach_GroupGone \<Rightarrow> State_Monad.return (Inr (), False)
     | Reach_Skip \<Rightarrow> State_Monad.return (Inr (), \<not> dv_tree_killed v)
   }"

text \<open>The result is whether the kill was skipped.\<close>

definition hard_kill_marking_unless_reaped :: "'k TreeSys \<Rightarrow> Attached \<Rightarrow> DropView \<Rightarrow> GroupRoot \<Rightarrow> ('k, Error + bool) teff" where
  "hard_kill_marking_unless_reaped S a v root = do {
     reach \<leftarrow> drop_reach S a v root;
     case reach of
       Reach_Kill \<Rightarrow> do { r \<leftarrow> hard_kill_marking S a root; State_Monad.return (map_sum id (\<lambda>_. False) r) }
     | Reach_GroupGone \<Rightarrow> do { _ \<leftarrow> mark; State_Monad.return (Inr False) }
     | Reach_Skip \<Rightarrow> State_Monad.return (Inr True)
   }"

definition torn_down :: "'k TreeSys \<Rightarrow> (TeardownWorld \<Rightarrow> Act list \<times> TeardownOutcome option) \<Rightarrow> ('k, TeardownOutcome option) teff" where
  "torn_down S f = do {
     (W, acts, out) \<leftarrow> call (\<lambda>(W, acts, _). Torn_Down W acts) (\<lambda>k. case ts_teardown S k of (W, k') \<Rightarrow> ((W, f W), k'));
     State_Monad.return out
   }"

definition tear_down_leaf_and_look_at_front :: "'k TreeSys \<Rightarrow> TreeChild \<Rightarrow> ('k, TeardownOutcome option) teff" where
  "tear_down_leaf_and_look_at_front S c = (
     if tc_attached c = Cgroup then do {
       subtree \<leftarrow> call Subtree_Read (ts_subtree S);
       _ \<leftarrow> call (\<lambda>_. Leaf_Dropped) (ts_leaf_drop S);
       torn_down S (\<lambda>W. tear_down W (Some (tc_id c)) (Kind_Look (map_sum id (\<lambda>_. True) subtree)))
     }
     else torn_down S (\<lambda>W. tear_down W (Some (tc_id c)) (Kind_Look (Inr False))))"

text \<open>The fate; \<open>None\<close> for a wait that does not end.\<close>

definition drop_root :: "'k TreeSys \<Rightarrow> TreeChild \<Rightarrow> Gate \<Rightarrow> DropView \<Rightarrow> Error + unit \<Rightarrow> ('k, ChildFate option) teff" where
  "drop_root S c gate v killed = (
     if leaves_root_alone v then do {
       st \<leftarrow> lock S;
       State_Monad.return (Some (case st of St_E _ \<Rightarrow> Fate_Reaped | _ \<Rightarrow> Fate_Gone))
     }
     else do {
       torn \<leftarrow> (if gate = CgroupOnly then do {
             reached \<leftarrow> (case killed of Inl e \<Rightarrow> State_Monad.return (Inl e) | Inr _ \<Rightarrow> child_cgroup_kill_reached S c);
             case reached of
               Inr _ \<Rightarrow> torn_down S reap_after_tree_kill
             | Inl e \<Rightarrow> tear_down_leaf_and_look_at_front S c
           }
           else torn_down S (\<lambda>W. tear_down W (Some (tc_id c)) Kind_Kill));
       State_Monad.return (map_option to_fate torn)
     })"

definition drop_tree :: "'k TreeSys \<Rightarrow> TreeChild \<Rightarrow> Gate \<Rightarrow> DropView \<Rightarrow> ('k, ChildFate option) teff" where
  "drop_tree S c gate v = do {
     h \<leftarrow> hold S c;
     (killed, _) \<leftarrow> hard_kill_for_drop S (tc_attached c) v (held_group S h);
     drop_root S c gate v killed
   }"

definition drop_unix :: "'k TreeSys \<Rightarrow> TreeChild \<Rightarrow> bool \<Rightarrow> ('k, ChildFate option) teff" where
  "drop_unix S c tree_killed = do {
     gate \<leftarrow> child_kill_gate S c;
     v \<leftarrow> drop_view_read S c tree_killed;
     case gate of
       Closed _ \<Rightarrow> do { torn \<leftarrow> tear_down_leaf_and_look_at_front S c; State_Monad.return (map_option to_fate torn) }
     | _ \<Rightarrow> drop_tree S c gate v
   }"

section \<open>Rules of a log\<close>

text \<open>Every event of the log satisfies the rule, given the events before it.\<close>

primrec log_all :: "('e \<Rightarrow> 'e list \<Rightarrow> bool) \<Rightarrow> 'e list \<Rightarrow> bool" where
  "log_all P [] = True"
| "log_all P (e # l) = (P e l \<and> log_all P l)"

lemma log_all_append: "(\<And>as e bs. es = as @ e # bs \<Longrightarrow> P e (bs @ l)) \<Longrightarrow> log_all P l \<Longrightarrow> log_all P (es @ l)"
proof (induction es)
  case (Cons a es)
  have "P a (es @ l)" using Cons.prems(1) [of "[]"] by simp
  moreover have "log_all P (es @ l)" by (rule Cons.IH) (use Cons.prems(1) [of "a # _"] Cons.prems(2) in auto)
  ultimately show ?case by simp
qed simp

subsection \<open>What may be sent\<close>

text \<open>The group's events right before an event.\<close>

primrec leading :: "TEv list \<Rightarrow> Ev list" where
  "leading [] = []"
| "leading (e # l) = (case e of G g \<Rightarrow> g # leading l | _ \<Rightarrow> [])"

lemma leading_G [simp]: "leading (map G gs @ l) = gs @ leading l"
  by (induction gs) simp_all

fun send_ok :: "i32 \<Rightarrow> Ev list \<Rightarrow> Ev \<Rightarrow> bool" where
  "send_ok pgid l (Group_By_Number p t _) = (vouches l \<and> p = pgid)"
| "send_ok pgid l (Leader_By_Number p t _) = (vouches l \<and> p = pgid)"
| "send_ok pgid l (Member_By_Number p t _) = (case l of
      Pid_Named q (Found i) # l' \<Rightarrow> vouches l' \<and> p = q \<and> pid i = q \<and> listed_in l' i \<and> (t = SIGKILL \<or> t = 0)
    | _ \<Rightarrow> False)"
| "send_ok pgid l (Member_By_Pidfd fd _) = (vouches l \<and>
      (case dropWhile is_check l of Opened i (Inr (Some fd')) # l' \<Rightarrow> fd' = fd \<and> listed_in l' i | _ \<Rightarrow> False))"
| "send_ok pgid l _ = True"

text \<open>A \<^verbatim>\<open>SIGKILL\<close> that is not the cgroup's.\<close>

fun kills_group :: "Ev \<Rightarrow> bool" where
  "kills_group (Group_By_Pidfd t _) = (t = SIGKILL)"
| "kills_group (Leader_By_Pidfd t _) = (t = SIGKILL)"
| "kills_group (Group_By_Number _ t _) = (t = SIGKILL)"
| "kills_group (Leader_By_Number _ t _) = (t = SIGKILL)"
| "kills_group (Member_By_Number _ t _) = (t = SIGKILL)"
| "kills_group (Member_By_Pidfd _ _) = True"
| "kills_group _ = False"

fun kills_root :: "TEv \<Rightarrow> bool" where
  "kills_root (G g) = kills_group g"
| "kills_root (Root_Sent sig _) = (sig = Sig_Kill)"
| "kills_root (Walk_Killed _ _) = True"
| "kills_root (Torn_Down W acts) = (Send_Kill \<in> set acts)"
| "kills_root _ = False"

definition front_exited :: "TEv list \<Rightarrow> bool" where
  "front_exited l \<longleftrightarrow> Front_Runs (Inr False) \<in> set l"

definition root_pgid :: "TreeChild \<Rightarrow> i32" where
  "root_pgid c = (case tc_attached c of ProcessGroup pgid \<Rightarrow> pgid | _ \<Rightarrow> 0)"

definition send_rule :: "TreeChild \<Rightarrow> TEv \<Rightarrow> TEv list \<Rightarrow> bool" where
  "send_rule c e l \<longleftrightarrow>
     (\<forall>g. e = G g \<longrightarrow> send_ok (root_pgid c) (leading l) g)
   \<and> (kills_root e \<longrightarrow> tc_front c = None \<or> front_exited l)
   \<and> (\<forall>r. e = Leaf_Killed r \<longrightarrow> tc_front c = None \<or> front_exited l \<or> Front_Placed (Inr True) \<in> set l)"

lemma vouches_append: "vouches l \<Longrightarrow> vouches (l @ m)"
  by (cases l rule: vouches.cases) simp_all

lemma listed_append: "listed_in l i \<Longrightarrow> listed_in (l @ m) i"
  by (auto simp: listed_in_def)

lemma dropWhile_opened: "dropWhile P l = x # l' \<Longrightarrow> dropWhile P (l @ m) = x # l' @ m"
  by (metis append_Cons dropWhile_append dropWhile_eq_Nil_conv list.distinct(1) dropWhile_append1 hd_dropWhile list.sel(1) hd_in_set set_dropWhileD)

lemma vouched_Cons:
  assumes "vouched pgid s (e # l)"
  shows "send_ok pgid (l @ m) e" and "kills_group e \<Longrightarrow> s = SIGKILL" and "vouched pgid s l"
proof -
  show "vouched pgid s l" using assms by simp
  show "send_ok pgid (l @ m) e"
  proof (cases e)
    case (Member_By_Number p t a)
    with assms show ?thesis
      by (auto simp: vouches_append listed_append split: list.splits Ev.splits Resolved.splits if_splits)
  next
    case (Member_By_Pidfd fd a)
    with assms obtain i l' where "dropWhile is_check l = Opened i (Inr (Some fd)) # l'" "listed_in l' i" "vouches l"
      by (auto split: list.splits Ev.splits sum.splits option.splits)
    with Member_By_Pidfd show ?thesis by (simp add: dropWhile_opened vouches_append listed_append)
  qed (use assms in \<open>auto simp: vouches_append\<close>)
  show "kills_group e \<Longrightarrow> s = SIGKILL"
    using assms by (cases e) (auto split: list.splits Ev.splits Resolved.splits if_splits)
qed

lemma group_segment:
  assumes "vouched (root_pgid c) s gs" and "s = SIGKILL \<longrightarrow> tc_front c = None \<or> front_exited l" and "log_all (send_rule c) l"
  shows "log_all (send_rule c) (map G gs @ l)"
  using assms(1)
proof (induction gs)
  case (Cons g gs)
  note v = vouched_Cons [OF Cons.prems]
  have "send_rule c (G g) (map G gs @ l)"
    using v(1, 2) assms(2) by (auto simp: send_rule_def front_exited_def)
  with Cons.IH v(3) show ?case by simp
qed (simp add: assms)

lemma check_segment: "list_all is_check gs \<Longrightarrow> log_all (send_rule c) l \<Longrightarrow> log_all (send_rule c) (map G gs @ l)"
proof (induction gs)
  case (Cons g gs)
  then show ?case by (cases g) (simp_all add: send_rule_def)
qed simp

subsection \<open>The look at the root\<close>

text \<open>What the look is grounded on: a number that is not trusted comes from a root that the handle does not hold, and a root to be shut down through its pidfd is a
group's.\<close>

definition looked_away :: "Ev list \<Rightarrow> bool" where
  "looked_away gs \<longleftrightarrow> (\<exists>st. Peeked st \<in> set gs \<and> (st = Unpinned \<or> (\<exists>own. st = Root_Reaped own)))"

lemma call_root_number_log:
  "wp (call_root_number S c h) (\<lambda>n v. list_all is_check (w_log v)
     \<and> (n = Number_Empty \<or> n = GroupGone \<or> n = MayNameAnother False \<longrightarrow> looked_away (w_log v))
     \<and> (n \<noteq> Number_Trusted \<longrightarrow> needs_root_check (tc_attached c))) \<lparr>w_kernel = k, w_log = []\<rparr>"
proof (cases "tc_attached c")
  case (ProcessGroup pgid)
  have r: "needs_root_check (ProcessGroup pgid)" by (simp add: needs_root_check_def)
  show ?thesis
    unfolding call_root_number_def ProcessGroup root_number_def held_state_def through_the_pidfd_def has_member_def held_group_def
      pidfd_group_has_member_def root_identity_now_def own_reaped_free_def
    by (auto simp: wp_simps r looked_away_def split: RootNumber.splits RootState.splits Resolved.splits if_splits)
qed (simp_all add: call_root_number_def root_number_def needs_root_check_def through_the_pidfd_def wp_simps)

subsection \<open>The gates\<close>

definition gate_backed :: "TreeChild \<Rightarrow> Gate \<Rightarrow> TEv list \<Rightarrow> bool" where
  "gate_backed c gate l = (case gate of
      Open \<Rightarrow> tc_front c = None
    | ExitedFront \<Rightarrow> front_exited l
    | CgroupOnly \<Rightarrow> Front_Placed (Inr True) \<in> set l \<and> tc_attached c = Cgroup
    | Closed _ \<Rightarrow> True)"

text \<open>Reads add no event that a rule constrains.\<close>

definition reading :: "TEv \<Rightarrow> bool" where
  "reading e = (case e of Locked _ \<Rightarrow> True | Front_Runs _ \<Rightarrow> True | Front_Placed _ \<Rightarrow> True | Front_Named _ \<Rightarrow> True | _ \<Rightarrow> False)"

definition only_reads :: "('k, TEv) Machine \<Rightarrow> ('k, TEv) Machine \<Rightarrow> bool" where
  "only_reads w w' \<longleftrightarrow> (\<exists>es. w_log w' = es @ w_log w \<and> list_all reading es)"

interpretation reads: run_order only_reads
proof
  show "only_reads s s" for s :: "('k, TEv) Machine" by (simp add: only_reads_def)
  show "only_reads s u" if "only_reads s t" "only_reads t u" for s t u :: "('k, TEv) Machine"
    using that by (auto simp: only_reads_def)
qed

lemma only_reads_Cons: "only_reads w w' \<Longrightarrow> reading e \<Longrightarrow> only_reads w \<lparr>w_kernel = k, w_log = e # w_log w'\<rparr>"
  unfolding only_reads_def by (elim exE conjE, rename_tac es, rule_tac x = "e # es" in exI) simp

lemma call_reads: "(\<And>a. reading (ev a)) \<Longrightarrow> keeps only_reads (call ev f)"
  by (auto simp: keeps_def wp_simps intro: only_reads_Cons reads.refl)

lemma reading_simps [simp]: "reading (Locked st)" "reading (Front_Runs r)" "reading (Front_Placed p)" "reading (Front_Named p)"
  by (simp_all add: reading_def)

lemma gates_only_read:
  "keeps only_reads (child_kill_gate S c)" "keeps only_reads (child_terminate_gate S c)" "keeps only_reads (child_cgroup_kill_reached S c)"
  "keeps only_reads (hold S c)" "keeps only_reads (lock S)"
  unfolding child_kill_gate_def child_terminate_gate_def child_cgroup_kill_reached_def root_running_def leaf_asked_def hold_def lock_def
  by (intro reads.keeps_rules call_reads; simp)+

lemma kill_gate_backed: "wp (child_kill_gate S c) (\<lambda>gate w'. gate_backed c gate (w_log w')) w"
  unfolding child_kill_gate_def root_running_def leaf_asked_def lock_def gate_backed_def
  by (auto simp: wp_simps front_exited_def kill_gate_def split: option.splits Gate.splits sum.splits if_splits)

section \<open>Runs that keep a rule\<close>

text \<open>A run keeps a rule of the log under a permission: some event of a kind is in the log already, or \<open>b\<close> holds. Events are never removed, so a permission is never
lost.\<close>

definition granted :: "bool \<Rightarrow> (TEv \<Rightarrow> bool) \<Rightarrow> TEv list \<Rightarrow> bool" where
  "granted b p l \<longleftrightarrow> b \<or> (\<exists>e\<in>set l. p e)"

definition lawful :: "(TEv \<Rightarrow> TEv list \<Rightarrow> bool) \<Rightarrow> bool \<Rightarrow> (TEv \<Rightarrow> bool) \<Rightarrow> ('k, TEv) Machine \<Rightarrow> ('k, TEv) Machine \<Rightarrow> bool" where
  "lawful P b p w w' \<longleftrightarrow> extends w w' \<and> (granted b p (w_log w) \<longrightarrow> log_all P (w_log w) \<longrightarrow> log_all P (w_log w'))"

lemma granted_extends: "extends w w' \<Longrightarrow> granted b p (w_log w) \<Longrightarrow> granted b p (w_log w')"
  by (auto simp: granted_def extends_def)

lemma granted_append: "granted b p l \<Longrightarrow> granted b p (es @ l)"
  by (auto simp: granted_def)

interpretation lawful: run_order "lawful P b p" for P b p
proof
  show "lawful P b p s s" for s :: "('k, TEv) Machine" by (simp add: lawful_def log.refl)
  show "lawful P b p s u" if "lawful P b p s t" "lawful P b p t u" for s t u :: "('k, TEv) Machine"
    using that granted_extends log.trans unfolding lawful_def by blast
qed

lemma call_lawful: "(\<And>a l. granted b p l \<Longrightarrow> P (ev a) l) \<Longrightarrow> keeps (lawful P b p) (call ev f)"
  by (auto simp: keeps_def wp_simps lawful_def extends_def)

lemma in_group_lawful:
  assumes "\<And>k. wp m (\<lambda>_ v. \<forall>l. granted b p l \<longrightarrow> log_all P l \<longrightarrow> log_all P (map G (w_log v) @ l)) \<lparr>w_kernel = k, w_log = []\<rparr>"
  shows "keeps (lawful P b p) (in_group m)"
  unfolding keeps_def wp_in_group by (intro allI, rule wp_mono [OF assms]) (auto simp: lawful_def extends_def)

lemma lawful_weaken: "keeps (lawful P b p) m \<Longrightarrow> (\<And>l. granted b' p' l \<Longrightarrow> granted b p l) \<Longrightarrow> keeps (lawful P b' p') m"
  unfolding keeps_def lawful_def by (blast intro: wp_mono)

lemma reads_lawful:
  assumes "\<And>e l. reading e \<Longrightarrow> P e l" and "keeps only_reads m"
  shows "keeps (lawful P b p) m"
  unfolding keeps_def
proof
  fix w
  show "wp m (\<lambda>_. lawful P b p w) w"
  proof (rule wp_mono [OF keeps_wp [OF assms(2), of w]])
    fix w'
    assume "only_reads w w'"
    then obtain es where es: "w_log w' = es @ w_log w" "list_all reading es" by (auto simp: only_reads_def)
    have "log_all P (es @ l)" if "log_all P l" for l
      using es(2) by (induction es) (simp_all add: that assms(1))
    with es show "lawful P b p w w'" by (auto simp: lawful_def extends_def)
  qed
qed

text \<open>Case distinctions on the model's types.\<close>

lemmas keeps_cases =
  RootNumber.split [where P = "keeps R" for R, THEN iffD2] Gate.split [where P = "keeps R" for R, THEN iffD2]
  State.split [where P = "keeps R" for R, THEN iffD2] Attached.split [where P = "keeps R" for R, THEN iffD2]
  Graceful.split [where P = "keeps R" for R, THEN iffD2] DropReach.split [where P = "keeps R" for R, THEN iffD2]
  GracefulMechanism.split [where P = "keeps R" for R, THEN iffD2] prod.split [where P = "keeps R" for R, THEN iffD2]

lemmas lawful_rules = conjI allI impI keeps_cases lawful.keeps_rules

section \<open>What the tree's calls send\<close>

abbreviation exit_seen :: "TEv \<Rightarrow> bool" where "exit_seen e \<equiv> e = Front_Runs (Inr False)"
abbreviation placed_seen :: "TEv \<Rightarrow> bool" where "placed_seen e \<equiv> exit_seen e \<or> e = Front_Placed (Inr True)"
abbreviation no_permission :: "TEv \<Rightarrow> bool" where "no_permission e \<equiv> False"

text \<open>Runs that may kill the root, runs that may kill through the leaf alone, and runs that may do neither.\<close>

abbreviation root_law :: "TreeChild \<Rightarrow> ('k, TEv) Machine \<Rightarrow> ('k, TEv) Machine \<Rightarrow> bool" where
  "root_law c \<equiv> lawful (send_rule c) (tc_front c = None) exit_seen"

abbreviation leaf_law :: "TreeChild \<Rightarrow> ('k, TEv) Machine \<Rightarrow> ('k, TEv) Machine \<Rightarrow> bool" where
  "leaf_law c \<equiv> lawful (send_rule c) (tc_front c = None) placed_seen"

abbreviation any_law :: "TreeChild \<Rightarrow> ('k, TEv) Machine \<Rightarrow> ('k, TEv) Machine \<Rightarrow> bool" where
  "any_law c \<equiv> lawful (send_rule c) True no_permission"

lemma any_law_root: "keeps (any_law c) m \<Longrightarrow> keeps (root_law c) m"
  by (erule lawful_weaken) (simp add: granted_def)

lemma any_law_leaf: "keeps (any_law c) m \<Longrightarrow> keeps (leaf_law c) m"
  by (erule lawful_weaken) (simp add: granted_def)

lemma send_rule_reading: "reading e \<Longrightarrow> send_rule c e l"
  by (cases e) (simp_all add: reading_def send_rule_def)

lemma reads_law: "keeps only_reads m \<Longrightarrow> keeps (lawful (send_rule c) b p) m"
  by (rule reads_lawful) (simp_all add: send_rule_reading)

lemmas gates_law = gates_only_read [THEN reads_law]

text \<open>Events that no rule on sends constrains.\<close>

lemma send_rule_free:
  "send_rule c (Root_Sent Sig_Term r) l" "send_rule c (Leaf_Termed r') l" "send_rule c (Subtree_Read s) l" "send_rule c Leaf_Dropped l" "send_rule c (Walk_Termed i r') l"
  "send_rule c Marked l" "send_rule c (Drained d) l" "send_rule c (Watched b) l" "send_rule c (Waited t out) l"
  by (simp_all add: send_rule_def)

lemma look_law: "keeps (lawful (send_rule c) b p) (in_group (call_root_number S c h))"
  by (rule in_group_lawful, rule wp_mono [OF call_root_number_log]) (auto intro: check_segment)

lemma group_law:
  "tc_attached c = ProcessGroup pgid \<Longrightarrow> keeps (root_law c) (in_group (kill_group S pgid root))"
  "tc_attached c = ProcessGroup pgid \<Longrightarrow> keeps (lawful (send_rule c) b p) (in_group (term_group S pgid root))"
  unfolding kill_group_def term_group_def
  by (rule in_group_lawful, rule wp_mono [OF signal_group_vouched],
      auto intro!: group_segment simp: root_pgid_def granted_def front_exited_def)+

lemma signal_law:
  "keeps (root_law c) (held_signal S h Sig_Kill)" "keeps (any_law c) (held_signal S h Sig_Term)"
  "keeps (root_law c) (owned_signal S c Sig_Kill)" "keeps (any_law c) (owned_signal S c Sig_Term)"
proof -
  have k: "send_rule c (Root_Sent Sig_Kill r) l" if "granted (tc_front c = None) exit_seen l" for r l
    using that by (auto simp: send_rule_def granted_def front_exited_def)
  show h: "keeps (root_law c) (held_signal S h Sig_Kill)" "keeps (any_law c) (held_signal S h Sig_Term)" for h
    unfolding held_signal_def by (intro lawful_rules call_lawful k send_rule_free; assumption)+
  show "keeps (root_law c) (owned_signal S c Sig_Kill)" "keeps (any_law c) (owned_signal S c Sig_Term)"
    unfolding owned_signal_def by (intro lawful_rules gates_law h)+
qed

lemma mark_law: "keeps (any_law c) mark" "keeps (any_law c) (mark_if_kill sig)"
proof -
  show m: "keeps (any_law c) mark" unfolding mark_def by (intro call_lawful send_rule_free)
  show "keeps (any_law c) (mark_if_kill sig)" unfolding mark_if_kill_def by (intro lawful_rules m)
qed

lemma hard_kill_law:
  "keeps (root_law c) (hard_kill_report S (tc_attached c) root)"
  "tc_attached c = Cgroup \<Longrightarrow> keeps (leaf_law c) (hard_kill_report S Cgroup root)"
proof -
  have l: "send_rule c (Leaf_Killed r) l" if "granted (tc_front c = None) placed_seen l" for r l
    using that by (auto simp: send_rule_def granted_def front_exited_def)
  have w: "send_rule c (Walk_Killed i r) l" if "granted (tc_front c = None) exit_seen l" for i r l
    using that by (auto simp: send_rule_def granted_def front_exited_def)
  have g: "granted (tc_front c = None) placed_seen l" if "granted (tc_front c = None) exit_seen l" for l
    using that by (auto simp: granted_def)
  show "keeps (root_law c) (hard_kill_report S (tc_attached c) root)"
    unfolding hard_kill_report_def by (intro lawful_rules group_law call_lawful l g w) assumption+
  show "keeps (leaf_law c) (hard_kill_report S Cgroup root)"
    unfolding hard_kill_report_def by (simp, intro lawful_rules call_lawful l) assumption
qed

lemma hard_kill_marking_law:
  "keeps (root_law c) (hard_kill_marking S (tc_attached c) root)"
  "tc_attached c = Cgroup \<Longrightarrow> keeps (leaf_law c) (hard_kill_marking S Cgroup root)"
  unfolding hard_kill_marking_def
  by (intro lawful_rules hard_kill_law mark_law [THEN any_law_root] mark_law [THEN any_law_leaf]; assumption?)+

lemma attached_terminate_law: "keeps (any_law c) (attached_terminate S (tc_attached c) root)"
  unfolding attached_terminate_def by (intro lawful_rules group_law call_lawful send_rule_free) assumption

lemma root_checked_law:
  assumes "keeps (lawful (send_rule c) b p) signal_root"
  shows "keeps (lawful (send_rule c) b p) (root_checked S c sig h signal_root)"
proof -
  have "keeps (lawful (send_rule c) b p) (mark_if_kill sig)"
    by (rule lawful_weaken [OF mark_law(2)]) (simp add: granted_def)
  then show ?thesis unfolding root_checked_def by (intro lawful_rules look_law assms)
qed

text \<open>A leaf's tree is not named by the root's number.\<close>

lemma root_checked_leaf: "tc_attached c = Cgroup \<Longrightarrow> root_checked S c sig h signal_root = State_Monad.return None"
proof -
  assume "tc_attached c = Cgroup"
  then have "call_root_number S c h = State_Monad.return Number_Trusted"
    by (simp add: call_root_number_def root_number_def needs_root_check_def through_the_pidfd_def)
  then show ?thesis by (simp add: root_checked_def)
qed

lemma kill_tree_gated_law:
  "keeps (root_law c) (kill_tree_gated S c gate)"
  "tc_attached c = Cgroup \<Longrightarrow> keeps (leaf_law c) (kill_tree_gated S c CgroupOnly)"
proof -
  show "keeps (root_law c) (kill_tree_gated S c gate)"
    unfolding kill_tree_gated_def kill_tree_swept_def by (intro lawful_rules gates_law root_checked_law signal_law hard_kill_marking_law)
  show "keeps (leaf_law c) (kill_tree_gated S c CgroupOnly)" if "tc_attached c = Cgroup"
    unfolding kill_tree_gated_def kill_tree_swept_def root_checked_leaf [OF that] unfolding that
    by (simp cong: if_cong, intro lawful_rules gates_law hard_kill_marking_law that)
qed

text \<open>What follows the kill gate is lawful when it keeps to what the gate allows.\<close>

lemma gated_law:
  assumes "\<And>e. keeps (any_law c) (f (Closed e))" and "keeps (root_law c) (f Open)" and "keeps (root_law c) (f ExitedFront)"
    and "tc_attached c = Cgroup \<Longrightarrow> keeps (leaf_law c) (f CgroupOnly)"
  shows "keeps (any_law c) (State_Monad.bind (child_kill_gate S c) f)"
  unfolding keeps_def wp_bind
proof
  fix w
  show "wp (child_kill_gate S c) (\<lambda>gate. wp (f gate) (\<lambda>_. any_law c w)) w"
  proof (rule wp_mono [OF wp_conj [OF keeps_wp [OF gates_law(1)] kill_gate_backed]])
    fix gate w'
    assume g: "lawful (send_rule c) True no_permission w w' \<and> gate_backed c gate (w_log w')"
    have *: "wp (f gate) (\<lambda>_. any_law c w) w'" if "keeps (lawful (send_rule c) b p) (f gate)" "granted b p (w_log w')" for b p
      by (rule wp_mono [OF keeps_wp [OF that(1)]])
        (use g that(2) in \<open>auto simp: lawful_def granted_def intro: log.trans\<close>)
    show "wp (f gate) (\<lambda>_. any_law c w) w'"
    proof (cases gate)
      case Open
      show ?thesis by (rule * [OF assms(2) [folded Open]]) (use g in \<open>simp add: Open gate_backed_def granted_def\<close>)
    next
      case ExitedFront
      show ?thesis by (rule * [OF assms(3) [folded ExitedFront]]) (use g in \<open>auto simp: ExitedFront gate_backed_def granted_def front_exited_def\<close>)
    next
      case CgroupOnly
      with g have "tc_attached c = Cgroup" by (simp add: gate_backed_def)
      from assms(4) [OF this] show ?thesis
        by (intro * [where b = "tc_front c = None" and p = placed_seen]) (use g in \<open>auto simp: CgroupOnly gate_backed_def granted_def\<close>)
    next
      case (Closed e)
      show ?thesis by (rule * [OF assms(1) [of e, folded Closed]]) (simp add: granted_def)
    qed
  qed
qed

lemma kill_tree_law: "keeps (any_law c) (kill_tree S c)"
proof -
  have "keeps (any_law c) (State_Monad.bind (child_kill_gate S c)
      (\<lambda>gate. case gate of Closed unkillable \<Rightarrow> State_Monad.return (Inl unkillable) | _ \<Rightarrow> kill_tree_gated S c gate))"
    by (rule gated_law) (simp_all add: kill_tree_gated_law lawful.keeps_return)
  then show ?thesis unfolding kill_tree_def by (cases "require_contained (tc_attached c)") (simp_all add: lawful.keeps_return)
qed

lemma terminate_tree_law: "keeps (any_law c) (terminate_tree S c)"
  unfolding terminate_tree_def by (intro lawful_rules gates_law root_checked_law signal_law attached_terminate_law)

lemma escalate_law: "keeps (any_law c) (escalate S c)"
proof -
  have "keeps (root_law c) (escalate_gated S c Open)" "keeps (root_law c) (escalate_gated S c ExitedFront)"
    by (simp_all add: escalate_gated_def) (intro lawful_rules signal_law)+
  moreover have "keeps (leaf_law c) (escalate_gated S c CgroupOnly)" if "tc_attached c = Cgroup"
    by (simp add: escalate_gated_def that) (intro lawful_rules hard_kill_marking_law gates_law that)
  moreover have "keeps (any_law c) (escalate_gated S c (Closed e))" for e
    by (simp add: escalate_gated_def lawful.keeps_return)
  ultimately show ?thesis unfolding escalate_def by (intro gated_law)
qed

lemma waits_law:
  "keeps (any_law c) (wait_root S t)" "keeps (any_law c) (wait_root_unbounded S)" "keeps (any_law c) (exited_by S grace)"
  "keeps (any_law c) (wait_drained S a grace)" "keeps (any_law c) (watch_grace S c grace)" "keeps (any_law c) (reap_swept S we)"
  unfolding wait_root_def wait_root_unbounded_def exited_by_def wait_drained_def watch_grace_def reap_swept_def
  by (intro lawful_rules call_lawful send_rule_free)+

lemma graceful_shutdown_law: "keeps (any_law c) (graceful_shutdown S c grace)"
  unfolding graceful_shutdown_def kill_and_reap_def child_terminate_def signal_graceful_def
  by (intro lawful_rules gates_law signal_law waits_law escalate_law)

lemma after_tree_signal_law: "keeps (any_law c) (after_tree_signal S c grace)"
  unfolding after_tree_signal_def sweep_and_reap_def by (intro lawful_rules waits_law kill_tree_law)

lemma shut_down_root_law:
  assumes "tc_attached c \<noteq> Cgroup"
  shows "keeps (any_law c) (shut_down_root_through_pidfd S c grace)"
proof -
  have o: "keeps (root_law c) (State_Monad.bind (owned_signal S c Sig_Kill) (\<lambda>r. State_Monad.return (g r)))" for g :: "i32 + Sent \<Rightarrow> Error + Sent"
    by (intro lawful_rules signal_law)
  have "keeps (any_law c) (kill_unless_closed S c)"
    unfolding kill_unless_closed_def by (rule gated_law) (simp_all add: o lawful.keeps_return assms)
  then show ?thesis unfolding shut_down_root_through_pidfd_def by (intro lawful_rules gates_law signal_law waits_law)
qed

lemma graceful_shutdown_tree_law: "keeps (any_law c) (graceful_shutdown_tree S c grace)"
proof -
  have s: "keeps (any_law c) (settle_signal S c grace r)" for r
    unfolding settle_signal_def by (intro lawful_rules after_tree_signal_law)
  show ?thesis
  proof (cases "tc_attached c = Cgroup")
    case True
    have "keeps (any_law c) (graceful S c h)" for h unfolding graceful_def by (intro lawful_rules look_law)
    moreover have "graceful S c h = State_Monad.return Signal_Tree" for h
      using True by (simp add: graceful_def call_root_number_def root_number_def needs_root_check_def through_the_pidfd_def)
    moreover have "keeps (any_law c) (State_Monad.bind (attached_terminate S (tc_attached c) root) (settle_signal S c grace))" for root
      by (intro lawful_rules attached_terminate_law s)
    ultimately show ?thesis
      unfolding graceful_shutdown_tree_def by (cases "require_contained (tc_attached c)") (simp_all add: lawful.keeps_return lawful.keeps_bind gates_law)
  next
    case False
    have "keeps (any_law c) (graceful S c h)" for h unfolding graceful_def by (intro lawful_rules look_law)
    then show ?thesis
      unfolding graceful_shutdown_tree_def by (intro lawful_rules gates_law attached_terminate_law s shut_down_root_law False)
  qed
qed

lemma look_never_kills: "Send_Kill \<notin> set (fst (tear_down W i (Kind_Look reach)))" "Send_Kill \<notin> set (fst (reap_after_tree_kill W))"
  by (auto simp: tear_down_def look_at_front_def reap_after_tree_kill_def looked_status_def split: sum.splits ChildWaitOutcome.splits option.splits bool.splits)

lemma torn_down_law:
  "keeps (root_law c) (torn_down S f)"
  "(\<And>W. Send_Kill \<notin> set (fst (f W))) \<Longrightarrow> keeps (any_law c) (torn_down S f)"
proof -
  show "keeps (root_law c) (torn_down S f)"
    unfolding torn_down_def
    by (intro lawful_rules call_lawful) (auto simp: send_rule_def granted_def front_exited_def split: prod.splits)
  show "keeps (any_law c) (torn_down S f)" if "\<And>W. Send_Kill \<notin> set (fst (f W))"
    unfolding keeps_def torn_down_def
    using that by (auto simp: wp_simps lawful_def extends_def send_rule_def case_prod_beta)
qed

lemma tear_down_leaf_law: "keeps (any_law c) (tear_down_leaf_and_look_at_front S c)"
  unfolding tear_down_leaf_and_look_at_front_def by (intro lawful_rules call_lawful send_rule_free torn_down_law look_never_kills)

lemma looks_check:
  "wp (root_identity_now T p) (\<lambda>_ v. list_all is_check (w_log v)) \<lparr>w_kernel = k, w_log = []\<rparr>"
  "wp (held_state T h) (\<lambda>_ v. list_all is_check (w_log v)) \<lparr>w_kernel = k, w_log = []\<rparr>"
  "wp (through_the_pidfd S a n root) (\<lambda>_ v. list_all is_check (w_log v)) \<lparr>w_kernel = k, w_log = []\<rparr>"
  by (auto simp: root_identity_now_def held_state_def through_the_pidfd_def has_member_def pidfd_group_has_member_def wp_simps
      split: RootNumber.splits Attached.splits option.splits)

lemma checks_law:
  assumes "\<And>k. wp m (\<lambda>_ v. list_all is_check (w_log v)) \<lparr>w_kernel = k, w_log = []\<rparr>"
  shows "keeps (any_law c) (in_group m)"
  by (rule in_group_lawful, rule wp_mono [OF assms]) (auto intro: check_segment)

lemma drop_look_law:
  "keeps (any_law c) (drop_view_read S c tree_killed)" "keeps (any_law c) (drop_reach S a v root)"
  unfolding drop_view_read_def drop_reach_def by (intro lawful_rules looks_check [THEN checks_law] gates_law)+

lemma drop_kill_law:
  "keeps (root_law c) (hard_kill_for_drop S (tc_attached c) v root)"
  "tc_attached c = Cgroup \<Longrightarrow> keeps (leaf_law c) (hard_kill_for_drop S Cgroup v root)"
  unfolding hard_kill_for_drop_def
  by (intro lawful_rules hard_kill_law drop_look_law [THEN any_law_root] drop_look_law [THEN any_law_leaf]; assumption?)+

lemma drop_root_law:
  "keeps (root_law c) (drop_root S c gate v r)"
  "keeps (leaf_law c) (drop_root S c CgroupOnly v r)"
  unfolding drop_root_def
  by (simp_all cong: if_cong, (intro lawful_rules gates_law torn_down_law tear_down_leaf_law [THEN any_law_root] tear_down_leaf_law [THEN any_law_leaf]
      torn_down_law(2) [THEN any_law_leaf] look_never_kills)+)

lemma drop_unix_law: "keeps (any_law c) (drop_unix S c tree_killed)"
proof -
  have k: "keeps (root_law c) (State_Monad.bind (drop_view_read S c tree_killed) (drop_tree S c gate))" for gate
    unfolding drop_tree_def by (intro lawful_rules gates_law drop_look_law [THEN any_law_root] drop_kill_law drop_root_law)
  have l: "keeps (leaf_law c) (State_Monad.bind (drop_view_read S c tree_killed) (drop_tree S c CgroupOnly))" if "tc_attached c = Cgroup"
    unfolding drop_tree_def that by (intro lawful_rules gates_law drop_look_law [THEN any_law_leaf] drop_kill_law drop_root_law that)
  have x: "keeps (any_law c) (State_Monad.bind (drop_view_read S c tree_killed) (\<lambda>v.
      State_Monad.bind (tear_down_leaf_and_look_at_front S c) (\<lambda>torn. State_Monad.return (map_option to_fate torn))))"
    by (intro lawful_rules drop_look_law tear_down_leaf_law)
  show ?thesis unfolding drop_unix_def by (rule gated_law) (simp_all add: k l x)
qed

text \<open>C18: no call on a tree signals a number that may have come to name another process, and none kills an elevation front that may be running. In any run of \<^verbatim>\<open>kill_tree\<close>,
\<^verbatim>\<open>terminate_tree\<close>, \<^verbatim>\<open>graceful_shutdown\<close>, \<^verbatim>\<open>graceful_shutdown_tree\<close> and the drop, whatever the system answers and whatever other threads do to the handle in between: every send by the
group's number, the leader's or a member's is vouched for by the events right before it; when the child is an elevation front, nothing but the cgroup kills it, its group or its tree until a
read showed the front exited, and the cgroup only after that or after a read that it holds the front.\<close>

theorem tree_calls_send_what_is_vouched:
  "log_all (send_rule c) (w_log (snd (run_state (kill_tree S c) \<lparr>w_kernel = k, w_log = []\<rparr>)))
   \<and> log_all (send_rule c) (w_log (snd (run_state (terminate_tree S c) \<lparr>w_kernel = k, w_log = []\<rparr>)))
   \<and> log_all (send_rule c) (w_log (snd (run_state (graceful_shutdown S c grace) \<lparr>w_kernel = k, w_log = []\<rparr>)))
   \<and> log_all (send_rule c) (w_log (snd (run_state (graceful_shutdown_tree S c grace) \<lparr>w_kernel = k, w_log = []\<rparr>)))
   \<and> log_all (send_rule c) (w_log (snd (run_state (drop_unix S c tree_killed) \<lparr>w_kernel = k, w_log = []\<rparr>)))"
proof -
  have "log_all (send_rule c) (w_log (snd (run_state m \<lparr>w_kernel = k, w_log = []\<rparr>)))" if "keeps (any_law c) m" for m :: "('a, 'b) teff"
    using keeps_wp [OF that, of "\<lparr>w_kernel = k, w_log = []\<rparr>"] by (auto simp: wp_def lawful_def granted_def split: prod.splits)
  note this [OF kill_tree_law] this [OF terminate_tree_law] this [OF graceful_shutdown_law] this [OF graceful_shutdown_tree_law] this [OF drop_unix_law]
  then show ?thesis by blast
qed

section \<open>What the shutdowns wait for\<close>

text \<open>An event that shows that the root was made to end, has ended, or is not this process's to wait for any more.\<close>

fun ends :: "TEv \<Rightarrow> bool" where
  "ends (Root_Sent Sig_Kill (Inr _)) = True"
| "ends (Leaf_Killed (Inr _)) = True"
| "ends (Drained (Inr AllMembersExited)) = True"
| "ends (Watched (Inr True)) = True"
| "ends (Front_Runs (Inr False)) = True"
| "ends (Locked (St_E _)) = True"
| "ends (G (Peeked (Root_Reaped _))) = True"
| "ends (G (Peeked Unpinned)) = True"
| "ends _ = False"

abbreviation ended :: "TEv list \<Rightarrow> bool" where
  "ended \<equiv> granted False ends"

definition wait_rule :: "TEv \<Rightarrow> TEv list \<Rightarrow> bool" where
  "wait_rule e l \<longleftrightarrow>
     (\<forall>out. e = Waited None out \<longrightarrow> ended l)
   \<and> (\<forall>W acts. e = Torn_Down W acts \<longrightarrow> Wait_Unbounded \<in> set acts \<longrightarrow>
        Send_Kill \<in> set acts \<and> (\<exists>s. tw_kill W = Inr s) \<or> Read_Reach \<in> set acts \<and> tw_reached W = Inr True \<or> ended l)"

abbreviation free_law :: "('k, TEv) Machine \<Rightarrow> ('k, TEv) Machine \<Rightarrow> bool" where
  "free_law \<equiv> lawful wait_rule True no_permission"

abbreviation ended_law :: "('k, TEv) Machine \<Rightarrow> ('k, TEv) Machine \<Rightarrow> bool" where
  "ended_law \<equiv> lawful wait_rule False ends"

lemma free_ended: "keeps free_law m \<Longrightarrow> keeps ended_law m"
  by (erule lawful_weaken) (simp add: granted_def)

lemma wait_rule_free:
  "wait_rule (G g) l" "wait_rule (Root_Sent sig r) l" "wait_rule (Leaf_Killed u) l" "wait_rule (Leaf_Termed u) l" "wait_rule (Subtree_Read s) l" "wait_rule Leaf_Dropped l"
  "wait_rule (Walk_Killed i v) l" "wait_rule (Walk_Termed i u) l" "wait_rule Marked l" "wait_rule (Drained d) l" "wait_rule (Watched b) l" "wait_rule (Waited (Some t) out) l"
  by (simp_all add: wait_rule_def)

lemma wait_rule_reading: "reading e \<Longrightarrow> wait_rule e l"
  by (cases e) (simp_all add: reading_def wait_rule_def)

lemma reads_free: "keeps only_reads m \<Longrightarrow> keeps free_law m"
  by (rule reads_lawful) (simp_all add: wait_rule_reading)

lemmas gates_free = gates_only_read [THEN reads_free]

lemma group_free: "keeps free_law (in_group m)"
proof (rule in_group_lawful)
  have "log_all wait_rule (map G gs @ l)" if "log_all wait_rule l" for gs l
    using that by (induction gs) (simp_all add: wait_rule_free)
  then show "wp m (\<lambda>_ v. \<forall>l. granted True no_permission l \<longrightarrow> log_all wait_rule l \<longrightarrow> log_all wait_rule (map G (w_log v) @ l)) \<lparr>w_kernel = k, w_log = []\<rparr>" for k
    by (simp add: wp_runs)
qed

lemma sends_free:
  "keeps free_law (held_signal S h sig)" "keeps free_law (owned_signal S c sig)" "keeps free_law mark" "keeps free_law (mark_if_kill sig)"
  "keeps free_law (hard_kill_report S a root)" "keeps free_law (hard_kill_marking S a root)" "keeps free_law (attached_terminate S a root)"
  "keeps free_law (exited_by S grace)" "keeps free_law (wait_drained S a grace)" "keeps free_law (wait_root S (Some t))"
  unfolding held_signal_def owned_signal_def mark_if_kill_def mark_def hard_kill_report_def hard_kill_marking_def attached_terminate_def exited_by_def wait_drained_def wait_root_def
  by (intro lawful_rules group_free gates_free call_lawful wait_rule_free)+

lemma calls_free:
  "keeps free_law (kill_tree S c)" "keeps free_law (terminate_tree S c)" "keeps free_law (escalate S c)" "keeps free_law (child_terminate S c)" "keeps free_law (graceful S c h)"
  "keeps free_law (shut_down_root_through_pidfd S c grace)" "keeps free_law (watch_grace S c grace)" "keeps free_law (hard_kill_for_drop S a v root)"
  "keeps free_law (drop_view_read S c tree_killed)"
  unfolding kill_tree_def kill_tree_gated_def kill_tree_swept_def terminate_tree_def escalate_def escalate_gated_def child_terminate_def signal_graceful_def graceful_def shut_down_root_through_pidfd_def
    kill_unless_closed_def watch_grace_def hard_kill_for_drop_def drop_reach_def drop_view_read_def root_checked_def
  by (intro lawful_rules group_free gates_free sends_free)+

lemma unbounded_ended: "keeps ended_law (wait_root_unbounded S)"
proof -
  have "wait_rule (Waited None out) l" if "ended l" for out l using that by (simp add: wait_rule_def)
  then show ?thesis unfolding wait_root_unbounded_def wait_root_def by (intro lawful_rules call_lawful)
qed

lemma reap_swept_ended: "keeps ended_law (reap_swept S we)"
  unfolding reap_swept_def by (intro lawful_rules unbounded_ended)

text \<open>A run goes on under the permission that its first part earned.\<close>

lemma earned_bind:
  assumes "keeps (lawful P True no_permission) m" and "\<And>w. wp m (\<lambda>a w'. Q a \<longrightarrow> granted b p (w_log w')) w"
    and "\<And>a. Q a \<Longrightarrow> keeps (lawful P b p) (f a)" and "\<And>a. \<not> Q a \<Longrightarrow> keeps (lawful P True no_permission) (f a)"
  shows "keeps (lawful P True no_permission) (State_Monad.bind m f)"
  unfolding keeps_def wp_bind
proof
  fix w
  show "wp m (\<lambda>a. wp (f a) (\<lambda>_. lawful P True no_permission w)) w"
  proof (rule wp_mono [OF wp_conj [OF keeps_wp [OF assms(1)] assms(2)]])
    fix a w'
    assume a: "lawful P True no_permission w w' \<and> (Q a \<longrightarrow> granted b p (w_log w'))"
    show "wp (f a) (\<lambda>_. lawful P True no_permission w) w'"
    proof (cases "Q a")
      case True
      show ?thesis by (rule wp_mono [OF keeps_wp [OF assms(3) [OF True]]]) (use a True in \<open>auto simp: lawful_def granted_def intro: log.trans\<close>)
    next
      case False
      show ?thesis by (rule wp_mono [OF keeps_wp [OF assms(4) [OF False]]]) (use a in \<open>auto simp: lawful_def granted_def intro: log.trans\<close>)
    qed
  qed
qed

lemma ended_mem: "e \<in> set l \<Longrightarrow> ends e \<Longrightarrow> ended l"
  by (auto simp: granted_def)

lemma ended_Cons: "ends e \<Longrightarrow> ended (e # l)" "ended l \<Longrightarrow> ended (e # l)"
  by (simp_all add: granted_def)

lemma ended_log:
  assumes "keeps free_law m" and "ended (w_log w)"
  shows "wp m (\<lambda>_ w'. ended (w_log w')) w"
  by (rule wp_mono [OF keeps_wp [OF assms(1)]]) (use assms(2) in \<open>auto simp: lawful_def intro: granted_extends\<close>)

lemma owned_kill_ends: "wp (owned_signal S c Sig_Kill) (\<lambda>r w'. (\<exists>s. r = Inr s) \<longrightarrow> ended (w_log w')) w"
  unfolding owned_signal_def hold_def lock_def held_signal_def
  by (auto simp: wp_simps granted_def split: State.split)

lemma looked_away_ends: "looked_away gs \<Longrightarrow> ended (map G gs @ l)"
proof -
  assume "looked_away gs"
  then obtain st where "Peeked st \<in> set gs" "ends (G (Peeked st))" by (auto simp: looked_away_def)
  then show ?thesis by (intro ended_mem [of "G (Peeked st)"]) auto
qed

lemma root_checked_ends: "wp (root_checked S c sig h m) (\<lambda>r w'. r = Some (Inr ()) \<longrightarrow> ended (w_log w')) w"
  unfolding root_checked_def wp_bind wp_in_group
  by (rule wp_mono [OF call_root_number_log])
    (auto simp: wp_simps wp_runs [of m] mark_if_kill_def mark_def looked_away_ends ended_Cons split: RootNumber.split)

lemma hard_kill_marking_ends:
  "wp (hard_kill_marking S Cgroup root) (\<lambda>r w'. r = Inr () \<longrightarrow> ended (w_log w')) w"
  unfolding hard_kill_marking_def hard_kill_report_def mark_def by (auto simp: wp_simps granted_def)

lemma reached_ends: "ended (w_log w) \<Longrightarrow> wp (child_cgroup_kill_reached S c) (\<lambda>r w'. r = Inr () \<longrightarrow> ended (w_log w')) w"
  by (rule wp_mono [OF ended_log [OF gates_free(3)]]) simp_all

lemma kill_tree_swept_ends:
  assumes "gate = ExitedFront \<or> gate = CgroupOnly \<and> swept = Inr () \<longrightarrow> ended (w_log w)"
  shows "wp (kill_tree_swept S c gate swept) (\<lambda>r w'. r = Inr () \<longrightarrow> ended (w_log w')) w"
proof -
  have o: "wp (owned_signal S c Sig_Kill) (\<lambda>r w'. map_sum id (\<lambda>_. ()) (elevated_kill c r) = Inr () \<longrightarrow> ended (w_log w')) w"
  proof (rule wp_mono [OF owned_kill_ends])
    show "map_sum id (\<lambda>_. ()) (elevated_kill c r) = Inr () \<longrightarrow> ended (w_log w')" if "(\<exists>s. r = Inr s) \<longrightarrow> ended (w_log w')" for r w'
      using that by (cases r) (simp_all add: elevated_kill_def)
  qed
  show ?thesis
    unfolding kill_tree_swept_def
    using assms o reached_ends by (cases swept) (auto simp: wp_simps wp_runs [of "owned_signal S c Sig_Kill"] hard_kill_refused_to_walk_def split: Attached.split)
qed

lemma kill_tree_gated_ends:
  assumes "gate_backed c gate (w_log w)"
  shows "wp (kill_tree_gated S c gate) (\<lambda>r w'. r = Inr () \<longrightarrow> ended (w_log w')) w"
proof -
  let ?Q = "\<lambda>r w'. r = Inr () \<longrightarrow> ended (w_log w')"
  have exited: "ended (w_log w')" if "extends w w'" "gate = ExitedFront" for w'
    using assms that by (intro ended_mem [of "Front_Runs (Inr False)"]) (auto simp: gate_backed_def front_exited_def extends_def)
  have swept: "wp (State_Monad.bind (hard_kill_marking S (tc_attached c) root) (kill_tree_swept S c gate)) ?Q w'" if w': "extends w w'" for w' root
    unfolding wp_bind
  proof (rule wp_mono)
    show "wp (hard_kill_marking S (tc_attached c) root)
        (\<lambda>r w''. free_law w' w'' \<and> (tc_attached c = Cgroup \<longrightarrow> r = Inr () \<longrightarrow> ended (w_log w''))) w'"
      by (rule wp_conj [OF keeps_wp [OF sends_free(6)]]) (cases "tc_attached c = Cgroup", simp add: hard_kill_marking_ends, simp add: wp_runs)
    show "wp (kill_tree_swept S c gate r) ?Q w''"
      if "free_law w' w'' \<and> (tc_attached c = Cgroup \<longrightarrow> r = Inr () \<longrightarrow> ended (w_log w''))" for r w''
      by (rule kill_tree_swept_ends) (use that assms exited w' in \<open>auto simp: gate_backed_def lawful_def intro: log.trans\<close>)
  qed
  have r: "keeps free_law (root_checked S c Sig_Kill h (State_Monad.bind (held_signal S h Sig_Kill) (\<lambda>r. State_Monad.return (elevated_kill c r))))" for h
    unfolding root_checked_def by (intro lawful_rules group_free sends_free)
  show ?thesis
    unfolding kill_tree_gated_def wp_bind [of "hold S c"] wp_bind [of "root_checked _ _ _ _ _"]
    by (rule wp_mono [OF keeps_wp [OF gates_free(4)]], rule wp_mono [OF wp_conj [OF keeps_wp [OF r] root_checked_ends]])
      (auto simp: wp_return lawful_def split: option.split intro: swept log.trans)
qed

lemma kill_tree_ends: "wp (kill_tree S c) (\<lambda>r w'. r = Inr () \<longrightarrow> ended (w_log w')) w"
proof (cases "require_contained (tc_attached c)")
  case (Inr u)
  have "wp (case gate of Closed unkillable \<Rightarrow> State_Monad.return (Inl unkillable) | _ \<Rightarrow> kill_tree_gated S c gate)
      (\<lambda>r w'. r = Inr () \<longrightarrow> ended (w_log w')) w'" if "gate_backed c gate (w_log w')" for gate w'
    using kill_tree_gated_ends [OF that, of S] by (cases gate) (simp_all add: wp_return)
  with Inr show ?thesis by (simp add: kill_tree_def wp_bind wp_mono [OF kill_gate_backed])
qed (simp add: kill_tree_def wp_return)

lemma escalate_gated_ends:
  assumes "gate_backed c gate (w_log w)"
  shows "wp (escalate_gated S c gate) (\<lambda>r w'. r = Inr () \<longrightarrow> ended (w_log w')) w"
proof (cases gate)
  case Open
  have "(map_sum Io (\<lambda>_. ()) r = Inr ()) = (\<exists>s. r = Inr s)" for r :: "i32 + Sent" by (cases r) simp_all
  then show ?thesis using owned_kill_ends [of S c w] by (simp add: Open escalate_gated_def wp_simps)
next
  case ExitedFront
  then have "ended (w_log w)" using assms by (intro ended_mem [of "Front_Runs (Inr False)"]) (auto simp: gate_backed_def front_exited_def)
  from wp_mono [OF ended_log [OF sends_free(2) this]] show ?thesis by (simp add: ExitedFront escalate_gated_def wp_simps)
next
  case CgroupOnly
  with assms have "tc_attached c = Cgroup" by (simp add: gate_backed_def)
  moreover have "wp (case r of Inl e \<Rightarrow> State_Monad.return (Inl (cgroup_kill_failed (tc_front c) e)) | Inr _ \<Rightarrow> child_cgroup_kill_reached S c)
      (\<lambda>r w'. r = Inr () \<longrightarrow> ended (w_log w')) w'" if "r = Inr () \<longrightarrow> ended (w_log w')" for r w'
    using that reached_ends by (cases r) (simp_all add: wp_return)
  ultimately show ?thesis by (simp add: CgroupOnly escalate_gated_def wp_bind wp_mono [OF hard_kill_marking_ends])
qed (simp add: escalate_gated_def wp_return)

lemma escalate_ends: "wp (escalate S c) (\<lambda>r w'. r = Inr () \<longrightarrow> ended (w_log w')) w"
  unfolding escalate_def wp_bind by (rule wp_mono [OF kill_gate_backed]) (rule escalate_gated_ends)

lemma watch_grace_ends: "wp (watch_grace S c grace) (\<lambda>(drained, root_exited, _) w'. drained \<or> root_exited \<longrightarrow> ended (w_log w')) w"
  unfolding watch_grace_def wait_drained_def exited_by_def can_observe_drain_def
  by (auto simp: wp_simps root_watched_def granted_def permits_skipping_sweep_def split: sum.splits TreeDrain.splits)

lemma sweep_and_reap_free: "keeps free_law (sweep_and_reap S c False we)" "keeps ended_law (sweep_and_reap S c root_exited we)"
proof -
  show "keeps free_law (sweep_and_reap S c False we)"
    unfolding sweep_and_reap_def
    by (rule earned_bind [where Q = "\<lambda>r. r = Inr ()" and b = False and p = ends])
      (auto simp: calls_free kill_tree_ends reap_swept_ended lawful.keeps_return split: sum.split)
  show "keeps ended_law (sweep_and_reap S c root_exited we)"
    unfolding sweep_and_reap_def by (intro lawful_rules calls_free [THEN free_ended] unbounded_ended reap_swept_ended)
qed

lemma after_tree_signal_free: "keeps free_law (after_tree_signal S c grace)"
  unfolding after_tree_signal_def
proof (rule earned_bind [where Q = "\<lambda>(drained, root_exited, _). drained \<or> root_exited" and b = False and p = ends])
  show "wp (watch_grace S c grace) (\<lambda>a w'. (case a of (drained, root_exited, _) \<Rightarrow> drained \<or> root_exited) \<longrightarrow> ended (w_log w')) w" for w
    by (rule wp_mono [OF watch_grace_ends]) auto
qed (auto simp: calls_free reap_swept_ended sweep_and_reap_free split: prod.splits)

lemma graceful_shutdown_tree_free: "keeps free_law (graceful_shutdown_tree S c grace)"
  unfolding graceful_shutdown_tree_def settle_signal_def by (intro lawful_rules gates_free calls_free sends_free after_tree_signal_free)

lemma kill_and_reap_free: "keeps free_law (kill_and_reap S c watch)"
  unfolding kill_and_reap_def
  by (rule earned_bind [where Q = "\<lambda>r. r = Inr ()" and b = False and p = ends])
    (auto simp: calls_free escalate_ends lawful.keeps_return split: sum.split intro!: lawful.keeps_bind unbounded_ended)

lemma graceful_shutdown_free: "keeps free_law (graceful_shutdown S c grace)"
  unfolding graceful_shutdown_def by (intro lawful_rules calls_free sends_free kill_and_reap_free)

lemma teardown_waits:
  "Wait_Unbounded \<in> set (fst (tear_down W i Kind_Kill)) \<Longrightarrow> Send_Kill \<in> set (fst (tear_down W i Kind_Kill)) \<and> (\<exists>s. tw_kill W = Inr s)"
  "Wait_Unbounded \<in> set (fst (tear_down W i (Kind_Look reach))) \<Longrightarrow> Read_Reach \<in> set (fst (tear_down W i (Kind_Look reach))) \<and> tw_reached W = Inr True"
  by (auto simp: tear_down_def kill_and_settle_def look_after_refused_kill_def look_at_front_def looked_status_def
      split: sum.splits ChildWaitOutcome.splits option.splits bool.splits if_splits)

lemma torn_down_free:
  "keeps free_law (torn_down S (\<lambda>W. tear_down W i kind))" "keeps ended_law (torn_down S f)"
proof -
  have r: "wait_rule (Torn_Down W (fst (tear_down W i kind))) l" for W l
    using teardown_waits [of W i] by (cases kind) (auto simp: wait_rule_def)
  show "keeps free_law (torn_down S (\<lambda>W. tear_down W i kind))"
    unfolding keeps_def torn_down_def by (auto simp: wp_simps lawful_def extends_def case_prod_beta r)
  show "keeps ended_law (torn_down S f)"
    unfolding torn_down_def by (intro lawful_rules call_lawful) (auto simp: wait_rule_def split: prod.splits)
qed

lemma tear_down_leaf_free: "keeps free_law (tear_down_leaf_and_look_at_front S c)"
  unfolding tear_down_leaf_and_look_at_front_def by (intro lawful_rules call_lawful wait_rule_free torn_down_free)

lemma drop_root_free:
  "\<not> (gate = CgroupOnly \<and> killed = Inr ()) \<Longrightarrow> keeps free_law (drop_root S c gate v killed)"
  "keeps ended_law (drop_root S c gate v killed)"
proof -
  show "keeps free_law (drop_root S c gate v killed)" if "\<not> (gate = CgroupOnly \<and> killed = Inr ())"
    using that unfolding drop_root_def
    by (cases killed; simp cong: if_cong; intro lawful_rules gates_free torn_down_free tear_down_leaf_free)
  show "keeps ended_law (drop_root S c gate v killed)"
    unfolding drop_root_def
    by (intro lawful_rules gates_free [THEN free_ended] torn_down_free tear_down_leaf_free [THEN free_ended])
qed

lemma drop_kill_ends: "wp (hard_kill_for_drop S Cgroup v root) (\<lambda>(r, _) w'. r = Inr () \<longrightarrow> ended (w_log w')) w"
  unfolding hard_kill_for_drop_def drop_reach_def skipped_action_def named_by_root_number_def hard_kill_report_def
  by (auto simp: wp_simps granted_def)

lemma drop_tree_free:
  "gate \<noteq> CgroupOnly \<or> tc_attached c = Cgroup \<Longrightarrow> keeps free_law (drop_tree S c gate v)" "keeps ended_law (drop_tree S c gate v)"
proof -
  have k: "keeps free_law (State_Monad.bind (hard_kill_for_drop S (tc_attached c) v root) (\<lambda>(killed, _). drop_root S c gate v killed))"
    if "gate \<noteq> CgroupOnly \<or> tc_attached c = Cgroup" for root
  proof (rule earned_bind [where Q = "\<lambda>(killed, _). gate = CgroupOnly \<and> killed = Inr ()" and b = False and p = ends])
    show "wp (hard_kill_for_drop S (tc_attached c) v root) (\<lambda>a w'. (case a of (killed, _) \<Rightarrow> gate = CgroupOnly \<and> killed = Inr ()) \<longrightarrow> ended (w_log w')) w" for w
      using that by (cases "gate = CgroupOnly") (auto intro: wp_mono [OF drop_kill_ends] simp: wp_runs [of "hard_kill_for_drop S (tc_attached c) v root"])
  qed (auto simp: calls_free drop_root_free split: prod.splits)
  show "keeps free_law (drop_tree S c gate v)" if "gate \<noteq> CgroupOnly \<or> tc_attached c = Cgroup"
    unfolding drop_tree_def by (rule lawful.keeps_bind [OF gates_free(4) k [OF that]])
  show "keeps ended_law (drop_tree S c gate v)"
    unfolding drop_tree_def by (intro lawful_rules calls_free [THEN free_ended] gates_free [THEN free_ended] drop_root_free)
qed

lemma drop_unix_free: "keeps free_law (drop_unix S c tree_killed)"
proof -
  have b: "keeps (lawful wait_rule (tc_attached c = Cgroup) no_permission) (drop_tree S c CgroupOnly v)" for v
    by (cases "tc_attached c = Cgroup") (auto intro: drop_tree_free lawful_weaken [OF drop_tree_free(2)] simp: granted_def)
  have v: "keeps (lawful wait_rule (tc_attached c = Cgroup) no_permission) (drop_view_read S c tree_killed)"
    by (rule lawful_weaken [OF calls_free(9)]) (simp add: granted_def)
  show ?thesis
    unfolding drop_unix_def
  proof (rule earned_bind [where Q = "\<lambda>gate. gate = CgroupOnly" and b = "tc_attached c = Cgroup" and p = no_permission])
    show "wp (child_kill_gate S c) (\<lambda>gate w'. gate = CgroupOnly \<longrightarrow> granted (tc_attached c = Cgroup) no_permission (w_log w')) w" for w
      by (rule wp_mono [OF kill_gate_backed]) (auto simp: gate_backed_def granted_def)
  qed (use b v in \<open>auto simp: gates_free calls_free drop_tree_free tear_down_leaf_free lawful.keeps_return intro!: lawful.keeps_bind split: Gate.split\<close>)
qed

subsection \<open>The statuses of a shutdown\<close>

text \<open>A status that is returned is the one the last wait collected.\<close>

definition collected :: "Error + i32 \<Rightarrow> ('k, TEv) Machine \<Rightarrow> bool" where
  "collected r w \<longleftrightarrow> (\<forall>st. r = Inr st \<longrightarrow> (\<exists>t l. w_log w = Waited t (Inr (Exited (Status st))) # l))"

lemma collected_Inl [simp]: "collected (Inl e) w"
  by (simp add: collected_def)

lemma looked_status_Some: "looked_status r = Inr (Some st) \<longleftrightarrow> r = Inr (Exited (Status st))"
  by (cases r rule: sum.exhaust; simp add: looked_status_def status_of_outcome_def split: ChildWaitOutcome.split ExitRecord.split)

lemma wait_collected:
  "wp (wait_root S t) (\<lambda>r w'. \<forall>st. r = Inr (Some st) \<longrightarrow> collected (Inr st) w') w"
  "wp (wait_root_unbounded S) collected w"
  unfolding wait_root_unbounded_def wait_root_def collected_def
  by (auto simp: wp_simps looked_status_Some split: sum.splits option.splits)

lemma reap_swept_collected: "wp (reap_swept S we) collected w"
proof -
  have "collected (case status_unless_reaped_elsewhere waited of Inl e \<Rightarrow> Inl e | Inr st \<Rightarrow> (case we of Some e \<Rightarrow> Inl e | None \<Rightarrow> Inr st)) w'"
    if "collected waited w'" for waited w'
    using that by (cases waited; cases we) (auto simp: status_unless_reaped_elsewhere_def split: sum.splits if_splits)
  then show ?thesis unfolding reap_swept_def wp_bind by (intro wp_mono [OF wait_collected(2)]) (simp add: wp_return)
qed

lemma kill_and_reap_collected: "wp (kill_and_reap S c watch) collected w"
proof -
  have "collected (case waited of Inl e \<Rightarrow> Inl e | Inr st \<Rightarrow> (case watch of Inl e \<Rightarrow> Inl e | Inr _ \<Rightarrow> Inr st)) w'" if "collected waited w'" for waited w'
    using that by (cases waited; cases watch) simp_all
  then have "wp (State_Monad.bind (wait_root_unbounded S)
      (\<lambda>status. State_Monad.return (case status of Inl e \<Rightarrow> Inl e | Inr st \<Rightarrow> (case watch of Inl e \<Rightarrow> Inl e | Inr _ \<Rightarrow> Inr st)))) collected w" for w
    unfolding wp_bind by (intro wp_mono [OF wait_collected(2)]) (simp add: wp_return)
  then show ?thesis unfolding kill_and_reap_def by (intro wp_then) (simp add: wp_return split: sum.split)
qed

lemma sweep_and_reap_collected: "wp (sweep_and_reap S c exited we) collected w"
  unfolding sweep_and_reap_def
  by (rule wp_then) (simp add: reap_swept_collected wp_then wp_return split: sum.split)

lemma graceful_shutdown_tree_collected: "wp (graceful_shutdown_tree S c grace) collected w"
proof -
  have "wp (after_tree_signal S c grace) collected w" for w
    unfolding after_tree_signal_def
    by (rule wp_then) (simp add: reap_swept_collected sweep_and_reap_collected split: prod.split)
  then have s: "wp (settle_signal S c grace r) collected w" for r w
    by (simp add: settle_signal_def wp_return split: sum.split)
  then show ?thesis
    unfolding graceful_shutdown_tree_def
    by (cases "require_contained (tc_attached c)") (simp_all add: wp_then wp_return s split: Graceful.split)
qed

lemma graceful_shutdown_collected: "wp (graceful_shutdown S c grace) collected w"
proof -
  have "wp (State_Monad.bind (wait_root S (Some grace)) (\<lambda>watch. case watch of
      Inl e \<Rightarrow> kill_and_reap S c watch
    | Inr None \<Rightarrow> kill_and_reap S c watch
    | Inr (Some status) \<Rightarrow> State_Monad.return (Inr status))) collected w" for w
    unfolding wp_bind
    by (rule wp_mono [OF wait_collected(1)]) (simp add: kill_and_reap_collected wp_return split: sum.split option.split)
  then show ?thesis unfolding graceful_shutdown_def by (intro wp_then) (simp add: wp_return split: sum.split)
qed

text \<open>C19: a shutdown never waits for a root that nothing ended. In any run of \<^verbatim>\<open>graceful_shutdown\<close>, \<^verbatim>\<open>graceful_shutdown_tree\<close> and the drop, whatever the system answers, a wait without a
deadline comes only after the root was killed through its handle or its cgroup, was seen to have exited, or was seen reaped; in a teardown after its own kill was taken, or a kill sent elsewhere
was seen to reach it. The same is so when \<^verbatim>\<open>kill_tree\<close> answers that it succeeded. A status that either shutdown returns is the one the last wait collected.\<close>

theorem shutdown_waits_are_grounded:
  "log_all wait_rule (w_log (snd (run_state (graceful_shutdown S c grace) \<lparr>w_kernel = k, w_log = []\<rparr>)))
   \<and> log_all wait_rule (w_log (snd (run_state (graceful_shutdown_tree S c grace) \<lparr>w_kernel = k, w_log = []\<rparr>)))
   \<and> log_all wait_rule (w_log (snd (run_state (drop_unix S c tree_killed) \<lparr>w_kernel = k, w_log = []\<rparr>)))
   \<and> (case run_state (kill_tree S c) \<lparr>w_kernel = k, w_log = []\<rparr> of (Inr _, w) \<Rightarrow> ended (w_log w) | _ \<Rightarrow> True)
   \<and> (case run_state (graceful_shutdown S c grace) \<lparr>w_kernel = k, w_log = []\<rparr> of (r, w) \<Rightarrow> collected r w)
   \<and> (case run_state (graceful_shutdown_tree S c grace) \<lparr>w_kernel = k, w_log = []\<rparr> of (r, w) \<Rightarrow> collected r w)"
proof -
  let ?w = "\<lparr>w_kernel = k, w_log = []\<rparr>"
  have l: "log_all wait_rule (w_log (snd (run_state m ?w)))" if "keeps free_law m" for m :: "('a, 'b) teff"
    using keeps_wp [OF that, of ?w] by (auto simp: wp_def lawful_def granted_def split: prod.splits)
  have k: "case run_state (kill_tree S c) ?w of (Inr _, w) \<Rightarrow> ended (w_log w) | _ \<Rightarrow> True"
    using kill_tree_ends [of S c ?w] by (auto simp: wp_def split: prod.splits sum.splits)
  show ?thesis
    using l [OF graceful_shutdown_free [of S c grace]] l [OF graceful_shutdown_tree_free [of S c grace]] l [OF drop_unix_free [of S c tree_killed]] k
      graceful_shutdown_collected [of S c grace ?w] graceful_shutdown_tree_collected [of S c grace ?w]
    by (simp add: wp_def)
qed

end
