(* ===== verification/Cgroup_Dir.thy ===== *)
theory Cgroup_Dir
  imports Errors Effects "HOL-Library.Multiset" "HOL-Library.Sublist"
begin

text \<open>
  The directory of a cgroup leaf and the tree of cgroups under it: \<^verbatim>\<open>src/src/containment/cgroup/dir.rs\<close>. The traversal, the walk that looks for a cgroup's id,
  the sweep that removes the cgroups under a leaf, and the removal of the leaf itself. A descriptor is the directory it was opened on; the numbers of
  descriptors are not modelled. The system is a parameter, and the tree may change at every call.
\<close>

section \<open>The system\<close>

abbreviation ENOENT :: i32 where "ENOENT \<equiv> 2"
abbreviation EBUSY :: i32 where "EBUSY \<equiv> 16"
abbreviation EXDEV :: i32 where "EXDEV \<equiv> 18"
abbreviation ENODEV :: i32 where "ENODEV \<equiv> 19"
abbreviation ENOTDIR :: i32 where "ENOTDIR \<equiv> 20"
abbreviation ELOOP :: i32 where "ELOOP \<equiv> 40"

datatype FileType = Directory | Unknown_Type | Other_Type

text \<open>\<open>d_open\<close> is \<^verbatim>\<open>open_beneath\<close>: \<^verbatim>\<open>openat2\<close> without mounts, symbolic links or a way out, then \<^verbatim>\<open>above_stdio\<close>. \<open>d_handle\<close> is \<^verbatim>\<open>name_to_handle_at\<close>, with the type,
the length and the bytes of the handle; \<open>d_list\<close> opens a directory for listing and \<open>d_entries\<close> is what the iteration over it gives, an error instead of an entry
included; \<open>d_stat\<close> is whether a name is a directory; \<open>d_inode\<close> the device and the inode; \<open>d_alive\<close> opens \<^verbatim>\<open>cgroup.events\<close>; \<open>d_unlink\<close> is
\<^verbatim>\<open>unlinkat\<close> with \<^verbatim>\<open>AT_REMOVEDIR\<close>.\<close>

record ('d, 'k) DirSys =
  d_open :: "'d \<Rightarrow> bytes \<Rightarrow> 'k \<Rightarrow> (i32 + 'd) \<times> 'k"
  d_handle :: "'d \<Rightarrow> 'k \<Rightarrow> (i32 + i32 \<times> u32 \<times> bytes) \<times> 'k"
  d_list :: "'d \<Rightarrow> 'k \<Rightarrow> (i32 + unit) \<times> 'k"
  d_entries :: "'d \<Rightarrow> 'k \<Rightarrow> (i32 + bytes \<times> FileType) list \<times> 'k"
  d_stat :: "'d \<Rightarrow> bytes \<Rightarrow> 'k \<Rightarrow> (i32 + bool) \<times> 'k"
  d_inode :: "'d \<Rightarrow> 'k \<Rightarrow> (i32 + u64 \<times> u64) \<times> 'k"
  d_alive :: "'d \<Rightarrow> 'k \<Rightarrow> (i32 + unit) \<times> 'k"
  d_unlink :: "'d \<Rightarrow> bytes \<Rightarrow> 'k \<Rightarrow> (i32 + unit) \<times> 'k"

text \<open>A call and its answer; a removal carries the path of what it names, from the leaf.\<close>

datatype 'd DirEv =
    Opened 'd bytes "i32 + 'd"
  | Handle_Read 'd "i32 + i32 \<times> u32 \<times> bytes"
  | List_Opened 'd "i32 + unit"
  | Entries_Read 'd "(i32 + bytes \<times> FileType) list"
  | Statted 'd bytes "i32 + bool"
  | Inode_Read 'd "i32 + u64 \<times> u64"
  | Alive_Read 'd "i32 + unit"
  | Unlinked "bytes list" 'd bytes "i32 + unit"

type_synonym ('d, 'k, 'a) deff = "('k, 'd DirEv, 'a) eff"

definition open_beneath :: "('d, 'k) DirSys \<Rightarrow> 'd \<Rightarrow> bytes \<Rightarrow> ('d, 'k, i32 + 'd) deff" where
  "open_beneath S d path = call (Opened d path) (d_open S d path)"

section \<open>Ids\<close>

definition FILEID_KERNFS :: i32 where "FILEID_KERNFS = 0xFE"

text \<open>\<^verbatim>\<open>u64::from_ne_bytes\<close>, on a little-endian machine.\<close>

definition from_ne_bytes :: "bytes \<Rightarrow> u64" where
  "from_ne_bytes bs = word_rcat (rev bs)"

definition id_of_handle :: "i32 \<times> u32 \<times> bytes \<Rightarrow> IoError + u64" where
  "id_of_handle h = (case h of (handle_type, handle_bytes, bs) \<Rightarrow>
     if handle_type \<noteq> FILEID_KERNFS \<or> handle_bytes \<noteq> 8 then Inl (KindError InvalidData) else Inr (from_ne_bytes bs))"

definition id_of_answer :: "i32 + i32 \<times> u32 \<times> bytes \<Rightarrow> IoError + u64" where
  "id_of_answer r = (case r of Inl e \<Rightarrow> Inl (OsError e) | Inr h \<Rightarrow> id_of_handle h)"

definition cgroup_id :: "('d, 'k) DirSys \<Rightarrow> 'd \<Rightarrow> ('d, 'k, IoError + u64) deff" where
  "cgroup_id S d = State_Monad.bind (call (Handle_Read d) (d_handle S d)) (\<lambda>r. State_Monad.return (id_of_answer r))"

section \<open>Errors\<close>

definition gone :: "i32 \<Rightarrow> bool" where
  "gone e \<longleftrightarrow> e = ENOENT \<or> e = ENODEV"

definition gone_io :: "IoError \<Rightarrow> bool" where
  "gone_io e = (case raw_os_error e of Some n \<Rightarrow> gone n | None \<Rightarrow> False)"

datatype Failure = RootGone IoError | Failed IoError

definition into_error :: "Failure \<Rightarrow> IoError" where
  "into_error f = (case f of RootGone e \<Rightarrow> e | Failed e \<Rightarrow> e)"

section \<open>The tree\<close>

record Node =
  n_parent :: nat
  n_name :: bytes

type_synonym Tree = "Node list"

definition new_tree :: Tree where
  "new_tree = [\<lparr>n_parent = 0, n_name = []\<rparr>]"

definition push_node :: "Tree \<Rightarrow> nat \<Rightarrow> bytes \<Rightarrow> Tree \<times> nat" where
  "push_node tree p name = (tree @ [\<lparr>n_parent = p, n_name = name\<rparr>], length tree)"

text \<open>The loop of \<^verbatim>\<open>Tree::names\<close> from a node up to the root: \<open>None\<close> for an index out of range, or parents that never lead to the root.\<close>

partial_function (option) names_loop :: "Tree \<Rightarrow> nat \<Rightarrow> bytes list \<Rightarrow> bytes list option" where
  "names_loop tree i acc =
     (if i = 0 then Some acc
      else if i < length tree then names_loop tree (n_parent (tree ! i)) (n_name (tree ! i) # acc)
      else None)"

declare names_loop.simps [code]

definition names_of :: "Tree \<Rightarrow> nat \<Rightarrow> bytes list option" where
  "names_of tree i = names_loop tree i []"

section \<open>Opening a cgroup\<close>

definition PATH_MAX_BYTES :: nat where "PATH_MAX_BYTES = 4095"

text \<open>The loop of \<^verbatim>\<open>pieces\<close>, at the name \<open>i\<close>.\<close>

fun pieces_loop :: "nat \<Rightarrow> bytes list \<Rightarrow> nat \<Rightarrow> nat \<Rightarrow> nat \<Rightarrow> (nat \<times> nat) list" where
  "pieces_loop longest [] i start len = (if start < i then [(start, i)] else [])"
| "pieces_loop longest (name # names) i start len = (
     let joined = len + (if start < i then 1 else 0) + length name in
     if start < i \<and> longest < joined then (start, i) # pieces_loop longest names (i + 1) i (length name)
     else pieces_loop longest names (i + 1) start joined)"

definition pieces :: "bytes list \<Rightarrow> nat \<Rightarrow> (nat \<times> nat) list" where
  "pieces names longest = pieces_loop longest names 0 0 0"

definition piece_path :: "bytes list \<Rightarrow> nat \<times> nat \<Rightarrow> bytes" where
  "piece_path names run = intercalate SLASH (drop (fst run) (take (snd run) names))"

fun open_pieces :: "('d, 'k) DirSys \<Rightarrow> 'd \<Rightarrow> bytes list \<Rightarrow> ('d, 'k, i32 + 'd) deff" where
  "open_pieces S held [] = State_Monad.return (Inr held)"
| "open_pieces S held (path # paths) = State_Monad.bind (open_beneath S held path)
     (\<lambda>r. case r of Inl e \<Rightarrow> State_Monad.return (Inl e) | Inr d \<Rightarrow> open_pieces S d paths)"

definition open_cgroup :: "('d, 'k) DirSys \<Rightarrow> 'd \<Rightarrow> bytes list \<Rightarrow> ('d, 'k, i32 + 'd) deff" where
  "open_cgroup S dir names = (case pieces names PATH_MAX_BYTES of
      [] \<Rightarrow> open_beneath S dir [DOT]
    | runs \<Rightarrow> open_pieces S dir (map (piece_path names) runs))"

section \<open>The traversal\<close>

datatype Visit = Visit_Continue | Visit_Skip | Visit_Stop

datatype Traversed = Stopped | Listed bool

definition is_dir :: "('d, 'k) DirSys \<Rightarrow> 'd \<Rightarrow> FileType \<Rightarrow> bytes \<Rightarrow> ('d, 'k, IoError + bool) deff" where
  "is_dir S d ft name = (case ft of
      Directory \<Rightarrow> State_Monad.return (Inr True)
    | Unknown_Type \<Rightarrow> State_Monad.bind (call (Statted d name) (d_stat S d name)) (\<lambda>r. State_Monad.return (case r of
          Inr b \<Rightarrow> Inr b
        | Inl e \<Rightarrow> if gone e then Inr False else Inl (OsError e)))
    | Other_Type \<Rightarrow> State_Monad.return (Inr False))"

definition failed_at :: "nat \<Rightarrow> i32 \<Rightarrow> Failure" where
  "failed_at node e = (if node = 0 \<and> gone e then RootGone (OsError e) else Failed (OsError e))"

text \<open>The loop over the entries of a node: the tree and the nodes that were queued.\<close>

fun push_entries :: "('d, 'k) DirSys \<Rightarrow> 'd \<Rightarrow> nat \<Rightarrow> (i32 + bytes \<times> FileType) list \<Rightarrow> Tree \<Rightarrow> nat list \<Rightarrow> ('d, 'k, (Failure + nat list) \<times> Tree) deff" where
  "push_entries S d node [] tree queued = State_Monad.return (Inr queued, tree)"
| "push_entries S d node (entry # entries) tree queued = (case entry of
      Inl e \<Rightarrow> State_Monad.return (if gone e \<and> node \<noteq> 0 then Inr queued else Inl (failed_at node e), tree)
    | Inr (name, ft) \<Rightarrow>
        if name = [DOT] \<or> name = [DOT, DOT] then push_entries S d node entries tree queued
        else State_Monad.bind (is_dir S d ft name) (\<lambda>r. case r of
            Inl e \<Rightarrow> State_Monad.return (Inl (Failed e), tree)
          | Inr False \<Rightarrow> push_entries S d node entries tree queued
          | Inr True \<Rightarrow> push_entries S d node entries (fst (push_node tree node name)) (queued @ [snd (push_node tree node name)])))"

text \<open>What one node of the queue comes to: the end of the traversal, or the nodes it queues and whether it is behind a mount.\<close>

datatype Turn = Ends "Failure + Traversed" | Goes "nat list" bool

type_synonym ('d, 'k, 'v) visitor = "'v \<Rightarrow> nat \<Rightarrow> 'd \<Rightarrow> ('d, 'k, (IoError + Visit) \<times> 'v) deff"

definition list_node :: "('d, 'k) DirSys \<Rightarrow> bool \<Rightarrow> Tree \<Rightarrow> nat \<Rightarrow> 'd \<Rightarrow> ('d, 'k, Turn \<times> Tree) deff" where
  "list_node S confirm_root tree node cgroup = State_Monad.bind (call (List_Opened cgroup) (d_list S cgroup)) (\<lambda>r. case r of
      Inl e \<Rightarrow> State_Monad.return (if gone e \<and> node \<noteq> 0 then Goes [] False else Ends (Inl (failed_at node e)), tree)
    | Inr _ \<Rightarrow> State_Monad.bind (call (Entries_Read cgroup) (d_entries S cgroup)) (\<lambda>entries.
        State_Monad.bind (push_entries S cgroup node entries tree []) (\<lambda>(r, tree'). case r of
            Inl f \<Rightarrow> State_Monad.return (Ends (Inl f), tree')
          | Inr queued \<Rightarrow>
              if node = 0 \<and> confirm_root then State_Monad.bind (call (Alive_Read cgroup) (d_alive S cgroup)) (\<lambda>r. State_Monad.return (case r of
                  Inl e \<Rightarrow> (Ends (Inl (failed_at node e)), tree')
                | Inr _ \<Rightarrow> (Goes queued False, tree')))
              else State_Monad.return (Goes queued False, tree'))))"

definition visit_node ::
  "('d, 'k) DirSys \<Rightarrow> bool \<Rightarrow> ('d, 'k, 'v) visitor \<Rightarrow> Tree \<Rightarrow> nat \<Rightarrow> 'd \<Rightarrow> 'v \<Rightarrow> ('d, 'k, (Turn \<times> Tree) \<times> 'v) deff" where
  "visit_node S confirm_root visit tree node cgroup v =
     (if node = 0 then State_Monad.bind (list_node S confirm_root tree node cgroup) (\<lambda>t. State_Monad.return (t, v))
      else State_Monad.bind (visit v node cgroup) (\<lambda>(r, v'). case r of
          Inl e \<Rightarrow> State_Monad.return ((Ends (Inl (Failed e)), tree), v')
        | Inr Visit_Continue \<Rightarrow> State_Monad.bind (list_node S confirm_root tree node cgroup) (\<lambda>t. State_Monad.return (t, v'))
        | Inr Visit_Skip \<Rightarrow> State_Monad.return ((Goes [] False, tree), v')
        | Inr Visit_Stop \<Rightarrow> State_Monad.return ((Ends (Inr Stopped), tree), v')))"

definition traverse_node ::
  "('d, 'k) DirSys \<Rightarrow> 'd \<Rightarrow> bool \<Rightarrow> ('d, 'k, 'v) visitor \<Rightarrow> Tree \<Rightarrow> nat \<Rightarrow> bytes list \<Rightarrow> 'v \<Rightarrow> ('d, 'k, (Turn \<times> Tree) \<times> 'v) deff" where
  "traverse_node S dir confirm_root visit tree node names v = State_Monad.bind (open_cgroup S dir names) (\<lambda>r. case r of
      Inr cgroup \<Rightarrow> visit_node S confirm_root visit tree node cgroup v
    | Inl e \<Rightarrow> State_Monad.return (
        (if gone e \<and> node \<noteq> 0 then Goes [] False
         else if e = EXDEV then Goes [] True
         else Ends (Inl (failed_at node e)), tree), v))"

text \<open>The loop over the queue, which a tree that keeps growing may keep going forever: \<open>None\<close> then.\<close>

partial_function (option) traverse_loop ::
  "('d, 'k) DirSys \<Rightarrow> 'd \<Rightarrow> bool \<Rightarrow> ('d, 'k, 'v) visitor \<Rightarrow> Tree \<Rightarrow> nat list \<Rightarrow> bool \<Rightarrow> 'v \<Rightarrow> ('k, 'd DirEv) Machine
     \<Rightarrow> ((Failure + Traversed) \<times> Tree \<times> 'v \<times> ('k, 'd DirEv) Machine) option" where
  "traverse_loop S dir confirm_root visit tree pending mounted v w = (case pending of
      [] \<Rightarrow> Some (Inr (Listed mounted), tree, v, w)
    | node # rest \<Rightarrow> (case names_of tree node of
        None \<Rightarrow> None
      | Some names \<Rightarrow> (case run_state (traverse_node S dir confirm_root visit tree node names v) w of
          (((turn, tree'), v'), w') \<Rightarrow> (case turn of
            Ends r \<Rightarrow> Some (r, tree', v', w')
          | Goes queued mounted' \<Rightarrow> traverse_loop S dir confirm_root visit tree' (rest @ queued) (mounted \<or> mounted') v' w'))))"

declare traverse_loop.simps [code]

definition traverse where
  "traverse S dir confirm_root visit v w = traverse_loop S dir confirm_root visit new_tree [0] False v w"

section \<open>The walk\<close>

datatype Walked = Found | Absent | Walk_Unknown IoError

definition look_for :: "('d, 'k) DirSys \<Rightarrow> u64 \<Rightarrow> ('d, 'k, unit) visitor" where
  "look_for S i v node cgroup = State_Monad.bind (cgroup_id S cgroup) (\<lambda>r. State_Monad.return (case r of
      Inr found \<Rightarrow> Inr (if found = i then Visit_Stop else Visit_Continue)
    | Inl e \<Rightarrow> if gone_io e then Inr Visit_Skip else Inl e, v))"

definition walk :: "('d, 'k) DirSys \<Rightarrow> 'd \<Rightarrow> u64 \<Rightarrow> ('k, 'd DirEv) Machine \<Rightarrow> ((IoError + unit option) \<times> ('k, 'd DirEv) Machine) option" where
  "walk S dir i w = map_option (\<lambda>(r, _, _, w'). (case r of
      Inl f \<Rightarrow> Inl (into_error f)
    | Inr Stopped \<Rightarrow> Inr (Some ())
    | Inr (Listed mounted) \<Rightarrow> if mounted then Inl (OsError EXDEV) else Inr None, w'))
    (traverse S dir True (look_for S i) () w)"

definition find_descendant :: "('d, 'k) DirSys \<Rightarrow> 'd \<Rightarrow> u64 \<Rightarrow> ('k, 'd DirEv) Machine \<Rightarrow> (Walked \<times> ('k, 'd DirEv) Machine) option" where
  "find_descendant S dir i w = map_option (\<lambda>(r, w'). (case r of
      Inr (Some _) \<Rightarrow> Found
    | Inr None \<Rightarrow> Absent
    | Inl e \<Rightarrow> Walk_Unknown e, w')) (walk S dir i w)"

section \<open>The sweep\<close>

definition note_id :: "('d, 'k) DirSys \<Rightarrow> ('d, 'k, (nat \<times> u64 option) list) visitor" where
  "note_id S found node cgroup = State_Monad.bind (cgroup_id S cgroup) (\<lambda>r. State_Monad.return (case r of
      Inr i \<Rightarrow> (Inr Visit_Continue, found @ [(node, Some i)])
    | Inl e \<Rightarrow> if gone_io e then (Inr Visit_Skip, found) else (Inr Visit_Continue, found @ [(node, None)])))"

text \<open>The loop over what was found, last first, with the ids of the removed (\<^verbatim>\<open>Swept\<close>) and their number; \<open>None\<close> as in \<open>names_of\<close>.\<close>

fun remove_loop ::
  "('d, 'k) DirSys \<Rightarrow> 'd \<Rightarrow> Tree \<Rightarrow> (nat \<times> u64 option) list \<Rightarrow> u64 set \<Rightarrow> nat \<Rightarrow> ('k, 'd DirEv) Machine
     \<Rightarrow> ((IoError + nat) \<times> u64 set \<times> ('k, 'd DirEv) Machine) option" where
  "remove_loop S dir tree [] swept removed w = Some (Inr removed, swept, w)"
| "remove_loop S dir tree ((node, i) # found) swept removed w =
     (if length tree \<le> node then None
      else (case names_of tree (n_parent (tree ! node)) of
          None \<Rightarrow> None
        | Some names \<Rightarrow> (case run_state (open_cgroup S dir names) w of
            (Inl e, w') \<Rightarrow> if gone e \<or> e = EXDEV then remove_loop S dir tree found swept removed w' else Some (Inl (OsError e), swept, w')
          | (Inr p, w') \<Rightarrow> (case run_state (call (Unlinked names p (n_name (tree ! node))) (d_unlink S p (n_name (tree ! node)))) w' of
                (Inr _, w'') \<Rightarrow> remove_loop S dir tree found (case i of Some x \<Rightarrow> insert x swept | None \<Rightarrow> swept) (removed + 1) w''
              | (Inl e, w'') \<Rightarrow> if gone e \<or> e = EBUSY then remove_loop S dir tree found swept removed w'' else Some (Inl (OsError e), swept, w'')))))"

definition remove_children ::
  "('d, 'k) DirSys \<Rightarrow> 'd \<Rightarrow> u64 set \<Rightarrow> ('k, 'd DirEv) Machine \<Rightarrow> ((IoError + nat) \<times> u64 set \<times> ('k, 'd DirEv) Machine) option" where
  "remove_children S dir swept w = (case traverse S dir False (note_id S) [] w of
      None \<Rightarrow> None
    | Some (r, tree, found, w') \<Rightarrow> (case remove_loop S dir tree (rev found) swept 0 w' of
        None \<Rightarrow> None
      | Some (Inl e, swept', w'') \<Rightarrow> Some (Inl e, swept', w'')
      | Some (Inr removed, swept', w'') \<Rightarrow> Some (case r of
            Inr _ \<Rightarrow> Inr removed
          | Inl (RootGone _) \<Rightarrow> Inr removed
          | Inl (Failed e) \<Rightarrow> Inl e, swept', w'')))"

section \<open>The leaf\<close>

record 'd LeafDir =
  ld_parent :: 'd
  ld_dir :: 'd
  ld_name :: bytes

definition removed_after_drain :: "IoError \<Rightarrow> bool" where
  "removed_after_drain e \<longleftrightarrow> raw_os_error e = Some ENODEV \<or> raw_os_error e = Some ENOENT"

text \<open>A name that does not lead to the leaf.\<close>

definition not_ours :: "('d, 'k) DirSys \<Rightarrow> 'd LeafDir \<Rightarrow> ('d, 'k, IoError + unit) deff" where
  "not_ours S l = State_Monad.bind (call (Alive_Read (ld_dir l)) (d_alive S (ld_dir l))) (\<lambda>r. State_Monad.return (Inl (case r of
      Inl e \<Rightarrow> if removed_after_drain (OsError e) then OsError ENOENT else OsError e
    | Inr _ \<Rightarrow> KindError OtherKind)))"

definition rmdir_ours :: "('d, 'k) DirSys \<Rightarrow> 'd LeafDir \<Rightarrow> ('d, 'k, IoError + unit) deff" where
  "rmdir_ours S l = State_Monad.bind (call (Unlinked [] (ld_parent l) (ld_name l)) (d_unlink S (ld_parent l) (ld_name l)))
     (\<lambda>r. State_Monad.return (case r of Inl e \<Rightarrow> Inl (OsError e) | Inr _ \<Rightarrow> Inr ()))"

definition rmdir :: "('d, 'k) DirSys \<Rightarrow> 'd LeafDir \<Rightarrow> ('d, 'k, IoError + unit) deff" where
  "rmdir S l = State_Monad.bind (open_beneath S (ld_parent l) (ld_name l)) (\<lambda>named. case named of
      Inl e \<Rightarrow> if e = EXDEV then State_Monad.return (Inl (OsError EBUSY))
        else if e = ENOENT \<or> e = ELOOP \<or> e = ENOTDIR then not_ours S l
        else State_Monad.return (Inl (OsError e))
    | Inr d \<Rightarrow> State_Monad.bind (call (Inode_Read d) (d_inode S d)) (\<lambda>named. case named of
        Inl e \<Rightarrow> State_Monad.return (Inl (OsError e))
      | Inr named \<Rightarrow> State_Monad.bind (call (Inode_Read (ld_dir l)) (d_inode S (ld_dir l))) (\<lambda>held. case held of
          Inl e \<Rightarrow> State_Monad.return (Inl (OsError e))
        | Inr held \<Rightarrow> if named = held then rmdir_ours S l else not_ours S l)))"


section \<open>Names of nodes\<close>

definition tree_ok :: "Tree \<Rightarrow> bool" where
  "tree_ok tree \<longleftrightarrow> tree \<noteq> [] \<and> (\<forall>i. 0 < i \<and> i < length tree \<longrightarrow> n_parent (tree ! i) < i)"

lemma new_tree_ok: "tree_ok new_tree"
  by (auto simp: tree_ok_def new_tree_def)

lemma push_node_ok: "tree_ok tree \<Longrightarrow> p < length tree \<Longrightarrow> tree_ok (fst (push_node tree p name))"
  by (auto simp: tree_ok_def push_node_def nth_append less_Suc_eq)

lemma names_loop_acc:
  "tree_ok tree \<Longrightarrow> i < length tree \<Longrightarrow> \<exists>ns. names_loop tree i [] = Some ns \<and> (\<forall>acc. names_loop tree i acc = Some (ns @ acc))"
proof (induction i rule: less_induct)
  case (less i)
  show ?case
  proof (cases "i = 0")
    case False
    then have "n_parent (tree ! i) < i" using less.prems by (simp add: tree_ok_def)
    with less obtain ns where "\<And>acc. names_loop tree (n_parent (tree ! i)) acc = Some (ns @ acc)" by fastforce
    with False less.prems show ?thesis by (simp add: names_loop.simps [of tree i])
  qed (simp add: names_loop.simps)
qed

lemma names_of_root [simp]: "names_of tree 0 = Some []"
  by (simp add: names_of_def names_loop.simps)

lemma names_of_Some: "tree_ok tree \<Longrightarrow> i < length tree \<Longrightarrow> \<exists>ns. names_of tree i = Some ns"
  using names_loop_acc by (fastforce simp: names_of_def)

lemma names_of_parent:
  assumes "tree_ok tree" and "0 < i" and "i < length tree" and "names_of tree (n_parent (tree ! i)) = Some ns"
  shows "names_of tree i = Some (ns @ [n_name (tree ! i)])"
proof -
  have "n_parent (tree ! i) < length tree" using assms unfolding tree_ok_def by (meson less_trans)
  with names_loop_acc [OF assms(1)] assms show ?thesis by (fastforce simp: names_of_def names_loop.simps [of tree i])
qed

lemma names_loop_append: "tree_ok tree \<Longrightarrow> i < length tree \<Longrightarrow> names_loop (tree @ rest) i acc = names_loop tree i acc"
proof (induction i arbitrary: acc rule: less_induct)
  case (less i)
  show ?case
  proof (cases "i = 0")
    case False
    then have "n_parent (tree ! i) < i" using less.prems by (simp add: tree_ok_def)
    with less False show ?thesis by (simp add: names_loop.simps [of _ i] nth_append)
  qed (simp add: names_loop.simps)
qed

lemma names_of_push: "tree_ok tree \<Longrightarrow> i < length tree \<Longrightarrow> names_of (fst (push_node tree p name)) i = names_of tree i"
  by (simp add: names_of_def push_node_def names_loop_append)

lemma names_of_pushed:
  assumes "tree_ok tree" and "p < length tree" and "names_of tree p = Some ns"
  shows "names_of (fst (push_node tree p name)) (snd (push_node tree p name)) = Some (ns @ [name])"
proof -
  have "0 < length tree" using assms(1) by (simp add: tree_ok_def)
  then show ?thesis
    using names_of_parent [OF push_node_ok [OF assms(1,2)], of "length tree" name ns] names_of_push [OF assms(1,2)] assms(3)
    by (simp add: push_node_def)
qed

section \<open>Pieces\<close>

lemma length_intercalate_snoc:
  "length (intercalate c (ws @ [w])) = (if ws = [] then 0 else length (intercalate c ws) + 1) + length w"
  by (induction c ws rule: intercalate.induct) (auto simp: intercalate_Cons)

definition segment :: "'a list \<Rightarrow> nat \<times> nat \<Rightarrow> 'a list" where
  "segment xs run = drop (fst run) (take (snd run) xs)"

text \<open>The groups of names that the runs stand for: together they are the names, and a group's path is short enough unless it is a single name.\<close>

definition groups_ok :: "nat \<Rightarrow> bytes list \<Rightarrow> bytes list list \<Rightarrow> bool" where
  "groups_ok longest names gs \<longleftrightarrow> concat gs = names \<and> (\<forall>g \<in> set gs. g \<noteq> [] \<and> (length (intercalate SLASH g) \<le> longest \<or> length g = 1))"

lemma segment_snoc: "start \<le> i \<Longrightarrow> i < length xs \<Longrightarrow> segment xs (start, i + 1) = segment xs (start, i) @ [xs ! i]"
  by (simp add: segment_def take_Suc_conv_app_nth)

lemma segment_drop: "start \<le> i \<Longrightarrow> segment xs (start, i) @ drop i xs = drop start xs"
  by (metis append_take_drop_id drop_take fst_conv le_add_diff_inverse2 drop_drop segment_def snd_conv)

lemma groups_ok_Cons:
  "groups_ok longest names gs \<Longrightarrow> g \<noteq> [] \<Longrightarrow> length (intercalate SLASH g) \<le> longest \<or> length g = 1 \<Longrightarrow> groups_ok longest (g @ names) (g # gs)"
  by (auto simp: groups_ok_def)

lemma pieces_loop_groups:
  assumes "start \<le> i" and "i \<le> length whole" and "names = drop i whole"
    and "len = length (intercalate SLASH (segment whole (start, i)))"
    and "start < i \<longrightarrow> len \<le> longest \<or> i = start + 1"
  shows "groups_ok longest (drop start whole) (map (segment whole) (pieces_loop longest names i start len))"
  using assms
proof (induction longest names i start len rule: pieces_loop.induct)
  case (1 longest i start len)
  then show ?case by (auto simp: groups_ok_def segment_def)
next
  case (2 longest name names i start len)
  let ?joined = "len + (if start < i then 1 else 0) + length name"
  have i: "i < length whole" "name = whole ! i" "names = drop (i + 1) whole"
    using 2(5) by (metis Suc_eq_plus1 drop_eq_Nil2 list.distinct(1) not_le, metis (no_types) Cons_nth_drop_Suc drop_eq_Nil2 list.distinct(1) list.inject not_le,
      metis (no_types) Cons_nth_drop_Suc Suc_eq_plus1 drop_eq_Nil2 list.distinct(1) list.inject not_le)
  have one: "segment whole (i, i + 1) = [name]" using i by (simp add: segment_def take_Suc_conv_app_nth)
  have joined: "?joined = length (intercalate SLASH (segment whole (start, i + 1)))"
    unfolding segment_snoc [OF 2(3) i(1)] length_intercalate_snoc i(2) 2(6) using 2(3) i(1) by (auto simp: segment_def)
  show ?case
  proof (cases "start < i \<and> longest < ?joined")
    case True
    have "groups_ok longest (drop i whole) (map (segment whole) (pieces_loop longest names (i + 1) i (length name)))"
      by (rule 2(1) [OF refl True]) (use i one in simp_all)
    then have "groups_ok longest (segment whole (start, i) @ drop i whole)
        (segment whole (start, i) # map (segment whole) (pieces_loop longest names (i + 1) i (length name)))"
      by (rule groups_ok_Cons) (use True 2(6,7) i in \<open>auto simp: segment_def\<close>)
    moreover have "segment whole (start, i) @ drop i whole = drop start whole"
      by (rule segment_drop) (use True in simp)
    ultimately show ?thesis using True by (auto simp: Let_def)
  next
    case False
    have "groups_ok longest (drop start whole) (map (segment whole) (pieces_loop longest names (i + 1) start ?joined))"
      by (rule 2(2) [OF refl False]) (use False 2(3) i joined in auto)
    with False show ?thesis by (simp add: Let_def)
  qed
qed

lemma pieces_groups: "groups_ok longest names (map (segment names) (pieces names longest))"
  using pieces_loop_groups [of 0 0 names names 0 longest] by (simp add: pieces_def segment_def)

lemma piece_path_segment: "piece_path names = (\<lambda>run. intercalate SLASH (segment names run))"
  by (simp add: fun_eq_iff piece_path_def segment_def)

lemma pieces_Nil: "pieces names longest = [] \<longleftrightarrow> names = []"
  using pieces_groups [of longest names] by (cases names) (auto simp: groups_ok_def pieces_def)


section \<open>What every run keeps\<close>

text \<open>Every call of the system keeps the relation; then so does every computation over them.\<close>

definition calls_keep :: "(('k, 'd DirEv) Machine \<Rightarrow> ('k, 'd DirEv) Machine \<Rightarrow> bool) \<Rightarrow> ('d, 'k) DirSys \<Rightarrow> bool" where
  "calls_keep R S \<longleftrightarrow> (\<forall>d p. keeps R (call (Opened d p) (d_open S d p))) \<and> (\<forall>d. keeps R (call (Handle_Read d) (d_handle S d)))
     \<and> (\<forall>d. keeps R (call (List_Opened d) (d_list S d))) \<and> (\<forall>d. keeps R (call (Entries_Read d) (d_entries S d)))
     \<and> (\<forall>d n. keeps R (call (Statted d n) (d_stat S d n))) \<and> (\<forall>d. keeps R (call (Alive_Read d) (d_alive S d)))"

locale dir_order = run_order R for R :: "('k, 'd DirEv) Machine \<Rightarrow> ('k, 'd DirEv) Machine \<Rightarrow> bool" +
  fixes S :: "('d, 'k) DirSys"
  assumes calls: "calls_keep R S"
begin

lemma keeps_pair: "(\<And>a b. keeps R (m a b)) \<Longrightarrow> keeps R (case p of (a, b) \<Rightarrow> m a b)"
  by (cases p) simp

lemma keeps_cgroup_id: "keeps R (cgroup_id S d)"
  using calls by (simp add: cgroup_id_def calls_keep_def keeps_rules)

lemma keeps_open_pieces: "keeps R (open_pieces S d ps)"
proof (induction ps arbitrary: d)
  case (Cons p ps)
  then show ?case using calls by (auto simp: open_beneath_def calls_keep_def intro!: keeps_rules split: sum.splits)
qed (simp add: keeps_return)

lemma keeps_open_cgroup: "keeps R (open_cgroup S dir names)"
  using calls by (auto simp: open_cgroup_def open_beneath_def keeps_open_pieces calls_keep_def simp del: open_pieces.simps split: list.splits)

lemma keeps_is_dir: "keeps R (is_dir S d ft name)"
  using calls by (cases ft) (simp_all add: is_dir_def calls_keep_def keeps_rules)

lemma keeps_push_entries: "keeps R (push_entries S d node es tree queued)"
proof (induction es arbitrary: tree queued)
  case (Cons entry es)
  show ?case
  proof (cases entry)
    case (Inr e)
    obtain name ft where [simp]: "e = (name, ft)" by (cases e)
    show ?thesis
      using Cons Inr by (auto intro!: keeps_rules keeps_is_dir split: bool.splits)
  qed (simp add: keeps_return)
qed (simp add: keeps_return)

lemma keeps_list_node: "keeps R (list_node S c tree node d)"
  unfolding list_node_def
  using calls by (intro keeps_rules keeps_pair keeps_push_entries) (simp_all add: calls_keep_def)

lemma keeps_visit_node:
  "(\<And>v n d. keeps R (visit v n d)) \<Longrightarrow> keeps R (visit_node S c visit tree node d v)"
  unfolding visit_node_def
  by (intro keeps_rules keeps_pair keeps_list_node) (auto intro!: keeps_rules keeps_list_node split: Visit.splits)

lemma keeps_traverse_node:
  "(\<And>v n d. keeps R (visit v n d)) \<Longrightarrow> keeps R (traverse_node S dir c visit tree node names v)"
  unfolding traverse_node_def by (intro keeps_rules keeps_open_cgroup keeps_visit_node)

end

interpretation dir_log: dir_order extends S for S
  by unfold_locales (simp add: calls_keep_def call_extends)

section \<open>Runs of the traversal\<close>

text \<open>An invariant of the queue, kept by every turn, gives what holds at the end.\<close>

lemma traverse_inv:
  assumes "traverse_loop S dir c visit tree pending mounted v w = Some (r, tree', v', w')"
    and "P tree pending mounted v w"
    and turn: "\<And>tree node rest mounted v w names. P tree (node # rest) mounted v w \<Longrightarrow> names_of tree node = Some names \<Longrightarrow>
      wp (traverse_node S dir c visit tree node names v) (\<lambda>((turn, tree'), v') w'. case turn of
          Ends r \<Rightarrow> Q r tree' v' w'
        | Goes queued m \<Rightarrow> P tree' (rest @ queued) (mounted \<or> m) v' w') w"
    and "end": "\<And>tree mounted v w. P tree [] mounted v w \<Longrightarrow> Q (Inr (Listed mounted)) tree v w"
  shows "Q r tree' v' w'"
proof -
  let ?G = "\<lambda>S' dir' c' visit' tree pending mounted v w z. S' = S \<and> dir' = dir \<and> c' = c \<and> visit' = visit \<longrightarrow>
      P tree pending mounted v w \<longrightarrow> (case z of (r, tree', v', w') \<Rightarrow> Q r tree' v' w')"
  have "?G S dir c visit tree pending mounted v w (r, tree', v', w')"
  proof (rule traverse_loop.raw_induct [where P = ?G, OF _ assms(1)], intro impI, goal_cases)
    case (1 f S' dir' c' visit' tree pending mounted v w z)
    show ?case
    proof (cases pending)
      case Nil
      with 1 "end" show ?thesis by auto
    next
      case (Cons node rest)
      with 1 obtain names where n: "names_of tree node = Some names" by (auto split: option.splits)
      obtain t tr v1 w1 where step: "run_state (traverse_node S dir c visit tree node names v) w = (((t, tr), v1), w1)"
        by (metis surj_pair)
      from turn [of tree node rest mounted v w names] Cons 1(4) n step
      have post: "case t of Ends r \<Rightarrow> Q r tr v1 w1 | Goes queued m \<Rightarrow> P tr (rest @ queued) (mounted \<or> m) v1 w1" by (simp add: wp_def)
      show ?thesis
      proof (cases t)
        case (Ends r)
        with 1(2,3) Cons n step post show ?thesis by auto
      next
        case (Goes queued m)
        with 1(2,3) Cons n step have "f S dir c visit tr (rest @ queued) (mounted \<or> m) v1 w1 = Some z" by auto
        from 1(1) [OF this] Goes post show ?thesis by simp
      qed
    qed
  qed
  with assms(2) show ?thesis by simp
qed


text \<open>A name that some listing may give, and the queue: every node in it leads to the root by such names.\<close>

definition listed :: "('d, 'k) DirSys \<Rightarrow> bytes \<Rightarrow> bool" where
  "listed S name \<longleftrightarrow> name \<noteq> [DOT] \<and> name \<noteq> [DOT, DOT] \<and> (\<exists>d k ft. Inr (name, ft) \<in> set (fst (d_entries S d k)))"

definition queue_ok :: "('d, 'k) DirSys \<Rightarrow> Tree \<Rightarrow> nat list \<Rightarrow> bool" where
  "queue_ok S tree pending \<longleftrightarrow> tree_ok tree
     \<and> (\<forall>n \<in> set pending. n < length tree \<and> (\<exists>ns. names_of tree n = Some ns \<and> (\<forall>name \<in> set ns. listed S name)))"

definition grows :: "Tree \<Rightarrow> Tree \<Rightarrow> bool" where
  "grows tree tree' \<longleftrightarrow> tree_ok tree' \<and> length tree \<le> length tree' \<and> (\<forall>i < length tree. names_of tree' i = names_of tree i)"

definition queues :: "('d, 'k) DirSys \<Rightarrow> Tree \<Rightarrow> bytes list \<Rightarrow> nat list \<Rightarrow> bool" where
  "queues S tree ns queued \<longleftrightarrow> (\<forall>n \<in> set queued. n \<noteq> 0 \<and> n < length tree \<and> (\<exists>name. names_of tree n = Some (ns @ [name]) \<and> listed S name))"

lemma grows_refl: "tree_ok tree \<Longrightarrow> grows tree tree"
  by (simp add: grows_def)

lemma grows_trans: "grows t u \<Longrightarrow> grows u v \<Longrightarrow> grows t v"
  by (auto simp: grows_def)

lemma grows_push: "tree_ok tree \<Longrightarrow> p < length tree \<Longrightarrow> grows tree (fst (push_node tree p name))"
  using push_node_ok [of tree p name] names_of_push [of tree _ p name] by (auto simp: grows_def push_node_def)

lemma grows_queues: "grows t u \<Longrightarrow> queues S t ns q \<Longrightarrow> queues S u ns q"
  by (fastforce simp: grows_def queues_def)

lemma grows_queue_ok: "grows t u \<Longrightarrow> queue_ok S t q \<Longrightarrow> queue_ok S u q"
  by (fastforce simp: grows_def queue_ok_def)

lemma queues_snoc:
  "tree_ok tree \<Longrightarrow> node < length tree \<Longrightarrow> names_of tree node = Some ns \<Longrightarrow> listed S name \<Longrightarrow> queues S tree ns q
    \<Longrightarrow> queues S (fst (push_node tree node name)) ns (q @ [snd (push_node tree node name)])"
  using grows_queues [OF grows_push, of tree node S ns q name] names_of_pushed [of tree node ns name]
  by (auto simp: queues_def tree_ok_def push_node_def)

definition pushed :: "('d, 'k) DirSys \<Rightarrow> Tree \<Rightarrow> bytes list \<Rightarrow> nat list \<Rightarrow> (Failure + nat list) \<times> Tree \<Rightarrow> bool" where
  "pushed S tree ns queued p \<longleftrightarrow> grows tree (snd p) \<and> (\<forall>q. fst p = Inr q \<longrightarrow> queues S (snd p) ns q \<and> set queued \<subseteq> set q)"

lemma push_entries_grows:
  assumes "tree_ok tree" and "node < length tree" and "names_of tree node = Some ns" and "queues S tree ns queued"
    and "\<And>name ft. Inr (name, ft) \<in> set es \<Longrightarrow> name \<noteq> [DOT] \<Longrightarrow> name \<noteq> [DOT, DOT] \<Longrightarrow> listed S name"
  shows "wp (push_entries S d node es tree queued) (\<lambda>p _. pushed S tree ns queued p) w"
  using assms
proof (induction es arbitrary: tree queued w)
  case Nil
  then show ?case by (simp add: wp_simps pushed_def grows_refl)
next
  case (Cons entry es)
  have stay: "wp (push_entries S d node es tree queued) (\<lambda>p _. pushed S tree ns queued p) w" for w
    by (rule Cons.IH) (use Cons.prems in auto)
  show ?case
  proof (cases entry)
    case (Inl e)
    with Cons.prems show ?thesis by (simp add: wp_simps pushed_def grows_refl)
  next
    case (Inr x)
    obtain name ft where x [simp]: "x = (name, ft)" by (cases x)
    show ?thesis
    proof (cases "name = [DOT] \<or> name = [DOT, DOT]")
      case True
      with Inr stay show ?thesis by auto
    next
      case False
      let ?t = "fst (push_node tree node name)" and ?q = "queued @ [snd (push_node tree node name)]"
      have l: "listed S name" using Cons.prems(5) [of name ft] Inr False by simp
      note g = grows_push [OF Cons.prems(1,2), of name]
      have "node < length ?t" "names_of ?t node = Some ns" using g Cons.prems(2,3) by (simp_all add: grows_def)
      with queues_snoc [OF Cons.prems(1-3) l Cons.prems(4)] push_node_ok [OF Cons.prems(1,2), of name] Cons.prems(5)
      have "wp (push_entries S d node es ?t ?q) (\<lambda>p _. pushed S ?t ns ?q p) w" for w
        by (intro Cons.IH) auto
      then have go: "wp (push_entries S d node es ?t ?q) (\<lambda>p _. pushed S tree ns queued p) w" for w
        by (rule wp_mono) (use g in \<open>auto simp: pushed_def intro: grows_trans\<close>)
      show ?thesis
        unfolding Inr push_entries.simps x sum.case prod.case if_not_P [OF False]
      proof (rule wp_then)
        fix r w
        show "wp (case r of
            Inl e \<Rightarrow> State_Monad.return (Inl (Failed e), tree)
          | Inr True \<Rightarrow> push_entries S d node es ?t ?q
          | Inr False \<Rightarrow> push_entries S d node es tree queued) (\<lambda>p _. pushed S tree ns queued p) w"
        proof (cases r)
          case (Inl e)
          then show ?thesis by (simp add: wp_return pushed_def grows_refl [OF Cons.prems(1)])
        next
          case (Inr b)
          then show ?thesis by (cases b) (simp_all only: sum.case bool.case stay go)
        qed
      qed
    qed
  qed
qed

definition turn_ok :: "('d, 'k) DirSys \<Rightarrow> Tree \<Rightarrow> bytes list \<Rightarrow> Turn \<times> Tree \<Rightarrow> bool" where
  "turn_ok S tree ns t \<longleftrightarrow> grows tree (snd t) \<and> (\<forall>q m. fst t = Goes q m \<longrightarrow> queues S (snd t) ns q) \<and> (\<forall>b. fst t \<noteq> Ends (Inr (Listed b)))"

lemma turn_ok_stay: "tree_ok tree \<Longrightarrow> \<forall>b. r \<noteq> Inr (Listed b) \<Longrightarrow> turn_ok S tree ns (Ends r, tree)" "tree_ok tree \<Longrightarrow> turn_ok S tree ns (Goes [] m, tree)"
  by (simp_all add: turn_ok_def grows_refl queues_def)


lemma list_node_turn:
  assumes "tree_ok tree" and "node < length tree" and "names_of tree node = Some ns"
  shows "wp (list_node S c tree node d) (\<lambda>t _. turn_ok S tree ns t) w"
  unfolding list_node_def wp_bind wp_call
proof (cases "fst (d_list S d (w_kernel w))", simp_all only: sum.case)
  case (Inl e)
  show "wp (State_Monad.return (if gone e \<and> node \<noteq> 0 then Goes [] False else Ends (Inl (failed_at node e)), tree)) (\<lambda>t _. turn_ok S tree ns t)
      \<lparr>w_kernel = snd (d_list S d (w_kernel w)), w_log = List_Opened d (Inl e) # w_log w\<rparr>"
    using assms(1) by (simp add: wp_return turn_ok_stay)
next
  case (Inr u)
  let ?w = "\<lparr>w_kernel = snd (d_list S d (w_kernel w)), w_log = List_Opened d (Inr u) # w_log w\<rparr>"
  let ?es = "fst (d_entries S d (w_kernel ?w))"
  have push: "wp (push_entries S d node ?es tree []) (\<lambda>p _. pushed S tree ns [] p) w'" for w'
    by (rule push_entries_grows [OF assms]) (auto simp: queues_def listed_def)
  show "wp (call (Entries_Read d) (d_entries S d) \<bind> (\<lambda>entries.
        push_entries S d node entries tree [] \<bind> (\<lambda>(r, tree'). case r of
            Inl f \<Rightarrow> State_Monad.return (Ends (Inl f), tree')
          | Inr queued \<Rightarrow>
              if node = 0 \<and> c then call (Alive_Read d) (d_alive S d) \<bind> (\<lambda>r. State_Monad.return (case r of
                  Inl e \<Rightarrow> (Ends (Inl (failed_at node e)), tree')
                | Inr _ \<Rightarrow> (Goes queued False, tree')))
              else State_Monad.return (Goes queued False, tree')))) (\<lambda>t _. turn_ok S tree ns t) ?w"
    unfolding wp_bind wp_call
    by (rule wp_mono [OF push]) (auto simp: wp_simps pushed_def turn_ok_def split: sum.splits)
qed

lemma visit_node_turn:
  assumes "tree_ok tree" and "node < length tree" and "names_of tree node = Some ns"
  shows "wp (visit_node S c visit tree node d v) (\<lambda>t _. turn_ok S tree ns (fst t)) w"
proof (cases "node = 0")
  case True
  show ?thesis unfolding visit_node_def if_P [OF True] wp_bind
    by (rule wp_mono [OF list_node_turn [OF assms]]) (simp add: wp_return)
next
  case False
  have list: "wp (list_node S c tree node d \<bind> (\<lambda>t. State_Monad.return (t, v'))) (\<lambda>t _. turn_ok S tree ns (fst t)) w'" for v' :: 'd and w'
    unfolding wp_bind by (rule wp_mono [OF list_node_turn [OF assms]]) (simp add: wp_return)
  show ?thesis unfolding visit_node_def if_not_P [OF False]
  proof (rule wp_then)
    fix p :: "(IoError + Visit) \<times> 'd" and w'
    obtain r v' where p: "p = (r, v')" by (cases p)
    show "wp (case p of (r, v') \<Rightarrow> case r of
          Inl e \<Rightarrow> State_Monad.return ((Ends (Inl (Failed e)), tree), v')
        | Inr Visit_Continue \<Rightarrow> list_node S c tree node d \<bind> (\<lambda>t. State_Monad.return (t, v'))
        | Inr Visit_Skip \<Rightarrow> State_Monad.return ((Goes [] False, tree), v')
        | Inr Visit_Stop \<Rightarrow> State_Monad.return ((Ends (Inr Stopped), tree), v')) (\<lambda>t _. turn_ok S tree ns (fst t)) w'"
    proof (cases r)
      case (Inr x)
      then show ?thesis using list [of v' w'] assms(1) unfolding p by (cases x) (simp_all add: wp_return turn_ok_stay)
    qed (simp add: p wp_return turn_ok_stay assms(1))
  qed
qed

lemma traverse_node_turn:
  assumes "tree_ok tree" and "node < length tree" and "names_of tree node = Some ns"
  shows "wp (traverse_node S dir c visit tree node names v) (\<lambda>t _. turn_ok S tree ns (fst t)) w"
  unfolding traverse_node_def
proof (rule wp_then)
  fix r w
  show "wp (case r of
        Inl e \<Rightarrow> State_Monad.return ((if gone e \<and> node \<noteq> 0 then Goes [] False else if e = EXDEV then Goes [] True else Ends (Inl (failed_at node e)), tree), v)
      | Inr cgroup \<Rightarrow> visit_node S c visit tree node cgroup v) (\<lambda>t _. turn_ok S tree ns (fst t)) w"
    using visit_node_turn [OF assms] assms(1) by (cases r) (simp_all add: wp_return turn_ok_stay)
qed

lemma turn_ok_queue:
  assumes "queue_ok S tree (node # rest)" and "names_of tree node = Some ns" and "turn_ok S tree ns (Goes q m, tree')"
  shows "queue_ok S tree' (rest @ q)"
proof -
  have "queue_ok S tree' rest"
    by (rule grows_queue_ok [of tree]) (use assms in \<open>auto simp: turn_ok_def queue_ok_def\<close>)
  with assms show ?thesis by (fastforce simp: turn_ok_def queue_ok_def queues_def)
qed

lemma new_queue_ok: "queue_ok S new_tree [0]"
  by (simp add: queue_ok_def new_tree_ok) (simp add: new_tree_def)

section \<open>The traversal ends\<close>

text \<open>The names of entries are names, and no cgroup is deeper than \<open>n\<close>: a cgroup keeps its place, and the hierarchy has a greatest depth (\<^verbatim>\<open>cgroup.max.depth\<close>, and at the
latest that of the kernel's own counter).\<close>

definition names_honest :: "('d, 'k) DirSys \<Rightarrow> bool" where
  "names_honest S \<longleftrightarrow> (\<forall>d k name ft. Inr (name, ft) \<in> set (fst (d_entries S d k)) \<longrightarrow> name \<noteq> [] \<and> SLASH \<notin> set name)"

definition plain_path :: "bytes \<Rightarrow> bool" where
  "plain_path p \<longleftrightarrow> (\<forall>name \<in> set (split_on (\<lambda>b. b = SLASH) p). name \<noteq> [] \<and> name \<noteq> [DOT] \<and> name \<noteq> [DOT, DOT])"

definition bounded_depth :: "('d, 'k) DirSys \<Rightarrow> ('d \<Rightarrow> nat) \<Rightarrow> nat \<Rightarrow> bool" where
  "bounded_depth S depth n \<longleftrightarrow> (\<forall>d p k d'. fst (d_open S d p k) = Inr d' \<longrightarrow> plain_path p \<longrightarrow>
     depth d' = depth d + length (split_on (\<lambda>b. b = SLASH) p) \<and> depth d' \<le> n)"

lemma listed_plain:
  "names_honest S \<Longrightarrow> g \<noteq> [] \<Longrightarrow> (\<And>name. name \<in> set g \<Longrightarrow> listed S name)
    \<Longrightarrow> plain_path (intercalate SLASH g) \<and> split_on (\<lambda>b. b = SLASH) (intercalate SLASH g) = g"
  using split_on_intercalate [of g SLASH] by (fastforce simp: names_honest_def listed_def plain_path_def)

text \<open>What holds of the directory a path of names leads to, for a predicate on the names passed and the directory that every open of a plain path keeps.\<close>

definition opens_keep :: "('d, 'k) DirSys \<Rightarrow> (bytes list \<Rightarrow> 'd \<Rightarrow> bool) \<Rightarrow> bool" where
  "opens_keep S P \<longleftrightarrow> (\<forall>d p k d' ns. fst (d_open S d p k) = Inr d' \<longrightarrow> plain_path p \<longrightarrow> P ns d \<longrightarrow> P (ns @ split_on (\<lambda>b. b = SLASH) p) d')"

lemma open_pieces_leads:
  assumes "opens_keep S P" and "names_honest S" and "\<And>g. g \<in> set gs \<Longrightarrow> g \<noteq> []" and "\<And>g name. g \<in> set gs \<Longrightarrow> name \<in> set g \<Longrightarrow> listed S name"
    and "P ns d"
  shows "wp (open_pieces S d (map (intercalate SLASH) gs)) (\<lambda>r _. \<forall>d'. r = Inr d' \<longrightarrow> P (ns @ concat gs) d') w"
  using assms(3-5)
proof (induction gs arbitrary: d ns w)
  case (Cons g gs d ns w)
  have g: "plain_path (intercalate SLASH g)" "split_on (\<lambda>b. b = SLASH) (intercalate SLASH g) = g"
    using listed_plain [OF assms(2), of g] Cons.prems by auto
  show ?case
  proof (cases "fst (d_open S d (intercalate SLASH g) (w_kernel w))")
    case (Inr d')
    then have "P (ns @ g) d'" using assms(1) g Cons.prems(3) unfolding opens_keep_def by metis
    then have "wp (open_pieces S d' (map (intercalate SLASH) gs)) (\<lambda>r _. \<forall>d''. r = Inr d'' \<longrightarrow> P ((ns @ g) @ concat gs) d'') w'" for w'
      by (intro Cons.IH) (use Cons.prems in auto)
    then show ?thesis by (simp add: open_beneath_def wp_bind wp_call Inr split: sum.split)
  qed (simp add: open_beneath_def wp_bind wp_call wp_return)
qed (simp add: wp_return)

lemma in_segment: "x \<in> set (segment xs run) \<Longrightarrow> x \<in> set xs"
  by (auto simp: segment_def dest: in_set_dropD in_set_takeD)

lemma open_cgroup_leads:
  assumes "opens_keep S P" and "names_honest S" and "names \<noteq> []" and "\<forall>name \<in> set names. listed S name" and "P [] dir"
  shows "wp (open_cgroup S dir names) (\<lambda>r _. \<forall>d'. r = Inr d' \<longrightarrow> P names d') w"
proof -
  let ?gs = "map (segment names) (pieces names PATH_MAX_BYTES)"
  have g: "groups_ok PATH_MAX_BYTES names ?gs" by (rule pieces_groups)
  have "open_cgroup S dir names = open_pieces S dir (map (intercalate SLASH) ?gs)"
    using assms(3) pieces_Nil [of names PATH_MAX_BYTES] by (auto simp: open_cgroup_def piece_path_segment comp_def simp del: open_pieces.simps split: list.split)
  moreover have "wp (open_pieces S dir (map (intercalate SLASH) ?gs)) (\<lambda>r _. \<forall>d'. r = Inr d' \<longrightarrow> P ([] @ concat ?gs) d') w"
    by (rule open_pieces_leads [OF assms(1,2) _ _ assms(5)]) (use g assms(4) in \<open>auto simp: groups_ok_def dest: in_segment\<close>)
  ultimately show ?thesis using g by (simp add: groups_ok_def)
qed


text \<open>How far the nodes of the queue are from the greatest depth.\<close>

definition heights :: "nat \<Rightarrow> Tree \<Rightarrow> nat list \<Rightarrow> nat multiset" where
  "heights n tree pending = mset (map (\<lambda>i. Suc n - length (the (names_of tree i))) pending)"

lemma heights_decrease:
  assumes "queue_ok S tree (node # rest)" and "names_of tree node = Some ns" and "turn_ok S tree ns (Goes q m, tree')"
    and "q \<noteq> [] \<longrightarrow> length ns \<le> n"
  shows "(heights n tree' (rest @ q), heights n tree (node # rest)) \<in> mult less_than"
proof -
  have rest: "map (\<lambda>i. Suc n - length (the (names_of tree' i))) rest = map (\<lambda>i. Suc n - length (the (names_of tree i))) rest"
    using assms(1,3) by (auto simp: turn_ok_def grows_def queue_ok_def)
  have "\<exists>j. j \<in># {#Suc n - length ns#} \<and> (k, j) \<in> less_than" if "k \<in># mset (map (\<lambda>i. Suc n - length (the (names_of tree' i))) q)" for k
    using that assms(3,4) by (fastforce simp: turn_ok_def queues_def)
  then have "(heights n tree rest + mset (map (\<lambda>i. Suc n - length (the (names_of tree' i))) q), heights n tree rest + {#Suc n - length ns#}) \<in> mult less_than"
    by (intro one_step_implies_mult) auto
  then show ?thesis by (simp add: heights_def rest assms(2) flip: mset_map)
qed

lemma turn_in_depth:
  fixes S :: "('d, 'k) DirSys"
  assumes "bounded_depth S depth n" and "names_honest S" and "\<forall>name \<in> set ns. listed S name" and "tree_ok tree"
  shows "wp (traverse_node S dir c visit tree node ns v) (\<lambda>t _. \<forall>q m. fst (fst t) = Goes q m \<longrightarrow> q \<noteq> [] \<longrightarrow> length ns \<le> n) w"
proof -
  have "opens_keep S (\<lambda>ns d. depth d = depth dir + length ns \<and> (ns \<noteq> [] \<longrightarrow> depth d \<le> n))"
    using assms(1) unfolding opens_keep_def bounded_depth_def by fastforce
  note leads = open_cgroup_leads [OF this assms(2) _ assms(3), of dir w]
  have open_depth: "wp (open_cgroup S dir ns) (\<lambda>r _. \<forall>d'. r = Inr d' \<longrightarrow> length ns \<le> n) w"
  proof (cases "ns = []")
    case False
    with leads show ?thesis by (auto elim!: wp_mono)
  qed (simp add: wp_def split: prod.split)
  show ?thesis
    unfolding traverse_node_def wp_bind
  proof (rule wp_mono [OF open_depth])
    fix r :: "i32 + 'd" and w'
    assume r: "\<forall>d'. r = Inr d' \<longrightarrow> length ns \<le> n"
    show "wp (case r of
          Inl e \<Rightarrow> State_Monad.return ((if gone e \<and> node \<noteq> 0 then Goes [] False else if e = EXDEV then Goes [] True else Ends (Inl (failed_at node e)), tree), v)
        | Inr cgroup \<Rightarrow> visit_node S c visit tree node cgroup v) (\<lambda>t _. \<forall>q m. fst (fst t) = Goes q m \<longrightarrow> q \<noteq> [] \<longrightarrow> length ns \<le> n) w'"
      using r by (cases r) (auto simp: wp_simps, simp add: wp_def split: prod.split)
  qed
qed

lemma traverse_ends:
  assumes "bounded_depth S depth n" and "names_honest S" and "queue_ok S tree pending"
  shows "\<exists>z. traverse_loop S dir c visit tree pending mounted v w = Some z"
  using assms(3)
proof (induction "heights n tree pending" arbitrary: tree pending mounted v w rule: wf_induct_rule [OF wf_mult [OF wf_less_than]])
  case (1 tree pending mounted v w)
  show ?case
  proof (cases pending)
    case (Cons node rest)
    with 1(2) obtain ns where ns: "names_of tree node = Some ns" "\<forall>name \<in> set ns. listed S name"
      and ok: "tree_ok tree" "node < length tree" by (auto simp: queue_ok_def)
    obtain t tree' v' w' where run: "run_state (traverse_node S dir c visit tree node ns v) w = (((t, tree'), v'), w')"
      by (metis surj_pair)
    have turn: "turn_ok S tree ns (t, tree')" and depth: "\<And>q m. t = Goes q m \<Longrightarrow> q \<noteq> [] \<Longrightarrow> length ns \<le> n"
      using traverse_node_turn [OF ok ns(1), of S dir c visit ns v w] turn_in_depth [where dir = dir and c = c and visit = visit and node = node and v = v and w = w, OF assms(1,2) ns(2) ok(1)] run
      by (simp_all add: wp_def)
    show ?thesis
    proof (cases t)
      case (Goes q m)
      then have "\<exists>z. traverse_loop S dir c visit tree' (rest @ q) (mounted \<or> m) v' w' = Some z"
        using 1(1) heights_decrease turn_ok_queue turn depth 1(2) ns(1) Cons by metis
      with Goes show ?thesis by (subst traverse_loop.simps) (auto simp: Cons ns run)
    qed (subst traverse_loop.simps, simp add: Cons ns run)
  qed (subst traverse_loop.simps, simp)
qed


section \<open>What the walk finds\<close>

text \<open>A cgroup that is there may be removed at any call. \<open>there\<close> says of the system's state that it is there, \<open>after\<close> that it was removed: the one lasts until the other begins, which
lasts for good. \<open>promises\<close> is what a call answers while the cgroup is there.\<close>

definition promises :: "('k \<Rightarrow> bool) \<Rightarrow> ('k \<Rightarrow> bool) \<Rightarrow> ('k \<Rightarrow> 'a \<times> 'k) \<Rightarrow> ('a \<Rightarrow> bool) \<Rightarrow> bool" where
  "promises there after f good \<longleftrightarrow> (\<forall>k. (after k \<longrightarrow> after (snd (f k)))
     \<and> (there k \<longrightarrow> after (snd (f k)) \<or> there (snd (f k)) \<and> good (fst (f k))))"

definition once :: "('k \<Rightarrow> bool) \<Rightarrow> ('k, 'e) Machine \<Rightarrow> ('k, 'e) Machine \<Rightarrow> bool" where
  "once P w w' \<longleftrightarrow> (P (w_kernel w) \<longrightarrow> P (w_kernel w'))"

interpretation once: run_order "once P" for P
  by unfold_locales (auto simp: once_def)

definition until :: "('k \<Rightarrow> bool) \<Rightarrow> ('k \<Rightarrow> bool) \<Rightarrow> ('k, 'e, 'a) eff \<Rightarrow> ('a \<Rightarrow> bool) \<Rightarrow> bool" where
  "until there after m Q \<longleftrightarrow> (\<forall>w. there (w_kernel w) \<longrightarrow> wp m (\<lambda>a w'. after (w_kernel w') \<or> there (w_kernel w') \<and> Q a) w)"

lemma until_call_at: "promises there after f good \<Longrightarrow> until there after (call ev f) (\<lambda>a. good a \<and> (\<exists>k. a = fst (f k)))"
  by (auto simp: until_def promises_def wp_call)

lemma until_wp: "keeps (once (\<lambda>k. after k \<or> there k)) m \<Longrightarrow> (\<And>w. wp m (\<lambda>a _. Q a) w) \<Longrightarrow> until there after m Q"
  unfolding until_def keeps_def once_def by (blast intro: wp_mono [OF wp_conj])

lemma until_return: "Q a \<Longrightarrow> until there after (State_Monad.return a) Q"
  by (simp add: until_def wp_return)

lemma until_bind:
  fixes m :: "('k, 'e, 'a) eff"
  assumes "until there after m P" and "\<And>a. keeps (once after) (f a)" and "\<And>a. P a \<Longrightarrow> until there after (f a) Q"
  shows "until there after (State_Monad.bind m f) Q"
  unfolding until_def wp_bind
proof (intro allI impI)
  fix w :: "('k, 'e) Machine"
  assume "there (w_kernel w)"
  with assms(1) have "wp m (\<lambda>a w'. after (w_kernel w') \<or> there (w_kernel w') \<and> P a) w" by (simp add: until_def)
  then show "wp m (\<lambda>a. wp (f a) (\<lambda>a w'. after (w_kernel w') \<or> there (w_kernel w') \<and> Q a)) w"
  proof (rule wp_mono)
    fix a and w' :: "('k, 'e) Machine"
    assume "after (w_kernel w') \<or> there (w_kernel w') \<and> P a"
    then show "wp (f a) (\<lambda>a w'. after (w_kernel w') \<or> there (w_kernel w') \<and> Q a) w'"
    proof
      assume "after (w_kernel w')"
      then show ?thesis using keeps_wp [OF assms(2) [of a], of w'] by (auto simp: once_def elim: wp_mono)
    next
      assume "there (w_kernel w') \<and> P a"
      then show ?thesis using assms(3) [of a] by (simp add: until_def)
    qed
  qed
qed

lemma until_mono: "until there after m P \<Longrightarrow> (\<And>a. P a \<Longrightarrow> Q a) \<Longrightarrow> until there after m Q"
  unfolding until_def by (blast intro: wp_mono)

lemma until_call: "promises there after f good \<Longrightarrow> until there after (call ev f) good"
  by (drule until_call_at [of _ _ _ _ ev]) (auto elim: until_mono)

text \<open>An answer that does not say the cgroup is gone: the expected one, or another error.\<close>

definition unless_refused :: "i32 + 'a \<Rightarrow> 'a \<Rightarrow> bool" where
  "unless_refused r x \<longleftrightarrow> r = Inr x \<or> (\<exists>e. r = Inl e \<and> \<not> gone e)"

text \<open>A listing that has the name, as a directory or of an unknown type, unless an error that does not say the directory is gone comes first.\<close>

fun lists :: "bytes \<Rightarrow> (i32 + bytes \<times> FileType) list \<Rightarrow> bool" where
  "lists name [] = False"
| "lists name (Inl e # es) = (\<not> gone e)"
| "lists name (Inr (n, ft) # es) = (if n = name then ft \<noteq> Other_Type else lists name es)"

text \<open>The cgroup with the id \<open>i\<close> at the path \<open>names\<close>, whose directories on the way down are \<open>at 0\<close>, \<open>at 1\<close> and so on: while it is there, a path of names that \<^verbatim>\<open>openat2\<close> takes leads
from one to the next, each is listed in the one above it, and its id is read; any call may be refused, but not as gone.\<close>

definition stays :: "('d, 'k) DirSys \<Rightarrow> ('k \<Rightarrow> bool) \<Rightarrow> ('k \<Rightarrow> bool) \<Rightarrow> (nat \<Rightarrow> 'd) \<Rightarrow> bytes list \<Rightarrow> u64 \<Rightarrow> bool" where
  "stays S there after at names i \<longleftrightarrow>
     names \<noteq> [] \<and> (\<forall>name \<in> set names. length name \<le> PATH_MAX_BYTES \<and> name \<noteq> [DOT] \<and> name \<noteq> [DOT, DOT])
   \<and> (\<forall>d p. promises there after (d_open S d p) (\<lambda>r. (d = at 0 \<and> p = [DOT] \<longrightarrow> unless_refused r (at 0))
        \<and> (\<forall>a b. d = at a \<and> a < b \<and> b \<le> length names \<and> p = intercalate SLASH (segment names (a, b)) \<and> length p \<le> PATH_MAX_BYTES \<longrightarrow> unless_refused r (at b))))
   \<and> (\<forall>d. promises there after (d_handle S d) (\<lambda>r. (d = at (length names) \<longrightarrow> id_of_answer r = Inr i \<or> (\<exists>e. id_of_answer r = Inl e \<and> \<not> gone_io e))
        \<and> (\<forall>a e. d = at a \<and> 0 < a \<and> a < length names \<and> id_of_answer r = Inl e \<longrightarrow> \<not> gone_io e)))
   \<and> (\<forall>d. promises there after (d_list S d) (\<lambda>r. \<forall>a < length names. d = at a \<longrightarrow> unless_refused r ()))
   \<and> (\<forall>d. promises there after (d_entries S d) (\<lambda>es. \<forall>a < length names. d = at a \<longrightarrow> lists (names ! a) es))
   \<and> (\<forall>d n. promises there after (d_stat S d n) (\<lambda>r. \<forall>a < length names. d = at a \<and> n = names ! a \<longrightarrow> unless_refused r True))
   \<and> (\<forall>d. promises there after (d_alive S d) (\<lambda>_. True))"

lemma staysD:
  assumes "stays S there after at names i"
  shows "names \<noteq> []" "\<And>name. name \<in> set names \<Longrightarrow> length name \<le> PATH_MAX_BYTES \<and> name \<noteq> [DOT] \<and> name \<noteq> [DOT, DOT]"
    "\<And>d p. promises there after (d_open S d p) (\<lambda>r. (d = at 0 \<and> p = [DOT] \<longrightarrow> unless_refused r (at 0))
        \<and> (\<forall>a b. d = at a \<and> a < b \<and> b \<le> length names \<and> p = intercalate SLASH (segment names (a, b)) \<and> length p \<le> PATH_MAX_BYTES \<longrightarrow> unless_refused r (at b)))"
    "\<And>d. promises there after (d_handle S d) (\<lambda>r. (d = at (length names) \<longrightarrow> id_of_answer r = Inr i \<or> (\<exists>e. id_of_answer r = Inl e \<and> \<not> gone_io e))
        \<and> (\<forall>a e. d = at a \<and> 0 < a \<and> a < length names \<and> id_of_answer r = Inl e \<longrightarrow> \<not> gone_io e))"
    "\<And>d. promises there after (d_list S d) (\<lambda>r. \<forall>a < length names. d = at a \<longrightarrow> unless_refused r ())"
    "\<And>d. promises there after (d_entries S d) (\<lambda>es. \<forall>a < length names. d = at a \<longrightarrow> lists (names ! a) es)"
    "\<And>d n. promises there after (d_stat S d n) (\<lambda>r. \<forall>a < length names. d = at a \<and> n = names ! a \<longrightarrow> unless_refused r True)"
    "\<And>d. promises there after (d_alive S d) (\<lambda>_. True)"
  using assms unfolding stays_def by (simp_all only: simp_thms)

lemma promises_once: "promises there after f good \<Longrightarrow> keeps (once after) (call ev f)"
  "promises there after f good \<Longrightarrow> keeps (once (\<lambda>k. after k \<or> there k)) (call ev f)"
  by (auto simp: keeps_def wp_call once_def promises_def)

lemma stays_order:
  assumes "stays S there after at names i"
  shows "dir_order (once after) S" "dir_order (once (\<lambda>k. after k \<or> there k)) S"
  by (unfold_locales; unfold calls_keep_def; blast intro: promises_once staysD(3-8) [OF assms])+


lemma length_segment: "b \<le> length xs \<Longrightarrow> length (segment xs (a, b)) = b - a"
  by (simp add: segment_def)

lemma until_open_pieces:
  assumes "stays S there after at names i"
    and "concat gs = segment names (a, b)" and "b \<le> length names" and "a \<le> b"
    and "\<forall>g \<in> set gs. g \<noteq> [] \<and> length (intercalate SLASH g) \<le> PATH_MAX_BYTES"
  shows "until there after (open_pieces S (at a) (map (intercalate SLASH) gs)) (\<lambda>r. unless_refused r (at b))"
  using assms(2-5)
proof (induction gs arbitrary: a)
  case Nil
  then have "a = b" by (auto simp: segment_def)
  then show ?case by (simp add: until_return unless_refused_def)
next
  case (Cons g gs a)
  let ?c = "a + length g"
  have all: "g @ concat gs = segment names (a, b)" using Cons.prems(1) by simp
  have len: "length g + length (concat gs) = b - a"
    using arg_cong [OF all, of length] length_segment [OF Cons.prems(2), of a] by simp
  then have c: "a < ?c" "?c \<le> b" using Cons.prems(3,4) by (cases g; simp)+
  have g: "g = segment names (a, ?c)" and gs: "concat gs = segment names (?c, b)"
    using all c(2) by (simp_all add: segment_def append_eq_conv_conj drop_take add.commute)
  show ?case
    unfolding list.map open_pieces.simps open_beneath_def
  proof (rule until_bind [OF until_call [OF staysD(3) [OF assms(1)]]])
    show "keeps (once after) (case r of Inl e \<Rightarrow> State_Monad.return (Inl e) | Inr d \<Rightarrow> open_pieces S d (map (intercalate SLASH) gs))" for r
      by (cases r) (simp_all add: once.keeps_return dir_order.keeps_open_pieces [OF stays_order(1) [OF assms(1)]])
  next
    fix r
    assume "(at a = at 0 \<and> intercalate SLASH g = [DOT] \<longrightarrow> unless_refused r (at 0))
        \<and> (\<forall>a' b. at a = at a' \<and> a' < b \<and> b \<le> length names \<and> intercalate SLASH g = intercalate SLASH (segment names (a', b))
             \<and> length (intercalate SLASH g) \<le> PATH_MAX_BYTES \<longrightarrow> unless_refused r (at b))"
    from this [THEN conjunct2, rule_format, of a ?c] have r: "unless_refused r (at ?c)"
      using c g [symmetric] Cons.prems(2,4) by simp
    have "until there after (open_pieces S (at ?c) (map (intercalate SLASH) gs)) (\<lambda>r. unless_refused r (at b))"
      by (rule Cons.IH [OF gs Cons.prems(2) c(2)]) (use Cons.prems(4) in simp)
    with r show "until there after (case r of Inl e \<Rightarrow> State_Monad.return (Inl e) | Inr d \<Rightarrow> open_pieces S d (map (intercalate SLASH) gs)) (\<lambda>r. unless_refused r (at b))"
      by (cases r) (auto simp: unless_refused_def intro: until_return)
  qed
qed

lemma until_open_cgroup:
  assumes "stays S there after at names i" and "j \<le> length names"
  shows "until there after (open_cgroup S (at 0) (take j names)) (\<lambda>r. unless_refused r (at j))"
proof (cases "j = 0")
  case True
  then show ?thesis
    using until_call [OF staysD(3) [OF assms(1), of "at 0" "[DOT]"], of "Opened (at 0) [DOT]"] pieces_Nil [of "take j names" PATH_MAX_BYTES]
    by (auto simp: open_cgroup_def open_beneath_def elim: until_mono)
next
  case False
  let ?ns = "take j names" and ?gs = "map (segment (take j names)) (pieces (take j names) PATH_MAX_BYTES)"
  have g: "groups_ok PATH_MAX_BYTES ?ns ?gs" by (rule pieces_groups)
  have ne: "?ns \<noteq> []" using False staysD(1) [OF assms(1)] by simp
  then have "open_cgroup S (at 0) ?ns = open_pieces S (at 0) (map (intercalate SLASH) ?gs)"
    using pieces_Nil [of ?ns PATH_MAX_BYTES] by (auto simp: open_cgroup_def piece_path_segment comp_def simp del: open_pieces.simps split: list.split)
  moreover have "until there after (open_pieces S (at 0) (map (intercalate SLASH) ?gs)) (\<lambda>r. unless_refused r (at j))"
  proof (rule until_open_pieces [OF assms(1) _ assms(2)])
    show "concat ?gs = segment names (0, j)" using g by (simp add: groups_ok_def segment_def)
    show "\<forall>g \<in> set ?gs. g \<noteq> [] \<and> length (intercalate SLASH g) \<le> PATH_MAX_BYTES"
    proof
      fix g'
      assume g': "g' \<in> set ?gs"
      with g have "g' \<noteq> []" "length (intercalate SLASH g') \<le> PATH_MAX_BYTES \<or> length g' = 1" by (auto simp: groups_ok_def)
      moreover have "length x \<le> PATH_MAX_BYTES" if "g' = [x]" for x
      proof -
        have "[x] \<in> segment ?ns ` set (pieces ?ns PATH_MAX_BYTES)" using g' that by simp
        then obtain run where "[x] = segment ?ns run" by blast
        then have "x \<in> set ?ns" using in_segment [of x ?ns run] by (metis list.set_intros(1))
        then show ?thesis using staysD(2) [OF assms(1), of x] by (auto dest: in_set_takeD)
      qed
      ultimately show "g' \<noteq> [] \<and> length (intercalate SLASH g') \<le> PATH_MAX_BYTES" by (auto simp: length_Suc_conv)
    qed
  qed simp
  ultimately show ?thesis by simp
qed

lemma until_is_dir:
  assumes "stays S there after at names i" and "a < length names" and "ft \<noteq> Other_Type"
  shows "until there after (is_dir S (at a) ft (names ! a)) (\<lambda>r. r \<noteq> Inr False)"
proof (cases ft)
  case Unknown_Type
  show ?thesis unfolding is_dir_def Unknown_Type FileType.case
  proof (rule until_bind [OF until_call [OF staysD(7) [OF assms(1)]]], rule once.keeps_return)
    fix r :: "i32 + bool"
    assume "\<forall>a' < length names. at a = at a' \<and> names ! a = names ! a' \<longrightarrow> unless_refused r True"
    with assms(2) have "unless_refused r True" by blast
    then show "until there after (State_Monad.return (case r of Inl e \<Rightarrow> if gone e then Inr False else Inl (OsError e) | Inr b \<Rightarrow> Inr b)) (\<lambda>r. r \<noteq> Inr False)"
      by (auto simp: unless_refused_def intro!: until_return)
  qed
qed (use assms(3) in \<open>simp_all add: is_dir_def until_return\<close>)


lemma until_push_entries:
  assumes st: "stays S there after at names i" and a: "a < length names"
    and "tree_ok tree" and "node < length tree" and "names_of tree node = Some (take a names)" and "queues S tree (take a names) queued"
    and "lists (names ! a) es" and "\<And>name ft. Inr (name, ft) \<in> set es \<Longrightarrow> name \<noteq> [DOT] \<Longrightarrow> name \<noteq> [DOT, DOT] \<Longrightarrow> listed S name"
  shows "until there after (push_entries S (at a) node es tree queued)
    (\<lambda>(r, tree'). \<forall>q. r = Inr q \<longrightarrow> (\<exists>n \<in> set q. n \<noteq> 0 \<and> names_of tree' n = Some (take (Suc a) names)))"
  (is "until _ _ _ ?Q")
  using assms(3-)
proof (induction es arbitrary: tree queued)
  case (Cons entry es)
  note keep = dir_order.keeps_push_entries [OF stays_order(1) [OF st]]
  show ?case
  proof (cases entry)
    case (Inl e)
    with Cons.prems(5) show ?thesis by (auto intro!: until_return)
  next
    case (Inr x)
    obtain name ft where x [simp]: "x = (name, ft)" by (cases x)
    let ?t = "fst (push_node tree node name)" and ?n = "snd (push_node tree node name)"
    note g = grows_push [OF Cons.prems(1,2), of name]
    have stay: "until there after (push_entries S (at a) node es tree queued) ?Q" if "name \<noteq> names ! a"
      by (rule Cons.IH) (use Cons.prems Inr that in auto)
    show ?thesis
    proof (cases "name = [DOT] \<or> name = [DOT, DOT]")
      case True
      with stay staysD(2) [OF st, of "names ! a"] a Inr show ?thesis by auto
    next
      case False
      have l: "listed S name" using Cons.prems(6) [of name ft] Inr False by simp
      note q = queues_snoc [OF Cons.prems(1-3) l Cons.prems(4)]
      have t: "tree_ok ?t" "node < length ?t" "names_of ?t node = Some (take a names)" using g Cons.prems(2,3) by (auto simp: grows_def)
      have e: "\<And>name ft. Inr (name, ft) \<in> set es \<Longrightarrow> name \<noteq> [DOT] \<Longrightarrow> name \<noteq> [DOT, DOT] \<Longrightarrow> listed S name" using Cons.prems(6) by auto
      have go: "until there after (push_entries S (at a) node es ?t (queued @ [?n])) ?Q"
      proof (cases "name = names ! a")
        case True
        have n: "names_of ?t ?n = Some (take (Suc a) names)" "?n \<noteq> 0" "?n < length ?t"
          using names_of_pushed [OF Cons.prems(1-3), of name] True a Cons.prems(1) by (auto simp: take_Suc_conv_app_nth push_node_def tree_ok_def)
        show ?thesis
        proof (rule until_wp)
          fix w
          show "wp (push_entries S (at a) node es ?t (queued @ [?n])) (\<lambda>p _. ?Q p) w"
            by (rule wp_mono [OF push_entries_grows [OF t q e]]) (use n in \<open>auto simp: pushed_def grows_def\<close>)
        qed (rule dir_order.keeps_push_entries [OF stays_order(2) [OF st]])
      next
        case False
        show ?thesis by (rule Cons.IH [OF t q]) (use Cons.prems(5) Inr False e in auto)
      qed
      have dir: "until there after (is_dir S (at a) ft name) (\<lambda>r. name = names ! a \<longrightarrow> r \<noteq> Inr False)"
      proof (cases "name = names ! a")
        case True
        with until_is_dir [OF st a, of ft] Cons.prems(5) Inr show ?thesis by (auto elim!: until_mono)
      next
        case False
        then show ?thesis by (intro until_wp) (auto simp: wp_def dir_order.keeps_is_dir [OF stays_order(2) [OF st]] split: prod.split)
      qed
      show ?thesis
        unfolding Inr push_entries.simps x sum.case prod.case if_not_P [OF False]
      proof (rule until_bind [OF dir])
        fix r
        show "keeps (once after) (case r of Inl e \<Rightarrow> State_Monad.return (Inl (Failed e), tree)
          | Inr True \<Rightarrow> push_entries S (at a) node es ?t (queued @ [?n]) | Inr False \<Rightarrow> push_entries S (at a) node es tree queued)"
          by (auto simp: keep once.keeps_return split: sum.split bool.split)
        assume "name = names ! a \<longrightarrow> r \<noteq> Inr False"
        with go stay show "until there after (case r of Inl e \<Rightarrow> State_Monad.return (Inl (Failed e), tree)
          | Inr True \<Rightarrow> push_entries S (at a) node es ?t (queued @ [?n]) | Inr False \<Rightarrow> push_entries S (at a) node es tree queued) ?Q"
          by (auto intro!: until_return split: sum.split bool.split)
      qed
    qed
  qed
qed simp

definition found_next :: "nat \<Rightarrow> bytes list \<Rightarrow> Turn \<times> Tree \<Rightarrow> bool" where
  "found_next j names t \<longleftrightarrow> (case fst t of
      Ends r \<Rightarrow> r \<noteq> Inr (Listed False)
    | Goes q m \<Rightarrow> m \<or> (j < length names \<and> (\<exists>n \<in> set q. n \<noteq> 0 \<and> names_of (snd t) n = Some (take (Suc j) names))))"

lemma until_list_node:
  assumes st: "stays S there after at names i" and a: "a < length names"
    and ok: "tree_ok tree" "node < length tree" "names_of tree node = Some (take a names)"
  shows "until there after (list_node S c tree node (at a)) (found_next a names)"
  unfolding list_node_def
proof (rule until_bind [OF until_call [OF staysD(5) [OF st]]])
  note ord = stays_order(1) [OF st]
  let ?rest = "\<lambda>p. case p of (r, tree') \<Rightarrow> case r of
            Inl f \<Rightarrow> State_Monad.return (Ends (Inl f), tree')
          | Inr queued \<Rightarrow>
              if node = 0 \<and> c then call (Alive_Read (at a)) (d_alive S (at a)) \<bind> (\<lambda>r. State_Monad.return (case r of
                  Inl e \<Rightarrow> (Ends (Inl (failed_at node e)), tree')
                | Inr _ \<Rightarrow> (Goes queued False, tree')))
              else State_Monad.return (Goes queued False, tree')"
  let ?list = "call (Entries_Read (at a)) (d_entries S (at a)) \<bind> (\<lambda>entries. push_entries S (at a) node entries tree [] \<bind> ?rest)"
  have rest: "keeps (once after) (?rest p)" for p
    by (auto intro!: once.keeps_rules promises_once(1) [OF staysD(8) [OF st]] split: prod.split sum.split)
  have list: "keeps (once after) ?list"
    by (intro once.keeps_bind promises_once(1) [OF staysD(6) [OF st]] dir_order.keeps_push_entries [OF ord] rest)
  show "keeps (once after) (case r of
      Inl e \<Rightarrow> State_Monad.return (if gone e \<and> node \<noteq> 0 then Goes [] False else Ends (Inl (failed_at node e)), tree)
    | Inr _ \<Rightarrow> ?list)" for r :: "i32 + unit"
    by (cases r) (simp_all only: sum.case list once.keeps_return)
  fix r :: "i32 + unit"
  assume "\<forall>a' < length names. at a = at a' \<longrightarrow> unless_refused r ()"
  with a have r: "unless_refused r ()" by blast
  have "until there after ?list (found_next a names)"
  proof (rule until_bind [OF until_call_at [OF staysD(6) [OF st]]])
    show "keeps (once after) (push_entries S (at a) node es tree [] \<bind> ?rest)" for es
      by (intro once.keeps_bind dir_order.keeps_push_entries [OF ord] rest)
    fix es
    assume es: "(\<forall>a' < length names. at a = at a' \<longrightarrow> lists (names ! a') es) \<and> (\<exists>k. es = fst (d_entries S (at a) k))"
    show "until there after (push_entries S (at a) node es tree [] \<bind> ?rest) (found_next a names)"
    proof (rule until_bind [OF until_push_entries [OF st a ok]])
      show "keeps (once after) (?rest p)" for p by (rule rest)
      show "until there after (?rest p) (found_next a names)"
        if "case p of (r, tree') \<Rightarrow> \<forall>q. r = Inr q \<longrightarrow> (\<exists>n \<in> set q. n \<noteq> 0 \<and> names_of tree' n = Some (take (Suc a) names))" for p
        using that a by (auto intro!: until_return until_bind [OF until_call [OF staysD(8) [OF st]]] once.keeps_return simp: found_next_def split: sum.split)
    qed (use es a in \<open>auto simp: queues_def listed_def\<close>)
  qed
  with r show "until there after (case r of
      Inl e \<Rightarrow> State_Monad.return (if gone e \<and> node \<noteq> 0 then Goes [] False else Ends (Inl (failed_at node e)), tree)
    | Inr _ \<Rightarrow> ?list) (found_next a names)"
    by (auto simp: unless_refused_def found_next_def intro!: until_return)
qed


lemma keeps_look_for: "dir_order R S \<Longrightarrow> keeps R (look_for S i v node d)"
  unfolding look_for_def by (intro run_order.keeps_bind run_order.keeps_return dir_order.keeps_cgroup_id) (simp_all add: dir_order_def)

lemma until_look_for:
  assumes st: "stays S there after at names i" and j: "0 < j" "j \<le> length names"
  shows "until there after (look_for S i v node (at j)) (\<lambda>(r, v'). r \<noteq> Inr Visit_Skip \<and> (j = length names \<longrightarrow> r \<noteq> Inr Visit_Continue))"
  unfolding look_for_def
proof (rule until_bind [where P = "\<lambda>r. (\<forall>e. r = Inl e \<longrightarrow> \<not> gone_io e) \<and> (j = length names \<longrightarrow> (\<forall>x. r = Inr x \<longrightarrow> x = i))"])
  show "until there after (cgroup_id S (at j)) (\<lambda>r. (\<forall>e. r = Inl e \<longrightarrow> \<not> gone_io e) \<and> (j = length names \<longrightarrow> (\<forall>x. r = Inr x \<longrightarrow> x = i)))"
    unfolding cgroup_id_def
    by (rule until_bind [OF until_call [OF staysD(4) [OF st]]])
      (use j in \<open>auto intro!: until_return once.keeps_return simp: le_less\<close>)
qed (auto intro!: until_return once.keeps_return split: sum.split)

lemma found_next_Ends [simp]: "found_next j names (Ends r, tree) \<longleftrightarrow> r \<noteq> Inr (Listed False)"
  by (simp add: found_next_def)

lemma until_turn:
  assumes st: "stays S there after at names i" and j: "j \<le> length names" and nz: "node = 0 \<longleftrightarrow> j = 0"
    and ok: "tree_ok tree" "node < length tree" "names_of tree node = Some (take j names)"
  shows "until there after (traverse_node S (at 0) c (look_for S i) tree node (take j names) v) (\<lambda>t. found_next j names (fst t))"
  unfolding traverse_node_def
proof (rule until_bind [OF until_open_cgroup [OF st j]])
  note ord = stays_order(1) [OF st]
  have list: "until there after (list_node S c tree node (at j) \<bind> (\<lambda>t. State_Monad.return (t, v'))) (\<lambda>t. found_next j names (fst t))"
    if "j < length names" for v' :: unit
    by (rule until_bind [OF until_list_node [OF st that ok]]) (auto intro: until_return once.keeps_return)
  have visit: "until there after (visit_node S c (look_for S i) tree node (at j) v) (\<lambda>t. found_next j names (fst t))"
  proof (cases "node = 0")
    case True
    with list [of v] nz staysD(1) [OF st] show ?thesis by (simp add: visit_node_def)
  next
    case False
    show ?thesis unfolding visit_node_def if_not_P [OF False]
    proof (rule until_bind [OF until_look_for [OF st]])
      fix p :: "(IoError + Visit) \<times> unit"
      show "keeps (once after) (case p of (r, v') \<Rightarrow> case r of
          Inl e \<Rightarrow> State_Monad.return ((Ends (Inl (Failed e)), tree), v')
        | Inr Visit_Continue \<Rightarrow> list_node S c tree node (at j) \<bind> (\<lambda>t. State_Monad.return (t, v'))
        | Inr Visit_Skip \<Rightarrow> State_Monad.return ((Goes [] False, tree), v')
        | Inr Visit_Stop \<Rightarrow> State_Monad.return ((Ends (Inr Stopped), tree), v'))"
        by (auto intro!: once.keeps_return once.keeps_bind dir_order.keeps_list_node [OF ord] split: prod.split sum.split Visit.split)
      assume "case p of (r, v') \<Rightarrow> r \<noteq> Inr Visit_Skip \<and> (j = length names \<longrightarrow> r \<noteq> Inr Visit_Continue)"
      then show "until there after (case p of (r, v') \<Rightarrow> case r of
          Inl e \<Rightarrow> State_Monad.return ((Ends (Inl (Failed e)), tree), v')
        | Inr Visit_Continue \<Rightarrow> list_node S c tree node (at j) \<bind> (\<lambda>t. State_Monad.return (t, v'))
        | Inr Visit_Skip \<Rightarrow> State_Monad.return ((Goes [] False, tree), v')
        | Inr Visit_Stop \<Rightarrow> State_Monad.return ((Ends (Inr Stopped), tree), v')) (\<lambda>t. found_next j names (fst t))"
        using list j by (auto intro!: until_return simp: le_less split: sum.split Visit.split)
    qed (use False nz j in auto)
  qed
  fix r
  show "keeps (once after) (case r of
        Inl e \<Rightarrow> State_Monad.return ((if gone e \<and> node \<noteq> 0 then Goes [] False else if e = EXDEV then Goes [] True else Ends (Inl (failed_at node e)), tree), v)
      | Inr cgroup \<Rightarrow> visit_node S c (look_for S i) tree node cgroup v)"
    by (cases r) (simp_all add: once.keeps_return dir_order.keeps_visit_node [OF ord] keeps_look_for [OF ord])
  assume "unless_refused r (at j)"
  with visit show "until there after (case r of
        Inl e \<Rightarrow> State_Monad.return ((if gone e \<and> node \<noteq> 0 then Goes [] False else if e = EXDEV then Goes [] True else Ends (Inl (failed_at node e)), tree), v)
      | Inr cgroup \<Rightarrow> visit_node S c (look_for S i) tree node cgroup v) (\<lambda>t. found_next j names (fst t))"
    by (auto simp: unless_refused_def found_next_def intro!: until_return)
qed

text \<open>The cgroup is gone, a mount was met, or a node of the queue is on the way to it.\<close>

definition on_the_way :: "('d, 'k) DirSys \<Rightarrow> ('k \<Rightarrow> bool) \<Rightarrow> ('k \<Rightarrow> bool) \<Rightarrow> bytes list \<Rightarrow> Tree \<Rightarrow> nat list \<Rightarrow> bool \<Rightarrow> ('k, 'e) Machine \<Rightarrow> bool" where
  "on_the_way S there after names tree pending mounted w \<longleftrightarrow> queue_ok S tree pending \<and> (after (w_kernel w) \<or> there (w_kernel w)
     \<and> (mounted \<or> (\<exists>n \<in> set pending. \<exists>j \<le> length names. (n = 0 \<longleftrightarrow> j = 0) \<and> names_of tree n = Some (take j names))))"

lemma turn_on_the_way:
  fixes S :: "('d, 'k) DirSys"
  assumes st: "stays S there after at names i" and way: "on_the_way S there after names tree (node # rest) mounted w" and ns: "names_of tree node = Some ns"
  shows "wp (traverse_node S (at 0) c (look_for S i) tree node ns v) (\<lambda>((turn, tree'), v') w'. case turn of
      Ends r \<Rightarrow> r \<noteq> Inr (Listed False)
    | Goes queued m \<Rightarrow> on_the_way S there after names tree' (rest @ queued) (mounted \<or> m) w') w"
proof -
  have q: "queue_ok S tree (node # rest)" and ok: "tree_ok tree" "node < length tree" using way by (auto simp: on_the_way_def queue_ok_def)
  have turn: "wp (traverse_node S (at 0) c (look_for S i) tree node ns v) (\<lambda>t _. turn_ok S tree ns (fst t)) w"
    by (rule traverse_node_turn [OF ok ns])
  have keep: "keeps R (traverse_node S (at 0) c (look_for S i) tree node ns v)" if "dir_order R S" for R
    by (rule dir_order.keeps_traverse_node [OF that keeps_look_for [OF that]])
  have dead: "wp (traverse_node S (at 0) c (look_for S i) tree node ns v) (\<lambda>_ w'. after (w_kernel w) \<longrightarrow> after (w_kernel w')) w"
    and live: "wp (traverse_node S (at 0) c (look_for S i) tree node ns v) (\<lambda>_ w'. after (w_kernel w) \<or> there (w_kernel w) \<longrightarrow> after (w_kernel w') \<or> there (w_kernel w')) w"
    using keeps_wp [OF keep [OF stays_order(1) [OF st]], of w] keeps_wp [OF keep [OF stays_order(2) [OF st]], of w] by (simp_all only: once_def [abs_def])
  have next_one: "wp (traverse_node S (at 0) c (look_for S i) tree node ns v) (\<lambda>t w'. there (w_kernel w) \<longrightarrow>
      (\<forall>j \<le> length names. (node = 0 \<longleftrightarrow> j = 0) \<and> ns = take j names \<longrightarrow> after (w_kernel w') \<or> found_next j names (fst t))) w"
    using until_turn [OF st _ _ ok] ns by (fastforce simp: until_def wp_runs)
  show ?thesis
  proof (rule wp_mono [OF wp_conj [OF turn wp_conj [OF wp_conj [OF dead live] next_one]]], goal_cases)
    case (1 t w')
    note h = 1
    obtain turn tree' v' where t: "t = ((turn, tree'), v')" by (metis surj_pair)
    have rest: "names_of tree' n = names_of tree n" if "n \<in> set rest" for n
      using h q that unfolding t by (auto simp: turn_ok_def grows_def queue_ok_def)
    have "queue_ok S tree' (rest @ q')" if "turn = Goes q' m" for q' m
      by (rule turn_ok_queue [OF q ns, of q' m]) (use h that t in simp)
    moreover have "\<exists>n \<in> set (rest @ q'). \<exists>j \<le> length names. (n = 0 \<longleftrightarrow> j = 0) \<and> names_of tree' n = Some (take j names)"
      if go: "turn = Goes q' m" "\<not> after (w_kernel w')" "\<not> mounted" "\<not> m" for q' m
    proof -
      from way h go obtain n j where w: "there (w_kernel w)" and n: "n = node \<or> n \<in> set rest" "j \<le> length names" "n = 0 \<longleftrightarrow> j = 0" "names_of tree n = Some (take j names)"
        by (auto simp: on_the_way_def)
      show ?thesis
      proof (cases "n \<in> set rest")
        case True
        have "names_of tree' n = Some (take j names)" using rest [OF True] n(4) by simp
        with True n(2,3) show ?thesis by (intro bexI [of _ n] exI [of _ j]) simp_all
      next
        case False
        with n ns h w go have "found_next j names (fst t)" by auto
        then obtain n' where "n' \<in> set q'" "n' \<noteq> 0" "names_of tree' n' = Some (take (Suc j) names)" "j < length names"
          using go unfolding t found_next_def by auto
        then show ?thesis by (intro bexI [of _ n'] exI [of _ "Suc j"]) simp_all
      qed
    qed
    ultimately show ?case
      using h way unfolding t by (cases turn) (auto simp: on_the_way_def turn_ok_def)
  qed
qed

lemma find_descendant_Some:
  assumes "find_descendant S dir i w = Some (r, w')"
  obtains res tree v where "traverse_loop S dir True (look_for S i) new_tree [0] False () w = Some (res, tree, v, w')"
    "r = (case res of Inl f \<Rightarrow> Walk_Unknown (into_error f) | Inr Stopped \<Rightarrow> Found | Inr (Listed m) \<Rightarrow> if m then Walk_Unknown (OsError EXDEV) else Absent)"
proof -
  from assms obtain z where z: "traverse_loop S dir True (look_for S i) new_tree [0] False () w = Some z"
    by (auto simp: find_descendant_def walk_def traverse_def)
  obtain res tree v w1 where "z = (res, tree, v, w1)" by (metis surj_pair)
  with z assms that [of res tree v] show ?thesis
    by (cases res; cases "projr res") (auto simp: find_descendant_def walk_def traverse_def split: if_splits)
qed

lemma walk_finds:
  assumes st: "stays S there after at names i" and "there (w_kernel w) \<or> after (w_kernel w)" and "find_descendant S (at 0) i w = Some (Absent, w')"
  shows "after (w_kernel w')"
proof -
  from assms(3) obtain tree v where run: "traverse_loop S (at 0) True (look_for S i) new_tree [0] False () w = Some (Inr (Listed False), tree, v, w')"
    by (rule find_descendant_Some) (auto split: sum.splits Traversed.splits if_splits)
  have "on_the_way S there after names new_tree [0] False w"
    using assms(2) new_queue_ok by (auto simp: on_the_way_def)
  from traverse_inv [OF run, of "\<lambda>tree pending mounted v w. on_the_way S there after names tree pending mounted w"
      "\<lambda>r tree v w. r \<noteq> Inr (Listed False) \<or> after (w_kernel w)", OF this]
  show ?thesis
  proof -
    assume rule: "(\<And>tree node rest mounted v w ns. on_the_way S there after names tree (node # rest) mounted w \<Longrightarrow> names_of tree node = Some ns \<Longrightarrow>
        wp (traverse_node S (at 0) True (look_for S i) tree node ns v) (\<lambda>((turn, tree'), v') w'. case turn of
            Ends r \<Rightarrow> r \<noteq> Inr (Listed False) \<or> after (w_kernel w')
          | Goes queued m \<Rightarrow> on_the_way S there after names tree' (rest @ queued) (mounted \<or> m) w') w) \<Longrightarrow>
      (\<And>tree mounted v w. on_the_way S there after names tree [] mounted w \<Longrightarrow> Inr (Listed mounted) \<noteq> Inr (Listed False) \<or> after (w_kernel w)) \<Longrightarrow>
      Inr (Listed False) \<noteq> (Inr (Listed False) :: Failure + Traversed) \<or> after (w_kernel w')"
    have "Inr (Listed False) \<noteq> (Inr (Listed False) :: Failure + Traversed) \<or> after (w_kernel w')"
    proof (rule rule)
      show "wp (traverse_node S (at 0) True (look_for S i) tree node ns v) (\<lambda>((turn, tree'), v') w'. case turn of
            Ends r \<Rightarrow> r \<noteq> Inr (Listed False) \<or> after (w_kernel w')
          | Goes queued m \<Rightarrow> on_the_way S there after names tree' (rest @ queued) (mounted \<or> m) w') w"
        if "on_the_way S there after names tree (node # rest) mounted w" "names_of tree node = Some ns" for tree node rest mounted v w ns
        by (rule wp_mono [OF turn_on_the_way [OF st that]]) (auto split: Turn.splits)
    qed (auto simp: on_the_way_def)
    then show ?thesis by simp
  qed
qed


section \<open>What a turn visits\<close>

lemma names_of_nonempty: "tree_ok tree \<Longrightarrow> 0 < i \<Longrightarrow> i < length tree \<Longrightarrow> names_of tree i = Some ns \<Longrightarrow> ns \<noteq> []"
proof -
  assume a: "tree_ok tree" "0 < i" "i < length tree" "names_of tree i = Some ns"
  then have "n_parent (tree ! i) < length tree" unfolding tree_ok_def by (meson less_trans)
  then obtain p where "names_of tree (n_parent (tree ! i)) = Some p" using names_of_Some a(1) by blast
  from names_of_parent [OF a(1-3) this] a(4) show ?thesis by simp
qed

lemma list_node_goes: "wp (list_node S c tree node d) (\<lambda>t _. \<forall>x. fst t \<noteq> Ends (Inr x)) w"
  unfolding list_node_def
proof (rule wp_then)
  fix r :: "i32 + unit" and w
  show "wp (case r of
      Inl e \<Rightarrow> State_Monad.return (if gone e \<and> node \<noteq> 0 then Goes [] False else Ends (Inl (failed_at node e)), tree)
    | Inr _ \<Rightarrow> call (Entries_Read d) (d_entries S d) \<bind> (\<lambda>entries. push_entries S d node entries tree [] \<bind> (\<lambda>(r, tree'). case r of
            Inl f \<Rightarrow> State_Monad.return (Ends (Inl f), tree')
          | Inr queued \<Rightarrow>
              if node = 0 \<and> c then call (Alive_Read d) (d_alive S d) \<bind> (\<lambda>r. State_Monad.return (case r of
                  Inl e \<Rightarrow> (Ends (Inl (failed_at node e)), tree')
                | Inr _ \<Rightarrow> (Goes queued False, tree')))
              else State_Monad.return (Goes queued False, tree')))) (\<lambda>t _. \<forall>x. fst t \<noteq> Ends (Inr x)) w"
    by (cases r) (auto simp: wp_return wp_call intro!: wp_then split: sum.split)
qed

text \<open>\<open>V\<close> is what the visitor does with a node and its directory, \<open>P\<close> what holds of the directory that names lead to.\<close>

lemma turn_visits:
  assumes keep: "opens_keep S P" "names_honest S" and ns: "\<forall>name \<in> set ns. listed S name" "node \<noteq> 0 \<longrightarrow> ns \<noteq> []" and dir: "P [] dir"
    and visit: "\<And>d w. wp (visit v node d) (\<lambda>(r, v') _. V d r v') w"
  shows "wp (traverse_node S dir c visit tree node ns v) (\<lambda>t _. (snd t = v \<or> node \<noteq> 0 \<and> (\<exists>d r. P ns d \<and> V d r (snd t)))
    \<and> (\<forall>x. fst (fst t) = Ends (Inr x) \<longrightarrow> node \<noteq> 0 \<and> (\<exists>d. P ns d \<and> V d (Inr Visit_Stop) (snd t)))) w" (is "wp _ (\<lambda>t _. ?Q t) _")
proof -
  have listing: "wp (list_node S c tree node d \<bind> (\<lambda>t. State_Monad.return (t, v'))) (\<lambda>t _. ?Q t) w"
    if "v' = v \<or> node \<noteq> 0 \<and> (\<exists>d r. P ns d \<and> V d r v')" for d v' w
    unfolding wp_bind by (rule wp_mono [OF list_node_goes]) (use that in \<open>auto simp: wp_return\<close>)
  have visiting: "wp (visit_node S c visit tree node d v) (\<lambda>t _. ?Q t) w" if d: "node \<noteq> 0 \<longrightarrow> P ns d" for d w
  proof (cases "node = 0")
    case True
    with listing [of v d w] show ?thesis by (simp add: visit_node_def)
  next
    case False
    show ?thesis unfolding visit_node_def if_not_P [OF False] wp_bind [of "visit v node d"]
    proof (rule wp_mono [OF visit], goal_cases)
      case (1 p w')
      obtain r v' where p: "p = (r, v')" by (cases p)
      show ?case
      proof (cases r)
        case (Inr x)
        then show ?thesis using 1 False d listing [of v' d w'] unfolding p by (cases x) (auto simp: wp_return)
      qed (use 1 False d in \<open>auto simp: p wp_return\<close>)
    qed
  qed
  have lead: "wp (open_cgroup S dir ns) (\<lambda>r _. \<forall>d. r = Inr d \<longrightarrow> node \<noteq> 0 \<longrightarrow> P ns d) w"
  proof (cases "node = 0")
    case False
    with open_cgroup_leads [OF keep _ ns(1) dir, of w] ns(2) show ?thesis by (auto elim: wp_mono)
  qed (simp add: wp_def split: prod.split)
  show ?thesis
    unfolding traverse_node_def wp_bind
  proof (rule wp_mono [OF lead], goal_cases)
    case (1 r w')
    then show ?case using visiting by (cases r) (auto simp: wp_return)
  qed
qed

text \<open>The directories under \<open>dir\<close>, for any set of them that opening a plain path stays in; \<^verbatim>\<open>.\<close> is the directory itself.\<close>

definition beneath :: "('d, 'k) DirSys \<Rightarrow> 'd \<Rightarrow> ('d \<Rightarrow> bool) \<Rightarrow> bool" where
  "beneath S dir inside \<longleftrightarrow> (\<forall>k d'. fst (d_open S dir [DOT] k) = Inr d' \<longrightarrow> d' = dir)
     \<and> (\<forall>d p k d'. d = dir \<or> inside d \<longrightarrow> plain_path p \<longrightarrow> fst (d_open S d p k) = Inr d' \<longrightarrow> inside d')"

definition has_id :: "('d, 'k) DirSys \<Rightarrow> 'd \<Rightarrow> u64 \<Rightarrow> bool" where
  "has_id S d i \<longleftrightarrow> (\<exists>k. id_of_answer (fst (d_handle S d k)) = Inr i)"

lemma beneath_keep: "beneath S dir inside \<Longrightarrow> opens_keep S (\<lambda>ns d. if ns = [] then d = dir else inside d)"
  unfolding beneath_def opens_keep_def by (metis append_is_Nil_conv split_on_not_Nil)

lemma look_for_visits: "wp (look_for S i v node d) (\<lambda>(r, v') _. r = Inr Visit_Stop \<longrightarrow> has_id S d i) w"
  by (auto simp: look_for_def cgroup_id_def has_id_def wp_bind wp_call wp_return split: sum.splits if_splits)

lemma walk_found:
  assumes b: "beneath S dir inside" "names_honest S" and "find_descendant S dir i w = Some (Found, w')"
  shows "\<exists>d. inside d \<and> has_id S d i"
proof -
  from assms(3) obtain tree v where run: "traverse_loop S dir True (look_for S i) new_tree [0] False () w = Some (Inr Stopped, tree, v, w')"
    by (rule find_descendant_Some) (auto split: sum.splits Traversed.splits if_splits)
  have "Inr Stopped = (Inr Stopped :: Failure + Traversed) \<longrightarrow> (\<exists>d. inside d \<and> has_id S d i)"
  proof (rule traverse_inv [OF run, where P = "\<lambda>tree pending mounted v w. queue_ok S tree pending"
        and Q = "\<lambda>r tree v w. r = Inr Stopped \<longrightarrow> (\<exists>d. inside d \<and> has_id S d i)", OF new_queue_ok], goal_cases)
    case (1 tree node rest mounted v w ns)
    then have q: "tree_ok tree" "node < length tree" "\<forall>name \<in> set ns. listed S name" by (auto simp: queue_ok_def)
    have ns: "node \<noteq> 0 \<longrightarrow> ns \<noteq> []" using names_of_nonempty [OF q(1) _ q(2) 1(2)] by blast
    show ?case
    proof (rule wp_mono [OF wp_conj [OF traverse_node_turn [OF q(1,2) 1(2)]
            turn_visits [OF beneath_keep [OF b(1)] b(2) q(3) ns, where V = "\<lambda>d r v'. r = Inr Visit_Stop \<longrightarrow> has_id S d i"]]], goal_cases)
      case (3 t w')
      obtain turn tree' v' where t: "t = ((turn, tree'), v')" by (metis surj_pair)
      from 3 ns turn_ok_queue [OF 1(1,2)] show ?case unfolding t by (cases turn) auto
    qed (use look_for_visits in auto)
  qed simp
  then show ?thesis by simp
qed


section \<open>What the sweep removes\<close>

text \<open>Calls that remove nothing.\<close>

fun is_removal :: "'d DirEv \<Rightarrow> bool" where
  "is_removal (Unlinked names d name r) = True"
| "is_removal _ = False"

definition removes_nothing :: "('k, 'd DirEv) Machine \<Rightarrow> ('k, 'd DirEv) Machine \<Rightarrow> bool" where
  "removes_nothing w w' \<longleftrightarrow> (\<exists>es. w_log w' = es @ w_log w \<and> filter is_removal es = [])"

interpretation looking: dir_order removes_nothing S for S
proof
  show "removes_nothing t v" if "removes_nothing t u" "removes_nothing u v" for t u v :: "('k, 'd DirEv) Machine"
    using that by (fastforce simp: removes_nothing_def)
qed (auto simp: removes_nothing_def calls_keep_def keeps_def wp_call)

text \<open>The paths of the directories that something was removed from, newest first, and the removals that succeeded.\<close>

fun removal_path :: "'d DirEv \<Rightarrow> bytes list" where
  "removal_path (Unlinked names d name r) = names"
| "removal_path _ = []"

definition removal_paths :: "'d DirEv list \<Rightarrow> bytes list list" where
  "removal_paths es = map removal_path (filter is_removal es)"

fun is_removed :: "'d DirEv \<Rightarrow> bool" where
  "is_removed (Unlinked names d name r) = (r = Inr ())"
| "is_removed _ = False"

lemma nothing_removed: "filter is_removal es = [] \<Longrightarrow> filter is_removed es = []"
  by (induction es) (auto split: if_splits elim!: is_removed.elims)

text \<open>What was found: nodes other than the root, each no deeper than the next and the nodes of the queue, which are no deeper than one below its first; an id that was noted is that of a
directory under the leaf.\<close>

definition level :: "Tree \<Rightarrow> nat \<Rightarrow> nat" where
  "level tree n = length (the (names_of tree n))"

definition found_ok :: "('d, 'k) DirSys \<Rightarrow> ('d \<Rightarrow> bool) \<Rightarrow> Tree \<Rightarrow> nat list \<Rightarrow> (nat \<times> u64 option) list \<Rightarrow> bool" where
  "found_ok S inside tree pending found \<longleftrightarrow> queue_ok S tree (map fst found @ pending)
     \<and> sorted (map (level tree) (map fst found @ pending)) \<and> (\<forall>n \<in> set pending. level tree n \<le> Suc (level tree (hd pending)))
     \<and> (\<forall>(n, x) \<in> set found. n \<noteq> 0 \<and> (\<forall>i. x = Some i \<longrightarrow> (\<exists>d. inside d \<and> has_id S d i)))"

lemma note_id_visits:
  "wp (note_id S found node d) (\<lambda>(r, found') _. found' = found \<or> (\<exists>x. found' = found @ [(node, x)] \<and> (\<forall>i. x = Some i \<longrightarrow> has_id S d i))) w"
  by (auto simp: note_id_def cgroup_id_def has_id_def wp_bind wp_call wp_return split: sum.splits if_splits)

lemma queue_ok_append: "queue_ok S tree (xs @ ys) \<longleftrightarrow> queue_ok S tree xs \<and> queue_ok S tree ys"
  by (auto simp: queue_ok_def)

lemma queue_ok_Cons: "queue_ok S tree (x # xs) \<longleftrightarrow> queue_ok S tree [x] \<and> queue_ok S tree xs"
  by (auto simp: queue_ok_def)

lemma found_ok_turn:
  assumes f: "found_ok S inside tree (node # rest) found" and ns: "names_of tree node = Some ns"
    and t: "turn_ok S tree ns (Goes q m, tree')"
    and found': "found' = found \<or> node \<noteq> 0 \<and> (\<exists>x. found' = found @ [(node, x)] \<and> (\<forall>i. x = Some i \<longrightarrow> (\<exists>d. inside d \<and> has_id S d i)))"
  shows "found_ok S inside tree' (rest @ q) found'"
proof -
  have old: "level tree' n = level tree n" if "n \<in> set (map fst found @ node # rest)" for n
  proof -
    have "n < length tree" using f that unfolding found_ok_def queue_ok_def by blast
    with t show ?thesis by (simp add: turn_ok_def grows_def level_def)
  qed
  have new: "level tree' n = Suc (level tree node)" "n < length tree'" if "n \<in> set q" for n
    using t that ns by (auto simp: turn_ok_def queues_def level_def)
  have rest: "level tree node \<le> level tree n" "level tree n \<le> Suc (level tree node)" if "n \<in> set rest" for n
    using f that by (auto simp: found_ok_def sorted_append)
  have g: "grows tree tree'" using t by (simp add: turn_ok_def)
  have parts: "queue_ok S tree (map fst found)" "queue_ok S tree [node]" "queue_ok S tree (node # rest)"
    using f by (simp_all add: found_ok_def queue_ok_append queue_ok_Cons [of S tree node rest])
  note kept = grows_queue_ok [OF g parts(1)] grows_queue_ok [OF g parts(2)] turn_ok_queue [OF parts(3) ns t]
  from found' have q: "queue_ok S tree' (map fst found' @ rest @ q)"
    using kept by (elim disjE conjE exE) (simp_all add: queue_ok_append queue_ok_Cons [of S tree' node "_ @ _"])
  have levels: "map (level tree') (map fst found) = map (level tree) (map fst found)" "map (level tree') rest = map (level tree) rest"
    "map (level tree') q = replicate (length q) (Suc (level tree node))" "level tree' node = level tree node"
    using old new by (auto simp: map_replicate_const [symmetric])
  have "sorted (map (level tree) (map fst found) @ level tree node # map (level tree) rest)" using f by (simp add: found_ok_def)
  then have order: "sorted (map (level tree) (map fst found))" "sorted (map (level tree) rest)"
    "\<forall>n \<in> set (map (level tree) (map fst found)). n \<le> level tree node" "\<forall>n \<in> set (map (level tree) rest). level tree node \<le> n"
    by (simp_all only: sorted_append sorted_simps list.set set_append) blast+
  have upper: "\<forall>n \<in> set (map (level tree) rest). n \<le> Suc (level tree node)" using rest by simp
  have "sorted (map (level tree) (map fst found) @ mid @ map (level tree) rest @ replicate (length q) (Suc (level tree node)))"
    if "mid = [] \<or> mid = [level tree node]" for mid
    using that order upper unfolding sorted_append by (fastforce simp: sorted_replicate)
  from this [of "[]"] this [of "[level tree node]"] found'
  have s: "sorted (map (level tree') (map fst found' @ rest @ q))"
    unfolding map_append levels by (elim disjE conjE exE) (simp_all add: levels levels(1) [unfolded map_map])
  have h: "level tree' n \<le> Suc (level tree' (hd (rest @ q)))" if "n \<in> set (rest @ q)" for n
  proof -
    have "level tree' n \<le> Suc (level tree node)" using that old new rest by auto
    moreover have "level tree node \<le> level tree' (hd (rest @ q))"
      using that old new rest by (cases rest; cases q) (auto simp: le_SucI)
    ultimately show ?thesis by simp
  qed
  have "\<forall>(n, x) \<in> set found'. n \<noteq> 0 \<and> (\<forall>i. x = Some i \<longrightarrow> (\<exists>d. inside d \<and> has_id S d i))"
    using f found' unfolding found_ok_def by (elim disjE conjE exE) auto
  with q s h show ?thesis by (simp only: found_ok_def) blast
qed


lemma open_beneath_dir:
  assumes "beneath S dir inside" and "names_honest S" and "\<forall>name \<in> set ns. listed S name"
  shows "wp (open_cgroup S dir ns) (\<lambda>r w'. (\<forall>d. r = Inr d \<longrightarrow> (if ns = [] then d = dir else inside d)) \<and> removes_nothing w w') w"
proof (rule wp_conj)
  show "wp (open_cgroup S dir ns) (\<lambda>r _. \<forall>d. r = Inr d \<longrightarrow> (if ns = [] then d = dir else inside d)) w"
  proof (cases "ns = []")
    case True
    then show ?thesis using assms(1) pieces_Nil [of ns PATH_MAX_BYTES] by (simp add: open_cgroup_def open_beneath_def wp_call beneath_def)
  next
    case False
    show ?thesis by (rule open_cgroup_leads [OF beneath_keep [OF assms(1)] assms(2) False assms(3)]) simp
  qed
  show "wp (open_cgroup S dir ns) (\<lambda>_ w'. removes_nothing w w') w"
    by (rule keeps_wp [OF looking.keeps_open_cgroup])
qed

text \<open>What a sweep of the nodes in \<open>found\<close> comes to, from a state to the next.\<close>

definition swept_ok ::
  "('d, 'k) DirSys \<Rightarrow> 'd \<Rightarrow> ('d \<Rightarrow> bool) \<Rightarrow> Tree \<Rightarrow> (nat \<times> u64 option) list \<Rightarrow> u64 set \<Rightarrow> nat \<Rightarrow> ('k, 'd DirEv) Machine
     \<Rightarrow> (IoError + nat) \<times> u64 set \<times> ('k, 'd DirEv) Machine \<Rightarrow> bool" where
  "swept_ok S dir inside tree found swept removed w z \<longleftrightarrow> (case z of (r, swept', w') \<Rightarrow> \<exists>es. w_log w' = es @ w_log w
     \<and> sorted (map length (removal_paths es)) \<and> (\<forall>p \<in> set (removal_paths es). \<exists>n \<in> fst ` set found. level tree n = Suc (length p))
     \<and> (\<forall>names d name a. Unlinked names d name a \<in> set es \<longrightarrow> (if names = [] then d = dir else inside d))
     \<and> swept \<subseteq> swept' \<and> swept' \<subseteq> swept \<union> {i. \<exists>n. (n, Some i) \<in> set found}
     \<and> (\<forall>m. r = Inr m \<longrightarrow> m = removed + length (filter is_removed es)))"

lemma swept_ok_skip:
  assumes "removes_nothing w w'" and "swept_ok S dir inside tree found swept removed w' z"
  shows "swept_ok S dir inside tree (x # found) swept removed w z"
proof -
  obtain r swept' w2 es es' where z: "z = (r, swept', w2)" and es: "w_log w' = es @ w_log w" "filter is_removal es = []" and es': "w_log w2 = es' @ w_log w'"
    and ok: "sorted (map length (removal_paths es'))" "\<forall>p \<in> set (removal_paths es'). \<exists>n \<in> fst ` set found. level tree n = Suc (length p)"
      "\<forall>names d name a. Unlinked names d name a \<in> set es' \<longrightarrow> (if names = [] then d = dir else inside d)"
      "swept \<subseteq> swept'" "swept' \<subseteq> swept \<union> {i. \<exists>n. (n, Some i) \<in> set found}" "\<forall>m. r = Inr m \<longrightarrow> m = removed + length (filter is_removed es')"
    using assms by (cases z) (auto simp: removes_nothing_def swept_ok_def)
  have u: "Unlinked names d name a \<notin> set es" for names d name a using es(2) by (auto simp: filter_empty_conv)
  show ?thesis unfolding swept_ok_def z prod.case
    by (rule exI [of _ "es' @ es"])
      (use es es' ok u nothing_removed [OF es(2)] in \<open>auto simp: removal_paths_def\<close>)
qed

lemma swept_ok_stop: "removes_nothing w w' \<Longrightarrow> swept_ok S dir inside tree found swept removed w (Inl e, swept, w')"
  by (fastforce simp: swept_ok_def removes_nothing_def removal_paths_def filter_empty_conv)

lemma swept_ok_removed:
  assumes rest: "swept_ok S dir inside tree found s (removed + (if a = Inr () then 1 else 0)) w2 z"
    and s: "swept \<subseteq> s" "s \<subseteq> swept \<union> {x. i = Some x}"
    and w2: "w_log w2 = Unlinked ns d name a # w_log w'" and w': "removes_nothing w w'"
    and d: "if ns = [] then d = dir else inside d" and n: "level tree n = Suc (length ns)" and le: "\<forall>m \<in> fst ` set found. level tree m \<le> level tree n"
  shows "swept_ok S dir inside tree ((n, i) # found) swept removed w z"
proof -
  obtain r swept' w3 es es' where z: "z = (r, swept', w3)" and es: "w_log w' = es @ w_log w" "filter is_removal es = []" and es': "w_log w3 = es' @ w_log w2"
    and ok: "sorted (map length (removal_paths es'))" "\<forall>p \<in> set (removal_paths es'). \<exists>n \<in> fst ` set found. level tree n = Suc (length p)"
      "\<forall>names d name b. Unlinked names d name b \<in> set es' \<longrightarrow> (if names = [] then d = dir else inside d)"
      "s \<subseteq> swept'" "swept' \<subseteq> s \<union> {i. \<exists>n. (n, Some i) \<in> set found}" "\<forall>m. r = Inr m \<longrightarrow> m = removed + (if a = Inr () then 1 else 0) + length (filter is_removed es')"
    using rest w' by (cases z) (auto simp: removes_nothing_def swept_ok_def)
  have u: "Unlinked names d name b \<notin> set es" for names d name b using es(2) by (auto simp: filter_empty_conv)
  have short: "length p \<le> length ns" if "p \<in> set (removal_paths es')" for p
    using ok(2) that le n by fastforce
  have "removal_paths (es' @ Unlinked ns d name a # es) = removal_paths es' @ [ns]" using es(2) by (simp add: removal_paths_def)
  then have "sorted (map length (removal_paths (es' @ Unlinked ns d name a # es)))"
    and "\<forall>p \<in> set (removal_paths (es' @ Unlinked ns d name a # es)). \<exists>m \<in> fst ` set ((n, i) # found). level tree m = Suc (length p)"
    using ok(1,2) short n by (auto simp: sorted_append)
  moreover have "swept \<subseteq> swept'" using ok(4) s(1) by blast
  moreover have "swept' \<subseteq> swept \<union> {x. \<exists>m. (m, Some x) \<in> set ((n, i) # found)}"
  proof
    fix x
    assume "x \<in> swept'"
    then consider "x \<in> s" | m where "(m, Some x) \<in> set found" using ok(5) by blast
    then show "x \<in> swept \<union> {x. \<exists>m. (m, Some x) \<in> set ((n, i) # found)}" using s(2) by cases auto
  qed
  moreover have "\<forall>names d' name' b. Unlinked names d' name' b \<in> set (es' @ Unlinked ns d name a # es) \<longrightarrow> (if names = [] then d' = dir else inside d')"
    using ok(3) u d by auto
  moreover have "\<forall>m. r = Inr m \<longrightarrow> m = removed + length (filter is_removed (es' @ Unlinked ns d name a # es))"
  proof (intro allI impI)
    fix m
    assume "r = Inr m"
    with ok(6) have "m = removed + (if a = Inr () then 1 else 0) + length (filter is_removed es')" by blast
    then show "m = removed + length (filter is_removed (es' @ Unlinked ns d name a # es))" using nothing_removed [OF es(2)] by simp
  qed
  moreover have "w_log w3 = (es' @ Unlinked ns d name a # es) @ w_log w" using es es' w2 by simp
  ultimately show ?thesis unfolding swept_ok_def z prod.case by blast
qed

lemma level_parent:
  assumes "queue_ok S tree [n]" and "n \<noteq> 0"
  shows "\<exists>ns. names_of tree (n_parent (tree ! n)) = Some ns \<and> (\<forall>name \<in> set ns. listed S name) \<and> level tree n = Suc (length ns)"
proof -
  from assms obtain ms where ok: "tree_ok tree" "n < length tree" and ms: "names_of tree n = Some ms" "\<forall>name \<in> set ms. listed S name"
    by (auto simp: queue_ok_def)
  have "n_parent (tree ! n) < length tree" using ok assms(2) unfolding tree_ok_def by (meson less_trans neq0_conv)
  then obtain ns where ns: "names_of tree (n_parent (tree ! n)) = Some ns" using names_of_Some ok(1) by blast
  from names_of_parent [OF ok(1) _ ok(2) this] assms(2) ms have "ms = ns @ [n_name (tree ! n)]" by simp
  with ns ms show ?thesis by (simp add: level_def)
qed

lemma remove_loop_ok:
  assumes b: "beneath S dir inside" "names_honest S"
    and "queue_ok S tree (map fst found)" and "\<forall>(n, x) \<in> set found. n \<noteq> 0" and "sorted (rev (map (level tree) (map fst found)))"
  shows "\<exists>z. remove_loop S dir tree found swept removed w = Some z \<and> swept_ok S dir inside tree found swept removed w z"
  using assms(3-5)
proof (induction found arbitrary: swept removed w)
  case Nil
  then show ?case by (simp add: swept_ok_def removal_paths_def)
next
  case (Cons x found)
  obtain n i where x [simp]: "x = (n, i)" by (cases x)
  have q: "queue_ok S tree [n]" "queue_ok S tree (map fst found)" using Cons.prems(1) by (simp_all add: queue_ok_Cons [of S tree n "map fst found"])
  have IH: "\<exists>z. remove_loop S dir tree found s r w = Some z \<and> swept_ok S dir inside tree found s r w z" for s r w
    by (rule Cons.IH [OF q(2)]) (use Cons.prems in \<open>auto simp: sorted_append\<close>)
  from level_parent [OF q(1)] Cons.prems(2) obtain ns where ns: "names_of tree (n_parent (tree ! n)) = Some ns"
    "\<forall>name \<in> set ns. listed S name" "level tree n = Suc (length ns)" by auto
  have lt: "\<not> length tree \<le> n" and le: "\<forall>m \<in> fst ` set found. level tree m \<le> level tree n"
    using q(1) Cons.prems(3) by (auto simp: queue_ok_def sorted_append)
  obtain r w1 where run: "run_state (open_cgroup S dir ns) w = (r, w1)" by (metis surj_pair)
  with open_beneath_dir [OF b ns(2), of w] have d: "\<forall>d. r = Inr d \<longrightarrow> (if ns = [] then d = dir else inside d)" and w1: "removes_nothing w w1"
    by (simp_all add: wp_def)
  show ?case
  proof (cases r)
    case (Inl e)
    with IH [of swept removed w1] swept_ok_skip [OF w1] swept_ok_stop [OF w1] show ?thesis by (auto simp: lt ns run)
  next
    case (Inr p)
    let ?name = "n_name (tree ! n)"
    let ?a = "fst (d_unlink S p ?name (w_kernel w1))"
    let ?w2 = "\<lparr>w_kernel = snd (d_unlink S p ?name (w_kernel w1)), w_log = Unlinked ns p ?name ?a # w_log w1\<rparr>"
    have unlink: "run_state (call (Unlinked ns p ?name) (d_unlink S p ?name)) w1 = (?a, ?w2)" by (simp add: call_def split: prod.split)
    have step: "swept_ok S dir inside tree ((n, i) # found) swept removed w z"
      if "swept_ok S dir inside tree found s (removed + (if ?a = Inr () then 1 else 0)) ?w2 z" "swept \<subseteq> s" "s \<subseteq> swept \<union> {x. i = Some x}" for s z
      by (rule swept_ok_removed [OF that _ w1 _ ns(3) le]) (use d Inr in auto)
    show ?thesis
    proof (cases ?a)
      case (Inl e)
      have stop: "swept_ok S dir inside tree found swept removed ?w2 (Inl (OsError e), swept, ?w2)"
        by (rule swept_ok_stop [OF looking.refl])
      show ?thesis
        using IH [of swept removed ?w2] step [of swept] stop Inl by (auto simp: lt ns run Inr unlink)
    next
      case (Inr u)
      let ?s = "case i of Some x \<Rightarrow> insert x swept | None \<Rightarrow> swept"
      have s: "swept \<subseteq> ?s" "?s \<subseteq> swept \<union> {x. i = Some x}" by (auto split: option.splits)
      show ?thesis
        using IH [of ?s "removed + 1" ?w2] step [OF _ s] Inr by (auto simp: lt ns run \<open>r = Inr p\<close> unlink)
    qed
  qed
qed


lemma keeps_note_id: "dir_order R S \<Longrightarrow> keeps R (note_id S found node d)"
  unfolding note_id_def by (intro run_order.keeps_bind run_order.keeps_return dir_order.keeps_cgroup_id) (simp_all add: dir_order_def)

lemma sweep_finds:
  assumes b: "beneath S dir inside" "names_honest S" and run: "traverse_loop S dir False (note_id S) new_tree [0] False [] w = Some (r, tree, found, w')"
  shows "found_ok S inside tree [] found \<and> removes_nothing w w'"
proof (rule traverse_inv [OF run, where P = "\<lambda>tree pending mounted found w'. found_ok S inside tree pending found \<and> removes_nothing w w'"
      and Q = "\<lambda>r tree found w'. found_ok S inside tree [] found \<and> removes_nothing w w'"], goal_cases)
  case 1
  show ?case using new_queue_ok by (simp add: found_ok_def looking.refl)
next
  case (2 tree node rest mounted found w' ns)
  let ?V = "\<lambda>d (r :: IoError + Visit) found'. found' = found \<or> (\<exists>x. found' = found @ [(node, x)] \<and> (\<forall>i. x = Some i \<longrightarrow> has_id S d i))"
  have f: "found_ok S inside tree (node # rest) found" and w': "removes_nothing w w'" using 2(1) by simp_all
  then have q: "tree_ok tree" "node < length tree" "\<forall>name \<in> set ns. listed S name" using 2(2) by (auto simp: found_ok_def queue_ok_def)
  have ns: "node \<noteq> 0 \<longrightarrow> ns \<noteq> []" using names_of_nonempty [OF q(1) _ q(2) 2(2)] by blast
  have keep: "wp (traverse_node S dir False (note_id S) tree node ns found) (\<lambda>_. removes_nothing w') w'"
    by (rule keeps_wp, rule looking.keeps_traverse_node, rule keeps_note_id, rule looking.dir_order_axioms)
  have visits: "wp (traverse_node S dir False (note_id S) tree node ns found) (\<lambda>t _. (snd t = found \<or> node \<noteq> 0 \<and> (\<exists>d r. (if ns = [] then d = dir else inside d) \<and> ?V d r (snd t)))
      \<and> (\<forall>x. fst (fst t) = Ends (Inr x) \<longrightarrow> node \<noteq> 0 \<and> (\<exists>d. (if ns = [] then d = dir else inside d) \<and> ?V d (Inr Visit_Stop) (snd t)))) w'"
    by (rule turn_visits [OF beneath_keep [OF b(1)] b(2) q(3) ns, where V = ?V]) (use note_id_visits in auto)
  show ?case
  proof (rule wp_mono [OF wp_conj [OF wp_conj [OF traverse_node_turn [OF q(1,2) 2(2)] keep] visits]], goal_cases)
    case (1 t w2)
    obtain turn tree' found' where t: "t = ((turn, tree'), found')" by (metis surj_pair)
    have found': "found' = found \<or> node \<noteq> 0 \<and> (\<exists>x. found' = found @ [(node, x)] \<and> (\<forall>i. x = Some i \<longrightarrow> (\<exists>d. inside d \<and> has_id S d i)))"
      using 1 ns unfolding t by auto blast+
    have turn: "turn_ok S tree ns (turn, tree')" and w2: "removes_nothing w w2" using 1 looking.trans [OF w'] unfolding t by auto
    have "found_ok S inside tree' [] found'"
    proof -
      have "turn_ok S tree ns (Goes [] False, tree')" using turn by (simp add: turn_ok_def queues_def)
      from found_ok_turn [OF f 2(2) this found'] show ?thesis by (auto simp: found_ok_def queue_ok_append sorted_append)
    qed
    with found_ok_turn [OF f 2(2) _ found'] turn w2 show ?case unfolding t by (cases turn) auto
  qed
qed simp

lemma walk_returns:
  assumes "names_honest S" and "bounded_depth S depth n"
  shows "\<exists>r w'. find_descendant S dir i w = Some (r, w')"
proof -
  obtain z where "traverse_loop S dir True (look_for S i) new_tree [0] False () w = Some z"
    using traverse_ends [OF assms(2,1) new_queue_ok, of dir True "look_for S i" False "()" w] by blast
  then show ?thesis by (cases z) (auto simp: find_descendant_def walk_def traverse_def)
qed

section \<open>What the traversals promise\<close>

text \<open>C20: the walk of a leaf's tree ends, and what it answers is true, however the tree changes meanwhile. \<open>Found\<close> is answered only when a directory under the leaf was read to have the id; and
when a cgroup with the id is under the leaf and the walk answers \<open>Absent\<close>, that cgroup was removed before the walk ended.\<close>

theorem walk_answers_are_true:
  assumes "beneath S dir inside" and "names_honest S" and "bounded_depth S depth n"
  shows "\<exists>r w'. find_descendant S dir i w = Some (r, w')
    \<and> (r = Found \<longrightarrow> (\<exists>d. inside d \<and> has_id S d i))
    \<and> (r = Absent \<longrightarrow> (\<forall>there after at names. stays S there after at names i \<and> at 0 = dir \<and> there (w_kernel w) \<longrightarrow> after (w_kernel w')))"
  using walk_returns [OF assms(2,3), of dir i w] walk_found [OF assms(1,2)] walk_finds by metis

text \<open>C21: the sweep of a leaf ends, and removes only what is under the leaf, deepest first. Every removal is from the leaf or a directory under it, and a directory is never removed before one that is
deeper; the ids it records are those of directories under the leaf; and the number it returns is that of the removals that succeeded.\<close>

theorem sweep_removes_beneath:
  assumes "beneath S dir inside" and "names_honest S" and "bounded_depth S depth n"
  shows "\<exists>r swept' w' es. remove_children S dir swept w = Some (r, swept', w') \<and> w_log w' = es @ w_log w
    \<and> sorted (map length (removal_paths es))
    \<and> (\<forall>names d name a. Unlinked names d name a \<in> set es \<longrightarrow> (if names = [] then d = dir else inside d))
    \<and> swept \<subseteq> swept' \<and> (\<forall>i \<in> swept' - swept. \<exists>d. inside d \<and> has_id S d i)
    \<and> (\<forall>m. r = Inr m \<longrightarrow> m = length (filter is_removed es))"
proof -
  obtain r tree found w1 where run: "traverse_loop S dir False (note_id S) new_tree [0] False [] w = Some (r, tree, found, w1)"
    using traverse_ends [OF assms(3,2) new_queue_ok, of dir False "note_id S" False "[]" w] by (metis surj_pair)
  from sweep_finds [OF assms(1,2) run] have f: "found_ok S inside tree [] found" and w1: "removes_nothing w w1" by simp_all
  have "queue_ok S tree (map fst (rev found))" "\<forall>(n, x) \<in> set (rev found). n \<noteq> 0" "sorted (rev (map (level tree) (map fst (rev found))))"
    using f by (auto simp: found_ok_def queue_ok_def rev_map)
  from remove_loop_ok [OF assms(1,2) this, of swept 0 w1] obtain r2 swept' w2 where
    loop: "remove_loop S dir tree (rev found) swept 0 w1 = Some (r2, swept', w2)" and ok: "swept_ok S dir inside tree (rev found) swept 0 w1 (r2, swept', w2)"
    by auto
  from swept_ok_skip [OF w1 ok, of "(0, None)"] obtain es where es: "w_log w2 = es @ w_log w" "sorted (map length (removal_paths es))"
    "\<forall>names d name a. Unlinked names d name a \<in> set es \<longrightarrow> (if names = [] then d = dir else inside d)"
    "swept \<subseteq> swept'" "swept' \<subseteq> swept \<union> {i. \<exists>n. (n, Some i) \<in> set found}" "\<forall>m. r2 = Inr m \<longrightarrow> m = length (filter is_removed es)"
    by (auto simp: swept_ok_def)
  have ids: "\<forall>i \<in> swept' - swept. \<exists>d. inside d \<and> has_id S d i" using es(5) f unfolding found_ok_def by blast
  obtain r3 where "remove_children S dir swept w = Some (r3, swept', w2)" and "\<forall>m. r3 = Inr m \<longrightarrow> r2 = Inr m"
    using run loop by (cases r2) (auto simp: remove_children_def traverse_def split: sum.splits Failure.splits)
  with es ids show ?thesis by blast
qed


subsection \<open>A tree\<close>

text \<open>A leaf with a cgroup \<^verbatim>\<open>a\<close> under it and another \<^verbatim>\<open>a\<close> under that, which nobody changes. A directory is its depth, and its id.\<close>

definition demo_open :: "nat \<Rightarrow> bytes \<Rightarrow> i32 + nat" where
  "demo_open d p = (if p = [DOT] then Inr d
     else (let names = split_on (\<lambda>b. b = SLASH) p in
       if (\<forall>name \<in> set names. name = [0x61]) \<and> d + length names \<le> 2 then Inr (d + length names) else Inl ENOENT))"

definition demo_dirs :: "(nat, unit) DirSys" where
  "demo_dirs = \<lparr>d_open = \<lambda>d p k. (demo_open d p, k),
     d_handle = \<lambda>d k. (Inr (FILEID_KERNFS, 8, [of_nat d, 0, 0, 0, 0, 0, 0, 0]), k),
     d_list = \<lambda>d k. (Inr (), k),
     d_entries = \<lambda>d k. (Inr ([DOT], Directory) # Inr ([0x62], Other_Type) # (if d < 2 then [Inr ([0x61], Unknown_Type)] else []), k),
     d_stat = \<lambda>d name k. (Inr (name = [0x61]), k), d_inode = \<lambda>d k. (Inr (0, of_nat d), k),
     d_alive = \<lambda>d k. (Inr (), k), d_unlink = \<lambda>d name k. (Inr (), k)\<rparr>"

lemma demo_beneath: "beneath demo_dirs 0 (\<lambda>d. 0 < d)"
  by (auto simp: beneath_def demo_dirs_def demo_open_def Let_def plain_path_def split: if_splits)

lemma demo_honest: "names_honest demo_dirs"
  by (auto simp: names_honest_def demo_dirs_def split: if_splits)

lemma demo_depth: "bounded_depth demo_dirs (\<lambda>d. d) 2"
  by (auto simp: bounded_depth_def demo_dirs_def demo_open_def Let_def plain_path_def split: if_splits)

lemma demo_stays: "stays demo_dirs (\<lambda>_. True) (\<lambda>_. False) (\<lambda>j. j) [[0x61], [0x61]] 2"
proof -
  have ids: "id_of_answer (Inr (FILEID_KERNFS, 8, [2, 0, 0, 0, 0, 0, 0, 0])) = Inr 2" by code_simp
  have "demo_open 0 [0x61] = Inr 1" "demo_open 0 [0x61, 0x2F, 0x61] = Inr 2" "demo_open 1 [0x61] = Inr 2" by code_simp+
  then have opens: "demo_open a (intercalate SLASH (segment [[0x61], [0x61]] (a, b))) = Inr b" if "a < b" "b \<le> 2" for a b
  proof -
    from that consider "a = 0" "b = 1" | "a = 0" "b = 2" | "a = 1" "b = 2" by linarith
    then show ?thesis using \<open>demo_open 0 [0x61] = Inr 1\<close> \<open>demo_open 0 [0x61, 0x2F, 0x61] = Inr 2\<close> \<open>demo_open 1 [0x61] = Inr 2\<close>
      by cases (simp_all add: segment_def numeral_2_eq_2)
  qed
  moreover have "((0x61 :: u8) = 0x2E) = False" by simp
  ultimately show ?thesis
    using ids by (auto simp: stays_def promises_def demo_dirs_def unless_refused_def PATH_MAX_BYTES_def demo_open_def [of _ "[DOT]"] less_Suc_eq id_of_answer_def id_of_handle_def)
qed

theorem walk_answers_are_true_witness:
  "\<exists>r w'. find_descendant demo_dirs 0 2 \<lparr>w_kernel = (), w_log = []\<rparr> = Some (r, w') \<and> r \<noteq> Absent \<and> (r = Found \<longrightarrow> (\<exists>d > 0. has_id demo_dirs d 2))"
proof -
  obtain r w' where w: "find_descendant demo_dirs 0 2 \<lparr>w_kernel = (), w_log = []\<rparr> = Some (r, w')" "r = Found \<longrightarrow> (\<exists>d. 0 < d \<and> has_id demo_dirs d 2)"
    and absent: "r = Absent \<longrightarrow> (\<forall>there after at names. stays demo_dirs there after at names 2 \<and> at 0 = 0 \<and> there () \<longrightarrow> after (w_kernel w'))"
    using walk_answers_are_true [OF demo_beneath demo_honest demo_depth, of 2 "\<lparr>w_kernel = (), w_log = []\<rparr>"] by auto
  have "r \<noteq> Absent"
  proof
    assume "r = Absent"
    from absent [rule_format, OF this, of "\<lambda>_. True" "\<lambda>_. False" "\<lambda>j. j" "[[0x61], [0x61]]"] demo_stays show False by simp
  qed
  with w show ?thesis by blast
qed

theorem sweep_removes_beneath_witness:
  "\<exists>r swept' w' es. remove_children demo_dirs 0 {} \<lparr>w_kernel = (), w_log = []\<rparr> = Some (r, swept', w') \<and> w_log w' = es
    \<and> sorted (map length (removal_paths es)) \<and> (\<forall>m. r = Inr m \<longrightarrow> m = length (filter is_removed es))"
  using sweep_removes_beneath [OF demo_beneath demo_honest demo_depth, of "{}" "\<lparr>w_kernel = (), w_log = []\<rparr>"] by auto

section \<open>The removal of the leaf\<close>

text \<open>The leaf's name is removed only right after it was read to lead to the directory that is held.\<close>

lemma rmdir_removes_ours:
  "wp (rmdir S l) (\<lambda>r w'. \<exists>es. w_log w' = es @ w_log w \<and>
     (\<forall>pre names d name a post. es = pre @ Unlinked names d name a # post \<longrightarrow> pre = [] \<and> d = ld_parent l \<and> name = ld_name l
        \<and> (\<exists>d' x. post = [Inode_Read (ld_dir l) (Inr x), Inode_Read d' (Inr x), Opened (ld_parent l) (ld_name l) (Inr d')]))
     \<and> (r = Inr () \<longrightarrow> (\<exists>es'. es = Unlinked [] (ld_parent l) (ld_name l) (Inr ()) # es'))) w"
  unfolding rmdir_def rmdir_ours_def not_ours_def open_beneath_def
  by (auto simp: wp_simps Cons_eq_append_conv split: sum.splits)

end
