(* ===== verification/Quote_Windows.thy ===== *)
theory Quote_Windows
  imports Errors
begin

text \<open>
  \<^verbatim>\<open>src/src/quote/windows.rs\<close>: building and parsing Windows command lines over UTF-16 units.


  A loop over an index into a slice is a recursion over the suffix the index leaves; no position is
  reported here, so the index itself is not kept.
\<close>

section \<open>Joining\<close>

abbreviation SPACE :: u16 where "SPACE \<equiv> 0x20"
abbreviation TABU :: u16 where "TABU \<equiv> 0x09"
abbreviation QUOTE :: u16 where "QUOTE \<equiv> 0x22"
abbreviation BACKSLASH :: u16 where "BACKSLASH \<equiv> 0x5C"

definition is_blank :: "u16 \<Rightarrow> bool" where
  "is_blank c \<longleftrightarrow> c = SPACE \<or> c = TABU"

definition needs_quotes :: "u16 list \<Rightarrow> bool" where
  "needs_quotes arg \<longleftrightarrow> arg = [] \<or> list_ex is_blank arg"

text \<open>The loop of \<^verbatim>\<open>append_arg\<close>: the command line so far and the length of the current backslash
  run.\<close>

primrec append_units :: "u16 list \<Rightarrow> u16 list \<Rightarrow> nat \<Rightarrow> u16 list \<times> nat" where
  "append_units [] cmd backslashes = (cmd, backslashes)"
| "append_units (x # xs) cmd backslashes =
     (if x = BACKSLASH then append_units xs (cmd @ [x]) (Suc backslashes)
      else if x = QUOTE then append_units xs (cmd @ replicate (backslashes + 1) BACKSLASH @ [x]) 0
      else append_units xs (cmd @ [x]) 0)"

definition append_arg :: "u16 list \<Rightarrow> u16 list \<Rightarrow> u16 list" where
  "append_arg cmd arg =
     (let q = needs_quotes arg;
          (cmd, backslashes) = append_units arg (if q then cmd @ [QUOTE] else cmd) 0
      in if q then cmd @ replicate backslashes BACKSLASH @ [QUOTE] else cmd)"

primrec join_wide_loop :: "nat \<Rightarrow> u16 list list \<Rightarrow> u16 list \<Rightarrow> u16 list" where
  "join_wide_loop idx [] cmd = cmd"
| "join_wide_loop idx (arg # args) cmd =
     join_wide_loop (Suc idx) args (append_arg (if 0 < idx then cmd @ [SPACE] else cmd) arg)"

definition join_wide :: "u16 list list \<Rightarrow> u16 list" where
  "join_wide args = join_wide_loop 0 args []"

section \<open>Parsing\<close>

definition first_token_and_rest_wide :: "u16 list \<Rightarrow> (u16 list \<times> u16 list) option" where
  "first_token_and_rest_wide cmd = (case dropWhile is_blank cmd of
      [] \<Rightarrow> None
    | c # cs \<Rightarrow>
        let (first, left) =
          (if c = QUOTE
           then (takeWhile (\<lambda>u. u \<noteq> QUOTE) cs, drop 1 (dropWhile (\<lambda>u. u \<noteq> QUOTE) cs))
           else (takeWhile (\<lambda>u. \<not> is_blank u) (c # cs), dropWhile (\<lambda>u. \<not> is_blank u) (c # cs)))
        in Some (first, dropWhile is_blank left))"

definition first_token_wide :: "u16 list \<Rightarrow> u16 list option" where
  "first_token_wide cmd = map_option fst (first_token_and_rest_wide cmd)"

text \<open>The inner loop of \<^verbatim>\<open>split_rest_wide\<close> over consecutive bare quotes: the running quote count, the
  buffer and what is left.\<close>

primrec quote_run :: "u16 list \<Rightarrow> nat \<Rightarrow> u16 list \<Rightarrow> nat \<times> u16 list \<times> u16 list" where
  "quote_run [] qcount buf = (qcount, buf, [])"
| "quote_run (c # cs) qcount buf =
     (if c = QUOTE then
        (if Suc qcount = 3 then quote_run cs 0 (buf @ [QUOTE]) else quote_run cs (Suc qcount) buf)
      else (qcount, buf, c # cs))"

text \<open>What the quote branch does before that loop: an even backslash run collapses to half and the
  quote counts; an odd run collapses to half and the quote is literal.\<close>

definition collapse :: "nat \<Rightarrow> nat \<Rightarrow> u16 list \<Rightarrow> nat \<times> u16 list" where
  "collapse bcount qcount buf =
     (if even bcount then (Suc qcount, take (length buf - bcount div 2) buf)
      else (qcount, take (length buf - (bcount div 2 + 1)) buf @ [QUOTE]))"

lemma quote_run_length: "quote_run cs q buf = (q', buf', rest) \<Longrightarrow> length rest \<le> length cs"
  by (induction cs arbitrary: q buf) (auto split: if_splits intro: le_SucI)

lemma dropWhile_Cons_length: "dropWhile P xs = d # ds \<Longrightarrow> length ds < length xs"
  using length_dropWhile_le [of P xs] by simp

function rest_loop :: "u16 list \<Rightarrow> nat \<Rightarrow> nat \<Rightarrow> u16 list list \<Rightarrow> u16 list \<Rightarrow> u16 list list" where
  "rest_loop buf qcount bcount out [] = out @ [buf]"
| "rest_loop buf qcount bcount out (c # cs) =
     (if is_blank c \<and> qcount = 0 then
        (case dropWhile is_blank cs of
           [] \<Rightarrow> out @ [buf]
         | d # ds \<Rightarrow> rest_loop [] qcount 0 (out @ [buf]) (d # ds))
      else if c = BACKSLASH then rest_loop (buf @ [c]) qcount (Suc bcount) out cs
      else if c = QUOTE then
        (case collapse bcount qcount buf of
           (q1, buf1) \<Rightarrow> (case quote_run cs q1 buf1 of
             (q2, buf2, left) \<Rightarrow> rest_loop buf2 (if q2 = 2 then 0 else q2) 0 out left))
      else rest_loop (buf @ [c]) qcount 0 out cs)"
  by pat_completeness auto
termination
  by (relation "measure (\<lambda>(buf, qcount, bcount, out, rest). length rest)")
    (auto simp: less_Suc_eq_le dest: dropWhile_Cons_length quote_run_length [OF sym])

definition split_rest_wide :: "u16 list \<Rightarrow> u16 list list" where
  "split_rest_wide rest = (case dropWhile is_blank rest of
      [] \<Rightarrow> []
    | c # cs \<Rightarrow> rest_loop [] 0 0 [] (c # cs))"

definition split_wide :: "u16 list \<Rightarrow> QuoteError + u16 list list" where
  "split_wide cmd = (case first_token_and_rest_wide cmd of
      None \<Rightarrow> Inr []
    | Some (first, rest) \<Rightarrow> Inr (first # split_rest_wide rest))"

declare rest_loop.simps [simp del]

lemmas rest_loop_Nil = rest_loop.simps(1)
lemmas rest_loop_Cons = rest_loop.simps(2)

section \<open>The encoder, as a function of the argument alone\<close>

primrec enc_body :: "nat \<Rightarrow> u16 list \<Rightarrow> u16 list" where
  "enc_body b [] = []"
| "enc_body b (x # xs) =
     (if x = BACKSLASH then x # enc_body (Suc b) xs
      else if x = QUOTE then replicate (Suc b) BACKSLASH @ x # enc_body 0 xs
      else x # enc_body 0 xs)"

primrec trail :: "nat \<Rightarrow> u16 list \<Rightarrow> nat" where
  "trail b [] = b"
| "trail b (x # xs) = (if x = BACKSLASH then trail (Suc b) xs else trail 0 xs)"

lemma append_units_enc: "append_units xs cmd b = (cmd @ enc_body b xs, trail b xs)"
  by (induction xs arbitrary: cmd b) simp_all

definition enc_arg :: "u16 list \<Rightarrow> u16 list" where
  "enc_arg arg =
     (if needs_quotes arg then QUOTE # enc_body 0 arg @ replicate (trail 0 arg) BACKSLASH @ [QUOTE]
      else enc_body 0 arg)"

lemma append_arg_enc: "append_arg cmd arg = cmd @ enc_arg arg"
  by (simp add: append_arg_def append_units_enc enc_arg_def Let_def)

lemma join_wide_loop_enc:
  "join_wide_loop (Suc idx) args cmd = cmd @ concat (map (\<lambda>a. SPACE # enc_arg a) args)"
  by (induction args arbitrary: idx cmd) (simp_all add: append_arg_enc)

lemma join_wide_Nil: "join_wide [] = []"
  by (simp add: join_wide_def)

lemma join_wide_Cons: "join_wide (a # args) = enc_arg a @ concat (map (\<lambda>a. SPACE # enc_arg a) args)"
  by (simp add: join_wide_def join_wide_loop_enc append_arg_enc)

lemma join_wide_Cons_Cons: "join_wide (a # b # args) = enc_arg a @ SPACE # join_wide (b # args)"
  by (simp add: join_wide_Cons)

lemma enc_arg_head: "\<exists>c cs. enc_arg a = c # cs \<and> \<not> is_blank c"
proof (cases a)
  case Nil
  then show ?thesis by (simp add: enc_arg_def needs_quotes_def is_blank_def)
next
  case (Cons x xs)
  then show ?thesis
    by (cases "needs_quotes a"; cases "x = BACKSLASH"; cases "x = QUOTE")
      (auto simp: enc_arg_def needs_quotes_def is_blank_def)
qed

lemma join_wide_head: "\<exists>c cs. join_wide (a # args) = c # cs \<and> \<not> is_blank c"
  using enc_arg_head [of a] by (auto simp: join_wide_Cons)

section \<open>The parser on encoded arguments\<close>

text \<open>The running count is 0 outside quotes and 1 inside. The loop over bare quotes changes nothing
  unless a quote follows, and inside quotes a following quote is the closing one, read either way.\<close>

definition no_quote :: "u16 list \<Rightarrow> bool" where
  "no_quote r \<longleftrightarrow> (case r of [] \<Rightarrow> True | c # _ \<Rightarrow> c \<noteq> QUOTE)"

definition continue :: "u16 list list \<Rightarrow> nat \<times> u16 list \<times> u16 list \<Rightarrow> u16 list list" where
  "continue out st = (case st of (q, buf, left) \<Rightarrow> rest_loop buf (if q = 2 then 0 else q) 0 out left)"

lemma quote_run_stop: "no_quote r \<Longrightarrow> quote_run r q buf = (q, buf, r)"
  by (cases r) (simp_all add: no_quote_def)

lemma rest_loop_quote:
  "rest_loop buf q b out (QUOTE # r) =
     continue out (quote_run r (fst (collapse b q buf)) (snd (collapse b q buf)))"
  by (simp add: rest_loop_Cons is_blank_def continue_def split: prod.splits)

lemma continue_outside: "no_quote r \<Longrightarrow> continue out (quote_run r 0 buf) = rest_loop buf 0 0 out r"
  by (simp add: quote_run_stop continue_def)

lemma continue_inside: "continue out (quote_run r 1 buf) = rest_loop buf 1 0 out r"
proof (cases "no_quote r")
  case True
  then show ?thesis by (simp add: quote_run_stop continue_def)
next
  case False
  then obtain r' where "r = QUOTE # r'" by (cases r) (auto simp: no_quote_def)
  then show ?thesis by (simp add: rest_loop_quote collapse_def numeral_2_eq_2)
qed

lemma backslash_run:
  "rest_loop buf q b out (replicate n BACKSLASH @ r) = rest_loop (buf @ replicate n BACKSLASH) q (b + n) out r"
proof (induction n arbitrary: buf b)
  case 0
  then show ?case by simp
next
  case (Suc n)
  have "rest_loop buf q b out (replicate (Suc n) BACKSLASH @ r) =
      rest_loop (buf @ [BACKSLASH]) q (Suc b) out (replicate n BACKSLASH @ r)"
    by (simp add: rest_loop_Cons is_blank_def)
  with Suc show ?case by simp
qed

lemma escaped_quote:
  assumes "q = 1 \<or> q = 0 \<and> no_quote r"
  shows "rest_loop (buf @ replicate b BACKSLASH) q b out (replicate (Suc b) BACKSLASH @ QUOTE # r) =
    rest_loop (buf @ replicate b BACKSLASH @ [QUOTE]) q 0 out r"
proof -
  have run: "replicate b BACKSLASH @ replicate (Suc b) BACKSLASH = replicate (b + Suc b) BACKSLASH"
    by (simp only: replicate_add)
  have "collapse (b + Suc b) q (buf @ replicate (b + Suc b) BACKSLASH) = (q, buf @ replicate b BACKSLASH @ [QUOTE])"
    by (simp add: collapse_def del: replicate_Suc)
  then show ?thesis
    using assms
    by (auto simp only: backslash_run rest_loop_quote append_assoc run fst_conv snd_conv
        continue_inside continue_outside)
qed

lemma closing_quote:
  assumes "no_quote r"
  shows "rest_loop (buf @ replicate b BACKSLASH) 1 b out (replicate b BACKSLASH @ QUOTE # r) =
    rest_loop (buf @ replicate b BACKSLASH) 0 0 out r"
proof -
  have run: "replicate b BACKSLASH @ replicate b BACKSLASH = replicate (b + b) BACKSLASH"
    by (simp only: replicate_add)
  have col: "collapse (b + b) 1 (buf @ replicate (b + b) BACKSLASH) = (2, buf @ replicate b BACKSLASH)"
    by (simp add: collapse_def)
  show ?thesis
    using assms
    by (simp only: backslash_run rest_loop_quote append_assoc run col fst_conv snd_conv quote_run_stop
        continue_def prod.case) simp
qed

lemma enc_body_no_quote: "no_quote r \<Longrightarrow> no_quote (enc_body 0 xs @ r)"
  by (cases xs) (auto simp: no_quote_def)

lemma trail_suffix: "\<exists>ys. buf @ replicate b BACKSLASH @ xs = ys @ replicate (trail b xs) BACKSLASH"
proof (induction xs arbitrary: buf b)
  case Nil
  then show ?case by auto
next
  case (Cons x xs)
  show ?case
  proof (cases "x = BACKSLASH")
    case True
    then show ?thesis using Cons [of buf "Suc b"] by (simp add: replicate_app_Cons_same)
  next
    case False
    then show ?thesis using Cons [of "buf @ replicate b BACKSLASH @ [x]" 0] by simp
  qed
qed

lemma rest_loop_body:
  assumes "q = 1 \<or> q = 0 \<and> no_quote r \<and> \<not> list_ex is_blank xs"
  shows "rest_loop (buf @ replicate b BACKSLASH) q b out (enc_body b xs @ r) =
    rest_loop (buf @ replicate b BACKSLASH @ xs) q (trail b xs) out r"
  using assms
proof (induction xs arbitrary: buf b)
  case Nil
  then show ?case by simp
next
  case (Cons x xs)
  consider (bs) "x = BACKSLASH" | (quote) "x = QUOTE" | (other) "x \<noteq> BACKSLASH" "x \<noteq> QUOTE" by blast
  then show ?case
  proof cases
    case bs
    then show ?thesis using Cons.IH [of buf "Suc b"] Cons.prems
      by (simp add: rest_loop_Cons is_blank_def replicate_app_Cons_same)
  next
    case quote
    have q: "q = 1 \<or> q = 0 \<and> no_quote (enc_body 0 xs @ r)"
      using Cons.prems enc_body_no_quote by auto
    show ?thesis using quote Cons.IH [of "buf @ replicate b BACKSLASH @ [QUOTE]" 0] Cons.prems
        escaped_quote [OF q, of buf b out] by auto
  next
    case other
    then show ?thesis using Cons.IH [of "buf @ replicate b BACKSLASH @ [x]" 0] Cons.prems
      by (auto simp: rest_loop_Cons)
  qed
qed

lemma rest_loop_arg:
  assumes "no_quote r"
  shows "rest_loop [] 0 0 out (enc_arg arg @ r) = rest_loop arg 0 (if needs_quotes arg then 0 else trail 0 arg) out r"
proof (cases "needs_quotes arg")
  case False
  then show ?thesis using rest_loop_body [of 0 r arg "[]" 0 out] assms
    by (simp add: enc_arg_def needs_quotes_def)
next
  case True
  obtain ys where ys: "arg = ys @ replicate (trail 0 arg) BACKSLASH"
    using trail_suffix [of "[]" 0 arg] by auto
  let ?r = "replicate (trail 0 arg) BACKSLASH @ QUOTE # r"
  have "rest_loop [] 0 0 out (QUOTE # enc_body 0 arg @ ?r) = rest_loop [] 1 0 out (enc_body 0 arg @ ?r)"
    using continue_inside [of out "enc_body 0 arg @ ?r" "[]"] by (simp add: rest_loop_quote collapse_def)
  also have "\<dots> = rest_loop arg 1 (trail 0 arg) out ?r"
    using rest_loop_body [of 1 ?r arg "[]" 0 out] by simp
  also have "\<dots> = rest_loop arg 0 0 out r"
    using closing_quote [OF assms, of ys "trail 0 arg" out] ys by simp
  finally show ?thesis using True by (simp add: enc_arg_def)
qed

lemma rest_loop_space:
  "r = d # ds \<Longrightarrow> \<not> is_blank d \<Longrightarrow> rest_loop buf 0 b out (SPACE # r) = rest_loop [] 0 0 (out @ [buf]) r"
  by (simp add: rest_loop_Cons is_blank_def)

lemma rest_loop_join: "rest_loop [] 0 0 out (join_wide (a # args)) = out @ a # args"
proof (induction args arbitrary: a out)
  case Nil
  then show ?case
    using rest_loop_arg [of "[]" out a] by (simp add: join_wide_Cons no_quote_def rest_loop_Nil)
next
  case (Cons b args)
  obtain d ds where d: "join_wide (b # args) = d # ds" "\<not> is_blank d"
    using join_wide_head by blast
  have "no_quote (SPACE # join_wide (b # args))" by (simp add: no_quote_def)
  from rest_loop_arg [OF this, of out a] Cons [of "out @ [a]" b] show ?case
    by (simp add: join_wide_Cons_Cons rest_loop_space [OF d])
qed

lemma split_rest_join: "split_rest_wide (join_wide args) = args"
proof (cases args)
  case Nil
  then show ?thesis by (simp add: split_rest_wide_def join_wide_Nil)
next
  case (Cons a as)
  obtain d ds where d: "join_wide (a # as) = d # ds" "\<not> is_blank d"
    using join_wide_head by blast
  with rest_loop_join [of "[]" a as] Cons show ?thesis by (simp add: split_rest_wide_def)
qed

interpretation windows_args: argv_quoting join_wide "\<lambda>s. Inr (split_rest_wide s)" "\<lambda>_. True"
  by unfold_locales (simp add: split_rest_join)

section \<open>The program token\<close>

text \<open>\<open>argv[0]\<close> is read without escapes, so a program path survives when it holds no quote and does
  not end in a backslash where it must be quoted.\<close>

definition program_ok :: "u16 list \<Rightarrow> bool" where
  "program_ok p \<longleftrightarrow> QUOTE \<notin> set p \<and> (needs_quotes p \<longrightarrow> p = [] \<or> last p \<noteq> BACKSLASH)"

lemma enc_body_plain: "QUOTE \<notin> set xs \<Longrightarrow> enc_body b xs = xs"
  by (induction xs arbitrary: b) auto

lemma trail_last: "xs \<noteq> [] \<Longrightarrow> last xs \<noteq> BACKSLASH \<Longrightarrow> trail b xs = 0"
  by (induction xs arbitrary: b) (auto split: if_splits)

lemma enc_program:
  "program_ok p \<Longrightarrow> enc_arg p = (if needs_quotes p then QUOTE # p @ [QUOTE] else p)"
  by (cases "p = []") (auto simp: enc_arg_def program_ok_def enc_body_plain trail_last)

lemma dropWhile_blank_join: "dropWhile is_blank (concat (map (\<lambda>a. SPACE # enc_arg a) args)) = join_wide args"
proof (cases args)
  case Nil
  then show ?thesis by (simp add: join_wide_Nil)
next
  case (Cons a as)
  with enc_arg_head [of a] show ?thesis by (auto simp: join_wide_Cons is_blank_def)
qed

lemma takeWhile_until: "list_all P xs \<Longrightarrow> \<not> P y \<Longrightarrow> takeWhile P (xs @ y # ys) = xs \<and> dropWhile P (xs @ y # ys) = y # ys"
  by (induction xs) auto

lemma split_join_program:
  assumes "program_ok p"
  shows "first_token_and_rest_wide (join_wide (p # args)) = Some (p, join_wide args)"
proof (cases "needs_quotes p")
  case True
  have "list_all (\<lambda>u. u \<noteq> QUOTE) p" using assms by (auto simp: program_ok_def list_all_iff)
  from takeWhile_until [OF this, of QUOTE] True assms show ?thesis
    by (simp add: join_wide_Cons enc_program first_token_and_rest_wide_def is_blank_def
        dropWhile_blank_join)
next
  case False
  then obtain c cs where p: "p = c # cs" and nb: "list_all (\<lambda>u. \<not> is_blank u) p"
    by (cases p) (auto simp: needs_quotes_def list_all_iff list_ex_iff)
  have c: "c \<noteq> QUOTE" "\<not> is_blank c" using assms p nb by (auto simp: program_ok_def)
  let ?t = "concat (map (\<lambda>a. SPACE # enc_arg a) args)"
  have "takeWhile (\<lambda>u. \<not> is_blank u) (p @ ?t) = p \<and> dropWhile (\<lambda>u. \<not> is_blank u) (p @ ?t) = ?t"
  proof (cases args)
    case Nil
    with nb show ?thesis by (simp add: takeWhile_eq_all_conv dropWhile_eq_Nil_conv list_all_iff)
  next
    case (Cons a as)
    then show ?thesis using takeWhile_until [OF nb, of SPACE] by (simp add: is_blank_def)
  qed
  with False assms p c show ?thesis
    by (simp add: join_wide_Cons enc_program first_token_and_rest_wide_def dropWhile_blank_join)
qed

lemma split_wide_Nil: "first_token_and_rest_wide (join_wide []) = None"
  by (simp add: join_wide_Nil first_token_and_rest_wide_def)

interpretation windows_argv: argv_quoting join_wide split_wide
  "\<lambda>args. case args of [] \<Rightarrow> True | p # _ \<Rightarrow> program_ok p"
proof
  fix args :: "u16 list list"
  assume "case args of [] \<Rightarrow> True | p # _ \<Rightarrow> program_ok p"
  then show "split_wide (join_wide args) = Inr args"
    by (cases args) (simp_all add: split_wide_def split_wide_Nil split_join_program split_rest_join)
qed

section \<open>Properties\<close>

text \<open>Parsing the arguments that \<^verbatim>\<open>join_wide\<close> wrote gives back exactly those arguments, for every
  vector of UTF-16 strings: the backslash doubling, the quoting and the parser's count of bare quotes
  agree.\<close>

theorem windows_args_round_trip: "split_rest_wide (join_wide args) = args"
  using windows_args.split_join [of args] by simp

text \<open>A whole command line, program token included, splits back into its argument vector when the
  program token holds no quote and, if it has to be quoted, does not end in a backslash. The
  token is read without escapes.\<close>

theorem windows_argv_round_trip:
  assumes "QUOTE \<notin> set p" and "needs_quotes p \<longrightarrow> p = [] \<or> last p \<noteq> BACKSLASH"
  shows "split_wide (join_wide (p # args)) = Inr (p # args)"
  using assms by (intro windows_argv.split_join) (simp add: program_ok_def)

theorem windows_argv_round_trip_witness:
  "split_wide (join_wide [map of_char ''C: x'', map of_char ''a b'']) = Inr [map of_char ''C: x'', map of_char ''a b'']"
  by (rule windows_argv_round_trip) (simp_all add: needs_quotes_def is_blank_def)

end
