(* ===== verification/Path_Pure.thy ===== *)
theory Path_Pure
  imports Prelude "HOL-Library.List_Lexorder"
begin

text \<open>
  \<^verbatim>\<open>src/cosca-path/src/lib.rs\<close>: the components of a path and the operations every path type shares, as
  the locale \<open>pure_path\<close>, with what the documentation of the \<^verbatim>\<open>PurePath\<close> trait promises of \<open>components\<close>, \<open>join\<close>,
  \<open>parent\<close> and \<open>file_name\<close>.
\<close>

section \<open>Components\<close>

datatype 's Component = CurDir | ParentDir | Empty | Normal 's

text \<open>\<^verbatim>\<open>#[derive(PartialOrd, Ord)]\<close>: by variant as declared, then by name.\<close>

instantiation Component :: (linorder) linorder
begin

fun less_eq_Component :: "'a Component \<Rightarrow> 'a Component \<Rightarrow> bool" where
  "less_eq_Component CurDir _ = True"
| "less_eq_Component _ CurDir = False"
| "less_eq_Component ParentDir _ = True"
| "less_eq_Component _ ParentDir = False"
| "less_eq_Component Empty _ = True"
| "less_eq_Component _ Empty = False"
| "less_eq_Component (Normal a) (Normal b) = (a \<le> b)"

definition less_Component :: "'a Component \<Rightarrow> 'a Component \<Rightarrow> bool" where
  "less_Component x y = (x \<le> y \<and> \<not> y \<le> x)"

instance
proof
  fix x y z :: "'a Component"
  show "(x < y) = (x \<le> y \<and> \<not> y \<le> x)" by (simp add: less_Component_def)
  show "x \<le> x" by (cases x) simp_all
  show "x \<le> y \<Longrightarrow> y \<le> z \<Longrightarrow> x \<le> z" by (cases x; cases y; cases z) auto
  show "x \<le> y \<Longrightarrow> y \<le> x \<Longrightarrow> x = y" by (cases x; cases y) auto
  show "x \<le> y \<or> y \<le> x" by (cases x; cases y) auto
qed

end

primrec normal_name :: "'s Component \<Rightarrow> 's option" where
  "normal_name CurDir = None"
| "normal_name ParentDir = None"
| "normal_name Empty = None"
| "normal_name (Normal n) = Some n"

section \<open>The interface of a path type\<close>

text \<open>\<open>relative q\<close>: \<open>q\<close> has no anchor of its own; \<open>closed p\<close>: the anchor of \<open>p\<close> takes no component that is appended.\<close>

locale pure_path =
  fixes components :: "'p \<Rightarrow> 's Component list"
    and join :: "'p \<Rightarrow> 'p \<Rightarrow> 'p"
    and parent :: "'p \<Rightarrow> 'p option"
    and file_name :: "'p \<Rightarrow> 's option"
    and relative :: "'p \<Rightarrow> bool"
    and closed :: "'p \<Rightarrow> bool"
  assumes components_join: "closed p \<Longrightarrow> relative q \<Longrightarrow> components (join p q) = components p @ components q"
    and closed_join: "closed p \<Longrightarrow> relative q \<Longrightarrow> closed (join p q)"
    and parent_None: "parent p = None \<longleftrightarrow> components p = []"
    and parent_Some: "parent p = Some r \<Longrightarrow>
      components r = (if butlast (components p) = [Empty] then [] else butlast (components p))"
    and file_name_last: "file_name p =
      (if components p = [] then None else normal_name (last (components p)))"
begin

lemma components_join_assoc:
  assumes "closed p" and "relative q" and "relative r" and "relative (join q r)" and "closed q"
  shows "components (join (join p q) r) = components (join p (join q r))"
  using assms by (simp add: components_join closed_join)

lemma file_name_join:
  assumes "closed p" and "relative q" and "components q \<noteq> []"
  shows "file_name (join p q) = file_name q"
  using assms by (simp add: file_name_last components_join)

lemma parent_join:
  assumes "closed p" and "relative q" and "components q = [c]" and "components p \<noteq> [Empty]"
  shows "\<exists>r. parent (join p q) = Some r \<and> components r = components p"
proof -
  have c: "components (join p q) = components p @ [c]" using assms(1-3) by (simp add: components_join)
  then obtain r where "parent (join p q) = Some r" using parent_None by (cases "parent (join p q)") auto
  with c assms(4) show ?thesis using parent_Some by fastforce
qed

lemma parent_shrinks: "parent p = Some r \<Longrightarrow> length (components r) < length (components p)"
  using parent_Some [of p r] parent_None [of p] by (cases "components p" rule: rev_cases) (auto split: if_splits)

text \<open>Taking parents ends: \<open>k\<close> of them, with \<open>k\<close> at most the number of components, reach a path with none.\<close>

primrec ancestor :: "nat \<Rightarrow> 'p \<Rightarrow> 'p option" where
  "ancestor 0 p = Some p"
| "ancestor (Suc k) p = (case parent p of None \<Rightarrow> None | Some r \<Rightarrow> ancestor k r)"

lemma ancestors_end: "\<exists>k \<le> length (components p). \<exists>r. ancestor k p = Some r \<and> parent r = None"
proof (induction "length (components p)" arbitrary: p rule: less_induct)
  case less
  show ?case
  proof (cases "parent p")
    case None
    then show ?thesis by (intro exI [of _ 0]) simp
  next
    case (Some r)
    then obtain k s where "k \<le> length (components r)" "ancestor k r = Some s" "parent s = None"
      using less parent_shrinks by blast
    with Some parent_shrinks [OF Some] show ?thesis by (intro exI [of _ "Suc k"]) auto
  qed
qed

end

end
