(* ===== verification/Path_Posix.thy ===== *)
theory Path_Posix
  imports Path_Pure
begin

text \<open>
  \<^verbatim>\<open>src/cosca-path/src/posix.rs\<close>: POSIX paths as byte strings. \<^verbatim>\<open>Path\<close> and \<^verbatim>\<open>PathBuf\<close> are both the bytes, so a
  method that changes a \<^verbatim>\<open>PathBuf\<close> returns the new bytes. \<^verbatim>\<open>debug_assert!\<close> is off, as in a release build.
\<close>

section \<open>Paths\<close>

type_synonym name = bytes
type_synonym path = bytes

definition is_separator :: "u8 \<Rightarrow> bool" where
  "is_separator b \<longleftrightarrow> b = SLASH"

definition has_root :: "path \<Rightarrow> bool" where
  "has_root p = (case p of [] \<Rightarrow> False | b # _ \<Rightarrow> b = SLASH)"

definition relative_bytes :: "path \<Rightarrow> bytes" where
  "relative_bytes p = drop (if has_root p then 1 else 0) p"

definition component :: "bytes \<Rightarrow> name Component" where
  "component piece =
     (if piece = [] then Empty
      else if piece = [DOT] then CurDir
      else if piece = [DOT, DOT] then ParentDir
      else Normal piece)"

definition components :: "path \<Rightarrow> name Component list" where
  "components p = (let rest = relative_bytes p in
     if rest = [] then [] else map component (split_on is_separator rest))"

definition join :: "path \<Rightarrow> path \<Rightarrow> path" where
  "join p rhs =
     (if has_root rhs \<or> p = [] then rhs
      else if rhs \<noteq> [] then (if relative_bytes p \<noteq> [] then p @ [SLASH] else p) @ rhs
      else p)"

definition parent :: "path \<Rightarrow> path option" where
  "parent p = (let root = (if has_root p then 1 else 0); rest = relative_bytes p in
     if rest = [] then None
     else Some (take (case rposition is_separator rest of None \<Rightarrow> root | Some i \<Rightarrow> root + i) p))"

definition file_name :: "path \<Rightarrow> name option" where
  "file_name p = (if components p = [] then None
     else (case last (components p) of Normal n \<Rightarrow> Some n | _ \<Rightarrow> None))"

definition is_absolute :: "path \<Rightarrow> bool" where
  "is_absolute p \<longleftrightarrow> has_root p"

definition is_bare_name :: "path \<Rightarrow> bool" where
  "is_bare_name p \<longleftrightarrow> p \<noteq> [] \<and> SLASH \<notin> set p"

subsection \<open>Lexical normalisation\<close>

definition normal_step :: "bool \<Rightarrow> name Component list \<times> bool \<Rightarrow> name Component \<Rightarrow> name Component list \<times> bool" where
  "normal_step root s c = (case s of (names, trailing) \<Rightarrow> (case c of
      Normal _ \<Rightarrow> (names @ [c], False)
    | Empty \<Rightarrow> (names, names \<noteq> [])
    | CurDir \<Rightarrow> (names, names \<noteq> [])
    | ParentDir \<Rightarrow>
        if names = [] then (if root then (names, trailing) else (names @ [c], False))
        else (case last names of
            Normal _ \<Rightarrow> (butlast names, butlast names \<noteq> [])
          | _ \<Rightarrow> (names @ [c], False))))"

definition normal_text :: "name Component \<Rightarrow> bytes" where
  "normal_text c = (case c of Normal n \<Rightarrow> n | _ \<Rightarrow> [DOT, DOT])"

definition lexically_normal :: "path \<Rightarrow> path" where
  "lexically_normal p =
     (if p = [] then []
      else
        let root = has_root p;
            (names, trailing) = foldl (normal_step root) ([], False) (components p);
            trailing = (if names \<noteq> [] \<and> last names = ParentDir then False else trailing);
            bytes = (if root then [SLASH] else []) @ intercalate SLASH (map normal_text names)
              @ (if trailing then [SLASH] else [])
        in if bytes = [] then [DOT] else bytes)"

subsection \<open>Ordering\<close>

definition cmp :: "path \<Rightarrow> path \<Rightarrow> Ordering" where
  "cmp p q = then_with (cmp_of (has_root p) (has_root q)) (cmp_of (components p) (components q))"

subsection \<open>Owned paths\<close>

definition push :: "path \<Rightarrow> path \<Rightarrow> path" where
  "push p rhs = join p rhs"

definition pop :: "path \<Rightarrow> bool \<times> path" where
  "pop p = (case map_option length (parent p) of
      None \<Rightarrow> (False, p)
    | Some len \<Rightarrow> (True, take len p))"

definition set_file_name :: "path \<Rightarrow> name \<Rightarrow> path" where
  "set_file_name p n =
     (if file_name p = None then push p n
      else take (case rposition is_separator p of None \<Rightarrow> 0 | Some i \<Rightarrow> i + 1) p @ n)"

subsection \<open>Conversion\<close>

text \<open>\<^verbatim>\<open>CString::new\<close> refuses a NUL and reports where the first one is.\<close>

record ConversionError = nul_at :: nat

definition to_cstring :: "path \<Rightarrow> ConversionError + bytes" where
  "to_cstring p = (case position (\<lambda>b. b = 0) p of
      Some i \<Rightarrow> Inl \<lparr>nul_at = i\<rparr>
    | None \<Rightarrow> Inr (p @ [0]))"

section \<open>The root and the components spell the path\<close>

text \<open>What each component is written as.\<close>

definition piece :: "name Component \<Rightarrow> bytes" where
  "piece c = (case c of CurDir \<Rightarrow> [DOT] | ParentDir \<Rightarrow> [DOT, DOT] | Empty \<Rightarrow> [] | Normal n \<Rightarrow> n)"

definition spell :: "bool \<Rightarrow> name Component list \<Rightarrow> path" where
  "spell root cs = (if root then [SLASH] else []) @ intercalate SLASH (map piece cs)"

text \<open>A name that is a component of its own.\<close>

definition valid_name :: "name \<Rightarrow> bool" where
  "valid_name n \<longleftrightarrow> n \<noteq> [] \<and> n \<noteq> [DOT] \<and> n \<noteq> [DOT, DOT] \<and> SLASH \<notin> set n"

definition valid_component :: "name Component \<Rightarrow> bool" where
  "valid_component c = (case c of Normal n \<Rightarrow> valid_name n | _ \<Rightarrow> True)"

definition valid_spelling :: "bool \<Rightarrow> name Component list \<Rightarrow> bool" where
  "valid_spelling root cs \<longleftrightarrow> list_all valid_component cs \<and> cs \<noteq> [Empty]
     \<and> (\<not> root \<and> cs \<noteq> [] \<longrightarrow> hd cs \<noteq> Empty)"

lemma is_separator_eq: "is_separator = (\<lambda>b. b = SLASH)"
  by (simp add: is_separator_def fun_eq_iff)

lemma piece_component [simp]: "piece (component w) = w"
  by (simp add: piece_def component_def)

lemma component_piece [simp]: "valid_component c \<Longrightarrow> component (piece c) = c"
  by (cases c) (auto simp: piece_def component_def valid_component_def valid_name_def)

lemma piece_Nil_iff: "valid_component c \<Longrightarrow> piece c = [] \<longleftrightarrow> c = Empty"
  by (cases c) (auto simp: piece_def valid_component_def valid_name_def)

lemma piece_no_slash: "valid_component c \<Longrightarrow> SLASH \<notin> set (piece c)"
  by (cases c) (auto simp: piece_def valid_component_def valid_name_def)

lemma valid_component_component: "SLASH \<notin> set w \<Longrightarrow> valid_component (component w)"
  by (simp add: component_def valid_component_def valid_name_def)

lemma component_Empty_iff [simp]: "component w = Empty \<longleftrightarrow> w = []"
  by (simp add: component_def)

lemma has_root_simps [simp]: "\<not> has_root []" "has_root (b # p) \<longleftrightarrow> b = SLASH"
  by (simp_all add: has_root_def)

lemma has_root_append: "has_root (p @ q) = (if p = [] then has_root q else has_root p)"
  by (cases p) simp_all

lemma root_and_rest: "(if has_root p then [SLASH] else []) @ relative_bytes p = p"
  by (cases p) (auto simp: relative_bytes_def)

lemma map_piece_components:
  "map piece (components p) = (if relative_bytes p = [] then [] else split_on is_separator (relative_bytes p))"
  by (simp add: components_def Let_def comp_def)

lemma components_valid: "c \<in> set (components p) \<Longrightarrow> valid_component c"
  by (auto simp: components_def Let_def is_separator_eq list_all_iff dest!: split_on_pieces
      intro!: valid_component_component split: if_splits)

lemma spell_components: "spell (has_root p) (components p) = p"
  using root_and_rest [of p] intercalate_split_on [of SLASH "relative_bytes p"]
  by (auto simp: spell_def map_piece_components is_separator_eq split: if_splits)

lemma relative_bytes_not_rooted: "\<not> has_root p \<Longrightarrow> relative_bytes p = p"
  by (simp add: relative_bytes_def)

lemma components_Nil_iff: "components p = [] \<longleftrightarrow> relative_bytes p = []"
  by (simp add: components_def Let_def)

lemma hd_split_on_Nil: "xs \<noteq> [] \<Longrightarrow> hd (split_on P xs) = [] \<longleftrightarrow> P (hd xs)"
  by (cases xs) simp_all

lemma components_not_single_Empty: "components p \<noteq> [Empty]"
proof
  assume "components p = [Empty]"
  then have "split_on is_separator (relative_bytes p) = [[]]" and "relative_bytes p \<noteq> []"
    by (auto simp: components_def Let_def split: if_splits)
  then show False using intercalate_split_on [of SLASH "relative_bytes p"] by (simp add: is_separator_eq)
qed

lemma components_hd_not_Empty:
  assumes "\<not> has_root p" and "components p \<noteq> []"
  shows "hd (components p) \<noteq> Empty"
proof -
  from assms have "components p = map component (split_on is_separator p)" and "p \<noteq> []"
    by (auto simp: components_def Let_def relative_bytes_not_rooted split: if_splits)
  with assms show ?thesis by (cases p) (auto simp: hd_map hd_split_on_Nil is_separator_eq)
qed

lemma valid_spelling_components: "valid_spelling (has_root p) (components p)"
  using components_valid components_not_single_Empty components_hd_not_Empty
  by (auto simp: valid_spelling_def list_all_iff)

lemma intercalate_Nil_iff: "intercalate c ws = [] \<longleftrightarrow> ws = [] \<or> ws = [[]]"
  by (induction c ws rule: intercalate.induct) auto

lemma valid_spelling_not_rooted:
  assumes "valid_spelling False cs"
  shows "\<not> has_root (intercalate SLASH (map piece cs))"
proof (cases cs)
  case (Cons c ds)
  with assms have "piece c \<noteq> []" "SLASH \<notin> set (piece c)"
    using piece_no_slash [of c] piece_Nil_iff [of c] by (auto simp: valid_spelling_def)
  with Cons show ?thesis by (cases "piece c"; cases ds) auto
qed simp

lemma spell_read:
  assumes "valid_spelling root cs"
  shows "has_root (spell root cs) = root \<and> components (spell root cs) = cs"
proof -
  let ?b = "intercalate SLASH (map piece cs)"
  have v: "list_all valid_component cs" "cs \<noteq> [Empty]" using assms by (auto simp: valid_spelling_def)
  have r: "has_root (spell root cs) = root"
    using assms valid_spelling_not_rooted [of cs] by (cases root) (simp_all add: spell_def)
  then have b: "relative_bytes (spell root cs) = ?b" by (simp add: relative_bytes_def spell_def)
  have e: "?b = [] \<longleftrightarrow> cs = []"
    using v piece_Nil_iff by (cases cs) (auto simp: intercalate_Nil_iff)
  have "cs \<noteq> [] \<Longrightarrow> split_on is_separator ?b = map piece cs"
    unfolding is_separator_eq using v piece_no_slash
    by (intro split_on_intercalate) (auto simp: list_all_iff)
  with b e v show ?thesis by (auto simp: r components_def Let_def list_all_iff intro!: map_idI)
qed

text \<open>The root and the components spell the path back exactly, and every well-formed root and component
  list is the parse of its spelling: equality of paths is equality of root and components.\<close>

theorem components_spell_path:
  "has_root p = root \<and> components p = cs \<longleftrightarrow> valid_spelling root cs \<and> spell root cs = p"
  using spell_components valid_spelling_components spell_read by blast

section \<open>The operations on components\<close>

lemma components_join:
  assumes "\<not> has_root q"
  shows "components (join p q) = components p @ components q"
proof (cases "p = [] \<or> q = [] \<or> relative_bytes p = []")
  case True
  with assms show ?thesis
    by (cases p) (auto simp: join_def components_def relative_bytes_def Let_def split: if_splits)
next
  case False
  with assms have "join p q = p @ SLASH # q" by (simp add: join_def)
  moreover have "relative_bytes (p @ SLASH # q) = relative_bytes p @ SLASH # q"
    using False by (simp add: relative_bytes_def has_root_append)
  ultimately show ?thesis
    using False assms by (simp add: components_def Let_def relative_bytes_not_rooted split_on_append_sep is_separator_def)
qed

lemma has_root_join: "has_root (join p q) \<longleftrightarrow> has_root p \<or> has_root q"
  by (auto simp: join_def has_root_append)

lemma join_spell:
  assumes "\<not> has_root q"
  shows "join p q = spell (has_root p) (components p @ components q)"
  using spell_components [of "join p q"] components_join [OF assms, of p] has_root_join [of p q] assms by simp

lemma parent_components:
  assumes "parent p = Some r"
  shows "has_root r = has_root p \<and>
    components r = (if butlast (components p) = [Empty] then [] else butlast (components p))"
proof -
  let ?rest = "relative_bytes p"
  have ne: "?rest \<noteq> []" using assms by (auto simp: parent_def Let_def split: if_splits)
  then have cs: "components p = map component (split_on is_separator ?rest)" by (simp add: components_def Let_def)
  show ?thesis
  proof (cases "rposition is_separator ?rest")
    case None
    with assms ne have r: "r = take (if has_root p then 1 else 0) p" by (auto simp: parent_def Let_def)
    from None have "split_on is_separator ?rest = [?rest]" by (simp add: split_on_rposition)
    with cs r ne show ?thesis by (cases p) (auto simp: components_def relative_bytes_def)
  next
    case (Some i)
    with assms ne have r: "r = take ((if has_root p then 1 else 0) + i) p" by (auto simp: parent_def Let_def split: if_splits)
    have sep: "i < length ?rest" "?rest ! i = SLASH" using Some by (auto simp: rposition_Some_iff is_separator_def)
    have root: "has_root r = has_root p \<and> relative_bytes r = take i ?rest"
    proof (cases p)
      case (Cons b bs)
      with r sep show ?thesis by (cases i) (auto simp: relative_bytes_def)
    qed (use ne in \<open>simp add: relative_bytes_def\<close>)
    have "butlast (components p) = map component (split_on is_separator (take i ?rest))"
      using cs Some by (simp add: split_on_rposition [of _ ?rest])
    moreover have "map component (split_on is_separator (take i ?rest)) = [Empty] \<longleftrightarrow> take i ?rest = []"
      using components_not_single_Empty [of r] root by (auto simp: components_def Let_def split: if_splits)
    ultimately show ?thesis using root by (auto simp: components_def Let_def)
  qed
qed

lemma parent_None_iff: "parent p = None \<longleftrightarrow> components p = []"
  by (simp add: parent_def Let_def components_Nil_iff)

interpretation posix: pure_path components join parent file_name "\<lambda>q. \<not> has_root q" "\<lambda>_. True"
proof unfold_locales
  show "file_name p = (if components p = [] then None else normal_name (last (components p)))" for p
    by (simp add: file_name_def split: Component.splits)
qed (simp_all add: components_join parent_None_iff parent_components)

lemma components_single:
  assumes "SLASH \<notin> set w" and "w \<noteq> []"
  shows "\<not> has_root w" and "components w = [component w]"
proof -
  show r: "\<not> has_root w" using assms by (cases w) auto
  have "split_on is_separator w = [w]" using assms(1) by (intro split_on_no_sep) (auto simp: list_all_iff is_separator_def)
  then show "components w = [component w]" using assms(2) by (simp add: components_def relative_bytes_not_rooted [OF r])
qed

lemma components_after_slash:
  assumes "SLASH \<notin> set w" and "w \<noteq> [] \<or> d \<noteq> []"
  shows "components (d @ SLASH # w) =
    (if d = [] then [] else map component (split_on is_separator (relative_bytes d))) @ [component w]"
proof -
  have w: "split_on is_separator w = [w]" using assms(1) by (intro split_on_no_sep) (auto simp: list_all_iff is_separator_def)
  have "relative_bytes (d @ SLASH # w) = (if d = [] then w else relative_bytes d @ SLASH # w)"
    by (cases d) (simp_all add: relative_bytes_def)
  with w assms(2) show ?thesis by (auto simp: components_def Let_def split_on_append_sep is_separator_def)
qed

lemma set_file_name_components:
  assumes n: "SLASH \<notin> set n" "n \<noteq> []"
  shows "has_root (set_file_name p n) = has_root p \<and> components (set_file_name p n) =
    (if file_name p = None then components p else butlast (components p)) @ [component n]"
proof (cases "file_name p")
  case None
  then show ?thesis
    using components_single [OF n] components_join [of n p] has_root_join [of p n] by (simp add: set_file_name_def push_def)
next
  case (Some m)
  then have last: "components p \<noteq> []" "last (components p) \<noteq> Empty"
    by (auto simp: posix.file_name_last split: if_splits)
  show ?thesis
  proof (cases "rposition is_separator p")
    case None
    then have "SLASH \<notin> set p" "p \<noteq> []" using last(1)
      by (auto simp: rposition_None_iff is_separator_def components_def relative_bytes_def)
    with Some None n show ?thesis by (simp add: set_file_name_def components_single)
  next
    case (Some i)
    then obtain d x zs where p: "p = d @ x # zs" "length d = i" "is_separator x" "\<forall>z\<in>set zs. \<not> is_separator z"
      by (rule rposition_split)
    then have x: "p = d @ SLASH # zs" "SLASH \<notin> set zs" by (auto simp: is_separator_def)
    have new: "set_file_name p n = d @ SLASH # n"
      using \<open>file_name p = Some m\<close> Some p by (simp add: set_file_name_def is_separator_def)
    have "zs \<noteq> [] \<or> d \<noteq> []" using last(1) by (auto simp: x(1) components_def relative_bytes_def)
    then have "components p =
        (if d = [] then [] else map component (split_on is_separator (relative_bytes d))) @ [component zs]"
      unfolding x(1) by (rule components_after_slash [OF x(2)])
    moreover have "components (set_file_name p n) =
        (if d = [] then [] else map component (split_on is_separator (relative_bytes d))) @ [component n]"
      unfolding new using n by (intro components_after_slash) simp_all
    moreover have "has_root (set_file_name p n) = has_root p" unfolding new unfolding x(1) by (simp add: has_root_append)
    ultimately show ?thesis using \<open>file_name p = Some m\<close> by simp
  qed
qed

lemma pop_parent: "pop p = (case parent p of None \<Rightarrow> (False, p) | Some r \<Rightarrow> (True, r))"
  by (auto simp: pop_def parent_def Let_def min_def split: option.splits)

lemma path_eq_iff: "p = q \<longleftrightarrow> has_root p = has_root q \<and> components p = components q"
  using spell_components [of p] spell_components [of q] by auto

text \<open>The join of a path without a root keeps the root and appends the components, a rooted one replaces the
  path; the parent of a join with one name is the path again; and \<open>pop\<close> undoes \<open>push\<close>, up to the one path, \<open>//x\<close>,
  whose parent has no spelling.\<close>

theorem join_then_pop:
  "(has_root q \<longrightarrow> join p q = q) \<and>
   (\<not> has_root q \<longrightarrow> components (join p q) = components p @ components q \<and> (has_root (join p q) \<longleftrightarrow> has_root p)) \<and>
   (\<not> has_root q \<and> length (components q) = 1 \<longrightarrow> pop (push p q) = (True, p) \<and> file_name (push p q) = file_name q)"
proof (intro conjI impI; (elim conjE)?)
  assume q: "\<not> has_root q" and "length (components q) = 1"
  then obtain c where c: "components q = [c]" by (auto simp: length_Suc_conv)
  obtain r where r: "parent (join p q) = Some r" "components r = components p"
    using posix.parent_join [of q c p] q c components_not_single_Empty by auto
  moreover have "has_root r = has_root p" using parent_components [OF r(1)] has_root_join [of p q] q by simp
  ultimately have "r = p" by (simp add: path_eq_iff)
  with r show "pop (push p q) = (True, p)" by (simp add: pop_parent push_def)
  show "file_name (push p q) = file_name q" using posix.file_name_join [of q p] q c by (simp add: push_def)
qed (simp_all add: components_join has_root_join, simp add: join_def)

theorem join_then_pop_witness:
  "pop (push (ascii ''/a/'') (ascii ''b'')) = (True, ascii ''/a/'')"
proof -
  have "\<not> has_root (ascii ''b'') \<and> length (components (ascii ''b'')) = 1" by code_simp
  with join_then_pop [of "ascii ''b''" "ascii ''/a/''"] show ?thesis by blast
qed

section \<open>Ordering\<close>

lemma then_with_cmp_of:
  "then_with (cmp_of a b) (cmp_of c d) = Less \<longleftrightarrow> a < b \<or> a = b \<and> c < d"
  "then_with (cmp_of a b) (cmp_of c d) = Equal \<longleftrightarrow> a = b \<and> c = d"
  by (auto simp: then_with_def cmp_of_def)

interpretation posix_ord: total_comparison cmp
proof unfold_locales
  show "cmp x y = Equal \<longleftrightarrow> x = y" for x y by (simp add: cmp_def then_with_cmp_of path_eq_iff)
  show "cmp y x = reverse (cmp x y)" for x y by (auto simp: cmp_def then_with_def cmp_of_def)
  show "cmp x y = Less \<Longrightarrow> cmp y z = Less \<Longrightarrow> cmp x z = Less" for x y z
    by (auto simp: cmp_def then_with_cmp_of)
qed

section \<open>Lexical normalisation\<close>

text \<open>What a component does to the names kept so far, and the components a normal form has.\<close>

definition walk :: "bool \<Rightarrow> 's Component list \<Rightarrow> 's Component \<Rightarrow> 's Component list" where
  "walk root ns c = (case c of
      Normal _ \<Rightarrow> ns @ [c]
    | ParentDir \<Rightarrow>
        if ns = [] then (if root then [] else [ParentDir])
        else if normal_name (last ns) \<noteq> None then butlast ns
        else ns @ [ParentDir]
    | _ \<Rightarrow> ns)"

definition walks :: "bool \<Rightarrow> 's Component list \<Rightarrow> 's Component list \<Rightarrow> 's Component list" where
  "walks root = foldl (walk root)"

definition ends_open :: "'s Component list \<Rightarrow> 's Component list \<Rightarrow> bool" where
  "ends_open cs ns \<longleftrightarrow> cs \<noteq> [] \<and> normal_name (last cs) = None \<and> ns \<noteq> [] \<and> last ns \<noteq> ParentDir"

definition normal_components :: "bool \<Rightarrow> 's Component list \<Rightarrow> 's Component list" where
  "normal_components root cs = (let ns = walks root [] cs in
     if ns = [] then (if root \<or> cs = [] then [] else [CurDir])
     else ns @ (if ends_open cs ns then [Empty] else []))"

text \<open>A list of kept names: only names after a root, and otherwise only names after the leading \<open>..\<close>.\<close>

definition is_name :: "'s Component \<Rightarrow> bool" where
  "is_name c \<longleftrightarrow> normal_name c \<noteq> None"

definition normal_names :: "bool \<Rightarrow> 's Component list \<Rightarrow> bool" where
  "normal_names root ns \<longleftrightarrow> list_all is_name (if root then ns else dropWhile (\<lambda>c. c = ParentDir) ns)"

lemma walks_simps [simp]:
  "walks root ms [] = ms" "walks root ms (cs @ [c]) = walk root (walks root ms cs) c"
  "walks root ms (cs @ ds) = walks root (walks root ms cs) ds" "walks root ms (c # cs) = walks root (walk root ms c) cs"
  by (simp_all add: walks_def)

lemma walk_simps [simp]:
  "walk root (ns @ [ParentDir]) ParentDir = ns @ [ParentDir, ParentDir]" "walk root ns (Normal n) = ns @ [Normal n]"
  "walk root ns CurDir = ns" "walk root ns Empty = ns"
  "walk root (ns @ [Normal n]) ParentDir = ns" "walk True [] ParentDir = []" "walk False [] ParentDir = [ParentDir]"
  by (simp_all add: walk_def)

lemma is_name_simps [simp]: "is_name (Normal n)" "\<not> is_name ParentDir" "\<not> is_name CurDir" "\<not> is_name Empty"
  by (simp_all add: is_name_def)

lemma normal_names_snoc:
  "normal_names root (ns @ [c]) \<longleftrightarrow> normal_names root ns \<and>
     (is_name c \<or> c = ParentDir \<and> \<not> root \<and> list_all (\<lambda>c. c = ParentDir) ns)"
proof (cases "list_all (\<lambda>c. c = ParentDir) ns")
  case True
  then have "dropWhile (\<lambda>c. c = ParentDir) ns = []" by (simp add: dropWhile_eq_Nil_conv list_all_iff)
  with True show ?thesis
    by (auto simp: normal_names_def dropWhile_append list_all_iff simp del: dropWhile_eq_Nil_conv)
next
  case False
  then show ?thesis by (auto simp: normal_names_def dropWhile_append list_all_iff)
qed

lemma normal_names_cases:
  assumes "normal_names root ns"
  obtains "ns = []" | ms n where "ns = ms @ [Normal n]" | ms where "\<not> root" "ns = ms @ [ParentDir]"
proof (cases ns rule: rev_cases)
  case (snoc ms c)
  with assms have "is_name c \<or> c = ParentDir \<and> \<not> root" by (auto simp: normal_names_snoc)
  with snoc that show ?thesis by (cases c) auto
qed (use that in blast)

lemma walk_ParentDir_all:
  "list_all (\<lambda>c. c = ParentDir) ns \<Longrightarrow> walk False ns ParentDir = ns @ [ParentDir]"
  by (cases ns rule: rev_cases) (simp_all add: walk_def)

lemma normal_names_walk:
  assumes "normal_names root ns"
  shows "normal_names root (walk root ns c)"
proof (cases c)
  case ParentDir
  from assms show ?thesis
  proof (cases rule: normal_names_cases)
    case 1
    then show ?thesis by (simp add: ParentDir walk_def normal_names_def)
  next
    case (2 ms n)
    with assms show ?thesis by (simp add: ParentDir normal_names_snoc)
  next
    case (3 ms)
    with assms have all: "list_all (\<lambda>c. c = ParentDir) ns" by (auto simp: normal_names_snoc)
    with 3(1) have "walk root ns c = ns @ [ParentDir]" by (simp add: ParentDir walk_ParentDir_all)
    with assms all 3(1) show ?thesis by (simp only: normal_names_snoc) simp
  qed
qed (use assms in \<open>simp_all add: normal_names_snoc\<close>)

lemma normal_names_walks: "normal_names root (walks root [] cs)"
proof (induction cs rule: rev_induct)
  case Nil
  then show ?case by (simp add: normal_names_def)
qed (simp add: normal_names_walk)

lemma walks_normal_names: "normal_names root ns \<Longrightarrow> walks root [] ns = ns"
proof (induction ns rule: rev_induct)
  case (snoc c ns)
  then have ns: "walks root [] ns = ns"
    and c: "is_name c \<or> c = ParentDir \<and> \<not> root \<and> list_all (\<lambda>c. c = ParentDir) ns"
    by (simp_all add: normal_names_snoc)
  from c ns show ?case by (cases c; cases root) (simp_all add: walk_ParentDir_all)
qed simp

text \<open>Walking what is left of a relative list has the effect of walking the list.\<close>

lemma walks_walks: "walks root ms (walks False [] ds) = walks root ms ds"
proof (induction ds rule: rev_induct)
  case (snoc c ds)
  show ?case
  proof (cases c)
    case ParentDir
    have "walks root ms (walk False (walks False [] ds) ParentDir) = walk root (walks root ms (walks False [] ds)) ParentDir"
      using normal_names_walks [of False ds]
      by (cases rule: normal_names_cases) simp_all
    with snoc ParentDir show ?thesis by simp
  qed (use snoc in simp_all)
qed simp

lemma walks_normal_components [simp]: "walks root ms (normal_components root' cs) = walks root ms (walks root' [] cs)"
  by (simp add: normal_components_def Let_def)

lemma walks_normal: "walks root [] (walks root [] cs) = walks root [] cs"
  using normal_names_walks walks_normal_names by blast

lemma last_walks_Normal: "walks root ms (cs @ [Normal n]) = walks root ms cs @ [Normal n]"
  by simp

lemma normal_components_Nil [simp]: "normal_components root [] = []"
  by (simp add: normal_components_def)

lemma normal_components_last:
  assumes "cs \<noteq> []" and "walks root [] cs \<noteq> [] \<or> \<not> root"
  shows "normal_components root cs \<noteq> []"
    and "normal_name (last (normal_components root cs)) = None \<longleftrightarrow> normal_name (last cs) = None"
proof -
  show "normal_components root cs \<noteq> []" using assms by (auto simp: normal_components_def Let_def)
  obtain ds c where cs: "cs = ds @ [c]" using assms(1) by (cases cs rule: rev_cases) auto
  show "normal_name (last (normal_components root cs)) = None \<longleftrightarrow> normal_name (last cs) = None"
    using normal_names_walks [of root cs] assms(2) cs
    by (cases rule: normal_names_cases; cases c) (auto simp: normal_components_def ends_open_def)
qed

lemma normal_components_cong:
  assumes "walks root [] cs = walks root [] ds"
    and "cs = [] \<longleftrightarrow> ds = []"
    and "cs \<noteq> [] \<Longrightarrow> normal_name (last cs) = None \<longleftrightarrow> normal_name (last ds) = None"
  shows "normal_components root cs = normal_components root ds"
  using assms by (auto simp: normal_components_def ends_open_def Let_def)

lemma normal_components_idem: "normal_components root (normal_components root cs) = normal_components root cs"
proof (cases "cs = [] \<or> walks root [] cs = [] \<and> root")
  case True
  then show ?thesis by (auto simp: normal_components_def Let_def)
next
  case False
  then show ?thesis
    using normal_components_last [of cs root] by (intro normal_components_cong) (auto simp: walks_normal)
qed

lemma normal_components_append_left:
  "normal_components root (normal_components root cs @ ds) = normal_components root (cs @ ds)"
proof (cases "ds = []")
  case True
  then show ?thesis by (simp add: normal_components_idem)
next
  case False
  then show ?thesis by (intro normal_components_cong) (auto simp: walks_normal)
qed

lemma normal_components_append_right:
  "normal_components root (cs @ normal_components False ds) = normal_components root (cs @ ds)"
proof (cases "ds = []")
  case False
  then show ?thesis
    using normal_components_last [of ds False] by (intro normal_components_cong) (auto simp: walks_walks)
qed simp

subsection \<open>The loop computes the normal components\<close>

lemma normal_step_walk:
  assumes "t \<longrightarrow> ns \<noteq> []" and "normal_step root (ns, t) c = (ns', t')"
  shows "ns' = walk root ns c \<and> (t' \<longrightarrow> ns' \<noteq> []) \<and>
    ((t' \<and> last ns' \<noteq> ParentDir) \<longleftrightarrow> normal_name c = None \<and> ns' \<noteq> [] \<and> last ns' \<noteq> ParentDir)"
proof (cases c)
  case ParentDir
  show ?thesis
  proof (cases "ns = []")
    case False
    with assms ParentDir show ?thesis by (cases "last ns") (auto simp: normal_step_def walk_def)
  qed (use assms ParentDir in \<open>auto simp: normal_step_def walk_def split: if_splits\<close>)
qed (use assms in \<open>auto simp: normal_step_def\<close>)

lemma normal_loop:
  assumes "foldl (normal_step root) ([], False) cs = (ns, t)"
  shows "ns = walks root [] cs \<and> (t \<longrightarrow> ns \<noteq> []) \<and> ((t \<and> last ns \<noteq> ParentDir) \<longleftrightarrow> ends_open cs ns)"
  using assms
proof (induction cs arbitrary: ns t rule: rev_induct)
  case Nil
  then show ?case by (simp add: ends_open_def)
next
  case (snoc c cs)
  obtain ms u where m: "foldl (normal_step root) ([], False) cs = (ms, u)" by fastforce
  with snoc.prems have "normal_step root (ms, u) c = (ns, t)" by simp
  moreover have "u \<longrightarrow> ms \<noteq> []" and "ms = walks root [] cs" using snoc.IH [OF m] by blast+
  ultimately show ?case using normal_step_walk [of u ms root c ns t] by (auto simp: ends_open_def)
qed

lemma normal_text_piece: "is_name c \<or> c = ParentDir \<Longrightarrow> normal_text c = piece c"
  by (cases c) (simp_all add: normal_text_def piece_def)

lemma normal_names_set: "normal_names root ns \<Longrightarrow> c \<in> set ns \<Longrightarrow> is_name c \<or> c = ParentDir"
  by (induction ns rule: rev_induct) (auto simp: normal_names_snoc)

lemma intercalate_snoc_Nil: "ws \<noteq> [] \<Longrightarrow> intercalate c (ws @ [[]]) = intercalate c ws @ [c]"
  by (induction c ws rule: intercalate.induct) simp_all

lemma walks_set: "set (walks root ms cs) \<subseteq> set ms \<union> set cs \<union> {ParentDir}"
proof (induction cs rule: rev_induct)
  case (snoc c cs)
  have "set (walk root ns c) \<subseteq> set ns \<union> {c, ParentDir}" for ns :: "'a Component list"
    by (auto simp: walk_def dest: in_set_butlastD split: Component.splits if_splits)
  with snoc show ?case by fastforce
qed auto

lemma valid_walks: "list_all valid_component cs \<Longrightarrow> list_all valid_component (walks root [] cs)"
  using walks_set [of root "[]" cs] by (auto simp: list_all_iff valid_component_def)

lemma walks_no_Empty: "Empty \<notin> set (walks root [] cs)"
  using normal_names_set [OF normal_names_walks, of Empty root cs] by auto

lemma walks_text_Nil_iff:
  assumes "list_all valid_component cs"
  shows "map piece (walks root [] cs) = [[]] \<longleftrightarrow> False"
  using valid_walks [OF assms, of root] walks_no_Empty [of root cs] piece_Nil_iff by (auto simp: map_eq_Cons_conv)

lemma valid_normal_components:
  assumes "list_all valid_component cs"
  shows "valid_spelling root (normal_components root cs)"
proof -
  let ?ns = "walks root [] cs"
  have v: "list_all valid_component ?ns" using assms by (rule valid_walks)
  have "Empty \<notin> set ?ns" by (rule walks_no_Empty)
  then have "?ns \<noteq> [] \<Longrightarrow> hd ?ns \<noteq> Empty" using hd_in_set by metis
  with v show ?thesis by (auto simp: valid_spelling_def normal_components_def Let_def valid_component_def
    append_eq_Cons_conv)
qed

lemma normal_names_text:
  assumes "normal_names root ns" and "t \<longrightarrow> ns \<noteq> []"
  shows "intercalate SLASH (map normal_text ns) @ (if t then [SLASH] else []) =
    intercalate SLASH (map piece (ns @ (if t then [Empty] else [])))"
proof -
  have "map normal_text ns = map piece ns" using normal_names_set [OF assms(1)] normal_text_piece by simp
  moreover have "piece Empty = []" by (simp add: piece_def)
  ultimately show ?thesis using assms(2) by (simp add: intercalate_snoc_Nil del: map_eq_conv)
qed

lemma lexically_normal_spell: "lexically_normal p = spell (has_root p) (normal_components (has_root p) (components p))"
proof (cases "p = []")
  case True
  then show ?thesis by (simp add: lexically_normal_def spell_def components_def relative_bytes_def)
next
  case False
  let ?root = "has_root p" and ?cs = "components p" and ?ns = "walks (has_root p) [] (components p)"
  obtain ns t where l: "foldl (normal_step ?root) ([], False) ?cs = (ns, t)" by fastforce
  have ns: "ns = ?ns" and opn: "(if ns \<noteq> [] \<and> last ns = ParentDir then False else t) = ends_open ?cs ?ns"
    using normal_loop [OF l] by (auto simp: ends_open_def)
  have cs: "?cs = [] \<Longrightarrow> ?root" using False root_and_rest [of p] by (auto simp: components_Nil_iff split: if_splits)
  let ?text = "(if ?root then [SLASH] else []) @ intercalate SLASH (map piece (?ns @ (if ends_open ?cs ?ns then [Empty] else [])))"
  have "lexically_normal p = (if ?text = [] then [DOT] else ?text)"
    using False normal_names_text [OF normal_names_walks, of "ends_open ?cs ?ns" ?root ?cs]
    by (simp only: lexically_normal_def l ns Let_def prod.case opn [unfolded ns] if_False) (simp add: ends_open_def)
  moreover have "?text = [] \<longleftrightarrow> ?ns = [] \<and> \<not> ?root"
    using walks_text_Nil_iff [of ?cs ?root] components_valid by (auto simp: intercalate_Nil_iff ends_open_def list_all_iff)
  ultimately show ?thesis using cs by (auto simp: spell_def normal_components_def Let_def piece_def ends_open_def)
qed

lemma lexically_normal_read:
  "has_root (lexically_normal p) = has_root p"
  "components (lexically_normal p) = normal_components (has_root p) (components p)"
  using spell_read [OF valid_normal_components, of "components p" "has_root p"] components_valid
  by (simp_all add: lexically_normal_spell list_all_iff)

subsection \<open>Normal paths\<close>

text \<open>What a normal path looks like: it is \<open>.\<close>, or its components are names after any leading \<open>..\<close> (none after a
  root), with one separator at the end only after a name.\<close>

definition normal_shape :: "bool \<Rightarrow> 's Component list \<Rightarrow> bool" where
  "normal_shape root cs \<longleftrightarrow> \<not> root \<and> cs = [CurDir] \<or>
     (if cs \<noteq> [] \<and> last cs = Empty
      then normal_names root (butlast cs) \<and> butlast cs \<noteq> [] \<and> is_name (last (butlast cs))
      else normal_names root cs)"

definition is_normal :: "path \<Rightarrow> bool" where
  "is_normal p \<longleftrightarrow> normal_shape (has_root p) (components p)"

lemma normal_shape_components: "normal_shape root (normal_components root cs)"
proof (cases "walks root [] cs = []")
  case True
  then show ?thesis by (simp add: normal_components_def normal_shape_def normal_names_def)
next
  case False
  have "normal_names root (walks root [] cs)" by (rule normal_names_walks)
  moreover from this have "last (walks root [] cs) \<noteq> ParentDir \<Longrightarrow> is_name (last (walks root [] cs))"
    using False normal_names_set last_in_set by blast
  moreover have "last (walks root [] cs) \<noteq> Empty" using False walks_no_Empty last_in_set by metis
  ultimately show ?thesis using False by (simp add: normal_components_def normal_shape_def Let_def ends_open_def)
qed

lemma normal_shape_fixed:
  assumes "normal_shape root cs"
  shows "normal_components root cs = cs"
proof -
  consider "\<not> root" "cs = [CurDir]"
    | ns where "cs = ns @ [Empty]" "normal_names root ns" "ns \<noteq> []" "is_name (last ns)"
    | "normal_names root cs" "\<not> (cs \<noteq> [] \<and> last cs = Empty)"
    using assms by (cases cs rule: rev_cases) (auto simp: normal_shape_def split: if_splits)
  then show ?thesis
  proof cases
    case (2 ns)
    then have "last ns \<noteq> ParentDir" by auto
    with 2 show ?thesis by (simp add: normal_components_def ends_open_def walks_normal_names)
  next
    case 3
    have "\<not> ends_open cs cs"
      using normal_names_set [OF 3(1), of "last cs"] by (auto simp: ends_open_def is_name_def)
    with 3 show ?thesis by (auto simp: normal_components_def walks_normal_names Let_def normal_names_def)
  qed (simp add: normal_components_def)
qed

text \<open>\<open>lexically_normal\<close> gives a normal path, and it leaves exactly the normal paths unchanged: so
  normalising twice is normalising once, and the root is kept.\<close>

theorem lexically_normal_normal:
  "is_normal (lexically_normal p) \<and> (lexically_normal p = p \<longleftrightarrow> is_normal p) \<and>
   lexically_normal (lexically_normal p) = lexically_normal p \<and> has_root (lexically_normal p) = has_root p"
  using normal_shape_components [of "has_root p" "components p"] normal_shape_fixed [of "has_root p" "components p"]
  by (auto simp: is_normal_def path_eq_iff lexically_normal_read normal_components_idem)

text \<open>Normalisation reads a path as directions: normalising either side of a join first does not change the
  normal form of the join.\<close>

theorem lexically_normal_join:
  "lexically_normal (join (lexically_normal p) q) = lexically_normal (join p q) \<and>
   lexically_normal (join p (lexically_normal q)) = lexically_normal (join p q)"
proof (cases "has_root q")
  case True
  then have "join r q = q" "join r (lexically_normal q) = lexically_normal q" for r
    by (simp_all add: join_def lexically_normal_read)
  then show ?thesis by (simp add: path_eq_iff lexically_normal_read normal_components_idem)
next
  case False
  then have c: "components (join r q) = components r @ components q"
    "components (join r (lexically_normal q)) = components r @ normal_components False (components q)" for r
    by (simp_all add: components_join lexically_normal_read)
  have r: "has_root (join r q) = has_root r" "has_root (join r (lexically_normal q)) = has_root r" for r
    using False by (simp_all add: has_root_join lexically_normal_read)
  show ?thesis
    by (simp add: path_eq_iff lexically_normal_read c r normal_components_append_left normal_components_append_right)
qed

text \<open>A path becomes a C string exactly when it holds no NUL byte, and the C string then ends at the first NUL;
  otherwise the error says where the first NUL is.\<close>

theorem to_cstring_exact:
  "case to_cstring p of
     Inr s \<Rightarrow> 0 \<notin> set p \<and> takeWhile (\<lambda>b. b \<noteq> 0) s = p
   | Inl e \<Rightarrow> nul_at e < length p \<and> p ! nul_at e = 0 \<and> 0 \<notin> set (take (nul_at e) p)"
proof (cases "position (\<lambda>b. b = 0) p")
  case None
  then have "\<forall>b\<in>set p. b \<noteq> 0" by (simp add: position_None_iff)
  with None show ?thesis by (auto simp: to_cstring_def takeWhile_append)
next
  case (Some i)
  then have "i < length p" "p ! i = 0" "0 \<notin> set (take i p)" by (auto simp: position_Some_iff)
  with Some show ?thesis by (simp add: to_cstring_def)
qed

end
