(* ===== verification/Os_Wide.thy ===== *)
theory Os_Wide
  imports Utf8
begin

text \<open>
  \<^verbatim>\<open>src/cosca-path/src/windows/os_str.rs\<close>: Windows strings, UTF-16 that may be ill-formed, stored as WTF-8. A character is its code
  point. The standard library's \<^verbatim>\<open>char::decode_utf16\<close>, \<^verbatim>\<open>char::encode_utf8\<close> and \<^verbatim>\<open>str::encode_utf16\<close> are modelled with it. \<open>None\<close> is
  the panic of an \<^verbatim>\<open>unreachable!\<close>.
\<close>

section \<open>Characters\<close>

definition byte :: "nat \<Rightarrow> u8" where
  "byte n = of_nat n"

definition scalar :: "nat \<Rightarrow> bool" where
  "scalar c \<longleftrightarrow> c < 0x110000 \<and> \<not> (0xD800 \<le> c \<and> c < 0xE000)"

definition encode_utf8 :: "nat \<Rightarrow> bytes" where
  "encode_utf8 c =
     (if c < 0x80 then [byte c]
      else if c < 0x800 then [byte (0xC0 + c div 64), byte (0x80 + c mod 64)]
      else if c < 0x10000 then [byte (0xE0 + c div 4096), byte (0x80 + c div 64 mod 64), byte (0x80 + c mod 64)]
      else [byte (0xF0 + c div 262144), byte (0x80 + c div 4096 mod 64), byte (0x80 + c div 64 mod 64), byte (0x80 + c mod 64)])"

definition char_utf16 :: "nat \<Rightarrow> u16 list" where
  "char_utf16 c =
     (if c < 0x10000 then [of_nat c] else [of_nat (0xD800 + (c - 0x10000) div 0x400), of_nat (0xDC00 + (c - 0x10000) mod 0x400)])"

function encode_utf16 :: "bytes \<Rightarrow> u16 list" where
  "encode_utf16 s = (if s = [] then [] else (case next_char s of (_, n) \<Rightarrow>
     char_utf16 (decode_char (take n s)) @ encode_utf16 (drop n s)))"
  by auto

termination
  by (relation "measure length") (auto, metis diff_less length_greater_0_conv next_char_pos snd_conv)

declare encode_utf16.simps [simp del]

text \<open>\<^verbatim>\<open>char::decode_utf16\<close>: a pair is one character, and a surrogate without its other half is an error.\<close>

definition high_surrogate :: "u16 \<Rightarrow> bool" where
  "high_surrogate u \<longleftrightarrow> 0xD800 \<le> u \<and> u < 0xDC00"

definition low_surrogate :: "u16 \<Rightarrow> bool" where
  "low_surrogate u \<longleftrightarrow> 0xDC00 \<le> u \<and> u < 0xE000"

fun decode_utf16 :: "u16 list \<Rightarrow> (u16 + nat) list" where
  "decode_utf16 [] = []"
| "decode_utf16 [u] = [if high_surrogate u \<or> low_surrogate u then Inl u else Inr (unat u)]"
| "decode_utf16 (u # v # us) =
     (if high_surrogate u \<and> low_surrogate v
        then Inr (0x10000 + (unat u - 0xD800) * 0x400 + (unat v - 0xDC00)) # decode_utf16 us
      else (if high_surrogate u \<or> low_surrogate u then Inl u else Inr (unat u)) # decode_utf16 (v # us))"

section \<open>Strings\<close>

unbundle bit_operations_syntax

definition surrogate_bytes :: "u16 \<Rightarrow> bytes" where
  "surrogate_bytes u = [0xE0 OR ucast (drop_bit 12 u), 0x80 OR ucast (drop_bit 6 u AND 0x3F), 0x80 OR ucast (u AND 0x3F)]"

definition from_wide :: "u16 list \<Rightarrow> bytes" where
  "from_wide units = concat (map (\<lambda>x. case x of Inr c \<Rightarrow> encode_utf8 c | Inl u \<Rightarrow> surrogate_bytes u) (decode_utf16 units))"

definition is_surrogate :: "bytes \<Rightarrow> bool" where
  "is_surrogate b = (case b of b0 # b1 # _ # _ \<Rightarrow> b0 = 0xED \<and> 0xA0 \<le> b1 | _ \<Rightarrow> False)"

definition surrogate_unit :: "u8 \<Rightarrow> u8 \<Rightarrow> u16" where
  "surrogate_unit b1 b2 = 0xD000 OR push_bit 6 (ucast (b1 AND 0x3F)) OR ucast (b2 AND 0x3F)"

text \<open>The first index where a surrogate starts, or the length.\<close>

primrec next_surrogate :: "bytes \<Rightarrow> nat" where
  "next_surrogate [] = 0"
| "next_surrogate (b # r) = (if is_surrogate (b # r) then 0 else Suc (next_surrogate r))"

datatype Chunk = Str bytes | Surrogate u16

function wtf8_chunks :: "bytes \<Rightarrow> Chunk list option" where
  "wtf8_chunks bs =
     (if bs = [] then Some []
      else if is_surrogate bs then map_option ((#) (Surrogate (surrogate_unit (bs ! 1) (bs ! 2)))) (wtf8_chunks (drop 3 bs))
      else
        let n = 1 + next_surrogate (tl bs);
            run = take n bs
        in if utf8_valid run then map_option ((#) (Str run)) (wtf8_chunks (drop n bs)) else None)"
  by auto

termination
  by (relation "measure length") (auto simp: is_surrogate_def split: list.splits)

declare wtf8_chunks.simps [simp del]

definition chunk_units :: "Chunk \<Rightarrow> u16 list" where
  "chunk_units c = (case c of Str s \<Rightarrow> encode_utf16 s | Surrogate u \<Rightarrow> [u])"

definition to_wide :: "bytes \<Rightarrow> u16 list option" where
  "to_wide s = map_option (\<lambda>cs. concat (map chunk_units cs)) (wtf8_chunks s)"

definition to_str :: "bytes \<Rightarrow> bytes option" where
  "to_str s = from_utf8 s"

definition os_to_string_lossy :: "bytes \<Rightarrow> bytes option" where
  "os_to_string_lossy s = (case to_str s of
      Some t \<Rightarrow> Some t
    | None \<Rightarrow> map_option (\<lambda>cs. concat (map (\<lambda>c. case c of Str t \<Rightarrow> t | Surrogate _ \<Rightarrow> REPLACEMENT) cs)) (wtf8_chunks s))"

section \<open>Characters as bytes\<close>

lemma byte_numeral [simp]: "byte (numeral k) = numeral k"
  by (simp add: byte_def)

lemma unat_byte: "n < 256 \<Longrightarrow> unat (byte n) = n"
  by (simp add: byte_def unsigned_of_nat take_bit_nat_eq_self)

lemma byte_less: "m < 256 \<Longrightarrow> n < 256 \<Longrightarrow> byte m < byte n \<longleftrightarrow> m < n"
  by (simp add: word_less_nat_alt unat_byte)

lemma byte_le: "m < 256 \<Longrightarrow> n < 256 \<Longrightarrow> byte m \<le> byte n \<longleftrightarrow> m \<le> n"
  by (simp add: word_le_nat_alt unat_byte)

lemma byte_eq: "m < 256 \<Longrightarrow> n < 256 \<Longrightarrow> byte m = byte n \<longleftrightarrow> m = n"
  by (metis unat_byte)

lemmas byte_numerals =
  byte_less [of _ "0x80", simplified] byte_le [of "0xC2", simplified] byte_le [of _ "0xDF", simplified]
  byte_le [of "0xE0", simplified] byte_le [of _ "0xEF", simplified] byte_le [of "0xF0", simplified] byte_le [of _ "0xF4", simplified]
  byte_eq [of _ "0xE0", simplified] byte_eq [of _ "0xED", simplified] byte_eq [of _ "0xF0", simplified] byte_eq [of _ "0xF4", simplified]
  byte_le [of "0x80", simplified] byte_le [of _ "0xBF", simplified] byte_le [of "0xA0", simplified] byte_le [of _ "0x9F", simplified]
  byte_le [of "0x90", simplified] byte_le [of _ "0x8F", simplified]

lemma cont_byte: "n < 64 \<Longrightarrow> cont (byte (0x80 + n))"
  by (simp add: cont_def byte_numerals)

lemma digits64:
  fixes c :: nat
  shows "c div 64 = c div 4096 * 64 + c div 64 mod 64" "c = c div 4096 * 4096 + c div 64 mod 64 * 64 + c mod 64"
    "c = c div 262144 * 262144 + c div 4096 mod 64 * 4096 + c div 64 mod 64 * 64 + c mod 64"
    "c div 4096 = c div 262144 * 64 + c div 4096 mod 64"
proof -
  have d: "n = n div 64 * 64 + n mod 64" for n :: nat by simp
  have e: "c div 64 div 64 = c div 4096" "c div 4096 div 64 = c div 262144" by (simp_all add: div_mult2_eq [symmetric])
  show a: "c div 64 = c div 4096 * 64 + c div 64 mod 64" using d [of "c div 64"] e(1) by simp
  show b: "c = c div 4096 * 4096 + c div 64 mod 64 * 64 + c mod 64" using a d [of c] by linarith
  show f: "c div 4096 = c div 262144 * 64 + c div 4096 mod 64" using d [of "c div 4096"] e(2) by simp
  show "c = c div 262144 * 262144 + c div 4096 mod 64 * 4096 + c div 64 mod 64 * 64 + c mod 64" using b f by linarith
qed

lemma encode_utf8_cases:
  assumes "scalar c"
  obtains
    "c < 0x80" "encode_utf8 c = [byte c]"
  | "0x80 \<le> c" "c < 0x800" "encode_utf8 c = [byte (0xC0 + c div 64), byte (0x80 + c mod 64)]"
  | "0x800 \<le> c" "c < 0x10000" "encode_utf8 c = [byte (0xE0 + c div 4096), byte (0x80 + c div 64 mod 64), byte (0x80 + c mod 64)]"
  | "0x10000 \<le> c" "c < 0x110000"
      "encode_utf8 c = [byte (0xF0 + c div 262144), byte (0x80 + c div 4096 mod 64), byte (0x80 + c div 64 mod 64), byte (0x80 + c mod 64)]"
  using assms that by (force simp: encode_utf8_def scalar_def)

lemma next_char_encode:
  assumes "scalar c"
  shows "next_char (encode_utf8 c @ r) = (True, length (encode_utf8 c))"
  using assms
proof (cases rule: encode_utf8_cases)
  case 1
  then show ?thesis by (simp add: next_char_def byte_numerals)
next
  case 2
  then have "2 \<le> c div 64" "c div 64 < 32" by auto
  with 2 show ?thesis by (simp add: next_char_def byte_numerals cont_byte)
next
  case 3
  have a: "c div 4096 < 16" using 3 by auto
  have "c div 4096 = 0 \<Longrightarrow> 0x20 \<le> c div 64 mod 64" using 3 by auto
  moreover have "c div 4096 = 13 \<Longrightarrow> c div 64 mod 64 < 0x20"
  proof -
    assume "c div 4096 = 13"
    moreover have "c div 64 < 864" using calculation assms 3 by (auto simp: scalar_def)
    ultimately show ?thesis using digits64(1) [of c] by linarith
  qed
  ultimately have "second3 (byte (0xE0 + c div 4096)) (byte (0x80 + c div 64 mod 64))"
    using a by (auto simp: second3_def byte_numerals cont_byte)
  with 3 a show ?thesis by (simp add: next_char_def byte_numerals cont_byte)
next
  case 4
  have a: "c div 262144 < 5" using 4 by auto
  have "c div 262144 = 0 \<Longrightarrow> 0x10 \<le> c div 4096 mod 64" using 4 by auto
  moreover have "c div 262144 = 4 \<Longrightarrow> c div 4096 mod 64 < 0x10"
  proof -
    assume "c div 262144 = 4"
    moreover have "c div 4096 < 272" using 4 by auto
    ultimately show ?thesis using digits64(4) [of c] by linarith
  qed
  ultimately have "second4 (byte (0xF0 + c div 262144)) (byte (0x80 + c div 4096 mod 64))"
    using a by (auto simp: second4_def byte_numerals cont_byte)
  with 4 a show ?thesis by (simp add: next_char_def byte_numerals cont_byte)
qed

lemma decode_encode:
  assumes "scalar c"
  shows "decode_char (encode_utf8 c) = c"
  using assms
proof (cases rule: encode_utf8_cases)
  case 3
  then have "c div 4096 < 16" by auto
  then have "decode_char (encode_utf8 c) = c div 4096 * 4096 + c div 64 mod 64 * 64 + c mod 64"
    using 3(3) by (simp add: decode_char_def unat_byte)
  then show ?thesis using digits64(2) [of c] by simp
next
  case 4
  then have "c div 262144 < 5" by auto
  then have "decode_char (encode_utf8 c) = c div 262144 * 262144 + c div 4096 mod 64 * 4096 + c div 64 mod 64 * 64 + c mod 64"
    using 4(3) by (simp add: decode_char_def unat_byte)
  then show ?thesis using digits64(3) [of c] by simp
qed (simp_all add: decode_char_def unat_byte)

lemma decode_utf16_wide:
  "concat (map (\<lambda>x. case x of Inr c \<Rightarrow> char_utf16 c | Inl u \<Rightarrow> [u]) (decode_utf16 us)) = us"
proof (induction us rule: decode_utf16.induct)
  case (2 u)
  have "unat u < 65536" using unsigned_less [of u] by simp
  then show ?case by (simp add: char_utf16_def)
next
  case (3 u v us)
  have u: "unat u < 65536" and v: "unat v < 65536" using unsigned_less [of u] unsigned_less [of v] by simp_all
  show ?case
  proof (cases "high_surrogate u \<and> low_surrogate v")
    case True
    then have b: "0xD800 \<le> unat u" "unat u < 0xDC00" "0xDC00 \<le> unat v" "unat v < 0xE000"
      by (auto simp: high_surrogate_def low_surrogate_def word_le_nat_alt word_less_nat_alt)
    define l where "l = unat v - 0xDC00"
    define c where "c = (unat u - 0xD800) * 0x400 + l"
    have "l < 0x400" using b by (simp add: l_def)
    then have "c div 0x400 = unat u - 0xD800" "c mod 0x400 = l" unfolding c_def by simp_all
    with b have "char_utf16 (0x10000 + c) = [u, v]" by (simp add: char_utf16_def l_def)
    with 3(1) True show ?thesis by (simp add: c_def l_def add.assoc)
  next
    case False
    with 3(2) u show ?thesis by (auto simp: char_utf16_def)
  qed
qed simp

definition item_ok :: "u16 + nat \<Rightarrow> bool" where
  "item_ok x = (case x of Inr c \<Rightarrow> scalar c | Inl u \<Rightarrow> high_surrogate u \<or> low_surrogate u)"

lemma unit_scalar: "\<not> high_surrogate u \<Longrightarrow> \<not> low_surrogate u \<Longrightarrow> scalar (unat u)"
proof -
  have "unat u < 65536" using unsigned_less [of u] by simp
  then show "\<not> high_surrogate u \<Longrightarrow> \<not> low_surrogate u \<Longrightarrow> scalar (unat u)"
  by (auto simp: scalar_def high_surrogate_def low_surrogate_def word_le_nat_alt word_less_nat_alt)
qed

lemma decode_utf16_ok: "list_all item_ok (decode_utf16 us)"
proof (induction us rule: decode_utf16.induct)
  case (2 u)
  then show ?case by (simp add: item_ok_def unit_scalar)
next
  case (3 u v us)
  have "scalar (0x10000 + (unat u - 0xD800) * 0x400 + (unat v - 0xDC00))" if "high_surrogate u" "low_surrogate v"
    using that by (auto simp: scalar_def high_surrogate_def low_surrogate_def word_le_nat_alt word_less_nat_alt)
  with 3 show ?case by (simp add: item_ok_def unit_scalar)
qed simp

section \<open>Surrogates as bytes\<close>

lemma surrogate_bits:
  assumes "high_surrogate u \<or> low_surrogate u"
  shows "bit u 11" "bit u 12" "\<not> bit u 13" "bit u 14" "bit u 15"
proof -
  have "unat u div 2048 = 27"
    using assms by (auto simp: high_surrogate_def low_surrogate_def word_le_nat_alt word_less_nat_alt)
  then have "unat (drop_bit 11 u) = 27" by (simp add: drop_bit_eq_div unat_div)
  then have "drop_bit 11 u = (27 :: u16)" by (simp add: word_unat_eq_iff)
  then have b: "bit u (11 + n) = bit (27 :: u16) n" for n by (metis bit_drop_bit_eq comp_apply add.commute)
  show "bit u 11" "bit u 12" "\<not> bit u 13" "bit u 14" "bit u 15"
    using b [of 0] b [of 1] b [of 2] b [of 3] b [of 4] by simp_all
qed

lemma surrogate_bytes_not_Nil [simp]: "surrogate_bytes u \<noteq> []"
  by (simp add: surrogate_bytes_def)

lemma surrogate_bytes_read:
  assumes "high_surrogate u \<or> low_surrogate u"
  shows "is_surrogate (surrogate_bytes u @ r)"
    "surrogate_unit ((surrogate_bytes u @ r) ! 1) ((surrogate_bytes u @ r) ! 2) = u" "drop 3 (surrogate_bytes u @ r) = r"
proof -
  have "\<not> bit u 16" using bit_imp_le_length [of u 16] by auto
  note b = surrogate_bits [OF assms] this
  have "0xE0 OR ucast (drop_bit 12 u) = (0xED :: u8)"
  proof (rule bit_word_eqI)
    fix n assume "n < LENGTH(8)"
    then have "n \<in> {0, 1, 2, 3, 4, 5, 6, 7}" by auto
    with b show "bit (0xE0 OR ucast (drop_bit 12 u) :: u8) n = bit (0xED :: u8) n"
      by (auto simp: bit_or_iff bit_ucast_iff bit_drop_bit_eq)
  qed
  moreover have "0xA0 \<le> (0x80 OR ucast (drop_bit 6 u AND 0x3F) :: u8)"
  proof -
    have e: "0xA0 AND (0x80 OR ucast (drop_bit 6 u AND 0x3F)) = (0xA0 :: u8)"
    proof (rule bit_word_eqI)
      fix n assume "n < LENGTH(8)"
      then have "n \<in> {0, 1, 2, 3, 4, 5, 6, 7}" by auto
      with b show "bit (0xA0 AND (0x80 OR ucast (drop_bit 6 u AND 0x3F)) :: u8) n = bit (0xA0 :: u8) n"
        by (auto simp: bit_or_iff bit_and_iff bit_ucast_iff bit_drop_bit_eq)
    qed
    have "(0xA0 :: u8) AND x \<le> x" for x by (rule word_and_le1)
    with e show ?thesis by metis
  qed
  ultimately show "is_surrogate (surrogate_bytes u @ r)" by (simp add: is_surrogate_def surrogate_bytes_def)
  have "surrogate_unit (0x80 OR ucast (drop_bit 6 u AND 0x3F)) (0x80 OR ucast (u AND 0x3F)) = u"
  proof (rule bit_word_eqI)
    fix n assume "n < LENGTH(16)"
    then have "n < 16" by simp
    then have "n \<in> {0, 1, 2, 3, 4, 5, 6, 7, 8, 9, 10, 11, 12, 13, 14, 15}" unfolding insert_iff empty_iff by arith
    then show "bit (surrogate_unit (0x80 OR ucast (drop_bit 6 u AND 0x3F)) (0x80 OR ucast (u AND 0x3F))) n = bit u n"
      unfolding surrogate_unit_def
      by (elim insertE emptyE; simp add: b bit_or_iff bit_and_iff bit_ucast_iff bit_drop_bit_eq bit_push_bit_iff)
  qed
  then show "surrogate_unit ((surrogate_bytes u @ r) ! 1) ((surrogate_bytes u @ r) ! 2) = u" by (simp add: surrogate_bytes_def numeral_2_eq_2)
  show "drop 3 (surrogate_bytes u @ r) = r" by (simp add: surrogate_bytes_def numeral_3_eq_3)
qed

section \<open>Reading back what was stored\<close>

abbreviation item_bytes :: "u16 + nat \<Rightarrow> bytes" where
  "item_bytes x \<equiv> (case x of Inr c \<Rightarrow> encode_utf8 c | Inl u \<Rightarrow> surrogate_bytes u)"

abbreviation item_units :: "u16 + nat \<Rightarrow> u16 list" where
  "item_units x \<equiv> (case x of Inr c \<Rightarrow> char_utf16 c | Inl u \<Rightarrow> [u])"

lemma encode_utf8_not_Nil [simp]: "encode_utf8 c \<noteq> []"
  by (simp add: encode_utf8_def)

text \<open>No surrogate starts within a character.\<close>

lemma char_no_surrogate:
  assumes "scalar c" and "i < length (encode_utf8 c)"
  shows "\<not> is_surrogate (drop i (encode_utf8 c @ t))"
proof -
  have s: "is_surrogate (b # r) \<Longrightarrow> b = 0xED" for b r by (auto simp: is_surrogate_def split: list.splits)
  have k: "\<not> is_surrogate (byte (0x80 + n mod 64) # r)" for n r using s [of "byte (0x80 + n mod 64)" r] by (auto simp: byte_numerals)
  from assms(1) show ?thesis
  proof (cases rule: encode_utf8_cases)
    case 1
    then have "byte c \<noteq> 0xED" by (simp add: byte_numerals)
    with 1 assms(2) s show ?thesis by auto
  next
    case 2
    then have "byte (0xC0 + c div 64) \<noteq> 0xED" by (auto simp: byte_numerals)
    with 2 assms(2) s k show ?thesis by (auto simp: less_Suc_eq)
  next
    case 3
    have "\<not> is_surrogate (encode_utf8 c @ t)"
    proof
      assume "is_surrogate (encode_utf8 c @ t)"
      with 3 have "byte (0xE0 + c div 4096) = 0xED" "0xA0 \<le> byte (0x80 + c div 64 mod 64)" by (auto simp: is_surrogate_def)
      with 3 have "c div 4096 = 13" "32 \<le> c div 64 mod 64" by (auto simp: byte_numerals)
      with digits64(2) [of c] assms(1) 3 show False by (auto simp: scalar_def)
    qed
    with 3 assms(2) s k show ?thesis by (auto simp: less_Suc_eq)
  next
    case 4
    then have "byte (0xF0 + c div 262144) \<noteq> 0xED" by (auto simp: byte_numerals)
    with 4 assms(2) s k show ?thesis by (auto simp: less_Suc_eq)
  qed
qed

lemma next_surrogate_skip:
  "(\<And>i. i < length a \<Longrightarrow> \<not> is_surrogate (drop i (a @ t))) \<Longrightarrow> next_surrogate (a @ t) = length a + next_surrogate t"
proof (induction a)
  case (Cons b a)
  have "\<not> is_surrogate (b # a @ t)" using Cons.prems [of 0] by simp
  moreover have "\<not> is_surrogate (drop i (a @ t))" if "i < length a" for i using Cons.prems [of "Suc i"] that by simp
  ultimately show ?case using Cons.IH by simp
qed simp

lemma chars_no_surrogate:
  assumes "list_all scalar cs"
  shows "i < length (concat (map encode_utf8 cs)) \<Longrightarrow> \<not> is_surrogate (drop i (concat (map encode_utf8 cs) @ t))"
  using assms
proof (induction cs arbitrary: i)
  case (Cons c cs)
  show ?case
  proof (cases "i < length (encode_utf8 c)")
    case True
    with char_no_surrogate [of c i "concat (map encode_utf8 cs) @ t"] Cons.prems show ?thesis by simp
  next
    case False
    with Cons.IH [of "i - length (encode_utf8 c)"] Cons.prems show ?thesis by simp
  qed
qed simp

lemma chars_utf8:
  assumes "list_all scalar cs"
  shows "utf8_valid (concat (map encode_utf8 cs)) \<and> encode_utf16 (concat (map encode_utf8 cs)) = concat (map char_utf16 cs)"
  using assms
proof (induction cs)
  case (Cons c cs)
  let ?r = "concat (map encode_utf8 cs)"
  have n: "next_char (encode_utf8 c @ ?r) = (True, length (encode_utf8 c))" using next_char_encode Cons.prems by simp
  have "decode_char (encode_utf8 c) = c" using decode_encode Cons.prems by simp
  with Cons n show ?case by (simp add: utf8_valid.simps [of "encode_utf8 c @ ?r"] encode_utf16.simps [of "encode_utf8 c @ ?r"])
qed (simp add: encode_utf16.simps)

lemma leading_chars:
  assumes "list_all item_ok xs"
  obtains cs ys where "xs = map Inr cs @ ys" "list_all scalar cs" "list_all item_ok ys" "ys = [] \<or> (\<exists>u zs. ys = Inl u # zs)"
  using assms
proof (induction xs arbitrary: thesis)
  case Nil
  from Nil(1) [of "[]" "[]"] show ?case by simp
next
  case (Cons x xs)
  show ?case
  proof (cases x)
    case (Inl u)
    with Cons(2) [of "[]" "x # xs"] Cons(3) show ?thesis by simp
  next
    case (Inr c)
    from Cons(3) have "list_all item_ok xs" by simp
    with Cons(1) obtain cs ys where "xs = map Inr cs @ ys" "list_all scalar cs" "list_all item_ok ys" "ys = [] \<or> (\<exists>u zs. ys = Inl u # zs)"
      by blast
    with Inr Cons(2) [of "c # cs" ys] Cons(3) show ?thesis by (simp add: item_ok_def)
  qed
qed

lemma items_to_wide:
  assumes "list_all item_ok xs"
  shows "to_wide (concat (map item_bytes xs)) = Some (concat (map item_units xs))"
  using assms
proof (induction "length xs" arbitrary: xs rule: less_induct)
  case less
  show ?case
  proof (cases xs)
    case Nil
    then show ?thesis by (simp add: to_wide_def wtf8_chunks.simps)
  next
    case (Cons x zs)
    show ?thesis
    proof (cases x)
      case (Inl u)
      let ?b = "surrogate_bytes u @ concat (map item_bytes zs)"
      from less.prems Cons Inl have u: "high_surrogate u \<or> low_surrogate u" and z: "list_all item_ok zs" by (simp_all add: item_ok_def)
      have ih: "to_wide (concat (map item_bytes zs)) = Some (concat (map item_units zs))" using less.hyps z Cons by simp
      have "wtf8_chunks ?b = map_option ((#) (Surrogate u)) (wtf8_chunks (concat (map item_bytes zs)))"
        using surrogate_bytes_read [OF u, of "concat (map item_bytes zs)"] by (subst wtf8_chunks.simps) simp
      then have "to_wide ?b = map_option ((#) u) (to_wide (concat (map item_bytes zs)))"
        by (simp add: to_wide_def option.map_comp comp_def chunk_units_def)
      with ih Cons Inl show ?thesis by simp
    next
      case (Inr c)
      from less.prems obtain cs ys where x: "xs = map Inr cs @ ys" "list_all scalar cs" "list_all item_ok ys"
        "ys = [] \<or> (\<exists>u zs. ys = Inl u # zs)" by (rule leading_chars)
      with Cons Inr obtain ds where cs: "cs = c # ds" by (cases cs) auto
      let ?run = "concat (map encode_utf8 cs)" and ?t = "concat (map item_bytes ys)"
      let ?b = "?run @ ?t"
      have b: "concat (map item_bytes xs) = ?b" "concat (map item_units xs) = concat (map char_utf16 cs) @ concat (map item_units ys)"
        by (simp_all add: x(1) comp_def)
      have ne: "?run \<noteq> []" by (simp add: cs)
      have "next_surrogate ?t = 0"
        using x(3,4) surrogate_bytes_read(1) by (auto simp: item_ok_def surrogate_bytes_def)
      then have ns: "next_surrogate ?b = length ?run" using next_surrogate_skip [of ?run ?t] chars_no_surrogate [OF x(2)] by simp
      have s: "\<not> is_surrogate ?b" using chars_no_surrogate [OF x(2), of 0] ne by (simp del: concat.simps)
      then have "1 + next_surrogate (tl ?b) = length ?run" using ns ne by (cases ?b) auto
      then have "wtf8_chunks ?b = map_option ((#) (Str ?run)) (wtf8_chunks ?t)"
        using s ne chars_utf8 [OF x(2)] by (subst wtf8_chunks.simps) (simp add: Let_def)
      then have "to_wide ?b = map_option ((@) (encode_utf16 ?run)) (to_wide ?t)"
        by (simp add: to_wide_def option.map_comp comp_def chunk_units_def)
      moreover have "to_wide ?t = Some (concat (map item_units ys))" using less.hyps [OF _ x(3)] by (simp add: x(1) cs)
      ultimately show ?thesis using chars_utf8 [OF x(2)] by (simp add: b)
    qed
  qed
qed

text \<open>A Windows string survives its storage: every sequence of UTF-16 units, surrogates without their other half
  included, reads back unit for unit, and the conversion never fails; so distinct strings are stored differently.\<close>

theorem wide_round_trip: "to_wide (from_wide units) = Some units"
  using items_to_wide [OF decode_utf16_ok, of units] by (simp add: from_wide_def decode_utf16_wide)

end
