(* ===== verification/Path_Windows.thy ===== *)
theory Path_Windows
  imports Os_Wide Path_Pure "HOL-Library.Sublist"
begin

text \<open>
  \<^verbatim>\<open>src/cosca-path/src/windows.rs\<close>: Windows paths, stored as WTF-8 bytes without a verbatim prefix. \<^verbatim>\<open>Path\<close> and \<^verbatim>\<open>PathBuf\<close> are both
  the bytes. An \<open>OsStr\<close> is its bytes too; only the unit of a drive is read as UTF-16. \<^verbatim>\<open>debug_assert!\<close> is off.
\<close>

section \<open>Anchors\<close>

abbreviation BACKSLASH :: u8 where "BACKSLASH \<equiv> 0x5C"
abbreviation COLON :: u8 where "COLON \<equiv> 0x3A"
abbreviation QUESTION :: u8 where "QUESTION \<equiv> 0x3F"

definition VERBATIM :: bytes where
  "VERBATIM = [BACKSLASH, BACKSLASH, QUESTION, BACKSLASH]"

datatype Anchor = NoAnchor | Rooted | Drive u16 bool | Unc bytes bytes | Device bytes

definition is_verbatim_spelling :: "bytes \<Rightarrow> bool" where
  "is_verbatim_spelling s \<longleftrightarrow> prefix VERBATIM s"

definition is_separator :: "u8 \<Rightarrow> bool" where
  "is_separator b \<longleftrightarrow> b = BACKSLASH \<or> b = SLASH"

definition next_separator :: "bytes \<Rightarrow> nat \<Rightarrow> nat" where
  "next_separator p start = (case position is_separator (drop start p) of None \<Rightarrow> length p | Some i \<Rightarrow> start + i)"

text \<open>The bytes a character of one UTF-16 unit has, by its first byte; a character of two units has none here.\<close>

definition unit_len :: "u8 \<Rightarrow> nat option" where
  "unit_len b = (if b < 0x80 then Some 1 else if 0xF0 \<le> b then None else if 0xE0 \<le> b then Some 3 else Some 2)"

definition drive_len :: "bytes \<Rightarrow> nat option" where
  "drive_len p = (case p of
      [] \<Rightarrow> None
    | b # _ \<Rightarrow> (case unit_len b of
          None \<Rightarrow> None
        | Some u \<Rightarrow> if u < length p \<and> p ! u = COLON then Some (u + 1) else None))"

definition reads_as_drive :: "bytes \<Rightarrow> bool" where
  "reads_as_drive name \<longleftrightarrow> drive_len name \<noteq> None"

record Parts =
  pt_anchor :: Anchor
  pt_head :: nat
  pt_root :: bool
  pt_open :: bool
  pt_loose_root :: "nat option"

definition parts_start :: "Parts \<Rightarrow> nat" where
  "parts_start pt = pt_head pt + (if pt_root pt then 1 else 0)"

definition unfinished :: "Parts \<Rightarrow> bool option" where
  "unfinished pt = (case pt_anchor pt of
      Unc _ share \<Rightarrow> if share = [] then Some (pt_open pt) else None
    | Device name \<Rightarrow> if name = [] then Some (pt_open pt) else None
    | _ \<Rightarrow> None)"

definition sep_at :: "bytes \<Rightarrow> nat \<Rightarrow> bool" where
  "sep_at p i \<longleftrightarrow> i < length p \<and> is_separator (p ! i)"

definition slice :: "bytes \<Rightarrow> nat \<Rightarrow> nat \<Rightarrow> bytes" where
  "slice p i j = drop i (take j p)"

definition is_dots :: "bytes \<Rightarrow> bool" where
  "is_dots name \<longleftrightarrow> name = [] \<or> name = [DOT] \<or> name = [DOT, DOT]"

function loose_loop :: "bytes \<Rightarrow> nat \<Rightarrow> (bytes \<Rightarrow> Anchor) \<Rightarrow> nat \<Rightarrow> Parts" where
  "loose_loop p root anchor start = (
     let stop = next_separator p start;
         name = slice p start stop
     in if \<not> is_dots name then
          \<lparr>pt_anchor = anchor name, pt_head = stop, pt_root = stop < length p, pt_open = False, pt_loose_root = Some root\<rparr>
        else if stop = length p then
          \<lparr>pt_anchor = anchor [], pt_head = stop, pt_root = False, pt_open = is_separator (p ! (stop - 1)), pt_loose_root = Some root\<rparr>
        else loose_loop p root anchor (stop + 1))"
  by auto

termination
  by (relation "measure (\<lambda>(p, _, _, start). length p - start)")
    (auto simp: next_separator_def position_Some_iff split: option.splits)

declare loose_loop.simps [simp del]

definition loose_parts :: "bytes \<Rightarrow> nat \<Rightarrow> (bytes \<Rightarrow> Anchor) \<Rightarrow> Parts" where
  "loose_parts p root anchor = loose_loop p root anchor root"

definition plain_parts :: "Anchor \<Rightarrow> nat \<Rightarrow> bool \<Rightarrow> Parts" where
  "plain_parts anchor head root = \<lparr>pt_anchor = anchor, pt_head = head, pt_root = root, pt_open = False, pt_loose_root = None\<rparr>"

text \<open>\<^verbatim>\<open>text(0..len - 1).to_wide()[0]\<close>: a path is WTF-8, so that its first character has its one unit.\<close>

definition first_unit :: "bytes \<Rightarrow> u16" where
  "first_unit s = (case to_wide s of Some (u # _) \<Rightarrow> u | _ \<Rightarrow> 0)"

definition unc_parts :: "bytes \<Rightarrow> Parts" where
  "unc_parts p = (
     let server_end = next_separator p 2;
         server = slice p 2 server_end
     in if \<not> sep_at p server_end then plain_parts (Unc server []) server_end False
        else if sep_at p (server_end + 1) \<or> server_end + 1 = length p then loose_parts p (server_end + 1) (Unc server)
        else
          let share_end = next_separator p (server_end + 1)
          in plain_parts (Unc server (slice p (server_end + 1) share_end)) share_end (sep_at p share_end))"

definition parts :: "bytes \<Rightarrow> Parts" where
  "parts p =
     (if sep_at p 0 then
        if \<not> sep_at p 1 then plain_parts Rooted 0 True
        else if 2 < length p \<and> (p ! 2 = DOT \<or> p ! 2 = QUESTION) \<and> length p = 3 then plain_parts (Device []) 3 False
        else if 2 < length p \<and> (p ! 2 = DOT \<or> p ! 2 = QUESTION) \<and> sep_at p 3 then loose_parts p 4 Device
        else unc_parts p
      else (case drive_len p of
          Some len \<Rightarrow> plain_parts (Drive (first_unit (take (len - 1) p)) (sep_at p len)) len (sep_at p len)
        | None \<Rightarrow> plain_parts NoAnchor 0 False))"

section \<open>Paths\<close>

definition anchor_of :: "bytes \<Rightarrow> Anchor" where
  "anchor_of p = pt_anchor (parts p)"

definition start :: "bytes \<Rightarrow> nat" where
  "start p = parts_start (parts p)"

definition drive_of :: "bytes \<Rightarrow> u16 option" where
  "drive_of p = (case anchor_of p of Drive d _ \<Rightarrow> Some d | _ \<Rightarrow> None)"

definition is_fully_qualified :: "bytes \<Rightarrow> bool" where
  "is_fully_qualified p = (case anchor_of p of
      Drive _ rooted \<Rightarrow> rooted
    | Unc server share \<Rightarrow> server \<noteq> [] \<and> share \<noteq> []
    | Device _ \<Rightarrow> 3 < length p
    | _ \<Rightarrow> False)"

definition is_drive_relative :: "bytes \<Rightarrow> bool" where
  "is_drive_relative p = (case anchor_of p of Drive _ rooted \<Rightarrow> \<not> rooted | _ \<Rightarrow> False)"

definition is_rooted :: "bytes \<Rightarrow> bool" where
  "is_rooted p \<longleftrightarrow> anchor_of p = Rooted"

record UncParts =
  unc_server :: bytes
  unc_share :: bytes
  unc_rest :: bytes

definition as_unc :: "bytes \<Rightarrow> UncParts option" where
  "as_unc p = (case anchor_of p of
      Unc server share \<Rightarrow>
        let head = pt_head (parts p);
            separators = length (takeWhile is_separator (drop head p))
        in Some \<lparr>unc_server = server, unc_share = share, unc_rest = drop (head + (separators - 1)) p\<rparr>
    | _ \<Rightarrow> None)"

definition loose_name_start :: "bytes \<Rightarrow> nat option" where
  "loose_name_start p = (case pt_loose_root (parts p) of
      None \<Rightarrow> None
    | Some _ \<Rightarrow> (case anchor_of p of
          Device name \<Rightarrow> Some (pt_head (parts p) - length name)
        | Unc _ name \<Rightarrow> Some (pt_head (parts p) - length name)
        | _ \<Rightarrow> None))"

definition component :: "bytes \<Rightarrow> bytes Component" where
  "component piece =
     (if piece = [] then Empty
      else if piece = [DOT] then CurDir
      else if piece = [DOT, DOT] then ParentDir
      else Normal piece)"

definition components :: "bytes \<Rightarrow> bytes Component list" where
  "components p = (let rest = drop (start p) p in if rest = [] then [] else map component (split_on is_separator rest))"

definition component_text :: "bytes Component \<Rightarrow> bytes" where
  "component_text c = (case c of CurDir \<Rightarrow> [DOT] | ParentDir \<Rightarrow> [DOT, DOT] | Empty \<Rightarrow> [] | Normal name \<Rightarrow> name)"

definition has_navigated_name :: "bytes \<Rightarrow> bool" where
  "has_navigated_name p = (
     let skipped = (case pt_loose_root (parts p) of None \<Rightarrow> False | Some root \<Rightarrow> loose_name_start p \<noteq> Some root);
         cs = components p;
         last = length cs - 1
     in skipped \<or> list_ex (\<lambda>(i, c). case c of
          CurDir \<Rightarrow> True | ParentDir \<Rightarrow> True | Empty \<Rightarrow> i \<noteq> last | Normal _ \<Rightarrow> False) (List.enumerate 0 cs))"

definition needs_separator_to_append :: "bytes \<Rightarrow> bool" where
  "needs_separator_to_append p = (
     let pt = parts p;
         has_components = parts_start pt < length p
     in has_components \<or> (case unfinished pt of
          Some has_separator \<Rightarrow> \<not> has_separator
        | None \<Rightarrow> \<not> (pt_root pt \<or> (case pt_anchor pt of Drive _ _ \<Rightarrow> True | NoAnchor \<Rightarrow> True | _ \<Rightarrow> False))))"

definition respell_verbatim :: "bytes \<Rightarrow> bytes" where
  "respell_verbatim p = (if prefix VERBATIM p then p[3 := SLASH] else p)"

definition append_relative :: "bytes \<Rightarrow> bytes \<Rightarrow> bytes" where
  "append_relative p rest =
     (if rest = [] then p
      else respell_verbatim ((if needs_separator_to_append p \<and> p \<noteq> [] then p @ [BACKSLASH] else p) @ rest))"

definition join :: "bytes \<Rightarrow> bytes \<Rightarrow> bytes" where
  "join p rhs = (case anchor_of rhs of
      NoAnchor \<Rightarrow> append_relative p rhs
    | Rooted \<Rightarrow> (
        let lhs = parts p
        in if (case pt_anchor lhs of Drive _ _ \<Rightarrow> False | Unc _ _ \<Rightarrow> False | Device _ \<Rightarrow> False | _ \<Rightarrow> True) then rhs
           else
             let head = pt_head lhs - (if unfinished lhs = Some True then 1 else 0)
             in respell_verbatim (take head p @ rhs))
    | _ \<Rightarrow> rhs)"

definition parent :: "bytes \<Rightarrow> bytes option" where
  "parent p = (let s = start p; rest = drop s p in
     if rest = [] then None
     else Some (take (case rposition is_separator rest of None \<Rightarrow> s | Some i \<Rightarrow> s + i) p))"

definition file_name :: "bytes \<Rightarrow> bytes option" where
  "file_name p = (if components p = [] then None
     else (case last (components p) of Normal n \<Rightarrow> Some n | _ \<Rightarrow> None))"

definition is_absolute :: "bytes \<Rightarrow> bool" where
  "is_absolute p \<longleftrightarrow> is_fully_qualified p"

definition is_bare_name :: "bytes \<Rightarrow> bool" where
  "is_bare_name p \<longleftrightarrow> p \<noteq> [] \<and> \<not> list_ex is_separator p \<and> anchor_of p = NoAnchor"

subsection \<open>Lexical normalisation\<close>

definition normal_step :: "bool \<Rightarrow> bytes Component list \<times> bool \<Rightarrow> bytes Component \<Rightarrow> bytes Component list \<times> bool" where
  "normal_step root s c = (case s of (names, trailing) \<Rightarrow> (case c of
      Normal _ \<Rightarrow> (names @ [c], False)
    | Empty \<Rightarrow> (names, names \<noteq> [] \<or> \<not> root)
    | CurDir \<Rightarrow> (names, False)
    | ParentDir \<Rightarrow>
        if names = [] then (if root then (names, False) else (names @ [c], False))
        else (case last names of
            Normal _ \<Rightarrow> (butlast names, False)
          | _ \<Rightarrow> (names @ [c], False))))"

definition lexically_normal :: "bytes \<Rightarrow> bytes" where
  "lexically_normal p =
     (if p = [] then []
      else
        let pt = parts p;
            (pre, root, pieces) = (case pt_loose_root pt of
                Some len \<Rightarrow> (len, True, map component (split_on is_separator (drop len p)))
              | None \<Rightarrow> (parts_start pt, pt_root pt, components p));
            share_separator = (pt_loose_root pt = None \<and> pt_root pt \<and> (case pt_anchor pt of Unc _ _ \<Rightarrow> True | _ \<Rightarrow> False));
            (names, trailing) = foldl (normal_step root) ([], False) pieces;
            out = take pre p;
            out = (if share_separator \<and> names = [] \<and> \<not> is_separator (last p) then butlast out else out);
            out = (if pt_anchor pt = NoAnchor \<and> names \<noteq> [] \<and> reads_as_drive (component_text (hd names))
                   then out @ [DOT, BACKSLASH] else out);
            out = out @ intercalate BACKSLASH (map component_text names);
            out = (if trailing then (if names = [] then out @ [DOT] else out) @ [BACKSLASH] else out)
        in if out = [] then [DOT] else out)"

subsection \<open>Comparison\<close>

definition fold_separator :: "u8 \<Rightarrow> u8" where
  "fold_separator b = (if b = SLASH then BACKSLASH else b)"

definition path_eq :: "bytes \<Rightarrow> bytes \<Rightarrow> bool" where
  "path_eq p q \<longleftrightarrow> length p = length q \<and> map fold_separator p = map fold_separator q"

text \<open>\<^verbatim>\<open>#[derive(PartialOrd, Ord)]\<close> of \<^verbatim>\<open>Anchor\<close>: by variant as declared, then by its fields in order.\<close>

instantiation Anchor :: linorder
begin

fun less_eq_Anchor :: "Anchor \<Rightarrow> Anchor \<Rightarrow> bool" where
  "less_eq_Anchor NoAnchor _ = True"
| "less_eq_Anchor _ NoAnchor = False"
| "less_eq_Anchor Rooted _ = True"
| "less_eq_Anchor _ Rooted = False"
| "less_eq_Anchor (Drive d r) (Drive d' r') = (d < d' \<or> d = d' \<and> r \<le> r')"
| "less_eq_Anchor (Drive _ _) _ = True"
| "less_eq_Anchor _ (Drive _ _) = False"
| "less_eq_Anchor (Unc a b) (Unc a' b') = (a < a' \<or> a = a' \<and> b \<le> b')"
| "less_eq_Anchor (Unc _ _) _ = True"
| "less_eq_Anchor _ (Unc _ _) = False"
| "less_eq_Anchor (Device a) (Device a') = (a \<le> a')"

definition less_Anchor :: "Anchor \<Rightarrow> Anchor \<Rightarrow> bool" where
  "less_Anchor x y = (x \<le> y \<and> \<not> y \<le> x)"

instance
proof
  fix x y z :: Anchor
  show "(x < y) = (x \<le> y \<and> \<not> y \<le> x)" by (simp add: less_Anchor_def)
  show "x \<le> x" by (cases x) simp_all
  show "x \<le> y \<Longrightarrow> y \<le> z \<Longrightarrow> x \<le> z" by (cases x; cases y; simp; cases z) auto
  show "x \<le> y \<Longrightarrow> y \<le> x \<Longrightarrow> x = y" by (cases x; cases y) auto
  show "x \<le> y \<or> y \<le> x" by (cases x; cases y) auto
qed

end

definition cmp :: "bytes \<Rightarrow> bytes \<Rightarrow> Ordering" where
  "cmp p q = then_with (then_with (cmp_of (anchor_of p) (anchor_of q)) (cmp_of (components p) (components q)))
     (cmp_of (map fold_separator p) (map fold_separator q))"

subsection \<open>Owned paths\<close>

datatype ParseError = SlashInVerbatim | UnspellableUncServer | DotOrEmptyNameInVerbatim

definition verbatim_is_drive :: "bytes \<Rightarrow> bool" where
  "verbatim_is_drive rest \<longleftrightarrow> take 1 rest \<noteq> [BACKSLASH]
     \<and> (case drive_len rest of None \<Rightarrow> False | Some len \<Rightarrow> len < length rest \<and> rest ! len = BACKSLASH)"

definition verbatim_is_unc :: "bytes \<Rightarrow> bool" where
  "verbatim_is_unc rest \<longleftrightarrow> 4 \<le> length rest \<and> eq_ignore_ascii_case (take 3 rest) (ascii ''UNC'') \<and> rest ! 3 = BACKSLASH"

definition verbatim_plain :: "bytes \<Rightarrow> ParseError + bytes" where
  "verbatim_plain rest =
     (if verbatim_is_drive rest then Inr rest
      else if verbatim_is_unc rest then
        let unc = drop 4 rest;
            server = take (next_separator unc 0) unc
        in if server \<in> {[DOT], [QUESTION]} then Inl UnspellableUncServer else Inr ([BACKSLASH, BACKSLASH] @ unc)
      else Inr ([BACKSLASH, BACKSLASH, DOT, BACKSLASH] @ rest))"

definition parse :: "bytes \<Rightarrow> ParseError + bytes" where
  "parse s =
     (if \<not> prefix VERBATIM s then Inr s
      else
        let rest = drop 4 s
        in if SLASH \<in> set rest then Inl SlashInVerbatim
           else (case verbatim_plain rest of
               Inl e \<Rightarrow> Inl e
             | Inr plain \<Rightarrow> if has_navigated_name plain then Inl DotOrEmptyNameInVerbatim else Inr plain))"

definition path_from_wide :: "u16 list \<Rightarrow> ParseError + bytes" where
  "path_from_wide units = parse (from_wide units)"

definition push :: "bytes \<Rightarrow> bytes \<Rightarrow> bytes" where
  "push p rhs = join p rhs"

definition pop :: "bytes \<Rightarrow> bool \<times> bytes" where
  "pop p = (case map_option length (parent p) of
      None \<Rightarrow> (False, p)
    | Some len \<Rightarrow> (True, take len p))"

definition set_file_name :: "bytes \<Rightarrow> bytes \<Rightarrow> bytes" where
  "set_file_name p name = (
     let replaced = (file_name p \<noteq> None);
         s = start p;
         p' = (if replaced then take (case rposition is_separator (drop s p) of None \<Rightarrow> s | Some i \<Rightarrow> s + i + 1) p else p)
     in if p' = [] then (if reads_as_drive name then [DOT, BACKSLASH] else []) @ name
        else if replaced then p' @ name
        else append_relative p' name)"

section \<open>The components spell the path\<close>

lemma component_text_component [simp]: "component_text (component s) = s"
  by (simp add: component_text_def component_def)

lemma fold_separator_not_SLASH [simp]: "\<not> is_separator b \<Longrightarrow> fold_separator b = b"
  by (simp add: fold_separator_def is_separator_def)

lemma fold_separator_sep: "is_separator b \<Longrightarrow> fold_separator b = BACKSLASH"
  by (auto simp: fold_separator_def is_separator_def)

lemma is_separator_fold [simp]: "is_separator (fold_separator b) = is_separator b"
  by (auto simp: fold_separator_def is_separator_def)

lemma fold_separator_idem [simp]: "fold_separator (fold_separator b) = fold_separator b"
  by (simp add: fold_separator_def)

lemma fold_clean: "list_all (\<lambda>b. \<not> is_separator b) s \<Longrightarrow> map fold_separator s = s"
  by (induction s) simp_all

lemma intercalate_split_sep: "intercalate BACKSLASH (split_on is_separator s) = map fold_separator s"
proof (induction s)
  case (Cons b s)
  obtain w ws where "split_on is_separator s = w # ws"
    using split_on_not_Nil by (cases "split_on is_separator s") blast+
  with Cons show ?case by (cases ws) (auto simp: intercalate_Cons fold_separator_sep)
qed simp

lemma components_text: "intercalate BACKSLASH (map component_text (components p)) = map fold_separator (drop (start p) p)"
  by (simp add: components_def Let_def comp_def intercalate_split_sep)

lemma components_spell: "path_eq p (take (start p) p @ intercalate BACKSLASH (map component_text (components p)))"
proof -
  have "map fold_separator p = map fold_separator (take (start p) p) @ map fold_separator (drop (start p) p)"
    by (simp flip: map_append)
  moreover have "map fold_separator (map fold_separator s) = map fold_separator s" for s by simp
  ultimately show ?thesis unfolding path_eq_def components_text by simp
qed

section \<open>Stored text has no verbatim prefix\<close>

abbreviation plain :: "bytes \<Rightarrow> bool" where
  "plain p \<equiv> \<not> is_verbatim_spelling p"

lemma is_verbatim_take: "is_verbatim_spelling s \<longleftrightarrow> take 4 s = VERBATIM"
  by (auto simp: is_verbatim_spelling_def VERBATIM_def prefix_def) (metis append_take_drop_id append_Cons append_Nil)

lemma is_verbatim_nth:
  "is_verbatim_spelling s \<longleftrightarrow> 4 \<le> length s \<and> s ! 0 = BACKSLASH \<and> s ! 1 = BACKSLASH \<and> s ! 2 = QUESTION \<and> s ! 3 = BACKSLASH"
proof -
  have "is_verbatim_spelling s \<longleftrightarrow> (\<exists>r. s = BACKSLASH # BACKSLASH # QUESTION # BACKSLASH # r)"
    by (simp add: is_verbatim_spelling_def VERBATIM_def prefix_def)
  also have "\<dots> \<longleftrightarrow> 4 \<le> length s \<and> s ! 0 = BACKSLASH \<and> s ! 1 = BACKSLASH \<and> s ! 2 = QUESTION \<and> s ! 3 = BACKSLASH"
    by (cases s; cases "tl s"; cases "tl (tl s)"; cases "tl (tl (tl s))") auto
  finally show ?thesis .
qed

lemma plain_take: "plain p \<Longrightarrow> plain (take n p)"
  by (auto simp: is_verbatim_nth)

lemma plain_long_prefix: "plain p \<Longrightarrow> prefix x p \<Longrightarrow> 4 \<le> length x \<Longrightarrow> plain (x @ s)"
  by (auto simp: is_verbatim_nth nth_append prefix_def)

lemma plain_respell [simp]: "plain (respell_verbatim s)"
proof (cases "is_verbatim_spelling s")
  case True
  then have "3 < length s" by (simp add: is_verbatim_nth)
  then have "respell_verbatim s ! 3 = SLASH" using True by (simp add: respell_verbatim_def is_verbatim_spelling_def)
  then show ?thesis by (simp add: is_verbatim_nth)
qed (simp add: respell_verbatim_def is_verbatim_spelling_def)

lemma plain_append_relative: "plain p \<Longrightarrow> plain (append_relative p s)"
  by (simp add: append_relative_def)

lemma plain_join: "plain p \<Longrightarrow> plain q \<Longrightarrow> plain (join p q)"
  by (auto simp: join_def Let_def plain_append_relative split: Anchor.splits)

lemma plain_parent: "plain p \<Longrightarrow> parent p = Some r \<Longrightarrow> plain r"
  by (auto simp: parent_def Let_def plain_take split: if_splits)

lemma plain_pop: "plain p \<Longrightarrow> plain (snd (pop p))"
  by (simp add: pop_def plain_take split: option.splits)

lemma parse_cases [case_names plain drive unc device]:
  assumes "parse s = Inr p"
  obtains "\<not> prefix VERBATIM s" "p = s"
  | "verbatim_is_drive (drop 4 s)" "p = drop 4 s"
  | "take (next_separator (drop 8 s) 0) (drop 8 s) \<notin> {[DOT], [QUESTION]}" "p = [BACKSLASH, BACKSLASH] @ drop 8 s"
  | "p = [BACKSLASH, BACKSLASH, DOT, BACKSLASH] @ drop 4 s"
proof (cases "prefix VERBATIM s")
  case False
  then have "p = s" using assms by (simp add: parse_def)
  then show thesis using False that(1) by blast
next
  case True
  define rest where "rest = drop 4 s"
  have "verbatim_plain rest = Inr p" using assms True by (auto simp: parse_def Let_def rest_def split: if_splits)
  then have "verbatim_is_drive rest \<and> p = rest
      \<or> take (next_separator (drop 4 rest) 0) (drop 4 rest) \<notin> {[DOT], [QUESTION]} \<and> p = [BACKSLASH, BACKSLASH] @ drop 4 rest
      \<or> p = [BACKSLASH, BACKSLASH, DOT, BACKSLASH] @ rest"
    unfolding verbatim_plain_def Let_def by (metis Inl_Inr_False Inr_inject)
  moreover have "drop 4 rest = drop 8 s" by (simp add: rest_def)
  ultimately show thesis using that(2-4) unfolding rest_def by metis
qed

lemma plain_parse: "parse s = Inr p \<Longrightarrow> plain p"
proof (erule parse_cases)
  assume "verbatim_is_drive (drop 4 s)" and "p = drop 4 s"
  then show ?thesis by (cases "drop 4 s") (auto simp: is_verbatim_nth verbatim_is_drive_def)
next
  assume u: "take (next_separator (drop 8 s) 0) (drop 8 s) \<notin> {[DOT], [QUESTION]}" and p: "p = [BACKSLASH, BACKSLASH] @ drop 8 s"
  have "next_separator u 0 = 1" if "u = QUESTION # BACKSLASH # r" for u r
    using that by (simp add: next_separator_def is_separator_def)
  with u p show ?thesis unfolding is_verbatim_take VERBATIM_def by (cases "drop 8 s"; cases "tl (drop 8 s)") auto
qed (simp_all add: is_verbatim_nth is_verbatim_spelling_def [symmetric])

lemma plain_set_file_name:
  assumes p: "plain p" and name: "list_all (\<lambda>b. \<not> is_separator b) name"
  shows "plain (set_file_name p name)"
proof -
  have n3: "plain (x @ name)" if "prefix x p" for x
  proof (cases "4 \<le> length x")
    case False
    have "is_verbatim_spelling (x @ name) \<Longrightarrow> BACKSLASH = name ! (3 - length x) \<and> 3 - length x < length name"
      using False by (auto simp: is_verbatim_nth nth_append)
    moreover have "BACKSLASH \<notin> set name" using name by (auto simp: list_all_iff is_separator_def)
    ultimately show ?thesis using nth_mem by metis
  qed (use that p in \<open>simp add: plain_long_prefix\<close>)
  have "plain name" "plain (DOT # BACKSLASH # name)" using n3 [of "[]"] by (simp_all add: is_verbatim_nth)
  then show ?thesis using n3 [OF take_is_prefix] plain_append_relative [OF plain_take [OF p]] plain_append_relative [OF p]
    by (simp add: set_file_name_def Let_def)
qed

lemma plain_unc_rest: "as_unc p = Some u \<Longrightarrow> plain (unc_rest u)"
proof -
  assume "as_unc p = Some u"
  then obtain h where r: "unc_rest u = drop (length (takeWhile is_separator h) - 1) h"
    by (auto simp: as_unc_def Let_def split: Anchor.splits) (metis add.commute drop_drop)
  show ?thesis
  proof (cases "takeWhile is_separator h")
    case Nil
    then show ?thesis using r by (cases h) (auto simp: is_verbatim_nth is_separator_def split: if_splits)
  next
    case (Cons b bs)
    then have "drop (length (takeWhile is_separator h)) h = dropWhile is_separator h" by (simp add: dropWhile_eq_drop)
    then have "tl (unc_rest u) = dropWhile is_separator h"
      using r Cons by (simp add: drop_Suc [symmetric] tl_drop flip: drop_Suc)
    moreover have "dropWhile is_separator h = [] \<or> \<not> is_separator (hd (dropWhile is_separator h))"
      using hd_dropWhile by blast
    ultimately have "tl (unc_rest u) = [] \<or> \<not> is_separator (hd (tl (unc_rest u)))" by simp
    then show ?thesis by (cases "unc_rest u"; cases "tl (unc_rest u)") (auto simp: is_verbatim_nth is_separator_def)
  qed
qed

subsection \<open>Normal forms\<close>

lemma next_separator_bounds:
  assumes "i \<le> length p"
  shows "i \<le> next_separator p i" "next_separator p i \<le> length p"
    "next_separator p i < length p \<Longrightarrow> is_separator (p ! next_separator p i)"
proof -
  show "i \<le> next_separator p i" using assms by (simp add: next_separator_def split: option.split)
  have "j < length p - i \<and> is_separator (p ! (i + j))" if "position is_separator (drop i p) = Some j" for j
    using that assms by (simp add: position_Some_iff)
  then show "next_separator p i \<le> length p" "next_separator p i < length p \<Longrightarrow> is_separator (p ! next_separator p i)"
    by (fastforce simp: next_separator_def split: option.splits)+
qed

lemma next_separator_sep_at: "i \<le> length p \<Longrightarrow> sep_at p (next_separator p i) \<longleftrightarrow> next_separator p i < length p"
  using next_separator_bounds(3) by (auto simp: sep_at_def)

lemma next_separator_gt: "i < length p \<Longrightarrow> \<not> is_separator (p ! i) \<Longrightarrow> i < next_separator p i"
  using next_separator_bounds [of i p]
  by (metis antisym_conv2 less_imp_le_nat)

lemma loose_loop_root [simp]: "pt_loose_root (loose_loop p r a i) = Some r"
  by (induction p r a i rule: loose_loop.induct) (subst loose_loop.simps, simp add: Let_def)

lemma pt_loose_root_loose [simp]: "pt_loose_root (loose_parts p r a) = Some r"
  by (simp add: loose_parts_def)

lemma plain_parts_sel [simp]:
  "pt_anchor (plain_parts a h r) = a" "pt_head (plain_parts a h r) = h" "pt_root (plain_parts a h r) = r"
  "pt_open (plain_parts a h r) = False" "pt_loose_root (plain_parts a h r) = None" "parts_start (plain_parts a h r) = (if r then Suc h else h)"
  by (simp_all add: plain_parts_def parts_start_def)

text \<open>The ways the source reads an anchor.\<close>

definition device_lead :: "bytes \<Rightarrow> bool" where
  "device_lead p \<longleftrightarrow> 2 < length p \<and> (p ! 2 = DOT \<or> p ! 2 = QUESTION) \<and> (length p = 3 \<or> sep_at p 3)"

lemma parts_cases [case_names none drive rooted device3 device server loose strict]:
  obtains
    "\<not> sep_at p 0" "drive_len p = None" "parts p = plain_parts NoAnchor 0 False"
  | n where "\<not> sep_at p 0" "drive_len p = Some n"
      "parts p = plain_parts (Drive (first_unit (take (n - 1) p)) (sep_at p n)) n (sep_at p n)"
  | "sep_at p 0" "\<not> sep_at p 1" "parts p = plain_parts Rooted 0 True"
  | "sep_at p 0" "sep_at p 1" "device_lead p" "length p = 3" "parts p = plain_parts (Device []) 3 False"
  | "sep_at p 0" "sep_at p 1" "device_lead p" "sep_at p 3" "length p \<noteq> 3" "parts p = loose_parts p 4 Device"
  | "sep_at p 0" "sep_at p 1" "\<not> device_lead p" "next_separator p 2 = length p" "\<not> sep_at p (length p)"
      "parts p = plain_parts (Unc (slice p 2 (length p)) []) (length p) False"
  | n where "sep_at p 0" "sep_at p 1" "\<not> device_lead p" "next_separator p 2 = n" "2 \<le> n" "sep_at p n"
      "sep_at p (n + 1) \<or> n + 1 = length p" "parts p = loose_parts p (n + 1) (Unc (slice p 2 n))"
  | n m where "sep_at p 0" "sep_at p 1" "\<not> device_lead p" "next_separator p 2 = n" "2 \<le> n" "sep_at p n"
      "n + 1 < length p" "\<not> is_separator (p ! (n + 1))" "next_separator p (n + 1) = m" "n + 1 < m" "m \<le> length p"
      "parts p = plain_parts (Unc (slice p 2 n) (slice p (n + 1) m)) m (sep_at p m)"
proof (cases "sep_at p 0")
  case False
  then show thesis using that(1,2) by (cases "drive_len p") (simp_all add: parts_def)
next
  case s0: True
  show thesis
  proof (cases "sep_at p 1")
    case False
    with s0 that(3) show thesis by (simp add: parts_def)
  next
    case s1: True
    show thesis
    proof (cases "device_lead p")
      case True
      then show thesis using s0 s1 that(4,5) by (auto simp: parts_def device_lead_def)
    next
      case False
      then have u: "parts p = unc_parts p" using s0 s1 by (auto simp: parts_def device_lead_def)
      define n where "n = next_separator p 2"
      have two: "2 \<le> length p" using s1 by (simp add: sep_at_def)
      have n: "2 \<le> n" "n \<le> length p" "sep_at p n \<longleftrightarrow> n < length p"
        using next_separator_bounds [OF two] next_separator_sep_at [OF two] by (auto simp: n_def)
      consider "n = length p" | "n < length p" "sep_at p (n + 1) \<or> n + 1 = length p"
        | "n < length p" "n + 1 < length p" "\<not> is_separator (p ! (n + 1))"
        using n by (fastforce simp: sep_at_def)
      then show thesis
      proof cases
        case 1
        then show thesis using n s0 s1 False u that(6) by (simp add: unc_parts_def Let_def flip: n_def)
      next
        case 2
        then show thesis using n s0 s1 False u that(7) [of n] by (simp add: unc_parts_def Let_def flip: n_def)
      next
        case 3
        then show thesis using n s0 s1 False u that(8) [of n "next_separator p (n + 1)"]
            next_separator_gt [of "n + 1" p] next_separator_bounds [of "n + 1" p]
          by (simp add: unc_parts_def Let_def sep_at_def flip: n_def)
      qed
    qed
  qed
qed

text \<open>The names of a normal form are the names of the path that are not empty, and \<open>..\<close>; after a root no trailing separator stands alone.\<close>

definition kept_name :: "bytes Component \<Rightarrow> bool" where
  "kept_name c \<longleftrightarrow> component_text c \<noteq> [] \<and> list_all (\<lambda>b. \<not> is_separator b) (component_text c)"

definition normal_inv :: "bool \<Rightarrow> bytes Component list \<times> bool \<Rightarrow> bool" where
  "normal_inv root s \<longleftrightarrow> list_all kept_name (fst s) \<and> (root \<and> snd s \<longrightarrow> fst s \<noteq> [])"

lemma normal_step_inv: "kept_name c \<or> c = Empty \<Longrightarrow> normal_inv root s \<Longrightarrow> normal_inv root (normal_step root s c)"
  by (cases s; cases c) (auto simp: normal_inv_def normal_step_def list_all_iff dest: in_set_butlastD split: Component.splits)

lemma normal_fold_inv: "\<forall>c\<in>set cs. kept_name c \<or> c = Empty \<Longrightarrow> normal_inv root s \<Longrightarrow> normal_inv root (foldl (normal_step root) s cs)"
  by (induction cs arbitrary: s) (simp_all add: normal_step_inv)

lemma normal_inv_Nil [simp]: "normal_inv root ([], False)"
  by (simp add: normal_inv_def)

lemma component_kept: "list_all (\<lambda>b. \<not> is_separator b) w \<Longrightarrow> kept_name (component w) \<or> component w = Empty"
  by (auto simp: kept_name_def) (auto simp: component_def)

lemma pieces_kept: "c \<in> set (map component (split_on is_separator s)) \<Longrightarrow> kept_name c \<or> c = Empty"
  using component_kept split_on_pieces by fastforce

text \<open>A normal form is a prefix of the path and a text that no separator starts.\<close>

definition normal_tail :: "bytes Component list \<times> bool \<Rightarrow> bytes" where
  "normal_tail s = intercalate BACKSLASH (map component_text (fst s))
     @ (if snd s then (if fst s = [] then [DOT] else []) @ [BACKSLASH] else [])"

lemma hd_intercalate: "ws \<noteq> [] \<Longrightarrow> hd ws \<noteq> [] \<Longrightarrow> intercalate c ws \<noteq> [] \<and> hd (intercalate c ws) = hd (hd ws)"
  by (cases ws; cases "tl ws") auto

lemma normal_tail_hd:
  assumes "normal_inv root s"
  shows "normal_tail s = [] \<or> \<not> is_separator (hd (normal_tail s))"
proof (cases "fst s")
  case Nil
  then show ?thesis by (simp add: normal_tail_def is_separator_def)
next
  case (Cons c cs)
  then have "component_text c \<noteq> []" "\<not> is_separator (hd (component_text c))"
    using assms by (auto simp: kept_name_def normal_inv_def list_all_iff)
  with Cons show ?thesis using hd_intercalate [of "map component_text (fst s)" BACKSLASH] by (simp add: normal_tail_def hd_append)
qed

lemma normal_loose:
  assumes "pt_loose_root (parts p) = Some n" and "p \<noteq> []" and "0 < n"
  shows "\<exists>s. lexically_normal p = take n p @ s"
  using assms by (auto simp: lexically_normal_def Let_def split: prod.splits)

text \<open>Without a loose root the text before the names is the anchor's, less a share's separator.\<close>

lemma normal_plain_anchor:
  assumes "pt_loose_root (parts p) = None" and "p \<noteq> []"
  obtains s x where "normal_inv (pt_root (parts p)) s" "components p = [] \<longrightarrow> s = ([], False)"
    "lexically_normal p = (if x @ normal_tail s = [] then [DOT] else x @ normal_tail s)"
    "x = take (start p) p \<or> x = butlast (take (start p) p) \<and> pt_root (parts p) \<and> (\<exists>a b. anchor_of p = Unc a b)
       \<or> x = [DOT, BACKSLASH]"
proof -
  define s where "s = foldl (normal_step (pt_root (parts p))) ([], False) (components p)"
  define out where "out = (if (pt_root (parts p) \<and> (case anchor_of p of Unc _ _ \<Rightarrow> True | _ \<Rightarrow> False)) \<and> fst s = [] \<and> \<not> is_separator (last p)
    then butlast (take (start p) p) else take (start p) p)"
  define x where "x = (if anchor_of p = NoAnchor \<and> fst s \<noteq> [] \<and> reads_as_drive (component_text (hd (fst s))) then out @ [DOT, BACKSLASH] else out)"
  have l: "lexically_normal p = (if x @ normal_tail s = [] then [DOT] else x @ normal_tail s)"
    using assms by (cases s) (auto simp: lexically_normal_def Let_def s_def out_def x_def normal_tail_def start_def anchor_of_def)
  have "\<forall>c\<in>set (components p). kept_name c \<or> c = Empty"
    by (auto simp: components_def Let_def dest: split_on_pieces component_kept split: if_splits)
  then have i: "normal_inv (pt_root (parts p)) s" by (simp add: s_def normal_fold_inv)
  have "anchor_of p = NoAnchor \<Longrightarrow> take (start p) p = []"
    using assms by (cases p rule: parts_cases) (auto simp: anchor_of_def start_def)
  then have "x = take (start p) p \<or> x = butlast (take (start p) p) \<and> pt_root (parts p) \<and> (\<exists>a b. anchor_of p = Unc a b)
       \<or> x = [DOT, BACKSLASH]"
    by (auto simp: x_def out_def split: Anchor.splits)
  moreover have "components p = [] \<longrightarrow> s = ([], False)" by (simp add: s_def)
  ultimately show thesis using that l i by blast
qed

lemma hd_not_separator_plain: "s = [] \<or> \<not> is_separator (hd s) \<Longrightarrow> plain s"
  by (cases s) (auto simp: is_verbatim_nth is_separator_def)

lemma plain_third: "2 < length s \<Longrightarrow> s ! 2 \<noteq> QUESTION \<Longrightarrow> plain s"
  by (simp add: is_verbatim_nth)

lemma components_at_end: "start p = length p \<Longrightarrow> components p = []"
  by (simp add: components_def)

lemma hd_not_separator: "p \<noteq> [] \<Longrightarrow> \<not> sep_at p 0 \<Longrightarrow> \<not> is_separator (hd p)"
  by (simp add: sep_at_def hd_conv_nth)

lemma drive_len_bounds: "drive_len p = Some n \<Longrightarrow> 2 \<le> n \<and> n \<le> length p"
  by (auto simp: drive_len_def unit_len_def split: list.splits option.splits if_splits)

lemma plain_normal_plain_anchor:
  assumes p: "plain p" "p \<noteq> []" and root: "pt_loose_root (parts p) = None"
  shows "plain (lexically_normal p)"
proof -
  obtain s x where s: "normal_inv (pt_root (parts p)) s" and empty: "components p = [] \<longrightarrow> s = ([], False)"
    and l: "lexically_normal p = (if x @ normal_tail s = [] then [DOT] else x @ normal_tail s)"
    and x: "x = take (start p) p \<or> x = butlast (take (start p) p) \<and> pt_root (parts p) \<and> (\<exists>a b. anchor_of p = Unc a b)
       \<or> x = [DOT, BACKSLASH]"
    by (rule normal_plain_anchor [OF root p(2)])
  have dots: "plain [DOT]" "plain ([DOT, BACKSLASH] @ t)" for t by (simp_all add: is_verbatim_nth)
  have tail: "normal_tail s = [] \<or> \<not> is_separator (hd (normal_tail s))" using s by (rule normal_tail_hd)
  have "plain (x @ normal_tail s)" if not_dots: "x \<noteq> [DOT, BACKSLASH]"
  proof (cases p rule: parts_cases)
    case none
    then have "x = []" using x not_dots by (auto simp: anchor_of_def start_def)
    then show ?thesis using tail by (simp add: hd_not_separator_plain)
  next
    case (drive n)
    then have "x = take (start p) p" using x not_dots by (auto simp: anchor_of_def)
    moreover have "0 < start p" using drive drive_len_bounds [of p n] by (auto simp: start_def)
    ultimately have "x \<noteq> []" "hd x = hd p" using p by auto
    then show ?thesis using hd_not_separator [OF p(2) drive(1)] by (intro hd_not_separator_plain) simp
  next
    case rooted
    then have "x = [p ! 0]" using x not_dots by (auto simp: anchor_of_def start_def sep_at_def take_Suc_conv_app_nth)
    then show ?thesis using tail by (cases "normal_tail s") (auto simp: is_verbatim_nth is_separator_def)
  next
    case device3
    then have "components p = []" "x = p" using x not_dots by (auto simp: components_at_end start_def anchor_of_def)
    then show ?thesis using empty p by (simp add: normal_tail_def)
  next
    case server
    then have "components p = []" "x = p" using x not_dots by (auto simp: components_at_end start_def anchor_of_def)
    then show ?thesis using empty p by (simp add: normal_tail_def)
  next
    case (strict n m)
    then have "4 \<le> length (take (start p) p)" "sep_at p m \<Longrightarrow> 4 \<le> length (butlast (take (start p) p))"
      by (auto simp: start_def sep_at_def)
    then have "prefix x p" "4 \<le> length x" using x not_dots strict by (auto intro: prefix_order.trans [OF prefixeq_butlast] take_is_prefix)
    then show ?thesis using p(1) plain_long_prefix by blast
  qed (use root in simp_all)
  then show ?thesis using l dots by metis
qed

lemma plain_lexically_normal:
  assumes "plain p"
  shows "plain (lexically_normal p)"
proof (cases "p = []")
  case True
  then show ?thesis by (simp add: lexically_normal_def is_verbatim_nth)
next
  case False
  have long: "plain (take n p @ t)" if "4 \<le> n" "4 \<le> length p" for n t
    using that assms plain_long_prefix [of p "take n p"] by (simp add: take_is_prefix)
  show ?thesis
  proof (cases p rule: parts_cases)
    case device
    then obtain t where "lexically_normal p = take 4 p @ t" using normal_loose [of p 4] False by auto
    then show ?thesis using long [of 4 t] device by (simp add: sep_at_def)
  next
    case (loose n)
    then obtain t where t: "lexically_normal p = take (n + 1) p @ t" using normal_loose [of p "n + 1"] False by auto
    show ?thesis
    proof (cases "n = 2")
      case True
      then show ?thesis using loose t by (intro plain_third) (auto simp: sep_at_def nth_append is_separator_def)
    next
      case False
      then show ?thesis using long [of "n + 1" t] loose t by (simp add: sep_at_def)
    qed
  qed (use assms False plain_normal_plain_anchor in simp_all)
qed

text \<open>The texts a path holds: every one is parsed, or made from others by the operations of the module.\<close>

inductive Stored :: "bytes \<Rightarrow> bool" where
  Parsed: "parse s = Inr p \<Longrightarrow> Stored p"
| Joined: "Stored p \<Longrightarrow> Stored q \<Longrightarrow> Stored (join p q)"
| Parent: "Stored p \<Longrightarrow> parent p = Some r \<Longrightarrow> Stored r"
| Popped: "Stored p \<Longrightarrow> Stored (snd (pop p))"
| Renamed: "Stored p \<Longrightarrow> list_all (\<lambda>b. \<not> is_separator b) name \<Longrightarrow> Stored (set_file_name p name)"
| Normalised: "Stored p \<Longrightarrow> Stored (lexically_normal p)"
| Unc_rest: "Stored p \<Longrightarrow> as_unc p = Some u \<Longrightarrow> Stored (unc_rest u)"

lemma parse_plain: "plain p \<Longrightarrow> parse p = Inr p"
  by (simp add: parse_def is_verbatim_spelling_def)

lemma Stored_plain: "Stored p \<Longrightarrow> plain p"
  by (induction rule: Stored.induct)
    (simp_all add: plain_parse plain_join plain_parent plain_pop plain_set_file_name plain_lexically_normal plain_unc_rest)

section \<open>Equality and order\<close>

text \<open>The first character of a WTF-8 text is whole: no separator is among the bytes that follow its first.\<close>

definition lead_ok :: "bytes \<Rightarrow> bool" where
  "lead_ok p = (case p of [] \<Rightarrow> True | b # r \<Rightarrow> (case unit_len b of None \<Rightarrow> True
     | Some u \<Rightarrow> u \<le> length p \<and> list_all (\<lambda>c. \<not> is_separator c) (take (u - 1) r)))"

abbreviation fold_path :: "bytes \<Rightarrow> bytes" where
  "fold_path \<equiv> map fold_separator"

lemma fold_separator_iff [simp]: "\<not> is_separator c \<Longrightarrow> fold_separator b = c \<longleftrightarrow> b = c"
  by (auto simp: fold_separator_def is_separator_def)

lemma not_separator [simp]: "\<not> is_separator DOT" "\<not> is_separator QUESTION" "\<not> is_separator COLON"
  by (simp_all add: is_separator_def)

lemma sep_at_fold [simp]: "sep_at (fold_path p) i = sep_at p i"
  by (auto simp: sep_at_def)

lemma position_fold: "position is_separator (fold_path s) = position is_separator s"
  by (induction s) simp_all

lemma next_separator_fold [simp]: "next_separator (fold_path p) i = next_separator p i"
  by (simp add: next_separator_def drop_map position_fold split: option.split)

lemma slice_next_clean: "list_all (\<lambda>b. \<not> is_separator b) (slice p i (next_separator p i))"
proof (cases "position is_separator (drop i p)")
  case None
  then have "next_separator p i = length p" "\<forall>b\<in>set (drop i p). \<not> is_separator b"
    by (simp add: next_separator_def, simp add: position_None_iff)
  then show ?thesis by (simp add: slice_def list_all_iff)
next
  case (Some j)
  then have "next_separator p i = i + j" "\<forall>b\<in>set (take j (drop i p)). \<not> is_separator b"
    by (simp add: next_separator_def, simp add: position_Some_iff)
  then show ?thesis by (simp add: slice_def list_all_iff drop_take)
qed

lemma slice_fold [simp]: "slice (fold_path p) i (next_separator p i) = slice p i (next_separator p i)"
proof -
  have "slice (fold_path p) i (next_separator p i) = fold_path (slice p i (next_separator p i))"
    by (simp add: slice_def drop_map take_map)
  then show ?thesis by (simp add: fold_clean slice_next_clean)
qed

lemma loose_loop_fold: "loose_loop (fold_path p) r a i = loose_loop p r a i"
proof (induction p r a i rule: loose_loop.induct)
  case (1 p r a i)
  define j where "j = next_separator p i"
  define w where "w = slice p i j"
  have w: "slice (fold_path p) i j = w" by (simp add: w_def j_def)
  have "is_separator (fold_path p ! (j - 1)) = is_separator (p ! (j - 1))" if "j = length p"
    using that by (cases "p = []") simp_all
  then show ?case using 1 [OF refl refl] unfolding loose_loop.simps [of "fold_path p" r a i] loose_loop.simps [of p r a i] Let_def
      next_separator_fold length_map j_def [symmetric] w w_def [symmetric] by auto
qed

lemma drive_len_fold:
  assumes "\<not> sep_at p 0"
  shows "drive_len (fold_path p) = drive_len p"
proof (cases p)
  case (Cons b r)
  then have "fold_separator b = b" using assms by (simp add: sep_at_def)
  with Cons show ?thesis by (auto simp: drive_len_def nth_Cons' unit_len_def split: option.split)
qed simp

lemma first_unit_fold:
  assumes "\<not> sep_at p 0" and "lead_ok p" and "drive_len p = Some n"
  shows "first_unit (take (n - 1) (fold_path p)) = first_unit (take (n - 1) p)"
proof -
  obtain b r u where p: "p = b # r" "unit_len b = Some u" "n = u + 1"
    using assms(3) by (auto simp: drive_len_def split: list.splits option.splits if_splits)
  have "0 < u" using p by (auto simp: unit_len_def split: if_splits)
  then have "list_all (\<lambda>c. \<not> is_separator c) (take (n - 1) p)"
    using p assms(1,2) by (cases u) (auto simp: lead_ok_def sep_at_def)
  then show ?thesis by (simp add: take_map fold_clean)
qed

lemma parts_fold:
  assumes "lead_ok p"
  shows "parts (fold_path p) = parts p"
proof -
  have u: "unc_parts (fold_path p) = unc_parts p"
    by (simp add: unc_parts_def Let_def loose_parts_def loose_loop_fold)
  have d: "2 < length p \<and> (fold_path p ! 2 = DOT \<or> fold_path p ! 2 = QUESTION) \<longleftrightarrow> 2 < length p \<and> (p ! 2 = DOT \<or> p ! 2 = QUESTION)"
    by auto
  show ?thesis
  proof (cases "sep_at p 0")
    case True
    then show ?thesis using d by (auto simp: parts_def u loose_parts_def loose_loop_fold)
  next
    case False
    then show ?thesis using first_unit_fold [OF False assms] by (simp add: parts_def drive_len_fold split: option.split)
  qed
qed

lemma split_on_fold: "split_on is_separator (fold_path s) = split_on is_separator s"
  by (induction s) auto

lemma components_fold: "lead_ok p \<Longrightarrow> components (fold_path p) = components p"
  by (simp add: components_def start_def parts_fold Let_def drop_map split_on_fold)

lemma path_eq_fold: "path_eq p q \<longleftrightarrow> fold_path p = fold_path q"
  unfolding path_eq_def by (metis length_map)

lemma path_eq_parts: "path_eq p q \<Longrightarrow> lead_ok p \<Longrightarrow> lead_ok q \<Longrightarrow> parts p = parts q \<and> components p = components q"
  unfolding path_eq_fold by (metis parts_fold components_fold)

lemma cmp_of_Equal [simp]: "cmp_of x y = Equal \<longleftrightarrow> x = y"
  by (simp add: cmp_of_def)

lemma then_with_Equal [simp]: "then_with a b = Equal \<longleftrightarrow> a = Equal \<and> b = Equal"
  by (cases a) (simp_all add: then_with_def)

section \<open>The path interface\<close>

subsection \<open>The anchor of a prefix\<close>

lemma position_take: "position P xs = Some i \<Longrightarrow> i < n \<Longrightarrow> position P (take n xs) = Some i"
proof (induction xs arbitrary: i n)
  case (Cons x xs)
  then show ?case by (cases n) (auto split: if_splits)
qed simp

lemma next_separator_take:
  assumes "next_separator p i \<le> e" and "e \<le> length p" and "i \<le> length p"
  shows "next_separator (take e p) i = next_separator p i"
proof (cases "next_separator p i < e")
  case True
  then obtain j where "position is_separator (drop i p) = Some j" "next_separator p i = i + j"
    using assms(2) by (cases "position is_separator (drop i p)") (auto simp: next_separator_def)
  with True show ?thesis
    using position_take [of is_separator "drop i p" j "e - i"] by (simp add: next_separator_def drop_take)
next
  case False
  then have e: "e = next_separator p i" using assms(1) by simp
  have "\<forall>b\<in>set (drop i (take e p)). \<not> is_separator b"
    using slice_next_clean [of p i] by (simp add: e slice_def list_all_iff)
  then have "position is_separator (drop i (take e p)) = None" by (simp add: position_None_iff)
  then show ?thesis using assms(2) e by (simp add: next_separator_def)
qed

lemma slice_take: "j \<le> e \<Longrightarrow> slice (take e p) i j = slice p i j"
  by (simp add: slice_def min_absorb1)

lemma loose_loop_bounds:
  "i \<le> length p \<Longrightarrow> next_separator p i \<le> pt_head (loose_loop p r a i) \<and> pt_head (loose_loop p r a i) \<le> length p
     \<and> parts_start (loose_loop p r a i) \<le> length p"
proof (induction p r a i rule: loose_loop.induct)
  case (1 p r a i)
  have j: "i \<le> next_separator p i" "next_separator p i \<le> length p" using next_separator_bounds 1(2) by auto
  show ?case
  proof (cases "\<not> is_dots (slice p i (next_separator p i)) \<or> next_separator p i = length p")
    case True
    then show ?thesis using j unfolding loose_loop.simps [of p r a i] Let_def by (auto simp: parts_start_def)
  next
    case False
    then have "loose_loop p r a i = loose_loop p r a (next_separator p i + 1)"
      unfolding loose_loop.simps [of p r a i] Let_def by simp
    moreover have "next_separator p i + 1 \<le> length p" using False j by simp
    ultimately show ?thesis using 1(1) [OF refl refl] False next_separator_bounds(1) [of "next_separator p i + 1" p] by simp
  qed
qed

lemma loose_loop_take:
  "i \<le> length p \<Longrightarrow> parts_start (loose_loop p r a i) \<le> e \<Longrightarrow> e \<le> length p \<Longrightarrow> loose_loop (take e p) r a i = loose_loop p r a i"
proof (induction p r a i rule: loose_loop.induct)
  case (1 p r a i)
  define j where "j = next_separator p i"
  define w where "w = slice p i j"
  have j: "i \<le> j" "j \<le> length p" using next_separator_bounds 1(2) by (auto simp: j_def)
  have "j \<le> parts_start (loose_loop p r a i)"
    using loose_loop_bounds [OF 1(2), of r a] by (auto simp: j_def parts_start_def intro: trans_le_add1)
  then have je: "j \<le> e" using 1(3) by simp
  have nt: "next_separator (take e p) i = j" "slice (take e p) i j = w"
    using next_separator_take [of p i e] slice_take je 1(2,4) by (auto simp: j_def w_def)
  consider "\<not> is_dots w" | "is_dots w" "j = length p" | "is_dots w" "j < length p" using j by fastforce
  then show ?case
  proof cases
    case 1
    then have L: "loose_loop p r a i = \<lparr>pt_anchor = a w, pt_head = j, pt_root = j < length p, pt_open = False, pt_loose_root = Some r\<rparr>"
      unfolding loose_loop.simps [of p r a i] Let_def j_def [symmetric] w_def [symmetric] by simp
    then have "j < e \<longleftrightarrow> j < length p" using 1 \<open>parts_start _ \<le> e\<close> \<open>e \<le> length p\<close> by (auto simp: parts_start_def)
    then show ?thesis using 1 L \<open>e \<le> length p\<close> unfolding loose_loop.simps [of "take e p" r a i] Let_def nt by simp
  next
    case 2
    then show ?thesis using je \<open>e \<le> length p\<close> by simp
  next
    case 3
    then have L: "loose_loop p r a i = loose_loop p r a (j + 1)"
      unfolding loose_loop.simps [of p r a i] Let_def j_def [symmetric] w_def [symmetric] by simp
    have "j + 1 \<le> parts_start (loose_loop p r a (j + 1))"
      using loose_loop_bounds [of "j + 1" p r a] next_separator_bounds(1) [of "j + 1" p] 3 by (auto simp: parts_start_def)
    then have "j \<noteq> e" using \<open>parts_start _ \<le> e\<close> L by simp
    then have "loose_loop (take e p) r a i = loose_loop (take e p) r a (j + 1)"
      unfolding loose_loop.simps [of "take e p" r a i] Let_def nt using 3 \<open>e \<le> length p\<close> by simp
    then show ?thesis using "1.IH" [OF refl refl] 3 L \<open>parts_start _ \<le> e\<close> \<open>e \<le> length p\<close> by (simp flip: j_def w_def)
  qed
qed

lemma sep_at_take [simp]: "sep_at (take e p) i \<longleftrightarrow> i < e \<and> sep_at p i"
  by (auto simp: sep_at_def)

lemma drive_len_take:
  assumes "drive_len p = None \<or> drive_len p = Some n \<and> n \<le> e"
  shows "drive_len (take e p) = drive_len p"
  using assms by (cases p; cases e) (auto simp: drive_len_def nth_Cons' split: option.splits if_splits)

lemma unc_parts_take:
  assumes "2 \<le> length p" and "parts_start (unc_parts p) \<le> e" and "e \<le> length p"
  shows "unc_parts (take e p) = unc_parts p"
proof -
  define n where "n = next_separator p 2"
  have n: "2 \<le> n" "n \<le> length p" "sep_at p n \<longleftrightarrow> n < length p"
    using next_separator_bounds [OF assms(1)] next_separator_sep_at [OF assms(1)] by (auto simp: n_def)
  consider (server) "n = length p" | (loose) "n < length p" "sep_at p (n + 1) \<or> n + 1 = length p"
    | (strict) "n + 1 < length p" "\<not> sep_at p (n + 1)" using n by fastforce
  then show ?thesis
  proof cases
    case server
    then have "e = length p" using assms(2,3) n by (simp add: unc_parts_def Let_def flip: n_def)
    then show ?thesis by simp
  next
    case loose
    then have u: "unc_parts p = loose_loop p (n + 1) (Unc (slice p 2 n)) (n + 1)"
      using n by (simp add: unc_parts_def loose_parts_def Let_def flip: n_def)
    have ge: "n + 1 \<le> e"
      using loose_loop_bounds [of "n + 1" p "n + 1" "Unc (slice p 2 n)"] next_separator_bounds(1) [of "n + 1" p] loose(1) assms(2) u
      by (auto simp: parts_start_def)
    then have t: "next_separator (take e p) 2 = n" "slice (take e p) 2 n = slice p 2 n"
      using next_separator_take [of p 2 e] slice_take assms n by (auto simp: n_def)
    have "sep_at (take e p) (n + 1) \<or> n + 1 = length (take e p)" using ge loose assms(3) by auto
    then show ?thesis using u t ge n loose assms(3) loose_loop_take [of "n + 1" p "n + 1" "Unc (slice p 2 n)" e] assms(2)
      by (simp add: unc_parts_def loose_parts_def Let_def)
  next
    case strict
    define m where "m = next_separator p (n + 1)"
    have nsep: "\<not> is_separator (p ! (n + 1))" using strict by (simp add: sep_at_def)
    have m: "n + 1 < m" "m \<le> length p" using next_separator_gt [OF strict(1) nsep] next_separator_bounds [of "n + 1" p] strict by (auto simp: m_def)
    have u: "unc_parts p = plain_parts (Unc (slice p 2 n) (slice p (n + 1) m)) m (sep_at p m)"
      using n strict by (simp add: unc_parts_def Let_def m_def flip: n_def)
    have me: "m \<le> e" "sep_at p m \<longrightarrow> m < e" using u assms(2) by (auto split: if_splits)
    have t: "next_separator (take e p) 2 = n" "slice (take e p) 2 n = slice p 2 n"
      "next_separator (take e p) (n + 1) = m" "slice (take e p) (n + 1) m = slice p (n + 1) m"
      using next_separator_take [of p 2 e] next_separator_take [of p "n + 1" e] slice_take assms n m me strict by (auto simp: n_def m_def)
    then show ?thesis using u n m me strict assms(3) by (auto simp: unc_parts_def Let_def)
  qed
qed

lemma parts_unc: "sep_at p 0 \<Longrightarrow> sep_at p 1 \<Longrightarrow> \<not> device_lead p \<Longrightarrow> parts p = unc_parts p"
  by (auto simp: parts_def device_lead_def)

lemma parts_take:
  assumes "start p \<le> e" and "e \<le> length p"
  shows "parts (take e p) = parts p"
proof (cases p rule: parts_cases)
  case none
  then show ?thesis by (simp add: parts_def drive_len_take)
next
  case (drive n)
  then have "n \<le> e" "sep_at p n \<longrightarrow> n < e" using assms by (auto simp: start_def split: if_splits)
  then show ?thesis using drive drive_len_take [of p n e] by (auto simp: parts_def min_def)
next
  case rooted
  then show ?thesis using assms by (simp add: parts_def start_def)
next
  case device
  then have "4 \<le> e" using assms loose_loop_bounds [of 4 p 4 Device] next_separator_bounds(1) [of 4 p]
    by (auto simp: start_def loose_parts_def parts_start_def sep_at_def)
  then show ?thesis using device assms loose_loop_take [of 4 p 4 Device e]
    by (auto simp: parts_def start_def loose_parts_def device_lead_def sep_at_def)
next
  case (loose n)
  have t: "unc_parts (take e p) = unc_parts p"
    using unc_parts_take [of p e] loose(2) parts_unc [OF loose(1-3)] assms by (auto simp: start_def sep_at_def)
  have "n + 1 \<le> e" using assms loose loose_loop_bounds [of "n + 1" p "n + 1" "Unc (slice p 2 n)"] next_separator_bounds(1) [of "n + 1" p]
    by (auto simp: start_def loose_parts_def parts_start_def sep_at_def)
  then have "\<not> device_lead (take e p)" "2 < e" using loose(3,5,6) assms(2) by (auto simp: device_lead_def sep_at_def is_separator_def le_less)
  then show ?thesis using t loose(1-3) by (simp add: parts_unc)
next
  case (strict n m)
  have t: "unc_parts (take e p) = unc_parts p"
    using unc_parts_take [of p e] strict(2) parts_unc [OF strict(1-3)] assms by (auto simp: start_def sep_at_def)
  have "m \<le> e" using strict assms by (auto simp: start_def split: if_splits)
  then have "\<not> device_lead (take e p)" "2 < e" using strict(3,5,10) assms(2) by (auto simp: device_lead_def)
  then show ?thesis using t strict(1-3) by (simp add: parts_unc)
qed (use assms in \<open>simp_all add: start_def\<close>)

lemma start_le: "start p \<le> length p"
proof (cases p rule: parts_cases)
  case (drive n)
  then show ?thesis using drive_len_bounds [of p n] by (auto simp: start_def sep_at_def)
next
  case device
  then show ?thesis using loose_loop_bounds [of 4 p 4 Device] by (simp add: start_def loose_parts_def sep_at_def)
next
  case (loose n)
  then show ?thesis using loose_loop_bounds [of "n + 1" p "n + 1" "Unc (slice p 2 n)"]
    by (simp add: start_def loose_parts_def sep_at_def)
next
  case rooted
  then show ?thesis by (simp add: start_def sep_at_def Suc_le_eq)
qed (auto simp: start_def sep_at_def split: if_splits)

lemma component_Empty [simp]: "component w = Empty \<longleftrightarrow> w = []"
  by (simp add: component_def)

lemma split_on_single_Nil: "split_on P xs = [[]] \<longleftrightarrow> xs = []"
  by (cases xs) auto

lemma components_parent:
  assumes "parent p = Some r"
  shows "components r = (if butlast (components p) = [Empty] then [] else butlast (components p))"
proof -
  define rest where "rest = drop (start p) p"
  define e where "e = (case rposition is_separator rest of None \<Rightarrow> start p | Some i \<Rightarrow> start p + i)"
  have rest: "rest \<noteq> []" and r: "r = take e p" using assms by (auto simp: parent_def Let_def rest_def e_def split: if_splits)
  have i: "i < length rest" if "rposition is_separator rest = Some i" for i using that by (simp add: rposition_Some_iff)
  have e: "start p \<le> e" "e \<le> length p" using i start_le [of p] by (fastforce simp: e_def rest_def split: option.splits)+
  have c: "components r = (let w = take (e - start p) rest in if w = [] then [] else map component (split_on is_separator w))"
    using parts_take [OF e] by (simp add: components_def r start_def rest_def drop_take)
  have cp: "components p = map component (split_on is_separator rest)" using rest by (simp add: components_def rest_def Let_def)
  show ?thesis
  proof (cases "rposition is_separator rest")
    case None
    then show ?thesis using c cp split_on_rposition [of is_separator rest] by (simp add: e_def)
  next
    case (Some i)
    then have b: "butlast (components p) = map component (split_on is_separator (take i rest))" "e - start p = i"
      using cp split_on_rposition [of is_separator rest] by (simp_all add: e_def butlast_append)
    have "map component (split_on is_separator w) = [Empty] \<longleftrightarrow> w = []" for w
      using split_on_single_Nil [of is_separator w] by (auto simp: map_eq_Cons_conv)
    then show ?thesis using b c by (simp add: Let_def)
  qed
qed

subsection \<open>The anchor of a longer text\<close>

lemma position_append: "position P (xs @ ys) = (case position P xs of Some i \<Rightarrow> Some i | None \<Rightarrow> map_option (\<lambda>i. length xs + i) (position P ys))"
  by (cases "position P ys"; induction xs) (auto split: option.splits)

text \<open>A text that goes on with a separator, or whose name ends before, keeps the end of the name.\<close>

lemma next_separator_append:
  assumes "i \<le> length p" and "next_separator p i < length p \<or> t \<noteq> [] \<and> is_separator (hd t)"
  shows "next_separator (p @ t) i = next_separator p i"
proof (cases "position is_separator (drop i p)")
  case None
  then have "next_separator p i = length p" by (simp add: next_separator_def)
  with None assms show ?thesis by (cases t) (simp_all add: next_separator_def position_append)
qed (use assms in \<open>simp add: next_separator_def position_append\<close>)

lemma slice_append: "j \<le> length p \<Longrightarrow> slice (p @ t) i j = slice p i j"
  by (simp add: slice_def)

lemma sep_at_append: "sep_at (p @ t) i \<longleftrightarrow> sep_at p i \<or> length p \<le> i \<and> sep_at t (i - length p)"
  by (auto simp: sep_at_def nth_append)

lemma loose_loop_append:
  "i \<le> length p \<Longrightarrow> t \<noteq> [] \<Longrightarrow> pt_anchor (loose_loop p r a i) \<noteq> a [] \<Longrightarrow> pt_root (loose_loop p r a i) \<or> is_separator (hd t) \<Longrightarrow>
     loose_loop (p @ t) r a i = (loose_loop p r a i)\<lparr>pt_root := True\<rparr>"
proof (induction p r a i rule: loose_loop.induct)
  case (1 p r a i)
  define j where "j = next_separator p i"
  define w where "w = slice p i j"
  have j: "i \<le> j" "j \<le> length p" using next_separator_bounds 1(2) by (auto simp: j_def)
  consider "\<not> is_dots w" | "is_dots w" "j < length p"
    using 1(4) j unfolding loose_loop.simps [of p r a i] Let_def j_def [symmetric] w_def [symmetric] by fastforce
  then show ?case
  proof cases
    case 1
    then have L: "loose_loop p r a i = \<lparr>pt_anchor = a w, pt_head = j, pt_root = j < length p, pt_open = False, pt_loose_root = Some r\<rparr>"
      unfolding loose_loop.simps [of p r a i] Let_def j_def [symmetric] w_def [symmetric] by simp
    then have nt: "next_separator (p @ t) i = j" "slice (p @ t) i j = w"
      using next_separator_append [of i p t] slice_append j \<open>t \<noteq> []\<close> \<open>_ \<or> is_separator (hd t)\<close> \<open>i \<le> length p\<close> by (auto simp: j_def w_def)
    moreover have "j < length (p @ t)" using j \<open>t \<noteq> []\<close> by (simp add: trans_le_add1 order_le_less_trans [of j "length p"])
    ultimately show ?thesis using 1 L unfolding loose_loop.simps [of "p @ t" r a i] Let_def nt by simp
  next
    case 2
    have L: "loose_loop p r a i = loose_loop p r a (j + 1)"
      using 2 unfolding loose_loop.simps [of p r a i] Let_def j_def [symmetric] w_def [symmetric] by simp
    have nt: "next_separator (p @ t) i = j" "slice (p @ t) i j = w"
      using next_separator_append [of i p t] slice_append j \<open>i \<le> length p\<close> 2 by (auto simp: j_def w_def)
    then have "loose_loop (p @ t) r a i = loose_loop (p @ t) r a (j + 1)"
      using 2 unfolding loose_loop.simps [of "p @ t" r a i] Let_def nt by simp
    then show ?thesis using "1.IH" [OF refl refl] 2 L "1.prems" by (simp flip: j_def w_def)
  qed
qed

definition closed :: "bytes \<Rightarrow> bool" where
  "closed p \<longleftrightarrow> unfinished (parts p) = None \<and> lead_ok p \<and> plain p"

definition relative :: "bytes \<Rightarrow> bool" where
  "relative q \<longleftrightarrow> anchor_of q = NoAnchor \<and> lead_ok q"

definition appended_parts :: "bytes \<Rightarrow> Parts" where
  "appended_parts p = (case anchor_of p of Unc _ _ \<Rightarrow> (parts p)\<lparr>pt_root := True\<rparr> | Device _ \<Rightarrow> (parts p)\<lparr>pt_root := True\<rparr> | _ \<Rightarrow> parts p)"

lemma drive_len_append:
  assumes "p \<noteq> []" and "lead_ok p" and "drive_len p = None \<Longrightarrow> t \<noteq> [] \<and> is_separator (hd t)"
  shows "drive_len (p @ t) = drive_len p"
proof (cases p)
  case (Cons b r)
  show ?thesis
  proof (cases "unit_len b")
    case (Some u)
    then have u: "u \<le> length p" using assms(2) Cons by (simp add: lead_ok_def)
    then show ?thesis using Some Cons assms(3) by (cases "u = length p"; cases t) (auto simp: drive_len_def nth_append nth_Cons')
  qed (simp add: drive_len_def Cons)
qed (use assms in simp)

lemma device_lead_append: "4 \<le> length p \<Longrightarrow> device_lead (p @ t) = device_lead p"
  by (auto simp: device_lead_def sep_at_def nth_append)

lemma finished_needs:
  assumes "\<not> pt_root (parts p)" and "unfinished (parts p) = None" and "\<And>d r. anchor_of p \<noteq> Drive d r" and "anchor_of p \<noteq> NoAnchor"
  shows "needs_separator_to_append p"
  using assms by (auto simp: needs_separator_to_append_def Let_def anchor_of_def split: Anchor.splits)

lemma loose_loop_anchor: "\<exists>w. pt_anchor (loose_loop p r a i) = a w"
  by (induction p r a i rule: loose_loop.induct) (subst loose_loop.simps, auto simp: Let_def)

lemma loose_parts_anchor [simp]:
  "pt_anchor (loose_parts p r (Unc s)) \<noteq> Device w" "pt_anchor (loose_parts p r (Unc s)) \<noteq> NoAnchor" "pt_anchor (loose_parts p r Device) \<noteq> NoAnchor"
  "pt_anchor (loose_parts p r (Unc s)) \<noteq> Rooted" "pt_anchor (loose_parts p r Device) \<noteq> Rooted"
  using loose_loop_anchor [of p r "Unc s" r] loose_loop_anchor [of p r Device r] by (auto simp: loose_parts_def)

lemma parts_append_loose:
  assumes p: "closed p" "p \<noteq> []" and t: "t \<noteq> []" "is_separator (hd t) \<longleftrightarrow> needs_separator_to_append p"
    and loose: "sep_at p 0" "sep_at p 1" "\<not> device_lead p" "next_separator p 2 = n" "2 \<le> n" "sep_at p n"
      "sep_at p (n + 1) \<or> n + 1 = length p" "parts p = loose_parts p (n + 1) (Unc (slice p 2 n))"
  shows "parts (p @ t) = appended_parts p"
proof -
  obtain w where w: "anchor_of p = Unc (slice p 2 n) w"
    using loose_loop_anchor [of p "n + 1" "Unc (slice p 2 n)" "n + 1"] loose by (auto simp: anchor_of_def loose_parts_def)
  then have wn: "w \<noteq> []" using p by (auto simp: closed_def unfinished_def anchor_of_def split: if_splits)
  have root: "pt_root (parts p) \<or> is_separator (hd t)" using finished_needs [of p] w p t by (auto simp: closed_def)
  have n: "n < length p" "n + 1 \<le> length p" using loose by (auto simp: sep_at_def)
  then have L: "loose_loop (p @ t) (n + 1) (Unc (slice p 2 n)) (n + 1) = (parts p)\<lparr>pt_root := True\<rparr>"
    using loose_loop_append [of "n + 1" p t "n + 1" "Unc (slice p 2 n)"] loose w wn root t by (simp add: loose_parts_def anchor_of_def)
  have "n + 1 \<noteq> length p"
  proof
    assume e: "n + 1 = length p"
    then have "pt_anchor (loose_loop p (n + 1) (Unc (slice p 2 n)) (n + 1)) = Unc (slice p 2 n) []"
      by (subst loose_loop.simps) (simp add: next_separator_def slice_def is_dots_def Let_def)
    then show False using w wn loose by (simp add: anchor_of_def loose_parts_def)
  qed
  then have s: "sep_at p (n + 1)" "4 \<le> length p" using loose by (auto simp: sep_at_def)
  have "unc_parts (p @ t) = (parts p)\<lparr>pt_root := True\<rparr>"
    using L s n loose next_separator_append [of 2 p t] slice_append [of n p t 2]
    by (simp add: unc_parts_def loose_parts_def Let_def sep_at_append)
  then show ?thesis using loose s w device_lead_append [of p t] by (simp add: parts_unc appended_parts_def sep_at_append)
qed

lemma parts_append_strict:
  assumes p: "closed p" "p \<noteq> []" and t: "t \<noteq> []" "is_separator (hd t) \<longleftrightarrow> needs_separator_to_append p"
    and strict: "sep_at p 0" "sep_at p 1" "\<not> device_lead p" "next_separator p 2 = n" "2 \<le> n" "sep_at p n"
      "n + 1 < length p" "\<not> is_separator (p ! (n + 1))" "next_separator p (n + 1) = m" "n + 1 < m" "m \<le> length p"
      "parts p = plain_parts (Unc (slice p 2 n) (slice p (n + 1) m)) m (sep_at p m)"
  shows "parts (p @ t) = appended_parts p"
proof -
  have w: "anchor_of p = Unc (slice p 2 n) (slice p (n + 1) m)" using strict by (simp add: anchor_of_def)
  have "pt_root (parts p) \<or> is_separator (hd t)" using finished_needs [of p] w p t by (auto simp: closed_def)
  then have root: "sep_at p m \<or> is_separator (hd t)" using strict(12) by simp
  have m: "next_separator (p @ t) (n + 1) = m" using next_separator_append [of "n + 1" p t] strict root t by (auto simp: sep_at_def)
  have "sep_at (p @ t) m" using root t(1) strict(7,9,11) next_separator_sep_at [of "n + 1" p] by (auto simp: sep_at_append sep_at_def hd_conv_nth le_less nth_append)
  moreover have "next_separator (p @ t) 2 = n" "slice (p @ t) 2 n = slice p 2 n" "slice (p @ t) (n + 1) m = slice p (n + 1) m"
    using next_separator_append [of 2 p t] strict slice_append by (auto simp: sep_at_def)
  moreover have "\<not> sep_at (p @ t) (n + 1)" "n + 1 \<noteq> length (p @ t)" "sep_at (p @ t) n"
    using strict by (auto simp: sep_at_def nth_append)
  ultimately have "unc_parts (p @ t) = (parts p)\<lparr>pt_root := True\<rparr>" using m strict
    by (simp add: unc_parts_def Let_def plain_parts_def)
  then show ?thesis using strict w device_lead_append [of p t] by (simp add: parts_unc appended_parts_def sep_at_append)
qed

lemma parts_append:
  assumes p: "closed p" "p \<noteq> []" and t: "t \<noteq> []" "is_separator (hd t) \<longleftrightarrow> needs_separator_to_append p"
  shows "parts (p @ t) = appended_parts p"
proof (cases p rule: parts_cases)
  case none
  then have "is_separator (hd t)" using p t by (simp add: needs_separator_to_append_def Let_def)
  then have "drive_len (p @ t) = None" using none p t drive_len_append [of p t] by (simp add: closed_def)
  then show ?thesis using none p by (simp add: parts_def appended_parts_def anchor_of_def sep_at_append)
next
  case (drive n)
  then have d: "drive_len (p @ t) = Some n" "n \<le> length p" using p drive_len_append [of p t] drive_len_bounds [of p n] by (auto simp: closed_def)
  have "sep_at (p @ t) n \<longleftrightarrow> sep_at p n"
  proof (cases "n < length p")
    case False
    then have "\<not> is_separator (hd t)" using t drive d(2) by (auto simp: needs_separator_to_append_def unfinished_def sep_at_def)
    then show ?thesis using False d(2) t(1) by (auto simp: sep_at_def hd_conv_nth nth_append)
  qed (simp add: sep_at_append)
  then show ?thesis using drive d p by (simp add: parts_def appended_parts_def anchor_of_def sep_at_append)
next
  case rooted
  have "\<not> sep_at (p @ t) 1"
  proof (cases "1 < length p")
    case False
    then have "length p = 1" using p(2) by (cases p) auto
    then have "\<not> is_separator (hd t)" using t rooted by (auto simp: needs_separator_to_append_def unfinished_def)
    then show ?thesis using \<open>length p = 1\<close> t(1) by (auto simp: sep_at_def hd_conv_nth nth_append)
  qed (use rooted in \<open>simp add: sep_at_append\<close>)
  then show ?thesis using rooted p(2) by (simp add: parts_def appended_parts_def anchor_of_def sep_at_append)
next
  case device
  obtain w where w: "anchor_of p = Device w" using loose_loop_anchor [of p 4 Device 4] device by (auto simp: anchor_of_def loose_parts_def)
  then have "w \<noteq> []" using p device by (auto simp: closed_def unfinished_def anchor_of_def split: if_splits)
  moreover have "pt_root (parts p) \<or> is_separator (hd t)" using finished_needs [of p] w p t by (auto simp: closed_def)
  ultimately have "loose_loop (p @ t) 4 Device 4 = (parts p)\<lparr>pt_root := True\<rparr>"
    using loose_loop_append [of 4 p t 4 Device] device w t by (simp add: loose_parts_def anchor_of_def sep_at_def)
  moreover have "device_lead (p @ t)" "4 \<le> length p" using device device_lead_append [of p t] by (auto simp: sep_at_def)
  ultimately show ?thesis using device w by (auto simp: parts_def appended_parts_def loose_parts_def device_lead_def sep_at_append)
next
  case (loose n)
  then show ?thesis using parts_append_loose [OF assms] by blast
next
  case (strict n m)
  then show ?thesis using parts_append_strict [OF assms] by blast
qed (use p in \<open>simp_all add: closed_def unfinished_def\<close>)


lemma unfinished_appended: "unfinished (appended_parts p) = unfinished (parts p)"
  by (auto simp: appended_parts_def unfinished_def anchor_of_def split: Anchor.splits)

lemma anchor_appended: "pt_anchor (appended_parts p) = anchor_of p"
  by (auto simp: appended_parts_def anchor_of_def split: Anchor.splits)

lemma loose_loop_root_iff: "i \<le> length p \<Longrightarrow> pt_root (loose_loop p r a i) \<longleftrightarrow> pt_head (loose_loop p r a i) < length p"
proof (induction p r a i rule: loose_loop.induct)
  case (1 p r a i)
  have j: "next_separator p i \<le> length p" using next_separator_bounds 1(2) by auto
  show ?case
  proof (cases "\<not> is_dots (slice p i (next_separator p i)) \<or> next_separator p i = length p")
    case True
    then show ?thesis unfolding loose_loop.simps [of p r a i] Let_def by auto
  next
    case False
    then show ?thesis using 1(1) [OF refl refl] j unfolding loose_loop.simps [of p r a i] Let_def by simp
  qed
qed

lemma root_iff:
  assumes "(case anchor_of p of Unc _ _ \<Rightarrow> True | Device _ \<Rightarrow> True | _ \<Rightarrow> False)"
  shows "pt_root (parts p) \<longleftrightarrow> pt_head (parts p) < length p"
  using assms
proof (cases p rule: parts_cases)
  case device
  then show ?thesis using loose_loop_root_iff [of 4 p 4 Device] by (simp add: loose_parts_def sep_at_def)
next
  case (loose n)
  then show ?thesis using loose_loop_root_iff [of "n + 1" p "n + 1" "Unc (slice p 2 n)"] by (simp add: loose_parts_def sep_at_def)
next
  case (strict n m)
  then show ?thesis using next_separator_sep_at [of "n + 1" p] by auto
qed (auto simp: anchor_of_def)

lemma appended_same: "start p < length p \<or> pt_root (parts p) \<Longrightarrow> appended_parts p = parts p"
  using root_iff [of p] by (auto simp: appended_parts_def start_def parts_start_def split: Anchor.splits)

text \<open>What \<open>append_relative\<close> writes after a path that is not empty.\<close>

definition appended :: "bytes \<Rightarrow> bytes \<Rightarrow> bytes" where
  "appended p q = (if needs_separator_to_append p then [BACKSLASH] else []) @ q"

lemma plain_appended:
  assumes p: "closed p" and z: "parts (p @ t) = appended_parts p"
  shows "plain (p @ t)"
proof (rule notI)
  assume v: "is_verbatim_spelling (p @ t)"
  then have "parts (p @ t) = loose_parts (p @ t) 4 Device" by (auto simp: is_verbatim_nth parts_def sep_at_def is_separator_def)
  then obtain w where "anchor_of p = Device w"
    using loose_loop_anchor [of "p @ t" 4 Device 4] anchor_appended [of p] z by (auto simp: loose_parts_def)
  then have "4 \<le> length p" using p by (cases p rule: parts_cases) (auto simp: anchor_of_def closed_def unfinished_def sep_at_def)
  then show False using p v plain_long_prefix [of p p t] by (simp add: closed_def)
qed

lemma relative_hd: "relative q \<Longrightarrow> q \<noteq> [] \<Longrightarrow> \<not> is_separator (hd q) \<and> start q = 0"
  by (cases q rule: parts_cases) (simp_all add: relative_def anchor_of_def start_def sep_at_def hd_conv_nth)

lemma join_relative:
  assumes "closed p" and "relative q" and "p \<noteq> []" and "q \<noteq> []"
  shows "join p q = p @ appended p q" and "parts (p @ appended p q) = appended_parts p"
proof -
  have h: "\<not> is_separator (hd q)" using relative_hd assms by blast
  show z: "parts (p @ appended p q) = appended_parts p"
    using assms h by (intro parts_append) (auto simp: appended_def is_separator_def)
  then have "plain (p @ appended p q)" using assms plain_appended by blast
  then show "join p q = p @ appended p q"
    using assms by (cases "needs_separator_to_append p")
      (simp_all add: join_def relative_def append_relative_def respell_verbatim_def is_verbatim_spelling_def appended_def)
qed

lemma join_to_Nil:
  assumes "relative q"
  shows "join [] q = q" and "closed q"
proof -
  have plain: "plain q" using relative_hd [OF assms] hd_not_separator_plain by blast
  then show "join [] q = q" using assms
    by (simp add: join_def relative_def append_relative_def respell_verbatim_def is_verbatim_spelling_def)
  show "closed q" using plain assms by (simp add: closed_def relative_def unfinished_def anchor_of_def)
qed

lemma join_relative_Nil: "join p [] = p"
  by (simp add: join_def append_relative_def anchor_of_def parts_def sep_at_def drive_len_def)

lemma components_Nil [simp]: "components [] = []"
  by (simp add: components_def)

lemma components_relative: "relative q \<Longrightarrow> q \<noteq> [] \<Longrightarrow> components q = map component (split_on is_separator q)"
  using relative_hd [of q] by (simp add: components_def)

lemma rooted_root: "anchor_of p = Rooted \<Longrightarrow> pt_root (parts p)"
  by (cases p rule: parts_cases) (simp_all add: anchor_of_def)

text \<open>After an anchor with no component, what is joined is all of the components.\<close>

lemma drop_joined_anchor:
  assumes p: "closed p" "start p = length p" and q: "relative q" "p \<noteq> []" "q \<noteq> []"
  shows "drop (start (join p q)) (join p q) = q"
proof -
  note j = join_relative [OF p(1) q]
  show ?thesis
  proof (cases "pt_root (parts p) \<or> \<not> needs_separator_to_append p")
    case True
    then have n: "\<not> needs_separator_to_append p" using p by (auto simp: needs_separator_to_append_def closed_def start_def)
    then have "pt_root (parts p) \<or> (case anchor_of p of NoAnchor \<Rightarrow> True | Drive _ _ \<Rightarrow> True | _ \<Rightarrow> False)"
      using p by (auto simp: needs_separator_to_append_def closed_def anchor_of_def Let_def split: Anchor.splits)
    then have "appended_parts p = parts p" using appended_same by (auto simp: appended_parts_def split: Anchor.splits)
    then show ?thesis using j n p by (simp add: appended_def start_def)
  next
    case False
    then have "appended_parts p = (parts p)\<lparr>pt_root := True\<rparr>" using p rooted_root [of p]
      by (auto simp: appended_parts_def needs_separator_to_append_def Let_def closed_def anchor_of_def start_def unfinished_def split: Anchor.splits)
    then show ?thesis using j False p by (simp add: appended_def start_def parts_start_def)
  qed
qed

lemma join_components:
  assumes "closed p" and "relative q"
  shows "components (join p q) = components p @ components q"
proof -
  consider "p = []" | "q = []" | "p \<noteq> []" "q \<noteq> []" "start p < length p" | "p \<noteq> []" "q \<noteq> []" "start p = length p"
    using start_le [of p] by fastforce
  then show ?thesis
  proof cases
    case 1
    then show ?thesis using join_to_Nil [OF assms(2)] by simp
  next
    case 2
    then show ?thesis by (simp add: join_relative_Nil)
  next
    case 3
    note j = join_relative [OF assms 3(1,2)]
    have "needs_separator_to_append p" using 3 by (simp add: needs_separator_to_append_def start_def)
    moreover have "start (join p q) = start p" using j 3 by (simp add: appended_same start_def)
    ultimately have "components (join p q) = map component (split_on is_separator (drop (start p) p @ BACKSLASH # q))"
      using j 3 by (simp add: components_def appended_def)
    then show ?thesis using components_relative [OF assms(2)] 3 by (simp add: split_on_append_sep is_separator_def components_def)
  next
    case 4
    then show ?thesis using drop_joined_anchor [OF assms(1) 4(3) assms(2) 4(1,2)] components_relative [OF assms(2)]
      by (simp add: components_def Let_def)
  qed
qed

lemma lead_ok_append: "p \<noteq> [] \<Longrightarrow> lead_ok p \<Longrightarrow> lead_ok (p @ t)"
  by (cases p) (auto simp: lead_ok_def split: option.splits)

lemma join_closed:
  assumes "closed p" and "relative q"
  shows "closed (join p q)"
proof -
  consider "p = []" | "q = []" | "p \<noteq> []" "q \<noteq> []" by blast
  then show ?thesis
  proof cases
    case 3
    note j = join_relative [OF assms 3]
    then show ?thesis using assms 3 plain_appended [OF assms(1) j(2)] lead_ok_append
      by (simp add: closed_def unfinished_appended)
  qed (use assms join_to_Nil join_relative_Nil in simp_all)
qed

interpretation win: pure_path components join parent file_name relative closed
proof
  show "closed p \<Longrightarrow> relative q \<Longrightarrow> components (join p q) = components p @ components q" for p q by (rule join_components)
  show "closed p \<Longrightarrow> relative q \<Longrightarrow> closed (join p q)" for p q by (rule join_closed)
  show "parent p = None \<longleftrightarrow> components p = []" for p by (auto simp: parent_def components_def Let_def)
  show "parent p = Some r \<Longrightarrow> components r = (if butlast (components p) = [Empty] then [] else butlast (components p))" for p r
    by (rule components_parent)
  show "file_name p = (if components p = [] then None else normal_name (last (components p)))" for p
    by (auto simp: file_name_def split: Component.splits)
qed

section \<open>Paths of UTF-16 text\<close>

unbundle bit_operations_syntax

lemma continuation_no_separator: "n < 64 \<Longrightarrow> \<not> is_separator (byte (0x80 + n))" "\<not> is_separator (0x80 OR b)"
proof -
  assume "n < 64"
  then show "\<not> is_separator (byte (0x80 + n))" using cont_byte [of n] by (auto simp: is_separator_def cont_def)
next
  have "bit (0x80 OR b :: u8) 7" by (simp add: bit_or_iff)
  then show "\<not> is_separator (0x80 OR b)" by (auto simp: is_separator_def simp del: bit_or_iff)
qed

lemma lead_ok_char: "scalar c \<Longrightarrow> lead_ok (encode_utf8 c @ t)"
  by (erule encode_utf8_cases) (auto simp: lead_ok_def unit_len_def byte_numerals continuation_no_separator)

lemma lead_ok_surrogate:
  assumes "high_surrogate u \<or> low_surrogate u"
  shows "lead_ok (surrogate_bytes u @ t)"
proof -
  have "hd (surrogate_bytes u) = 0xED" using surrogate_bytes_read(1) [OF assms, of t] by (simp add: is_surrogate_def surrogate_bytes_def)
  then show ?thesis by (simp add: lead_ok_def surrogate_bytes_def unit_len_def continuation_no_separator)
qed

lemma lead_ok_from_wide: "lead_ok (from_wide units)"
proof (cases "decode_utf16 units")
  case Nil
  then show ?thesis by (simp add: from_wide_def lead_ok_def)
next
  case (Cons x xs)
  moreover have "item_ok x" using decode_utf16_ok [of units] Cons by simp
  ultimately show ?thesis by (cases x) (auto simp: from_wide_def item_ok_def lead_ok_char lead_ok_surrogate)
qed

section \<open>Properties\<close>

text \<open>C37: The stored text of a Windows path never starts with the verbatim prefix, however the path was made: parsed, joined,
  popped, renamed, normalised, or taken as the parent or as the rest of a UNC path. Parsing that text gives the path back.\<close>

theorem stored_text_is_plain: "Stored p \<Longrightarrow> \<not> is_verbatim_spelling p \<and> parse p = Inr p"
  using Stored_plain parse_plain by blast

theorem stored_text_is_plain_witness:
  "\<not> is_verbatim_spelling (join [BACKSLASH, BACKSLASH, QUESTION] [0x78]) \<and>
   join [BACKSLASH, BACKSLASH, QUESTION] [0x78] = [BACKSLASH, BACKSLASH, QUESTION, SLASH, 0x78]"
proof -
  have "parse [BACKSLASH, BACKSLASH, QUESTION] = Inr [BACKSLASH, BACKSLASH, QUESTION]" "parse [0x78] = Inr [0x78]" by code_simp+
  then have "Stored (join [BACKSLASH, BACKSLASH, QUESTION] [0x78])" by (intro Joined Parsed)
  then show ?thesis using stored_text_is_plain [of "join [BACKSLASH, BACKSLASH, QUESTION] [0x78]"] by (auto) code_simp
qed

text \<open>\<open>join\<close> of a path whose anchor is complete with a relative path has the components of both, in order; the file name is the
  joined one's, and the parent of a path with one name joined has the components of the path. The components with the anchor's text spell the path.\<close>

theorem windows_join:
  assumes "closed p" and "relative q"
  shows "components (join p q) = components p @ components q
    \<and> (components q \<noteq> [] \<longrightarrow> file_name (join p q) = file_name q)
    \<and> (\<forall>c. components q = [c] \<and> components p \<noteq> [Empty] \<longrightarrow> (\<exists>r. parent (join p q) = Some r \<and> components r = components p))
    \<and> path_eq (join p q) (take (start (join p q)) (join p q) @ intercalate BACKSLASH (map component_text (components p @ components q)))"
proof -
  have c: "components (join p q) = components p @ components q" using assms by (rule win.components_join)
  have "path_eq (join p q) (take (start (join p q)) (join p q) @ intercalate BACKSLASH (map component_text (components p @ components q)))"
    using components_spell [of "join p q"] unfolding c .
  moreover have "components q \<noteq> [] \<longrightarrow> file_name (join p q) = file_name q" using win.file_name_join [OF assms] by blast
  moreover have "\<forall>x. components q = [x] \<and> components p \<noteq> [Empty] \<longrightarrow> (\<exists>r. parent (join p q) = Some r \<and> components r = components p)"
    using win.parent_join [OF assms] by blast
  ultimately show ?thesis using c by (intro conjI)
qed

theorem windows_join_witness:
  "components (join [BACKSLASH, BACKSLASH, 0x73, BACKSLASH, 0x68, SLASH, 0x61] [0x62, SLASH, DOT]) = [Normal [0x61], Normal [0x62], CurDir]"
proof -
  have p: "closed [BACKSLASH, BACKSLASH, 0x73, BACKSLASH, 0x68, SLASH, 0x61]" "relative [0x62, SLASH, DOT]" by code_simp+
  have c: "components [BACKSLASH, BACKSLASH, 0x73, BACKSLASH, 0x68, SLASH, 0x61] = [Normal [0x61]]" "components [0x62, SLASH, DOT] = [Normal [0x62], CurDir]" by code_simp+
  show ?thesis using windows_join [OF p] unfolding c by simp
qed

text \<open>Two Windows paths compare as equal exactly when they are equal, that is when they differ in nothing but the choice of
  separator; equal paths have the same anchor and components. This holds of every path read from UTF-16.\<close>

theorem windows_order_agrees:
  assumes "lead_ok p" and "lead_ok q"
  shows "(cmp p q = Equal \<longleftrightarrow> path_eq p q) \<and> (path_eq p q \<longrightarrow> anchor_of p = anchor_of q \<and> components p = components q)
    \<and> lead_ok (from_wide units)"
  using assms path_eq_parts [of p q] lead_ok_from_wide by (auto simp: cmp_def path_eq_fold anchor_of_def)

theorem windows_order_agrees_witness:
  "cmp [0x43, COLON, SLASH, 0x61] [0x43, COLON, BACKSLASH, 0x61] = Equal"
proof -
  have "lead_ok [0x43, COLON, SLASH, 0x61]" "lead_ok [0x43, COLON, BACKSLASH, 0x61]" by code_simp+
  moreover have "path_eq [0x43, COLON, SLASH, 0x61] [0x43, COLON, BACKSLASH, 0x61]" by code_simp
  ultimately show ?thesis using windows_order_agrees [of "[0x43, COLON, SLASH, 0x61]" "[0x43, COLON, BACKSLASH, 0x61]"] by blast
qed

end
