(* ===== verification/Path_Win32.thy ===== *)
theory Path_Win32
  imports Path_Windows
begin

text \<open>
  \<^verbatim>\<open>src/cosca-path/src/windows/convert.rs\<close>: the strings a Windows path converts to, and Win32's reading of it. An index into the segments
  is a position in their list. \<open>None\<close> of \<open>win32_reading\<close> is the panic of its \<^verbatim>\<open>unreachable!\<close>; \<^verbatim>\<open>debug_assert!\<close> is off.
\<close>

section \<open>Errors\<close>

abbreviation SPACE :: u8 where "SPACE \<equiv> 0x20"

definition NT_PREFIX :: bytes where
  "NT_PREFIX = [BACKSLASH, QUESTION, QUESTION, BACKSLASH]"

datatype ConversionReason =
  TrailingDotOrSpace | SingleTrailingDot | ReservedName | InteriorNul | NotFullyQualified | DotComponent | NtPrefix | EmptyComponent | EmptyPath

record ConversionError =
  reason :: ConversionReason
  about :: "bytes option"

definition conversion_error :: "ConversionReason \<Rightarrow> bytes option \<Rightarrow> ConversionError" where
  "conversion_error r c = \<lparr>reason = r, about = c\<rparr>"

section \<open>Names\<close>

datatype Role = Server | Share | ComponentRole

record Segment =
  sg_text :: bytes
  sg_role :: Role

record Navigation =
  nv_kept :: "nat list"
  nv_trailing :: bool

definition has_single_trailing_dot :: "bytes \<Rightarrow> bool" where
  "has_single_trailing_dot name = (case rev name of
      a # b # _ \<Rightarrow> if a = DOT \<and> b = DOT then False else a = DOT
    | _ \<Rightarrow> False)"

definition ends_in_dot_or_space :: "bytes \<Rightarrow> bool" where
  "ends_in_dot_or_space name \<longleftrightarrow> name \<noteq> [] \<and> (last name = DOT \<or> last name = SPACE)"

definition trim_trailing_dots_and_spaces :: "bytes \<Rightarrow> bytes" where
  "trim_trailing_dots_and_spaces name = rev (dropWhile (\<lambda>b. b = DOT \<or> b = SPACE) (rev name))"

definition is_reserved :: "bytes \<Rightarrow> bool" where
  "is_reserved name = (
     let stem_end = (case position (\<lambda>b. b = DOT \<or> b = COLON) name of None \<Rightarrow> length name | Some i \<Rightarrow> i);
         stem = rev (dropWhile (\<lambda>b. b = SPACE) (rev (take stem_end name)));
         fixed = map ascii [''CON'', ''PRN'', ''AUX'', ''NUL'', ''CONIN$'', ''CONOUT$'']
     in if list_ex (eq_ignore_ascii_case stem) fixed then True
        else if length stem < 4 then False
        else
          let pre = take 3 stem; digit = drop 3 stem
          in (eq_ignore_ascii_case pre (ascii ''COM'') \<or> eq_ignore_ascii_case pre (ascii ''LPT''))
             \<and> (case digit of
                  [d] \<Rightarrow> 0x31 \<le> d \<and> d \<le> 0x39
                | [d, e] \<Rightarrow> d = 0xC2 \<and> e \<in> {0xB9, 0xB2, 0xB3}
                | _ \<Rightarrow> False))"

record ReservedNames =
  rn_last :: "bytes option"
  rn_first :: "bytes option"

section \<open>Win32's reading\<close>

definition component_segment :: "bytes \<Rightarrow> Segment" where
  "component_segment t = \<lparr>sg_text = t, sg_role = ComponentRole\<rparr>"

definition segments :: "bytes \<Rightarrow> Segment list" where
  "segments p = (
     let pt = parts p
     in case pt_loose_root pt of
          Some root \<Rightarrow> map component_segment (split_on is_separator (drop root p))
        | None \<Rightarrow>
            (case pt_anchor pt of
               Unc server share \<Rightarrow> \<lparr>sg_text = server, sg_role = Server\<rparr> #
                 (if 2 + length server < pt_head pt then [\<lparr>sg_text = share, sg_role = Share\<rparr>] else [])
             | _ \<Rightarrow> [])
            @ map (\<lambda>c. component_segment (component_text c)) (components p))"

definition navigate_step :: "Navigation \<Rightarrow> nat \<times> Segment \<Rightarrow> Navigation" where
  "navigate_step nav x = (case x of (i, segment) \<Rightarrow>
     if sg_role segment \<noteq> ComponentRole then nav
     else
       let nav = nav\<lparr>nv_trailing := (sg_text segment = [])\<rparr>
       in if sg_text segment = [] \<or> sg_text segment = [DOT] then nav
          else if sg_text segment = [DOT, DOT] then nav\<lparr>nv_kept := butlast (nv_kept nav)\<rparr>
          else nav\<lparr>nv_kept := nv_kept nav @ [i]\<rparr>)"

definition ends_in_separator :: "bytes \<Rightarrow> bool" where
  "ends_in_separator p \<longleftrightarrow> p \<noteq> [] \<and> is_separator (last p)"

definition navigate :: "bytes \<Rightarrow> Segment list \<Rightarrow> Navigation" where
  "navigate p segs = (
     let nav = foldl navigate_step \<lparr>nv_kept = [], nv_trailing = False\<rparr> (List.enumerate 0 segs)
     in nav\<lparr>nv_trailing := nv_trailing nav \<or> ends_in_separator p\<rparr>)"

definition reading_end :: "Segment list \<Rightarrow> Navigation \<Rightarrow> Segment option" where
  "reading_end segs nav =
     (if nv_trailing nav then None
      else if nv_kept nav \<noteq> [] then Some (segs ! last (nv_kept nav))
      else find (\<lambda>s. sg_role s = Server \<or> sg_role s = Share) (rev segs))"

definition nul_piece :: "bytes \<Rightarrow> bytes option" where
  "nul_piece p = find (\<lambda>piece. 0 \<in> set piece) (split_on is_separator p)"

definition only_if :: "bool \<Rightarrow> bytes option \<Rightarrow> bytes option" where
  "only_if b x = (if b then x else None)"

definition reserved_names :: "bytes \<Rightarrow> ReservedNames" where
  "reserved_names p = (
     let anchor = anchor_of p;
         cs = components p;
         first = (if cs = [] then None else normal_name (hd cs));
         last = (if cs = [] then None else normal_name (last cs))
     in if (case anchor of Unc _ _ \<Rightarrow> True | Device _ \<Rightarrow> True | _ \<Rightarrow> False) then \<lparr>rn_last = None, rn_first = None\<rparr>
        else
          \<lparr>rn_last = Option.bind last (\<lambda>name. only_if (is_reserved name) (Some name)),
           rn_first = (case anchor of
               Rooted \<Rightarrow> Option.bind first (\<lambda>name. only_if (name \<noteq> [] \<and> hd name = COLON \<and> is_reserved (tl name)) (Some name))
             | NoAnchor \<Rightarrow> Option.bind first (\<lambda>name. only_if (is_reserved name) (Some name))
             | Drive _ rooted \<Rightarrow> if rooted then None else Option.bind first (\<lambda>name. only_if (is_reserved name) (Some name))
             | _ \<Rightarrow> None)\<rparr>)"

definition check_win32 :: "bytes \<Rightarrow> bool \<Rightarrow> bool \<Rightarrow> ConversionError + unit" where
  "check_win32 p need_fully_qualified spell = (case nul_piece p of
      Some piece \<Rightarrow> Inl (conversion_error InteriorNul (Some piece))
    | None \<Rightarrow>
        if \<not> spell \<and> prefix NT_PREFIX p then Inl (conversion_error NtPrefix (Some [QUESTION, QUESTION]))
        else if need_fully_qualified \<and> \<not> is_fully_qualified p then Inl (conversion_error NotFullyQualified None)
        else
          let reserved = reserved_names p
          in case (case rn_last reserved of Some n \<Rightarrow> Some n | None \<Rightarrow> rn_first reserved) of
               Some name \<Rightarrow> if spell then Inr () else Inl (conversion_error ReservedName (Some name))
             | None \<Rightarrow> Inr ())"

section \<open>Strings for Win32\<close>

definition single_dot :: "Segment list \<Rightarrow> Navigation \<Rightarrow> nat option" where
  "single_dot segs nav = find (\<lambda>k. \<not> (\<not> nv_trailing nav \<and> last (nv_kept nav) = k) \<and> has_single_trailing_dot (sg_text (segs ! k))) (nv_kept nav)"

definition spelled :: "bytes \<Rightarrow> bytes" where
  "spelled p = (
     let reserved = reserved_names p;
         at = start p;
         out = take at p;
         out = (if rn_first reserved \<noteq> None \<or> prefix NT_PREFIX p then out @ [DOT, BACKSLASH] else out);
         out = out @ drop at p
     in if rn_last reserved \<noteq> None then out @ [BACKSLASH, DOT] else out)"

definition win32_string :: "bytes \<Rightarrow> bool \<Rightarrow> ConversionError + bytes" where
  "win32_string p spell =
     (if p = [] then Inl (conversion_error EmptyPath None)
      else (case check_win32 p False spell of
          Inl e \<Rightarrow> Inl e
        | Inr _ \<Rightarrow>
            let segs = segments p;
                nav = navigate p segs
            in case Option.bind (reading_end segs nav) (\<lambda>e. if ends_in_dot_or_space (sg_text e) then Some e else None) of
                 Some e \<Rightarrow> Inl (conversion_error TrailingDotOrSpace (Some (sg_text e)))
               | None \<Rightarrow> (case single_dot segs nav of
                   Some k \<Rightarrow> Inl (conversion_error SingleTrailingDot (Some (sg_text (segs ! k))))
                 | None \<Rightarrow>
                     if rn_first (reserved_names p) = None \<and> rn_last (reserved_names p) = None \<and> \<not> prefix NT_PREFIX p then Inr p
                     else Inr (spelled p))))"

definition to_win32_string :: "bytes \<Rightarrow> ConversionError + bytes" where
  "to_win32_string p = win32_string p False"

text \<open>The loop over the components, with the index of the next and their number.\<close>

fun verbatim_components :: "nat \<Rightarrow> nat \<Rightarrow> bytes Component list \<Rightarrow> ConversionError + unit" where
  "verbatim_components i n [] = Inr ()"
| "verbatim_components i n (c # cs) = (case c of
      CurDir \<Rightarrow> Inl (conversion_error DotComponent (Some (component_text c)))
    | ParentDir \<Rightarrow> Inl (conversion_error DotComponent (Some (component_text c)))
    | Empty \<Rightarrow> if i + 1 < n then Inl (conversion_error EmptyComponent (Some [])) else verbatim_components (i + 1) n cs
    | Normal _ \<Rightarrow> verbatim_components (i + 1) n cs)"

definition has_verbatim_form :: "bytes \<Rightarrow> bool" where
  "has_verbatim_form p = (case anchor_of p of
      Drive _ rooted \<Rightarrow> rooted
    | Unc _ _ \<Rightarrow> True
    | Device _ \<Rightarrow> 3 < length p
    | _ \<Rightarrow> False)"

definition verbatim_rest :: "bytes \<Rightarrow> bytes" where
  "verbatim_rest p = (case (anchor_of p, loose_name_start p) of
      (Unc server _, Some s) \<Rightarrow> ascii ''UNC'' @ [BACKSLASH] @ server @ [BACKSLASH] @ drop s p
    | (Unc _ _, None) \<Rightarrow> ascii ''UNC'' @ [BACKSLASH] @ drop 2 p
    | (_, Some s) \<Rightarrow> drop s p
    | _ \<Rightarrow> p)"

definition to_verbatim :: "bytes \<Rightarrow> ConversionError + bytes" where
  "to_verbatim p = (case nul_piece p of
      Some piece \<Rightarrow> Inl (conversion_error InteriorNul (Some piece))
    | None \<Rightarrow>
        if \<not> has_verbatim_form p then Inl (conversion_error NotFullyQualified None)
        else (case verbatim_components 0 (length (components p)) (components p) of
            Inl e \<Rightarrow> Inl e
          | Inr _ \<Rightarrow> Inr (VERBATIM @ map fold_separator (verbatim_rest p))))"

definition has_pure_reading :: "bytes \<Rightarrow> bool" where
  "has_pure_reading p \<longleftrightarrow> is_fully_qualified p \<or> (case anchor_of p of Unc _ _ \<Rightarrow> True | _ \<Rightarrow> False)"

text \<open>The names and the trailing separator that a reading ends with, after its last name is trimmed.\<close>

definition trimmed_names :: "bool \<Rightarrow> bytes list \<Rightarrow> bool \<Rightarrow> bytes list \<times> bool" where
  "trimmed_names strip names trailing =
     (if strip \<and> \<not> trailing \<and> names \<noteq> [] then
        let l = trim_trailing_dots_and_spaces (last names)
        in if l = [] then (butlast names, True) else (butlast names @ [l], trailing)
      else (names, trailing))"

definition push_name :: "bytes \<Rightarrow> bytes \<Rightarrow> bytes" where
  "push_name out name = (if out \<noteq> [] \<and> last out = BACKSLASH then out else out @ [BACKSLASH]) @ name"

definition reading_names :: "bytes \<Rightarrow> bool \<Rightarrow> bytes list" where
  "reading_names p strip = map (\<lambda>k.
     let t = sg_text (segments p ! k)
     in if strip \<and> has_single_trailing_dot t then butlast t else t) (nv_kept (navigate p (segments p)))"

definition reading_anchor :: "bytes \<Rightarrow> bool \<Rightarrow> bool \<Rightarrow> bytes" where
  "reading_anchor p strip nameless = (
     let pt = parts p;
         share = (case pt_anchor pt of Unc _ s \<Rightarrow> if pt_loose_root pt = None then s else [] | _ \<Rightarrow> []);
         no_share = (share = []);
         share = (if strip \<and> nameless then trim_trailing_dots_and_spaces share else share)
     in case pt_anchor pt of
          Drive _ _ \<Rightarrow> take (pt_head pt) p @ [BACKSLASH]
        | Unc server _ \<Rightarrow>
            if no_share \<and> pt_loose_root pt = None then [BACKSLASH, BACKSLASH] @ server
            else [BACKSLASH, BACKSLASH] @ server @ [BACKSLASH] @ share
        | _ \<Rightarrow> [BACKSLASH, BACKSLASH, p ! 2, BACKSLASH])"

definition reading_text :: "bytes \<Rightarrow> bool \<Rightarrow> bytes" where
  "reading_text p strip = (
     let nav = navigate p (segments p);
         (names, trailing) = trimmed_names strip (reading_names p strip) (nv_trailing nav);
         out = reading_anchor p strip (\<not> nv_trailing nav \<and> nv_kept nav = []);
         out = foldl push_name out names
     in if trailing \<and> \<not> (out \<noteq> [] \<and> last out = BACKSLASH) then out @ [BACKSLASH] else out)"

definition win32_reading :: "bytes \<Rightarrow> bool \<Rightarrow> bytes option" where
  "win32_reading p strip = (
     let out = reading_text p strip
     in case parse out of
          Inr reading \<Rightarrow> Some reading
        | Inl UnspellableUncServer \<Rightarrow> Some (out[2 := DOT])
        | Inl _ \<Rightarrow> None)"

definition win32_normalized :: "bytes \<Rightarrow> (ConversionError + bytes) option" where
  "win32_normalized p = (case check_win32 p True False of
      Inl e \<Rightarrow> Some (Inl e)
    | Inr _ \<Rightarrow> map_option (\<lambda>reading. case rn_last (reserved_names reading) of
          Some name \<Rightarrow> Inl (conversion_error ReservedName (Some name))
        | None \<Rightarrow> Inr reading) (win32_reading p True))"

text \<open>The string that \<^verbatim>\<open>Path::to_wide\<close> gives as UTF-16.\<close>

definition wide_string :: "bytes \<Rightarrow> (ConversionError + bytes) option" where
  "wide_string p = (case nul_piece p of
      Some piece \<Rightarrow> Some (Inl (conversion_error InteriorNul (Some piece)))
    | None \<Rightarrow> (case to_win32_string p of
        Inr text \<Rightarrow> Some (Inr text)
      | Inl _ \<Rightarrow>
          (case (if has_pure_reading p then map_option to_verbatim (win32_reading p False) else Some (to_verbatim p)) of
             None \<Rightarrow> None
           | Some (Inr verbatim) \<Rightarrow> Some (Inr verbatim)
           | Some (Inl e) \<Rightarrow> if reason e = NotFullyQualified then Some (win32_string p True) else Some (Inl e))))"

definition path_to_wide :: "bytes \<Rightarrow> (ConversionError + u16 list) option" where
  "path_to_wide p = Option.bind (wide_string p) (\<lambda>r. case r of
      Inl e \<Rightarrow> Some (Inl e)
    | Inr s \<Rightarrow> map_option Inr (to_wide s))"

section \<open>Names that are kept\<close>

abbreviation clean :: "bytes \<Rightarrow> bool" where
  "clean \<equiv> list_all (\<lambda>b. \<not> is_separator b)"

definition name_ok :: "bytes \<Rightarrow> bool" where
  "name_ok w \<longleftrightarrow> \<not> is_dots w \<and> clean w"

lemma component_text_clean: "c \<in> set (components p) \<Longrightarrow> clean (component_text c)"
  by (auto simp: components_def Let_def dest: split_on_pieces split: if_splits)

lemma segment_clean: "s \<in> set (segments p) \<Longrightarrow> sg_role s = ComponentRole \<Longrightarrow> clean (sg_text s)"
  by (auto simp: segments_def Let_def component_segment_def dest: split_on_pieces component_text_clean
      split: option.splits Anchor.splits if_splits)

definition kept_ok :: "Segment list \<Rightarrow> Navigation \<Rightarrow> bool" where
  "kept_ok segs nav \<longleftrightarrow> (\<forall>k \<in> set (nv_kept nav). k < length segs \<and> sg_role (segs ! k) = ComponentRole \<and> \<not> is_dots (sg_text (segs ! k)))"

lemma navigate_step_ok:
  "kept_ok segs nav \<Longrightarrow> i < length segs \<Longrightarrow> kept_ok segs (navigate_step nav (i, segs ! i))"
  by (auto simp: kept_ok_def navigate_step_def Let_def is_dots_def dest: in_set_butlastD)

lemma navigate_fold_ok:
  "kept_ok segs nav \<Longrightarrow> \<forall>(i, s) \<in> set xs. i < length segs \<and> s = segs ! i \<Longrightarrow> kept_ok segs (foldl navigate_step nav xs)"
  by (induction xs arbitrary: nav) (auto simp: navigate_step_ok)

lemma navigate_ok: "kept_ok segs (navigate p segs)"
proof -
  have "\<forall>(i, s) \<in> set (List.enumerate 0 segs). i < length segs \<and> s = segs ! i" by (auto simp: in_set_enumerate_eq)
  then have "kept_ok segs (foldl navigate_step \<lparr>nv_kept = [], nv_trailing = False\<rparr> (List.enumerate 0 segs))"
    by (intro navigate_fold_ok) (simp_all add: kept_ok_def)
  then show ?thesis by (simp add: navigate_def Let_def kept_ok_def)
qed

lemma name_ok_last: "w \<noteq> [] \<Longrightarrow> last w \<noteq> DOT \<Longrightarrow> clean w \<Longrightarrow> name_ok w"
  by (auto simp: name_ok_def is_dots_def)

lemma name_ok_butlast:
  assumes "name_ok w" and "has_single_trailing_dot w"
  shows "name_ok (butlast w)"
proof -
  obtain b v where v: "rev w = DOT # b # v" "b \<noteq> DOT"
    using assms(2) unfolding has_single_trailing_dot_def by (cases "rev w"; cases "tl (rev w)") (simp_all split: if_splits)
  then have "w = rev v @ [b, DOT]" using arg_cong [OF v(1), of rev] by simp
  with v(2) assms(1) show ?thesis by (intro name_ok_last) (simp_all add: butlast_append name_ok_def)
qed

lemma trim_last:
  assumes "trim_trailing_dots_and_spaces w \<noteq> []"
  shows "last (trim_trailing_dots_and_spaces w) \<noteq> DOT"
  using assms hd_dropWhile [of "\<lambda>b. b = DOT \<or> b = SPACE" "rev w"] by (simp add: trim_trailing_dots_and_spaces_def last_rev)

lemma clean_trim: "clean w \<Longrightarrow> clean (trim_trailing_dots_and_spaces w)"
  by (auto simp: trim_trailing_dots_and_spaces_def list_all_iff dest: set_dropWhileD)

lemma name_ok_trim: "name_ok w \<Longrightarrow> trim_trailing_dots_and_spaces w \<noteq> [] \<Longrightarrow> name_ok (trim_trailing_dots_and_spaces w)"
  by (intro name_ok_last trim_last clean_trim) (simp_all add: name_ok_def)

lemma reading_names_ok: "list_all name_ok (reading_names p strip)"
proof -
  have "name_ok (sg_text (segments p ! k))" if "k \<in> set (nv_kept (navigate p (segments p)))" for k
    using navigate_ok [of "segments p" p] that segment_clean [of "segments p ! k" p] by (auto simp: kept_ok_def name_ok_def)
  then show ?thesis by (auto simp: reading_names_def list_all_iff Let_def name_ok_butlast)
qed

lemma trimmed_names_ok: "list_all name_ok names \<Longrightarrow> list_all name_ok (fst (trimmed_names strip names trailing))"
  by (auto simp: trimmed_names_def Let_def list_all_iff name_ok_trim dest: in_set_butlastD)

section \<open>Texts of kept names\<close>

lemma is_separator_consts [simp]: "is_separator BACKSLASH" "is_separator SLASH"
  by (simp_all add: is_separator_def)

text \<open>Names with one separator between them, and perhaps one at the end.\<close>

definition pieces_ok :: "bytes list \<Rightarrow> bool" where
  "pieces_ok ws \<longleftrightarrow> ws \<noteq> [] \<and> list_all name_ok (butlast ws) \<and> (last ws = [] \<or> name_ok (last ws))"

definition spell :: "bytes list \<Rightarrow> bytes" where
  "spell ws = intercalate BACKSLASH ws"

definition good_components :: "bytes Component list \<Rightarrow> bool" where
  "good_components cs \<longleftrightarrow> (\<forall>c \<in> set (butlast cs). \<exists>w. c = Normal w) \<and> (cs \<noteq> [] \<longrightarrow> last cs = Empty \<or> (\<exists>w. last cs = Normal w))"

lemma pieces_ok_clean: "pieces_ok ws \<Longrightarrow> w \<in> set ws \<Longrightarrow> clean w"
  by (cases ws rule: rev_cases) (auto simp: pieces_ok_def name_ok_def list_all_iff)

lemma pieces_ok_Cons: "pieces_ok (w # ws) \<longleftrightarrow> (if ws = [] then w = [] \<or> name_ok w else name_ok w \<and> pieces_ok ws)"
  by (auto simp: pieces_ok_def)

lemma spell_Cons: "ws \<noteq> [] \<Longrightarrow> spell (w # ws) = w @ BACKSLASH # spell ws"
  by (simp add: spell_def intercalate_Cons)

lemma spell_single [simp]: "spell [w] = w"
  by (simp add: spell_def)

lemma split_spell: "ws \<noteq> [] \<Longrightarrow> (\<And>w. w \<in> set ws \<Longrightarrow> clean w) \<Longrightarrow> split_on is_separator (spell ws) = ws"
proof (induction ws)
  case (Cons w ws)
  then have w: "split_on is_separator w = [w]" by (simp add: split_on_no_sep)
  show ?case
  proof (cases "ws = []")
    case False
    then show ?thesis using Cons w by (simp add: spell_Cons split_on_append_sep)
  qed (use w in simp)
qed simp

lemma component_name_ok: "name_ok w \<Longrightarrow> component w = Normal w"
  by (auto simp: component_def name_ok_def is_dots_def)

lemma good_pieces: "pieces_ok ws \<Longrightarrow> good_components (map component ws)"
  by (cases ws rule: rev_cases) (auto simp: pieces_ok_def good_components_def list_all_iff component_name_ok map_butlast)

lemma good_verbatim: "good_components cs \<Longrightarrow> i + length cs = n \<Longrightarrow> verbatim_components i n cs = Inr ()"
proof (induction cs arbitrary: i)
  case (Cons c cs)
  have "cs \<noteq> [] \<Longrightarrow> \<exists>w. c = Normal w" "good_components cs" using Cons(2) by (auto simp: good_components_def split: if_splits)
  moreover have "cs = [] \<Longrightarrow> c = Empty \<or> (\<exists>w. c = Normal w)" using Cons(2) by (simp add: good_components_def)
  ultimately show ?case using Cons(1) [of "i + 1"] Cons(3) by (cases "cs = []") auto
qed simp

lemma good_not_navigated:
  assumes "good_components (components q)" and "pt_loose_root (parts q) = None \<or> loose_name_start q = pt_loose_root (parts q)"
  shows "\<not> has_navigated_name q"
proof -
  define cs where "cs = components q"
  have "(\<exists>w. cs ! i = Normal w) \<or> cs ! i = Empty \<and> i = length cs - 1" if "i < length cs" for i
  proof (cases "i = length cs - 1")
    case True
    then show ?thesis using that assms(1) by (auto simp: good_components_def cs_def last_conv_nth)
  next
    case False
    then have "cs ! i \<in> set (butlast cs)" using that by (metis length_butlast nth_butlast nth_mem less_SucE Suc_pred' length_pos_if_in_set nth_mem)
    then show ?thesis using assms(1) by (auto simp: good_components_def cs_def)
  qed
  then have "\<not> list_ex (\<lambda>(i, c). case c of CurDir \<Rightarrow> True | ParentDir \<Rightarrow> True | Empty \<Rightarrow> i \<noteq> length cs - 1 | Normal _ \<Rightarrow> False)
      (List.enumerate 0 cs)"
    by (fastforce simp: list_ex_iff in_set_enumerate_eq split: Component.splits)
  moreover have "\<not> (case pt_loose_root (parts q) of None \<Rightarrow> False | Some root \<Rightarrow> loose_name_start q \<noteq> Some root)"
    using assms(2) by (auto split: option.splits)
  ultimately show ?thesis unfolding has_navigated_name_def Let_def cs_def [symmetric] by blast
qed

lemma next_separator_piece:
  assumes "clean w" and "t = [] \<or> is_separator (hd t)"
  shows "next_separator (a @ w @ t) (length a) = length a + length w"
proof -
  have w: "position is_separator w = None" using assms(1) by (auto simp: position_None_iff list_all_iff)
  show ?thesis
  proof (cases t)
    case (Cons b r)
    then show ?thesis using assms(2) w by (simp add: next_separator_def position_append)
  qed (use w in \<open>simp add: next_separator_def\<close>)
qed

lemma slice_piece: "slice (a @ w @ t) (length a) (length a + length w) = w"
  by (simp add: slice_def)

text \<open>A path that converts to a verbatim string: it has such a form and its components keep their names there.\<close>

definition verbatim_ready :: "bytes \<Rightarrow> bool" where
  "verbatim_ready q \<longleftrightarrow> has_verbatim_form q \<and> good_components (components q)
     \<and> (pt_loose_root (parts q) = None \<or> loose_name_start q = pt_loose_root (parts q))"

lemma split_on_subset: "w \<in> set (split_on P xs) \<Longrightarrow> set w \<subseteq> set xs"
proof (induction xs arbitrary: w)
  case (Cons x xs)
  have "hd (split_on P xs) \<in> set (split_on P xs)" "set (tl (split_on P xs)) \<subseteq> set (split_on P xs)"
    by (simp, meson list.set_sel(2) split_on_not_Nil subsetI)
  then have "\<forall>y \<in> set (hd (split_on P xs)). y \<in> set xs" "\<forall>v \<in> set (tl (split_on P xs)). set v \<subseteq> set xs" using Cons(1) by blast+
  then show ?case using Cons by (auto split: if_splits)
qed simp

lemma verbatim_ready_converts: "verbatim_ready q \<Longrightarrow> 0 \<notin> set q \<Longrightarrow> \<exists>s. to_verbatim q = Inr s"
proof -
  assume q: "verbatim_ready q" "0 \<notin> set q"
  have "nul_piece q = None" using q(2) split_on_subset [of _ is_separator q] by (auto simp: nul_piece_def find_None_iff)
  then show ?thesis using q(1) good_verbatim [of "components q" 0] by (simp add: to_verbatim_def verbatim_ready_def)
qed

lemma verbatim_ready_plain: "verbatim_ready q \<Longrightarrow> \<not> has_navigated_name q"
  using good_not_navigated by (simp add: verbatim_ready_def)

lemma drive_form:
  assumes "\<not> sep_at q 0" and "drive_len q = Some n" and "drop n q = BACKSLASH # spell ws" and "pieces_ok ws"
  shows "verbatim_ready q"
proof -
  have "n < length q" using assms(3) by (metis drop_all list.distinct(1) not_le)
  then have "sep_at q n" using assms(3) by (simp add: sep_at_def hd_drop_conv_nth [symmetric])
  then have "parts q = plain_parts (Drive (first_unit (take (n - 1) q)) True) n True" using assms(1,2) by (simp add: parts_def)
  moreover from this have "drop (start q) q = spell ws" using assms(3) by (simp add: start_def drop_Suc drop_tl [symmetric] flip: tl_drop)
  moreover have "split_on is_separator (spell ws) = ws" using assms(4) pieces_ok_clean [of ws] by (intro split_spell) (auto simp: pieces_ok_def)
  ultimately show ?thesis using good_pieces [OF assms(4)]
    by (auto simp: verbatim_ready_def has_verbatim_form_def anchor_of_def components_def Let_def good_components_def)
qed

lemma pieces_ok_split: "pieces_ok ws \<Longrightarrow> split_on is_separator (spell ws) = ws"
  using pieces_ok_clean by (intro split_spell) (auto simp: pieces_ok_def)

lemma good_Nil [simp]: "good_components []"
  by (simp add: good_components_def)

lemma spell_tail: "spell (w # ws) = w @ (if ws = [] then [] else BACKSLASH # spell ws)"
  by (simp add: spell_Cons)

text \<open>The parts of a path under a loose root, with its first name there.\<close>

lemma loose_name:
  assumes "pieces_ok (w # ws)" and "w \<noteq> []"
  shows "loose_loop (a @ spell (w # ws)) (length a) f (length a) =
    \<lparr>pt_anchor = f w, pt_head = length a + length w, pt_root = ws \<noteq> [], pt_open = False, pt_loose_root = Some (length a)\<rparr>"
proof -
  define t where "t = (if ws = [] then [] else BACKSLASH # spell ws)"
  have w: "name_ok w" using assms by (auto simp: pieces_ok_Cons split: if_splits)
  have n: "next_separator (a @ w @ t) (length a) = length a + length w"
    using w by (intro next_separator_piece) (auto simp: t_def name_ok_def)
  have "length t = 0 \<longleftrightarrow> ws = []" by (simp add: t_def)
  then have "loose_loop (a @ w @ t) (length a) f (length a) =
    \<lparr>pt_anchor = f w, pt_head = length a + length w, pt_root = ws \<noteq> [], pt_open = False, pt_loose_root = Some (length a)\<rparr>"
    using w by (subst loose_loop.simps) (simp add: n slice_piece Let_def name_ok_def)
  then show ?thesis by (simp add: spell_tail t_def)
qed

lemma loose_empty:
  "a \<noteq> [] \<Longrightarrow> loose_loop a (length a) f (length a) =
    \<lparr>pt_anchor = f [], pt_head = length a, pt_root = False, pt_open = is_separator (last a), pt_loose_root = Some (length a)\<rparr>"
  by (subst loose_loop.simps) (simp add: next_separator_def slice_def is_dots_def last_conv_nth Let_def)

lemma device_form:
  assumes "q = [BACKSLASH, BACKSLASH, c, BACKSLASH] @ spell ws" and "c = DOT \<or> c = QUESTION" and "pieces_ok ws"
  shows "verbatim_ready q"
proof -
  define a where "a = [BACKSLASH, BACKSLASH, c, BACKSLASH]"
  have a: "length a = 4" "q = a @ spell ws" by (simp_all add: a_def assms(1))
  have pq: "parts q = loose_loop q 4 Device 4" using assms(2) by (auto simp: assms(1) parts_def sep_at_def loose_parts_def)
  obtain w vs where ws: "ws = w # vs" using assms(3) by (cases ws) (auto simp: pieces_ok_def)
  show ?thesis
  proof (cases "w = []")
    case True
    then have "vs = []" using assms(3) ws by (auto simp: pieces_ok_Cons name_ok_def is_dots_def split: if_splits)
    then have "q = a" using True ws a by simp
    then have "parts q = \<lparr>pt_anchor = Device [], pt_head = 4, pt_root = False, pt_open = True, pt_loose_root = Some 4\<rparr>"
      using pq loose_empty [of a Device, unfolded a(1)] by (simp add: a_def)
    then show ?thesis using a \<open>q = a\<close>
      by (simp add: verbatim_ready_def has_verbatim_form_def anchor_of_def loose_name_start_def components_def start_def parts_start_def)
  next
    case False
    then have q: "parts q = \<lparr>pt_anchor = Device w, pt_head = 4 + length w, pt_root = vs \<noteq> [], pt_open = False, pt_loose_root = Some 4\<rparr>"
      using loose_name [of w vs a Device] pq assms(3) ws a by simp
    have "drop (start q) q = spell vs" if "vs \<noteq> []" using q that a ws by (simp add: start_def parts_start_def spell_Cons)
    moreover have "drop (start q) q = []" if "vs = []" using q that a ws by (simp add: start_def parts_start_def)
    moreover have "vs \<noteq> [] \<Longrightarrow> pieces_ok vs" using assms(3) ws by (simp add: pieces_ok_Cons)
    ultimately have "good_components (components q)"
      using good_pieces [of vs] pieces_ok_split [of vs] by (cases "vs = []") (auto simp: components_def Let_def)
    then show ?thesis using q a by (simp add: verbatim_ready_def has_verbatim_form_def anchor_of_def loose_name_start_def)
  qed
qed

text \<open>A UNC path: a server, then a share that directly follows it, or neither.\<close>

lemma unc_form:
  assumes q: "q = [BACKSLASH, BACKSLASH] @ spell (server # ws)" and "clean server" and "\<not> device_lead q"
    and ws: "ws = [] \<or> ws = [[]] \<or> (\<exists>share vs. ws = share # vs \<and> share \<noteq> [] \<and> clean share \<and> (vs = [] \<or> pieces_ok vs))"
  shows "verbatim_ready q"
proof -
  define a where "a = [BACKSLASH, BACKSLASH] @ server"
  define n where "n = length a"
  have qa: "q = a @ (if ws = [] then [] else BACKSLASH # spell ws)" by (simp add: q a_def spell_tail)
  have u: "parts q = unc_parts q" using assms(3) by (intro parts_unc) (auto simp: q sep_at_def)
  have server: "next_separator q 2 = n" "slice q 2 n = server"
    using next_separator_piece [of server _ "[BACKSLASH, BACKSLASH]"] slice_piece [of "[BACKSLASH, BACKSLASH]" server] assms(2)
    by (simp_all add: q spell_tail n_def a_def numeral_2_eq_2)
  from ws consider "ws = []" | "ws = [[]]" | share vs where "ws = share # vs" "share \<noteq> []" "clean share" "vs = [] \<or> pieces_ok vs" by blast
  then show ?thesis
  proof cases
    case 1
    then have "parts q = plain_parts (Unc server []) n False" using server u qa by (simp add: unc_parts_def sep_at_def n_def)
    then show ?thesis using 1 qa by (simp add: verbatim_ready_def has_verbatim_form_def anchor_of_def components_def start_def n_def)
  next
    case 2
    define b where "b = a @ [BACKSLASH]"
    have b: "q = b" "length b = n + 1" using 2 qa by (simp_all add: b_def n_def)
    have "parts q = loose_loop q (n + 1) (Unc server) (n + 1)"
      using server u b unfolding unc_parts_def Let_def loose_parts_def by (simp add: sep_at_def b_def nth_append n_def)
    then have "parts q = \<lparr>pt_anchor = Unc server [], pt_head = n + 1, pt_root = False, pt_open = True, pt_loose_root = Some (n + 1)\<rparr>"
      using loose_empty [of b "Unc server", unfolded b(2)] b by (simp add: b_def)
    then show ?thesis using b
      by (simp add: verbatim_ready_def has_verbatim_form_def anchor_of_def loose_name_start_def components_def start_def parts_start_def)
  next
    case 3
    define t where "t = (if vs = [] then [] else BACKSLASH # spell vs)"
    define b where "b = a @ [BACKSLASH]"
    have b: "q = b @ share @ t" "length b = n + 1" using 3 qa by (simp_all add: b_def n_def t_def spell_tail)
    have share: "next_separator q (n + 1) = n + 1 + length share" "slice q (n + 1) (n + 1 + length share) = share"
      using next_separator_piece [of share t b] slice_piece [of b share t] 3 b by (auto simp: t_def)
    have s: "sep_at q n" "\<not> sep_at q (n + 1)" "n + 1 \<noteq> length q" "sep_at q (n + 1 + length share) \<longleftrightarrow> vs \<noteq> []"
      using 3 b by (auto simp: sep_at_def b_def n_def nth_append t_def list_all_iff)
    then have p: "parts q = plain_parts (Unc server share) (n + 1 + length share) (vs \<noteq> [])"
      using server share u by (simp add: unc_parts_def)
    then have "drop (start q) q = spell vs" if "vs \<noteq> []" using that b by (simp add: start_def t_def)
    moreover have "drop (start q) q = []" if "vs = []" using that p b by (simp add: start_def t_def)
    ultimately have "good_components (components q)"
      using 3(4) good_pieces [of vs] pieces_ok_split [of vs] by (cases "vs = []") (auto simp: components_def Let_def)
    then show ?thesis using p by (simp add: verbatim_ready_def has_verbatim_form_def anchor_of_def)
  qed
qed

section \<open>Parsing a verbatim text of kept names\<close>

lemma pieces_ok_suffix: "pieces_ok (us @ ws) \<Longrightarrow> ws \<noteq> [] \<Longrightarrow> pieces_ok ws"
  by (auto simp: pieces_ok_def butlast_append)

lemma spell_split: "SLASH \<notin> set y \<Longrightarrow> spell (split_on is_separator y) = y"
proof -
  assume "SLASH \<notin> set y"
  then have "map fold_separator y = y" by (intro map_idI) (auto simp: fold_separator_def)
  then show ?thesis using intercalate_split_sep [of y] by (simp add: spell_def)
qed

lemma spell_no_slash: "pieces_ok ws \<Longrightarrow> SLASH \<notin> set (spell ws)"
proof -
  assume ws: "pieces_ok ws"
  have "(\<And>w. w \<in> set ws \<Longrightarrow> clean w) \<Longrightarrow> SLASH \<notin> set (spell ws)" for ws
    by (induction ws) (auto simp: spell_def spell_tail [unfolded spell_def] list_all_iff is_separator_def split: if_splits)
  then show ?thesis using pieces_ok_clean [OF ws] by blast
qed

lemma spell_tail_ok:
  assumes "pieces_ok ws" and "spell ws = x @ BACKSLASH # y"
  shows "pieces_ok (split_on is_separator y) \<and> spell (split_on is_separator y) = y"
proof -
  have "SLASH \<notin> set y" using spell_no_slash [OF assms(1)] assms(2) by simp
  moreover have "ws = split_on is_separator x @ split_on is_separator y"
    using pieces_ok_split [OF assms(1)] assms(2) by (simp add: split_on_append_sep)
  ultimately show ?thesis using assms(1) pieces_ok_suffix [of "split_on is_separator x" "split_on is_separator y"] spell_split by auto
qed

lemma device_lead_server:
  assumes "clean server" and "device_lead ([BACKSLASH, BACKSLASH] @ spell (server # ws))"
  shows "server = [DOT] \<or> server = [QUESTION]"
proof (cases server)
  case Nil
  then show ?thesis using assms(2) by (auto simp: device_lead_def spell_tail split: if_splits)
next
  case (Cons b r)
  then show ?thesis using assms by (cases r) (auto simp: device_lead_def sep_at_def spell_tail numeral_3_eq_3 numeral_2_eq_2)
qed

lemma unc_tail_form:
  assumes "pieces_ok ws"
  shows "ws = [[]] \<or> (\<exists>share vs. ws = share # vs \<and> share \<noteq> [] \<and> clean share \<and> (vs = [] \<or> pieces_ok vs))"
  using assms by (cases ws) (auto simp: pieces_ok_Cons name_ok_def is_dots_def split: if_splits, auto simp: pieces_ok_def)

lemma verbatim_drive_ready:
  assumes ws: "pieces_ok ws" and drive: "verbatim_is_drive (spell ws)"
  shows "verbatim_ready (spell ws)"
proof -
  define rest where "rest = spell ws"
  obtain n where n: "drive_len rest = Some n" "n < length rest" "rest ! n = BACKSLASH" "take 1 rest \<noteq> [BACKSLASH]"
    using drive unfolding verbatim_is_drive_def rest_def by (auto split: option.splits)
  have "rest = take n rest @ BACKSLASH # drop (n + 1) rest" using id_take_nth_drop [of n rest] n by simp
  then have d: "pieces_ok (split_on is_separator (drop (n + 1) rest))" "spell (split_on is_separator (drop (n + 1) rest)) = drop (n + 1) rest"
    using spell_tail_ok [OF ws, of "take n rest" "drop (n + 1) rest"] by (simp_all add: rest_def)
  have "\<not> sep_at rest 0" using n spell_no_slash [OF ws] by (cases rest) (auto simp: sep_at_def is_separator_def rest_def)
  moreover have "drop n rest = BACKSLASH # spell (split_on is_separator (drop (n + 1) rest))"
    using d(2) n by (simp add: Cons_nth_drop_Suc [symmetric])
  ultimately show ?thesis unfolding rest_def [symmetric] using n(1) d(1) drive_form by blast
qed

lemma verbatim_unc_ready:
  assumes ws: "pieces_ok ws" and unc: "verbatim_is_unc (spell ws)"
    and server: "take (next_separator (drop 4 (spell ws)) 0) (drop 4 (spell ws)) \<notin> {[DOT], [QUESTION]}"
  shows "verbatim_ready ([BACKSLASH, BACKSLASH] @ drop 4 (spell ws))"
proof -
  define rest where "rest = spell ws"
  define u where "u = drop 4 rest"
  have "3 < length rest" "rest ! 3 = BACKSLASH" using unc unfolding verbatim_is_unc_def rest_def by linarith+
  then have "rest = take 3 rest @ BACKSLASH # u" using id_take_nth_drop [of 3 rest] by (simp add: u_def)
  then have us: "pieces_ok (split_on is_separator u)" "spell (split_on is_separator u) = u"
    using spell_tail_ok [OF ws] by (simp_all add: rest_def)
  obtain s vs where sv: "split_on is_separator u = s # vs" using split_on_not_Nil by (metis list.exhaust)
  have cl: "clean s" using pieces_ok_clean [OF us(1)] sv by simp
  have "take (next_separator u 0) u = s"
    using next_separator_piece [of s "if vs = [] then [] else BACKSLASH # spell vs" "[]"] us(2) sv cl by (auto simp: spell_tail split: if_splits)
  then have "\<not> device_lead ([BACKSLASH, BACKSLASH] @ spell (s # vs))"
    using device_lead_server [OF cl] server by (auto simp: u_def rest_def)
  moreover have "vs = [] \<or> pieces_ok vs" using us(1) sv by (auto simp: pieces_ok_Cons split: if_splits)
  ultimately have "verbatim_ready ([BACKSLASH, BACKSLASH] @ spell (s # vs))" using unc_form [OF refl cl] unc_tail_form [of vs] by blast
  then show ?thesis using us sv by (simp add: u_def rest_def)
qed

lemma parse_verbatim_pieces:
  assumes ws: "pieces_ok ws"
  shows "parse (VERBATIM @ spell ws) = Inl UnspellableUncServer \<or> (\<exists>q. parse (VERBATIM @ spell ws) = Inr q \<and> verbatim_ready q)"
proof -
  define rest where "rest = spell ws"
  have "SLASH \<notin> set rest" using spell_no_slash [OF ws] by (simp add: rest_def)
  then have p: "parse (VERBATIM @ rest) = (case verbatim_plain rest of Inl e \<Rightarrow> Inl e
      | Inr t \<Rightarrow> if has_navigated_name t then Inl DotOrEmptyNameInVerbatim else Inr t)"
    by (simp add: parse_def VERBATIM_def numeral_eq_Suc)
  consider (drive) "verbatim_is_drive rest" "verbatim_plain rest = Inr rest"
    | (refused) "verbatim_plain rest = Inl UnspellableUncServer"
    | (unc) "verbatim_is_unc rest" "take (next_separator (drop 4 rest) 0) (drop 4 rest) \<notin> {[DOT], [QUESTION]}"
        "verbatim_plain rest = Inr ([BACKSLASH, BACKSLASH] @ drop 4 rest)"
    | (device) "verbatim_plain rest = Inr ([BACKSLASH, BACKSLASH, DOT, BACKSLASH] @ rest)"
    unfolding verbatim_plain_def Let_def by metis
  then show ?thesis
  proof cases
    case refused
    then show ?thesis using p by (simp add: rest_def)
  next
    case drive
    then show ?thesis using p verbatim_drive_ready [OF ws] verbatim_ready_plain [of rest] by (simp add: rest_def)
  next
    case unc
    then have "verbatim_ready ([BACKSLASH, BACKSLASH] @ drop 4 rest)" using verbatim_unc_ready [OF ws] unfolding rest_def by blast
    then show ?thesis using p unc(3) verbatim_ready_plain unfolding rest_def [symmetric] by simp
  next
    case device
    have "verbatim_ready ([BACKSLASH, BACKSLASH, DOT, BACKSLASH] @ rest)" using device_form ws by (simp add: rest_def)
    then show ?thesis using p device verbatim_ready_plain unfolding rest_def [symmetric] by simp
  qed
qed

section \<open>The text of a reading\<close>

lemma name_ok_end: "name_ok w \<Longrightarrow> w \<noteq> [] \<and> last w \<noteq> BACKSLASH"
  by (cases w rule: rev_cases) (auto simp: name_ok_def is_dots_def)

lemma push_open:
  "b \<noteq> [] \<Longrightarrow> last b \<noteq> BACKSLASH \<Longrightarrow> list_all name_ok ns \<Longrightarrow> foldl push_name b ns = b @ (if ns = [] then [] else BACKSLASH # spell ns)"
proof (induction ns arbitrary: b)
  case (Cons w ns)
  have "w \<noteq> []" "last w \<noteq> BACKSLASH" using Cons(4) name_ok_end [of w] by simp_all
  then show ?case using Cons by (simp add: push_name_def spell_tail)
qed simp

lemma push_closed:
  assumes "a \<noteq> []" and "last a = BACKSLASH" and "list_all name_ok ns"
  shows "foldl push_name a ns = a @ spell ns"
proof (cases ns)
  case (Cons w ws)
  have "w \<noteq> []" "last w \<noteq> BACKSLASH" using assms(3) Cons name_ok_end [of w] by simp_all
  then have "foldl push_name (a @ w) ws = (a @ w) @ (if ws = [] then [] else BACKSLASH # spell ws)"
    using assms(3) Cons by (intro push_open) simp_all
  then show ?thesis using assms(1,2) Cons by (simp add: push_name_def spell_tail)
qed (simp add: spell_def)

text \<open>The pieces of a reading after its anchor: the names, and an empty one for a separator at the end.\<close>

definition reading_pieces :: "bytes \<Rightarrow> bool \<Rightarrow> bytes list" where
  "reading_pieces p strip = (
     let (names, trailing) = trimmed_names strip (reading_names p strip) (nv_trailing (navigate p (segments p)))
     in if names = [] then [[]] else if trailing then names @ [[]] else names)"

lemma reading_pieces_ok: "pieces_ok (reading_pieces p strip)"
proof -
  have "list_all name_ok (fst (trimmed_names strip (reading_names p strip) (nv_trailing (navigate p (segments p)))))"
    by (intro trimmed_names_ok reading_names_ok)
  then show ?thesis by (auto simp: reading_pieces_def pieces_ok_def list_all_iff butlast_append split: prod.splits dest: in_set_butlastD)
qed

lemma spell_snoc: "ns \<noteq> [] \<Longrightarrow> spell (ns @ [[]]) = spell ns @ [BACKSLASH]"
  by (induction ns) (auto simp: spell_tail)

lemma spell_end: "list_all name_ok ns \<Longrightarrow> ns \<noteq> [] \<Longrightarrow> spell ns \<noteq> [] \<and> last (spell ns) \<noteq> BACKSLASH"
  by (induction ns) (auto simp: spell_tail name_ok_end)

text \<open>The anchor that a reading starts with, without the choices the names make.\<close>

abbreviation nameless :: "bytes \<Rightarrow> bool" where
  "nameless p \<equiv> \<not> nv_trailing (navigate p (segments p)) \<and> nv_kept (navigate p (segments p)) = []"

lemma reading_text_form:
  fixes p strip
  defines "a \<equiv> reading_anchor p strip (nameless p)"
  assumes "a \<noteq> []"
  shows "last a = BACKSLASH \<Longrightarrow> reading_text p strip = a @ spell (reading_pieces p strip)"
    and "last a \<noteq> BACKSLASH \<Longrightarrow> reading_text p strip = a \<or> reading_text p strip = a @ BACKSLASH # spell (reading_pieces p strip)"
proof -
  obtain ns tr where t: "trimmed_names strip (reading_names p strip) (nv_trailing (navigate p (segments p))) = (ns, tr)"
    by (cases "trimmed_names strip (reading_names p strip) (nv_trailing (navigate p (segments p)))")
  have ok: "list_all name_ok ns" using trimmed_names_ok [OF reading_names_ok, of strip p strip "nv_trailing (navigate p (segments p))"] t by simp
  have r: "reading_text p strip = (let out = foldl push_name a ns in if tr \<and> \<not> (out \<noteq> [] \<and> last out = BACKSLASH) then out @ [BACKSLASH] else out)"
    by (simp add: reading_text_def t a_def Let_def)
  have w: "reading_pieces p strip = (if ns = [] then [[]] else if tr then ns @ [[]] else ns)" by (simp add: reading_pieces_def t)
  show "reading_text p strip = a @ spell (reading_pieces p strip)" if l: "last a = BACKSLASH"
    using assms(2) push_closed [OF assms(2) l ok] spell_end [OF ok] l
    by (cases "ns = []") (simp_all add: r w spell_snoc Let_def spell_def [of "[]"])
  show "reading_text p strip = a \<or> reading_text p strip = a @ BACKSLASH # spell (reading_pieces p strip)" if l: "last a \<noteq> BACKSLASH"
    using assms(2) push_open [OF assms(2) l ok] spell_end [OF ok] l
    by (cases "ns = []") (auto simp: r w spell_snoc Let_def)
qed

lemma drive_len_prefix: "drive_len x = Some n \<Longrightarrow> drive_len (x @ t) = Some n"
  by (cases x) (auto simp: drive_len_def nth_append nth_Cons' split: option.splits if_splits)

lemma reading_drive:
  assumes "\<not> sep_at p 0" and "drive_len p = Some n" and "sep_at p n"
  shows "\<exists>q. win32_reading p strip = Some q \<and> verbatim_ready q"
proof -
  have pt: "parts p = plain_parts (Drive (first_unit (take (n - 1) p)) True) n True" using assms by (simp add: parts_def)
  define a where "a = take n p @ [BACKSLASH]"
  have n: "2 \<le> n" "n \<le> length p" using drive_len_bounds [OF assms(2)] by auto
  have "reading_anchor p strip (nameless p) = a" by (simp add: reading_anchor_def pt a_def Let_def)
  then have t: "reading_text p strip = a @ spell (reading_pieces p strip)" using reading_text_form(1) [of p strip] by (simp add: a_def)
  have "drive_len (take n p) = Some n" using drive_len_take [of p n n] assms(2) by simp
  then have "drive_len (reading_text p strip) = Some n" "drop n (reading_text p strip) = BACKSLASH # spell (reading_pieces p strip)"
    using t drive_len_prefix n by (simp_all add: a_def)
  moreover have s: "\<not> sep_at (reading_text p strip) 0" using assms(1) n t by (auto simp: sep_at_def a_def nth_append)
  ultimately have "verbatim_ready (reading_text p strip)" using reading_pieces_ok drive_form by blast
  moreover have "plain (reading_text p strip)" using s by (auto simp: is_verbatim_nth sep_at_def)
  ultimately show ?thesis using parse_plain [of "reading_text p strip"] by (simp add: win32_reading_def)
qed

lemma reading_device:
  assumes "sep_at p 0" "sep_at p 1" "device_lead p" "sep_at p 3" "length p \<noteq> 3" and pt: "parts p = loose_parts p 4 Device"
  shows "\<exists>q. win32_reading p strip = Some q \<and> verbatim_ready q"
proof -
  obtain w where w: "pt_anchor (parts p) = Device w" using loose_loop_anchor [of p 4 Device 4] pt by (auto simp: loose_parts_def)
  define a where "a = [BACKSLASH, BACKSLASH, p ! 2, BACKSLASH]"
  have "reading_anchor p strip (nameless p) = a" by (simp add: reading_anchor_def w a_def Let_def)
  then have t: "reading_text p strip = a @ spell (reading_pieces p strip)" using reading_text_form(1) [of p strip] by (simp add: a_def)
  have c: "p ! 2 = DOT \<or> p ! 2 = QUESTION" using assms(3) by (simp add: device_lead_def)
  have dev: "verbatim_ready ([BACKSLASH, BACKSLASH, DOT, BACKSLASH] @ spell (reading_pieces p strip))"
    using reading_pieces_ok device_form by blast
  show ?thesis
  proof (cases "p ! 2 = DOT")
    case True
    then have "plain (reading_text p strip)" using t by (simp add: is_verbatim_nth a_def)
    then show ?thesis using dev t True parse_plain [of "reading_text p strip"] by (simp add: win32_reading_def a_def)
  next
    case False
    then have v: "reading_text p strip = VERBATIM @ spell (reading_pieces p strip)" using c t by (simp add: a_def VERBATIM_def)
    show ?thesis
    proof (cases "parse (reading_text p strip)")
      case (Inr q)
      then show ?thesis using parse_verbatim_pieces [OF reading_pieces_ok, of p strip] v by (auto simp: win32_reading_def)
    next
      case (Inl e)
      then have "win32_reading p strip = Some ((reading_text p strip)[2 := DOT])"
        using parse_verbatim_pieces [OF reading_pieces_ok, of p strip] v by (auto simp: win32_reading_def)
      then show ?thesis using dev v by (simp add: VERBATIM_def numeral_2_eq_2)
    qed
  qed
qed

text \<open>The server of a UNC path is not \<open>.\<close> or \<open>?\<close>: that is a device path.\<close>

lemma server_not_device:
  assumes "sep_at p 0" "sep_at p 1" "\<not> device_lead p" "next_separator p 2 = n" "n = length p \<or> sep_at p n"
  shows "slice p 2 n \<noteq> [DOT] \<and> slice p 2 n \<noteq> [QUESTION]"
proof -
  have "n \<le> length p" using assms(5) by (auto simp: sep_at_def)
  moreover have "n = 3 \<and> p ! 2 = c" if "slice p 2 n = [c]" for c
  proof -
    have "length (slice p 2 n) = n - 2" using \<open>n \<le> length p\<close> by (simp add: slice_def)
    then have "n = 3" using that by simp
    moreover from this have "slice p 2 n ! 0 = p ! 2" using \<open>n \<le> length p\<close> by (simp add: slice_def)
    ultimately show ?thesis using that by simp
  qed
  ultimately show ?thesis using assms by (auto simp: device_lead_def)
qed

lemma unc_ready_parse:
  assumes "clean server" and "server \<noteq> [DOT] \<and> server \<noteq> [QUESTION]" and "ws = [] \<or> pieces_ok ws \<or> (\<exists>share vs. ws = share # vs \<and> share \<noteq> [] \<and> clean share \<and> (vs = [] \<or> pieces_ok vs))"
  shows "verbatim_ready ([BACKSLASH, BACKSLASH] @ spell (server # ws)) \<and> parse ([BACKSLASH, BACKSLASH] @ spell (server # ws)) = Inr ([BACKSLASH, BACKSLASH] @ spell (server # ws))"
proof -
  define q where "q = [BACKSLASH, BACKSLASH] @ spell (server # ws)"
  have d: "\<not> device_lead q" using device_lead_server [OF assms(1)] assms(2) by (auto simp: q_def)
  then have "plain q" by (auto simp: is_verbatim_nth device_lead_def sep_at_def)
  moreover have "verbatim_ready q" using d assms(1,3) unc_tail_form [of ws] unc_form [OF q_def] by blast
  ultimately show ?thesis using parse_plain unfolding q_def by blast
qed

lemma reading_server:
  assumes "sep_at p 0" "sep_at p 1" "\<not> device_lead p" "next_separator p 2 = length p"
    and pt: "parts p = plain_parts (Unc (slice p 2 (length p)) []) (length p) False"
  shows "\<exists>q. win32_reading p strip = Some q \<and> verbatim_ready q"
proof -
  define server where "server = slice p 2 (length p)"
  have server: "clean server" "server \<noteq> [DOT] \<and> server \<noteq> [QUESTION]"
    using slice_next_clean [of p 2] server_not_device [OF assms(1-4)] assms(4) by (simp_all add: server_def)
  have len: "length server + 2 = length p" using assms(2) by (auto simp: server_def slice_def sep_at_def)
  have "components p = []" using pt by (simp add: components_at_end start_def)
  then have "segments p = [\<lparr>sg_text = server, sg_role = Server\<rparr>]" using pt len by (simp add: segments_def server_def)
  then have "reading_names p strip = []" by (simp add: reading_names_def navigate_def navigate_step_def)
  then have pieces: "reading_pieces p strip = [[]]" by (simp add: reading_pieces_def trimmed_names_def)
  have a: "reading_anchor p strip (nameless p) = [BACKSLASH, BACKSLASH] @ server" by (simp add: reading_anchor_def pt server_def Let_def trim_trailing_dots_and_spaces_def)
  have "reading_text p strip = [BACKSLASH, BACKSLASH] @ spell [server] \<or> reading_text p strip = [BACKSLASH, BACKSLASH] @ spell [server, []]"
    using reading_text_form [of p strip] pieces unfolding a by (cases "last ([BACKSLASH, BACKSLASH] @ server) = BACKSLASH") (auto simp: spell_tail)
  then show ?thesis using unc_ready_parse [OF server, of "[]"] unc_ready_parse [OF server, of "[[]]"]
    by (auto simp: win32_reading_def pieces_ok_def)
qed

lemma reading_loose:
  assumes "sep_at p 0" "sep_at p 1" "\<not> device_lead p" "next_separator p 2 = n" "sep_at p n"
    and pt: "parts p = loose_parts p (n + 1) (Unc (slice p 2 n))"
  shows "\<exists>q. win32_reading p strip = Some q \<and> verbatim_ready q"
proof -
  define server where "server = slice p 2 n"
  have server: "clean server" "server \<noteq> [DOT] \<and> server \<noteq> [QUESTION]"
    using slice_next_clean [of p 2] server_not_device [OF assms(1-4)] assms(4,5) by (simp_all add: server_def)
  obtain w where w: "pt_anchor (parts p) = Unc server w"
    using loose_loop_anchor [of p "n + 1" "Unc (slice p 2 n)" "n + 1"] pt by (auto simp: loose_parts_def server_def)
  have "pt_loose_root (parts p) = Some (n + 1)" by (simp add: pt)
  then have "reading_anchor p strip (nameless p) = [BACKSLASH, BACKSLASH] @ server @ [BACKSLASH]"
    by (simp add: reading_anchor_def w Let_def trim_trailing_dots_and_spaces_def)
  then have "reading_text p strip = [BACKSLASH, BACKSLASH] @ spell (server # reading_pieces p strip)"
    using reading_text_form(1) [of p strip] reading_pieces_ok [of p strip] by (simp add: spell_tail pieces_ok_def)
  then show ?thesis using unc_ready_parse [OF server, of "reading_pieces p strip"] reading_pieces_ok [of p strip] by (simp add: win32_reading_def)
qed

lemma reading_strict:
  assumes "sep_at p 0" "sep_at p 1" "\<not> device_lead p" "next_separator p 2 = n" "sep_at p n" "next_separator p (n + 1) = m" "n + 1 < m" "m \<le> length p"
    and pt: "parts p = plain_parts (Unc (slice p 2 n) (slice p (n + 1) m)) m (sep_at p m)"
  shows "\<exists>q. win32_reading p strip = Some q \<and> verbatim_ready q"
proof -
  define server where "server = slice p 2 n"
  define share where "share = slice p (n + 1) m"
  have server: "clean server" "server \<noteq> [DOT] \<and> server \<noteq> [QUESTION]"
    using slice_next_clean [of p 2] server_not_device [OF assms(1-4)] assms(4,5) by (simp_all add: server_def)
  have share: "clean share" "share \<noteq> []" using slice_next_clean [of p "n + 1"] assms(6-8) by (auto simp: share_def slice_def)
  define share' where "share' = (if strip \<and> nameless p then trim_trailing_dots_and_spaces share else share)"
  have cl: "clean share'" using share clean_trim by (simp add: share'_def)
  define a where "a = [BACKSLASH, BACKSLASH] @ server @ [BACKSLASH] @ share'"
  have anchor: "reading_anchor p strip (nameless p) = a"
    using share by (simp add: reading_anchor_def pt a_def share'_def server_def share_def Let_def)
  have last: "last a = BACKSLASH \<longleftrightarrow> share' = []" using cl by (cases share' rule: rev_cases) (auto simp: a_def)
  have "\<exists>ws. reading_text p strip = [BACKSLASH, BACKSLASH] @ spell (server # ws) \<and>
      (pieces_ok ws \<or> (\<exists>share vs. ws = share # vs \<and> share \<noteq> [] \<and> clean share \<and> (vs = [] \<or> pieces_ok vs)))"
  proof (cases "share' = []")
    case True
    then have "reading_text p strip = [BACKSLASH, BACKSLASH] @ spell (server # reading_pieces p strip)"
      using reading_text_form(1) [of p strip] anchor last reading_pieces_ok [of p strip] by (simp add: spell_tail pieces_ok_def a_def)
    then show ?thesis using reading_pieces_ok by blast
  next
    case False
    then have "reading_text p strip = [BACKSLASH, BACKSLASH] @ spell (server # [share'])
        \<or> reading_text p strip = [BACKSLASH, BACKSLASH] @ spell (server # share' # reading_pieces p strip)"
      using reading_text_form(2) [of p strip] anchor last reading_pieces_ok [of p strip] by (auto simp: spell_tail pieces_ok_def a_def)
    then show ?thesis using False cl reading_pieces_ok by blast
  qed
  then show ?thesis using unc_ready_parse [OF server] by (auto simp: win32_reading_def)
qed

lemma reading_ready:
  assumes "has_pure_reading p"
  shows "\<exists>q. win32_reading p strip = Some q \<and> verbatim_ready q"
  using assms
proof (cases p rule: parts_cases)
  case (drive n)
  then have "sep_at p n" using assms by (simp add: has_pure_reading_def is_fully_qualified_def anchor_of_def)
  then show ?thesis using reading_drive drive by blast
next
  case device
  then show ?thesis by (rule reading_device)
next
  case server
  then show ?thesis by (intro reading_server)
next
  case (loose n)
  then show ?thesis by (intro reading_loose)
next
  case (strict n m)
  then show ?thesis by (intro reading_strict)
qed (simp_all add: has_pure_reading_def is_fully_qualified_def anchor_of_def)

section \<open>No NUL is made\<close>

lemma segment_subset: "s \<in> set (segments p) \<Longrightarrow> sg_role s = ComponentRole \<Longrightarrow> set (sg_text s) \<subseteq> set p"
proof -
  assume s: "s \<in> set (segments p)" "sg_role s = ComponentRole"
  then obtain n where "sg_text s \<in> set (split_on is_separator (drop n p))"
    by (auto simp: segments_def Let_def component_segment_def components_def split: option.splits Anchor.splits if_splits)
  then show ?thesis using split_on_subset set_drop_subset by (metis subset_trans)
qed

lemma reading_name_subset: "w \<in> set (reading_names p strip) \<Longrightarrow> set w \<subseteq> set p"
proof -
  assume "w \<in> set (reading_names p strip)"
  then obtain k where k: "k \<in> set (nv_kept (navigate p (segments p)))" "set w \<subseteq> set (sg_text (segments p ! k))"
    by (auto simp: reading_names_def Let_def dest: in_set_butlastD split: if_splits)
  then have "set (sg_text (segments p ! k)) \<subseteq> set p" using navigate_ok [of "segments p" p] by (intro segment_subset) (auto simp: kept_ok_def)
  with k show ?thesis by blast
qed

lemma trim_subset: "set (trim_trailing_dots_and_spaces w) \<subseteq> set w"
  by (auto simp: trim_trailing_dots_and_spaces_def dest: set_dropWhileD)

lemma trim_Nil [simp]: "trim_trailing_dots_and_spaces [] = []"
  by (simp add: trim_trailing_dots_and_spaces_def)

lemma trimmed_name_subset: "w \<in> set (fst (trimmed_names strip names tr)) \<Longrightarrow> \<exists>v \<in> set names. set w \<subseteq> set v"
  using trim_subset [of "last names"] by (auto simp: trimmed_names_def Let_def dest: in_set_butlastD split: if_splits)

lemma spell_set: "0 \<in> set (spell ws) \<Longrightarrow> \<exists>w \<in> set ws. 0 \<in> set w"
  by (induction ws) (auto simp: spell_tail spell_def [of "[]"] split: if_splits)

lemma reading_pieces_nul: "0 \<notin> set p \<Longrightarrow> 0 \<notin> set (spell (reading_pieces p strip))"
proof
  assume p: "0 \<notin> set p" and "0 \<in> set (spell (reading_pieces p strip))"
  then obtain w where w: "w \<in> set (reading_pieces p strip)" "0 \<in> set w" using spell_set by blast
  then have "w \<in> set (fst (trimmed_names strip (reading_names p strip) (nv_trailing (navigate p (segments p)))))"
    by (cases "trimmed_names strip (reading_names p strip) (nv_trailing (navigate p (segments p)))")
      (auto simp: reading_pieces_def split: if_splits)
  then show False using trimmed_name_subset reading_name_subset p w(2) by blast
qed

lemma slice_subset: "set (slice p i j) \<subseteq> set p"
  by (auto simp: slice_def dest: in_set_dropD in_set_takeD)

lemma loose_loop_subset: "\<exists>w. pt_anchor (loose_loop p r f i) = f w \<and> set w \<subseteq> set p"
proof (induction p r f i rule: loose_loop.induct)
  case (1 p r f i)
  then show ?case using slice_subset [of p i "next_separator p i"] by (subst loose_loop.simps) (auto simp: Let_def)
qed

lemma unc_subset:
  assumes "pt_anchor (parts p) = Unc server share"
  shows "set server \<subseteq> set p \<and> set share \<subseteq> set p"
  using assms
proof (cases p rule: parts_cases)
  case device
  then show ?thesis using assms loose_loop_anchor [of p 4 Device 4] by (auto simp: loose_parts_def)
next
  case (loose n)
  then show ?thesis using assms loose_loop_subset [of p "n + 1" "Unc (slice p 2 n)" "n + 1"] slice_subset by (auto simp: loose_parts_def)
qed (use slice_subset in \<open>auto\<close>)

lemma reading_anchor_nul:
  assumes p: "0 \<notin> set p" and "has_pure_reading p"
  shows "0 \<notin> set (reading_anchor p strip b)"
proof -
  have anchor: "0 \<notin> set server \<and> 0 \<notin> set share" if "pt_anchor (parts p) = Unc server share" for server share
    using unc_subset [OF that] p by blast
  show ?thesis
  proof (cases "pt_anchor (parts p)")
    case (Unc server share)
    then show ?thesis using anchor trim_subset [of share] by (auto simp: reading_anchor_def Let_def)
  next
    case (Device w)
    then have "2 < length p" using assms(2) by (simp add: has_pure_reading_def is_fully_qualified_def anchor_of_def)
    then have "p ! 2 \<noteq> 0" using p nth_mem [of 2 p] by metis
    then show ?thesis using Device by (simp add: reading_anchor_def Let_def)
  qed (use assms in \<open>auto simp: reading_anchor_def Let_def has_pure_reading_def is_fully_qualified_def anchor_of_def dest: in_set_takeD\<close>)
qed

lemma parse_nul: "parse s = Inr q \<Longrightarrow> 0 \<notin> set s \<Longrightarrow> 0 \<notin> set q"
  by (erule parse_cases) (auto dest: in_set_dropD)

lemma reading_anchor_not_Nil: "reading_anchor p strip b \<noteq> []"
  by (cases "pt_anchor (parts p)") (simp_all add: reading_anchor_def Let_def)

lemma reading_nul:
  assumes "has_pure_reading p" and "0 \<notin> set p" and "win32_reading p strip = Some q"
  shows "0 \<notin> set q"
proof -
  have "0 \<notin> set (reading_text p strip)"
    using reading_text_form [OF reading_anchor_not_Nil, of p strip] reading_anchor_nul [OF assms(2,1), of strip "nameless p"] reading_pieces_nul [OF assms(2), of strip]
    by (cases "last (reading_anchor p strip (nameless p)) = BACKSLASH") auto
  moreover have "0 \<notin> set (s[2 := DOT])" if "0 \<notin> set s" for s :: bytes
    using that set_update_subset_insert [of s 2 DOT] by auto
  ultimately show ?thesis using assms(3) parse_nul [of "reading_text p strip"]
    by (auto simp: win32_reading_def Let_def split: sum.splits ParseError.splits)
qed

lemma nul_piece_None: "nul_piece p = None \<Longrightarrow> 0 \<notin> set p"
proof
  assume n: "nul_piece p = None" and "0 \<in> set p"
  then have "0 \<in> set (map fold_separator p)" by (force simp: fold_separator_def)
  then have "\<exists>w \<in> set (split_on is_separator p). 0 \<in> set w" using intercalate_split_sep [of p] spell_set by (simp add: spell_def)
  with n show False by (auto simp: nul_piece_def find_None_iff)
qed

section \<open>Properties\<close>

lemma spelled_errors:
  assumes "win32_string p True = Inl e" and "nul_piece p = None"
  shows "reason e \<in> {EmptyPath, TrailingDotOrSpace, SingleTrailingDot}"
  using assms by (auto simp: win32_string_def check_win32_def conversion_error_def Let_def split: if_splits option.splits)

lemma wide_string_pure:
  assumes "has_pure_reading p" and "nul_piece p = None"
  shows "\<exists>s. wide_string p = Some (Inr s)"
proof (cases "to_win32_string p")
  case (Inl e)
  obtain q where q: "win32_reading p False = Some q" "verbatim_ready q" using reading_ready [OF assms(1)] by blast
  then obtain s where "to_verbatim q = Inr s" using verbatim_ready_converts reading_nul [OF assms(1) nul_piece_None [OF assms(2)]] by blast
  with q Inl assms show ?thesis by (simp add: wide_string_def)
qed (use assms in \<open>simp add: wide_string_def\<close>)

lemma wide_string_relative:
  assumes "\<not> has_pure_reading p" and "nul_piece p = None"
  shows "wide_string p = Some (case to_win32_string p of Inr s \<Rightarrow> Inr s | Inl _ \<Rightarrow> win32_string p True)"
proof -
  have "\<not> has_verbatim_form p" using assms(1) by (auto simp: has_pure_reading_def has_verbatim_form_def is_fully_qualified_def split: Anchor.splits)
  then have "to_verbatim p = Inl (conversion_error NotFullyQualified None)" using assms(2) by (simp add: to_verbatim_def)
  then show ?thesis using assms by (simp add: wide_string_def conversion_error_def split: sum.splits)
qed

lemma verbatim_good: "verbatim_components i n cs = Inr () \<Longrightarrow> i + length cs = n \<Longrightarrow> good_components cs"
proof (induction cs arbitrary: i)
  case (Cons c cs)
  then have "good_components cs" by (cases c) (auto split: if_splits)
  moreover have "(\<exists>w. c = Normal w) \<or> c = Empty \<and> cs = []" using Cons(2,3) by (cases c) (auto split: if_splits)
  ultimately show ?case by (auto simp: good_components_def)
qed simp

lemma fold_first: "sep_at p i \<Longrightarrow> fold_separator (p ! i) = BACKSLASH"
  by (simp add: sep_at_def fold_separator_sep)

lemma fold_unc: "sep_at p 0 \<Longrightarrow> sep_at p 1 \<Longrightarrow> fold_path p = [BACKSLASH, BACKSLASH] @ fold_path (drop 2 p)"
  by (cases p; cases "tl p") (auto simp: sep_at_def fold_separator_sep)

lemma verbatim_unc_plain:
  assumes "sep_at p 0" "sep_at p 1" "\<not> device_lead p" "next_separator p 2 = n" "n = length p \<or> sep_at p n"
  shows "verbatim_plain (ascii ''UNC'' @ [BACKSLASH] @ fold_path (drop 2 p)) = Inr (fold_path p)"
proof -
  define u where "u = fold_path (drop 2 p)"
  have "2 \<le> length p" using assms(2) by (simp add: sep_at_def)
  then have "next_separator u 0 = n - 2" using assms(4) by (auto simp: u_def next_separator_def position_fold split: option.splits)
  then have "take (next_separator u 0) u = fold_path (slice p 2 n)" by (simp add: u_def slice_def take_map drop_take)
  also have "\<dots> = slice p 2 n" using slice_next_clean [of p 2] assms(4) by (simp add: fold_clean)
  finally have s: "take (next_separator u 0) u \<notin> {[DOT], [QUESTION]}" using server_not_device [OF assms] by simp
  define r where "r = ascii ''UNC'' @ [BACKSLASH] @ u"
  have "drive_len r = None" by (simp add: r_def drive_len_def unit_len_def of_char_of)
  then have d: "\<not> verbatim_is_drive r" by (simp add: verbatim_is_drive_def)
  have "verbatim_is_unc r" by (simp add: r_def verbatim_is_unc_def eq_ignore_ascii_case_def numeral_eq_Suc)
  moreover have "drop 4 r = u" by (simp add: r_def numeral_eq_Suc)
  ultimately have "verbatim_plain r = Inr ([BACKSLASH, BACKSLASH] @ u)" using d s by (simp add: verbatim_plain_def Let_def)
  then show ?thesis using fold_unc [OF assms(1,2)] by (simp add: r_def u_def)
qed

lemma verbatim_drive_plain:
  assumes "\<not> sep_at p 0" "drive_len p = Some n" "sep_at p n"
  shows "verbatim_plain (fold_path p) = Inr (fold_path p)"
proof -
  have p: "p \<noteq> []" using assms(2) by (auto simp: drive_len_def)
  then have "take 1 (fold_path p) \<noteq> [BACKSLASH]"
    using assms(1) by (cases p) (auto simp: sep_at_def fold_separator_def is_separator_def split: if_splits)
  moreover have "n < length p" "fold_path p ! n = BACKSLASH" using assms(3) fold_first [OF assms(3)] by (auto simp: sep_at_def)
  ultimately have "verbatim_is_drive (fold_path p)" using assms(1,2) by (simp add: verbatim_is_drive_def drive_len_fold)
  then show ?thesis by (simp add: verbatim_plain_def)
qed

lemma fold_no_slash: "SLASH \<notin> set (fold_path p)"
  by (auto simp: fold_separator_def)

lemma verbatim_strict:
  assumes v: "to_verbatim p = Inr v" and "lead_ok p" and anchor: "(case anchor_of p of Drive _ _ \<Rightarrow> True | Unc _ _ \<Rightarrow> True | _ \<Rightarrow> False)"
    and root: "pt_loose_root (parts p) = None"
  shows "parse v = Inr (fold_path p)"
proof -
  have form: "has_verbatim_form p" and vc: "verbatim_components 0 (length (components p)) (components p) = Inr ()"
    and ve: "v = VERBATIM @ fold_path (verbatim_rest p)"
    using v by (auto simp: to_verbatim_def split: option.splits if_splits sum.splits)
  have ready: "verbatim_plain (fold_path (verbatim_rest p)) = Inr (fold_path p)"
  proof (cases p rule: parts_cases)
    case (drive n)
    then have "verbatim_rest p = p" "sep_at p n" using form by (simp_all add: verbatim_rest_def anchor_of_def loose_name_start_def has_verbatim_form_def)
    then show ?thesis using drive verbatim_drive_plain by simp
  next
    case server
    then have "fold_path (verbatim_rest p) = ascii ''UNC'' @ [BACKSLASH] @ fold_path (drop 2 p)"
      by (simp add: verbatim_rest_def anchor_of_def loose_name_start_def fold_separator_def)
    then show ?thesis using verbatim_unc_plain server by simp
  next
    case (strict n m)
    then have "fold_path (verbatim_rest p) = ascii ''UNC'' @ [BACKSLASH] @ fold_path (drop 2 p)"
      by (simp add: verbatim_rest_def anchor_of_def loose_name_start_def fold_separator_def)
    then show ?thesis using verbatim_unc_plain strict by simp
  qed (use anchor root in \<open>simp_all add: anchor_of_def\<close>)
  have "good_components (components (fold_path p))" using verbatim_good [OF vc] components_fold [OF assms(2)] by simp
  then have "\<not> has_navigated_name (fold_path p)" using root parts_fold [OF assms(2)] by (intro good_not_navigated) simp_all
  then show ?thesis using ready fold_no_slash [of "verbatim_rest p"] by (simp add: ve parse_def VERBATIM_def numeral_eq_Suc Let_def del: fold_separator_iff set_map)
qed

text \<open>C38: The string handed to Win32 for a path is found without a panic. What a path that is fully qualified, or is a UNC path, is refused for is
  a NUL and nothing else: its names are spelled verbatim where Win32 would change them. Any other path is refused for a NUL, for being empty, or for a trailing
  dot or space that Win32 would strip. The reading that Win32 makes of such a path always parses, so that its \<^verbatim>\<open>unreachable!\<close> is not reached.\<close>

theorem wide_string_found:
  "(\<exists>r. wide_string p = Some r \<and> (\<forall>e. r = Inl e \<longrightarrow>
      (if has_pure_reading p then reason e = InteriorNul else reason e \<in> {InteriorNul, EmptyPath, TrailingDotOrSpace, SingleTrailingDot})))
   \<and> win32_normalized p \<noteq> None
   \<and> (has_pure_reading p \<longrightarrow> (\<exists>q. win32_reading p strip = Some q \<and> has_verbatim_form q))"
proof -
  have "win32_normalized p \<noteq> None"
  proof (cases "check_win32 p True False")
    case (Inr u)
    then have "has_pure_reading p" by (auto simp: check_win32_def has_pure_reading_def split: option.splits if_splits)
    then obtain q where "win32_reading p True = Some q" using reading_ready by blast
    then show ?thesis using Inr by (simp add: win32_normalized_def)
  qed (simp add: win32_normalized_def)
  moreover have "has_pure_reading p \<longrightarrow> (\<exists>q. win32_reading p strip = Some q \<and> has_verbatim_form q)"
    using reading_ready by (auto simp: verbatim_ready_def)
  moreover have "\<exists>r. wide_string p = Some r \<and> (\<forall>e. r = Inl e \<longrightarrow>
      (if has_pure_reading p then reason e = InteriorNul else reason e \<in> {InteriorNul, EmptyPath, TrailingDotOrSpace, SingleTrailingDot}))"
  proof (cases "nul_piece p")
    case None
    then show ?thesis using wide_string_pure [of p] wide_string_relative [of p] spelled_errors [of p]
      by (cases "has_pure_reading p") (fastforce split: sum.splits)+
  qed (auto simp: wide_string_def conversion_error_def)
  ultimately show ?thesis by blast
qed

theorem wide_string_found_witness:
  "has_pure_reading [BACKSLASH, BACKSLASH, 0x73, BACKSLASH, 0x68, SLASH, 0x61, DOT] \<and>
   (\<exists>q. win32_reading [BACKSLASH, BACKSLASH, 0x73, BACKSLASH, 0x68, SLASH, 0x61, DOT] True = Some q \<and> has_verbatim_form q)"
proof -
  have "has_pure_reading [BACKSLASH, BACKSLASH, 0x73, BACKSLASH, 0x68, SLASH, 0x61, DOT]" by code_simp
  then show ?thesis using wide_string_found [of "[BACKSLASH, BACKSLASH, 0x73, BACKSLASH, 0x68, SLASH, 0x61, DOT]" True] by blast
qed

text \<open>A verbatim string reads back as the path it was made of, up to the choice of separator: for a drive path and for a UNC path whose share directly
  follows its server.\<close>

theorem verbatim_round_trip:
  assumes "to_verbatim p = Inr v" and "lead_ok p" and "(case anchor_of p of Drive _ _ \<Rightarrow> True | Unc _ _ \<Rightarrow> True | _ \<Rightarrow> False)"
    and "pt_loose_root (parts p) = None"
  shows "\<exists>q. parse v = Inr q \<and> path_eq q p \<and> anchor_of q = anchor_of p \<and> components q = components p"
  using verbatim_strict [OF assms] parts_fold [OF assms(2)] components_fold [OF assms(2)]
  by (simp add: path_eq_def anchor_of_def comp_def)

theorem verbatim_round_trip_witness:
  "\<exists>v q. to_verbatim [BACKSLASH, SLASH, 0x73, SLASH, 0x68, SLASH, 0x61, DOT] = Inr v \<and> parse v = Inr q
     \<and> components q = [Normal [0x61, DOT]]"
proof -
  have v: "to_verbatim [BACKSLASH, SLASH, 0x73, SLASH, 0x68, SLASH, 0x61, DOT]
      = Inr (VERBATIM @ ascii ''UNC'' @ [BACKSLASH, 0x73, BACKSLASH, 0x68, BACKSLASH, 0x61, DOT])" by code_simp
  moreover have "lead_ok [BACKSLASH, SLASH, 0x73, SLASH, 0x68, SLASH, 0x61, DOT]"
    "(case anchor_of [BACKSLASH, SLASH, 0x73, SLASH, 0x68, SLASH, 0x61, DOT] of Drive _ _ \<Rightarrow> True | Unc _ _ \<Rightarrow> True | _ \<Rightarrow> False)"
    "pt_loose_root (parts [BACKSLASH, SLASH, 0x73, SLASH, 0x68, SLASH, 0x61, DOT]) = None"
    "components [BACKSLASH, SLASH, 0x73, SLASH, 0x68, SLASH, 0x61, DOT] = [Normal [0x61, DOT]]" by code_simp+
  ultimately show ?thesis using verbatim_round_trip by metis
qed

end
