(* ===== verification/Shim_Protocol.thy ===== *)
theory Shim_Protocol
  imports Decimal
begin

text \<open>
  \<^verbatim>\<open>src/src/elevation/shim/protocol.rs\<close>: the elevation shim's invocation argv, and that it has one
  reading. \<^verbatim>\<open>OsString\<close> and \<^verbatim>\<open>PathBuf\<close> are byte strings on Unix, and
  \<^verbatim>\<open>Path::is_absolute\<close> there is a leading \<open>/\<close>.
\<close>

section \<open>The invocation\<close>

definition FLAG :: bytes where "FLAG = ascii ''--cosca-elevation-shim=1''"
definition FLAG_HEX :: bytes where "FLAG_HEX = ascii ''--cosca-elevation-shim=1x''"
definition FLAG_PREFIX :: bytes where "FLAG_PREFIX = ascii ''--cosca-elevation-shim''"
definition SEPARATOR :: bytes where "SEPARATOR = ascii ''--''"
abbreviation SEPARATOR_AT :: nat where "SEPARATOR_AT \<equiv> 7"

record ShimIdentity =
  unique_id :: u64
  id_version :: u32

record ShimArgs =
  sa_dir :: bytes
  sa_cosca_pid :: u32
  sa_cosca_identity :: "ShimIdentity option"
  sa_cosca_euid :: u32
  sa_search_path :: "bytes option"
  sa_program :: bytes
  sa_args :: "bytes list"

datatype ShimArgsError = UnknownVersion | TooFewArguments | MissingSeparator | BadHex | EmbeddedNul
  | BadNumber | BadIdentity | BadDir | BadSearch

subsection \<open>Hex\<close>

text \<open>\<^verbatim>\<open>write!(s, "{b:02x}")\<close>: two lowercase digits.\<close>

definition hex_digit :: "u8 \<Rightarrow> u8" where
  "hex_digit n = (if n < 10 then 0x30 + n else 0x61 + (n - 10))"

definition to_hex :: "bytes \<Rightarrow> bytes" where
  "to_hex a = concat (map (\<lambda>b. [hex_digit (drop_bit 4 b), hex_digit (b AND 0xF)]) a)"

definition nibble :: "u8 \<Rightarrow> ShimArgsError + u8" where
  "nibble c = (if 0x30 \<le> c \<and> c \<le> 0x39 then Inr (c - 0x30)
     else if 0x61 \<le> c \<and> c \<le> 0x66 then Inr (c - 0x61 + 10)
     else Inl BadHex)"

definition hex_pair :: "u8 \<Rightarrow> u8 \<Rightarrow> ShimArgsError + u8" where
  "hex_pair hi lo = (case nibble hi of Inl e \<Rightarrow> Inl e
     | Inr h \<Rightarrow> (case nibble lo of Inl e \<Rightarrow> Inl e | Inr l \<Rightarrow> Inr (push_bit 4 h OR l)))"

text \<open>The odd byte is checked before any digit; then the pairs in order.\<close>

fun hex_pairs :: "bytes \<Rightarrow> ShimArgsError + bytes" where
  "hex_pairs (hi # lo # r) = (case hex_pair hi lo of Inl e \<Rightarrow> Inl e
     | Inr b \<Rightarrow> (case hex_pairs r of Inl e \<Rightarrow> Inl e | Inr bs \<Rightarrow> Inr (b # bs)))"
| "hex_pairs _ = Inr []"

definition from_hex :: "bytes \<Rightarrow> ShimArgsError + bytes" where
  "from_hex a = (if odd (length a) then Inl BadHex else hex_pairs a)"

subsection \<open>Numbers\<close>

text \<open>\<^verbatim>\<open>str::parse\<close> for an unsigned integer type: the value, or an error when it does not fit.\<close>

definition decimal :: "bytes \<Rightarrow> 'a::len word option" where
  "decimal a = (if a = [] \<or> \<not> list_all is_ascii_digit a \<or> (1 < length a \<and> hd a = 0x30) then None
     else if digits_value 0 a < 2 ^ LENGTH('a) then Some (of_int (digits_value 0 a)) else None)"

definition decimal_u32 :: "bytes \<Rightarrow> ShimArgsError + u32" where
  "decimal_u32 a = (case decimal a of None \<Rightarrow> Inl BadNumber | Some n \<Rightarrow> Inr n)"

subsection \<open>Fields\<close>

abbreviation COLON :: u8 where "COLON \<equiv> 0x3A"
abbreviation DASH :: bytes where "DASH \<equiv> [0x2D]"

definition parse_identity :: "bytes \<Rightarrow> bool \<Rightarrow> ShimArgsError + ShimIdentity option" where
  "parse_identity a identity_present =
     (if \<not> identity_present then (if a = DASH then Inr None else Inl BadIdentity)
      else (case split_on (\<lambda>b. b = COLON) a of
          [u, v] \<Rightarrow> (case decimal u of None \<Rightarrow> Inl BadIdentity
            | Some uniq \<Rightarrow> (case decimal v of None \<Rightarrow> Inl BadIdentity
                | Some ver \<Rightarrow> Inr (Some \<lparr>unique_id = uniq, id_version = ver\<rparr>)))
        | _ \<Rightarrow> Inl BadIdentity))"

definition parse_search :: "bytes \<Rightarrow> ShimArgsError + bytes option" where
  "parse_search a = (if a = DASH then Inr None
     else (case a of b # path \<Rightarrow> if b = 0x50 then Inr (Some path) else Inl BadSearch | [] \<Rightarrow> Inl BadSearch))"

definition is_absolute :: "bytes \<Rightarrow> bool" where
  "is_absolute p \<longleftrightarrow> p \<noteq> [] \<and> hd p = SLASH"

subsection \<open>Writing and reading the argv\<close>

definition identity_field :: "ShimIdentity option \<Rightarrow> bytes" where
  "identity_field i = (case i of None \<Rightarrow> DASH
     | Some s \<Rightarrow> show_uint (unique_id s) @ [COLON] @ show_uint (id_version s))"

definition search_field :: "bytes option \<Rightarrow> bytes" where
  "search_field s = (case s of None \<Rightarrow> DASH | Some path \<Rightarrow> 0x50 # path)"

definition to_argv_for :: "ShimArgs \<Rightarrow> bytes \<Rightarrow> bool \<Rightarrow> bytes list" where
  "to_argv_for a exe hex =
     (let enc = (\<lambda>x. if hex then to_hex x else x);
          front = [sa_dir a, show_uint (sa_cosca_pid a), identity_field (sa_cosca_identity a),
                    show_uint (sa_cosca_euid a), search_field (sa_search_path a)]
      in [exe, if hex then FLAG_HEX else FLAG] @ map enc front @ [SEPARATOR]
         @ [enc (sa_program a)] @ map enc (sa_args a))"

text \<open>The closure over \<^verbatim>\<open>argv[2..].iter().enumerate()\<close>, which leaves the separator alone, and
  \<^verbatim>\<open>collect\<close>, which stops at the first error.\<close>

primrec decode_fields :: "nat \<Rightarrow> bytes list \<Rightarrow> ShimArgsError + bytes list" where
  "decode_fields i [] = Inr []"
| "decode_fields i (a # as) = (case (if i + 2 = SEPARATOR_AT then Inr a else from_hex a) of
     Inl e \<Rightarrow> Inl e
   | Inr x \<Rightarrow> (case decode_fields (Suc i) as of Inl e \<Rightarrow> Inl e | Inr xs \<Rightarrow> Inr (x # xs)))"

definition parse_fields :: "bytes list \<Rightarrow> bool \<Rightarrow> ShimArgsError + ShimArgs option" where
  "parse_fields flds identity_present = (case flds of
     d # pid # identity # euid # search # sep # prog # as \<Rightarrow>
       if \<not> is_absolute d then Inl BadDir
       else (case decimal_u32 pid of Inl e \<Rightarrow> Inl e
         | Inr p \<Rightarrow> (case parse_identity identity identity_present of Inl e \<Rightarrow> Inl e
           | Inr i \<Rightarrow> (case decimal_u32 euid of Inl e \<Rightarrow> Inl e
             | Inr u \<Rightarrow> (case parse_search search of Inl e \<Rightarrow> Inl e
               | Inr s \<Rightarrow> Inr (Some \<lparr>sa_dir = d, sa_cosca_pid = p, sa_cosca_identity = i, sa_cosca_euid = u,
                                 sa_search_path = s, sa_program = prog, sa_args = as\<rparr>)))))
   | _ \<Rightarrow> Inl TooFewArguments)"

definition parse_for :: "bytes list \<Rightarrow> bool \<Rightarrow> ShimArgsError + ShimArgs option" where
  "parse_for argv identity_present = (case argv of
     _ # flag # rest \<Rightarrow>
       if take (length FLAG_PREFIX) flag \<noteq> FLAG_PREFIX then Inr None
       else if flag \<noteq> FLAG \<and> flag \<noteq> FLAG_HEX then Inl UnknownVersion
       else if length argv \<le> SEPARATOR_AT + 1 then Inl TooFewArguments
       else if argv ! SEPARATOR_AT \<noteq> SEPARATOR then Inl MissingSeparator
       else (case (if flag = FLAG_HEX then decode_fields 0 rest else Inr rest) of
           Inl e \<Rightarrow> Inl e
         | Inr flds \<Rightarrow>
             if list_ex (\<lambda>a. 0 \<in> set a) flds then Inl EmbeddedNul
             else parse_fields flds identity_present)
   | _ \<Rightarrow> Inr None)"

section \<open>Hex and decimal have one spelling\<close>

lemma u8_cases_16:
  fixes n :: u8
  assumes "n < 16"
  shows "n \<in> {0, 1, 2, 3, 4, 5, 6, 7, 8, 9, 10, 11, 12, 13, 14, 15}"
proof -
  have "unat n < 16" using assms by (simp add: word_less_nat_alt)
  then have "unat n \<in> set [0..<16]" by simp
  moreover have "n = of_nat (unat n)" by simp
  ultimately have "n \<in> of_nat ` set [0..<16]" by (rule rev_image_eqI)
  then show ?thesis by (simp add: upt_rec)
qed

lemma nibble_hex_digit: "n < 16 \<Longrightarrow> nibble (hex_digit n) = Inr n"
  by (drule u8_cases_16) (auto simp: nibble_def hex_digit_def)

lemma hex_digit_nibble: "nibble c = Inr n \<Longrightarrow> n < 16 \<and> hex_digit n = c"
  by (auto simp: nibble_def hex_digit_def split: if_splits; unat_arith)

lemma u8_nibbles: "push_bit 4 (drop_bit 4 b) OR (b AND 0xF) = (b :: u8)"
proof (rule bit_word_eqI)
  fix n assume "n < LENGTH(8)"
  have m: "(0xF :: u8) = mask 4" by (simp add: mask_eq_decr_exp)
  show "bit (push_bit 4 (drop_bit 4 b) OR (b AND 0xF)) n = bit b n"
    using \<open>n < LENGTH(8)\<close> by (auto simp: bit_simps m)
qed

lemma u8_nibble_bounds: "drop_bit 4 (b :: u8) < 16" "(b :: u8) AND 0xF < 16"
proof -
  have "unat (drop_bit 4 b) = unat b div 16" by (simp add: drop_bit_eq_div unat_div)
  moreover have "unat b < 2 ^ LENGTH(8)" by (rule unsigned_less)
  ultimately show "drop_bit 4 b < 16" by (simp add: word_less_nat_alt)
  have "b AND 0xF \<le> 0xF" by (rule word_and_le1)
  then show "b AND 0xF < 16" by unat_arith
qed

lemma u8_of_nibbles:
  "(h :: u8) < 16 \<Longrightarrow> l < 16 \<Longrightarrow> drop_bit 4 (push_bit 4 h OR l) = h \<and> (push_bit 4 h OR l) AND 0xF = l"
  by (drule u8_cases_16, drule u8_cases_16) auto

lemma hex_pair_iff: "hex_pair hi lo = Inr b \<longleftrightarrow> hi = hex_digit (drop_bit 4 b) \<and> lo = hex_digit (b AND 0xF)"
proof
  assume "hex_pair hi lo = Inr b"
  then obtain h l where "nibble hi = Inr h" "nibble lo = Inr l" "b = push_bit 4 h OR l"
    by (auto simp: hex_pair_def split: sum.splits)
  with hex_digit_nibble [of hi h] hex_digit_nibble [of lo l] u8_of_nibbles [of h l]
  show "hi = hex_digit (drop_bit 4 b) \<and> lo = hex_digit (b AND 0xF)" by simp
next
  assume "hi = hex_digit (drop_bit 4 b) \<and> lo = hex_digit (b AND 0xF)"
  then show "hex_pair hi lo = Inr b"
    by (simp add: hex_pair_def nibble_hex_digit u8_nibble_bounds u8_nibbles)
qed

lemma to_hex_Nil [simp]: "to_hex [] = []"
  by (simp add: to_hex_def)

lemma to_hex_Cons: "to_hex (b # bs) = hex_digit (drop_bit 4 b) # hex_digit (b AND 0xF) # to_hex bs"
  by (simp add: to_hex_def)

lemma even_length_to_hex: "even (length (to_hex bs))"
  by (induction bs) (simp_all add: to_hex_Cons)

lemma hex_pairs_to_hex: "hex_pairs (to_hex bs) = Inr bs"
  by (induction bs) (simp_all add: to_hex_Cons hex_pair_iff [THEN iffD2])

lemma hex_pairs_canonical: "hex_pairs a = Inr bs \<Longrightarrow> even (length a) \<Longrightarrow> to_hex bs = a"
  by (induction a arbitrary: bs rule: hex_pairs.induct)
    (auto simp: to_hex_Cons hex_pair_iff split: sum.splits)

interpretation hex: codec to_hex from_hex "\<lambda>_. True"
proof
  show "from_hex (to_hex x) = Inr x" for x
    by (simp add: from_hex_def even_length_to_hex hex_pairs_to_hex)
  show "from_hex y = Inr x \<Longrightarrow> True \<and> to_hex x = y" for x y
    by (auto simp: from_hex_def hex_pairs_canonical split: if_splits)
qed

lemma decimal_show [simp]: "decimal (show_uint w) = Some w"
  using show_int_decimal [of "uint w"] uint_lt2p [of w]
  by (auto simp: decimal_def show_uint_def)

lemma show_decimal: "decimal a = Some w \<Longrightarrow> show_uint (w :: 'a::len word) = a"
proof -
  assume "decimal a = Some w"
  then have a: "a \<noteq> []" "list_all is_ascii_digit a" "1 < length a \<longrightarrow> hd a \<noteq> 0x30"
    and lt: "digits_value 0 a < 2 ^ LENGTH('a)" and w: "w = of_int (digits_value 0 a)"
    by (auto simp: decimal_def split: if_splits)
  have "0 \<le> digits_value 0 a" using digits_value_ge [OF a(2), of 0] by simp
  with lt w have "uint w = digits_value 0 a" by (simp add: unsigned_of_int take_bit_int_eq_self)
  with show_int_digits_value [of a] a show ?thesis by (simp add: show_uint_def)
qed

lemma decimal_iff: "decimal a = Some w \<longleftrightarrow> a = show_uint w"
  using decimal_show show_decimal by blast

lemma decimal_u32_iff: "decimal_u32 a = Inr w \<longleftrightarrow> a = show_uint w"
  by (auto simp: decimal_u32_def dest: show_decimal split: option.splits)

lemma show_uint_digits: "list_all is_ascii_digit (show_uint w)" "show_uint w \<noteq> []"
  using show_int_decimal [of "uint w"] by (simp_all add: show_uint_def)

section \<open>The argv has one spelling\<close>

lemma digits_no_colon: "list_all is_ascii_digit a \<Longrightarrow> COLON \<notin> set a"
  by (auto simp: list_all_iff is_ascii_digit_def)

lemma digits_no_nul: "list_all is_ascii_digit a \<Longrightarrow> 0 \<notin> set a"
  by (auto simp: list_all_iff is_ascii_digit_def)

lemma parse_identity_iff:
  "parse_identity a present = Inr i \<longleftrightarrow> identity_field i = a \<and> (i \<noteq> None \<longleftrightarrow> present)"
proof (cases present)
  case False
  then show ?thesis by (cases i) (auto simp: parse_identity_def identity_field_def dest: sym)
next
  case True
  show ?thesis
  proof
    assume "parse_identity a present = Inr i"
    with True obtain u v n m where s: "split_on (\<lambda>b. b = COLON) a = [u, v]" and "decimal u = Some n"
      and "decimal v = Some m" and "i = Some \<lparr>unique_id = n, id_version = m\<rparr>"
      by (auto simp: parse_identity_def split: list.splits option.splits)
    moreover have "a = u @ [COLON] @ v"
      using intercalate_split_on [of COLON a] by (simp add: s)
    ultimately show "identity_field i = a \<and> (i \<noteq> None \<longleftrightarrow> present)"
      using True by (simp add: identity_field_def show_decimal)
  next
    assume i: "identity_field i = a \<and> (i \<noteq> None \<longleftrightarrow> present)"
    with True obtain s where s: "i = Some s" by auto
    have "split_on (\<lambda>b. b = COLON) (intercalate COLON [show_uint (unique_id s), show_uint (id_version s)])
        = [show_uint (unique_id s), show_uint (id_version s)]"
      by (intro split_on_intercalate) (auto dest: digits_no_colon [OF show_uint_digits(1), THEN notE])
    with i s True show "parse_identity a present = Inr i"
      by (auto simp: parse_identity_def identity_field_def)
  qed
qed

lemma parse_search_iff: "parse_search a = Inr s \<longleftrightarrow> search_field s = a"
  by (cases s) (auto simp: parse_search_def search_field_def split: list.splits)

definition valid_args :: "bool \<Rightarrow> ShimArgs \<Rightarrow> bool" where
  "valid_args identity_present a \<longleftrightarrow> is_absolute (sa_dir a) \<and> 0 \<notin> set (sa_dir a)
     \<and> (case sa_search_path a of None \<Rightarrow> True | Some p \<Rightarrow> 0 \<notin> set p)
     \<and> 0 \<notin> set (sa_program a) \<and> list_all (\<lambda>x. 0 \<notin> set x) (sa_args a)
     \<and> (sa_cosca_identity a \<noteq> None \<longleftrightarrow> identity_present)"

definition plain_fields :: "ShimArgs \<Rightarrow> bytes list" where
  "plain_fields a = [sa_dir a, show_uint (sa_cosca_pid a), identity_field (sa_cosca_identity a),
     show_uint (sa_cosca_euid a), search_field (sa_search_path a), SEPARATOR, sa_program a] @ sa_args a"

lemma parse_fields_iff:
  assumes "flds ! 5 = SEPARATOR"
  shows "parse_fields flds present = Inr (Some a) \<longleftrightarrow>
    flds = plain_fields a \<and> is_absolute (sa_dir a) \<and> (sa_cosca_identity a \<noteq> None \<longleftrightarrow> present)"
    (is "?l \<longleftrightarrow> ?r")
proof
  assume ?l
  with assms show ?r
    by (auto simp: parse_fields_def plain_fields_def decimal_u32_iff parse_identity_iff parse_search_iff
        split: list.splits if_splits sum.splits)
next
  assume r: ?r
  have "decimal_u32 (show_uint (sa_cosca_pid a)) = Inr (sa_cosca_pid a)"
    "parse_identity (identity_field (sa_cosca_identity a)) present = Inr (sa_cosca_identity a)"
    "decimal_u32 (show_uint (sa_cosca_euid a)) = Inr (sa_cosca_euid a)"
    "parse_search (search_field (sa_search_path a)) = Inr (sa_search_path a)"
    using r by (simp_all add: decimal_u32_iff parse_identity_iff parse_search_iff)
  with r show ?l by (simp add: parse_fields_def plain_fields_def)
qed

lemma decode_fields_tail: "5 < i \<Longrightarrow> decode_fields i as = Inr xs \<longleftrightarrow> as = map to_hex xs"
proof (induction as arbitrary: i xs)
  case Nil
  then show ?case by auto
next
  case (Cons a as)
  then show ?case by (cases xs) (auto simp: hex.decode_iff)
qed

definition hex_fields :: "bytes list \<Rightarrow> bytes list" where
  "hex_fields flds = (map to_hex flds)[5 := SEPARATOR]"

lemma to_argv_for_fields:
  "to_argv_for a exe hex = exe # (if hex then FLAG_HEX else FLAG) #
     (if hex then hex_fields (plain_fields a) else plain_fields a)"
  by (simp add: to_argv_for_def plain_fields_def hex_fields_def)

lemma long_list_cases:
  assumes "7 \<le> length xs"
  obtains d p i e s sep g as where "xs = d # p # i # e # s # sep # g # as"
  using assms by (auto simp: eval_nat_numeral Suc_le_length_iff)

lemma decode_fields_hex:
  assumes "7 \<le> length rest" and "rest ! 5 = SEPARATOR"
  shows "decode_fields 0 rest = Inr flds \<longleftrightarrow> flds ! 5 = SEPARATOR \<and> 7 \<le> length flds \<and> rest = hex_fields flds"
proof -
  obtain d p i e s sep g as where rest: "rest = d # p # i # e # s # sep # g # as"
    using assms(1) by (rule long_list_cases)
  show ?thesis
  proof
    assume "decode_fields 0 rest = Inr flds"
    with rest assms show "flds ! 5 = SEPARATOR \<and> 7 \<le> length flds \<and> rest = hex_fields flds"
      by (auto simp: hex.decode_iff decode_fields_tail hex_fields_def)
  next
    assume r: "flds ! 5 = SEPARATOR \<and> 7 \<le> length flds \<and> rest = hex_fields flds"
    then have "7 \<le> length flds" by simp
    then obtain d' p' i' e' s' sep' g' as' where "flds = d' # p' # i' # e' # s' # sep' # g' # as'"
      by (rule long_list_cases)
    with r rest show "decode_fields 0 rest = Inr flds"
      by (auto simp: hex.decode_iff decode_fields_tail hex_fields_def)
  qed
qed

lemma flag_facts: "take (length FLAG_PREFIX) FLAG = FLAG_PREFIX" "take (length FLAG_PREFIX) FLAG_HEX = FLAG_PREFIX"
  "FLAG \<noteq> FLAG_HEX"
  by (simp_all add: FLAG_def FLAG_HEX_def FLAG_PREFIX_def)

lemma plain_fields_sep: "plain_fields a ! 5 = SEPARATOR" "7 \<le> length (plain_fields a)"
  by (simp_all add: plain_fields_def)

lemma hex_fields_sep: "7 \<le> length xs \<Longrightarrow> hex_fields xs ! 5 = SEPARATOR \<and> length (hex_fields xs) = length xs"
  by (simp add: hex_fields_def)

lemma show_uint_no_nul [simp]: "0 \<notin> set (show_uint w)"
  by (rule digits_no_nul [OF show_uint_digits(1)])

lemma plain_fields_no_nul:
  "is_absolute (sa_dir a) \<Longrightarrow> (sa_cosca_identity a \<noteq> None \<longleftrightarrow> present) \<Longrightarrow>
   list_ex (\<lambda>x. 0 \<in> set x) (plain_fields a) \<longleftrightarrow> \<not> valid_args present a"
  by (auto simp: plain_fields_def valid_args_def SEPARATOR_def identity_field_def search_field_def
      list_ex_iff list_all_iff split: option.splits)

lemma parse_for_cons:
  "parse_for (exe # flag # rest) present = Inr (Some a) \<longleftrightarrow>
     (flag = FLAG \<or> flag = FLAG_HEX) \<and> 7 \<le> length rest \<and> rest ! 5 = SEPARATOR \<and>
     (\<exists>flds. (if flag = FLAG_HEX then decode_fields 0 rest else Inr rest) = Inr flds \<and>
        \<not> list_ex (\<lambda>a. 0 \<in> set a) flds \<and> parse_fields flds present = Inr (Some a))"
proof -
  have "length (exe # flag # rest) \<le> SEPARATOR_AT + 1 \<longleftrightarrow> \<not> 7 \<le> length rest" by auto
  moreover have "(exe # flag # rest) ! SEPARATOR_AT = rest ! 5" by simp
  ultimately show ?thesis
    using flag_facts by (auto simp: parse_for_def simp del: nth_Cons_numeral)
qed

lemma fields_of:
  assumes "7 \<le> length rest" and "rest ! 5 = SEPARATOR"
  shows "(if hex then decode_fields 0 rest else Inr rest) = Inr flds \<longleftrightarrow>
    flds ! 5 = SEPARATOR \<and> 7 \<le> length flds \<and> rest = (if hex then hex_fields flds else flds)"
  using assms by (auto simp: decode_fields_hex)

lemma parse_for_iff:
  "parse_for argv present = Inr (Some a) \<longleftrightarrow>
     valid_args present a \<and> (\<exists>exe hex. argv = to_argv_for a exe hex)"
proof
  assume p: "parse_for argv present = Inr (Some a)"
  obtain exe flag rest where argv: "argv = exe # flag # rest"
    using p by (auto simp: parse_for_def split: list.splits)
  from p [unfolded argv parse_for_cons] obtain flds where flag: "flag = FLAG \<or> flag = FLAG_HEX"
    and len: "7 \<le> length rest" and sep: "rest ! 5 = SEPARATOR"
    and dec: "(if flag = FLAG_HEX then decode_fields 0 rest else Inr rest) = Inr flds"
    and nul: "\<not> list_ex (\<lambda>a. 0 \<in> set a) flds" and fl: "parse_fields flds present = Inr (Some a)"
    by blast
  from dec fields_of [OF len sep, of "flag = FLAG_HEX"]
  have sep': "flds ! 5 = SEPARATOR" and rest: "rest = (if flag = FLAG_HEX then hex_fields flds else flds)"
    by simp_all
  from fl parse_fields_iff [OF sep'] have flds: "flds = plain_fields a" and ok: "is_absolute (sa_dir a)"
    "sa_cosca_identity a \<noteq> None \<longleftrightarrow> present" by simp_all
  have "valid_args present a" using plain_fields_no_nul [OF ok] nul flds by simp
  moreover have "argv = to_argv_for a exe (flag = FLAG_HEX)"
    using flag flag_facts(3) by (auto simp: argv rest flds to_argv_for_fields)
  ultimately show "valid_args present a \<and> (\<exists>exe hex. argv = to_argv_for a exe hex)" by blast
next
  assume "valid_args present a \<and> (\<exists>exe hex. argv = to_argv_for a exe hex)"
  then obtain exe hex where v: "valid_args present a" and argv: "argv = to_argv_for a exe hex" by blast
  let ?flag = "if hex then FLAG_HEX else FLAG"
  let ?rest = "if hex then hex_fields (plain_fields a) else plain_fields a"
  have rest: "7 \<le> length ?rest" "?rest ! 5 = SEPARATOR"
    using hex_fields_sep [OF plain_fields_sep(2)] plain_fields_sep by simp_all
  have ok: "is_absolute (sa_dir a)" "sa_cosca_identity a \<noteq> None \<longleftrightarrow> present"
    using v by (simp_all add: valid_args_def)
  have "(if ?flag = FLAG_HEX then decode_fields 0 ?rest else Inr ?rest) = Inr (plain_fields a)"
    using fields_of [OF rest, of hex "plain_fields a"] plain_fields_sep flag_facts(3) by auto
  moreover have "parse_fields (plain_fields a) present = Inr (Some a)"
    using parse_fields_iff [OF plain_fields_sep(1)] ok by simp
  ultimately show "parse_for argv present = Inr (Some a)"
    using rest v plain_fields_no_nul [OF ok] unfolding argv to_argv_for_fields parse_for_cons by auto
qed

lemma parse_fields_not_None: "parse_fields flds present \<noteq> Inr None"
  by (auto simp: parse_fields_def split: list.splits if_splits sum.splits)

lemma parse_for_None:
  "parse_for argv present = Inr None \<longleftrightarrow>
     \<not> (2 \<le> length argv \<and> take (length FLAG_PREFIX) (argv ! 1) = FLAG_PREFIX)"
proof -
  consider "argv = []" | e where "argv = [e]" | e flag rest where "argv = e # flag # rest"
    by (cases argv rule: remdups_adj.cases) auto
  then show ?thesis
    by cases (auto simp: parse_for_def parse_fields_not_None)
qed

section \<open>Properties\<close>

text \<open>The shim's argv has one reading. \<open>parse_for\<close> answers with an invocation exactly on the argvs that
  \<open>to_argv_for\<close> writes, plain or hex, for arguments that are well formed (an absolute directory, an
  identity exactly where the platform has one, no NUL byte in any field).\<close>

theorem argv_read_iff:
  "parse_for argv present = Inr (Some a) \<longleftrightarrow>
     valid_args present a \<and> (\<exists>exe hex. argv = to_argv_for a exe hex)"
  by (rule parse_for_iff)

text \<open>An argv is left to the program itself exactly when its second word does not start with the
  shim's flag: a malformed invocation is an error and never falls through.\<close>

theorem argv_fallthrough_iff:
  "parse_for argv present = Inr None \<longleftrightarrow>
     \<not> (2 \<le> length argv \<and> take (length FLAG_PREFIX) (argv ! 1) = FLAG_PREFIX)"
  by (rule parse_for_None)

text \<open>\<open>decimal\<close> accepts exactly the string \<open>to_string\<close> writes, so no sign, no leading zero and no
  number past the type's range.\<close>

theorem decimal_one_spelling: "decimal a = Some (w :: 'a::len word) \<longleftrightarrow> a = show_uint w"
  by (rule decimal_iff)

end
