(* ===== verification/Elevation_Argv.thy ===== *)
theory Elevation_Argv
  imports Command_Model Shim_Protocol
begin

text \<open>
  The command lines of \<^verbatim>\<open>src/src/elevation/posix.rs\<close>, with \<^verbatim>\<open>elevation_argv\<close> of \<^verbatim>\<open>src/src/elevation.rs\<close>: which argv an
  elevation can wrap, the argv that runs a program through a front, and the argv that runs the shim through one. A value
  \<open>None\<close> of \<open>build_argv\<close> is the panic of its \<^verbatim>\<open>unreachable!\<close>.
\<close>

section \<open>The argv that is elevated\<close>

record ArgvRefusals =
  ar_platform :: String.literal
  ar_op_prefix :: String.literal

definition elevation_argv :: "Command \<Rightarrow> ArgvRefusals \<Rightarrow> Error + bytes list" where
  "elevation_argv cmd words = (
     let refuse = (\<lambda>what. Unsupported (ar_op_prefix words + STR '' '' + what) (ar_platform words));
         no_program = Inl (refuse (STR ''of an empty command''))
     in (case cm_executable cmd of
          Some (Search _) \<Rightarrow> Inl (refuse (STR ''of a program set by executable()''))
        | Some (Exact _) \<Rightarrow> Inl (refuse (STR ''of a program set by raw_executable()''))
        | None \<Rightarrow> (case cm_input cmd of
              Argv argv \<Rightarrow> if argv = [] then no_program else Inr argv
            | EmptyInput \<Rightarrow> no_program
            | CommandLine _ \<Rightarrow> Inl (refuse (STR ''of a commandline() command'')))))"

record Launch =
  la_program :: bytes
  la_args :: "bytes list"
  la_cwd :: "bytes option"

section \<open>Running a program through a front\<close>

definition is_ascii_alphabetic :: "u8 \<Rightarrow> bool" where
  "is_ascii_alphabetic c \<longleftrightarrow> 0x41 \<le> c \<and> c \<le> 0x5A \<or> 0x61 \<le> c \<and> c \<le> 0x7A"

definition is_ascii_alphanumeric :: "u8 \<Rightarrow> bool" where
  "is_ascii_alphanumeric c \<longleftrightarrow> is_ascii_alphabetic c \<or> 0x30 \<le> c \<and> c \<le> 0x39"

definition valid_env_name :: "bytes \<Rightarrow> bool" where
  "valid_env_name b = (case b of
      [] \<Rightarrow> False
    | c # _ \<Rightarrow> (c = 0x5F \<or> is_ascii_alphabetic c) \<and> list_all (\<lambda>c. c = 0x5F \<or> is_ascii_alphanumeric c) b)"

definition unsupported_env_name :: Error where
  "unsupported_env_name =
     Unsupported (STR ''forwarding an env var with an unusual name across elevation'') (STR ''unix'')"

primrec preserve_env_loop :: "nat \<Rightarrow> (bytes \<times> bytes) list \<Rightarrow> bytes \<Rightarrow> Error + bytes" where
  "preserve_env_loop i [] flag = Inr flag"
| "preserve_env_loop i (kv # env) flag =
     (if \<not> valid_env_name (fst kv) then Inl unsupported_env_name
      else preserve_env_loop (Suc i) env ((if 0 < i then flag @ [0x2C] else flag) @ fst kv))"

definition preserve_env_flag :: "(bytes \<times> bytes) list \<Rightarrow> Error + bytes" where
  "preserve_env_flag env = preserve_env_loop 0 env (ascii ''--preserve-env='')"

definition auth_flag :: "Auth \<Rightarrow> bytes list" where
  "auth_flag auth = (case auth of
      NonInteractive \<Rightarrow> [ascii ''-n'']
    | Stdin _ \<Rightarrow> [ascii ''-S'']
    | Askpass _ \<Rightarrow> [ascii ''-A'']
    | _ \<Rightarrow> [])"

definition front_options :: "Backend \<Rightarrow> Auth \<Rightarrow> (bytes \<times> bytes) list \<Rightarrow> (Error + bytes list) option" where
  "front_options backend auth env = (case backend of
      Sudo \<Rightarrow> Some (if env = [] then Inr (auth_flag auth)
        else (case preserve_env_flag env of Inl e \<Rightarrow> Inl e | Inr flag \<Rightarrow> Inr (auth_flag auth @ [flag])))
    | Doas \<Rightarrow> Some (Inr (if auth = NonInteractive then [ascii ''-n''] else []))
    | Pkexec \<Rightarrow> Some (Inr [ascii ''--disable-internal-agent'', ascii ''--keep-cwd''])
    | Auto \<Rightarrow> None)"

definition build_argv ::
  "Backend \<Rightarrow> bytes \<Rightarrow> Auth \<Rightarrow> bytes \<Rightarrow> bytes list \<Rightarrow> (bytes \<times> bytes) list \<Rightarrow> (Error + bytes list) option" where
  "build_argv backend backend_exe auth program args env = (case front_options backend auth env of
      None \<Rightarrow> None
    | Some (Inl e) \<Rightarrow> Some (Inl e)
    | Some (Inr options) \<Rightarrow> Some (Inr ([backend_exe] @ options
        @ (if backend \<noteq> Pkexec then [ascii ''--''] else []) @ [program] @ args)))"

definition program_starts_with_dash :: "bytes \<Rightarrow> bool" where
  "program_starts_with_dash program \<longleftrightarrow> take 1 program = [0x2D]"

section \<open>Running the shim through a front\<close>

abbreviation POLKIT_SHORT_LINE :: nat where "POLKIT_SHORT_LINE \<equiv> 80"
abbreviation POLKIT_HEAD_CUT :: nat where "POLKIT_HEAD_CUT \<equiv> 38"

text \<open>\<^verbatim>\<open>str::is_char_boundary\<close>.\<close>

definition is_char_boundary :: "bytes \<Rightarrow> nat \<Rightarrow> bool" where
  "is_char_boundary s i \<longleftrightarrow> i = 0 \<or> i = length s \<or> i < length s \<and> \<not> cont (s ! i)"

definition refuse_polkit_exe :: "bytes \<Rightarrow> bytes list \<Rightarrow> Error option" where
  "refuse_polkit_exe shim_exe argv = (
     let refuse = Some (Unsupported (STR ''pkexec with this shim executable'') (STR ''unix'')) in
     (case from_utf8 shim_exe of
        None \<Rightarrow> refuse
      | Some exe \<Rightarrow>
          let line = sum_list (map length argv) + length argv - 1
          in if POLKIT_SHORT_LINE < line \<and> \<not> is_char_boundary exe (min POLKIT_HEAD_CUT (length exe)) then refuse
             else None))"

definition printable :: "bytes \<Rightarrow> bool" where
  "printable w \<longleftrightarrow> list_all (\<lambda>b. 0x20 \<le> b \<and> b \<le> 0x7E) w"

definition build_shim_argv ::
  "Backend \<Rightarrow> bytes \<Rightarrow> Auth \<Rightarrow> bytes \<Rightarrow> ShimArgs \<Rightarrow> (bytes \<times> bytes) list \<Rightarrow> (Error + bytes list) option" where
  "build_shim_argv backend backend_exe auth shim_exe shim env = (
     let argv = to_argv_for shim shim_exe False;
         argv = (if backend = Pkexec \<and> \<not> list_all printable (tl argv) then to_argv_for shim shim_exe True else argv)
     in (case (if backend = Pkexec then refuse_polkit_exe shim_exe argv else None) of
          Some e \<Rightarrow> Some (Inl e)
        | None \<Rightarrow> build_argv backend backend_exe auth (hd argv) (tl argv) env))"

section \<open>What the fronts document\<close>

text \<open>\<^verbatim>\<open>sudo\<close>, \<^verbatim>\<open>doas\<close> and \<^verbatim>\<open>pkexec\<close> are programs of the host, not of the library: what each makes of the words after its own
  name is a parameter, \<open>reads\<close>. A reading is how the front authenticates the caller, which variables it is asked to keep,
  whether it runs the program in the caller's directory, and the argv it runs.\<close>

datatype FrontAuth = MayPrompt | NeverPrompts | ReadsStdin | RunsAskpass | AsksAgent

record FrontRun =
  fr_auth :: FrontAuth
  fr_env :: "bytes list"
  fr_keeps_cwd :: bool
  fr_argv :: "bytes list"

text \<open>The options the manuals describe, of those the library gives: for \<^verbatim>\<open>sudo\<close> at most one of \<^verbatim>\<open>-n\<close>, \<^verbatim>\<open>-S\<close> and \<^verbatim>\<open>-A\<close>, and at most
  one list of variables; for \<^verbatim>\<open>doas\<close> only \<^verbatim>\<open>-n\<close>; for \<^verbatim>\<open>pkexec\<close> its two long ones.\<close>

definition option_names :: "bytes \<Rightarrow> bytes list option" where
  "option_names w = (case strip_prefix (ascii ''--preserve-env='') w of
      None \<Rightarrow> None
    | Some list \<Rightarrow>
        let names = split_on (\<lambda>b. b = 0x2C) list in if list_all valid_env_name names then Some names else None)"

definition sudo_options :: "bytes list \<Rightarrow> bool" where
  "sudo_options opts \<longleftrightarrow> (
     let auth = filter (\<lambda>w. w \<in> set [ascii ''-n'', ascii ''-S'', ascii ''-A'']) opts;
         env = filter (\<lambda>w. option_names w \<noteq> None) opts
     in length auth \<le> 1 \<and> length env \<le> 1 \<and> length auth + length env = length opts)"

definition doas_options :: "bytes list \<Rightarrow> bool" where
  "doas_options opts \<longleftrightarrow> opts = [] \<or> opts = [ascii ''-n'']"

definition pkexec_options :: "bytes list \<Rightarrow> bool" where
  "pkexec_options opts \<longleftrightarrow>
     distinct opts \<and> list_all (\<lambda>w. w \<in> set [ascii ''--disable-internal-agent'', ascii ''--keep-cwd'']) opts"

definition option_auth :: "bytes list \<Rightarrow> FrontAuth" where
  "option_auth opts =
     (if ascii ''-n'' \<in> set opts then NeverPrompts
      else if ascii ''-S'' \<in> set opts then ReadsStdin
      else if ascii ''-A'' \<in> set opts then RunsAskpass
      else if ascii ''--disable-internal-agent'' \<in> set opts then AsksAgent
      else MayPrompt)"

definition option_env :: "bytes list \<Rightarrow> bytes list" where
  "option_env opts = concat (map (\<lambda>w. case option_names w of None \<Rightarrow> [] | Some names \<Rightarrow> names) opts)"

text \<open>What the library relies on. \<^verbatim>\<open>sudo\<close> and \<^verbatim>\<open>doas\<close> end their options at \<^verbatim>\<open>--\<close> and run the words after it, in the caller's
  directory. \<^verbatim>\<open>pkexec\<close> runs from the first word that is not an option, one that does not start with a dash, and leaves the
  caller's directory unless it is told to keep it. Nothing is known of a \<^verbatim>\<open>pkexec\<close> that is given \<^verbatim>\<open>--\<close>, nor of a \<^verbatim>\<open>sudo\<close> or \<^verbatim>\<open>doas\<close>
  without it, nor of any other option.\<close>

definition fronts_documented :: "(Backend \<Rightarrow> bytes list \<Rightarrow> FrontRun option) \<Rightarrow> bool" where
  "fronts_documented reads \<longleftrightarrow>
     (\<forall>opts program args. sudo_options opts \<longrightarrow> reads Sudo (opts @ ascii ''--'' # program # args) =
        Some \<lparr>fr_auth = option_auth opts, fr_env = option_env opts, fr_keeps_cwd = True, fr_argv = program # args\<rparr>) \<and>
     (\<forall>opts program args. doas_options opts \<longrightarrow> reads Doas (opts @ ascii ''--'' # program # args) =
        Some \<lparr>fr_auth = option_auth opts, fr_env = [], fr_keeps_cwd = True, fr_argv = program # args\<rparr>) \<and>
     (\<forall>opts program args. pkexec_options opts \<and> \<not> program_starts_with_dash program \<longrightarrow>
        reads Pkexec (opts @ program # args) =
        Some \<lparr>fr_auth = option_auth opts, fr_env = [], fr_keeps_cwd = (ascii ''--keep-cwd'' \<in> set opts), fr_argv = program # args\<rparr>)"

text \<open>How a caller who chose \<open>auth\<close> expects a front to authenticate it.\<close>

definition asked_auth :: "Backend \<Rightarrow> Auth \<Rightarrow> FrontAuth" where
  "asked_auth b auth = (case b of
      Pkexec \<Rightarrow> AsksAgent
    | Doas \<Rightarrow> if auth = NonInteractive then NeverPrompts else MayPrompt
    | _ \<Rightarrow> (case auth of
          NonInteractive \<Rightarrow> NeverPrompts
        | Stdin _ \<Rightarrow> ReadsStdin
        | Askpass _ \<Rightarrow> RunsAskpass
        | _ \<Rightarrow> MayPrompt))"

text \<open>Fronts that do what is documented and refuse everything else: the hypothesis can hold.\<close>

definition demo_fronts :: "Backend \<Rightarrow> bytes list \<Rightarrow> FrontRun option" where
  "demo_fronts b ws = (
     let opts = (if b = Pkexec then takeWhile program_starts_with_dash ws else takeWhile (\<lambda>w. w \<noteq> ascii ''--'') ws);
         rest = drop (if b = Pkexec then length opts else Suc (length opts)) ws
     in if (case b of Sudo \<Rightarrow> sudo_options opts | Doas \<Rightarrow> doas_options opts | Pkexec \<Rightarrow> pkexec_options opts | Auto \<Rightarrow> False) \<and> rest \<noteq> []
        then Some \<lparr>fr_auth = option_auth opts, fr_env = (if b = Sudo then option_env opts else []),
          fr_keeps_cwd = (b \<noteq> Pkexec \<or> ascii ''--keep-cwd'' \<in> set opts), fr_argv = rest\<rparr>
        else None)"

section \<open>What a front runs\<close>

lemma preserve_env_loop_Inr:
  "preserve_env_loop i env flag = Inr out \<Longrightarrow>
     list_all (\<lambda>kv. valid_env_name (fst kv)) env \<and>
     out = flag @ (if 0 < i \<and> env \<noteq> [] then [0x2C] else []) @ intercalate 0x2C (map fst env)"
proof (induction env arbitrary: i flag)
  case (Cons kv env)
  let ?flag = "(if 0 < i then flag @ [0x2C] else flag) @ fst kv"
  have v: "valid_env_name (fst kv)" and l: "preserve_env_loop (Suc i) env ?flag = Inr out"
    using Cons.prems by (auto split: if_splits)
  have "list_all (\<lambda>kv. valid_env_name (fst kv)) env \<and> out = ?flag @ (if env \<noteq> [] then [0x2C] else []) @ intercalate 0x2C (map fst env)"
    using Cons.IH [OF l] by simp
  with v show ?case by (cases env) auto
qed simp

lemma preserve_env_flag_Inr:
  assumes "preserve_env_flag env = Inr flag"
  shows "list_all (\<lambda>kv. valid_env_name (fst kv)) env" "flag = ascii ''--preserve-env='' @ intercalate 0x2C (map fst env)"
  using preserve_env_loop_Inr [OF assms [unfolded preserve_env_flag_def]] by simp_all

text \<open>The variables named to \<open>sudo\<close> are exactly the ones forwarded: the flag's list splits back into their names, at its
  commas.\<close>

theorem preserve_env_names:
  assumes "preserve_env_flag env = Inr flag" and "env \<noteq> []"
  shows "\<exists>list. flag = ascii ''--preserve-env='' @ list \<and> split_on (\<lambda>b. b = 0x2C) list = map fst env"
proof -
  let ?names = "map fst env"
  have v: "list_all (\<lambda>kv. valid_env_name (fst kv)) env" and f: "flag = ascii ''--preserve-env='' @ intercalate 0x2C ?names"
    using preserve_env_flag_Inr [OF assms(1)] by blast+
  have "0x2C \<notin> set n" if n: "n \<in> set ?names" for n
  proof
    assume c: "0x2C \<in> set n"
    from n v have "valid_env_name n" by (auto simp: list_all_iff)
    with c show False
      by (auto simp: valid_env_name_def list_all_iff is_ascii_alphanumeric_def is_ascii_alphabetic_def split: list.splits)
  qed
  then have "split_on (\<lambda>b. b = 0x2C) (intercalate 0x2C ?names) = ?names"
    using assms(2) by (intro split_on_intercalate) simp_all
  with f show ?thesis by blast
qed

theorem preserve_env_names_witness:
  "\<exists>list. ascii ''--preserve-env=A,B'' = ascii ''--preserve-env='' @ list \<and>
     split_on (\<lambda>b. b = 0x2C) list = [ascii ''A'', ascii ''B'']"
proof -
  have "preserve_env_flag [(ascii ''A'', []), (ascii ''B'', [])] = Inr (ascii ''--preserve-env=A,B'')" by code_simp
  from preserve_env_names [OF this] show ?thesis by simp
qed

lemma preserve_env_option:
  assumes "preserve_env_flag env = Inr flag" and "env \<noteq> []"
  shows "option_names flag = Some (map fst env)"
proof -
  obtain list where f: "flag = ascii ''--preserve-env='' @ list" "split_on (\<lambda>b. b = 0x2C) list = map fst env"
    using preserve_env_names [OF assms] by blast
  have "strip_prefix (ascii ''--preserve-env='') flag = Some list" unfolding f strip_prefix_def by simp
  then show ?thesis
    using preserve_env_flag_Inr(1) [OF assms(1)] by (simp add: option_names_def f(2) list_all_iff)
qed

lemma short_option_names: "option_names (ascii ''-n'') = None" "option_names (ascii ''-S'') = None" "option_names (ascii ''-A'') = None"
  by code_simp+

lemma option_names_long:
  "option_names w \<noteq> None \<Longrightarrow> w \<notin> set [ascii ''-n'', ascii ''-S'', ascii ''-A''] \<and> w \<noteq> ascii ''--disable-internal-agent''"
proof -
  have "option_names (ascii ''--disable-internal-agent'') = None" by code_simp
  then show "option_names w \<noteq> None \<Longrightarrow> ?thesis" using short_option_names by auto
qed

lemma sudo_front_options:
  assumes "front_options Sudo auth env = Some (Inr opts)"
  shows "sudo_options opts" "option_auth opts = asked_auth Sudo auth" "option_env opts = map fst env"
proof -
  obtain e where o: "opts = auth_flag auth @ e"
    and e: "e = [] \<and> env = [] \<or> (\<exists>flag. e = [flag] \<and> env \<noteq> [] \<and> preserve_env_flag env = Inr flag)"
    using assms by (auto simp: front_options_def split: if_splits sum.splits)
  have n: "e = [] \<and> env = [] \<or> (\<exists>flag. e = [flag] \<and> option_names flag = Some (map fst env) \<and>
      flag \<notin> set [ascii ''-n'', ascii ''-S'', ascii ''-A''] \<and> flag \<noteq> ascii ''--disable-internal-agent'')"
    using e preserve_env_option option_names_long by fastforce
  show "sudo_options opts"
    using n short_option_names by (cases auth) (auto simp: o auth_flag_def sudo_options_def)
  show "option_auth opts = asked_auth Sudo auth"
    using n by (cases auth) (auto simp: o auth_flag_def option_auth_def asked_auth_def of_char_def)
  show "option_env opts = map fst env"
    using n short_option_names by (cases auth) (auto simp: o auth_flag_def option_env_def)
qed

lemma fixed_front_options:
  assumes "front_options b auth env = Some (Inr opts)"
  shows "b = Doas \<Longrightarrow> doas_options opts \<and> option_auth opts = asked_auth Doas auth"
    and "b = Pkexec \<Longrightarrow> pkexec_options opts \<and> option_auth opts = asked_auth Pkexec auth \<and> ascii ''--keep-cwd'' \<in> set opts"
proof -
  assume "b = Doas"
  with assms have "opts = (if auth = NonInteractive then [ascii ''-n''] else [])" by (simp add: front_options_def split: if_splits)
  then show "doas_options opts \<and> option_auth opts = asked_auth Doas auth"
    by (simp add: doas_options_def option_auth_def asked_auth_def of_char_def)
next
  assume "b = Pkexec"
  with assms have "opts = [ascii ''--disable-internal-agent'', ascii ''--keep-cwd'']" by (simp add: front_options_def)
  moreover have "pkexec_options [ascii ''--disable-internal-agent'', ascii ''--keep-cwd'']"
    "option_auth [ascii ''--disable-internal-agent'', ascii ''--keep-cwd''] = AsksAgent" by code_simp+
  ultimately show "pkexec_options opts \<and> option_auth opts = asked_auth Pkexec auth \<and> ascii ''--keep-cwd'' \<in> set opts"
    by (simp add: asked_auth_def)
qed

lemma fronts_documentedD:
  assumes "fronts_documented reads"
  shows "sudo_options opts \<Longrightarrow> reads Sudo (opts @ ascii ''--'' # program # args) =
      Some \<lparr>fr_auth = option_auth opts, fr_env = option_env opts, fr_keeps_cwd = True, fr_argv = program # args\<rparr>"
    and "doas_options opts \<Longrightarrow> reads Doas (opts @ ascii ''--'' # program # args) =
      Some \<lparr>fr_auth = option_auth opts, fr_env = [], fr_keeps_cwd = True, fr_argv = program # args\<rparr>"
    and "pkexec_options opts \<Longrightarrow> \<not> program_starts_with_dash program \<Longrightarrow> reads Pkexec (opts @ program # args) =
      Some \<lparr>fr_auth = option_auth opts, fr_env = [], fr_keeps_cwd = (ascii ''--keep-cwd'' \<in> set opts), fr_argv = program # args\<rparr>"
  using assms unfolding fronts_documented_def by simp_all

text \<open>What a front makes of a command line the library built for it.\<close>

abbreviation asked_run :: "Backend \<Rightarrow> Auth \<Rightarrow> (bytes \<times> bytes) list \<Rightarrow> bytes list \<Rightarrow> FrontRun" where
  "asked_run b auth env argv \<equiv>
     \<lparr>fr_auth = asked_auth b auth, fr_env = (if b = Sudo then map fst env else []), fr_keeps_cwd = True, fr_argv = argv\<rparr>"

lemma build_argv_read:
  assumes f: "fronts_documented reads" and "build_argv b p auth program args env = Some (Inr argv)"
    and p: "b = Pkexec \<Longrightarrow> \<not> program_starts_with_dash program"
  shows "\<exists>ws. argv = p # ws \<and> reads b ws = Some (asked_run b auth env (program # args))"
proof -
  obtain opts where o: "front_options b auth env = Some (Inr opts)"
    and a: "argv = p # opts @ (if b \<noteq> Pkexec then [ascii ''--''] else []) @ program # args"
    using assms(2) by (auto simp: build_argv_def split: option.splits sum.splits)
  have "reads b (opts @ (if b \<noteq> Pkexec then [ascii ''--''] else []) @ program # args) = Some (asked_run b auth env (program # args))"
  proof (cases b)
    case Auto
    with o show ?thesis by (simp add: front_options_def)
  next
    case Sudo
    with o have "front_options Sudo auth env = Some (Inr opts)" by simp
    from sudo_front_options [OF this] show ?thesis using fronts_documentedD(1) [OF f] by (simp add: Sudo)
  next
    case Doas
    from fixed_front_options(1) [OF o Doas] show ?thesis using fronts_documentedD(2) [OF f] by (simp add: Doas)
  next
    case Pkexec
    from fixed_front_options(2) [OF o Pkexec] show ?thesis using fronts_documentedD(3) [OF f] p by (simp add: Pkexec)
  qed
  with a show ?thesis by blast
qed

text \<open>The documented fronts exist.\<close>

lemma demo_fronts_documented: "fronts_documented demo_fronts"
proof -
  have t: "takeWhile P (xs @ y # ys) = xs" if "\<forall>x\<in>set xs. P x" "\<not> P y" for P :: "bytes \<Rightarrow> bool" and xs y ys
    using that by (simp add: takeWhile_append2)
  have s: "\<forall>w\<in>set opts. w \<noteq> ascii ''--''" if "sudo_options opts" for opts
  proof
    fix w assume w: "w \<in> set opts"
    let ?A = "\<lambda>w. w \<in> set [ascii ''-n'', ascii ''-S'', ascii ''-A'']" and ?E = "\<lambda>w. option_names w \<noteq> None"
    have l: "length (filter ?A opts) + length (filter ?E opts) = length opts" using that by (simp add: sudo_options_def Let_def)
    have "filter ?E (filter (\<lambda>w. \<not> ?A w) opts) = filter ?E opts"
      unfolding filter_filter using option_names_long by (intro filter_cong) auto
    moreover have "length (filter ?A opts) + length (filter (\<lambda>w. \<not> ?A w) opts) = length opts" by (rule sum_length_filter_compl)
    ultimately have "length (filter ?E (filter (\<lambda>w. \<not> ?A w) opts)) = length (filter (\<lambda>w. \<not> ?A w) opts)" using l by simp
    then have "?A w \<or> ?E w" using w length_filter_less [of w "filter (\<lambda>w. \<not> ?A w) opts" ?E] by auto
    moreover have "option_names (ascii ''--'') = None" "ascii ''--'' \<notin> set [ascii ''-n'', ascii ''-S'', ascii ''-A'']" by code_simp+
    ultimately show "w \<noteq> ascii ''--''" by auto
  qed
  have d: "\<forall>w\<in>set opts. w \<noteq> ascii ''--''" if "doas_options opts" for opts
    using that by (auto simp: doas_options_def of_char_def)
  have k: "\<forall>w\<in>set opts. program_starts_with_dash w" if "pkexec_options opts" for opts
    using that by (auto simp: pkexec_options_def list_all_iff program_starts_with_dash_def of_char_def)
  show ?thesis
    unfolding fronts_documented_def demo_fronts_def Let_def
    using t [OF s, of _ "ascii ''--''"] t [OF d, of _ "ascii ''--''"] t [OF k] by simp
qed

text \<open>Through any front that reads its command line as documented, the program that runs is the caller's, with the caller's
  arguments, authenticated as the caller asked, with the caller's forwarded variables named to \<open>sudo\<close>, and in the caller's
  directory: for every program name (for \<open>pkexec\<close>, one that does not start with a dash, which the gate refuses).\<close>

theorem front_runs_the_program:
  assumes "fronts_documented reads" and "build_argv b p auth program args env = Some (Inr argv)"
    and "b = Pkexec \<longrightarrow> \<not> program_starts_with_dash program"
  shows "argv \<noteq> [] \<and> hd argv = p \<and> reads b (tl argv) = Some (asked_run b auth env (program # args))"
  using build_argv_read [OF assms(1,2)] assms(3) by auto

theorem front_runs_the_program_witness:
  "demo_fronts Sudo [ascii ''-S'', ascii ''--'', ascii ''-x'', ascii ''--''] =
     Some (asked_run Sudo (Stdin [1]) [] [ascii ''-x'', ascii ''--''])"
proof -
  have b: "build_argv Sudo (ascii ''/s'') (Stdin [1]) (ascii ''-x'') [ascii ''--''] [] =
    Some (Inr [ascii ''/s'', ascii ''-S'', ascii ''--'', ascii ''-x'', ascii ''--''])" by code_simp
  from front_runs_the_program [OF demo_fronts_documented b] show ?thesis by simp
qed

section \<open>The shim reads its arguments through any front\<close>

lemma hex_digit_printable: "n < 16 \<Longrightarrow> 0x20 \<le> hex_digit n \<and> hex_digit n \<le> 0x7E"
proof -
  assume "n < 16"
  then have "unat n < 16" by (simp add: word_less_nat_alt)
  then have "unat n \<in> set [0..<16]" by simp
  moreover have "list_all (\<lambda>k. 0x20 \<le> hex_digit (word_of_nat k) \<and> hex_digit (word_of_nat k) \<le> 0x7E) [0..<16]" by code_simp
  ultimately have "0x20 \<le> hex_digit (word_of_nat (unat n)) \<and> hex_digit (word_of_nat (unat n)) \<le> 0x7E"
    unfolding list_all_iff by blast
  then show ?thesis by simp
qed

lemma to_hex_printable: "printable (to_hex w)"
proof -
  have "drop_bit 4 b < (16 :: u8)" "b AND 0xF < (16 :: u8)" for b :: u8
  proof -
    have "unat b < 256" using unsigned_less [of b] by simp
    then have "unat (drop_bit 4 b) < 16" by (simp add: drop_bit_eq_div unat_div)
    then show "drop_bit 4 b < 16" by (simp add: word_less_nat_alt)
    have "b AND mask 4 < 2 ^ 4" by (rule and_mask_less') simp
    then show "b AND 0xF < 16" by (simp add: mask_eq_decr_exp)
  qed
  then show ?thesis by (auto simp: printable_def to_hex_def list_all_iff dest: hex_digit_printable)
qed

lemma to_argv_for_hd [simp]: "hd (to_argv_for a exe hex) = exe" "to_argv_for a exe hex \<noteq> []"
  by (simp_all add: to_argv_for_def Let_def)

lemma to_argv_for_hex_printable: "list_all printable (tl (to_argv_for a exe True))"
proof -
  have "printable FLAG_HEX" "printable SEPARATOR" by code_simp+
  then show ?thesis by (simp add: to_argv_for_def Let_def to_hex_printable list_all_iff)
qed

text \<open>C32: whichever front starts it, if the front reads its command line as documented, the elevation shim reads back exactly
  the arguments cosca gave it, run from the executable cosca named, in cosca's directory and authenticated as the caller
  asked; and under \<open>pkexec\<close> every word of it after that executable is printable ASCII.\<close>

theorem shim_reads_through_front:
  assumes "fronts_documented reads" and "build_shim_argv b p auth exe shim env = Some (Inr argv)"
    and "valid_args present shim" and "is_absolute exe"
  shows "\<exists>ws. argv \<noteq> [] \<and> hd argv = p \<and> reads b (tl argv) = Some (asked_run b auth env (exe # ws)) \<and>
    parse_for (exe # ws) present = Inr (Some shim) \<and> (b = Pkexec \<longrightarrow> list_all printable ws)"
proof -
  define words where "words = (if b = Pkexec \<and> \<not> list_all printable (tl (to_argv_for shim exe False))
    then to_argv_for shim exe True else to_argv_for shim exe False)"
  have w: "words = exe # tl words" "\<exists>hex. words = to_argv_for shim exe hex"
    by (auto simp: words_def to_argv_for_fields)
  have "build_argv b p auth exe (tl words) env = Some (Inr argv)"
    using assms(2) w(1) by (simp add: build_shim_argv_def Let_def words_def split: option.splits if_splits)
  moreover have "\<not> program_starts_with_dash exe"
    using assms(4) by (cases exe) (auto simp: is_absolute_def program_starts_with_dash_def)
  ultimately have f: "\<exists>ws. argv = p # ws \<and> reads b ws = Some (asked_run b auth env (exe # tl words))"
    using build_argv_read [OF assms(1)] by blast
  have "parse_for words present = Inr (Some shim)" using parse_for_iff w(2) assms(3) by blast
  moreover have "b = Pkexec \<longrightarrow> list_all printable (tl words)"
    using to_argv_for_hex_printable by (auto simp: words_def)
  ultimately show ?thesis using f w(1) by auto
qed

theorem shim_reads_through_front_witness:
  "\<exists>argv ws. build_shim_argv Pkexec (ascii ''/p'') Gui (ascii ''/s'') \<lparr>sa_dir = ascii ''/d'', sa_cosca_pid = 7, sa_cosca_identity = None,
      sa_cosca_euid = 1, sa_search_path = None, sa_program = [0xFF], sa_args = []\<rparr> [] = Some (Inr argv) \<and>
     demo_fronts Pkexec (tl argv) = Some (asked_run Pkexec Gui [] (ascii ''/s'' # ws)) \<and> list_all printable ws"
  (is "\<exists>argv ws. ?b = _ \<and> _")
proof -
  have "case ?b of Some (Inr _) \<Rightarrow> True | _ \<Rightarrow> False" by code_simp
  then obtain argv where b: "?b = Some (Inr argv)" by (auto split: option.splits sum.splits)
  have v: "valid_args False \<lparr>sa_dir = ascii ''/d'', sa_cosca_pid = 7, sa_cosca_identity = None,
      sa_cosca_euid = 1, sa_search_path = None, sa_program = [0xFF], sa_args = []\<rparr>" by code_simp
  have a: "is_absolute (ascii ''/s'')" by code_simp
  from shim_reads_through_front [OF demo_fronts_documented b v a] b show ?thesis by blast
qed

end
