(* ===== verification/Quote_Posix.thy ===== *)
theory Quote_Posix
  imports Errors
begin

text \<open>
  \<^verbatim>\<open>src/src/quote/posix.rs\<close>: the POSIX word splitter and its inverse, over bytes.

  The splitter's loop over an index \<open>i\<close> into the slice \<open>s\<close> keeps the index (error positions
  report it) together with the suffix \<open>s[i..]\<close> still to be read; \<open>advance\<close> moves both.
  \<open>split_step\<close> is one iteration of the loop, with one definition per arm of its \<^verbatim>\<open>match state\<close>.
\<close>

section \<open>Data\<close>

datatype State = State_Whitespace | State_Word | State_SingleQuote | State_DoubleQuote

record lexer =
  lx_out :: "bytes list"
  lx_buf :: bytes
  lx_state :: State
  lx_has_token :: bool
  lx_quote_open :: nat
  lx_i :: nat
  lx_rest :: bytes

abbreviation SP :: u8 where "SP \<equiv> 0x20"
abbreviation TAB :: u8 where "TAB \<equiv> 0x09"
abbreviation LF :: u8 where "LF \<equiv> 0x0A"
abbreviation CR :: u8 where "CR \<equiv> 0x0D"
abbreviation SQ :: u8 where "SQ \<equiv> 0x27"
abbreviation DQ :: u8 where "DQ \<equiv> 0x22"
abbreviation BSL :: u8 where "BSL \<equiv> 0x5C"
abbreviation DOLLAR :: u8 where "DOLLAR \<equiv> 0x24"
abbreviation BTICK :: u8 where "BTICK \<equiv> 0x60"

section \<open>Splitting\<close>

definition is_ws :: "u8 \<Rightarrow> bool" where
  "is_ws c \<longleftrightarrow> c = SP \<or> c = TAB \<or> c = LF \<or> c = CR"

definition emit :: "lexer \<Rightarrow> lexer" where
  "emit lx = (if lx_has_token lx
     then lx\<lparr>lx_out := lx_out lx @ [lx_buf lx], lx_buf := [], lx_has_token := False\<rparr> else lx)"

text \<open>\<open>after\<close> is \<open>s[i + 1..]\<close>, the bytes after the backslash; the callers have checked that it
  is not empty.\<close>

definition line_continuation :: "bytes \<Rightarrow> nat option" where
  "line_continuation after = (case after of
      [] \<Rightarrow> None
    | n # tail \<Rightarrow>
        if n = LF then Some 2
        else if n = CR \<and> (case tail of [] \<Rightarrow> False | m # _ \<Rightarrow> m = LF) then Some 3
        else None)"

text \<open>Both backslash rules return the next index and the buffer.\<close>

definition backslash_unquoted :: "nat \<Rightarrow> bytes \<Rightarrow> bytes \<Rightarrow> QuoteError + nat \<times> bytes" where
  "backslash_unquoted i after buf = (case after of
      [] \<Rightarrow> Inl (QuoteError i TrailingBackslash)
    | n # _ \<Rightarrow> (case line_continuation after of
          Some consumed \<Rightarrow> Inr (i + consumed, buf)
        | None \<Rightarrow> Inr (i + 2, buf @ [n])))"

definition backslash_in_dquote :: "nat \<Rightarrow> bytes \<Rightarrow> bytes \<Rightarrow> QuoteError + nat \<times> bytes" where
  "backslash_in_dquote i after buf = (case after of
      [] \<Rightarrow> Inl (QuoteError i TrailingBackslash)
    | n # _ \<Rightarrow> (case line_continuation after of
          Some consumed \<Rightarrow> Inr (i + consumed, buf)
        | None \<Rightarrow>
            if n = DOLLAR \<or> n = BTICK \<or> n = DQ \<or> n = BSL then Inr (i + 2, buf @ [n])
            else Inr (i + 1, buf @ [BSL])))"

definition advance :: "nat \<Rightarrow> lexer \<Rightarrow> lexer" where
  "advance j lx = lx\<lparr>lx_i := j, lx_rest := drop (j - lx_i lx) (lx_rest lx)\<rparr>"

abbreviation bump :: "lexer \<Rightarrow> lexer" where
  "bump lx \<equiv> advance (Suc (lx_i lx)) lx"

definition open_quote :: "State \<Rightarrow> lexer \<Rightarrow> lexer" where
  "open_quote q lx = bump (lx\<lparr>lx_state := q, lx_quote_open := lx_i lx\<rparr>)"

definition step_whitespace :: "u8 \<Rightarrow> bytes \<Rightarrow> lexer \<Rightarrow> QuoteError + lexer" where
  "step_whitespace c after lx =
     (if is_ws c then Inr (bump lx)
      else if c = SQ then Inr (open_quote State_SingleQuote (lx\<lparr>lx_has_token := True\<rparr>))
      else if c = DQ then Inr (open_quote State_DoubleQuote (lx\<lparr>lx_has_token := True\<rparr>))
      else if c = BSL then
        (case after of
           [] \<Rightarrow> Inl (QuoteError (lx_i lx) TrailingBackslash)
         | n # _ \<Rightarrow> (case line_continuation after of
             Some consumed \<Rightarrow> Inr (advance (lx_i lx + consumed) lx)
           | None \<Rightarrow> Inr (advance (lx_i lx + 2)
               (lx\<lparr>lx_buf := lx_buf lx @ [n], lx_has_token := True, lx_state := State_Word\<rparr>))))
      else Inr (bump (lx\<lparr>lx_buf := lx_buf lx @ [c], lx_has_token := True, lx_state := State_Word\<rparr>)))"

definition step_word :: "u8 \<Rightarrow> bytes \<Rightarrow> lexer \<Rightarrow> QuoteError + lexer" where
  "step_word c after lx =
     (if is_ws c then Inr (bump ((emit lx)\<lparr>lx_state := State_Whitespace\<rparr>))
      else if c = SQ then Inr (open_quote State_SingleQuote lx)
      else if c = DQ then Inr (open_quote State_DoubleQuote lx)
      else if c = BSL then
        (case backslash_unquoted (lx_i lx) after (lx_buf lx) of
           Inl e \<Rightarrow> Inl e
         | Inr (j, buf) \<Rightarrow> Inr (advance j (lx\<lparr>lx_buf := buf\<rparr>)))
      else Inr (bump (lx\<lparr>lx_buf := lx_buf lx @ [c]\<rparr>)))"

definition step_single_quote :: "u8 \<Rightarrow> lexer \<Rightarrow> lexer" where
  "step_single_quote c lx =
     bump (if c = SQ then lx\<lparr>lx_state := State_Word\<rparr> else lx\<lparr>lx_buf := lx_buf lx @ [c]\<rparr>)"

definition step_double_quote :: "u8 \<Rightarrow> bytes \<Rightarrow> lexer \<Rightarrow> QuoteError + lexer" where
  "step_double_quote c after lx =
     (if c = DQ then Inr (bump (lx\<lparr>lx_state := State_Word\<rparr>))
      else if c = BSL then
        (case backslash_in_dquote (lx_i lx) after (lx_buf lx) of
           Inl e \<Rightarrow> Inl e
         | Inr (j, buf) \<Rightarrow> Inr (advance j (lx\<lparr>lx_buf := buf\<rparr>)))
      else Inr (bump (lx\<lparr>lx_buf := lx_buf lx @ [c]\<rparr>)))"

definition split_step :: "u8 \<Rightarrow> bytes \<Rightarrow> lexer \<Rightarrow> QuoteError + lexer" where
  "split_step c after lx = (case lx_state lx of
      State_Whitespace \<Rightarrow> step_whitespace c after lx
    | State_Word \<Rightarrow> step_word c after lx
    | State_SingleQuote \<Rightarrow> Inr (step_single_quote c lx)
    | State_DoubleQuote \<Rightarrow> step_double_quote c after lx)"

text \<open>Every iteration moves the index forward, so the loop ends.\<close>

lemmas step_defs = split_step_def step_whitespace_def step_word_def step_single_quote_def
  step_double_quote_def open_quote_def advance_def emit_def
  backslash_unquoted_def backslash_in_dquote_def

lemma line_continuation_pos: "line_continuation after = Some n \<Longrightarrow> 2 \<le> n"
  by (auto simp: line_continuation_def split: list.splits if_splits)

lemma split_step_progress:
  assumes "split_step c after lx = Inr lx'" and "lx_rest lx = c # after"
  shows "length (lx_rest lx') < length (lx_rest lx)"
  using assms
  by (auto simp: step_defs split: State.splits if_splits list.splits option.splits
      dest: line_continuation_pos)

function split_loop :: "lexer \<Rightarrow> QuoteError + lexer" where
  "split_loop lx = (case lx_rest lx of
      [] \<Rightarrow> Inr lx
    | c # after \<Rightarrow> (case split_step c after lx of
          Inl e \<Rightarrow> Inl e
        | Inr lx' \<Rightarrow> split_loop lx'))"
  by pat_completeness auto
termination
  by (relation "measure (\<lambda>lx. length (lx_rest lx))")
    (simp, metis in_measure split_step_progress)

declare split_loop.simps [simp del]

definition init_lexer :: "bytes \<Rightarrow> lexer" where
  "init_lexer s = \<lparr>lx_out = [], lx_buf = [], lx_state = State_Whitespace, lx_has_token = False,
     lx_quote_open = 0, lx_i = 0, lx_rest = s\<rparr>"

definition finish :: "lexer \<Rightarrow> QuoteError + bytes list" where
  "finish lx = (case lx_state lx of
      State_SingleQuote \<Rightarrow> Inl (QuoteError (lx_quote_open lx) UnterminatedSingleQuote)
    | State_DoubleQuote \<Rightarrow> Inl (QuoteError (lx_quote_open lx) UnterminatedDoubleQuote)
    | _ \<Rightarrow> Inr (lx_out (emit lx)))"

definition split :: "bytes \<Rightarrow> QuoteError + bytes list" where
  "split s = (case split_loop (init_lexer s) of Inl e \<Rightarrow> Inl e | Inr lx \<Rightarrow> finish lx)"

section \<open>Quoting\<close>

definition SAFE :: "u8 \<Rightarrow> bool" where
  "SAFE b \<longleftrightarrow> (0x61 \<le> b \<and> b \<le> 0x7A) \<or> (0x41 \<le> b \<and> b \<le> 0x5A) \<or> (0x30 \<le> b \<and> b \<le> 0x39)
     \<or> b \<in> set (ascii ''_@%+=:,./-'')"

definition quote_byte :: "u8 \<Rightarrow> bytes" where
  "quote_byte b = (if b = SQ then [SQ, DQ, SQ, DQ, SQ] else [b])"

definition quote :: "bytes \<Rightarrow> bytes" where
  "quote s = (if s = [] then [SQ, SQ]
     else if list_all SAFE s then s
     else [SQ] @ concat (map quote_byte s) @ [SQ])"

primrec join_loop :: "nat \<Rightarrow> bytes list \<Rightarrow> bytes \<Rightarrow> bytes" where
  "join_loop idx [] out = out"
| "join_loop idx (a # args) out =
     join_loop (Suc idx) args ((if 0 < idx then out @ [SP] else out) @ quote a)"

definition join :: "bytes list \<Rightarrow> bytes" where
  "join args = join_loop 0 args []"

section \<open>Shape of the lexer's states\<close>

text \<open>Outside a word the buffer is empty and no token is pending; inside one a token is.\<close>

definition lexer_ok :: "lexer \<Rightarrow> bool" where
  "lexer_ok lx \<longleftrightarrow>
     (if lx_state lx = State_Whitespace then \<not> lx_has_token lx \<and> lx_buf lx = [] else lx_has_token lx)"

lemma lexer_ok_init [simp]: "lexer_ok (init_lexer s)"
  by (simp add: lexer_ok_def init_lexer_def)

lemma split_step_ok: "split_step c after lx = Inr lx' \<Longrightarrow> lexer_ok lx \<Longrightarrow> lexer_ok lx'"
  by (auto simp: step_defs lexer_ok_def split: State.splits if_splits list.splits option.splits)

lemma split_loop_Nil: "lx_rest lx = [] \<Longrightarrow> split_loop lx = Inr lx"
  by (subst split_loop.simps) simp

lemma split_loop_Cons:
  "lx_rest lx = c # after \<Longrightarrow>
   split_loop lx = (case split_step c after lx of Inl e \<Rightarrow> Inl e | Inr lx' \<Rightarrow> split_loop lx')"
  by (subst split_loop.simps) simp

lemma split_loop_ok: "split_loop lx = Inr lx' \<Longrightarrow> lexer_ok lx \<Longrightarrow> lexer_ok lx' \<and> lx_rest lx' = []"
proof (induction lx rule: split_loop.induct)
  case (1 lx)
  show ?case
  proof (cases "lx_rest lx")
    case Nil
    with "1.prems" show ?thesis by (simp add: split_loop_Nil)
  next
    case (Cons c after)
    with "1.prems" obtain lx1 where step: "split_step c after lx = Inr lx1"
      and loop: "split_loop lx1 = Inr lx'"
      by (auto simp: split_loop_Cons split: sum.splits)
    from split_step_ok [OF step "1.prems"(2)] show ?thesis
      by (rule "1.IH" [OF Cons step loop])
  qed
qed

definition lex_result :: "lexer \<Rightarrow> QuoteError + bytes list" where
  "lex_result lx = (case split_loop lx of Inl e \<Rightarrow> Inl e | Inr lx' \<Rightarrow> finish lx')"

lemma split_lex_result: "split s = lex_result (init_lexer s)"
  by (simp add: split_def lex_result_def)

section \<open>Moving a run: a prefix of words and an offset of positions\<close>

text \<open>\<open>moved k p lx ly\<close>: the run \<open>ly\<close> is \<open>lx\<close> with the words \<open>p\<close> already emitted and every
  position \<open>k\<close> further on.\<close>

definition moved :: "nat \<Rightarrow> bytes list \<Rightarrow> lexer \<Rightarrow> lexer \<Rightarrow> bool" where
  "moved k p lx ly \<longleftrightarrow> lx_out ly = p @ lx_out lx \<and> lx_buf ly = lx_buf lx \<and> lx_state ly = lx_state lx
     \<and> lx_has_token ly = lx_has_token lx \<and> lx_i ly = lx_i lx + k \<and> lx_rest ly = lx_rest lx
     \<and> (lx_state lx \<in> {State_SingleQuote, State_DoubleQuote} \<longrightarrow> lx_quote_open ly = lx_quote_open lx + k)"

definition shift_error :: "nat \<Rightarrow> QuoteError \<Rightarrow> QuoteError" where
  "shift_error k e = QuoteError (qe_pos e + k) (qe_kind e)"

lemma split_step_moved:
  assumes "moved k p lx ly"
  shows "rel_sum (\<lambda>e f. f = shift_error k e) (moved k p) (split_step c after lx) (split_step c after ly)"
  using assms
  by (cases "lx_state lx")
    (auto simp: step_defs moved_def shift_error_def rel_sum_simps
       split: if_splits list.splits option.splits)

lemma finish_moved:
  "moved k p lx ly \<Longrightarrow> finish ly = map_sum (shift_error k) ((@) p) (finish lx)"
  by (auto simp: moved_def finish_def emit_def shift_error_def split: State.splits)

lemma lex_result_moved:
  "moved k p lx ly \<Longrightarrow> lex_result ly = map_sum (shift_error k) ((@) p) (lex_result lx)"
proof (induction lx arbitrary: ly rule: split_loop.induct)
  case (1 lx)
  have rest: "lx_rest ly = lx_rest lx"
    using "1.prems" by (simp add: moved_def)
  show ?case
  proof (cases "lx_rest lx")
    case Nil
    with rest show ?thesis
      using finish_moved [OF "1.prems"] by (simp add: lex_result_def split_loop_Nil)
  next
    case (Cons c after)
    have step: "rel_sum (\<lambda>e f. f = shift_error k e) (moved k p) (split_step c after lx) (split_step c after ly)"
      by (rule split_step_moved [OF "1.prems"])
    show ?thesis
    proof (cases "split_step c after lx")
      case (Inl e)
      with step Cons rest show ?thesis
        by (auto simp: lex_result_def split_loop_Cons rel_sum.simps)
    next
      case (Inr lx')
      with step obtain ly' where ly': "split_step c after ly = Inr ly'" "moved k p lx' ly'"
        by (auto simp: rel_sum.simps)
      with "1.IH" [OF Cons Inr ly'(2)] Cons rest Inr show ?thesis
        by (simp add: lex_result_def split_loop_Cons)
    qed
  qed
qed

section \<open>Splitting across a space\<close>

lemma line_continuation_extend:
  "line_continuation (n # after @ SP # t) = line_continuation (n # after)"
  by (cases after) (auto simp: line_continuation_def split: list.splits)

lemma line_continuation_le: "line_continuation after = Some n \<Longrightarrow> n \<le> Suc (length after)"
  by (auto simp: line_continuation_def split: list.splits if_splits)

definition extend :: "bytes \<Rightarrow> lexer \<Rightarrow> lexer" where
  "extend t lx = lx\<lparr>lx_rest := lx_rest lx @ t\<rparr>"

lemma extend_simps [simp]:
  "lx_rest (extend t lx) = lx_rest lx @ t" "lx_i (extend t lx) = lx_i lx"
  "lx_state (extend t lx) = lx_state lx" "lx_buf (extend t lx) = lx_buf lx"
  "lx_has_token (extend t lx) = lx_has_token lx" "lx_out (extend t lx) = lx_out lx"
  by (simp_all add: extend_def)

lemma emit_simps [simp]: "lx_rest (emit lx) = lx_rest lx" "lx_i (emit lx) = lx_i lx"
  by (simp_all add: emit_def)

lemma extend_updates:
  "(extend t lx)\<lparr>lx_state := st\<rparr> = extend t (lx\<lparr>lx_state := st\<rparr>)"
  "(extend t lx)\<lparr>lx_buf := buf\<rparr> = extend t (lx\<lparr>lx_buf := buf\<rparr>)"
  "(extend t lx)\<lparr>lx_has_token := h\<rparr> = extend t (lx\<lparr>lx_has_token := h\<rparr>)"
  "(extend t lx)\<lparr>lx_quote_open := q\<rparr> = extend t (lx\<lparr>lx_quote_open := q\<rparr>)"
  "emit (extend t lx) = extend t (emit lx)"
  by (simp_all add: extend_def emit_def)

lemma advance_extend:
  "j - lx_i lx \<le> length (lx_rest lx) \<Longrightarrow> advance j (extend t lx) = extend t (advance j lx)"
  by (simp add: advance_def extend_def)

lemma advance_continuation_extend:
  assumes "line_continuation after = Some a" and "lx_rest lx = c # after"
  shows "advance (lx_i lx + a) (extend t lx) = extend t (advance (lx_i lx + a) lx)"
  using assms line_continuation_le [OF assms(1)] by (simp add: advance_extend)

lemma open_quote_extend:
  "lx_rest lx = c # after \<Longrightarrow> open_quote q (extend t lx) = extend t (open_quote q lx)"
  by (simp add: open_quote_def extend_updates advance_extend)

lemmas extend_rules = extend_updates advance_extend advance_continuation_extend open_quote_extend line_continuation_extend

lemma step_whitespace_extend:
  assumes "step_whitespace c after lx = Inr lx'" and "lx_rest lx = c # after"
  shows "step_whitespace c (after @ SP # t) (extend (SP # t) lx) = Inr (extend (SP # t) lx')"
  using assms
  by (cases after)
    (auto simp: step_whitespace_def extend_rules split: if_splits option.splits)

lemma step_word_extend:
  assumes "step_word c after lx = Inr lx'" and "lx_rest lx = c # after"
  shows "step_word c (after @ SP # t) (extend (SP # t) lx) = Inr (extend (SP # t) lx')"
proof (cases "c = BSL \<and> \<not> is_ws c")
  case True
  with assms obtain n r where "after = n # r"
    by (cases after) (auto simp: step_word_def backslash_unquoted_def)
  with assms True show ?thesis
    by (cases "line_continuation (n # r)")
      (auto simp: step_word_def backslash_unquoted_def extend_rules)
next
  case False
  with assms show ?thesis
    by (auto simp: step_word_def extend_rules)
qed

lemma step_double_quote_extend:
  assumes "step_double_quote c after lx = Inr lx'" and "lx_rest lx = c # after"
  shows "step_double_quote c (after @ SP # t) (extend (SP # t) lx) = Inr (extend (SP # t) lx')"
proof (cases "c = BSL")
  case True
  with assms obtain n r where "after = n # r"
    by (cases after) (auto simp: step_double_quote_def backslash_in_dquote_def)
  with assms True show ?thesis
    by (cases "line_continuation (n # r)")
      (auto simp: step_double_quote_def backslash_in_dquote_def extend_rules)
next
  case False
  with assms show ?thesis
    by (auto simp: step_double_quote_def extend_rules)
qed

lemma step_single_quote_extend:
  "lx_rest lx = c # after \<Longrightarrow> step_single_quote c (extend t lx) = extend t (step_single_quote c lx)"
  by (simp add: step_single_quote_def extend_rules)

lemma split_step_extend:
  assumes "split_step c after lx = Inr lx'" and "lx_rest lx = c # after"
  shows "split_step c (after @ SP # t) (extend (SP # t) lx) = Inr (extend (SP # t) lx')"
  using assms
  by (auto simp: split_step_def step_whitespace_extend step_word_extend step_double_quote_extend
      step_single_quote_extend split: State.splits)

lemma split_loop_extend:
  "split_loop lx = Inr lx' \<Longrightarrow> split_loop (extend (SP # t) lx) = split_loop (lx'\<lparr>lx_rest := SP # t\<rparr>)"
proof (induction lx rule: split_loop.induct)
  case (1 lx)
  show ?case
  proof (cases "lx_rest lx")
    case Nil
    with "1.prems" show ?thesis by (simp add: split_loop_Nil extend_def)
  next
    case (Cons c after)
    with "1.prems" obtain lx1 where step: "split_step c after lx = Inr lx1"
      and loop: "split_loop lx1 = Inr lx'"
      by (auto simp: split_loop_Cons split: sum.splits)
    from split_step_extend [OF step Cons] Cons
    have "split_loop (extend (SP # t) lx) = split_loop (extend (SP # t) lx1)"
      by (simp add: split_loop_Cons)
    with "1.IH" [OF Cons step loop] show ?thesis by simp
  qed
qed

lemma split_loop_index:
  "split_loop lx = Inr lx' \<Longrightarrow> lx_i lx' = lx_i lx + length (lx_rest lx)"
proof (induction lx rule: split_loop.induct)
  case (1 lx)
  show ?case
  proof (cases "lx_rest lx")
    case Nil
    with "1.prems" show ?thesis by (simp add: split_loop_Nil)
  next
    case (Cons c after)
    with "1.prems" obtain lx1 where step: "split_step c after lx = Inr lx1"
      and loop: "split_loop lx1 = Inr lx'"
      by (auto simp: split_loop_Cons split: sum.splits)
    have "lx_i lx1 + length (lx_rest lx1) = lx_i lx + length (lx_rest lx)"
      using step Cons
      by (auto simp: step_defs split: State.splits if_splits list.splits option.splits
          dest: line_continuation_le)
    with "1.IH" [OF Cons step loop] show ?thesis by simp
  qed
qed

lemma split_space:
  assumes "split s = Inr ws"
  shows "split (s @ SP # t) = map_sum (shift_error (Suc (length s))) ((@) ws) (split t)"
proof -
  from assms obtain lx where loop: "split_loop (init_lexer s) = Inr lx" and fin: "finish lx = Inr ws"
    by (auto simp: split_def split: sum.splits)
  from split_loop_ok [OF loop] have ok: "lexer_ok lx" and rest: "lx_rest lx = []" by simp_all
  from split_loop_index [OF loop] have i: "lx_i lx = length s" by (simp add: init_lexer_def)
  let ?ly = "lx\<lparr>lx_rest := SP # t\<rparr>"
  obtain lz where lz: "split_step SP t ?ly = Inr lz" and mv: "moved (Suc (length s)) ws (init_lexer t) lz"
  proof (cases "lx_state lx")
    case State_Whitespace
    with fin ok i that show ?thesis
      by (auto simp: step_defs is_ws_def moved_def finish_def init_lexer_def lexer_ok_def)
  next
    case State_Word
    with fin ok i that show ?thesis
      by (auto simp: step_defs is_ws_def moved_def finish_def init_lexer_def lexer_ok_def)
  qed (use fin in \<open>auto simp: finish_def\<close>)
  have "split_loop (init_lexer (s @ SP # t)) = split_loop ?ly"
    using split_loop_extend [OF loop] by (simp add: init_lexer_def extend_def)
  with lz have "split (s @ SP # t) = lex_result lz"
    by (simp add: split_lex_result lex_result_def split_loop_Cons)
  with lex_result_moved [OF mv] show ?thesis
    by (simp add: split_lex_result)
qed

section \<open>Quoting is the inverse of splitting\<close>

lemma SAFE_plain: "SAFE b \<Longrightarrow> \<not> is_ws b \<and> b \<noteq> SQ \<and> b \<noteq> DQ \<and> b \<noteq> BSL"
  by (auto simp: SAFE_def is_ws_def)

definition word_lexer :: "bytes \<Rightarrow> bytes list \<Rightarrow> lexer \<Rightarrow> bool" where
  "word_lexer buf out lx \<longleftrightarrow>
     lx_state lx = State_Word \<and> lx_has_token lx \<and> lx_buf lx = buf \<and> lx_out lx = out"

lemma word_lexer_result:
  "word_lexer buf out lx \<Longrightarrow> lx_rest lx = [] \<Longrightarrow> lex_result lx = Inr (out @ [buf])"
  by (simp add: word_lexer_def lex_result_def split_loop_Nil finish_def emit_def)

lemma split_loop_step:
  "lx_rest lx = c # after \<Longrightarrow> split_step c after lx = Inr lx' \<Longrightarrow> lex_result lx = lex_result lx'"
  by (simp add: lex_result_def split_loop_Cons)

lemma safe_run:
  "word_lexer buf out lx \<Longrightarrow> lx_rest lx = s \<Longrightarrow> list_all SAFE s \<Longrightarrow> lex_result lx = Inr (out @ [buf @ s])"
proof (induction s arbitrary: lx buf)
  case Nil
  then show ?case by (simp add: word_lexer_result)
next
  case (Cons c s)
  let ?lx = "bump (lx\<lparr>lx_buf := lx_buf lx @ [c]\<rparr>)"
  have "lex_result lx = lex_result ?lx"
    using Cons.prems SAFE_plain [of c]
    by (intro split_loop_step) (auto simp: split_step_def step_word_def word_lexer_def)
  also have "\<dots> = Inr (out @ [(buf @ [c]) @ s])"
    using Cons.prems by (intro Cons.IH) (auto simp: word_lexer_def advance_def)
  finally show ?case by simp
qed

lemma quoted_byte_run:
  assumes "lx_state lx = State_SingleQuote" and "lx_has_token lx" and "lx_rest lx = quote_byte b @ r"
  shows "\<exists>lx'. lex_result lx = lex_result lx' \<and> lx_state lx' = State_SingleQuote \<and> lx_has_token lx'
    \<and> lx_rest lx' = r \<and> lx_buf lx' = lx_buf lx @ [b] \<and> lx_out lx' = lx_out lx"
proof (cases "b = SQ")
  case True
  let ?lx = "lx\<lparr>lx_buf := lx_buf lx @ [SQ], lx_state := State_SingleQuote, lx_quote_open := Suc (Suc (Suc (Suc (lx_i lx)))),
      lx_i := Suc (Suc (Suc (Suc (Suc (lx_i lx))))), lx_rest := r\<rparr>"
  have "lex_result lx = lex_result ?lx"
    using assms True
    by (simp add: quote_byte_def lex_result_def split_loop_Cons step_defs is_ws_def)
  with assms True show ?thesis by (intro exI [of _ ?lx]) simp
next
  case False
  with assms show ?thesis
    by (intro exI [of _ "step_single_quote b lx"])
      (simp add: quote_byte_def lex_result_def split_loop_Cons step_defs)
qed

lemma quoted_run:
  assumes "lx_state lx = State_SingleQuote" and "lx_has_token lx"
    and "lx_rest lx = concat (map quote_byte s) @ [SQ]"
  shows "lex_result lx = Inr (lx_out lx @ [lx_buf lx @ s])"
  using assms
proof (induction s arbitrary: lx)
  case Nil
  then show ?case
    by (simp add: lex_result_def split_loop_Cons split_loop_Nil step_defs finish_def)
next
  case (Cons b s)
  from quoted_byte_run [OF Cons.prems(1,2), of b "concat (map quote_byte s) @ [SQ]"] Cons.prems(3)
  obtain lx' where "lex_result lx = lex_result lx'" "lx_state lx' = State_SingleQuote" "lx_has_token lx'"
    "lx_rest lx' = concat (map quote_byte s) @ [SQ]" "lx_buf lx' = lx_buf lx @ [b]" "lx_out lx' = lx_out lx"
    by auto
  with Cons.IH [of lx'] show ?case by simp
qed

lemma split_quote: "split (quote s) = Inr [s]"
proof (cases "s = []")
  case True
  then show ?thesis by (simp add: quote_def) code_simp
next
  case False
  then obtain c r where s: "s = c # r" by (cases s) auto
  show ?thesis
  proof (cases "list_all SAFE s")
    case True
    with s have c: "\<not> is_ws c \<and> c \<noteq> SQ \<and> c \<noteq> DQ \<and> c \<noteq> BSL" and r: "list_all SAFE r"
      using SAFE_plain [of c] by simp_all
    let ?lx = "bump ((init_lexer s)\<lparr>lx_buf := [c], lx_has_token := True, lx_state := State_Word\<rparr>)"
    have "lex_result (init_lexer s) = lex_result ?lx"
      using s c by (intro split_loop_step) (auto simp: init_lexer_def split_step_def step_whitespace_def)
    also have "\<dots> = Inr ([] @ [[c] @ r])"
      using s r by (intro safe_run) (auto simp: word_lexer_def init_lexer_def advance_def)
    finally show ?thesis
      using False True s by (simp add: quote_def split_lex_result)
  next
    case unsafe: False
    let ?q = "[SQ] @ concat (map quote_byte s) @ [SQ]"
    let ?lx = "open_quote State_SingleQuote ((init_lexer ?q)\<lparr>lx_has_token := True\<rparr>)"
    have "lex_result (init_lexer ?q) = lex_result ?lx"
      by (rule split_loop_step) (auto simp: init_lexer_def split_step_def step_whitespace_def is_ws_def)
    also have "\<dots> = Inr (lx_out ?lx @ [lx_buf ?lx @ s])"
      by (rule quoted_run) (auto simp: init_lexer_def open_quote_def advance_def)
    finally show ?thesis
      using False unsafe by (simp add: quote_def split_lex_result init_lexer_def open_quote_def advance_def)
  qed
qed

lemma join_loop_acc:
  "join_loop (Suc idx) args out = out @ concat (map (\<lambda>a. SP # quote a) args)"
  by (induction args arbitrary: idx out) simp_all

lemma join_Nil: "join [] = []"
  by (simp add: join_def)

lemma join_Cons: "join (a # args) = quote a @ concat (map (\<lambda>a. SP # quote a) args)"
  by (simp add: join_def join_loop_acc)

lemma join_Cons_Cons: "join (a # b # args) = quote a @ SP # join (b # args)"
  by (simp add: join_Cons)

lemma split_join_all: "split (join args) = Inr args"
proof (induction args rule: induct_list012)
  case 1
  then show ?case by (simp add: join_Nil) code_simp
next
  case (2 a)
  then show ?case by (simp add: join_Cons split_quote)
next
  case (3 a b args)
  then show ?case
    by (simp add: join_Cons_Cons split_space [OF split_quote])
qed

interpretation posix_argv: argv_quoting join split "\<lambda>_. True"
  by unfold_locales (rule split_join_all)

section \<open>Error positions\<close>

definition at_input :: "bytes \<Rightarrow> lexer \<Rightarrow> bool" where
  "at_input s lx \<longleftrightarrow> lx_i lx \<le> length s \<and> lx_rest lx = drop (lx_i lx) s
     \<and> (lx_state lx = State_SingleQuote \<longrightarrow> lx_quote_open lx < length s \<and> s ! lx_quote_open lx = SQ)
     \<and> (lx_state lx = State_DoubleQuote \<longrightarrow> lx_quote_open lx < length s \<and> s ! lx_quote_open lx = DQ)"

definition error_at :: "bytes \<Rightarrow> QuoteError \<Rightarrow> bool" where
  "error_at s e \<longleftrightarrow> qe_pos e < length s \<and> (case qe_kind e of
      UnterminatedSingleQuote \<Rightarrow> s ! qe_pos e = SQ
    | UnterminatedDoubleQuote \<Rightarrow> s ! qe_pos e = DQ
    | TrailingBackslash \<Rightarrow> s ! qe_pos e = BSL \<and> Suc (qe_pos e) = length s
    | _ \<Rightarrow> False)"

lemma drop_Cons_nth: "drop i s = c # after \<Longrightarrow> i < length s \<and> s ! i = c \<and> drop (Suc i) s = after"
  by (metis drop_eq_Nil2 hd_drop_conv_nth linorder_not_less list.distinct(1) list.sel(1,3) tl_drop drop_Suc)

lemma at_input_next:
  assumes "at_input s lx" and "lx_rest lx = c # after"
  shows "lx_i lx < length s" "s ! lx_i lx = c" "drop (Suc (lx_i lx)) s = after"
    "length s = Suc (lx_i lx + length after)"
  using assms drop_Cons_nth [of "lx_i lx" s c after]
  by (auto simp: at_input_def)

lemma split_step_at_input:
  assumes "at_input s lx" and "lx_rest lx = c # after" and "split_step c after lx = Inr lx'"
  shows "at_input s lx'"
  using at_input_next [OF assms(1,2)] assms
  by (auto simp: step_defs at_input_def add.commute split: State.splits if_splits list.splits option.splits
      dest: line_continuation_le)

lemma split_step_error_at:
  assumes "at_input s lx" and "lx_rest lx = c # after" and "split_step c after lx = Inl e"
  shows "error_at s e"
  using at_input_next [OF assms(1,2)] assms
  by (auto simp: step_defs error_at_def split: State.splits if_splits list.splits option.splits)

lemma split_loop_at_input:
  "at_input s lx \<Longrightarrow>
   (case split_loop lx of Inl e \<Rightarrow> error_at s e | Inr lx' \<Rightarrow> at_input s lx')"
proof (induction lx rule: split_loop.induct)
  case (1 lx)
  show ?case
  proof (cases "lx_rest lx")
    case Nil
    with "1.prems" show ?thesis by (simp add: split_loop_Nil)
  next
    case (Cons c after)
    show ?thesis
    proof (cases "split_step c after lx")
      case (Inl e)
      with Cons split_step_error_at [OF "1.prems" Cons Inl] show ?thesis
        by (simp add: split_loop_Cons)
    next
      case (Inr lx')
      from "1.IH" [OF Cons Inr split_step_at_input [OF "1.prems" Cons Inr]] Cons Inr show ?thesis
        by (simp add: split_loop_Cons)
    qed
  qed
qed

lemma split_error_at: "split s = Inl e \<Longrightarrow> error_at s e"
proof -
  assume err: "split s = Inl e"
  have start: "at_input s (init_lexer s)" by (simp add: at_input_def init_lexer_def)
  from split_loop_at_input [OF start] err show ?thesis
    by (auto simp: split_def finish_def at_input_def error_at_def split: sum.splits State.splits)
qed

section \<open>Text without quotes or backslashes\<close>

lemma split_step_plain:
  assumes "lx_state lx \<in> {State_Whitespace, State_Word}" and "lexer_ok lx" and "lx_rest lx = c # s"
    and "c \<notin> {SQ, DQ, BSL}" and "lx_state lx = State_Word \<longrightarrow> lx_buf lx \<noteq> []"
  shows "\<exists>lx'. split_step c s lx = Inr lx' \<and> lx_rest lx' = s \<and> lx_state lx' \<in> {State_Whitespace, State_Word}
    \<and> lx_out lx' = (if is_ws c \<and> lx_state lx = State_Word then lx_out lx @ [lx_buf lx] else lx_out lx)
    \<and> lx_buf lx' = (if is_ws c then [] else lx_buf lx @ [c])
    \<and> (lx_state lx' = State_Word \<longrightarrow> lx_buf lx' \<noteq> [])"
  using assms by (cases "is_ws c") (auto simp: step_defs lexer_ok_def)

lemma plain_run:
  assumes "lx_state lx \<in> {State_Whitespace, State_Word}" and "lexer_ok lx" and "lx_rest lx = s"
    and "list_all (\<lambda>c. c \<notin> {SQ, DQ, BSL}) s" and "lx_state lx = State_Word \<longrightarrow> lx_buf lx \<noteq> []"
  shows "lex_result lx = Inr (lx_out lx @ filter (\<lambda>w. w \<noteq> [])
    ((lx_buf lx @ hd (split_on is_ws s)) # tl (split_on is_ws s)))"
  using assms
proof (induction s arbitrary: lx)
  case Nil
  then show ?case
    by (auto simp: lex_result_def split_loop_Nil finish_def emit_def lexer_ok_def)
next
  case (Cons c s)
  obtain lx' where step: "split_step c s lx = Inr lx'" and rest: "lx_rest lx' = s"
    and st: "lx_state lx' \<in> {State_Whitespace, State_Word}"
    and out: "lx_out lx' = (if is_ws c \<and> lx_state lx = State_Word then lx_out lx @ [lx_buf lx] else lx_out lx)"
    and buf: "lx_buf lx' = (if is_ws c then [] else lx_buf lx @ [c])"
    and ne: "lx_state lx' = State_Word \<longrightarrow> lx_buf lx' \<noteq> []"
    using split_step_plain [OF Cons.prems(1,2,3) _ Cons.prems(5)] Cons.prems(4) by auto
  have ok: "lexer_ok lx'" by (rule split_step_ok [OF step Cons.prems(2)])
  have "lex_result lx = lex_result lx'"
    by (rule split_loop_step [OF Cons.prems(3) step])
  also have "\<dots> = Inr (lx_out lx' @ filter (\<lambda>w. w \<noteq> [])
    ((lx_buf lx' @ hd (split_on is_ws s)) # tl (split_on is_ws s)))"
    using Cons.IH [OF st ok rest _ ne] Cons.prems(4) by simp
  finally show ?case
    using Cons.prems(1,2,5) by (cases "split_on is_ws s") (auto simp: out buf lexer_ok_def)
qed

lemma split_plain:
  "list_all (\<lambda>c. c \<notin> {SQ, DQ, BSL}) s \<Longrightarrow> split s = Inr (filter (\<lambda>w. w \<noteq> []) (split_on is_ws s))"
  using plain_run [of "init_lexer s" s]
  by (cases "split_on is_ws s") (auto simp: split_lex_result init_lexer_def lexer_ok_def)

section \<open>Properties\<close>

text \<open>C40: splitting a joined argument vector gives back exactly that vector, for every vector
  of byte strings: quotes, backslashes, whitespace, empty and non-ASCII arguments included.\<close>

theorem posix_split_join: "split (join args) = Inr args"
  by (rule posix_argv.split_join) simp

text \<open>A space between two command lines separates them. If the first splits, the whole splits
  into its words followed by the words of the second; and an error of the second keeps its kind, at
  its position shifted by the length of the first and the space.\<close>

theorem posix_split_space:
  assumes "split s = Inr ws"
  shows "split (s @ SP # t) = map_sum (shift_error (Suc (length s))) ((@) ws) (split t)"
  using assms by (rule split_space)

theorem posix_split_space_witness:
  "split (ascii ''a b'' @ SP # [SQ]) = Inl (QuoteError 4 UnterminatedSingleQuote)"
proof -
  have s: "split (ascii ''a b'') = Inr [ascii ''a'', ascii ''b'']" by code_simp
  have t: "split [SQ] = Inl (QuoteError 0 UnterminatedSingleQuote)" by code_simp
  from posix_split_space [OF s, of "[SQ]"] show ?thesis
    by (simp add: t shift_error_def)
qed

text \<open>Every error names the byte that caused it: the opening quote of an unterminated quote,
  or a backslash that is the last byte of the input.\<close>

theorem posix_split_error_position:
  assumes "split s = Inl e"
  shows "qe_pos e < length s \<and>
    (qe_kind e = UnterminatedSingleQuote \<and> s ! qe_pos e = SQ
     \<or> qe_kind e = UnterminatedDoubleQuote \<and> s ! qe_pos e = DQ
     \<or> qe_kind e = TrailingBackslash \<and> s ! qe_pos e = BSL \<and> Suc (qe_pos e) = length s)"
  using split_error_at [OF assms] by (auto simp: error_at_def split: QuoteErrorKind.splits)

theorem posix_split_error_position_witness:
  "split (ascii ''ab'' @ [BSL]) = Inl (QuoteError 2 TrailingBackslash) \<and> (ascii ''ab'' @ [BSL]) ! 2 = BSL"
proof -
  have e: "split (ascii ''ab'' @ [BSL]) = Inl (QuoteError 2 TrailingBackslash)" by code_simp
  from posix_split_error_position [OF e] e show ?thesis by simp
qed

text \<open>Text with no quote and no backslash splits into its maximal runs of non-whitespace.\<close>

theorem posix_split_plain:
  assumes "list_all (\<lambda>c. c \<notin> {SQ, DQ, BSL}) s"
  shows "split s = Inr (filter (\<lambda>w. w \<noteq> []) (split_on is_ws s))"
  using assms by (rule split_plain)

theorem posix_split_plain_witness: "split (ascii '' a  bc'') = Inr [ascii ''a'', ascii ''bc'']"
proof -
  have "list_all (\<lambda>c. c \<notin> {SQ, DQ, BSL}) (ascii '' a  bc'')" by simp
  from posix_split_plain [OF this] show ?thesis by (simp add: is_ws_def)
qed

end
