(* ===== verification/Quote_AppleScript.thy ===== *)
theory Quote_AppleScript
  imports Errors Utf8
begin

text \<open>
  \<^verbatim>\<open>src/src/quote/applescript.rs\<close>: a byte string as the body of an AppleScript string literal. AppleScript's own reading
  of a literal is a parameter, \<open>lit\<close>, of which only what the module's documentation gives is known (\<open>literals_documented\<close>).
\<close>

section \<open>Escaping\<close>

text \<open>\<^verbatim>\<open>Utf8Error::valid_up_to\<close>: where the first broken character starts.\<close>

function valid_up_to :: "bytes \<Rightarrow> nat" where
  "valid_up_to s = (if s = [] then 0 else (case next_char s of (ok, n) \<Rightarrow>
     if ok then n + valid_up_to (drop n s) else 0))"
  by auto

termination
  by (relation "measure length") (auto, metis diff_less length_greater_0_conv next_char_pos snd_conv)

text \<open>What the loop writes for a character, and \<open>None\<close> for a NUL.\<close>

definition escape_char :: "bytes \<Rightarrow> bytes option" where
  "escape_char c =
     (if c = [0x5C] then Some [0x5C, 0x5C]
      else if c = [0x22] then Some [0x5C, 0x22]
      else if c = [0x0A] then Some [0x5C, 0x6E]
      else if c = [0x0D] then Some [0x5C, 0x72]
      else if c = [0x09] then Some [0x5C, 0x74]
      else if c = [0] then None
      else Some c)"

function escape_loop :: "nat \<Rightarrow> bytes \<Rightarrow> bytes \<Rightarrow> QuoteError + bytes" where
  "escape_loop pos s out = (if s = [] then Inr out else (let n = snd (next_char s) in
     (case escape_char (take n s) of
        None \<Rightarrow> Inl (QuoteError pos UnrepresentableChar)
      | Some w \<Rightarrow> escape_loop (pos + n) (drop n s) (out @ w))))"
  by auto

termination
  by (relation "measure (\<lambda>(_, s, _). length s)") (auto, metis diff_less length_greater_0_conv next_char_pos)

declare valid_up_to.simps [simp del] escape_loop.simps [simp del]

definition escape_literal :: "bytes \<Rightarrow> QuoteError + bytes" where
  "escape_literal s = (if utf8_valid s then escape_loop 0 s [] else Inl (QuoteError (valid_up_to s) NonUtf8))"

section \<open>What AppleScript documents\<close>

text \<open>A reader of literals takes what follows the opening quote, and gives what the literal denotes and what follows its closing
  quote. Documented are: a quote closes the literal, UTF-8 text denotes itself if it holds no quote, backslash, line ending or NUL,
  and the five escapes denote their characters. Nothing is known of any other body.\<close>

definition prepend :: "'a list \<Rightarrow> ('a list \<times> 'b) option \<Rightarrow> ('a list \<times> 'b) option" where
  "prepend w = map_option (\<lambda>(v, r). (w @ v, r))"

definition escapes :: "(u8 \<times> u8) list" where
  "escapes = [(0x5C, 0x5C), (0x22, 0x22), (0x6E, 0x0A), (0x72, 0x0D), (0x74, 0x09)]"

definition denotes_itself :: "bytes \<Rightarrow> bool" where
  "denotes_itself w \<longleftrightarrow> utf8_valid w \<and> list_all (\<lambda>b. b \<notin> {0, 0x0A, 0x0D, 0x22, 0x5C}) w"

definition literals_documented :: "(bytes \<Rightarrow> (bytes \<times> bytes) option) \<Rightarrow> bool" where
  "literals_documented lit \<longleftrightarrow>
     (\<forall>r. lit (0x22 # r) = Some ([], r)) \<and>
     (\<forall>w r. denotes_itself w \<longrightarrow> lit (w @ r) = prepend w (lit r)) \<and>
     (\<forall>e v r. (e, v) \<in> set escapes \<longrightarrow> lit (0x5C # e # r) = prepend [v] (lit r))"

text \<open>A reader that does so: the hypothesis can hold.\<close>

fun demo_literal :: "bytes \<Rightarrow> (bytes \<times> bytes) option" where
  "demo_literal [] = None"
| "demo_literal (b # r) =
     (if b = 0x22 then Some ([], r)
      else if b = 0x5C then (case r of
          [] \<Rightarrow> None
        | e # r' \<Rightarrow> (case map_of escapes e of None \<Rightarrow> None | Some v \<Rightarrow> prepend [v] (demo_literal r')))
      else if denotes_itself [b] \<or> 0x80 \<le> b then prepend [b] (demo_literal r)
      else None)"

lemma prepend_simps [simp]:
  "prepend [] x = x" "prepend v (prepend w x) = prepend (v @ w) x" "prepend w (Some (v, r)) = Some (w @ v, r)"
  by (cases x; simp add: prepend_def split_beta)+

lemma demo_literal_documented: "literals_documented demo_literal"
proof -
  have "demo_literal (w @ r) = prepend w (demo_literal r)" if "list_all (\<lambda>b. b \<notin> {0, 0x0A, 0x0D, 0x22, 0x5C}) w" for w r
    using that
  proof (induction w)
    case (Cons b w)
    then have "denotes_itself [b] \<or> 0x80 \<le> b" by (cases "b < 0x80") (simp_all add: denotes_itself_def not_less)
    with Cons show ?case by simp
  qed simp
  moreover have "(e, v) \<in> set escapes \<Longrightarrow> map_of escapes e = Some v" for e v
    by (auto simp: escapes_def)
  ultimately show ?thesis by (auto simp: literals_documented_def denotes_itself_def)
qed

text \<open>A character is one ASCII byte or has none.\<close>

lemma next_char_cases:
  assumes "next_char s = (True, n)" and "s \<noteq> []"
  obtains a r where "s = a # r" "a < 0x80" "n = 1" | "list_all (\<lambda>b. 0x80 \<le> b) (take n s)" "n \<noteq> 1"
proof (cases s)
  case (Cons a r)
  show ?thesis
  proof (cases "a < 0x80")
    case True
    with assms Cons that show ?thesis by (simp add: next_char_def)
  next
    case False
    have c: "cont b \<Longrightarrow> 0x80 \<le> b" "second3 a b \<Longrightarrow> 0x80 \<le> b" "second4 a b \<Longrightarrow> 0x80 \<le> b" for b
      by (auto simp: cont_def second3_def second4_def split: if_splits intro: order_trans [rotated])
    from False have "0x80 \<le> a" by simp
    with assms(1) False c have "list_all (\<lambda>b. 0x80 \<le> b) (take n s) \<and> n \<noteq> 1"
      by (simp add: Cons next_char_def split: if_splits list.splits)
    with that show ?thesis by blast
  qed
qed (use assms in simp)

lemma next_char_valid: "next_char s = (True, n) \<Longrightarrow> utf8_valid (take n s)"
  by (cases s) (auto simp: next_char_def utf8_valid_code(2) split: if_splits list.splits)

lemma escape_char_read:
  assumes l: "literals_documented lit" and "next_char s = (True, n)" and "s \<noteq> []" and "escape_char (take n s) = Some w"
  shows "lit (w @ r) = prepend (take n s) (lit r)"
proof -
  consider e v where "(e, v) \<in> set escapes" "w = [0x5C, e]" "take n s = [v]" | "w = take n s" "denotes_itself w"
    using assms(2,3)
  proof (cases rule: next_char_cases)
    case (1 a t)
    with assms(2,4) that next_char_valid [OF assms(2)] show ?thesis
      by (auto simp: escape_char_def escapes_def denotes_itself_def split: if_splits)
  next
    case 2
    then have "w = take n s" using assms(4) by (auto simp: escape_char_def split: if_splits)
    moreover have "b \<notin> {0, 0x0A, 0x0D, 0x22, 0x5C}" if "0x80 \<le> b" for b :: u8 using that by auto
    ultimately show ?thesis
      using 2(1) that(2) next_char_valid [OF assms(2)] by (simp add: denotes_itself_def list_all_iff)
  qed
  then show ?thesis using l by cases (simp_all add: literals_documented_def)
qed

lemma escape_loop_read:
  assumes l: "literals_documented lit" and "utf8_valid s" and "escape_loop pos s out = Inr body"
  shows "\<exists>w. body = out @ w \<and> (\<forall>r. lit (w @ r) = prepend s (lit r))"
  using assms(2,3)
proof (induction pos s out rule: escape_loop.induct)
  case (1 pos s out)
  show ?case
  proof (cases "s = []")
    case True
    with 1 show ?thesis by (auto simp: escape_loop.simps)
  next
    case False
    obtain ok n where n: "next_char s = (ok, n)" by fastforce
    with 1 False have v: "ok" "utf8_valid (drop n s)" by (auto simp: utf8_valid.simps [of s])
    from 1(3) False n obtain c where c: "escape_char (take n s) = Some c" "escape_loop (pos + n) (drop n s) (out @ c) = Inr body"
      by (subst (asm) escape_loop.simps) (auto simp: Let_def split: option.splits)
    have d: "snd (next_char s) = n" using n by simp
    from 1(1) [OF False d [symmetric] c(1) v(2) c(2)] obtain w where w: "body = (out @ c) @ w"
      "\<forall>r. lit (w @ r) = prepend (drop n s) (lit r)" by blast
    have "lit ((c @ w) @ r) = prepend s (lit r)" for r
    proof -
      have "lit (c @ (w @ r)) = prepend (take n s) (lit (w @ r))"
        using escape_char_read [OF l] n v(1) False c(1) by simp
      also have "\<dots> = prepend s (lit r)"
        using w(2) append_take_drop_id [of n s]
        by simp
      finally show ?thesis by simp
    qed
    with w(1) show ?thesis by auto
  qed
qed

lemma escape_literal_read:
  assumes "literals_documented lit" and "escape_literal s = Inr body"
  shows "lit (body @ 0x22 # r) = Some (s, r)"
  using escape_loop_read [OF assms(1), of s 0 "[]" body] assms by (auto simp: escape_literal_def literals_documented_def split: if_splits)

section \<open>What is refused\<close>

lemma escape_loop_error:
  assumes "utf8_valid s" and "escape_loop pos s out = Inl e"
  shows "\<exists>i. e = QuoteError (pos + i) UnrepresentableChar \<and> i < length s \<and> s ! i = 0 \<and> 0 \<notin> set (take i s)"
  using assms
proof (induction pos s out rule: escape_loop.induct)
  case (1 pos s out)
  have ne: "s \<noteq> []" using 1(3) by (auto simp: escape_loop.simps)
  obtain ok n where n: "next_char s = (ok, n)" by fastforce
  with 1 ne have v: "ok" "utf8_valid (drop n s)" by (auto simp: utf8_valid.simps [of s])
  have nc: "next_char s = (True, n)" using n v by simp
  show ?case
  proof (cases "escape_char (take n s)")
    case None
    then have "take n s = [0]" by (auto simp: escape_char_def split: if_splits)
    then have "s ! 0 = 0" "0 < length s" using ne by (cases s; cases n; auto)+
    moreover from 1(3) None n ne have "e = QuoteError pos UnrepresentableChar"
      by (subst (asm) escape_loop.simps) (simp add: Let_def)
    ultimately show ?thesis by auto
  next
    case (Some w)
    with 1(3) ne n have l: "escape_loop (pos + n) (drop n s) (out @ w) = Inl e"
      by (subst (asm) escape_loop.simps) (simp add: Let_def)
    have d: "snd (next_char s) = n" using n by simp
    from 1(1) [OF ne d [symmetric] Some v(2) l] obtain i where i: "e = QuoteError (pos + n + i) UnrepresentableChar"
      "i < length (drop n s)" "drop n s ! i = 0" "0 \<notin> set (take i (drop n s))" by blast
    have "0 \<notin> set (take n s)"
      using nc ne
    proof (cases rule: next_char_cases)
      case (1 a r)
      with Some show ?thesis by (auto simp: escape_char_def split: if_splits)
    qed (auto simp: list_all_iff)
    with i show ?thesis by (intro exI [of _ "n + i"]) (auto simp: take_add)
  qed
qed

text \<open>To any documented reader an escaped string reads back as itself, to the closing quote and no further, whatever follows; and escaping
  refuses only a string that is not UTF-8 or one with a NUL, whose position it reports.\<close>

theorem applescript_literal:
  assumes "literals_documented lit"
  shows "case escape_literal s of
     Inr body \<Rightarrow> (\<forall>r. lit (body @ 0x22 # r) = Some (s, r))
   | Inl (QuoteError pos k) \<Rightarrow>
       (k = NonUtf8 \<and> \<not> utf8_valid s) \<or>
       (k = UnrepresentableChar \<and> pos < length s \<and> s ! pos = 0 \<and> 0 \<notin> set (take pos s))"
proof (cases "escape_literal s")
  case (Inl e)
  then show ?thesis
    using escape_loop_error [of s 0 "[]" e] by (auto simp: escape_literal_def split: if_splits)
next
  case (Inr body)
  then show ?thesis using escape_literal_read [OF assms] by simp
qed

theorem applescript_literal_witness:
  "escape_literal [0x61, 0x22, 0x0A] = Inr [0x61, 0x5C, 0x22, 0x5C, 0x6E] \<and>
     demo_literal [0x61, 0x5C, 0x22, 0x5C, 0x6E, 0x22] = Some ([0x61, 0x22, 0x0A], [])"
proof -
  have e: "escape_literal [0x61, 0x22, 0x0A] = Inr [0x61, 0x5C, 0x22, 0x5C, 0x6E]" by code_simp
  from applescript_literal [OF demo_literal_documented, of "[0x61, 0x22, 0x0A]"] e show ?thesis by simp
qed

end
