(* ===== verification/Elevation_Macos.thy ===== *)
theory Elevation_Macos
  imports Elevation_Argv Quote_Posix Quote_AppleScript
begin

text \<open>
  \<^verbatim>\<open>src/src/elevation/macos.rs\<close>, on Unix, where a string is its bytes: the \<^verbatim>\<open>osascript\<close> command that runs a program through
  Authorization Services. \<^verbatim>\<open>osascript\<close> and \<^verbatim>\<open>/bin/sh\<close> are programs of the host: what the one makes of a script (\<open>osa\<close>) and the other
  of a command text (\<open>sh\<close>) are parameters, of which only the documented rules are known (\<open>osascript_documented\<close>,
  \<open>shell_documented\<close>).
\<close>

section \<open>Reports\<close>

datatype ElevatedStdio = Passthrough | OwnConsole | StdinConsumed | OsascriptRelay

record ElevationReport =
  el_via :: ElevatedVia
  el_stripped_env :: "bytes list"
  el_stdio :: ElevatedStdio

section \<open>The script\<close>

definition unsupported :: "String.literal \<Rightarrow> Error" where
  "unsupported op = Unsupported op (STR ''macos'')"

definition is_posix_absolute :: "bytes \<Rightarrow> bool" where
  "is_posix_absolute s \<longleftrightarrow> take 1 s = [SLASH]"

definition build_shell_command :: "bytes \<Rightarrow> bytes list \<Rightarrow> bytes option \<Rightarrow> bytes" where
  "build_shell_command program args cwd = (
     let words = [ascii ''exec''] @ [program] @ args;
         out = (case cwd of None \<Rightarrow> [] | Some dir \<Rightarrow> ascii ''cd -P -- '' @ quote dir @ ascii '' && '')
     in out @ Quote_Posix.join words)"

definition wrap_do_shell_script :: "bytes \<Rightarrow> nat option \<Rightarrow> Error + bytes" where
  "wrap_do_shell_script shell_command limit = (case escape_literal shell_command of
      Inl e \<Rightarrow> Inl (Quote e)
    | Inr body \<Rightarrow>
        let script = ascii ''do shell script '' @ [0x22] @ body @ [0x22] @ ascii '' with administrator privileges without altering line endings''
        in (case limit of
            Some m \<Rightarrow> if m < length script then Inl (Elevation CommandTooLong) else Inr script
          | None \<Rightarrow> Inr script))"

definition build_shim_script :: "bytes \<Rightarrow> ShimArgs \<Rightarrow> bytes option \<Rightarrow> nat option \<Rightarrow> Error + bytes" where
  "build_shim_script shim_exe shim cwd limit = (
     let argv = to_argv_for shim shim_exe True
     in wrap_do_shell_script (build_shell_command (hd argv) (tl argv) cwd) limit)"

section \<open>The gate\<close>

definition ARGV_REFUSALS :: ArgvRefusals where
  "ARGV_REFUSALS = \<lparr>ar_platform = STR ''macos'', ar_op_prefix = STR ''macOS graphical elevation''\<rparr>"

definition checked_argv :: "Command \<Rightarrow> Error + bytes list" where
  "checked_argv cmd = elevation_argv cmd ARGV_REFUSALS"

definition program_and_args :: "Command \<Rightarrow> Error + Launch" where
  "program_and_args cmd = (case checked_argv cmd of
      Inl e \<Rightarrow> Inl e
    | Inr argv \<Rightarrow> Inr \<lparr>la_program = hd argv, la_args = tl argv, la_cwd = cm_cwd cmd\<rparr>)"

primrec gui_fds_refusal :: "(Fd \<times> ResolvedStdio) list \<Rightarrow> Error option" where
  "gui_fds_refusal [] = None"
| "gui_fds_refusal (e # fds) = (case e of (slot, resolved) \<Rightarrow>
     if 3 \<le> slot then Some (unsupported (STR ''fd >= 3 on a macOS graphically-elevated child''))
     else if slot = STDIN \<and> resolved \<noteq> Inherit \<and> resolved \<noteq> Null
       then Some (unsupported (STR ''a pipe or file on stdin for a macOS graphically-elevated child''))
     else gui_fds_refusal fds)"

definition reject_structural_gui_config :: "Command \<Rightarrow> Error option" where
  "reject_structural_gui_config cmd = (case checked_argv cmd of
      Inl e \<Rightarrow> Some e
    | Inr argv \<Rightarrow>
        if (case cm_cwd cmd of None \<Rightarrow> False | Some dir \<Rightarrow> \<not> is_posix_absolute dir)
          then Some (unsupported (STR ''macOS graphical elevation with a relative current_dir()''))
        else if \<not> is_posix_absolute (hd argv)
          then Some (unsupported (STR ''macOS graphical elevation of a non-absolute program''))
        else (case gui_fds_refusal (cm_fds cmd) of
            Some e \<Rightarrow> Some e
          | None \<Rightarrow>
              if cm_env_ops cmd \<noteq> [] then Some (unsupported (STR ''env forwarding to a macOS graphically-elevated child''))
              else if cq_mode (cm_contain cmd) \<noteq> None then Some (unsupported (STR ''.contain() + macOS graphical elevation''))
              else None))"

section \<open>The derived command\<close>

text \<open>The caller's command is returned too: its descriptors are moved out of it.\<close>

definition build_rewrite ::
  "Command \<Rightarrow> Launch \<Rightarrow> bytes \<Rightarrow> nat option \<Rightarrow> Command \<times> (Error + Command \<times> ElevationReport)" where
  "build_rewrite cmd launch osascript limit = (
     case wrap_do_shell_script (build_shell_command (la_program launch) (la_args launch) (la_cwd launch)) limit of
       Inl e \<Rightarrow> (cmd, Inl e)
     | Inr script \<Rightarrow>
         let derived = set_input_argv [osascript, ascii ''-e'', script] new_command;
             derived = (case la_cwd launch of None \<Rightarrow> derived | Some d \<Rightarrow> current_dir d derived);
             derived = kill_on_drop (cm_kill_on_drop cmd) derived;
             derived = move_fds (\<lambda>_. False) (cm_fds cmd) derived
         in (cmd\<lparr>cm_fds := []\<rparr>,
             Inr (derived, \<lparr>el_via = MacosOsascript, el_stripped_env = [], el_stdio = OsascriptRelay\<rparr>)))"

section \<open>What osascript and the shell document\<close>

text \<open>\<open>osa script\<close> is the text that \<^verbatim>\<open>osascript -e script\<close> hands to \<^verbatim>\<open>/bin/sh\<close> to run with administrator privileges, its output left as it
  is. Documented is the one statement the library writes: the text is what its string literal denotes.\<close>

definition osascript_documented :: "(bytes \<Rightarrow> bytes option) \<Rightarrow> bool" where
  "osascript_documented osa \<longleftrightarrow> (\<exists>lit. literals_documented lit \<and>
     (\<forall>r text. lit r = Some (text, ascii '' with administrator privileges without altering line endings'') \<longrightarrow>
        osa (ascii ''do shell script '' @ 0x22 # r) = Some text))"

text \<open>\<open>sh text\<close> is the tokens the shell reads: words, after the removal of quotes, and the operator \<^verbatim>\<open>&&\<close>. A word is written as
  parts: characters that mean nothing to the shell, single quotes around text without a single quote, and double quotes around
  text without the four characters that are special in them.\<close>

datatype ShToken = ShWord bytes | AndIf

datatype WordPart = Bare bytes | Single bytes | Double bytes

definition sh_plain :: "u8 \<Rightarrow> bool" where
  "sh_plain b \<longleftrightarrow> 0x21 \<le> b \<and> b \<le> 0x7E \<and> b \<notin> set (ascii ''|&;<>()$`*?[]#~!{}^'') \<and> b \<notin> {SQ, DQ, BSL}"

primrec part_ok :: "WordPart \<Rightarrow> bool" where
  "part_ok (Bare w) \<longleftrightarrow> w \<noteq> [] \<and> list_all sh_plain w"
| "part_ok (Single w) \<longleftrightarrow> SQ \<notin> set w"
| "part_ok (Double w) \<longleftrightarrow> list_all (\<lambda>b. b \<notin> set (ascii ''$`'') \<and> b \<notin> {DQ, BSL}) w"

primrec part_text :: "WordPart \<Rightarrow> bytes" where
  "part_text (Bare w) = w"
| "part_text (Single w) = [SQ] @ w @ [SQ]"
| "part_text (Double w) = [DQ] @ w @ [DQ]"

primrec part_value :: "WordPart \<Rightarrow> bytes" where
  "part_value (Bare w) = w"
| "part_value (Single w) = w"
| "part_value (Double w) = w"

definition shell_documented :: "(bytes \<Rightarrow> ShToken list option) \<Rightarrow> bool" where
  "shell_documented sh \<longleftrightarrow>
     (\<forall>parts. parts \<noteq> [] \<and> list_all part_ok parts \<longrightarrow>
        sh (concat (map part_text parts)) = Some [ShWord (concat (map part_value parts))]) \<and>
     (\<forall>parts r. parts \<noteq> [] \<and> list_all part_ok parts \<longrightarrow>
        sh (concat (map part_text parts) @ SP # r) = map_option ((#) (ShWord (concat (map part_value parts)))) (sh r)) \<and>
     (\<forall>r. sh (ascii ''&&'' @ SP # r) = map_option ((#) AndIf) (sh r))"

text \<open>Readers that do so: the hypotheses can hold. The shell's has no reading of what it would expand, nor of another operator.\<close>

definition demo_osascript :: "bytes \<Rightarrow> bytes option" where
  "demo_osascript script = (case strip_prefix (ascii ''do shell script '' @ [0x22]) script of
      None \<Rightarrow> None
    | Some r \<Rightarrow> (case demo_literal r of
          None \<Rightarrow> None
        | Some (text, rest) \<Rightarrow>
            if rest = ascii '' with administrator privileges without altering line endings'' then Some text else None))"

datatype ShMode = Plain | InSingle | InDouble

definition flush :: "bytes option \<Rightarrow> ShToken list" where
  "flush cur = (case cur of None \<Rightarrow> [] | Some w \<Rightarrow> [ShWord w])"

definition push_char :: "bytes option \<Rightarrow> bytes \<Rightarrow> bytes option" where
  "push_char cur w = (case cur of None \<Rightarrow> Some w | Some v \<Rightarrow> Some (v @ w))"

fun demo_lex :: "ShMode \<Rightarrow> bytes option \<Rightarrow> bytes \<Rightarrow> ShToken list option" where
  "demo_lex m cur [] = (if m = Plain then Some (flush cur) else None)"
| "demo_lex m cur (b # r) = (case m of
     InSingle \<Rightarrow> if b = SQ then demo_lex Plain cur r else demo_lex InSingle (push_char cur [b]) r
   | InDouble \<Rightarrow> if b = DQ then demo_lex Plain cur r else if b \<in> set (ascii ''$`'') \<or> b = BSL then None
       else demo_lex InDouble (push_char cur [b]) r
   | Plain \<Rightarrow>
       if b = SP then map_option ((@) (flush cur)) (demo_lex Plain None r)
       else if b = SQ then demo_lex InSingle (push_char cur []) r
       else if b = DQ then demo_lex InDouble (push_char cur []) r
       else if sh_plain b then demo_lex Plain (push_char cur [b]) r
       else if b = 0x26 \<and> take 1 r = [0x26] then map_option ((@) (flush cur @ [AndIf])) (demo_lex Plain None (tl r))
       else None)"

definition demo_shell :: "bytes \<Rightarrow> ShToken list option" where
  "demo_shell = demo_lex Plain None"

lemma push_char_append [simp]: "push_char (push_char cur v) w = push_char cur (v @ w)"
  by (simp add: push_char_def split: option.splits)

lemma push_char_simps [simp]: "push_char None w = Some w" "push_char (Some v) w = Some (v @ w)"
  by (simp_all add: push_char_def)

lemma push_char_Nil: "push_char (push_char cur v) [] = push_char cur v"
  by simp

lemma demo_lex_bare: "list_all sh_plain s \<Longrightarrow> s \<noteq> [] \<Longrightarrow> demo_lex Plain cur (s @ r) = demo_lex Plain (push_char cur s) r"
proof (induction s arbitrary: cur)
  case (Cons b s)
  then have "sh_plain b" "b \<noteq> SP" "b \<noteq> SQ" "b \<noteq> DQ" by (auto simp: sh_plain_def)
  then show ?case using Cons by (cases "s = []") simp_all
qed simp

lemma demo_lex_single: "SQ \<notin> set s \<Longrightarrow> demo_lex InSingle (Some v) (s @ SQ # r) = demo_lex Plain (Some (v @ s)) r"
  by (induction s arbitrary: v) auto

lemma demo_lex_double:
  "list_all (\<lambda>b. b \<notin> set (ascii ''$`'') \<and> b \<notin> {DQ, BSL}) s \<Longrightarrow>
     demo_lex InDouble (Some v) (s @ DQ # r) = demo_lex Plain (Some (v @ s)) r"
  by (induction s arbitrary: v) auto

lemma demo_lex_part: "part_ok p \<Longrightarrow> demo_lex Plain cur (part_text p @ r) = demo_lex Plain (push_char cur (part_value p)) r"
  by (cases p; cases cur) (auto simp: demo_lex_bare demo_lex_single demo_lex_double)

lemma demo_lex_parts:
  "list_all part_ok ps \<Longrightarrow> ps \<noteq> [] \<Longrightarrow>
     demo_lex Plain cur (concat (map part_text ps) @ r) = demo_lex Plain (push_char cur (concat (map part_value ps))) r"
proof (induction ps arbitrary: cur)
  case (Cons p ps)
  then show ?case by (cases "ps = []") (simp_all add: demo_lex_part)
qed simp

lemma demo_shell_documented: "shell_documented demo_shell"
proof -
  have "\<not> sh_plain 0x26" by code_simp
  then have a: "demo_lex Plain None (ascii ''&&'' @ SP # r) = map_option ((#) AndIf) (demo_lex Plain None r)" for r
    by (simp add: flush_def of_char_def option.map_comp comp_def)
  have w: "(@) (flush (Some w)) = (#) (ShWord w)" for w by (simp add: flush_def fun_eq_iff)
  show ?thesis
    unfolding shell_documented_def demo_shell_def using a
    by (simp add: demo_lex_parts demo_lex_parts [where r = "[]", simplified] w) (simp add: flush_def)
qed

lemma demo_osascript_documented: "osascript_documented demo_osascript"
proof -
  let ?tail = "ascii '' with administrator privileges without altering line endings''"
  have "demo_osascript (ascii ''do shell script '' @ 0x22 # r) = Some t" if l: "demo_literal r = Some (t, ?tail)" for r t
  proof -
    have "strip_prefix (ascii ''do shell script '' @ [0x22]) (ascii ''do shell script '' @ 0x22 # r) = Some r"
      unfolding strip_prefix_def by simp
    then show ?thesis by (simp only: demo_osascript_def l option.case prod.case simp_thms if_True)
  qed
  then show ?thesis using demo_literal_documented unfolding osascript_documented_def by blast
qed

section \<open>How the script is read\<close>

lemma SAFE_sh_plain: "SAFE b \<Longrightarrow> sh_plain b"
  by (auto simp: SAFE_def sh_plain_def of_char_def elim: order_trans [rotated] order_trans)

text \<open>A quoted argument is a word of the shell, whose value is the argument.\<close>

lemma quoted_parts:
  assumes "SQ \<notin> set v"
  shows "\<exists>ps. ps \<noteq> [] \<and> list_all part_ok ps \<and> concat (map part_text ps) = [SQ] @ v @ concat (map quote_byte s) @ [SQ] \<and>
    concat (map part_value ps) = v @ s"
  using assms
proof (induction s arbitrary: v)
  case Nil
  then show ?case by (intro exI [of _ "[Single v]"]) simp
next
  case (Cons b s)
  show ?case
  proof (cases "b = SQ")
    case True
    from Cons.IH [of "[]"] obtain ps where p: "list_all part_ok ps"
      "concat (map part_text ps) = [SQ] @ [] @ concat (map quote_byte s) @ [SQ]" "concat (map part_value ps) = [] @ s" by auto
    with True Cons.prems show ?thesis
      by (intro exI [of _ "[Single v, Double [SQ]] @ ps"]) (simp add: quote_byte_def [of SQ] of_char_def)
  next
    case False
    with Cons.prems Cons.IH [of "v @ [b]"] show ?thesis by (simp add: quote_byte_def [of b])
  qed
qed

lemma quote_parts: "\<exists>ps. ps \<noteq> [] \<and> list_all part_ok ps \<and> concat (map part_text ps) = quote w \<and> concat (map part_value ps) = w"
proof -
  consider "w = []" | "w \<noteq> []" "list_all SAFE w" | "w \<noteq> []" "\<not> list_all SAFE w" by blast
  then show ?thesis
  proof cases
    case 1
    then show ?thesis by (intro exI [of _ "[Single []]"]) (simp add: quote_def)
  next
    case 2
    then show ?thesis using SAFE_sh_plain by (intro exI [of _ "[Bare w]"]) (auto simp: quote_def list_all_iff)
  next
    case 3
    then show ?thesis using quoted_parts [of "[]" w] by (simp add: quote_def)
  qed
qed

lemma sh_quote:
  assumes "shell_documented sh"
  shows "sh (quote w) = Some [ShWord w]" and "sh (quote w @ SP # r) = map_option ((#) (ShWord w)) (sh r)"
proof -
  obtain ps where p: "ps \<noteq> []" "list_all part_ok ps" "concat (map part_text ps) = quote w" "concat (map part_value ps) = w"
    using quote_parts by blast
  with assms show "sh (quote w) = Some [ShWord w]" and "sh (quote w @ SP # r) = map_option ((#) (ShWord w)) (sh r)"
    unfolding shell_documented_def by metis+
qed

lemma sh_join:
  assumes "shell_documented sh"
  shows "sh (Quote_Posix.join (w # ws)) = Some (map ShWord (w # ws))"
proof (induction ws arbitrary: w)
  case Nil
  show ?case using sh_quote(1) [OF assms] by (simp add: join_Cons)
next
  case (Cons v ws)
  then show ?case by (simp add: join_Cons_Cons sh_quote(2) [OF assms])
qed

lemma quote_safe: "list_all SAFE w \<Longrightarrow> w \<noteq> [] \<Longrightarrow> quote w = w"
  by (simp add: quote_def)

text \<open>The words of a command text: an optional \<open>cd\<close> to the directory, and an \<open>exec\<close> of the argument vector.\<close>

definition exec_words :: "bytes option \<Rightarrow> bytes list \<Rightarrow> ShToken list" where
  "exec_words cwd argv =
     (case cwd of None \<Rightarrow> [] | Some d \<Rightarrow> map ShWord [ascii ''cd'', ascii ''-P'', ascii ''--'', d] @ [AndIf]) @
     map ShWord (ascii ''exec'' # argv)"

text \<open>The command text reads as the words it was made of, and nothing in them is read as syntax.\<close>

lemma sh_shell_command:
  assumes "shell_documented sh"
  shows "sh (build_shell_command program args cwd) = Some (exec_words cwd (program # args))"
proof (cases cwd)
  case (Some d)
  have "list_all SAFE (ascii ''cd'')" "list_all SAFE (ascii ''-P'')" "list_all SAFE (ascii ''--'')" by code_simp+
  then have q: "quote (ascii ''cd'') = ascii ''cd''" "quote (ascii ''-P'') = ascii ''-P''" "quote (ascii ''--'') = ascii ''--''"
    by (simp_all add: quote_safe)
  let ?j = "Quote_Posix.join (ascii ''exec'' # program # args)"
  have s: "build_shell_command program args cwd =
      quote (ascii ''cd'') @ SP # quote (ascii ''-P'') @ SP # quote (ascii ''--'') @ SP # quote d @ SP # ascii ''&&'' @ SP # ?j"
    unfolding q by (simp add: build_shell_command_def Some of_char_def)
  have a: "sh (ascii ''&&'' @ SP # r) = map_option ((#) AndIf) (sh r)" for r
    using assms unfolding shell_documented_def by blast
  show ?thesis unfolding s sh_quote(2) [OF assms] a sh_join [OF assms] by (simp add: Some exec_words_def)
qed (simp add: build_shell_command_def sh_join [OF assms] exec_words_def)

lemma wrap_read:
  assumes "wrap_do_shell_script text limit = Inr script"
  shows "osascript_documented osa \<Longrightarrow> osa script = Some text" "\<forall>m. limit = Some m \<longrightarrow> length script \<le> m"
proof -
  let ?tail = "ascii '' with administrator privileges without altering line endings''"
  obtain body where b: "escape_literal text = Inr body"
    and s: "script = ascii ''do shell script '' @ 0x22 # body @ 0x22 # ?tail"
    and l: "\<forall>m. limit = Some m \<longrightarrow> length script \<le> m"
    using assms unfolding wrap_do_shell_script_def Let_def by (auto split: sum.splits option.splits if_splits)
  show "osa script = Some text" if o: "osascript_documented osa"
  proof -
    obtain lit where "literals_documented lit"
      and t: "lit (body @ 0x22 # ?tail) = Some (text, ?tail) \<longrightarrow> osa (ascii ''do shell script '' @ 0x22 # body @ 0x22 # ?tail) = Some text"
      using o unfolding osascript_documented_def by blast
    with escape_literal_read [OF _ b] show ?thesis unfolding s by blast
  qed
  show "\<forall>m. limit = Some m \<longrightarrow> length script \<le> m" by fact
qed

text \<open>The shim's own script reads as an \<open>exec\<close> of the shim with its hexadecimal arguments, which it reads back.\<close>

theorem shim_reads_through_osascript:
  assumes "osascript_documented osa" and "shell_documented sh" and "build_shim_script exe shim cwd limit = Inr script"
    and "valid_args present shim"
  shows "\<exists>text ws. osa script = Some text \<and> sh text = Some (exec_words cwd (exe # ws)) \<and>
    parse_for (exe # ws) present = Inr (Some shim) \<and> (\<forall>m. limit = Some m \<longrightarrow> length script \<le> m)"
proof -
  let ?argv = "to_argv_for shim exe True"
  have w: "?argv = exe # tl ?argv" by (simp add: to_argv_for_fields)
  have s: "wrap_do_shell_script (build_shell_command (hd ?argv) (tl ?argv) cwd) limit = Inr script"
    using assms(3) by (simp only: build_shim_script_def Let_def)
  have "sh (build_shell_command (hd ?argv) (tl ?argv) cwd) = Some (exec_words cwd (exe # tl ?argv))"
    using sh_shell_command [OF assms(2)] by simp
  moreover have "parse_for (exe # tl ?argv) present = Inr (Some shim)" using parse_for_iff w assms(4) by metis
  ultimately show ?thesis using wrap_read [OF s] assms(1) by blast
qed

theorem shim_reads_through_osascript_witness:
  "\<exists>script text ws. build_shim_script (ascii ''/s'') \<lparr>sa_dir = ascii ''/d'', sa_cosca_pid = 7, sa_cosca_identity = None,
      sa_cosca_euid = 1, sa_search_path = None, sa_program = ascii ''/p'', sa_args = []\<rparr> None None = Inr script \<and>
     demo_osascript script = Some text \<and> demo_shell text = Some (exec_words None (ascii ''/s'' # ws))"
  (is "\<exists>script text ws. ?b = _ \<and> _")
proof -
  have "case ?b of Inr _ \<Rightarrow> True | _ \<Rightarrow> False" by code_simp
  then obtain script where b: "?b = Inr script" by (auto split: sum.splits)
  have v: "valid_args False \<lparr>sa_dir = ascii ''/d'', sa_cosca_pid = 7, sa_cosca_identity = None,
      sa_cosca_euid = 1, sa_search_path = None, sa_program = ascii ''/p'', sa_args = []\<rparr>" by code_simp
  from shim_reads_through_osascript [OF demo_osascript_documented demo_shell_documented b v] b show ?thesis by blast
qed

lemma elevation_argv_Inr:
  "elevation_argv cmd ws = Inr argv \<longleftrightarrow> cm_executable cmd = None \<and> cm_input cmd = Argv argv \<and> argv \<noteq> []"
  by (auto simp: elevation_argv_def Let_def split: option.splits ExecutableSpec.splits CommandInput.splits)

lemma gui_fds_refusal_None:
  "gui_fds_refusal fds = None \<longleftrightarrow>
     (\<forall>(slot, r) \<in> set fds. slot < 3 \<and> (slot = STDIN \<longrightarrow> r = Inherit \<or> r = Null))"
  by (induction fds) (auto split: prod.splits if_splits)

lemma gui_gate_None:
  "reject_structural_gui_config cmd = None \<longleftrightarrow>
     (\<exists>argv. cm_executable cmd = None \<and> cm_input cmd = Argv argv \<and> argv \<noteq> [] \<and> is_posix_absolute (hd argv)) \<and>
     (\<forall>d. cm_cwd cmd = Some d \<longrightarrow> is_posix_absolute d) \<and> gui_fds_refusal (cm_fds cmd) = None \<and>
     cm_env_ops cmd = [] \<and> cq_mode (cm_contain cmd) = None"
  by (cases "checked_argv cmd")
    (auto simp: reject_structural_gui_config_def checked_argv_def elevation_argv_Inr split: option.splits,
     auto simp: elevation_argv_def Let_def split: option.splits ExecutableSpec.splits CommandInput.splits if_splits)

lemma build_rewrite_caller: "build_rewrite cmd l p m = (cmd', Inr x) \<Longrightarrow> cmd' = cmd\<lparr>cm_fds := []\<rparr>"
  by (auto simp: build_rewrite_def Let_def split: sum.splits)

text \<open>Graphical elevation on macOS runs the caller's program and nothing else. For every command the gate accepts, the
  derived command is \<open>osascript -e\<close> with one statement within the system's limit; read as documented, its literal is a text
  that the shell reads as an optional \<open>cd\<close> to the caller's directory, and \<open>exec\<close> of the caller's argument vector, each
  argument one word: no byte of a path or an argument is read as syntax by either language. The program and the directory
  are absolute paths.\<close>

lemma osascript_runs_only_the_program:
  assumes "reject_structural_gui_config cmd = None" and "program_and_args cmd = Inr launch"
    and "build_rewrite cmd launch osascript limit = (cmd', Inr (derived, report))"
    and "osascript_documented osa" and "shell_documented sh"
  shows "\<exists>argv script text. cm_input cmd = Argv argv \<and> is_posix_absolute (hd argv) \<and>
    cm_input derived = Argv [osascript, ascii ''-e'', script] \<and> (\<forall>m. limit = Some m \<longrightarrow> length script \<le> m) \<and>
    osa script = Some text \<and> sh text = Some (exec_words (cm_cwd cmd) argv) \<and>
    (\<forall>d. cm_cwd cmd = Some d \<longrightarrow> is_posix_absolute d) \<and> cm_cwd derived = cm_cwd cmd"
proof -
  obtain argv where a: "cm_input cmd = Argv argv" "argv \<noteq> []" "is_posix_absolute (hd argv)"
    and d: "\<forall>d. cm_cwd cmd = Some d \<longrightarrow> is_posix_absolute d" and x: "cm_executable cmd = None"
    using assms(1) unfolding gui_gate_None by blast
  have l: "launch = \<lparr>la_program = hd argv, la_args = tl argv, la_cwd = cm_cwd cmd\<rparr>"
    using assms(2) a x by (auto simp: program_and_args_def checked_argv_def elevation_argv_Inr split: sum.splits)
  let ?text = "build_shell_command (hd argv) (tl argv) (cm_cwd cmd)"
  obtain script where s: "wrap_do_shell_script ?text limit = Inr script"
    and i: "cm_input derived = Argv [osascript, ascii ''-e'', script]" and c: "cm_cwd derived = cm_cwd cmd"
    using assms(3) unfolding build_rewrite_def l
    by (auto simp: Let_def set_input_argv_def kill_on_drop_def current_dir_def new_command_def split: sum.splits option.splits)
  have "sh ?text = Some (exec_words (cm_cwd cmd) argv)"
    using sh_shell_command [OF assms(5), of "hd argv" "tl argv"] by (simp only: list.collapse [OF a(2)])
  then show ?thesis using wrap_read [OF s] assms(4) a(1,3) d i c by blast
qed

end
