(* ===== verification/Elevation_Password.thy ===== *)
theory Elevation_Password
  imports Errors "HOL-Library.Sublist"
begin

text \<open>
  The password channel of \<^verbatim>\<open>src/src/elevation/posix.rs\<close>: how \<^verbatim>\<open>Auth::Stdin\<close> feeds \<^verbatim>\<open>sudo -S\<close> after the spawn. The pipe answers each
  \<^verbatim>\<open>write\<close> and each \<^verbatim>\<open>poll\<close> from a list; a loop that needs an answer beyond the end of its list is \<open>None\<close>. What the pipe took is
  part of the result.
\<close>

section \<open>The loop\<close>

datatype Write_Answer = Wrote nat | Interrupted | WouldBlock | BrokenPipe | Write_Failed i32

text \<open>One return of \<^verbatim>\<open>poll_ready\<close>: an error, or whether \<^verbatim>\<open>POLLHUP\<close> or \<^verbatim>\<open>POLLERR\<close>, and whether \<^verbatim>\<open>POLLOUT\<close>, is set.\<close>

datatype Poll_Answer = Poll_Failed i32 | Polled bool bool

definition password_line :: "bytes \<Rightarrow> bytes" where
  "password_line secret = secret @ [0x0A]"

primrec wait_writable :: "Poll_Answer list \<Rightarrow> ((i32 + bool) \<times> Poll_Answer list) option" where
  "wait_writable [] = None"
| "wait_writable (p # ps) = (case p of
     Poll_Failed e \<Rightarrow> Some (Inl e, ps)
   | Polled hup out \<Rightarrow> if hup then Some (Inr False, ps) else if out then Some (Inr True, ps) else wait_writable ps)"

abbreviation auth_failed :: Error where "auth_failed \<equiv> Elevation AuthFailed"

text \<open>\<open>sent\<close> is what the pipe took, \<open>written\<close> its length.\<close>

primrec write_loop ::
  "Write_Answer list \<Rightarrow> Poll_Answer list \<Rightarrow> bytes \<Rightarrow> nat \<Rightarrow> bytes \<Rightarrow> (bytes \<times> (Error + unit)) option" where
  "write_loop [] ps bs written sent = (if written < length bs then None else Some (sent, Inr ()))"
| "write_loop (a # ws) ps bs written sent =
     (if \<not> written < length bs then Some (sent, Inr ())
      else (case a of
        Wrote n \<Rightarrow>
          if n = 0 then Some (sent, if written = 0 then Inr () else Inl auth_failed)
          else write_loop ws ps bs (written + n) (sent @ take n (drop written bs))
      | Interrupted \<Rightarrow> write_loop ws ps bs written sent
      | WouldBlock \<Rightarrow>
          if written = 0 then Some (sent, Inr ())
          else (case wait_writable ps of
              None \<Rightarrow> None
            | Some (Inr True, ps) \<Rightarrow> write_loop ws ps bs written sent
            | Some (Inr False, ps) \<Rightarrow> Some (sent, Inl auth_failed)
            | Some (Inl _, ps) \<Rightarrow> Some (sent, Inl auth_failed))
      | BrokenPipe \<Rightarrow> Some (sent, if written = 0 then Inr () else Inl auth_failed)
      | Write_Failed e \<Rightarrow> Some (sent, Inl auth_failed)))"

definition write_password_bytes ::
  "Write_Answer list \<Rightarrow> Poll_Answer list \<Rightarrow> bytes \<Rightarrow> (bytes \<times> (Error + unit)) option" where
  "write_password_bytes ws ps bs = write_loop ws ps bs 0 []"

definition write_after_spawn ::
  "Write_Answer list \<Rightarrow> Poll_Answer list \<Rightarrow> bytes \<Rightarrow> (bytes \<times> (Error + unit)) option" where
  "write_after_spawn ws ps secret = write_password_bytes ws ps (password_line secret)"

section \<open>All of the password or none of it\<close>

lemma write_loop_sent:
  assumes "write_loop ws ps bs written sent = Some (out, r)" and "sent = take written bs"
  shows "prefix out bs \<and> prefix sent out \<and> (r = Inr () \<longrightarrow> out = bs \<or> out = []) \<and> (r \<noteq> Inr () \<longrightarrow> r = Inl auth_failed)"
  using assms
proof (induction ws arbitrary: ps written sent)
  case Nil
  then show ?case by (auto split: if_splits)
next
  case (Cons a ws)
  show ?case
  proof (cases "written < length bs")
    case False
    with Cons.prems show ?thesis by auto
  next
    case True
    show ?thesis
    proof (cases a)
      case (Wrote n)
      show ?thesis
      proof (cases "n = 0")
        case False
        with True Wrote Cons.prems(1)
        have l: "write_loop ws ps bs (written + n) (sent @ take n (drop written bs)) = Some (out, r)" by simp
        have "sent @ take n (drop written bs) = take (written + n) bs" using Cons.prems(2) by (simp add: take_add)
        from Cons.IH [OF l this] show ?thesis by (auto dest: append_prefixD)
      qed (use True Wrote Cons.prems in \<open>auto simp: take_is_prefix split: if_splits\<close>)
    next
      case Interrupted
      with True Cons.prems(1) have "write_loop ws ps bs written sent = Some (out, r)" by simp
      from Cons.IH [OF this Cons.prems(2)] show ?thesis .
    next
      case WouldBlock
      with True Cons.prems Cons.IH [of _ written sent] show ?thesis
        by (auto simp: take_is_prefix split: if_splits option.splits prod.splits sum.splits bool.splits)
    qed (use True Cons.prems in \<open>auto simp: take_is_prefix split: if_splits\<close>)
  qed
qed

text \<open>The password is never truncated in silence: when the delivery answers success, the pipe took the whole line or
  nothing of it, and whenever the pipe took only a part the answer is a failed authentication. What the pipe took is
  always a beginning of the line.\<close>

theorem password_all_or_nothing:
  assumes "write_after_spawn ws ps secret = Some (out, r)"
  shows "prefix out (secret @ [0x0A]) \<and>
    (r = Inr () \<longrightarrow> out = secret @ [0x0A] \<or> out = []) \<and> (r \<noteq> Inr () \<longrightarrow> r = Inl auth_failed)"
  using write_loop_sent [of ws ps "password_line secret" 0 "[]" out r] assms
  by (simp add: write_after_spawn_def write_password_bytes_def password_line_def)

theorem password_all_or_nothing_witness:
  "write_after_spawn [Wrote 1, WouldBlock] [Polled True False] [7] = Some ([7], Inl auth_failed) \<and>
   prefix [7] ([7] @ [0x0A :: u8])"
proof -
  have w: "write_after_spawn [Wrote 1, WouldBlock] [Polled True False] [7] = Some ([7], Inl auth_failed)" by code_simp
  from password_all_or_nothing [OF this] w show ?thesis by blast
qed

text \<open>A pipe that keeps taking bytes takes the whole line.\<close>

lemma write_loop_progress:
  assumes "list_all (\<lambda>a. \<exists>n. a = Wrote (Suc n)) ws" and "length bs \<le> written + length ws"
  shows "\<exists>out. write_loop ws ps bs written sent = Some (out, Inr ())"
  using assms
proof (induction ws arbitrary: written sent)
  case (Cons a ws)
  then obtain n where "a = Wrote (Suc n)" by auto
  with Cons.IH [of "written + Suc n" "sent @ take (Suc n) (drop written bs)"] Cons.prems show ?case by simp
qed simp

text \<open>The delivery ends: a pipe that takes at least one byte at each write takes the whole line, and the answer is
  success.\<close>

theorem password_delivered:
  assumes "list_all (\<lambda>a. \<exists>n. a = Wrote (Suc n)) ws" and "length secret < length ws"
  shows "write_after_spawn ws ps secret = Some (secret @ [0x0A], Inr ())"
proof -
  obtain out where o: "write_after_spawn ws ps secret = Some (out, Inr ())"
    using write_loop_progress [OF assms(1), of "password_line secret" 0 ps "[]"] assms(2)
    by (auto simp: write_after_spawn_def write_password_bytes_def password_line_def)
  obtain n where "hd ws = Wrote (Suc n)" "ws \<noteq> []" using assms by (cases ws) auto
  then have "prefix (take (Suc n) (password_line secret)) out"
    using o write_loop_sent [of "tl ws" ps "password_line secret" "Suc n" "take (Suc n) (password_line secret)" out "Inr ()"]
    by (cases ws) (auto simp: write_after_spawn_def write_password_bytes_def password_line_def)
  then have "out \<noteq> []" by (auto simp: password_line_def)
  with o write_loop_sent [of ws ps "password_line secret" 0 "[]" out "Inr ()"] show ?thesis
    by (auto simp: write_after_spawn_def write_password_bytes_def password_line_def)
qed

theorem password_delivered_witness:
  "write_after_spawn [Wrote 1, Wrote 1] [] [7] = Some ([7, 0x0A], Inr ())"
  using password_delivered [of "[Wrote 1, Wrote 1]" "[7]" "[]"] by simp

end
