(* ===== verification/Elevation_Rewrite.thy ===== *)
theory Elevation_Rewrite
  imports Elevation_Macos Elevation_Password
begin

text \<open>
  The rewrite of \<^verbatim>\<open>src/src/elevation/posix.rs\<close>: the command that is spawned in place of one that asks for elevation. \<open>None\<close> is a
  panic of an \<^verbatim>\<open>unreachable!\<close>. The answer of \<^verbatim>\<open>std::io::pipe\<close> is an argument: an errno, or its two ends; \<open>os\<close> is
  \<^verbatim>\<open>std::env::consts::OS\<close>. The caller's command is part of the result, since its descriptors are moved out of it.
\<close>

section \<open>The gate\<close>

definition ARGV_REFUSALS :: ArgvRefusals where
  "ARGV_REFUSALS = \<lparr>ar_platform = STR ''unix'', ar_op_prefix = STR ''elevation''\<rparr>"

definition explicit_set_env :: "EnvOp list \<Rightarrow> (bytes \<times> bytes) list" where
  "explicit_set_env ops = foldl (\<lambda>m op. case op of Set k v \<Rightarrow> bt_insert k v m | _ \<Rightarrow> m) [] ops"

definition checked_argv :: "Command \<Rightarrow> Error + bytes list" where
  "checked_argv cmd = elevation_argv cmd ARGV_REFUSALS"

definition program_and_args :: "Command \<Rightarrow> Error + Launch" where
  "program_and_args cmd = (case checked_argv cmd of
      Inl e \<Rightarrow> Inl e
    | Inr argv \<Rightarrow> Inr \<lparr>la_program = hd argv, la_args = tl argv, la_cwd = cm_cwd cmd\<rparr>)"

definition is_set :: "EnvOp \<Rightarrow> bool" where
  "is_set op = (case op of Set _ _ \<Rightarrow> True | _ \<Rightarrow> False)"

definition is_stdin :: "Auth \<Rightarrow> bool" where
  "is_stdin auth = (case auth of Stdin _ \<Rightarrow> True | _ \<Rightarrow> False)"

definition reject_structural_posix_config :: "Command \<Rightarrow> Backend \<Rightarrow> Auth \<Rightarrow> Error option" where
  "reject_structural_posix_config cmd backend auth = (case checked_argv cmd of
      Inl e \<Rightarrow> Some e
    | Inr argv \<Rightarrow>
        if backend = Pkexec \<and> program_starts_with_dash (hd argv)
          then Some (Unsupported (STR ''elevating a leading-dash program under pkexec'') (STR ''unix''))
        else if list_ex (\<lambda>(slot, _). 3 \<le> slot) (cm_fds cmd)
          then Some (Unsupported (STR ''fd >= 3 on an elevated POSIX child'') (STR ''unix''))
        else if list_ex (\<lambda>op. \<not> is_set op) (cm_env_ops cmd)
          then Some (Unsupported (STR ''.env_remove()/.env_clear() + elevate'') (STR ''unix''))
        else if list_ex is_set (cm_env_ops cmd) \<and> (backend = Doas \<or> backend = Pkexec)
          then Some (Unsupported (STR ''.env() + Backend::'' + debug_backend backend) (STR ''unix''))
        else if is_stdin auth \<and> map_of (cm_fds cmd) STDIN \<noteq> None
          then Some (Unsupported (STR ''Auth::Stdin with a caller-configured stdin'') (STR ''unix''))
        else None)"

definition reject_structural :: "Command \<Rightarrow> Os \<Rightarrow> Error option" where
  "reject_structural cmd os =
     (if is_macos_gui_auto os (er_backend (cm_elevation cmd)) (er_auth (cm_elevation cmd)) then reject_structural_gui_config cmd
      else reject_structural_posix_config cmd (er_backend (cm_elevation cmd)) (er_auth (cm_elevation cmd)))"

section \<open>The derived command\<close>

definition pinned_exec_path :: "nat \<Rightarrow> bytes" where
  "pinned_exec_path file = ascii ''/proc/self/fd/'' @ show_int (int file)"

definition transfer_process_attrs :: "Command \<Rightarrow> bytes option \<Rightarrow> Command \<Rightarrow> Command" where
  "transfer_process_attrs cmd cwd derived = (
     let derived = (case cwd of None \<Rightarrow> derived | Some d \<Rightarrow> current_dir d derived);
         derived = set_contain (cm_contain cmd) derived
     in kill_on_drop (cm_kill_on_drop cmd) derived)"

record PendingPassword =
  pp_writer :: nat
  pp_secret :: bytes

record PosixRewrite =
  pr_derived :: Command
  pr_report :: "ElevationReport option"
  pr_password_write :: "PendingPassword option"
  pr_backend_path :: "bytes option"

type_synonym rewritten = "Command \<times> (Error + PosixRewrite)"

definition sanitized :: "Command \<Rightarrow> (bytes \<times> bytes) list \<times> bytes list" where
  "sanitized cmd = apply_env (er_sanitizer (cm_elevation cmd)) (explicit_set_env (cm_env_ops cmd))"

definition elevate_macos_gui :: "Command \<Rightarrow> bytes \<Rightarrow> nat option \<Rightarrow> rewritten" where
  "elevate_macos_gui cmd osascript limit = (case Elevation_Macos.program_and_args cmd of
      Inl e \<Rightarrow> (cmd, Inl e)
    | Inr launch \<Rightarrow> (case build_rewrite cmd launch osascript limit of
          (cmd', Inl e) \<Rightarrow> (cmd', Inl e)
        | (cmd', Inr (derived, report)) \<Rightarrow>
            (cmd', Inr \<lparr>pr_derived = set_elevation_front (front (Some (el_via report))) derived, pr_report = Some report,
               pr_password_write = None, pr_backend_path = Some osascript\<rparr>)))"

definition run_as_is :: "Command \<Rightarrow> rewritten" where
  "run_as_is cmd = (case sanitized cmd of (kept, stripped) \<Rightarrow>
     (case checked_argv cmd of
        Inl e \<Rightarrow> (cmd, Inl e)
      | Inr argv \<Rightarrow>
          let derived = set_input_argv argv new_command;
              derived = set_env_ops (map (\<lambda>(k, v). Set k v) kept) derived;
              derived = transfer_process_attrs cmd (cm_cwd cmd) derived;
              derived = move_fds (\<lambda>_. False) (cm_fds cmd) derived
          in (cmd\<lparr>cm_fds := []\<rparr>, Inr \<lparr>pr_derived = derived,
                pr_report = Some \<lparr>el_via = AlreadyElevated, el_stripped_env = stripped, el_stdio = Passthrough\<rparr>,
                pr_password_write = None, pr_backend_path = None\<rparr>)))"

text \<open>What \<open>ElevatePosix\<close> checks before it builds anything: the descriptor of the pinned \<open>pkexec\<close>, if that is the backend.\<close>

definition checked_pin :: "Host \<Rightarrow> Backend \<Rightarrow> (bytes \<times> bytes) list \<Rightarrow> Error + nat option" where
  "checked_pin host backend kept =
     (if kept \<noteq> [] \<and> (backend = Doas \<or> backend = Pkexec)
        then Inl (Unsupported (STR ''.env() + Backend::'' + debug_backend backend + STR '' (resolved via Auto)'') (STR ''unix''))
      else if backend = Pkexec then
        (case version_refusal (pkexec_version host) of
           Some refusal \<Rightarrow> Inl refusal
         | None \<Rightarrow> (case pkexec_pin host of
               Some pin \<Rightarrow> Inr (Some pin)
             | None \<Rightarrow> Inl (Elevation BackendUnavailable)))
      else Inr None)"

definition new_env_ops :: "(bytes \<times> bytes) list \<Rightarrow> Auth \<Rightarrow> EnvOp list" where
  "new_env_ops kept auth = map (\<lambda>(k, v). Set k v) kept @
     (case auth of Askpass p \<Rightarrow> [Set (ascii ''SUDO_ASKPASS'') p] | _ \<Rightarrow> [])"

definition wrapper_command :: "Command \<Rightarrow> bytes list \<Rightarrow> nat option \<Rightarrow> EnvOp list \<Rightarrow> bytes option \<Rightarrow> Command" where
  "wrapper_command cmd argv pinned ops cwd = (
     let derived = set_input_argv argv new_command;
         derived = (case pinned of None \<Rightarrow> derived
           | Some pin \<Rightarrow> hold pin (set_executable_spec (Some (Exact (pinned_exec_path pin))) derived));
         derived = set_env_ops ops derived;
         derived = transfer_process_attrs cmd cwd derived
     in suppress_fd_marker derived)"

definition wire_password ::
  "String.literal \<Rightarrow> i32 + nat \<times> nat \<Rightarrow> Auth \<Rightarrow> Command \<Rightarrow> Error + Command \<times> PendingPassword option" where
  "wire_password os pipe auth derived = (case auth of
      Stdin secret \<Rightarrow> (case pipe of
          Inl e \<Rightarrow> Inl (Io e)
        | Inr (reader, writer) \<Rightarrow> (case cmd_fd os STDIN (Stdio_File reader) derived of
              Inl e \<Rightarrow> Inl e
            | Inr derived \<Rightarrow> Inr (derived, Some \<lparr>pp_writer = writer, pp_secret = secret\<rparr>)))
    | _ \<Rightarrow> Inr (derived, None))"

definition elevate_posix ::
  "String.literal \<Rightarrow> i32 + nat \<times> nat \<Rightarrow> Command \<Rightarrow> Host \<Rightarrow> Backend \<Rightarrow> bytes \<Rightarrow> Auth \<Rightarrow> rewritten option" where
  "elevate_posix os pipe cmd host backend path auth = (case sanitized cmd of (kept, stripped) \<Rightarrow>
     (case checked_pin host backend kept of
        Inl e \<Rightarrow> Some (cmd, Inl e)
      | Inr pinned \<Rightarrow> (case program_and_args cmd of
            Inl e \<Rightarrow> Some (cmd, Inl e)
          | Inr launch \<Rightarrow> (case build_argv backend path auth (la_program launch) (la_args launch) kept of
                None \<Rightarrow> None
              | Some (Inl e) \<Rightarrow> Some (cmd, Inl e)
              | Some (Inr argv) \<Rightarrow>
                  (case wire_password os pipe auth (wrapper_command cmd argv pinned (new_env_ops kept auth) (la_cwd launch)) of
                     Inl e \<Rightarrow> Some (cmd, Inl e)
                   | Inr (derived, password) \<Rightarrow>
                       let derived = move_fds (\<lambda>slot. password \<noteq> None \<and> slot = STDIN) (cm_fds cmd) derived;
                           via = Wrapped backend;
                           derived = set_elevation_front (front (Some via)) derived
                       in Some (cmd\<lparr>cm_fds := []\<rparr>, Inr \<lparr>pr_derived = derived,
                            pr_report = Some \<lparr>el_via = via, el_stripped_env = stripped,
                              el_stdio = (if is_stdin auth then StdinConsumed else Passthrough)\<rparr>,
                            pr_password_write = password,
                            pr_backend_path = Some (case pinned of None \<Rightarrow> path | Some pin \<Rightarrow> pinned_exec_path pin)\<rparr>))))))"

definition rewrite_with_host ::
  "String.literal \<Rightarrow> i32 + nat \<times> nat \<Rightarrow> Command \<Rightarrow> Host \<Rightarrow> rewritten option" where
  "rewrite_with_host os pipe cmd host = (case reject_structural cmd (host_os host) of
      Some e \<Rightarrow> Some (cmd, Inl e)
    | None \<Rightarrow> (case plan host Elevated (er_backend (cm_elevation cmd)) (er_auth (cm_elevation cmd)) of
          Reject error \<Rightarrow> Some (cmd, Inl error)
        | ElevateWindows _ \<Rightarrow> None
        | ElevateMacosGui osascript limit \<Rightarrow> Some (elevate_macos_gui cmd osascript limit)
        | RunAsIs \<Rightarrow> Some (run_as_is cmd)
        | ElevatePosix backend path auth \<Rightarrow> elevate_posix os pipe cmd host backend path auth))"

text \<open>\<open>detect\<close> is \<^verbatim>\<open>Host::detect\<close>: what detection found for this request.\<close>

definition rewrite :: "String.literal \<Rightarrow> i32 + nat \<times> nat \<Rightarrow> Os \<Rightarrow> (Backend \<Rightarrow> Auth \<Rightarrow> Host) \<Rightarrow> Command \<Rightarrow> rewritten option" where
  "rewrite os pipe this_os detect cmd = (case reject_structural cmd this_os of
      Some e \<Rightarrow> Some (cmd, Inl e)
    | None \<Rightarrow> rewrite_with_host os pipe cmd (detect (er_backend (cm_elevation cmd)) (er_auth (cm_elevation cmd))))"

section \<open>Shape of a rewrite\<close>

lemma new_command_fields [simp]:
  "cm_fds new_command = []" "cm_executable new_command = None" "cm_env_ops new_command = []" "cm_cwd new_command = None"
  "cm_held new_command = []" "cm_elevation_front new_command = None" "cm_elevation new_command = default_elevation"
  "\<not> cm_fd_marker_suppressed new_command"
  by (simp_all add: new_command_def)

lemma transfer_fields [simp]:
  "cm_input (transfer_process_attrs cmd cwd d) = cm_input d" "cm_executable (transfer_process_attrs cmd cwd d) = cm_executable d"
  "cm_env_ops (transfer_process_attrs cmd cwd d) = cm_env_ops d" "cm_fds (transfer_process_attrs cmd cwd d) = cm_fds d"
  "cm_held (transfer_process_attrs cmd cwd d) = cm_held d" "cm_elevation_front (transfer_process_attrs cmd cwd d) = cm_elevation_front d"
  "cm_cwd (transfer_process_attrs cmd cwd d) = (case cwd of None \<Rightarrow> cm_cwd d | Some w \<Rightarrow> Some w)"
  "cm_contain (transfer_process_attrs cmd cwd d) = cm_contain cmd"
  "cm_kill_on_drop (transfer_process_attrs cmd cwd d) = cm_kill_on_drop cmd"
  by (simp_all add: transfer_process_attrs_def set_contain_def current_dir_def kill_on_drop_def split: option.splits)

lemma cwd_default [simp]: "(case cwd of None \<Rightarrow> None | Some w \<Rightarrow> Some w) = cwd"
  by (simp split: option.splits)

lemma wrapper_fields [simp]:
  "cm_input (wrapper_command cmd argv pinned ops cwd) = Argv argv"
  "cm_executable (wrapper_command cmd argv pinned ops cwd) = map_option (\<lambda>pin. Exact (pinned_exec_path pin)) pinned"
  "cm_held (wrapper_command cmd argv pinned ops cwd) = (case pinned of None \<Rightarrow> [] | Some pin \<Rightarrow> [pin])"
  "cm_env_ops (wrapper_command cmd argv pinned ops cwd) = ops" "cm_fds (wrapper_command cmd argv pinned ops cwd) = []"
  "cm_cwd (wrapper_command cmd argv pinned ops cwd) = cwd" "cm_contain (wrapper_command cmd argv pinned ops cwd) = cm_contain cmd"
  "cm_kill_on_drop (wrapper_command cmd argv pinned ops cwd) = cm_kill_on_drop cmd"
  by (simp_all add: wrapper_command_def Let_def set_input_argv_def hold_def set_executable_spec_def set_env_ops_def
      suppress_fd_marker_def split: option.splits)

lemma wire_password_Inr:
  "wire_password os pipe auth d = Inr (d', pw) \<longleftrightarrow> (case auth of
     Stdin secret \<Rightarrow> \<exists>reader writer. pipe = Inr (reader, writer) \<and> d' = insert_fd STDIN (File reader) d \<and>
       pw = Some \<lparr>pp_writer = writer, pp_secret = secret\<rparr>
   | _ \<Rightarrow> d' = d \<and> pw = None)"
  by (auto simp: wire_password_def cmd_fd_def resolve_stdio_def split: Auth.splits sum.splits)

lemma checked_pin_Inr:
  "checked_pin h b kept = Inr pinned \<longleftrightarrow> (kept = [] \<or> b \<noteq> Doas \<and> b \<noteq> Pkexec) \<and>
     (if b = Pkexec then version_refusal (pkexec_version h) = None \<and> pinned \<noteq> None \<and> pkexec_pin h = pinned else pinned = None)"
  by (auto simp: checked_pin_def split: option.splits)

text \<open>A rewrite that succeeds, in the arm of a real front.\<close>

lemma elevate_posix_Inr:
  assumes "elevate_posix os pipe cmd h b path auth = Some (cmd', Inr r)"
  obtains kept stripped pinned argv ws d pw where "sanitized cmd = (kept, stripped)" "checked_pin h b kept = Inr pinned"
    "checked_argv cmd = Inr argv" "build_argv b path auth (hd argv) (tl argv) kept = Some (Inr ws)"
    "wire_password os pipe auth (wrapper_command cmd ws pinned (new_env_ops kept auth) (cm_cwd cmd)) = Inr (d, pw)"
    "cmd' = cmd\<lparr>cm_fds := []\<rparr>"
    "pr_derived r = set_elevation_front (front (Some (Wrapped b))) (move_fds (\<lambda>slot. pw \<noteq> None \<and> slot = STDIN) (cm_fds cmd) d)"
    "pr_report r = Some \<lparr>el_via = Wrapped b, el_stripped_env = stripped,
       el_stdio = (if is_stdin auth then StdinConsumed else Passthrough)\<rparr>"
    "pr_password_write r = pw"
    "pr_backend_path r = Some (case pinned of None \<Rightarrow> path | Some pin \<Rightarrow> pinned_exec_path pin)"
proof -
  obtain kept stripped where k: "sanitized cmd = (kept, stripped)" by fastforce
  from assms obtain pinned where p: "checked_pin h b kept = Inr pinned"
    by (auto simp: elevate_posix_def k split: sum.splits)
  from assms obtain argv where a: "checked_argv cmd = Inr argv"
    by (auto simp: elevate_posix_def k p program_and_args_def split: sum.splits)
  then have l: "program_and_args cmd = Inr \<lparr>la_program = hd argv, la_args = tl argv, la_cwd = cm_cwd cmd\<rparr>"
    by (simp add: program_and_args_def)
  from assms obtain ws where w: "build_argv b path auth (hd argv) (tl argv) kept = Some (Inr ws)"
    by (auto simp: elevate_posix_def k p l split: sum.splits option.splits)
  from assms obtain d pw where d: "wire_password os pipe auth (wrapper_command cmd ws pinned (new_env_ops kept auth) (cm_cwd cmd)) = Inr (d, pw)"
    by (auto simp: elevate_posix_def k p l w split: sum.splits)
  from assms show ?thesis
    by (intro that [OF k p a w d]) (auto simp: elevate_posix_def k p l w d Let_def)
qed

section \<open>Every rewrite ends\<close>

lemma front_options_not_Auto: "b \<noteq> Auto \<Longrightarrow> front_options b auth env \<noteq> None"
  by (cases b) (auto simp: front_options_def)

lemma build_argv_total: "b \<noteq> Auto \<Longrightarrow> build_argv b path auth program args env \<noteq> None"
  using front_options_not_Auto [of b auth env] by (auto simp: build_argv_def split: option.splits sum.splits)

definition leaves_caller :: "Command \<Rightarrow> rewritten \<Rightarrow> bool" where
  "leaves_caller cmd res = (case res of (cmd', Inl e) \<Rightarrow> cmd' = cmd | (cmd', Inr r) \<Rightarrow> cmd' = cmd\<lparr>cm_fds := []\<rparr>)"

lemma elevate_posix_total:
  assumes "b \<noteq> Auto"
  shows "\<exists>res. elevate_posix os pipe cmd h b path auth = Some res \<and> leaves_caller cmd res"
proof (cases "elevate_posix os pipe cmd h b path auth")
  case None
  then show ?thesis
    by (auto simp: elevate_posix_def Let_def build_argv_total [OF assms] split: prod.splits sum.splits option.splits)
next
  case (Some res)
  obtain cmd' r where r: "res = (cmd', r)" by fastforce
  show ?thesis
  proof (cases r)
    case (Inl e)
    with Some r have "cmd' = cmd"
      by (auto simp: elevate_posix_def Let_def split: prod.splits sum.splits option.splits)
    with Some r Inl show ?thesis by (simp add: leaves_caller_def)
  next
    case (Inr s)
    with Some r have "elevate_posix os pipe cmd h b path auth = Some (cmd', Inr s)" by simp
    then have "cmd' = cmd\<lparr>cm_fds := []\<rparr>" by (rule elevate_posix_Inr)
    with Some r Inr show ?thesis by (simp add: leaves_caller_def)
  qed
qed

lemma elevate_macos_gui_leaves: "leaves_caller cmd (elevate_macos_gui cmd osascript limit)"
  by (auto simp: leaves_caller_def elevate_macos_gui_def build_rewrite_def Let_def split: sum.splits)

lemma run_as_is_leaves: "leaves_caller cmd (run_as_is cmd)"
  by (auto simp: leaves_caller_def run_as_is_def Let_def split: sum.splits prod.splits)

lemma plan_not_Windows: "host_os h \<noteq> Windows \<Longrightarrow> plan h t b a \<noteq> ElevateWindows a'"
  by (auto simp: plan_def carry_out_def resolve_posix_def reject_backend_unavailable_def split: option.splits if_splits prod.splits)

text \<open>C29: the rewrite always answers on a Unix host: the arms the code marks as unreachable are. A refusal leaves the caller's
  command exactly as it was, and a success takes only its descriptors, so that the command can be used again.\<close>

theorem rewrite_answers:
  assumes "host_os h \<noteq> Windows"
  shows "\<exists>cmd' r. rewrite_with_host os pipe cmd h = Some (cmd', r) \<and>
    (case r of Inl e \<Rightarrow> cmd' = cmd | Inr _ \<Rightarrow> cmd' = cmd\<lparr>cm_fds := []\<rparr>)"
proof -
  let ?p = "plan h Elevated (er_backend (cm_elevation cmd)) (er_auth (cm_elevation cmd))"
  have "\<exists>res. rewrite_with_host os pipe cmd h = Some res \<and> leaves_caller cmd res"
  proof (cases "reject_structural cmd (host_os h)")
    case (Some e)
    then show ?thesis by (simp add: rewrite_with_host_def leaves_caller_def)
  next
    case None
    then show ?thesis
    proof (cases ?p)
      case (ElevatePosix b path auth)
      then have "b \<noteq> Auto" using resolve_backend_path [OF plan_ElevatePosix(7)] by blast
      with None ElevatePosix elevate_posix_total show ?thesis by (simp add: rewrite_with_host_def)
    next
      case (ElevateWindows a)
      with plan_not_Windows [OF assms] show ?thesis by blast
    qed (simp_all add: rewrite_with_host_def None elevate_macos_gui_leaves run_as_is_leaves, simp add: leaves_caller_def)
  qed
  then show ?thesis by (auto simp: leaves_caller_def split: sum.splits)
qed

theorem rewrite_answers_witness:
  "\<exists>cmd' r. rewrite_with_host (STR ''linux'') (Inl 24) (new_command\<lparr>cm_input := Argv [ascii ''/bin/e'']\<rparr>)
     \<lparr>elevated = False, has_tty = True, available = no_backends\<lparr>bs_doas := Some (ascii ''/d'')\<rparr>, host_os = Linux, arg_max = None,
       pkexec_version = NotProbed, pkexec_pin = None\<rparr> = Some (cmd', r)"
  (is "\<exists>cmd' r. rewrite_with_host _ _ _ ?h = _")
proof -
  have "host_os ?h \<noteq> Windows" by simp
  from rewrite_answers [OF this] show ?thesis by blast
qed

section \<open>The password\<close>

lemma auth_fields [simp]:
  "cm_input (elevation_auth a c) = cm_input c" "cm_executable (elevation_auth a c) = cm_executable c"
  "cm_fds (elevation_auth a c) = cm_fds c" "cm_env_ops (elevation_auth a c) = cm_env_ops c" "cm_cwd (elevation_auth a c) = cm_cwd c"
  "cm_contain (elevation_auth a c) = cm_contain c" "cm_kill_on_drop (elevation_auth a c) = cm_kill_on_drop c"
  "er_auth (cm_elevation (elevation_auth a c)) = a" "er_backend (cm_elevation (elevation_auth a c)) = er_backend (cm_elevation c)"
  "er_sanitizer (cm_elevation (elevation_auth a c)) = er_sanitizer (cm_elevation c)"
  by (simp_all add: elevation_auth_def)

lemma checked_argv_auth [simp]: "checked_argv (elevation_auth a c) = checked_argv c"
  unfolding checked_argv_def elevation_argv_def auth_fields ..

lemma auth_reads [simp]:
  "program_and_args (elevation_auth a c) = program_and_args c" "sanitized (elevation_auth a c) = sanitized c"
  "transfer_process_attrs (elevation_auth a c) = transfer_process_attrs c"
  "wrapper_command (elevation_auth a c) = wrapper_command c"
  unfolding program_and_args_def sanitized_def transfer_process_attrs_def wrapper_command_def fun_eq_iff auth_fields checked_argv_auth
  by (rule refl allI)+

lemma run_as_is_auth: "snd (run_as_is (elevation_auth a c)) = snd (run_as_is (elevation_auth a' c))"
  unfolding run_as_is_def auth_reads auth_fields checked_argv_auth
  by (simp add: Let_def split: prod.splits sum.splits)

text \<open>Everything of a rewrite but the password waiting for its pipe.\<close>

definition visible :: "PosixRewrite \<Rightarrow> Command \<times> ElevationReport option \<times> nat option \<times> bytes option" where
  "visible r = (pr_derived r, pr_report r, map_option pp_writer (pr_password_write r), pr_backend_path r)"

lemma plan_secret:
  "plan h t b (Stdin s) = (case plan h t b (Stdin s') of
     ElevatePosix b' p _ \<Rightarrow> ElevatePosix b' p (Stdin s) | ElevateWindows _ \<Rightarrow> ElevateWindows (Stdin s) | r \<Rightarrow> r)"
proof -
  have "structural h b (Stdin s) = structural h b (Stdin s')"
    unfolding structural_def structural_windows_def structural_posix_def asks_password_def is_macos_gui_auto_def Auth.case Let_def
    by simp
  then show ?thesis
    by (auto simp: plan_def carry_out_def is_macos_gui_auto_def resolve_posix_def reject_backend_unavailable_def split: option.splits)
qed

lemma elevate_posix_secret:
  "map_option (\<lambda>x. map_sum id visible (snd x)) (elevate_posix os pipe (elevation_auth (Stdin s) cmd) h b p (Stdin s)) =
   map_option (\<lambda>x. map_sum id visible (snd x)) (elevate_posix os pipe (elevation_auth (Stdin s') cmd) h b p (Stdin s'))"
proof -
  have a: "build_argv b p (Stdin s) pr as env = build_argv b p (Stdin s') pr as env" for pr as env
  proof -
    have "front_options b (Stdin s) env = front_options b (Stdin s') env"
      unfolding front_options_def auth_flag_def Auth.case by simp
    then show ?thesis by (simp add: build_argv_def)
  qed
  have o: "new_env_ops kept (Stdin s) = new_env_ops kept (Stdin s')" for kept
    by (simp add: new_env_ops_def)
  have w: "wire_password os pipe (Stdin x) d = (case pipe of Inl e \<Rightarrow> Inl (Io e)
      | Inr (reader, writer) \<Rightarrow> Inr (insert_fd STDIN (File reader) d, Some \<lparr>pp_writer = writer, pp_secret = x\<rparr>))" for x d
    by (simp add: wire_password_def cmd_fd_def resolve_stdio_def split: sum.splits)
  show ?thesis
    unfolding elevate_posix_def auth_reads auth_fields
    by (simp add: a o w Let_def visible_def is_stdin_def split: prod.splits sum.splits option.splits)
qed

text \<open>C28: the password never leaves its channel. What is spawned, its arguments, environment and descriptors, the report, and
  every refusal are the same for every password: only the bytes waiting for the pipe differ.\<close>

theorem secret_only_in_the_pipe:
  "map_option (\<lambda>x. map_sum id visible (snd x)) (rewrite_with_host os pipe (elevation_auth (Stdin s) cmd) h) =
   map_option (\<lambda>x. map_sum id visible (snd x)) (rewrite_with_host os pipe (elevation_auth (Stdin s') cmd) h)"
proof -
  have r: "reject_structural (elevation_auth (Stdin s) cmd) o' = reject_structural (elevation_auth (Stdin s') cmd) o'" for o'
    unfolding reject_structural_def reject_structural_posix_config_def auth_fields checked_argv_auth
      is_macos_gui_auto_def is_stdin_def Auth.case
    by simp
  have q: "plan h Elevated b (Stdin s) = ElevatePosix b' p a \<Longrightarrow> a = Stdin s" for b b' p a s
    using plan_ElevatePosix(4) by blast
  have m: "plan h Elevated b (Stdin s) \<noteq> ElevateMacosGui p l" for b p l s
    by (auto simp: plan_def carry_out_def is_macos_gui_auto_def resolve_posix_def reject_backend_unavailable_def
        split: option.splits if_splits prod.splits)
  show ?thesis
    unfolding rewrite_with_host_def r auth_fields
    using elevate_posix_secret [of os pipe s cmd h _ _ s'] run_as_is_auth [of "Stdin s" cmd "Stdin s'"]
    by (subst plan_secret [of h Elevated _ s s'])
      (auto split: option.splits Transition.splits dest: q simp: m)
qed

section \<open>The environment\<close>

text \<open>The value the last \<^verbatim>\<open>Set\<close> of a name gave it.\<close>

definition last_set :: "EnvOp list \<Rightarrow> bytes \<Rightarrow> bytes option" where
  "last_set ops k = (let vs = List.map_filter (\<lambda>op. case op of Set k' v \<Rightarrow> if k' = k then Some v else None | _ \<Rightarrow> None) ops
     in if vs = [] then None else Some (last vs))"

lemma explicit_set_env_snoc:
  "explicit_set_env (ops @ [op]) = (case op of Set k v \<Rightarrow> bt_insert k v (explicit_set_env ops) | _ \<Rightarrow> explicit_set_env ops)"
  by (cases op) (simp_all add: explicit_set_env_def)

lemma explicit_set_env_ok: "bt_ok (explicit_set_env ops)"
proof (induction ops rule: rev_induct)
  case Nil
  show ?case by (simp add: explicit_set_env_def)
next
  case (snoc op ops)
  then show ?case by (simp add: explicit_set_env_snoc bt_insert_ok split: EnvOp.splits)
qed

lemma explicit_set_env_last: "map_of (explicit_set_env ops) k = last_set ops k"
proof (induction ops rule: rev_induct)
  case Nil
  show ?case by (simp add: explicit_set_env_def last_set_def)
next
  case (snoc op ops)
  then show ?case
    using explicit_set_env_ok [of ops]
    by (cases op) (auto simp: explicit_set_env_snoc map_of_bt_insert last_set_def Let_def)
qed

lemma explicit_set_env_in: "(k, v) \<in> set (explicit_set_env ops) \<longleftrightarrow> last_set ops k = Some v"
  using explicit_set_env_last map_of_is_SomeI map_of_SomeD bt_ok_distinct [OF explicit_set_env_ok] by metis

lemma keep_default_in:
  "(k, v) \<in> set (fst (apply_env (keep_keys default_sanitizer keys) env)) \<longleftrightarrow> (k, v) \<in> set env \<and> (k \<in> set keys \<or> \<not> is_denied k)"
  by (auto simp: apply_env_eq keep_keys_def default_sanitizer_def keeps_def)

text \<open>The arm a successful rewrite took.\<close>

lemma rewrite_Inr_cases [consumes 1, case_names as_is macos posix]:
  assumes "rewrite_with_host os pipe cmd h = Some (cmd', Inr r)"
  obtains
    "run_as_is cmd = (cmd', Inr r)" "elevated h"
  | osascript where "elevate_macos_gui cmd osascript (arg_max h) = (cmd', Inr r)" "bs_osascript (available h) = Some osascript"
      "reject_structural_gui_config cmd = None" "er_auth (cm_elevation cmd) = Gui"
  | b path where "elevate_posix os pipe cmd h b path (er_auth (cm_elevation cmd)) = Some (cmd', Inr r)" "\<not> elevated h"
      "backend_path (available h) b = Some path" "b \<noteq> Auto"
      "reject_structural_posix_config cmd (er_backend (cm_elevation cmd)) (er_auth (cm_elevation cmd)) = None"
      "b = Pkexec \<longrightarrow> er_backend (cm_elevation cmd) = Pkexec"
proof -
  let ?b = "er_backend (cm_elevation cmd)" and ?a = "er_auth (cm_elevation cmd)"
  have g: "reject_structural cmd (host_os h) = None" using assms by (auto simp: rewrite_with_host_def split: option.splits)
  show ?thesis
  proof (cases "plan h Elevated ?b ?a")
    case RunAsIs
    then have "elevated h"
      by (auto simp: plan_def carry_out_def resolve_posix_def reject_backend_unavailable_def split: option.splits if_splits)
    with RunAsIs g assms that(1) show ?thesis by (simp add: rewrite_with_host_def)
  next
    case (ElevateMacosGui osascript limit)
    then have m: "is_macos_gui_auto (host_os h) ?b ?a" "bs_osascript (available h) = Some osascript" "limit = arg_max h"
      by (auto simp: plan_def carry_out_def resolve_posix_def reject_backend_unavailable_def split: option.splits if_splits)
    with g have "reject_structural_gui_config cmd = None" by (simp add: reject_structural_def)
    with ElevateMacosGui m g assms that(2) show ?thesis by (simp add: rewrite_with_host_def is_macos_gui_auto_def)
  next
    case (ElevatePosix b path auth)
    note p = plan_ElevatePosix [OF this]
    note rb = resolve_backend_path [OF p(7)]
    have "\<not> is_macos_gui_auto (host_os h) ?b ?a" using p(8,9) by (auto simp: is_macos_gui_auto_def)
    with g have "reject_structural_posix_config cmd ?b ?a = None" by (simp add: reject_structural_def)
    moreover have "elevate_posix os pipe cmd h b path ?a = Some (cmd', Inr r)"
      using assms g ElevatePosix p(4) by (simp add: rewrite_with_host_def)
    ultimately show ?thesis using that(3) p(2) rb by blast
  qed (use g assms in \<open>simp_all add: rewrite_with_host_def\<close>)
qed

lemma move_fds_env [simp]: "cm_env_ops (set_elevation_front f d) = cm_env_ops d" "cm_input (set_elevation_front f d) = cm_input d"
  "cm_executable (set_elevation_front f d) = cm_executable d" "cm_cwd (set_elevation_front f d) = cm_cwd d"
  "cm_held (set_elevation_front f d) = cm_held d" "cm_fds (set_elevation_front f d) = cm_fds d"
  "cm_kill_on_drop (set_elevation_front f d) = cm_kill_on_drop d" "cm_elevation_front (set_elevation_front f d) = f"
  "cm_contain (set_elevation_front f d) = cm_contain d"
  by (simp_all add: set_elevation_front_def)

lemma wire_password_fields:
  assumes "wire_password os pipe auth d = Inr (d', pw)"
  shows "cm_env_ops d' = cm_env_ops d" "cm_input d' = cm_input d" "cm_executable d' = cm_executable d" "cm_cwd d' = cm_cwd d"
    "cm_held d' = cm_held d" "cm_kill_on_drop d' = cm_kill_on_drop d" "cm_contain d' = cm_contain d"
  using assms by (auto simp: wire_password_Inr split: Auth.splits)

lemma run_as_is_Inr:
  assumes "run_as_is cmd = (cmd', Inr r)"
  obtains argv where "checked_argv cmd = Inr argv" "cm_input (pr_derived r) = Argv argv" "cm_executable (pr_derived r) = None"
    "cm_env_ops (pr_derived r) = map (\<lambda>(k, v). Set k v) (fst (sanitized cmd))" "cm_cwd (pr_derived r) = cm_cwd cmd"
    "cm_kill_on_drop (pr_derived r) = cm_kill_on_drop cmd" "cm_elevation_front (pr_derived r) = None"
    "cm_contain (pr_derived r) = cm_contain cmd"
    "cm_fds (pr_derived r) = cm_fds (move_fds (\<lambda>_. False) (cm_fds cmd) new_command)"
    "pr_report r = Some \<lparr>el_via = AlreadyElevated, el_stripped_env = snd (sanitized cmd), el_stdio = Passthrough\<rparr>"
    "pr_password_write r = None"
proof -
  obtain kept stripped where k: "sanitized cmd = (kept, stripped)" by fastforce
  from assms obtain argv where a: "checked_argv cmd = Inr argv" by (auto simp: run_as_is_def k split: sum.splits)
  define d where "d = transfer_process_attrs cmd (cm_cwd cmd) (set_env_ops (map (\<lambda>(k, v). Set k v) kept) (set_input_argv argv new_command))"
  from assms have m: "pr_derived r = move_fds (\<lambda>_. False) (cm_fds cmd) d"
    and rep: "pr_report r = Some \<lparr>el_via = AlreadyElevated, el_stripped_env = stripped, el_stdio = Passthrough\<rparr>" "pr_password_write r = None"
    by (auto simp: run_as_is_def k a Let_def d_def)
  have f: "cm_fds d = []" "cm_input d = Argv argv" "cm_env_ops d = map (\<lambda>(k, v). Set k v) kept" "cm_executable d = None"
    "cm_elevation_front d = None" "cm_cwd d = cm_cwd cmd" "cm_kill_on_drop d = cm_kill_on_drop cmd" "cm_contain d = cm_contain cmd"
    by (simp_all add: d_def set_env_ops_def set_input_argv_def split: option.splits)
  show ?thesis
    by (rule that [OF a]) (simp_all add: m rep k f move_fds_cong [of d new_command])
qed

text \<open>With the default policy, the environment given to the elevated program, or to the front that starts it, is exactly
  what the caller set, each name with its last value, without the names on the denylist that \<open>keep\<close> did not name; and
  \<open>SUDO_ASKPASS\<close> for a caller that chose an askpass program and needs a front. It only ever sets variables.\<close>

theorem rewrite_env:
  assumes "rewrite_with_host os pipe cmd h = Some (cmd', Inr r)" and "er_sanitizer (cm_elevation cmd) = keep_keys default_sanitizer keys"
  shows "op \<in> set (cm_env_ops (pr_derived r)) \<longleftrightarrow>
    (\<exists>k v. op = Set k v \<and> last_set (cm_env_ops cmd) k = Some v \<and> (k \<in> set keys \<or> \<not> is_denied k)) \<or>
    (\<exists>p. er_auth (cm_elevation cmd) = Askpass p \<and> \<not> elevated h \<and> op = Set (ascii ''SUDO_ASKPASS'') p)"
proof -
  have k: "op \<in> set (map (\<lambda>(k, v). Set k v) (fst (sanitized cmd))) \<longleftrightarrow>
      (\<exists>k v. op = Set k v \<and> last_set (cm_env_ops cmd) k = Some v \<and> (k \<in> set keys \<or> \<not> is_denied k))"
    by (auto simp: sanitized_def assms(2) keep_default_in explicit_set_env_in simp flip: explicit_set_env_in)
  from assms(1) show ?thesis
  proof (cases rule: rewrite_Inr_cases)
    case as_is
    from as_is(1) show ?thesis by (rule run_as_is_Inr) (use k as_is(2) in simp)
  next
    case (macos osascript)
    then have e: "cm_env_ops cmd = []" by (simp add: gui_gate_None)
    have "cm_env_ops (pr_derived r) = []"
      using macos(1) by (auto simp: elevate_macos_gui_def build_rewrite_def Let_def set_input_argv_def kill_on_drop_def current_dir_def
          split: sum.splits option.splits prod.splits)
    with e macos(4) show ?thesis by (simp add: last_set_def)
  next
    case (posix b path)
    from posix(1) show ?thesis
      by (rule elevate_posix_Inr) (use k posix(2) in \<open>auto simp: wire_password_fields new_env_ops_def split: Auth.splits\<close>)
  qed
qed

text \<open>A host with \<^verbatim>\<open>sudo\<close>, and a command that asks for it with a password.\<close>

definition demo_host :: Host where
  "demo_host = \<lparr>elevated = False, has_tty = False, available = no_backends\<lparr>bs_sudo := Some (ascii ''/s'')\<rparr>, host_os = Linux,
     arg_max = None, pkexec_version = NotProbed, pkexec_pin = None\<rparr>"

definition demo_command :: Command where
  "demo_command = elevation_auth (Stdin (ascii ''pw'')) (sanitize_env (keep_keys default_sanitizer [])
     (cmd_env (ascii ''LD_X'') [] (cmd_env (ascii ''A'') (ascii ''1'') (cmd_args [ascii ''e'', ascii ''-x''] new_command))))"

lemma demo_rewrite:
  obtains cmd' r where "rewrite_with_host (STR ''linux'') (Inr (7, 8)) demo_command demo_host = Some (cmd', Inr r)"
    "pr_report r = Some \<lparr>el_via = Wrapped Sudo, el_stripped_env = [ascii ''LD_X''], el_stdio = StdinConsumed\<rparr>"
proof -
  have "case rewrite_with_host (STR ''linux'') (Inr (7, 8)) demo_command demo_host of
      Some (_, Inr r) \<Rightarrow> pr_report r = Some \<lparr>el_via = Wrapped Sudo, el_stripped_env = [ascii ''LD_X''], el_stdio = StdinConsumed\<rparr>
    | _ \<Rightarrow> False" by code_simp
  then show ?thesis using that by (auto split: option.splits prod.splits sum.splits)
qed

theorem rewrite_env_witness:
  "\<exists>cmd' r. rewrite_with_host (STR ''linux'') (Inr (7, 8)) demo_command demo_host = Some (cmd', Inr r) \<and>
     Set (ascii ''A'') (ascii ''1'') \<in> set (cm_env_ops (pr_derived r)) \<and> Set (ascii ''LD_X'') [] \<notin> set (cm_env_ops (pr_derived r))"
proof -
  obtain cmd' r where r: "rewrite_with_host (STR ''linux'') (Inr (7, 8)) demo_command demo_host = Some (cmd', Inr r)"
    by (rule demo_rewrite)
  have s: "er_sanitizer (cm_elevation demo_command) = keep_keys default_sanitizer []" "\<not> is_denied (ascii ''A'')" "is_denied (ascii ''LD_X'')"
    "last_set (cm_env_ops demo_command) (ascii ''A'') = Some (ascii ''1'')"
    "case er_auth (cm_elevation demo_command) of Askpass _ \<Rightarrow> False | _ \<Rightarrow> True"
    by (simp add: demo_command_def elevation_auth_def sanitize_env_def) code_simp+
  have "Set (ascii ''A'') (ascii ''1'') \<in> set (cm_env_ops (pr_derived r))" unfolding rewrite_env [OF r s(1)] using s(2,4) by blast
  moreover have "Set (ascii ''LD_X'') [] \<notin> set (cm_env_ops (pr_derived r))" unfolding rewrite_env [OF r s(1)] using s(3,5) by auto
  ultimately show ?thesis using r by blast
qed

section \<open>What runs\<close>

lemma checked_argv_Inr: "checked_argv cmd = Inr argv \<longleftrightarrow> cm_executable cmd = None \<and> cm_input cmd = Argv argv \<and> argv \<noteq> []"
  by (simp add: checked_argv_def elevation_argv_Inr)

text \<open>What a derived command runs: the caller's program, by the means the report names. How the fronts, \<^verbatim>\<open>osascript\<close> and the
  shell read what they are given are parameters, the fields of a \<open>Readers\<close>.\<close>

record Readers =
  rd_fronts :: "Backend \<Rightarrow> bytes list \<Rightarrow> FrontRun option"
  rd_osascript :: "bytes \<Rightarrow> bytes option"
  rd_shell :: "bytes \<Rightarrow> ShToken list option"

definition readers_documented :: "Readers \<Rightarrow> bool" where
  "readers_documented rd \<longleftrightarrow>
     fronts_documented (rd_fronts rd) \<and> osascript_documented (rd_osascript rd) \<and> shell_documented (rd_shell rd)"

definition runs_program :: "Readers \<Rightarrow> Host \<Rightarrow> ElevatedVia \<Rightarrow> Command \<Rightarrow> bytes list \<Rightarrow> Command \<Rightarrow> bool" where
  "runs_program rd h via cmd argv d = (case via of
      AlreadyElevated \<Rightarrow> elevated h \<and> cm_input d = Argv argv \<and> cm_executable d = None
    | Wrapped b \<Rightarrow> \<not> elevated h \<and> (\<exists>path ws. backend_path (available h) b = Some path \<and> cm_input d = Argv (path # ws) \<and>
        rd_fronts rd b ws = Some (asked_run b (er_auth (cm_elevation cmd)) (fst (sanitized cmd)) argv) \<and>
        (if b = Pkexec then \<exists>pin. pkexec_pin h = Some pin \<and> version_refusal (pkexec_version h) = None \<and>
            cm_executable d = Some (Exact (pinned_exec_path pin)) \<and> cm_held d = [pin]
         else cm_executable d = None))
    | MacosOsascript \<Rightarrow> (\<exists>path script text. bs_osascript (available h) = Some path \<and> cm_input d = Argv [path, ascii ''-e'', script] \<and>
        rd_osascript rd script = Some text \<and> rd_shell rd text = Some (exec_words (cm_cwd cmd) argv))
    | WindowsUac \<Rightarrow> False)"

lemma posix_gate_dash:
  assumes "reject_structural_posix_config cmd b auth = None" and "checked_argv cmd = Inr argv"
  shows "b = Pkexec \<Longrightarrow> \<not> program_starts_with_dash (hd argv)"
  using assms by (auto simp: reject_structural_posix_config_def split: if_splits)

lemma macos_gui_Inr:
  assumes "elevate_macos_gui cmd osascript limit = (cmd', Inr r)"
  obtains launch derived report where "Elevation_Macos.program_and_args cmd = Inr launch"
    "build_rewrite cmd launch osascript limit = (cmd', Inr (derived, report))"
    "pr_derived r = set_elevation_front (front (Some (el_via report))) derived" "pr_report r = Some report"
    "pr_password_write r = None"
  using assms by (auto simp: elevate_macos_gui_def split: sum.splits prod.splits)

lemma build_rewrite_Inr:
  assumes "build_rewrite cmd launch osascript limit = (cmd', Inr (derived, report))"
  shows "el_via report = MacosOsascript" "cm_kill_on_drop derived = cm_kill_on_drop cmd" "cm_executable derived = None"
    "cm_fds derived = cm_fds (move_fds (\<lambda>_. False) (cm_fds cmd) new_command)"
  using assms
  by (auto simp: build_rewrite_def Let_def set_input_argv_def kill_on_drop_def current_dir_def split: sum.splits option.splits
      intro!: move_fds_cong)

lemma rewrite_runs_reported:
  assumes rd: "readers_documented rd" and "rewrite_with_host os pipe cmd h = Some (cmd', Inr r)"
  shows "\<exists>argv rep. cm_input cmd = Argv argv \<and> pr_report r = Some rep \<and>
    runs_program rd h (el_via rep) cmd argv (pr_derived r) \<and> cm_cwd (pr_derived r) = cm_cwd cmd \<and>
    cm_kill_on_drop (pr_derived r) = cm_kill_on_drop cmd \<and> cm_elevation_front (pr_derived r) = front (Some (el_via rep))"
  using assms(2)
proof (cases rule: rewrite_Inr_cases)
  case as_is
  from as_is(1) show ?thesis
    by (rule run_as_is_Inr) (use as_is(2) in \<open>simp add: checked_argv_Inr runs_program_def front_def\<close>)
next
  case (macos osascript)
  from macos(1) show ?thesis
  proof (rule macos_gui_Inr)
    fix launch derived report
    assume l: "Elevation_Macos.program_and_args cmd = Inr launch"
      and b: "build_rewrite cmd launch osascript (arg_max h) = (cmd', Inr (derived, report))"
      and r: "pr_derived r = set_elevation_front (front (Some (el_via report))) derived" "pr_report r = Some report"
    from osascript_runs_only_the_program [OF macos(3) l b] rd obtain argv where i: "cm_input cmd = Argv argv"
      and c: "cm_cwd derived = cm_cwd cmd" and x: "runs_program rd h MacosOsascript cmd argv derived"
      using macos(2) unfolding runs_program_def readers_documented_def ElevatedVia.case by blast
    from x have "runs_program rd h MacosOsascript cmd argv (pr_derived r)"
      unfolding runs_program_def r ElevatedVia.case move_fds_env .
    with i c r(2) build_rewrite_Inr [OF b] show ?thesis unfolding r(1) by auto
  qed
next
  case (posix b path)
  from posix(1) show ?thesis
  proof (rule elevate_posix_Inr)
    fix kept stripped pinned argv ws d pw
    assume k: "sanitized cmd = (kept, stripped)" and a: "checked_argv cmd = Inr argv" and p: "checked_pin h b kept = Inr pinned"
      and w: "build_argv b path (er_auth (cm_elevation cmd)) (hd argv) (tl argv) kept = Some (Inr ws)"
      and d: "wire_password os pipe (er_auth (cm_elevation cmd)) (wrapper_command cmd ws pinned
        (new_env_ops kept (er_auth (cm_elevation cmd))) (cm_cwd cmd)) = Inr (d, pw)"
      and r: "pr_derived r = set_elevation_front (front (Some (Wrapped b))) (move_fds (\<lambda>slot. pw \<noteq> None \<and> slot = STDIN) (cm_fds cmd) d)"
        "pr_report r = Some \<lparr>el_via = Wrapped b, el_stripped_env = stripped,
          el_stdio = (if is_stdin (er_auth (cm_elevation cmd)) then StdinConsumed else Passthrough)\<rparr>"
    from posix_gate_dash [OF posix(5) a] posix(6) have n: "b = Pkexec \<Longrightarrow> \<not> program_starts_with_dash (hd argv)" by blast
    from a have c: "cm_input cmd = Argv argv" "hd argv # tl argv = argv" by (simp_all add: checked_argv_Inr)
    from build_argv_read [OF _ w n] rd c(2) obtain t where "ws = path # t"
      "rd_fronts rd b t = Some (asked_run b (er_auth (cm_elevation cmd)) kept argv)"
      unfolding readers_documented_def by auto
    with p k c(1) posix(2,3) show ?thesis
      unfolding r runs_program_def checked_pin_Inr
      by (auto simp: wire_password_fields [OF d] split: if_splits)
  qed
qed

lemma rewrite_runs:
  assumes "rewrite_with_host os pipe cmd h = Some (cmd', Inr r)" and "pr_report r = Some rep" and "readers_documented rd"
  shows "\<exists>argv. cm_input cmd = Argv argv \<and> runs_program rd h (el_via rep) cmd argv (pr_derived r)"
  using rewrite_runs_reported [OF assms(3,1)] assms(2) by auto

text \<open>Readers that do what is documented.\<close>

definition demo_readers :: Readers where
  "demo_readers = \<lparr>rd_fronts = demo_fronts, rd_osascript = demo_osascript, rd_shell = demo_shell\<rparr>"

lemma demo_readers_documented: "readers_documented demo_readers"
  by (simp add: readers_documented_def demo_readers_def demo_fronts_documented demo_osascript_documented demo_shell_documented)

text \<open>C27: a rewrite runs the caller's program with the caller's arguments, by the means it reports, whenever the fronts,
  \<open>osascript\<close> and the shell read their input as documented: as it is for an elevated caller; through the front that was found,
  which reads from its command line exactly the caller's argv, the authentication the caller chose, the names of the variables
  that are forwarded, and that the directory is kept, and for \<open>pkexec\<close> through the very file that detection opened and
  whose version it accepted; or through \<open>osascript\<close>, whose script the shell reads as an \<open>exec\<close> of exactly those words in the
  caller's directory. The directory and \<open>kill_on_drop\<close> are kept, and the child is marked with the front that a kill must not
  signal.\<close>

theorem rewrite_runs_the_program:
  assumes "readers_documented rd" and "rewrite_with_host os pipe cmd h = Some (cmd', Inr r)"
  shows "\<exists>argv rep. cm_input cmd = Argv argv \<and> pr_report r = Some rep \<and>
    runs_program rd h (el_via rep) cmd argv (pr_derived r) \<and> cm_cwd (pr_derived r) = cm_cwd cmd \<and>
    cm_kill_on_drop (pr_derived r) = cm_kill_on_drop cmd \<and> cm_elevation_front (pr_derived r) = front (Some (el_via rep))"
  using rewrite_runs_reported [OF assms] .

theorem rewrite_runs_the_program_witness:
  "\<exists>cmd' r rep. rewrite_with_host (STR ''linux'') (Inr (7, 8)) demo_command demo_host = Some (cmd', Inr r) \<and>
     pr_report r = Some rep \<and> runs_program demo_readers demo_host (el_via rep) demo_command [ascii ''e'', ascii ''-x''] (pr_derived r)"
proof -
  obtain cmd' r where r: "rewrite_with_host (STR ''linux'') (Inr (7, 8)) demo_command demo_host = Some (cmd', Inr r)"
    by (rule demo_rewrite)
  have c: "cm_input demo_command = Argv [ascii ''e'', ascii ''-x'']" by code_simp
  from rewrite_runs_the_program [OF demo_readers_documented r] r show ?thesis unfolding c by auto
qed

section \<open>Descriptors\<close>

lemma rewrite_Inr_gate: "rewrite_with_host os pipe cmd h = Some (cmd', Inr r) \<Longrightarrow> reject_structural cmd (host_os h) = None"
  by (auto simp: rewrite_with_host_def split: option.splits)

lemma gate_fds:
  assumes "reject_structural cmd o' = None" and "(slot, res) \<in> set (cm_fds cmd)"
  shows "slot < 3"
  using assms
  by (auto simp: reject_structural_def gui_gate_None gui_fds_refusal_None reject_structural_posix_config_def list_ex_iff
      split: if_splits sum.splits)

lemma moved_to_new:
  assumes "bt_ok fds"
  shows "map_of (cm_fds (move_fds (\<lambda>_. False) fds new_command)) slot = map_of fds slot"
  using move_fds_map [of new_command fds "\<lambda>_. False" slot] bt_ok_distinct [OF assms] by (simp split: option.splits)

lemma rewrite_fds:
  assumes "command_ok cmd" and "rewrite_with_host os pipe cmd h = Some (cmd', Inr r)"
  shows "map_of (cm_fds (pr_derived r)) slot =
      (if slot = STDIN \<and> pr_password_write r \<noteq> None then (case pipe of Inr (reader, _) \<Rightarrow> Some (File reader) | Inl _ \<Rightarrow> None)
       else map_of (cm_fds cmd) slot)"
    and "map_of (cm_fds (pr_derived r)) slot \<noteq> None \<Longrightarrow> 0 \<le> slot \<and> slot < 3"
proof -
  have ok: "bt_ok (cm_fds cmd)" using assms(1) by (simp add: command_ok_def)
  from assms(2) show m: "map_of (cm_fds (pr_derived r)) slot =
      (if slot = STDIN \<and> pr_password_write r \<noteq> None then (case pipe of Inr (reader, _) \<Rightarrow> Some (File reader) | Inl _ \<Rightarrow> None)
       else map_of (cm_fds cmd) slot)"
  proof (cases rule: rewrite_Inr_cases)
    case as_is
    from as_is(1) show ?thesis by (rule run_as_is_Inr) (simp add: moved_to_new [OF ok])
  next
    case (macos osascript)
    from macos(1) show ?thesis
      by (rule macos_gui_Inr) (simp add: build_rewrite_Inr(4) moved_to_new [OF ok])
  next
    case (posix b path)
    have g: "is_stdin (er_auth (cm_elevation cmd)) \<Longrightarrow> map_of (cm_fds cmd) STDIN = None"
      using posix(5) by (auto simp: reject_structural_posix_config_def split: sum.splits if_splits)
    from posix(1) show ?thesis
    proof (rule elevate_posix_Inr)
      fix kept pinned ws d pw
      assume d: "wire_password os pipe (er_auth (cm_elevation cmd)) (wrapper_command cmd ws pinned
          (new_env_ops kept (er_auth (cm_elevation cmd))) (cm_cwd cmd)) = Inr (d, pw)"
        and r: "pr_derived r = set_elevation_front (front (Some (Wrapped b))) (move_fds (\<lambda>slot. pw \<noteq> None \<and> slot = STDIN) (cm_fds cmd) d)"
          "pr_password_write r = pw"
      show ?thesis
      proof (cases "is_stdin (er_auth (cm_elevation cmd))")
        case True
        with d obtain reader writer where w: "pipe = Inr (reader, writer)" "pw \<noteq> None" "cm_fds d = [(STDIN, File reader)]"
          by (auto simp: wire_password_Inr is_stdin_def insert_fd_def split: Auth.splits)
        then have "bt_ok (cm_fds d)" by (simp add: bt_ok_def)
        from move_fds_map [OF this bt_ok_distinct [OF ok], of "\<lambda>slot. pw \<noteq> None \<and> slot = STDIN" slot] w g [OF True]
        show ?thesis unfolding r by (auto split: option.splits)
      next
        case False
        with d have w: "pw = None" "cm_fds d = []" by (auto simp: wire_password_Inr is_stdin_def split: Auth.splits)
        from move_fds_cong [of d new_command] w moved_to_new [OF ok] show ?thesis unfolding r by simp
      qed
    qed
  qed
  assume "map_of (cm_fds (pr_derived r)) slot \<noteq> None"
  moreover have "0 \<le> s \<and> s < 3" if "map_of (cm_fds cmd) s \<noteq> None" for s
  proof -
    from that obtain res where "(s, res) \<in> set (cm_fds cmd)" by (auto dest: map_of_SomeD)
    with assms(1) gate_fds [OF rewrite_Inr_gate [OF assms(2)]] show ?thesis by (auto simp: command_ok_def list_all_iff)
  qed
  ultimately show "0 \<le> slot \<and> slot < 3" unfolding m by (auto split: if_splits)
qed

text \<open>The descriptors of a rewrite are the caller's, each with the same target, and all of them below 3, where a front
  passes them on; a password's pipe takes standard input, which the caller then had not configured.\<close>

theorem rewrite_descriptors:
  assumes "command_ok cmd" and "rewrite_with_host os pipe cmd h = Some (cmd', Inr r)"
  shows "map_of (cm_fds (pr_derived r)) slot =
      (if slot = STDIN \<and> pr_password_write r \<noteq> None then (case pipe of Inr (reader, _) \<Rightarrow> Some (File reader) | Inl _ \<Rightarrow> None)
       else map_of (cm_fds cmd) slot) \<and>
    (map_of (cm_fds (pr_derived r)) slot \<noteq> None \<longrightarrow> 0 \<le> slot \<and> slot < 3)"
  using rewrite_fds [OF assms] by blast

theorem rewrite_descriptors_witness:
  "\<exists>cmd' r. rewrite_with_host (STR ''linux'') (Inr (7, 8)) demo_command demo_host = Some (cmd', Inr r) \<and>
     map_of (cm_fds (pr_derived r)) STDIN = (if pr_password_write r \<noteq> None then Some (File 7) else None)"
proof -
  obtain cmd' r where r: "rewrite_with_host (STR ''linux'') (Inr (7, 8)) demo_command demo_host = Some (cmd', Inr r)"
    by (rule demo_rewrite)
  have c: "command_ok demo_command"
    by (simp add: demo_command_def elevation_auth_def sanitize_env_def cmd_env_def cmd_args_def new_command_def command_ok_def default_flags_def)
  have n: "map_of (cm_fds demo_command) STDIN = None" by code_simp
  from rewrite_descriptors [OF c r, of STDIN] r n show ?thesis by (auto split: if_splits)
qed

end
