(* ===== verification/Elevation_Detect.thy ===== *)
theory Elevation_Detect
  imports Elevation_Rewrite
begin

text \<open>
  Detection on Unix, from \<^verbatim>\<open>src/src/elevation/posix.rs\<close>: which fronts are on the \<^verbatim>\<open>PATH\<close>, and the \<^verbatim>\<open>pkexec\<close> that is opened and asked its
  version; and what a rewrite on a detected host launches. What the system answers is the record \<open>DetectWorld\<close>: whether a
  file is executable, the real file of a path, the descriptor of an opened file, what \<^verbatim>\<open>--version\<close> of a descriptor printed, the
  terminal, the \<^verbatim>\<open>kern.argmax\<close>, and the text of an errno.
\<close>

record DetectWorld =
  dw_executable :: "bytes \<Rightarrow> bool"
  dw_canonicalize :: "bytes \<Rightarrow> i32 + bytes"
  dw_pin :: "bytes \<Rightarrow> i32 + nat"
  dw_probe :: "bytes \<Rightarrow> nat \<Rightarrow> PkexecVersion"
  dw_tty :: bool
  dw_argmax :: "nat option"
  dw_error_text :: "i32 \<Rightarrow> bytes"

text \<open>\<^verbatim>\<open>std::env::split_paths\<close>, and \<^verbatim>\<open>Path::join\<close> of an absolute directory with a name.\<close>

definition split_paths :: "bytes \<Rightarrow> bytes list" where
  "split_paths path_var = split_on (\<lambda>b. b = 0x3A) path_var"

definition join_name :: "bytes \<Rightarrow> bytes \<Rightarrow> bytes" where
  "join_name dir program = (if last dir = SLASH then dir @ program else dir @ [SLASH] @ program)"

primrec find_in_dirs :: "DetectWorld \<Rightarrow> bytes list \<Rightarrow> bytes \<Rightarrow> bytes option" where
  "find_in_dirs w [] program = None"
| "find_in_dirs w (dir # dirs) program =
     (if \<not> is_posix_absolute dir then find_in_dirs w dirs program
      else if dw_executable w (join_name dir program) then Some (join_name dir program)
      else find_in_dirs w dirs program)"

definition resolve_in_path_var :: "DetectWorld \<Rightarrow> bytes \<Rightarrow> bytes \<Rightarrow> bytes option" where
  "resolve_in_path_var w path_var program = find_in_dirs w (split_paths path_var) program"

definition pkexec_on :: "DetectWorld \<Rightarrow> bytes \<Rightarrow> ((bytes \<times> i32) + bytes) option" where
  "pkexec_on w path_var = (case resolve_in_path_var w path_var (ascii ''pkexec'') of
      None \<Rightarrow> None
    | Some found \<Rightarrow> Some (case dw_canonicalize w found of Inl e \<Rightarrow> Inl (found, e) | Inr real \<Rightarrow> Inr real))"

definition unresolved :: "bytes \<Rightarrow> bytes \<Rightarrow> PkexecVersion" where
  "unresolved found error = Unresolved (to_string_lossy found) error"

definition on_path :: "DetectWorld \<Rightarrow> bytes option \<Rightarrow> bytes \<Rightarrow> bytes option" where
  "on_path w path_var program = Option.bind path_var (\<lambda>p. resolve_in_path_var w p program)"

definition detect_pkexec ::
  "DetectWorld \<Rightarrow> bytes option \<Rightarrow> Os \<Rightarrow> bool \<Rightarrow> Backend \<Rightarrow> Auth \<Rightarrow> bytes option \<times> nat option \<times> PkexecVersion" where
  "detect_pkexec w path_var os elev backend auth =
     (if \<not> launches_pkexec os backend auth elev then (on_path w path_var (ascii ''pkexec''), None, NotProbed)
      else (case Option.bind path_var (pkexec_on w) of
          None \<Rightarrow> (None, None, NotProbed)
        | Some (Inl (found, e)) \<Rightarrow> (None, None, unresolved found (dw_error_text w e))
        | Some (Inr real) \<Rightarrow> (case dw_pin w real of
              Inr pinned \<Rightarrow> (Some real, Some pinned, dw_probe w real pinned)
            | Inl e \<Rightarrow> (None, None,
                unresolved real (ascii ''opening '' @ to_string_lossy real @ ascii '': '' @ dw_error_text w e)))))"

text \<open>\<open>macos\<close> is \<^verbatim>\<open>cfg!(target_os = "macos")\<close>.\<close>

definition detect_with :: "bool \<Rightarrow> DetectWorld \<Rightarrow> bytes option \<Rightarrow> Os \<Rightarrow> bool \<Rightarrow> Backend \<Rightarrow> Auth \<Rightarrow> Host" where
  "detect_with macos w path_var os elev backend auth = (
     case detect_pkexec w path_var os elev backend auth of (pkexec, pin, version) \<Rightarrow>
       \<lparr>elevated = elev, has_tty = dw_tty w,
        available = \<lparr>bs_sudo = on_path w path_var (ascii ''sudo''), bs_doas = on_path w path_var (ascii ''doas''), bs_pkexec = pkexec,
          bs_osascript = (if macos \<and> dw_executable w (ascii ''/usr/bin/osascript'') then Some (ascii ''/usr/bin/osascript'') else None)\<rparr>,
        host_os = os, arg_max = (if macos then dw_argmax w else None), pkexec_version = version, pkexec_pin = pin\<rparr>)"

section \<open>What is found\<close>

lemma find_in_dirs_Some:
  "find_in_dirs w dirs program = Some p \<Longrightarrow>
     \<exists>dir\<in>set dirs. is_posix_absolute dir \<and> p = join_name dir program \<and> dw_executable w p"
  by (induction dirs) (auto split: if_splits)

lemma on_path_Some:
  assumes "on_path w path_var program = Some p"
  shows "\<exists>pv dir. path_var = Some pv \<and> dir \<in> set (split_paths pv) \<and> is_posix_absolute dir \<and> p = join_name dir program \<and> dw_executable w p"
  using assms find_in_dirs_Some by (fastforce simp: on_path_def bind_eq_Some_conv resolve_in_path_var_def)

lemma detect_pkexec_pinned:
  assumes "detect_pkexec w path_var os elev b a = (Some p, Some pin, v)"
  shows "\<exists>found. on_path w path_var (ascii ''pkexec'') = Some found \<and> dw_canonicalize w found = Inr p \<and>
    dw_pin w p = Inr pin \<and> v = dw_probe w p pin"
  using assms
  by (auto simp: detect_pkexec_def pkexec_on_def on_path_def bind_eq_Some_conv unresolved_def split: if_splits option.splits sum.splits)

text \<open>The path of a front, and the file of it that runs.\<close>

definition trusted_front :: "DetectWorld \<Rightarrow> bytes option \<Rightarrow> Backend \<Rightarrow> bytes \<Rightarrow> ExecutableSpec option \<Rightarrow> bool" where
  "trusted_front w path_var b path exec \<longleftrightarrow> (\<exists>pv dir found. path_var = Some pv \<and> dir \<in> set (split_paths pv) \<and> is_posix_absolute dir \<and>
     found = join_name dir (ascii (case b of Sudo \<Rightarrow> ''sudo'' | Doas \<Rightarrow> ''doas'' | _ \<Rightarrow> ''pkexec'')) \<and> dw_executable w found \<and>
     (if b = Pkexec then dw_canonicalize w found = Inr path \<and> (\<exists>pin. dw_pin w path = Inr pin \<and>
          exec = Some (Exact (pinned_exec_path pin)) \<and> version_refusal (dw_probe w path pin) = None)
      else path = found \<and> exec = None))"

text \<open>An elevation launches only a front found on an absolute directory of the \<open>PATH\<close>, executable there, and never one
  found through the current directory. A \<open>pkexec\<close> runs as the file that was opened, from the path that symlinks lead to,
  and only when that same open file printed an acceptable version: a file renamed over the path later is never run.\<close>

theorem detected_front:
  assumes "rewrite_with_host os pipe cmd (detect_with macos w path_var host elev (er_backend (cm_elevation cmd)) (er_auth (cm_elevation cmd)))
      = Some (cmd', Inr r)" and "pr_report r = Some rep" and "el_via rep = Wrapped b"
  shows "\<exists>path ws. cm_input (pr_derived r) = Argv (path # ws) \<and> trusted_front w path_var b path (cm_executable (pr_derived r))"
proof -
  let ?h = "detect_with macos w path_var host elev (er_backend (cm_elevation cmd)) (er_auth (cm_elevation cmd))"
  obtain pk pin v where d: "detect_pkexec w path_var host elev (er_backend (cm_elevation cmd)) (er_auth (cm_elevation cmd)) = (pk, pin, v)"
    by (rule prod_cases3)
  have h: "bs_sudo (available ?h) = on_path w path_var (ascii ''sudo'')" "bs_doas (available ?h) = on_path w path_var (ascii ''doas'')"
    "bs_pkexec (available ?h) = pk" "pkexec_pin ?h = pin" "pkexec_version ?h = v"
    by (simp_all add: detect_with_def d)
  obtain path ws where p: "backend_path (available ?h) b = Some path" and i: "cm_input (pr_derived r) = Argv (path # ws)"
    and x: "if b = Pkexec then \<exists>pin. pkexec_pin ?h = Some pin \<and> version_refusal (pkexec_version ?h) = None \<and>
        cm_executable (pr_derived r) = Some (Exact (pinned_exec_path pin)) else cm_executable (pr_derived r) = None"
    and b: "b \<noteq> Auto"
    using assms(1)
  proof (cases rule: rewrite_Inr_cases)
    case as_is
    from as_is(1) show ?thesis by (rule run_as_is_Inr) (use assms(2,3) in simp)
  next
    case (macos osascript)
    from macos(1) show ?thesis by (rule macos_gui_Inr) (use build_rewrite_Inr(1) assms(2,3) in fastforce)
  next
    case (posix b' path)
    from posix(1) have b': "b' = b" by (rule elevate_posix_Inr) (use assms(2,3) in auto)
    from rewrite_runs [OF assms(1,2) demo_readers_documented] assms(3) obtain path ws where
      "backend_path (available ?h) b = Some path" "cm_input (pr_derived r) = Argv (path # ws)"
      "if b = Pkexec then \<exists>pin. pkexec_pin ?h = Some pin \<and> version_refusal (pkexec_version ?h) = None \<and>
        cm_executable (pr_derived r) = Some (Exact (pinned_exec_path pin)) \<and> cm_held (pr_derived r) = [pin]
       else cm_executable (pr_derived r) = None"
      unfolding runs_program_def by auto
    with posix(4) b' show ?thesis by (intro that) (auto split: if_splits)
  qed
  show ?thesis
  proof (cases b)
    case Pkexec
    with p x obtain q where q: "pk = Some path" "pin = Some q" "version_refusal v = None"
      "cm_executable (pr_derived r) = Some (Exact (pinned_exec_path q))"
      by (auto simp: backend_path_def h)
    from detect_pkexec_pinned [OF d [unfolded q(1,2)]] q Pkexec i show ?thesis
      unfolding trusted_front_def by (auto dest!: on_path_Some)
  qed (use b p x i in \<open>auto simp: trusted_front_def backend_path_def h dest!: on_path_Some\<close>)
qed

definition demo_world :: DetectWorld where
  "demo_world = \<lparr>dw_executable = (\<lambda>p. p = ascii ''/b/sudo'' \<or> p = ascii ''b/sudo''), dw_canonicalize = Inr, dw_pin = (\<lambda>_. Inl 2),
     dw_probe = (\<lambda>_ _. NotProbed), dw_tty = False, dw_argmax = None, dw_error_text = (\<lambda>_. [])\<rparr>"

theorem detected_front_witness:
  "\<exists>cmd' r path ws. rewrite_with_host (STR ''linux'') (Inr (7, 8)) demo_command
       (detect_with False demo_world (Some (ascii ''b:/b'')) Linux False (er_backend (cm_elevation demo_command)) (er_auth (cm_elevation demo_command)))
     = Some (cmd', Inr r) \<and> cm_input (pr_derived r) = Argv (path # ws) \<and> trusted_front demo_world (Some (ascii ''b:/b'')) Sudo path None"
  (is "\<exists>cmd' r path ws. ?run = _ \<and> _")
proof -
  have "case ?run of Some (_, Inr r) \<Rightarrow> (case pr_report r of Some rep \<Rightarrow> el_via rep = Wrapped Sudo \<and> cm_executable (pr_derived r) = None | None \<Rightarrow> False)
    | _ \<Rightarrow> False" by code_simp
  then obtain cmd' r rep where r: "?run = Some (cmd', Inr r)" "pr_report r = Some rep" "el_via rep = Wrapped Sudo" "cm_executable (pr_derived r) = None"
    by (auto split: option.splits prod.splits sum.splits)
  from detected_front [OF r(1,2,3)] r(1,4) show ?thesis by auto
qed

end
