(* ===== verification/Treewalk.thy ===== *)
theory Treewalk
  imports Identity Errors
begin

text \<open>
  \<^verbatim>\<open>src/src/containment/treewalk.rs\<close> and \<^verbatim>\<open>src/src/identity/tree.rs\<close>: finding the descendants of a process in a
  \<open>(pid, ppid)\<close> snapshot and killing them by identity.

  \<open>resolve\<close> is the identity read of the walk. The walk memoises it per pid, which a function cannot
  show; live, the memo is what makes the read a function for the length of the walk. Sets of pids are
  HOL sets. The by-identity kill is the Unix one; its two system calls are parameters.
\<close>

section \<open>The walk\<close>

definition keeps_token :: "u64 \<Rightarrow> u64 \<Rightarrow> bool \<Rightarrow> bool" where
  "keeps_token token anchor allow_equal \<longleftrightarrow> anchor < token \<or> (allow_equal \<and> token = anchor)"

record walk =
  wk_result :: "ProcessId list"
  wk_next :: "RawPid list"
  wk_pending :: "(RawPid \<times> RawPid) list"
  wk_accepted :: "RawPid set"

text \<open>One edge of a pass: left for later, dropped, or accepted.\<close>

definition visit ::
  "(u64 \<Rightarrow> bool) \<Rightarrow> (RawPid \<Rightarrow> ProcessId option) \<Rightarrow> RawPid list \<Rightarrow> walk \<Rightarrow> RawPid \<times> RawPid \<Rightarrow> walk" where
  "visit keep resolve frontier w e = (case e of (p, pp) \<Rightarrow>
     if pp \<notin> set frontier then w\<lparr>wk_pending := wk_pending w @ [(p, pp)]\<rparr>
     else if p = pp then w
     else (case resolve p of
         None \<Rightarrow> w
       | Some ident \<Rightarrow>
           if \<not> keep (start_token ident) then w
           else if p \<in> wk_accepted w then w
           else w\<lparr>wk_accepted := insert p (wk_accepted w), wk_result := wk_result w @ [ident],
                  wk_next := wk_next w @ [p]\<rparr>))"

definition pass ::
  "(u64 \<Rightarrow> bool) \<Rightarrow> (RawPid \<Rightarrow> ProcessId option) \<Rightarrow> RawPid list \<Rightarrow> walk \<Rightarrow> walk" where
  "pass keep resolve frontier w =
     foldl (visit keep resolve frontier) (w\<lparr>wk_next := [], wk_pending := []\<rparr>) (wk_pending w)"

lemma visit_size:
  "length (wk_pending (visit keep resolve frontier w e)) + length (wk_next (visit keep resolve frontier w e))
   \<le> Suc (length (wk_pending w) + length (wk_next w))"
  by (auto simp: visit_def split: prod.split option.split)

lemma pass_size:
  "length (wk_pending (pass keep resolve frontier w)) + length (wk_next (pass keep resolve frontier w)) \<le> length (wk_pending w)"
proof -
  have "length (wk_pending (foldl (visit keep resolve frontier) v es)) + length (wk_next (foldl (visit keep resolve frontier) v es))
    \<le> length es + (length (wk_pending v) + length (wk_next v))" for v es
  proof (induction es arbitrary: v)
    case (Cons e es)
    from Cons [of "visit keep resolve frontier v e"] visit_size [of keep resolve frontier v e] show ?case by simp
  qed simp
  from this [of "w\<lparr>wk_next := [], wk_pending := []\<rparr>" "wk_pending w"] show ?thesis by (simp add: pass_def)
qed

function walk_loop ::
  "(u64 \<Rightarrow> bool) \<Rightarrow> (RawPid \<Rightarrow> ProcessId option) \<Rightarrow> RawPid list \<Rightarrow> walk \<Rightarrow> walk" where
  "walk_loop keep resolve frontier w =
     (if frontier = [] then w
      else let w' = pass keep resolve frontier w in walk_loop keep resolve (wk_next w') w')"
  by pat_completeness auto
termination
proof (relation "measure (\<lambda>(keep, resolve, frontier, w). 2 * length (wk_pending w) + (if frontier = [] then 0 else 1))")
  fix keep resolve frontier w w'
  assume f: "frontier \<noteq> []" and w': "w' = pass keep resolve frontier w"
  have "length (wk_pending w') + length (wk_next w') \<le> length (wk_pending w)" using pass_size w' by simp
  with f show "((keep, resolve, wk_next w', w'), keep, resolve, frontier, w) \<in>
    measure (\<lambda>(keep, resolve, frontier, w). 2 * length (wk_pending w) + (if frontier = [] then 0 else 1))"
    by (cases "wk_next w'") auto
qed simp

declare walk_loop.simps [simp del]

definition descendants_with ::
  "ProcessId \<Rightarrow> (RawPid \<times> RawPid) list \<Rightarrow> bool \<Rightarrow> (RawPid \<Rightarrow> ProcessId option) \<Rightarrow> ProcessId list" where
  "descendants_with root parents allow_equal resolve =
     wk_result (walk_loop (\<lambda>token. keeps_token token (start_token root) allow_equal) resolve [pid root]
       \<lparr>wk_result = [], wk_next = [], wk_pending = parents, wk_accepted = {}\<rparr>)"

text \<open>The one-level filter: the \<open>for\<close> over the snapshot with its set of pids seen.\<close>

definition child_step ::
  "ProcessId \<Rightarrow> bool \<Rightarrow> (RawPid \<Rightarrow> ProcessId option) \<Rightarrow> ProcessId list \<times> RawPid set \<Rightarrow> RawPid \<times> RawPid \<Rightarrow> ProcessId list \<times> RawPid set" where
  "child_step parent allow_equal resolve s e = (case s of (out, seen) \<Rightarrow> (case e of (p, pp) \<Rightarrow>
     if pp \<noteq> pid parent \<or> p = pp then (out, seen)
     else (case resolve p of
         None \<Rightarrow> (out, seen)
       | Some ident \<Rightarrow>
           if \<not> keeps_token (start_token ident) (start_token parent) allow_equal then (out, seen)
           else if p \<in> seen then (out, seen)
           else (out @ [ident], insert p seen))))"

definition children_of_with ::
  "ProcessId \<Rightarrow> (RawPid \<times> RawPid) list \<Rightarrow> bool \<Rightarrow> (RawPid \<Rightarrow> ProcessId option) \<Rightarrow> ProcessId list" where
  "children_of_with parent parents allow_equal resolve =
     fst (foldl (child_step parent allow_equal resolve) ([], {}) parents)"

section \<open>Killing by identity\<close>

datatype KillOutcome = Terminated | AlreadyGone | NotAttempted

abbreviation ESRCH :: i32 where "ESRCH \<equiv> 3"

text \<open>\<open>live\<close> is \<^verbatim>\<open>ProcessId::of\<close> at the instant of the kill and \<open>send\<close> the errno of a failed \<^verbatim>\<open>kill(2)\<close>. The
  second component is the target of the call, if it was made.\<close>

definition kill_by_identity ::
  "(RawPid \<Rightarrow> ProcessId Resolved) \<Rightarrow> (i32 \<Rightarrow> i32 option) \<Rightarrow> ProcessId \<Rightarrow> KillOutcome \<times> i32 option" where
  "kill_by_identity live send ident = (case live (pid ident) of
      Resolved_Gone \<Rightarrow> (AlreadyGone, None)
    | Resolved_Unknown \<Rightarrow> (NotAttempted, None)
    | Found now \<Rightarrow>
        if now \<noteq> ident then (AlreadyGone, None)
        else (case signal_target (pid ident) of
            None \<Rightarrow> (NotAttempted, None)
          | Some target \<Rightarrow> (case send target of
                None \<Rightarrow> (Terminated, Some target)
              | Some e \<Rightarrow> (if e = ESRCH then AlreadyGone else NotAttempted, Some target))))"

text \<open>Killing each of a list of identities in order: the targets signalled, and whether no attempt was
  refused.\<close>

primrec kill_each ::
  "(RawPid \<Rightarrow> ProcessId Resolved) \<Rightarrow> (i32 \<Rightarrow> i32 option) \<Rightarrow> ProcessId list \<Rightarrow> bool \<Rightarrow> i32 list \<times> bool" where
  "kill_each live send [] complete = ([], complete)"
| "kill_each live send (ident # ids) complete =
     (let (outcome, target) = kill_by_identity live send ident;
          (more_targets, complete) = kill_each live send ids (complete \<and> outcome \<noteq> NotAttempted)
      in ((case target of None \<Rightarrow> more_targets | Some t \<Rightarrow> t # more_targets), complete))"

text \<open>An explained read comes with the error its cause gives (\<^verbatim>\<open>UnknownCause::into_error\<close>), if it gives one.\<close>

definition unqueryable :: "Error option \<Rightarrow> Error" where
  "unqueryable cause = (case cause of Some e \<Rightarrow> e | None \<Rightarrow> Unassessable None)"

definition anchor_present :: "Existence \<times> Error option \<Rightarrow> Error + bool" where
  "anchor_present read = (case read of
      (Present, _) \<Rightarrow> Inr True
    | (Existence_Gone, _) \<Rightarrow> Inr False
    | (Existence_Unknown, cause) \<Rightarrow> Inl (unqueryable cause))"

text \<open>\<open>snapshot\<close> is the process table, \<open>anchor\<close> the root's existence, explained, read after it.\<close>

definition hard_kill ::
  "Error + (RawPid \<times> RawPid) list \<Rightarrow> Existence \<times> Error option \<Rightarrow> bool \<Rightarrow> (RawPid \<Rightarrow> ProcessId Resolved) \<Rightarrow>
   (RawPid \<Rightarrow> ProcessId Resolved) \<Rightarrow> (i32 \<Rightarrow> i32 option) \<Rightarrow> ProcessId \<Rightarrow> i32 list \<times> (Error + bool)" where
  "hard_kill snapshot anchor allow_equal walked live send root = (case snapshot of
      Inl e \<Rightarrow> ([], Inl e)
    | Inr parents \<Rightarrow> (case anchor_present anchor of
          Inl e \<Rightarrow> ([], Inl e)
        | Inr False \<Rightarrow> ([], Inr True)
        | Inr True \<Rightarrow>
            let (targets, complete) = kill_each live send
                  (root # descendants_with root parents allow_equal (\<lambda>p. found (walked p))) True
            in (targets, Inr complete)))"

section \<open>The tree around a process\<close>

definition absent_from_snapshot :: "Existence \<times> Error option \<Rightarrow> Error + unit" where
  "absent_from_snapshot anchor = (case anchor_present anchor of
      Inl e \<Rightarrow> Inl e | Inr True \<Rightarrow> Inl (Unassessable None) | Inr False \<Rightarrow> Inr ())"

definition parent_pid_in :: "ProcessId \<Rightarrow> (RawPid \<times> RawPid) list \<Rightarrow> Existence \<times> Error option \<Rightarrow> Error + RawPid option" where
  "parent_pid_in self parents again = (case find (\<lambda>e. fst e = pid self) parents of
      Some e \<Rightarrow> Inr (Some (snd e))
    | None \<Rightarrow> (case absent_from_snapshot again of Inl e \<Rightarrow> Inl e | Inr _ \<Rightarrow> Inr None))"

definition parent_of ::
  "Error + (RawPid \<times> RawPid) list \<Rightarrow> Existence \<times> Error option \<Rightarrow> Existence \<times> Error option \<Rightarrow> bool \<Rightarrow> (RawPid \<Rightarrow> ProcessId Resolved \<times> Error option) \<Rightarrow>
   ProcessId \<Rightarrow> Error + ProcessId option" where
  "parent_of snapshot anchor again allow_equal of_explained self = (case snapshot of
      Inl e \<Rightarrow> Inl e
    | Inr parents \<Rightarrow> (case anchor_present anchor of
          Inl e \<Rightarrow> Inl e
        | Inr False \<Rightarrow> Inr None
        | Inr True \<Rightarrow> (case parent_pid_in self parents again of
              Inl e \<Rightarrow> Inl e
            | Inr None \<Rightarrow> Inr None
            | Inr (Some pp) \<Rightarrow>
                if pp = pid self then Inr None
                else (case of_explained pp of
                    (Found p, _) \<Rightarrow> Inr (if keeps_token (start_token self) (start_token p) allow_equal then Some p else None)
                  | (Resolved_Gone, _) \<Rightarrow> Inr None
                  | (Resolved_Unknown, cause) \<Rightarrow> Inl (unqueryable cause)))))"

datatype Recursive = Recursive_No | Recursive_Yes

definition children ::
  "Error + (RawPid \<times> RawPid) list \<Rightarrow> Existence \<times> Error option \<Rightarrow> Existence \<times> Error option \<Rightarrow> bool \<Rightarrow> (RawPid \<Rightarrow> ProcessId Resolved) \<Rightarrow>
   ProcessId \<Rightarrow> Recursive \<Rightarrow> Error + ProcessId list" where
  "children snapshot anchor again allow_equal of_pid self recursive = (case snapshot of
      Inl e \<Rightarrow> Inl e
    | Inr parents \<Rightarrow> (case anchor_present anchor of
          Inl e \<Rightarrow> Inl e
        | Inr False \<Rightarrow> Inr []
        | Inr True \<Rightarrow>
            if \<not> list_ex (\<lambda>e. fst e = pid self) parents
            then (case absent_from_snapshot again of Inl e \<Rightarrow> Inl e | Inr _ \<Rightarrow> Inr [])
            else Inr (case recursive of
                Recursive_No \<Rightarrow> children_of_with self parents allow_equal (\<lambda>p. found (of_pid p))
              | Recursive_Yes \<Rightarrow> descendants_with self parents allow_equal (\<lambda>p. found (of_pid p)))))"

section \<open>Genuine descendants\<close>

definition genuine :: "(u64 \<Rightarrow> bool) \<Rightarrow> (RawPid \<Rightarrow> ProcessId option) \<Rightarrow> RawPid \<Rightarrow> bool" where
  "genuine keep resolve p \<longleftrightarrow> (case resolve p of None \<Rightarrow> False | Some i \<Rightarrow> keep (start_token i))"

text \<open>The specification of the walk: a pid descends from the root when the snapshot chains it to the root
  through pids that all resolve to identities the token rule keeps.\<close>

inductive descends ::
  "RawPid \<Rightarrow> (RawPid \<times> RawPid) list \<Rightarrow> (RawPid \<Rightarrow> bool) \<Rightarrow> RawPid \<Rightarrow> bool" for r es ok where
  child: "(p, r) \<in> set es \<Longrightarrow> p \<noteq> r \<Longrightarrow> ok p \<Longrightarrow> descends r es ok p"
| below: "descends r es ok q \<Longrightarrow> (p, q) \<in> set es \<Longrightarrow> p \<noteq> q \<Longrightarrow> ok p \<Longrightarrow> descends r es ok p"

lemma visit_genuine:
  "visit keep resolve F w (p, q) =
     (if q \<notin> set F then w\<lparr>wk_pending := wk_pending w @ [(p, q)]\<rparr>
      else if p = q \<or> \<not> genuine keep resolve p \<or> p \<in> wk_accepted w then w
      else w\<lparr>wk_accepted := insert p (wk_accepted w), wk_result := wk_result w @ [the (resolve p)],
             wk_next := wk_next w @ [p]\<rparr>)"
  by (auto simp: visit_def genuine_def split: option.split)

definition candidate_pids ::
  "(RawPid \<Rightarrow> bool) \<Rightarrow> RawPid list \<Rightarrow> (RawPid \<times> RawPid) list \<Rightarrow> RawPid set" where
  "candidate_pids ok F es = {p. \<exists>q. (p, q) \<in> set es \<and> q \<in> set F \<and> p \<noteq> q \<and> ok p}"

lemma foldl_visit:
  "\<exists>new. distinct new \<and> set new = candidate_pids (genuine keep resolve) F es - wk_accepted w \<and>
     foldl (visit keep resolve F) w es =
       w\<lparr>wk_pending := wk_pending w @ filter (\<lambda>e. snd e \<notin> set F) es,
         wk_accepted := wk_accepted w \<union> set new,
         wk_result := wk_result w @ map (\<lambda>p. the (resolve p)) new, wk_next := wk_next w @ new\<rparr>"
proof (induction es arbitrary: w)
  case Nil
  show ?case by (rule exI [of _ "[]"]) (simp add: candidate_pids_def)
next
  case (Cons e es)
  obtain p q where e: "e = (p, q)" by fastforce
  let ?ok = "genuine keep resolve"
  let ?w = "visit keep resolve F w e"
  from Cons.IH [of ?w] obtain new where new: "distinct new" "set new = candidate_pids ?ok F es - wk_accepted ?w"
    and fold: "foldl (visit keep resolve F) ?w es =
       ?w\<lparr>wk_pending := wk_pending ?w @ filter (\<lambda>e. snd e \<notin> set F) es,
         wk_accepted := wk_accepted ?w \<union> set new,
         wk_result := wk_result ?w @ map (\<lambda>p. the (resolve p)) new, wk_next := wk_next ?w @ new\<rparr>"
    by blast
  have cand: "candidate_pids ?ok F (e # es) =
     (if q \<in> set F \<and> p \<noteq> q \<and> ?ok p then insert p (candidate_pids ?ok F es) else candidate_pids ?ok F es)"
    by (auto simp: candidate_pids_def e)
  consider (later) "q \<notin> set F" | (drop) "q \<in> set F" "p = q \<or> \<not> ?ok p \<or> p \<in> wk_accepted w"
    | (take) "q \<in> set F" "p \<noteq> q" "?ok p" "p \<notin> wk_accepted w" by blast
  then show ?case
  proof cases
    case later
    then show ?thesis using new fold cand by (intro exI [of _ new]) (simp add: e visit_genuine)
  next
    case drop
    then have "?w = w" by (auto simp: e visit_genuine)
    then show ?thesis using drop new fold cand by (intro exI [of _ new]) (auto simp: e)
  next
    case take
    have acc: "wk_accepted ?w = insert p (wk_accepted w)" using take by (simp add: e visit_genuine)
    show ?thesis
    proof (intro exI [of _ "p # new"] conjI)
      show "distinct (p # new)" using new acc by auto
      show "set (p # new) = candidate_pids ?ok F (e # es) - wk_accepted w"
        using new(2) acc cand take by auto
    qed (use take fold in \<open>simp add: e visit_genuine\<close>)
  qed
qed

section \<open>The walk finds exactly the genuine descendants\<close>

definition walk_inv ::
  "RawPid \<Rightarrow> (RawPid \<times> RawPid) list \<Rightarrow> (RawPid \<Rightarrow> bool) \<Rightarrow> (RawPid \<Rightarrow> ProcessId option) \<Rightarrow> RawPid list \<Rightarrow> walk \<Rightarrow> bool" where
  "walk_inv r es ok resolve F w \<longleftrightarrow>
     (\<exists>ps. wk_result w = map (\<lambda>p. the (resolve p)) ps \<and> distinct ps \<and> set ps = wk_accepted w) \<and>
     (\<forall>p\<in>wk_accepted w. descends r es ok p) \<and>
     set F \<subseteq> insert r (wk_accepted w) \<and>
     set (wk_pending w) \<subseteq> set es \<and>
     (\<forall>p q. (p, q) \<in> set es \<longrightarrow> (p, q) \<notin> set (wk_pending w) \<longrightarrow> p = q \<or> \<not> ok p \<or> p \<in> wk_accepted w) \<and>
     (\<forall>p q. (p, q) \<in> set (wk_pending w) \<longrightarrow> q \<in> insert r (wk_accepted w) \<longrightarrow> q \<in> set F)"

lemma pass_inv:
  assumes "walk_inv r es (genuine keep resolve) resolve F w"
  shows "walk_inv r es (genuine keep resolve) resolve (wk_next (pass keep resolve F w)) (pass keep resolve F w)"
proof -
  let ?ok = "genuine keep resolve"
  let ?w0 = "w\<lparr>wk_next := [], wk_pending := []\<rparr>"
  note inv = assms [unfolded walk_inv_def]
  obtain new where new: "distinct new" "set new = candidate_pids ?ok F (wk_pending w) - wk_accepted w"
    and p: "pass keep resolve F w =
       ?w0\<lparr>wk_pending := filter (\<lambda>e. snd e \<notin> set F) (wk_pending w), wk_accepted := wk_accepted w \<union> set new,
         wk_result := wk_result w @ map (\<lambda>p. the (resolve p)) new, wk_next := new\<rparr>"
    using foldl_visit [of keep resolve F "wk_pending w" ?w0] by (auto simp: pass_def)
  obtain ps where ps: "wk_result w = map (\<lambda>p. the (resolve p)) ps" "distinct ps" "set ps = wk_accepted w"
    using inv by blast
  have d: "descends r es ?ok x" if "x \<in> set new" for x
  proof -
    from that new(2) obtain q where q: "(x, q) \<in> set (wk_pending w)" "q \<in> set F" "x \<noteq> q" "?ok x"
      by (auto simp: candidate_pids_def)
    then have "(x, q) \<in> set es" "q = r \<or> descends r es ?ok q" using inv by blast+
    with q show ?thesis by (auto intro: descends.intros)
  qed
  show ?thesis
    unfolding walk_inv_def
  proof (intro conjI allI impI ballI)
    show "\<exists>ps. wk_result (pass keep resolve F w) = map (\<lambda>p. the (resolve p)) ps \<and> distinct ps \<and>
        set ps = wk_accepted (pass keep resolve F w)"
      using ps new by (intro exI [of _ "ps @ new"]) (auto simp: p)
    show "descends r es ?ok x" if "x \<in> wk_accepted (pass keep resolve F w)" for x
      using that inv d by (auto simp: p)
    show "x = y \<or> \<not> ?ok x \<or> x \<in> wk_accepted (pass keep resolve F w)"
      if "(x, y) \<in> set es" "(x, y) \<notin> set (wk_pending (pass keep resolve F w))" for x y
    proof (cases "(x, y) \<in> set (wk_pending w)")
      case True
      with that(2) have "y \<in> set F" by (simp add: p)
      with True new(2) show ?thesis by (auto simp: p candidate_pids_def)
    next
      case False
      with that(1) inv show ?thesis by (auto simp: p)
    qed
    show "y \<in> set (wk_next (pass keep resolve F w))"
      if "(x, y) \<in> set (wk_pending (pass keep resolve F w))" "y \<in> insert r (wk_accepted (pass keep resolve F w))" for x y
      using that inv by (auto simp: p)
  qed (use inv in \<open>auto simp: p\<close>)
qed

lemma walk_loop_inv:
  "walk_inv r es (genuine keep resolve) resolve F w \<Longrightarrow>
   walk_inv r es (genuine keep resolve) resolve [] (walk_loop keep resolve F w)"
proof (induction keep resolve F w rule: walk_loop.induct)
  case (1 keep resolve F w)
  show ?case
  proof (cases "F = []")
    case True
    then show ?thesis using 1 by (subst walk_loop.simps) simp
  next
    case False
    then show ?thesis using 1 pass_inv by (subst walk_loop.simps) (simp add: Let_def)
  qed
qed

lemma walk_done:
  assumes "walk_inv r es ok resolve [] w"
  shows "wk_accepted w = Collect (descends r es ok)"
proof
  show "wk_accepted w \<subseteq> Collect (descends r es ok)" using assms by (auto simp: walk_inv_def)
  have closed: "p \<in> wk_accepted w"
    if "(p, q) \<in> set es" "q \<in> insert r (wk_accepted w)" "p \<noteq> q" "ok p" for p q
  proof -
    have "(p, q) \<notin> set (wk_pending w)" using assms that(2) unfolding walk_inv_def by (metis list.set(1) empty_iff)
    with assms that show ?thesis unfolding walk_inv_def by metis
  qed
  show "Collect (descends r es ok) \<subseteq> wk_accepted w"
  proof
    fix p assume "p \<in> Collect (descends r es ok)"
    then have "descends r es ok p" by simp
    then show "p \<in> wk_accepted w" by induction (auto intro: closed)
  qed
qed

lemma descendants_with_spec:
  defines "ok root allow_equal resolve \<equiv> genuine (\<lambda>t. keeps_token t (start_token root) allow_equal) resolve"
  shows "\<exists>ps. descendants_with root es allow_equal resolve = map (\<lambda>p. the (resolve p)) ps \<and> distinct ps \<and>
    set ps = Collect (descends (pid root) es (ok root allow_equal resolve))"
proof -
  let ?keep = "\<lambda>t. keeps_token t (start_token root) allow_equal"
  let ?w = "\<lparr>wk_result = [], wk_next = [], wk_pending = es, wk_accepted = {}\<rparr>"
  have "walk_inv (pid root) es (genuine ?keep resolve) resolve [pid root] ?w"
    by (simp add: walk_inv_def)
  then have i: "walk_inv (pid root) es (genuine ?keep resolve) resolve [] (walk_loop ?keep resolve [pid root] ?w)"
    by (rule walk_loop_inv)
  from i walk_done [OF i] show ?thesis
    unfolding descendants_with_def ok_def walk_inv_def by metis
qed

lemma genuine_iff: "genuine keep resolve p \<longleftrightarrow> (\<exists>i. resolve p = Some i \<and> keep (start_token i))"
  by (auto simp: genuine_def split: option.splits)

lemma descends_genuine: "descends r es ok p \<Longrightarrow> ok p"
  by (induction rule: descends.induct)

definition own_pids :: "(RawPid \<Rightarrow> ProcessId option) \<Rightarrow> bool" where
  "own_pids resolve \<longleftrightarrow> (\<forall>p i. resolve p = Some i \<longrightarrow> pid i = p)"

lemma descendants_mem:
  "i \<in> set (descendants_with root es allow_equal resolve) \<longleftrightarrow>
     (\<exists>p. resolve p = Some i \<and>
       descends (pid root) es (genuine (\<lambda>t. keeps_token t (start_token root) allow_equal) resolve) p)"
  (is "_ \<longleftrightarrow> (\<exists>p. _ \<and> ?d p)")
proof -
  obtain ps where ps: "descendants_with root es allow_equal resolve = map (\<lambda>p. the (resolve p)) ps" "set ps = Collect ?d"
    using descendants_with_spec [of root es allow_equal resolve] by blast
  have "\<exists>j. resolve p = Some j" if "?d p" for p
    using descends_genuine [OF that] by (auto simp: genuine_iff)
  with ps show ?thesis by (fastforce simp: image_iff)
qed

lemma descends_root_iff:
  "descends r es ok r \<longleftrightarrow> ok r \<and> (\<exists>q. descends r es ok q \<and> q \<noteq> r \<and> (r, q) \<in> set es)"
  by (subst descends.simps) auto

lemma root_listed_iff:
  assumes "own_pids resolve" and "resolve (pid root) = Some root"
  shows "root \<in> set (descendants_with root es allow_equal resolve) \<longleftrightarrow>
    allow_equal \<and> (\<exists>q. q \<noteq> pid root \<and> (pid root, q) \<in> set es \<and>
      descends (pid root) es (genuine (\<lambda>t. keeps_token t (start_token root) allow_equal) resolve) q)"
  (is "_ \<longleftrightarrow> allow_equal \<and> (\<exists>q. _ \<and> _ \<and> descends _ _ ?ok q)")
proof -
  have "root \<in> set (descendants_with root es allow_equal resolve) \<longleftrightarrow> descends (pid root) es ?ok (pid root)"
    using assms unfolding descendants_mem own_pids_def by blast
  moreover have "?ok (pid root) \<longleftrightarrow> allow_equal"
    using assms(2) by (simp add: genuine_def keeps_token_def)
  ultimately show ?thesis using descends_root_iff [of "pid root" es ?ok] by blast
qed

section \<open>One level\<close>

lemma foldl_child_step:
  "\<exists>new. distinct new \<and>
     set new = {p. (p, pid parent) \<in> set es \<and> p \<noteq> pid parent \<and>
       genuine (\<lambda>t. keeps_token t (start_token parent) allow_equal) resolve p} - seen \<and>
     foldl (child_step parent allow_equal resolve) (out, seen) es = (out @ map (\<lambda>p. the (resolve p)) new, seen \<union> set new)"
proof (induction es arbitrary: out seen)
  case Nil
  show ?case by (rule exI [of _ "[]"]) simp
next
  case (Cons e es)
  obtain p q where e: "e = (p, q)" by fastforce
  let ?ok = "genuine (\<lambda>t. keeps_token t (start_token parent) allow_equal) resolve"
  let ?S = "{p. (p, pid parent) \<in> set es \<and> p \<noteq> pid parent \<and> ?ok p}"
  show ?case
  proof (cases "q = pid parent \<and> p \<noteq> q \<and> ?ok p \<and> p \<notin> seen")
    case True
    then have s: "child_step parent allow_equal resolve (out, seen) e = (out @ [the (resolve p)], insert p seen)"
      by (auto simp: child_step_def e genuine_def split: option.splits)
    from Cons.IH [where out = "out @ [the (resolve p)]" and seen = "insert p seen"] obtain new where
      "distinct new" "set new = ?S - insert p seen"
      "foldl (child_step parent allow_equal resolve) (out @ [the (resolve p)], insert p seen) es =
         ((out @ [the (resolve p)]) @ map (\<lambda>p. the (resolve p)) new, insert p seen \<union> set new)" by blast
    with s True show ?thesis by (intro exI [of _ "p # new"]) (auto simp: e)
  next
    case False
    then have "child_step parent allow_equal resolve (out, seen) e = (out, seen)"
      by (auto simp: child_step_def e genuine_def split: option.splits)
    with False Cons.IH [where out = out and seen = seen] show ?thesis by (auto simp: e)
  qed
qed

lemma children_mem:
  "i \<in> set (children_of_with parent es allow_equal resolve) \<longleftrightarrow>
     (\<exists>p. resolve p = Some i \<and> (p, pid parent) \<in> set es \<and> p \<noteq> pid parent \<and>
       keeps_token (start_token i) (start_token parent) allow_equal)"
proof -
  obtain new where "set new = {p. (p, pid parent) \<in> set es \<and> p \<noteq> pid parent \<and>
       genuine (\<lambda>t. keeps_token t (start_token parent) allow_equal) resolve p}"
    and "children_of_with parent es allow_equal resolve = map (\<lambda>p. the (resolve p)) new"
    using foldl_child_step [where seen = "{}" and out = "[]" and parent = parent and es = es
        and allow_equal = allow_equal and resolve = resolve] by (auto simp: children_of_with_def)
  then show ?thesis by (fastforce simp: image_iff genuine_iff)
qed

lemma children_are_descendants:
  "set (children_of_with parent es allow_equal resolve) \<subseteq> set (descendants_with parent es allow_equal resolve)"
  unfolding children_mem descendants_mem subset_iff using descends.child [of _ "pid parent" es] genuine_iff by metis

section \<open>What a hard kill reaches\<close>

lemma kill_each_targets:
  "t \<in> set (fst (kill_each live send ids complete)) \<Longrightarrow>
     \<exists>i\<in>set ids. live (pid i) = Found i \<and> signal_target (pid i) = Some t"
proof (induction ids arbitrary: complete)
  case (Cons i ids)
  then show ?case
    by (auto simp: case_prod_beta kill_by_identity_def Let_def split: Resolved.splits option.splits if_splits)
qed simp

lemma kill_each_complete:
  "snd (kill_each live send ids complete) \<longleftrightarrow>
     complete \<and> (\<forall>i\<in>set ids. fst (kill_by_identity live send i) \<noteq> NotAttempted)"
  by (induction ids arbitrary: complete) (auto simp: case_prod_beta Let_def)

lemma hard_kill_targets:
  assumes "t \<in> set (fst (hard_kill snapshot anchor allow_equal walked live send root))"
  shows "\<exists>es i. snapshot = Inr es \<and> fst anchor = Present \<and>
    i \<in> set (root # descendants_with root es allow_equal (\<lambda>p. found (walked p))) \<and>
    live (pid i) = Found i \<and> sint t = uint (pid i) \<and> 0 < sint t"
proof -
  obtain es where es: "snapshot = Inr es" using assms by (cases snapshot) (simp_all add: hard_kill_def)
  have a: "fst anchor = Present"
    using assms es by (cases anchor; cases "fst anchor") (simp_all add: hard_kill_def anchor_present_def)
  then have p: "anchor_present anchor = Inr True" by (cases anchor) (simp add: anchor_present_def)
  from assms have "t \<in> set (fst (kill_each live send (root # descendants_with root es allow_equal (\<lambda>p. found (walked p))) True))"
    unfolding hard_kill_def es p by (simp add: case_prod_beta)
  then obtain i where "i \<in> set (root # descendants_with root es allow_equal (\<lambda>p. found (walked p)))"
    "live (pid i) = Found i" "signal_target (pid i) = Some t"
    using kill_each_targets by blast
  with es a signal_target_positive [of "pid i" t] show ?thesis by blast
qed

section \<open>A concrete tree\<close>

definition demo_resolve :: "RawPid \<Rightarrow> ProcessId option" where
  "demo_resolve p = (if p \<in> {5, 9} then Some \<lparr>pid = p, start_token = 100\<rparr> else None)"

definition demo_root :: ProcessId where
  "demo_root = \<lparr>pid = 5, start_token = 100\<rparr>"

definition demo_live_tree :: "RawPid \<Rightarrow> ProcessId Resolved" where
  "demo_live_tree p = (case demo_resolve p of None \<Rightarrow> Resolved_Gone | Some i \<Rightarrow> Found i)"

section \<open>Properties\<close>

text \<open>C35: the walk finds exactly the genuine descendants, each once. Its result lists, without repetition,
  the identities of the pids the snapshot chains to the root through pids that all resolve and pass the
  token rule.\<close>

theorem walk_finds_descendants:
  "\<exists>ps. descendants_with root es allow_equal resolve = map (\<lambda>p. the (resolve p)) ps \<and> distinct ps \<and>
     set ps = Collect (descends (pid root) es
       (genuine (\<lambda>t. keeps_token t (start_token root) allow_equal) resolve))"
  by (rule descendants_with_spec)

text \<open>C39: when the root itself is among its descendants. For an identity read that answers with the pid it
  was asked, and a root that still resolves to itself, the walk lists the root exactly when equal tokens
  are kept and the snapshot names one of its genuine descendants as its parent.\<close>

theorem root_among_descendants:
  assumes "own_pids resolve" and "resolve (pid root) = Some root"
  shows "root \<in> set (descendants_with root es allow_equal resolve) \<longleftrightarrow>
    allow_equal \<and> (\<exists>q. q \<noteq> pid root \<and> (pid root, q) \<in> set es \<and>
      descends (pid root) es (genuine (\<lambda>t. keeps_token t (start_token root) allow_equal) resolve) q)"
  by (rule root_listed_iff [OF assms])

theorem root_among_descendants_witness:
  "demo_root \<in> set (descendants_with demo_root [(5, 9), (9, 5)] True demo_resolve)"
proof -
  have own: "own_pids demo_resolve" "demo_resolve (pid demo_root) = Some demo_root"
    by (auto simp: own_pids_def demo_resolve_def demo_root_def split: if_splits)
  have "descends (pid demo_root) [(5, 9), (9, 5)]
      (genuine (\<lambda>t. keeps_token t (start_token demo_root) True) demo_resolve) 9"
    by (rule descends.child) (simp_all add: demo_root_def genuine_def demo_resolve_def keeps_token_def)
  then show ?thesis
    unfolding root_among_descendants [OF own] by (auto simp: demo_root_def)
qed

text \<open>C36: a hard kill signals only what it has just verified. Every target of the kill call is the positive
  pid of an identity that is the root or one of the descendants the walk found, and that the pid still
  resolves to at the instant of the kill; and it signals nothing when the snapshot failed or the root
  was not seen present after it.\<close>

theorem hard_kill_signals_only_the_tree:
  assumes "t \<in> set (fst (hard_kill snapshot anchor allow_equal walked live send root))"
  shows "\<exists>es i. snapshot = Inr es \<and> fst anchor = Present \<and>
    (i = root \<or> (\<exists>p. found (walked p) = Some i \<and> descends (pid root) es
       (genuine (\<lambda>t. keeps_token t (start_token root) allow_equal) (\<lambda>p. found (walked p))) p)) \<and>
    live (pid i) = Found i \<and> sint t = uint (pid i) \<and> 0 < sint t"
  using hard_kill_targets [OF assms] by (auto simp: descendants_mem)

theorem hard_kill_signals_only_the_tree_witness:
  "fst (hard_kill (Inr [(9, 5), (7, 5)]) (Present, None) True demo_live_tree demo_live_tree (\<lambda>_. None) demo_root) = [5, 9] \<and>
   (0 :: int) < sint (9 :: i32)"
proof -
  have r: "fst (hard_kill (Inr [(9, 5), (7, 5)]) (Present, None) True demo_live_tree demo_live_tree (\<lambda>_. None) demo_root) = [5, 9]"
    by code_simp
  then have "9 \<in> set (fst (hard_kill (Inr [(9, 5), (7, 5)]) (Present, None) True demo_live_tree demo_live_tree (\<lambda>_. None) demo_root))"
    by simp
  from hard_kill_signals_only_the_tree [OF this] r show ?thesis by blast
qed

text \<open>A complete hard kill left no attempt refused: when it answers \<open>true\<close> with the root present, every
  identity of the tree was signalled, or was gone, or had given its pid to another process.\<close>

theorem complete_hard_kill:
  assumes "snd (hard_kill (Inr es) (Present, cause) allow_equal walked live send root) = Inr True"
    and "i = root \<or> i \<in> set (descendants_with root es allow_equal (\<lambda>p. found (walked p)))"
  shows "fst (kill_by_identity live send i) \<in> {Terminated, AlreadyGone}"
proof -
  have "snd (kill_each live send (root # descendants_with root es allow_equal (\<lambda>p. found (walked p))) True)"
    using assms(1) unfolding hard_kill_def anchor_present_def by (simp add: case_prod_beta)
  then have "fst (kill_by_identity live send i) \<noteq> NotAttempted"
    using assms(2) unfolding kill_each_complete by auto
  then show ?thesis by (cases "fst (kill_by_identity live send i)") auto
qed

theorem complete_hard_kill_witness:
  "fst (kill_by_identity demo_live_tree (\<lambda>_. None) demo_root) \<in> {Terminated, AlreadyGone}"
proof (rule complete_hard_kill)
  show "snd (hard_kill (Inr [(9, 5)]) (Present, None) True demo_live_tree demo_live_tree (\<lambda>_. None) demo_root) = Inr True"
    by code_simp
qed simp

end
