(* ===== verification/Identity_Record.thy ===== *)
theory Identity_Record
  imports Identity_Linux
begin

text \<open>
  Saved process identities: \<^verbatim>\<open>src/src/identity/persist.rs\<close>, and the session a Linux host describes itself by (\<^verbatim>\<open>session_scope_at\<close> of
  \<^verbatim>\<open>src/src/identity/linux.rs\<close>). A record is data; every check is made when it is read back.
\<close>

section \<open>Records\<close>

definition RECORD_VERSION :: u32 where "RECORD_VERSION = 1"

datatype Platform = Linux | MacOs | Windows | Other bytes

definition as_str :: "Platform \<Rightarrow> bytes" where
  "as_str p = (case p of Linux \<Rightarrow> ascii ''linux'' | MacOs \<Rightarrow> ascii ''macos'' | Windows \<Rightarrow> ascii ''windows'' | Other s \<Rightarrow> s)"

definition from_wire :: "bytes \<Rightarrow> Platform" where
  "from_wire s = (if s = ascii ''linux'' then Linux else if s = ascii ''macos'' then MacOs else if s = ascii ''windows'' then Windows else Other s)"

definition token_serialize :: "u64 \<Rightarrow> bytes" where
  "token_serialize v = show_uint v"

definition token_deserialize :: "bytes \<Rightarrow> u64 option" where
  "token_deserialize s = parse_uint s"

record ProcessIdRecord =
  r_version :: u32
  r_platform :: Platform
  r_pid :: RawPid
  r_token :: u64
  r_boot_id :: "bytes option"
  r_pid_ns :: "u64 option"

record Scope =
  s_boot_id :: "bytes option"
  s_pid_ns :: "u64 option"

definition scope_none :: Scope where
  "scope_none = \<lparr>s_boot_id = None, s_pid_ns = None\<rparr>"

datatype ScopePath = BootIdPath | PidNsPath

datatype ScopeReadError = ScopeReadError (se_path: ScopePath) (se_source: IoError)

definition scope_error :: "ScopeReadError \<Rightarrow> Error" where
  "scope_error e = IdentityRecord ScopeUnreadable"

definition pid_is_addressable :: "RawPid \<Rightarrow> Platform \<Rightarrow> bool" where
  "pid_is_addressable p here = (case here of Windows \<Rightarrow> p \<noteq> 0 | _ \<Rightarrow> signal_target p \<noteq> None)"

definition reject :: "ProcessIdRecord \<Rightarrow> Scope \<Rightarrow> RecordErrorKind \<Rightarrow> Error" where
  "reject rec scope kind = IdentityRecord kind"

text \<open>One field of the session: refused when the host has one and the record has none or another.\<close>

definition scope_field :: "'a option \<Rightarrow> 'a option \<Rightarrow> RecordErrorKind \<Rightarrow> RecordErrorKind \<Rightarrow> RecordErrorKind option" where
  "scope_field live saved missing foreign = (case live of
      None \<Rightarrow> None
    | Some l \<Rightarrow> (case saved of None \<Rightarrow> Some missing | Some s \<Rightarrow> if s \<noteq> l then Some foreign else None))"

definition validate :: "ProcessIdRecord \<Rightarrow> Platform \<Rightarrow> Scope \<Rightarrow> RecordErrorKind + RawPid \<times> u64" where
  "validate rec here scope = (
     if r_version rec \<noteq> RECORD_VERSION then Inl UnknownVersion
     else if r_platform rec \<noteq> here then Inl ForeignPlatform
     else if \<not> pid_is_addressable (r_pid rec) here then Inl InvalidPid
     else (case scope_field (s_boot_id scope) (r_boot_id rec) MissingBootSession ForeignBootSession of
         Some kind \<Rightarrow> Inl kind
       | None \<Rightarrow> (case scope_field (s_pid_ns scope) (r_pid_ns rec) MissingPidNamespace ForeignPidNamespace of
             Some kind \<Rightarrow> Inl kind
           | None \<Rightarrow> Inr (r_pid rec, r_token rec))))"

definition record_from :: "Platform \<Rightarrow> ProcessId \<Rightarrow> ScopeReadError + Scope \<Rightarrow> Error + ProcessIdRecord" where
  "record_from current ident scope = (case scope of
      Inl e \<Rightarrow> Inl (scope_error e)
    | Inr s \<Rightarrow> Inr \<lparr>r_version = RECORD_VERSION, r_platform = current, r_pid = pid ident, r_token = start_token ident,
        r_boot_id = s_boot_id s, r_pid_ns = s_pid_ns s\<rparr>)"

definition restore :: "ProcessIdRecord \<Rightarrow> Platform \<Rightarrow> ScopeReadError + Scope \<Rightarrow> Error + ProcessId" where
  "restore rec here scope = (case scope of
      Inl e \<Rightarrow> Inl (scope_error e)
    | Inr s \<Rightarrow> (case validate rec here s of
          Inl kind \<Rightarrow> Inl (reject rec s kind)
        | Inr (p, token) \<Rightarrow> Inr \<lparr>pid = p, start_token = token\<rparr>))"

section \<open>A Linux host\<close>

text \<open>What a Linux host answers about itself: the bytes of its boot id and the inode of its pid namespace.\<close>

record SessionHost =
  h_boot_id :: "IoError + bytes"
  h_pid_ns :: "IoError + u64"

definition session_scope_at :: "SessionHost \<Rightarrow> ScopeReadError + Scope" where
  "session_scope_at h = (case (case h_boot_id h of Inl e \<Rightarrow> Inl e | Inr b \<Rightarrow> utf8_text b) of
      Inl e \<Rightarrow> Inl (ScopeReadError BootIdPath e)
    | Inr text \<Rightarrow>
        let boot_id = trim text in
        if boot_id = [] then Inl (ScopeReadError BootIdPath (KindError InvalidData))
        else (case h_pid_ns h of
            Inl e \<Rightarrow> Inl (ScopeReadError PidNsPath e)
          | Inr ns \<Rightarrow> Inr \<lparr>s_boot_id = Some boot_id, s_pid_ns = Some ns\<rparr>))"

definition to_record :: "SessionHost \<Rightarrow> ProcessId \<Rightarrow> Error + ProcessIdRecord" where
  "to_record h ident = record_from Linux ident (session_scope_at h)"

definition try_from :: "SessionHost \<Rightarrow> ProcessIdRecord \<Rightarrow> Error + ProcessId" where
  "try_from h rec = restore rec Linux (session_scope_at h)"

section \<open>What is restored\<close>

lemma scope_field_None: "scope_field live saved m f = None \<longleftrightarrow> live = None \<or> saved = live"
  by (auto simp: scope_field_def split: option.splits)

lemma validate_Inr:
  "validate rec here scope = Inr (p, t) \<longleftrightarrow> r_version rec = RECORD_VERSION \<and> r_platform rec = here \<and> pid_is_addressable p here
     \<and> (s_boot_id scope = None \<or> r_boot_id rec = s_boot_id scope) \<and> (s_pid_ns scope = None \<or> r_pid_ns rec = s_pid_ns scope)
     \<and> p = r_pid rec \<and> t = r_token rec"
  using scope_field_None [of "s_boot_id scope" "r_boot_id rec" MissingBootSession ForeignBootSession]
    scope_field_None [of "s_pid_ns scope" "r_pid_ns rec" MissingPidNamespace ForeignPidNamespace]
  by (cases "scope_field (s_boot_id scope) (r_boot_id rec) MissingBootSession ForeignBootSession";
      cases "scope_field (s_pid_ns scope) (r_pid_ns rec) MissingPidNamespace ForeignPidNamespace") (auto simp: validate_def)

lemma restore_Inr:
  "restore rec here (Inr scope) = Inr q \<longleftrightarrow> r_version rec = RECORD_VERSION \<and> r_platform rec = here \<and> pid_is_addressable (pid q) here
     \<and> (s_boot_id scope = None \<or> r_boot_id rec = s_boot_id scope) \<and> (s_pid_ns scope = None \<or> r_pid_ns rec = s_pid_ns scope)
     \<and> q = \<lparr>pid = r_pid rec, start_token = r_token rec\<rparr>"
proof (cases "validate rec here scope")
  case (Inl k)
  then have "validate rec here scope \<noteq> Inr (r_pid rec, r_token rec)" by simp
  then show ?thesis using Inl unfolding validate_Inr by (auto simp: restore_def)
next
  case (Inr v)
  then obtain p t where "validate rec here scope = Inr (p, t)" by (cases v) auto
  then show ?thesis using validate_Inr [of rec here scope p t] by (auto simp: restore_def)
qed

lemma session_scope_at_Inr:
  "session_scope_at h = Inr s \<Longrightarrow> \<exists>b n. s = \<lparr>s_boot_id = Some b, s_pid_ns = Some n\<rparr> \<and> b \<noteq> [] \<and> h_pid_ns h = Inr n"
  by (auto simp: session_scope_at_def Let_def split: sum.splits if_splits)

text \<open>A record is restored exactly when its version, its platform and, where this host has them, its boot session and its pid namespace are this host's, and its pid can name one process; what
  is restored is the pid and the token that were saved. \<close>

theorem restored_iff_same_session:
  "restore rec here (Inr scope) = Inr q \<longleftrightarrow> r_version rec = RECORD_VERSION \<and> r_platform rec = here \<and> pid_is_addressable (pid q) here
     \<and> (s_boot_id scope = None \<or> r_boot_id rec = s_boot_id scope) \<and> (s_pid_ns scope = None \<or> r_pid_ns rec = s_pid_ns scope)
     \<and> pid q = r_pid rec \<and> start_token q = r_token rec"
  unfolding restore_Inr by (cases q) auto

text \<open>An identity written on one Linux host is read back on another exactly when both describe the same session and the pid can name a process, and then it is the same identity: no
  token is ever compared across a boot or a pid namespace. A host that cannot describe its session writes and restores nothing.\<close>

theorem record_round_trip:
  "(case to_record h q of
      Inl e \<Rightarrow> e = IdentityRecord ScopeUnreadable \<and> (\<exists>why. session_scope_at h = Inl why)
    | Inr rec \<Rightarrow> (\<forall>h' q'. try_from h' rec = Inr q' \<longleftrightarrow>
        q' = q \<and> signal_target (pid q) \<noteq> None \<and> (\<exists>s. session_scope_at h = Inr s \<and> session_scope_at h' = Inr s)))"
proof (cases "session_scope_at h")
  case (Inl e)
  then show ?thesis by (simp add: to_record_def record_from_def scope_error_def)
next
  case (Inr s)
  from session_scope_at_Inr [OF Inr] obtain b n where s: "s = \<lparr>s_boot_id = Some b, s_pid_ns = Some n\<rparr>" by blast
  have "try_from h' \<lparr>r_version = RECORD_VERSION, r_platform = Linux, r_pid = pid q, r_token = start_token q, r_boot_id = Some b, r_pid_ns = Some n\<rparr> = Inr q' \<longleftrightarrow>
      q' = q \<and> signal_target (pid q) \<noteq> None \<and> session_scope_at h' = Inr s" for h' q'
  proof (cases "session_scope_at h'")
    case (Inr s')
    from session_scope_at_Inr [OF Inr] obtain b' n' where "s' = \<lparr>s_boot_id = Some b', s_pid_ns = Some n'\<rparr>" by blast
    then show ?thesis using Inr by (auto simp: try_from_def restore_Inr pid_is_addressable_def s)
  qed (simp add: try_from_def restore_def)
  then show ?thesis using Inr by (simp add: to_record_def record_from_def s)
qed

text \<open>The wire forms of a platform and of a token are read back as what was written; an unknown tag stays what it was.\<close>

lemma platform_round_trip: "as_str (from_wire s) = s"
  by (simp add: as_str_def from_wire_def)

lemma from_wire_as_str: "p \<notin> Other ` {ascii ''linux'', ascii ''macos'', ascii ''windows''} \<Longrightarrow> from_wire (as_str p) = p"
  by (cases p) (auto simp: as_str_def from_wire_def)

lemma token_round_trip: "token_deserialize (token_serialize v) = Some v"
  by (simp add: token_deserialize_def token_serialize_def)

end
