(* ===== verification/Program_Resolve.thy ===== *)
theory Program_Resolve
  imports Errors
begin

text \<open>
  Which file a program name loads: \<^verbatim>\<open>src/src/resolve.rs\<close>, \<^verbatim>\<open>src/src/resolve/join.rs\<close> and \<^verbatim>\<open>src/src/resolve/exact.rs\<close>. A name is the bytes of an
  \<^verbatim>\<open>OsStr\<close>: WTF-8 on Windows, any bytes elsewhere. \<open>windows\<close> selects the grammar, and the host is the one whose grammar it is. The file system and the directories the system names are
  arguments.
\<close>

section \<open>Names\<close>

abbreviation BSLASH :: u8 where "BSLASH \<equiv> 0x5C"
abbreviation COLON :: u8 where "COLON \<equiv> 0x3A"

definition is_sep :: "u8 \<Rightarrow> bool \<Rightarrow> bool" where
  "is_sep b windows \<longleftrightarrow> b = SLASH \<or> windows \<and> b = BSLASH"

datatype Shape = BareName | Located

datatype PathType = Unc | DriveAbsolute | DriveRelative | Rooted | Relative

text \<open>The bytes of a leading UTF-16 unit, by its first byte.\<close>

definition unit_len :: "u8 \<Rightarrow> nat option" where
  "unit_len c = (if c < 0x80 then Some 1 else if 0xF0 \<le> c then None else if 0xE0 \<le> c then Some 3 else if 0xC0 \<le> c then Some 2 else None)"

definition drive_len :: "bytes \<Rightarrow> nat option" where
  "drive_len b = (case b of
      [] \<Rightarrow> None
    | c # _ \<Rightarrow> (case unit_len c of
          None \<Rightarrow> None
        | Some u \<Rightarrow> if nth_opt b u = Some COLON then Some (u + 1) else None))"

definition sep_at :: "bytes \<Rightarrow> nat \<Rightarrow> bool" where
  "sep_at b i \<longleftrightarrow> (case nth_opt b i of Some c \<Rightarrow> is_sep c True | None \<Rightarrow> False)"

definition path_type :: "bytes \<Rightarrow> PathType" where
  "path_type b =
     (if sep_at b 0 then (if sep_at b 1 then Unc else Rooted)
      else (case drive_len b of
          Some len \<Rightarrow> if sep_at b len then DriveAbsolute else DriveRelative
        | None \<Rightarrow> Relative))"

definition split_drive :: "bytes \<Rightarrow> (bytes \<times> bytes) option" where
  "split_drive b =
     (if path_type b \<notin> {DriveAbsolute, DriveRelative} then None
      else map_option (\<lambda>len. (take len b, drop len b)) (drive_len b))"

definition classify :: "bytes \<Rightarrow> bool \<Rightarrow> Shape" where
  "classify b windows =
     (if list_ex (\<lambda>c. is_sep c windows) b then Located
      else if windows \<and> drive_len b \<noteq> None then Located
      else BareName)"

definition has_ascii_drive :: "bytes \<Rightarrow> bool" where
  "has_ascii_drive b \<longleftrightarrow> 2 \<le> length b \<and> b ! 1 = COLON \<and> (0x41 \<le> b ! 0 \<and> b ! 0 \<le> 0x5A \<or> 0x61 \<le> b ! 0 \<and> b ! 0 \<le> 0x7A)"

text \<open>The end of the component that starts at an index, without its separator.\<close>

definition component_end :: "bytes \<Rightarrow> nat \<Rightarrow> nat" where
  "component_end b at = (case position (\<lambda>c. is_sep c True) (drop at b) of None \<Rightarrow> length b | Some i \<Rightarrow> at + i)"

definition starts_verbatim_unc :: "bytes \<Rightarrow> bool" where
  "starts_verbatim_unc b \<longleftrightarrow> 8 \<le> length b \<and> eq_ignore_ascii_case (take 3 (drop 4 b)) (ascii ''UNC'') \<and> b ! 7 = BSLASH"

definition windows_prefix_len :: "bytes \<Rightarrow> nat" where
  "windows_prefix_len b =
     (if \<not> (2 \<le> length b \<and> is_sep (b ! 0) True \<and> is_sep (b ! 1) True) then
        (if sep_at b 0 then 0 else (case drive_len b of Some len \<Rightarrow> len | None \<Rightarrow> 0))
      else if 4 \<le> length b \<and> b ! 2 = 0x3F \<and> is_sep (b ! 3) True \<and> SLASH \<notin> set (take 4 b) then
        (if starts_verbatim_unc b then
           (let server = component_end b 8 in if length b \<le> server then length b else component_end b (server + 1))
         else if has_ascii_drive (drop 4 b) \<and> (length b \<le> 6 \<or> sep_at b 6) then 6
         else component_end b 4)
      else if 4 \<le> length b \<and> b ! 2 = DOT \<and> is_sep (b ! 3) True then component_end b 4
      else
        (let server = component_end b 2 in
         if server = 2 \<or> length b \<le> server then 0
         else (let share = component_end b (server + 1) in if share = server + 1 then 0 else share)))"

definition is_verbatim :: "bytes \<Rightarrow> bool" where
  "is_verbatim b \<longleftrightarrow> take 4 b = [BSLASH, BSLASH, 0x3F, BSLASH]"

definition is_verbatim_unc_without_share :: "bytes \<Rightarrow> bool" where
  "is_verbatim_unc_without_share b \<longleftrightarrow>
     starts_verbatim_unc b \<and> is_verbatim b \<and>
     (let parts = split_on (\<lambda>c. c = BSLASH) (drop 8 b) in hd parts = [] \<or> tl parts = [] \<or> hd (tl parts) = [])"

definition is_absolute_name :: "bytes \<Rightarrow> bool \<Rightarrow> bool" where
  "is_absolute_name b windows =
     (if \<not> windows then b \<noteq> [] \<and> hd b = SLASH
      else (case path_type b of
          DriveAbsolute \<Rightarrow> True
        | Unc \<Rightarrow> 0 < windows_prefix_len b \<and> \<not> is_verbatim_unc_without_share b
        | _ \<Rightarrow> False))"

definition needs_base :: "bytes \<Rightarrow> bool \<Rightarrow> bool" where
  "needs_base b windows \<longleftrightarrow>
     (if windows then classify b True = Located \<and> path_type b \<in> {Rooted, Relative}
      else classify b False = Located \<and> \<not> is_absolute_name b False)"

definition is_unc_without_share :: "bytes \<Rightarrow> bool \<Rightarrow> bool" where
  "is_unc_without_share b windows \<longleftrightarrow> windows \<and> path_type b = Unc \<and> windows_prefix_len b = 0"

definition is_drive_relative :: "bytes \<Rightarrow> bool \<Rightarrow> bool" where
  "is_drive_relative b windows \<longleftrightarrow> windows \<and> path_type b = DriveRelative"

definition final_component :: "bytes \<Rightarrow> bool \<Rightarrow> bytes" where
  "final_component b windows = (
     let rest = (if windows then drop (windows_prefix_len b) b else b)
     in case rposition (\<lambda>c. is_sep c windows) rest of Some i \<Rightarrow> drop (i + 1) rest | None \<Rightarrow> rest)"

definition names_no_file :: "bytes \<Rightarrow> bool \<Rightarrow> bool" where
  "names_no_file b windows \<longleftrightarrow> final_component b windows \<in> {[], [DOT], [DOT, DOT]}"

section \<open>Candidates\<close>

definition ends_with_ignore_ascii_case :: "bytes \<Rightarrow> bytes \<Rightarrow> bool" where
  "ends_with_ignore_ascii_case b suffix \<longleftrightarrow>
     length suffix \<le> length b \<and> eq_ignore_ascii_case (drop (length b - length suffix) b) suffix"

definition has_loadable_extension :: "bytes \<Rightarrow> bool" where
  "has_loadable_extension b \<longleftrightarrow> ends_with_ignore_ascii_case b (ascii ''.exe'') \<or> ends_with_ignore_ascii_case b (ascii ''.com'')"

definition push_exe :: "bytes \<Rightarrow> bytes" where
  "push_exe b = b @ ascii ''.exe''"

definition takes_the_exe_fallback :: "bytes \<Rightarrow> bool \<Rightarrow> bool" where
  "takes_the_exe_fallback b windows \<longleftrightarrow>
     \<not> names_no_file b windows \<and> rposition (\<lambda>c. c = DOT) (final_component b windows) \<in> {Some 0, None}"

definition filename_candidates :: "bytes \<Rightarrow> bool \<Rightarrow> Shape \<Rightarrow> bytes list" where
  "filename_candidates b windows shape =
     (if \<not> windows \<or> has_loadable_extension b then [b]
      else (case shape of
          BareName \<Rightarrow> if names_no_file b windows then [b] else [push_exe b]
        | Located \<Rightarrow> if takes_the_exe_fallback b windows then [b, push_exe b] else [b]))"

definition reject_unloadable_image :: "bytes \<Rightarrow> bool \<Rightarrow> Error + unit" where
  "reject_unloadable_image b windows =
     (if \<not> names_no_file b windows \<and> has_loadable_extension b then Inr () else Inl (IoKind InvalidInput))"

definition split_path_var_posix :: "bytes \<Rightarrow> bytes list" where
  "split_path_var_posix b = split_on (\<lambda>c. c = COLON) b"

primrec split_path_loop :: "bytes \<Rightarrow> bytes \<Rightarrow> bool \<Rightarrow> bytes list" where
  "split_path_loop [] current in_quotes = [current]"
| "split_path_loop (c # b) current in_quotes =
     (if c = 0x22 then split_path_loop b current (\<not> in_quotes)
      else if c = 0x3B \<and> \<not> in_quotes then current # split_path_loop b [] in_quotes
      else split_path_loop b (current @ [c]) in_quotes)"

definition split_path_var_windows :: "bytes \<Rightarrow> bytes list" where
  "split_path_var_windows b = split_path_loop b [] False"

definition split_path_var :: "bytes option \<Rightarrow> bool \<Rightarrow> bytes list" where
  "split_path_var var windows = (case var of
      None \<Rightarrow> []
    | Some b \<Rightarrow> if windows then split_path_var_windows b else split_path_var_posix b)"

section \<open>Joining\<close>

definition verbatim_end :: "bytes \<Rightarrow> nat \<Rightarrow> nat" where
  "verbatim_end b at = (case position (\<lambda>c. c = BSLASH) (drop at b) of None \<Rightarrow> length b | Some i \<Rightarrow> at + i)"

definition verbatim_prefix_len :: "bytes \<Rightarrow> nat" where
  "verbatim_prefix_len b =
     (if starts_verbatim_unc b then
        (let server = verbatim_end b 8 in
         if length b \<le> server then length b
         else (let share = verbatim_end b (server + 1) in if share = server + 1 then server else share))
      else if has_ascii_drive (drop 4 b) \<and> (length b \<le> 6 \<or> sep_at b 6) then 6
      else verbatim_end b 4)"

datatype Part = Cur | Parent | Normal bytes

definition part_of :: "bytes \<Rightarrow> Part option" where
  "part_of piece =
     (if piece = [] then None else if piece = [DOT] then Some Cur else if piece = [DOT, DOT] then Some Parent else Some (Normal piece))"

definition part_bytes :: "Part \<Rightarrow> bytes" where
  "part_bytes p = (case p of Cur \<Rightarrow> [DOT] | Parent \<Rightarrow> [DOT, DOT] | Normal piece \<Rightarrow> piece)"

text \<open>One piece of what is appended: empty pieces and \<^verbatim>\<open>.\<close> are dropped, \<^verbatim>\<open>..\<close> takes a name back.\<close>

definition push_piece :: "Part list \<Rightarrow> bytes \<Rightarrow> Part list" where
  "push_piece parts piece =
     (if piece \<in> {[], [DOT]} then parts
      else if piece = [DOT, DOT] then
        (if parts \<noteq> [] \<and> last parts \<notin> {Cur, Parent} then butlast parts else parts)
      else parts @ [Normal piece])"

definition append_verbatim :: "bytes \<Rightarrow> bytes \<Rightarrow> bytes" where
  "append_verbatim base rest = (
     let prefix = verbatim_prefix_len base;
         body0 = drop prefix base;
         body = (if body0 \<noteq> [] \<and> is_sep (hd body0) True then tl body0 else body0);
         parts0 = List.map_filter part_of (split_on (\<lambda>c. c = BSLASH) body);
         parts1 = (if sep_at rest 0 then [] else parts0);
         parts = foldl push_piece parts1 (split_on (\<lambda>c. is_sep c True) rest)
     in take prefix base @ BSLASH # intercalate BSLASH (map part_bytes parts))"

definition append :: "bytes \<Rightarrow> bytes \<Rightarrow> bytes \<Rightarrow> bytes" where
  "append base rest sep =
     (if rest = [] then base
      else if is_verbatim base then append_verbatim base rest
      else if base \<noteq> [] \<and> \<not> is_sep (last base) True \<and> drive_len base \<noteq> Some (length base) then base @ sep @ rest
      else base @ rest)"

definition concat_name :: "bytes \<Rightarrow> bytes \<Rightarrow> bytes \<Rightarrow> bytes" where
  "concat_name base rest sep = (if base \<noteq> [] \<and> is_sep (last base) True then base @ rest else base @ sep @ rest)"

definition join :: "bytes \<Rightarrow> bytes \<Rightarrow> bytes \<Rightarrow> bytes" where
  "join base name sep = (case path_type name of
      Rooted \<Rightarrow> if is_verbatim base then append_verbatim base name else take (windows_prefix_len base) base @ name
    | Relative \<Rightarrow> append base name sep
    | _ \<Rightarrow> name)"

text \<open>\<^verbatim>\<open>PathBuf::join\<close> on POSIX.\<close>

definition posix_join :: "bytes \<Rightarrow> bytes \<Rightarrow> bytes" where
  "posix_join dir name =
     (if name \<noteq> [] \<and> hd name = SLASH then name
      else if dir = [] \<or> last dir = SLASH then dir @ name
      else dir @ SLASH # name)"

definition join_candidate :: "bytes \<Rightarrow> bytes \<Rightarrow> bool \<Rightarrow> bytes" where
  "join_candidate dir cand windows =
     (if \<not> windows then posix_join dir cand else if dir = [] then cand else join dir cand [BSLASH])"

text \<open>\<^verbatim>\<open>Path::is_absolute\<close>: on Windows, a letter drive and a separator, or any prefix of two separators that names something.\<close>

definition std_is_absolute :: "bytes \<Rightarrow> bool \<Rightarrow> bool" where
  "std_is_absolute b windows =
     (if \<not> windows then b \<noteq> [] \<and> hd b = SLASH
      else if sep_at b 0 \<and> sep_at b 1 then
        is_verbatim b \<or> (nth_opt b 2 = Some DOT \<and> sep_at b 3)
        \<or> (let server = component_end b 2 in server \<noteq> 2 \<and> server < length b \<and> component_end b (server + 1) \<noteq> server + 1)
      else has_ascii_drive b \<and> sep_at b 2)"

definition accepted :: "bytes \<Rightarrow> bool \<Rightarrow> bool" where
  "accepted joined windows \<longleftrightarrow> std_is_absolute joined windows \<or> is_absolute_name joined windows"

section \<open>The file system\<close>

text \<open>\<open>fs_metadata\<close> says whether a path is a regular file, \<open>fs_faccessat\<close> is the errno of the check of execute permission, 0 for success.\<close>

record Fs =
  fs_metadata :: "bytes \<Rightarrow> IoError + bool"
  fs_faccessat :: "bytes \<Rightarrow> i32"

definition is_absence :: "IoError \<Rightarrow> bool \<Rightarrow> bool" where
  "is_absence e windows = (case raw_os_error e of
      None \<Rightarrow> e = KindError NotFound
    | Some code \<Rightarrow> if windows then code \<in> {2, 3, 15, 123, 161, 267} else code \<in> {2, 20})"

definition execute_permission :: "i32 \<Rightarrow> IoError + bool" where
  "execute_permission errno =
     (if errno = 0 then Inr True
      else if errno = 13 \<or> is_absence (OsError errno) False then Inr False
      else Inl (OsError errno))"

definition is_execable :: "Fs \<Rightarrow> bytes \<Rightarrow> bool \<Rightarrow> IoError + bool" where
  "is_execable fs path windows = (case fs_metadata fs path of
      Inr False \<Rightarrow> Inr False
    | Inl e \<Rightarrow> if is_absence e windows then Inr False else Inl e
    | Inr True \<Rightarrow>
        if windows then Inr True
        else if 0 \<in> set path then Inr False
        else execute_permission (fs_faccessat fs path))"

section \<open>Resolution\<close>

record ResolveInput =
  ri_program :: bytes
  ri_cwd :: "bytes option"
  ri_system_dirs :: "Error + bytes list"
  ri_path_var :: "bytes option"
  ri_windows :: bool
  ri_loadable_only :: bool
  ri_normalise :: "bytes \<Rightarrow> IoError + bytes"
  ri_current_dir :: "IoError + bytes"
  ri_fs :: Fs

definition is_rooted_on_verbatim :: "bytes \<Rightarrow> bytes option \<Rightarrow> bool" where
  "is_rooted_on_verbatim name base \<longleftrightarrow> path_type name = Rooted \<and> (case base of Some b \<Rightarrow> is_verbatim b | None \<Rightarrow> False)"

text \<open>One candidate in one directory: an error that ends the search, a file, or nothing here.\<close>

definition try_candidate :: "ResolveInput \<Rightarrow> Shape \<Rightarrow> bytes \<Rightarrow> bytes \<Rightarrow> Error + bytes option" where
  "try_candidate inp shape dir cand = (
     let made_verbatim = (ri_windows inp \<and> shape = Located \<and> is_verbatim dir \<and> \<not> is_verbatim cand);
         joined = (if made_verbatim then concat_name dir cand [BSLASH] else join_candidate dir cand (ri_windows inp));
         undetermined = (\<lambda>e. if ri_loadable_only inp then Inl (IoContext e) else Inr None);
         probe = (\<lambda>path. case is_execable (ri_fs inp) path (ri_windows inp) of
             Inl e \<Rightarrow> undetermined e
           | Inr execable \<Rightarrow> Inr (if execable then Some path else None))
     in if \<not> accepted joined (ri_windows inp) then Inr None
        else if made_verbatim then (case ri_normalise inp joined of
            Inr path \<Rightarrow> if names_no_file path True then Inl (IoKind InvalidInput) else probe path
          | Inl e \<Rightarrow> undetermined e)
        else probe joined)"

primrec search_candidates :: "ResolveInput \<Rightarrow> Shape \<Rightarrow> (bytes \<times> bytes) list \<Rightarrow> Error + bytes" where
  "search_candidates inp shape [] = Inl (IoKind NotFound)"
| "search_candidates inp shape (dc # rest) = (case try_candidate inp shape (fst dc) (snd dc) of
      Inl e \<Rightarrow> Inl e
    | Inr (Some path) \<Rightarrow> Inr path
    | Inr None \<Rightarrow> search_candidates inp shape rest)"

text \<open>The directories a name is tried in; \<open>None\<close> where the caller broke the contract on the base.\<close>

definition search_dirs :: "ResolveInput \<Rightarrow> Shape \<Rightarrow> (Error + bytes list) option" where
  "search_dirs inp shape = (case shape of
      Located \<Rightarrow>
        if \<not> needs_base (ri_program inp) (ri_windows inp) then Some (Inr [[]])
        else (case ri_cwd inp of
            None \<Rightarrow> None
          | Some cwd \<Rightarrow>
              if accepted cwd (ri_windows inp) then Some (Inr [cwd])
              else if \<not> ri_windows inp then
                Some (case ri_current_dir inp of Inl e \<Rightarrow> Inl (io_error e) | Inr d \<Rightarrow> Inr [posix_join d cwd])
              else None)
    | BareName \<Rightarrow>
        Some (case (if ri_windows inp then ri_system_dirs inp else Inr []) of
            Inl e \<Rightarrow> Inl e
          | Inr dirs \<Rightarrow> Inr (dirs @ split_path_var (ri_path_var inp) (ri_windows inp))))"

text \<open>The refusals that the string alone decides, before anything is looked for.\<close>

definition refused_on_shape :: "ResolveInput \<Rightarrow> bool" where
  "refused_on_shape inp \<longleftrightarrow> (let name = ri_program inp; windows = ri_windows inp in
     names_no_file name windows \<or> is_drive_relative name windows \<or> is_unc_without_share name windows
     \<or> windows \<and> is_rooted_on_verbatim name (ri_cwd inp))"

definition candidates_of :: "ResolveInput \<Rightarrow> bytes list" where
  "candidates_of inp = (
     let name = ri_program inp;
         cs = filename_candidates name (ri_windows inp) (classify name (ri_windows inp))
     in if ri_loadable_only inp then filter has_loadable_extension cs else cs)"

definition resolve :: "ResolveInput \<Rightarrow> (Error + bytes) option" where
  "resolve inp = (
     let shape = classify (ri_program inp) (ri_windows inp);
         candidates = candidates_of inp
     in if refused_on_shape inp then Some (Inl (IoKind InvalidInput))
        else if ri_loadable_only inp \<and> candidates = [] then Some (Inl (IoKind InvalidInput))
        else (case search_dirs inp shape of
            None \<Rightarrow> None
          | Some (Inl e) \<Rightarrow> Some (Inl e)
          | Some (Inr dirs) \<Rightarrow> Some (search_candidates inp shape (List.product dirs candidates))))"

section \<open>An exact program on POSIX\<close>

record Anchored =
  an_program :: bytes
  an_cwd :: "bytes option"
  an_enter :: bool

definition refuse_unnameable :: "bytes \<Rightarrow> Error + unit" where
  "refuse_unnameable program =
     (if 0 \<in> set program then Inl (IoKind InvalidInput)
      else if names_no_file program False then Inl (IoKind InvalidInput)
      else Inr ())"

definition anchor_posix :: "bytes \<Rightarrow> bytes option \<Rightarrow> Error + Anchored" where
  "anchor_posix program child_cwd = (case refuse_unnameable program of
      Inl e \<Rightarrow> Inl e
    | Inr () \<Rightarrow>
        if program \<noteq> [] \<and> hd program = SLASH then Inr \<lparr>an_program = program, an_cwd = child_cwd, an_enter = False\<rparr>
        else Inr \<lparr>an_program = (if SLASH \<in> set program then program else [DOT, SLASH] @ program), an_cwd = child_cwd, an_enter = True\<rparr>)"

section \<open>Indices stay inside\<close>

lemma component_end_bounds: "at \<le> length b \<Longrightarrow> at \<le> component_end b at \<and> component_end b at \<le> length b"
  by (auto simp: component_end_def position_Some_iff split: option.splits)

lemma verbatim_end_bounds: "at \<le> length b \<Longrightarrow> at \<le> verbatim_end b at \<and> verbatim_end b at \<le> length b"
  by (auto simp: verbatim_end_def position_Some_iff split: option.splits)

lemma nth_opt_Some: "nth_opt xs n = Some x \<longleftrightarrow> n < length xs \<and> xs ! n = x"
  by (auto simp: nth_opt_def)

lemma nth_opt_append: "nth_opt xs n = Some x \<Longrightarrow> nth_opt (xs @ ys) n = Some x"
  by (auto simp: nth_opt_Some nth_append)

lemma resolve_drive_len_bounds: "drive_len b = Some len \<Longrightarrow> 2 \<le> len \<and> len \<le> length b"
  by (auto simp: drive_len_def unit_len_def nth_opt_Some split: list.splits option.splits if_splits)

lemma windows_prefix_len_le: "windows_prefix_len b \<le> length b"
proof -
  have "component_end b (component_end b n + 1) \<le> length b" if "n \<le> length b" "\<not> length b \<le> component_end b n" for n
    using component_end_bounds [of "component_end b n + 1" b] that by simp
  moreover have "starts_verbatim_unc b \<Longrightarrow> 8 \<le> length b" by (simp add: starts_verbatim_unc_def)
  ultimately show ?thesis
    using component_end_bounds [of 4 b] resolve_drive_len_bounds [of b]
    by (auto simp: windows_prefix_len_def Let_def has_ascii_drive_def split: option.splits)
qed

lemma verbatim_prefix_len_bounds: "is_verbatim b \<Longrightarrow> 4 \<le> verbatim_prefix_len b \<and> verbatim_prefix_len b \<le> length b"
proof -
  assume "is_verbatim b"
  then have four: "4 \<le> length b" by (auto simp: is_verbatim_def dest: arg_cong [of _ _ length])
  have "starts_verbatim_unc b \<Longrightarrow> 8 \<le> length b" by (simp add: starts_verbatim_unc_def)
  with four show ?thesis
    using verbatim_end_bounds [of 4 b] verbatim_end_bounds [of 8 b] verbatim_end_bounds [of "verbatim_end b 8 + 1" b]
    by (auto simp: verbatim_prefix_len_def Let_def has_ascii_drive_def)
qed

section \<open>Fully qualified names\<close>

definition fully_qualified :: "bytes \<Rightarrow> bool" where
  "fully_qualified b \<longleftrightarrow> is_verbatim b \<or> path_type b = DriveAbsolute \<or> path_type b = Unc \<and> 0 < windows_prefix_len b"

lemma resolve_sep_at_append: "sep_at b i \<Longrightarrow> sep_at (b @ x) i"
  by (auto simp: sep_at_def nth_opt_append split: option.splits)

lemma sep_at_iff: "sep_at b i \<longleftrightarrow> i < length b \<and> is_sep (b ! i) True"
  by (auto simp: sep_at_def nth_opt_def)

lemma is_verbatim_iff: "is_verbatim b \<longleftrightarrow> (\<exists>r. b = BSLASH # BSLASH # 0x3F # BSLASH # r)"
proof
  assume "is_verbatim b"
  then have "b = [BSLASH, BSLASH, 0x3F, BSLASH] @ drop 4 b" unfolding is_verbatim_def by (metis append_take_drop_id)
  then show "\<exists>r. b = BSLASH # BSLASH # 0x3F # BSLASH # r" by auto
qed (auto simp: is_verbatim_def)

lemma verbatim_is_unc: "is_verbatim b \<Longrightarrow> path_type b = Unc \<and> 0 < windows_prefix_len b"
proof -
  assume v: "is_verbatim b"
  then obtain r where b: "b = BSLASH # BSLASH # 0x3F # BSLASH # r" by (auto simp: is_verbatim_iff)
  have "starts_verbatim_unc b \<Longrightarrow> 8 \<le> length b" by (simp add: starts_verbatim_unc_def)
  then have "0 < windows_prefix_len b"
    using component_end_bounds [of 8 b] component_end_bounds [of 4 b] component_end_bounds [of "component_end b 8 + 1" b]
    by (auto simp: windows_prefix_len_def b is_sep_def Let_def) 
  then show ?thesis by (simp add: path_type_def sep_at_iff b is_sep_def)
qed

lemma component_end_eq: "component_end b n = n \<longleftrightarrow> length b = n \<or> sep_at b n" if "n \<le> length b"
proof (cases "drop n b")
  case (Cons c r)
  then have "n < length b" "b ! n = c" by (metis drop_eq_Nil leI list.distinct(1), metis Cons hd_drop_conv_nth drop_eq_Nil leI list.distinct(1) list.sel(1))
  with Cons show ?thesis by (auto simp: component_end_def sep_at_iff position_Some_iff split: option.splits)
qed (use that in \<open>auto simp: component_end_def sep_at_iff\<close>)

lemma not_verbatim_quad:
  assumes "sep_at b 0" and "sep_at b 1" and "\<not> is_verbatim b"
  shows "\<not> (4 \<le> length b \<and> b ! 2 = 0x3F \<and> is_sep (b ! 3) True \<and> SLASH \<notin> set (take 4 b))"
proof
  assume a: "4 \<le> length b \<and> b ! 2 = 0x3F \<and> is_sep (b ! 3) True \<and> SLASH \<notin> set (take 4 b)"
  then have "b ! i \<noteq> SLASH" if "i < 4" for i using that by (auto simp: in_set_conv_nth)
  with a assms have "b ! 0 = BSLASH" "b ! 1 = BSLASH" "b ! 3 = BSLASH" by (auto simp: is_sep_def sep_at_iff)
  with a have "take 4 b = [BSLASH, BSLASH, 0x3F, BSLASH]" by (intro nth_equalityI) (auto simp: less_Suc_eq numeral_eq_Suc)
  with assms(3) show False by (simp add: is_verbatim_def)
qed

text \<open>What counts as fully qualified, by the reading of the standard library or by cosca's own.\<close>

lemma accepted_windows: "accepted b True \<longleftrightarrow> fully_qualified b"
proof
  assume "accepted b True"
  then consider "std_is_absolute b True" | "is_absolute_name b True" by (auto simp: accepted_def)
  then show "fully_qualified b"
  proof cases
    case 1
    show ?thesis
    proof (cases "sep_at b 0 \<and> sep_at b 1")
      case True
      then have u: "path_type b = Unc" "2 \<le> length b" "is_sep (b ! 0) True" "is_sep (b ! 1) True"
        by (auto simp: path_type_def sep_at_iff)
      show ?thesis
      proof (cases "is_verbatim b")
        case False
        have "0 < windows_prefix_len b"
        proof (cases "nth_opt b 2 = Some DOT \<and> sep_at b 3")
          case True
          with u component_end_bounds [of 4 b] show ?thesis by (auto simp: windows_prefix_len_def nth_opt_Some sep_at_iff)
        next
          case F: False
          with 1 True False have s: "component_end b 2 \<noteq> 2" "component_end b 2 < length b" "component_end b (component_end b 2 + 1) \<noteq> component_end b 2 + 1"
            by (auto simp: std_is_absolute_def Let_def)
          note not_verbatim_quad [OF True [THEN conjunct1] True [THEN conjunct2] False]
          with F u s component_end_bounds [of "component_end b 2 + 1" b] show ?thesis
            by (auto simp: windows_prefix_len_def Let_def nth_opt_def sep_at_iff)
        qed
        with u show ?thesis by (simp add: fully_qualified_def)
      qed (simp add: fully_qualified_def)
    next
      case False
      with 1 have d: "has_ascii_drive b" "sep_at b 2" by (auto simp: std_is_absolute_def)
      then have "b ! 0 < 0x80" by (auto simp: has_ascii_drive_def word_le_def word_less_def)
      with d have "\<not> sep_at b 0" "drive_len b = Some 2"
        by (auto simp: sep_at_iff has_ascii_drive_def is_sep_def drive_len_def unit_len_def nth_opt_def split: list.splits)
      with d show ?thesis by (simp add: fully_qualified_def path_type_def)
    qed
  next
    case 2
    then show ?thesis by (auto simp: is_absolute_name_def fully_qualified_def split: PathType.splits)
  qed
next
  assume "fully_qualified b"
  then consider "is_verbatim b" | "path_type b = DriveAbsolute" | "path_type b = Unc" "0 < windows_prefix_len b" "\<not> is_verbatim b"
    by (auto simp: fully_qualified_def)
  then show "accepted b True"
  proof cases
    case 1
    then have "sep_at b 0 \<and> sep_at b 1" by (auto simp: is_verbatim_iff sep_at_iff is_sep_def)
    with 1 show ?thesis by (simp add: accepted_def std_is_absolute_def)
  qed (auto simp: accepted_def is_absolute_name_def is_verbatim_unc_without_share_def)
qed

lemma resolve_drive_len_append: "drive_len b = Some len \<Longrightarrow> drive_len (b @ x) = Some len"
  by (auto simp: drive_len_def nth_opt_Some nth_append nth_Cons' split: list.splits option.splits if_splits)

lemma drive_absolute_append: "path_type b = DriveAbsolute \<Longrightarrow> path_type (b @ x) = DriveAbsolute"
proof -
  assume a: "path_type b = DriveAbsolute"
  then obtain len where d: "\<not> sep_at b 0" "drive_len b = Some len" "sep_at b len"
    by (auto simp: path_type_def split: if_splits option.splits)
  moreover have "0 < length b" using resolve_drive_len_bounds [OF d(2)] by linarith
  ultimately show ?thesis
    by (auto simp: path_type_def resolve_drive_len_append resolve_sep_at_append) (auto simp: sep_at_iff nth_append)
qed

text \<open>A name of two separators that names a share or a device, and is not verbatim.\<close>

lemma unc_prefix_iff:
  assumes "path_type b = Unc" and "\<not> is_verbatim b"
  shows "0 < windows_prefix_len b \<longleftrightarrow> (nth_opt b 2 = Some DOT \<and> sep_at b 3)
    \<or> component_end b 2 \<noteq> 2 \<and> component_end b 2 < length b \<and> component_end b (component_end b 2 + 1) \<noteq> component_end b 2 + 1"
    (is "?l \<longleftrightarrow> ?r")
proof
  have s: "sep_at b 0 \<and> sep_at b 1" using assms(1) by (auto simp: path_type_def split: if_splits option.splits)
  show "?r \<Longrightarrow> ?l"
    using s assms accepted_windows [of b] by (auto simp: accepted_def std_is_absolute_def Let_def fully_qualified_def)
  assume l: ?l
  note not_verbatim_quad [OF s [THEN conjunct1] s [THEN conjunct2] assms(2)]
  with l s show ?r by (auto simp: windows_prefix_len_def Let_def nth_opt_def sep_at_iff split: if_splits)
qed

lemma unc_share_qualified:
  assumes "path_type b = Unc" and "component_end b 2 \<noteq> 2" and "component_end b 2 < length b"
    and "component_end b (component_end b 2 + 1) \<noteq> component_end b 2 + 1"
  shows "fully_qualified b"
proof (cases "is_verbatim b")
  case False
  with unc_prefix_iff [OF assms(1)] assms show ?thesis by (simp add: fully_qualified_def)
qed (simp add: fully_qualified_def)

lemma resolve_position_append: "position P xs = Some i \<Longrightarrow> position P (xs @ ys) = Some i"
  by (auto simp: position_Some_iff nth_append)

lemma component_end_append: "at \<le> length b \<Longrightarrow> component_end b at < length b \<Longrightarrow> component_end (b @ x) at = component_end b at"
  by (auto simp: component_end_def resolve_position_append split: option.splits)

lemma unc_append:
  assumes "path_type b = Unc" and "0 < windows_prefix_len b" and "\<not> is_verbatim b"
  shows "fully_qualified (b @ x)"
proof (cases "is_verbatim (b @ x)")
  case False
  have u: "path_type (b @ x) = Unc"
    using assms(1) by (auto simp: path_type_def resolve_sep_at_append split: if_splits option.splits)
  let ?e = "component_end b 2"
  have two: "2 \<le> length b" using assms(1) by (auto simp: path_type_def sep_at_iff split: if_splits option.splits)
  from unc_prefix_iff [OF assms(1,3)] assms(2)
  consider "nth_opt b 2 = Some DOT" "sep_at b 3" | "?e \<noteq> 2" "?e < length b" "component_end b (?e + 1) \<noteq> ?e + 1" by blast
  then have "0 < windows_prefix_len (b @ x)"
  proof cases
    case 1
    then show ?thesis using unc_prefix_iff [OF u False] by (simp add: nth_opt_append resolve_sep_at_append)
  next
    case 2
    have e: "component_end (b @ x) 2 = ?e" by (rule component_end_append [OF two 2(2)])
    from 2(2,3) have "length b \<noteq> ?e + 1 \<and> \<not> sep_at b (?e + 1)" using component_end_eq [of "?e + 1" b] by simp
    with 2(2) have "?e + 1 < length b" "\<not> sep_at (b @ x) (?e + 1)" by (auto simp: sep_at_iff nth_append)
    then have "component_end (b @ x) (?e + 1) \<noteq> ?e + 1" using component_end_eq [of "?e + 1" "b @ x"] by simp
    with 2 e show ?thesis using unc_prefix_iff [OF u False] by simp
  qed
  with u show ?thesis by (simp add: fully_qualified_def)
qed (simp add: fully_qualified_def)

lemma verbatim_append: "is_verbatim b \<Longrightarrow> is_verbatim (b @ x)"
  by (auto simp: is_verbatim_iff)

lemma fully_qualified_append: "fully_qualified b \<Longrightarrow> fully_qualified (b @ x)"
  using unc_append [of b x] verbatim_append [of b x] drive_absolute_append [of b x] by (auto simp: fully_qualified_def)

lemma append_verbatim_verbatim: "is_verbatim b \<Longrightarrow> is_verbatim (append_verbatim b r)"
proof -
  assume v: "is_verbatim b"
  from verbatim_prefix_len_bounds [OF v] have "take 4 (take (verbatim_prefix_len b) b @ x) = take 4 b" for x
    by (simp add: min_def)
  with v show ?thesis by (simp add: append_verbatim_def Let_def is_verbatim_def)
qed

lemma component_end_take:
  assumes "at \<le> length b" and "component_end b at < length b" and "component_end b at < n"
  shows "component_end (take n b @ x) at = component_end b at"
proof -
  from assms(2) obtain i where i: "position (\<lambda>c. is_sep c True) (drop at b) = Some i" "component_end b at = at + i"
    by (auto simp: component_end_def split: option.splits)
  have "drop at (take n b @ x) = take (n - at) (drop at b) @ drop (at - length (take n b)) x" by (simp add: drop_take)
  moreover have "position (\<lambda>c. is_sep c True) (take (n - at) (drop at b)) = Some i"
    using i assms by (auto simp: position_Some_iff min_def)
  ultimately show ?thesis using i by (simp add: component_end_def resolve_position_append)
qed

text \<open>The prefix of a fully qualified name, with a rooted name after it, is fully qualified.\<close>

lemma rooted_on_prefix:
  assumes "fully_qualified b" and "\<not> is_verbatim b" and "path_type name = Rooted"
  shows "fully_qualified (take (windows_prefix_len b) b @ name)"
proof -
  from assms(3) obtain c r where name: "name = c # r" "is_sep c True"
    by (cases name) (auto simp: path_type_def sep_at_iff split: if_splits option.splits)
  from assms(1,2) consider "path_type b = DriveAbsolute" | "path_type b = Unc" "0 < windows_prefix_len b" by (auto simp: fully_qualified_def)
  then show ?thesis
  proof cases
    case 1
    then obtain len where d: "\<not> sep_at b 0" "drive_len b = Some len" by (auto simp: path_type_def split: if_splits option.splits)
    then have p: "windows_prefix_len b = len" by (auto simp: windows_prefix_len_def sep_at_iff)
    note l = resolve_drive_len_bounds [OF d(2)]
    have "drive_len (take len b) = Some len"
      using d(2) l by (auto simp: drive_len_def nth_opt_Some take_Cons' split: list.splits option.splits if_splits)
    from resolve_drive_len_append [OF this] have "drive_len (take len b @ name) = Some len" by simp
    moreover have "\<not> sep_at (take len b @ name) 0" using d(1) l by (auto simp: sep_at_iff nth_append)
    moreover have "sep_at (take len b @ name) len" using l name by (auto simp: sep_at_iff nth_append)
    ultimately show ?thesis by (simp add: fully_qualified_def path_type_def p)
  next
    case 2
    let ?n = "windows_prefix_len b" and ?e = "component_end b 2"
    let ?b = "take ?n b @ name"
    have s: "sep_at b 0" "sep_at b 1" using 2(1) by (auto simp: path_type_def split: if_splits option.splits)
    note q = not_verbatim_quad [OF s assms(2)] and le = windows_prefix_len_le [of b]
    have keep: "sep_at ?b i = sep_at b i" if "i < ?n" for i using that le by (auto simp: sep_at_iff nth_append)
    show ?thesis
    proof (cases "nth_opt b 2 = Some DOT \<and> sep_at b 3")
      case True
      then have n: "?n = component_end b 4" using s q by (auto simp: windows_prefix_len_def nth_opt_Some sep_at_iff)
      then have "4 \<le> ?n" using component_end_bounds [of 4 b] True by (auto simp: sep_at_iff)
      then have "path_type ?b = Unc" "nth_opt ?b 2 = Some DOT" "sep_at ?b 3"
        using s True keep le by (auto simp: path_type_def nth_opt_Some nth_append)
      then show ?thesis using unc_prefix_iff [of ?b] unfolding fully_qualified_def by blast
    next
      case False
      with unc_prefix_iff [OF 2(1) assms(2)] 2(2)
      have e: "?e \<noteq> 2" "?e < length b" "component_end b (?e + 1) \<noteq> ?e + 1" by auto
      then have n: "?n = component_end b (?e + 1)" using s q False by (auto simp: windows_prefix_len_def Let_def nth_opt_def sep_at_iff)
      have two: "2 \<le> length b" using s by (simp add: sep_at_iff)
      have n': "?e + 1 < ?n" using component_end_bounds [of "?e + 1" b] e n by simp
      have "2 \<le> ?e" using component_end_bounds [OF two] by simp
      then have u: "path_type ?b = Unc" using s keep n' by (simp add: path_type_def)
      have e': "component_end ?b 2 = ?e" using component_end_take [OF two e(2), of ?n name] n' by simp
      have "\<not> sep_at b (?e + 1)" "length b \<noteq> ?e + 1" using e component_end_eq [of "?e + 1" b] by auto
      then have "component_end ?b (?e + 1) \<noteq> ?e + 1" using component_end_eq [of "?e + 1" ?b] keep [OF n'] n' le by simp
      moreover have "?e < length ?b" using n' le by simp
      ultimately show ?thesis by (intro unc_share_qualified [OF u]) (simp_all only: e' e(1) not_False_eq_True)
    qed
  qed
qed

lemma join_fully_qualified:
  assumes "fully_qualified base" and "path_type name \<in> {Rooted, Relative}"
  shows "fully_qualified (join base name sep)"
proof -
  have v: "fully_qualified (append_verbatim base r)" if "is_verbatim base" for r
    using append_verbatim_verbatim [OF that] by (simp add: fully_qualified_def)
  show ?thesis
  proof (cases "path_type name")
    case Rooted
    then show ?thesis using v rooted_on_prefix [OF assms(1)] by (simp add: join_def)
  next
    case Relative
    then show ?thesis using v fully_qualified_append [OF assms(1)] assms(1) by (auto simp: join_def append_def)
  qed (use assms(2) in auto)
qed

section \<open>What is loaded\<close>

text \<open>The reference: the file a Windows spawn loads is the first of these places that is a regular file. A bare name is looked for in the fully qualified directories among those of the system and of
  \<^verbatim>\<open>PATH\<close>, with \<^verbatim>\<open>.exe\<close> unless it has a loadable extension; any other name is read against the base alone.\<close>

definition search_name :: "bytes \<Rightarrow> bytes" where
  "search_name name = (if has_loadable_extension name then name else push_exe name)"

definition bare_places :: "bytes \<Rightarrow> bytes list \<Rightarrow> bytes list" where
  "bare_places name dirs = filter fully_qualified (map (\<lambda>d. join_candidate d (search_name name) True) dirs)"

definition located_places :: "bytes \<Rightarrow> bytes \<Rightarrow> bytes list" where
  "located_places name base = (
     let names = (if \<not> has_loadable_extension name \<and> takes_the_exe_fallback name True then [name, push_exe name] else [name])
     in if needs_base name True then map (\<lambda>n. join base n [BSLASH]) names else names)"

definition first_file :: "Fs \<Rightarrow> bytes list \<Rightarrow> Error + bytes" where
  "first_file fs places = (case find (\<lambda>q. fs_metadata fs q = Inr True) places of Some q \<Rightarrow> Inr q | None \<Rightarrow> Inl (IoKind NotFound))"

lemma is_execable_windows: "is_execable fs q True = Inr True \<longleftrightarrow> fs_metadata fs q = Inr True"
  by (auto simp: is_execable_def split: sum.splits bool.splits)

lemma search_candidates_find:
  assumes "\<And>d c. (d, c) \<in> set ps \<Longrightarrow> try_candidate inp shape d c = Inr (if OK (q d c) then Some (q d c) else None)"
  shows "search_candidates inp shape ps = (case find OK (map (\<lambda>(d, c). q d c) ps) of Some x \<Rightarrow> Inr x | None \<Rightarrow> Inl (IoKind NotFound))"
  using assms
proof (induction ps)
  case (Cons a ps)
  from Cons.prems [of "fst a" "snd a"] Cons.IH Cons.prems show ?case by (cases a) auto
qed simp

lemma find_filter: "find P (filter Q xs) = find (\<lambda>x. Q x \<and> P x) xs"
  by (induction xs) auto

lemma try_plain:
  assumes "ri_windows inp" and "\<not> ri_loadable_only inp" and "shape = BareName \<or> \<not> is_verbatim d"
  shows "try_candidate inp shape d c = Inr (if fully_qualified (join_candidate d c True) \<and> fs_metadata (ri_fs inp) (join_candidate d c True) = Inr True
    then Some (join_candidate d c True) else None)"
proof -
  have "\<not> (ri_windows inp \<and> shape = Located \<and> is_verbatim d \<and> \<not> is_verbatim c)" using assms(3) by auto
  then show ?thesis
    unfolding try_candidate_def Let_def using assms(1,2) is_execable_windows [of "ri_fs inp" "join_candidate d c True"]
    by (auto simp: accepted_windows split: sum.splits)
qed

lemma candidates_bare:
  assumes "ri_windows inp" and "\<not> ri_loadable_only inp" and "classify (ri_program inp) True = BareName" and "\<not> names_no_file (ri_program inp) True"
  shows "candidates_of inp = [search_name (ri_program inp)]"
  using assms by (simp add: candidates_of_def filename_candidates_def search_name_def)

lemma resolve_bare:
  assumes "ri_windows inp" and "\<not> ri_loadable_only inp" and "classify (ri_program inp) True = BareName" and "\<not> refused_on_shape inp"
    and "ri_system_dirs inp = Inr sys"
  shows "resolve inp = Some (first_file (ri_fs inp) (bare_places (ri_program inp) (sys @ split_path_var (ri_path_var inp) True)))"
proof -
  let ?dirs = "sys @ split_path_var (ri_path_var inp) True" and ?c = "search_name (ri_program inp)"
  let ?q = "\<lambda>d c. join_candidate d c True"
  have c: "candidates_of inp = [?c]" using assms by (intro candidates_bare) (auto simp: refused_on_shape_def)
  have d: "search_dirs inp BareName = Some (Inr ?dirs)" using assms by (simp add: search_dirs_def)
  have "search_candidates inp BareName (List.product ?dirs [?c])
      = (case find (\<lambda>q. fully_qualified q \<and> fs_metadata (ri_fs inp) q = Inr True) (map (\<lambda>(d, c). ?q d c) (List.product ?dirs [?c])) of
          Some x \<Rightarrow> Inr x | None \<Rightarrow> Inl (IoKind NotFound))"
    by (rule search_candidates_find) (simp add: try_plain assms)
  moreover have "map (\<lambda>(d, c). ?q d c) (List.product ds [?c]) = map (\<lambda>d. ?q d ?c) ds" for ds by (induction ds) auto
  ultimately have "search_candidates inp BareName (List.product ?dirs [?c]) = first_file (ri_fs inp) (bare_places (ri_program inp) ?dirs)"
    unfolding first_file_def bare_places_def find_filter by simp
  then show ?thesis using assms(1-4) c d by (simp add: resolve_def)
qed

lemma push_exe_type:
  assumes "name \<noteq> []"
  shows "path_type (push_exe name) \<in> {Rooted, Relative} \<longleftrightarrow> path_type name \<in> {Rooted, Relative}"
proof -
  have "drive_len (push_exe name) = drive_len name"
    using assms by (auto simp: drive_len_def push_exe_def nth_opt_def nth_append nth_Cons' of_char_def split: list.splits option.splits)
  moreover have "sep_at (push_exe name) 0 = sep_at name 0" using assms by (auto simp: push_exe_def sep_at_iff nth_append)
  moreover have "sep_at (push_exe name) 1 = sep_at name 1" using assms
    by (cases "length name = 1") (auto simp: push_exe_def sep_at_iff nth_append is_sep_def of_char_def nth_Cons')
  ultimately show ?thesis by (auto simp: path_type_def split: option.splits)
qed

lemma names_no_file_Nil: "names_no_file [] w"
  by (simp add: names_no_file_def final_component_def Let_def)

lemma resolve_located:
  assumes "ri_windows inp" and "\<not> ri_loadable_only inp" and "classify (ri_program inp) True = Located" and "\<not> refused_on_shape inp"
    and "needs_base (ri_program inp) True \<longrightarrow> ri_cwd inp = Some base \<and> fully_qualified base \<and> \<not> is_verbatim base"
  shows "resolve inp = Some (first_file (ri_fs inp) (located_places (ri_program inp) base))"
proof -
  let ?name = "ri_program inp"
  define dir where "dir = (if needs_base ?name True then base else [])"
  have name: "?name \<noteq> []" "\<not> is_drive_relative ?name True" "\<not> is_unc_without_share ?name True" "\<not> names_no_file ?name True"
    using assms(1,4) names_no_file_Nil [of True] by (auto simp: refused_on_shape_def Let_def)
  have dir: "\<not> is_verbatim dir" using assms(5) by (auto simp: dir_def is_verbatim_def)
  define cs where "cs = candidates_of inp"
  have cs: "cs = (if \<not> has_loadable_extension ?name \<and> takes_the_exe_fallback ?name True then [?name, push_exe ?name] else [?name])"
    using assms(1-3) by (simp add: cs_def candidates_of_def filename_candidates_def Let_def)
  have d: "search_dirs inp Located = Some (Inr [dir])"
    using assms(1,5) by (auto simp: search_dirs_def dir_def accepted_windows)
  have q: "fully_qualified (join_candidate dir c True)" if "c \<in> set cs" for c
  proof (cases "needs_base ?name True")
    case True
    then have "path_type ?name \<in> {Rooted, Relative}" by (simp add: needs_base_def)
    then have "path_type c \<in> {Rooted, Relative}" using push_exe_type [OF name(1)] that by (auto simp: cs split: if_splits)
    moreover have "fully_qualified base" "base \<noteq> []"
      using True assms(5) by (auto simp: fully_qualified_def is_verbatim_def path_type_def sep_at_def nth_opt_def drive_len_def)
    ultimately show ?thesis using True join_fully_qualified [of base c "[BSLASH]"] by (simp add: join_candidate_def dir_def)
  next
    case False
    then have "path_type ?name \<in> {DriveAbsolute, Unc}" "path_type ?name = Unc \<longrightarrow> 0 < windows_prefix_len ?name"
      using name assms(3) by (cases "path_type ?name"; auto simp: needs_base_def is_drive_relative_def is_unc_without_share_def)+
    then have "fully_qualified ?name" by (auto simp: fully_qualified_def)
    then have "fully_qualified c" using that fully_qualified_append by (auto simp: cs push_exe_def split: if_splits)
    then show ?thesis using False by (simp add: join_candidate_def dir_def)
  qed
  have "search_candidates inp Located (List.product [dir] cs)
      = (case find (\<lambda>q. fs_metadata (ri_fs inp) q = Inr True) (map (\<lambda>(d, c). join_candidate d c True) (List.product [dir] cs)) of
          Some x \<Rightarrow> Inr x | None \<Rightarrow> Inl (IoKind NotFound))"
    using q dir by (intro search_candidates_find) (auto simp: try_plain assms)
  moreover have "map (\<lambda>(d, c). join_candidate d c True) (List.product [dir] cs) = located_places ?name base"
    using assms(5) by (auto simp: located_places_def cs dir_def join_candidate_def Let_def fully_qualified_def is_verbatim_def path_type_def sep_at_def nth_opt_def drive_len_def)
  ultimately have "search_candidates inp Located (List.product [dir] cs) = first_file (ri_fs inp) (located_places ?name base)"
    by (simp add: first_file_def)
  then show ?thesis using assms(1-4) d by (simp add: resolve_def cs_def)
qed



lemma search_candidates_cong:
  "(\<And>d c. try_candidate inp shape d c = try_candidate inp' shape d c) \<Longrightarrow> search_candidates inp shape ps = search_candidates inp' shape ps"
  by (induction ps) (simp_all cong: sum.case_cong option.case_cong)

lemma try_candidate_execable: "try_candidate inp shape d c = Inr (Some p) \<Longrightarrow> is_execable (ri_fs inp) p (ri_windows inp) = Inr True"
  unfolding try_candidate_def Let_def by (auto split: sum.splits if_splits)

lemma search_candidates_execable: "search_candidates inp shape ps = Inr p \<Longrightarrow> is_execable (ri_fs inp) p (ri_windows inp) = Inr True"
  by (induction ps) (auto dest: try_candidate_execable split: sum.splits option.splits)

lemma bare_not_rooted: "classify b True = BareName \<Longrightarrow> path_type b \<noteq> Rooted"
  by (auto simp: classify_def path_type_def sep_at_iff list_ex_iff split: if_splits option.splits)

text \<open>A bare name is never read against a current directory: neither the child's working directory nor this process's changes the answer; and no other name is searched for: neither \<^verbatim>\<open>PATH\<close> nor
  the directories of the system change it. On every platform the answer is an executable file.\<close>

theorem search_is_not_location:
  "(if classify (ri_program inp) (ri_windows inp) = BareName
     then resolve (inp\<lparr>ri_cwd := cwd, ri_current_dir := here, ri_normalise := norm\<rparr>) = resolve inp
     else resolve (inp\<lparr>ri_system_dirs := sys, ri_path_var := path\<rparr>) = resolve inp)
   \<and> (case resolve inp of Some (Inr p) \<Rightarrow> is_execable (ri_fs inp) p (ri_windows inp) = Inr True | _ \<Rightarrow> True)"
proof
  show "if classify (ri_program inp) (ri_windows inp) = BareName
     then resolve (inp\<lparr>ri_cwd := cwd, ri_current_dir := here, ri_normalise := norm\<rparr>) = resolve inp
     else resolve (inp\<lparr>ri_system_dirs := sys, ri_path_var := path\<rparr>) = resolve inp"
  proof (cases "classify (ri_program inp) (ri_windows inp)")
    case BareName
    let ?inp = "inp\<lparr>ri_cwd := cwd, ri_current_dir := here, ri_normalise := norm\<rparr>"
    have "search_candidates ?inp BareName ps = search_candidates inp BareName ps" for ps
      by (rule search_candidates_cong) (cases inp, simp add: try_candidate_def Let_def split: sum.split)
    moreover have "refused_on_shape ?inp = refused_on_shape inp"
      using BareName by (auto simp: refused_on_shape_def is_rooted_on_verbatim_def Let_def dest: bare_not_rooted)
    moreover have "search_dirs ?inp BareName = search_dirs inp BareName" "candidates_of ?inp = candidates_of inp"
      by (simp_all add: search_dirs_def candidates_of_def split: sum.split)
    ultimately show ?thesis using BareName by (simp add: resolve_def Let_def split: option.split sum.split)
  next
    case Located
    let ?inp = "inp\<lparr>ri_system_dirs := sys, ri_path_var := path\<rparr>"
    have "search_candidates ?inp Located ps = search_candidates inp Located ps" for ps
      by (rule search_candidates_cong) (cases inp, simp add: try_candidate_def Let_def split: sum.split)
    moreover have "refused_on_shape ?inp = refused_on_shape inp" by (simp add: refused_on_shape_def)
    moreover have "search_dirs ?inp Located = search_dirs inp Located" "candidates_of ?inp = candidates_of inp"
      by (simp_all add: search_dirs_def candidates_of_def split: option.split sum.split)
    ultimately show ?thesis using Located by (simp add: resolve_def Let_def split: option.split sum.split)
  qed
  show "case resolve inp of Some (Inr p) \<Rightarrow> is_execable (ri_fs inp) p (ri_windows inp) = Inr True | _ \<Rightarrow> True"
    using search_candidates_execable by (auto simp: resolve_def Let_def split: option.splits sum.splits)
qed

end
