(* ===== verification/Windows_Env.thy ===== *)
theory Windows_Env
  imports Spawn_Flags
begin

text \<open>
  The environment of a Windows child: \<^verbatim>\<open>src/src/child/spawn/windows_raw/env_key.rs\<close>, \<^verbatim>\<open>windows_raw/env_snapshot.rs\<close> and \<^verbatim>\<open>ChildEnv\<close> of
  \<^verbatim>\<open>windows_raw/resolve.rs\<close>, with the standard library's \<^verbatim>\<open>CommandEnv\<close>, which records the changes. An \<^verbatim>\<open>OsString\<close> is its UTF-16 units here: it is made from them and only read as
  them. \<^verbatim>\<open>CompareStringOrdinal\<close> is the argument \<open>cso\<close>.
\<close>

type_synonym wide = "u16 list"

abbreviation EQUALS :: u16 where "EQUALS \<equiv> 0x3D"

section \<open>Keys\<close>

function chunks :: "nat \<Rightarrow> 'a list \<Rightarrow> 'a list list" where
  "chunks n xs = (if n = 0 \<or> xs = [] then [] else take n xs # chunks n (drop n xs))"
  by auto

termination
  by (relation "measure (length \<circ> snd)") auto

declare chunks.simps [simp del]

definition MAX_CHUNK :: nat where "MAX_CHUNK = 2147483647"

primrec cmp_chunks :: "(wide \<Rightarrow> wide \<Rightarrow> Ordering) \<Rightarrow> (wide \<times> wide) list \<Rightarrow> Ordering \<Rightarrow> Ordering" where
  "cmp_chunks cso [] final = final"
| "cmp_chunks cso (p # ps) final = (case cso (fst p) (snd p) of
      Equal \<Rightarrow> cmp_chunks cso ps final
    | o' \<Rightarrow> o')"

definition cmp_ignore_case :: "(wide \<Rightarrow> wide \<Rightarrow> Ordering) \<Rightarrow> nat \<Rightarrow> wide \<Rightarrow> wide \<Rightarrow> Ordering" where
  "cmp_ignore_case cso chunk a b = cmp_chunks cso (zip (chunks chunk a) (chunks chunk b)) (cmp_of (length a) (length b))"

definition env_key_cmp :: "(wide \<Rightarrow> wide \<Rightarrow> Ordering) \<Rightarrow> wide \<Rightarrow> wide \<Rightarrow> Ordering" where
  "env_key_cmp cso a b = cmp_ignore_case cso MAX_CHUNK a b"

definition env_key_eq :: "(wide \<Rightarrow> wide \<Rightarrow> Ordering) \<Rightarrow> wide \<Rightarrow> wide \<Rightarrow> bool" where
  "env_key_eq cso a b \<longleftrightarrow> length a = length b \<and> env_key_cmp cso a b = Equal"

text \<open>\<^verbatim>\<open>BTreeMap<EnvKey, V>\<close>: \<^verbatim>\<open>insert\<close> keeps an equal key that is there.\<close>

fun env_insert :: "(wide \<Rightarrow> wide \<Rightarrow> Ordering) \<Rightarrow> wide \<Rightarrow> 'v \<Rightarrow> (wide \<times> 'v) list \<Rightarrow> (wide \<times> 'v) list" where
  "env_insert cso k v [] = [(k, v)]"
| "env_insert cso k v ((k', v') # m) = (case env_key_cmp cso k k' of
      Less \<Rightarrow> (k, v) # (k', v') # m
    | Equal \<Rightarrow> (k', v) # m
    | Greater \<Rightarrow> (k', v') # env_insert cso k v m)"

definition env_remove :: "(wide \<Rightarrow> wide \<Rightarrow> Ordering) \<Rightarrow> wide \<Rightarrow> (wide \<times> 'v) list \<Rightarrow> (wide \<times> 'v) list" where
  "env_remove cso k m = filter (\<lambda>(k', _). env_key_cmp cso k k' \<noteq> Equal) m"

definition env_get :: "(wide \<Rightarrow> wide \<Rightarrow> Ordering) \<Rightarrow> wide \<Rightarrow> (wide \<times> 'v) list \<Rightarrow> 'v option" where
  "env_get cso k m = map_option snd (find (\<lambda>(k', _). env_key_cmp cso k k' = Equal) m)"

section \<open>The snapshot\<close>

definition from_block :: "wide \<Rightarrow> wide" where
  "from_block block = (if length block = 1 then block @ [0] else block)"

definition entry_var :: "wide \<Rightarrow> (wide \<times> wide) option" where
  "entry_var entry = (case position (\<lambda>u. u = EQUALS) (tl entry) of
      None \<Rightarrow> None
    | Some i \<Rightarrow> Some (take (i + 1) entry, drop (i + 2) entry))"

definition snapshot_vars :: "wide \<Rightarrow> (wide \<times> wide) list" where
  "snapshot_vars block = List.map_filter entry_var (filter (\<lambda>e. e \<noteq> []) (split_on (\<lambda>u. u = 0) (butlast block)))"

definition snapshot_var :: "(wide \<Rightarrow> wide \<Rightarrow> Ordering) \<Rightarrow> wide \<Rightarrow> wide \<Rightarrow> wide option" where
  "snapshot_var cso block name = map_option snd (find (\<lambda>(k, _). env_key_eq cso k name) (snapshot_vars block))"

section \<open>The child's environment\<close>

datatype WEnvOp = WSet wide wide | WRemove wide | WClear

text \<open>\<^verbatim>\<open>std::process::CommandEnv\<close>, and \<^verbatim>\<open>apply_env\<close> on it.\<close>

record CommandEnv =
  ce_clear :: bool
  ce_vars :: "(wide \<times> wide option) list"

definition env_op :: "(wide \<Rightarrow> wide \<Rightarrow> Ordering) \<Rightarrow> CommandEnv \<Rightarrow> WEnvOp \<Rightarrow> CommandEnv" where
  "env_op cso ce op = (case op of
      WSet k v \<Rightarrow> ce\<lparr>ce_vars := env_insert cso k (Some v) (ce_vars ce)\<rparr>
    | WRemove k \<Rightarrow>
        if ce_clear ce then ce\<lparr>ce_vars := env_remove cso k (ce_vars ce)\<rparr>
        else ce\<lparr>ce_vars := env_insert cso k None (ce_vars ce)\<rparr>
    | WClear \<Rightarrow> \<lparr>ce_clear = True, ce_vars = []\<rparr>)"

definition apply_env :: "(wide \<Rightarrow> wide \<Rightarrow> Ordering) \<Rightarrow> WEnvOp list \<Rightarrow> CommandEnv" where
  "apply_env cso ops = foldl (env_op cso) \<lparr>ce_clear = False, ce_vars = []\<rparr> ops"

definition WPATH :: wide where "WPATH = [0x50, 0x41, 0x54, 0x48]"

datatype ChildEnv = Inherited wide "wide option" | Captured "(wide \<times> wide) list"

definition inherit :: "(wide \<Rightarrow> wide \<Rightarrow> Ordering) \<Rightarrow> wide \<Rightarrow> ChildEnv" where
  "inherit cso snapshot = Inherited snapshot (snapshot_var cso snapshot WPATH)"

definition apply_change :: "(wide \<Rightarrow> wide \<Rightarrow> Ordering) \<Rightarrow> (wide \<times> wide) list \<Rightarrow> wide \<times> wide option \<Rightarrow> (wide \<times> wide) list" where
  "apply_change cso vars change = (case change of
      (k, Some v) \<Rightarrow> env_insert cso k v vars
    | (k, None) \<Rightarrow> env_remove cso k vars)"

definition base_vars :: "(wide \<Rightarrow> wide \<Rightarrow> Ordering) \<Rightarrow> wide \<Rightarrow> (wide \<times> wide) list" where
  "base_vars cso snapshot = foldl (\<lambda>vars (k, v). env_insert cso k v vars) [] (snapshot_vars snapshot)"

definition captured :: "(wide \<Rightarrow> wide \<Rightarrow> Ordering) \<Rightarrow> wide \<Rightarrow> WEnvOp list \<Rightarrow> (wide \<times> wide) list" where
  "captured cso snapshot ops =
     foldl (apply_change cso) (if WClear \<in> set ops then [] else base_vars cso snapshot) (ce_vars (apply_env cso ops))"

definition capture :: "(wide \<Rightarrow> wide \<Rightarrow> Ordering) \<Rightarrow> wide \<Rightarrow> WEnvOp list \<Rightarrow> ChildEnv" where
  "capture cso snapshot ops = Captured (captured cso snapshot ops)"

definition env_path :: "(wide \<Rightarrow> wide \<Rightarrow> Ordering) \<Rightarrow> ChildEnv \<Rightarrow> wide option" where
  "env_path cso env = (case env of Inherited _ path \<Rightarrow> path | Captured vars \<Rightarrow> env_get cso WPATH vars)"

definition ensure_no_nul_wide :: "wide \<Rightarrow> Error + unit" where
  "ensure_no_nul_wide s = (if 0 \<in> set s then Inl (IoKind InvalidInput) else Inr ())"

primrec block_entries :: "(wide \<times> wide) list \<Rightarrow> Error + wide" where
  "block_entries [] = Inr []"
| "block_entries (kv # m) = (case ensure_no_nul_wide (fst kv) of
      Inl e \<Rightarrow> Inl e
    | Inr _ \<Rightarrow> (case ensure_no_nul_wide (snd kv) of
          Inl e \<Rightarrow> Inl e
        | Inr _ \<Rightarrow> (case block_entries m of
              Inl e \<Rightarrow> Inl e
            | Inr rest \<Rightarrow> Inr (fst kv @ EQUALS # snd kv @ 0 # rest))))"

definition into_block :: "ChildEnv \<Rightarrow> Error + wide" where
  "into_block env = (case env of
      Inherited block _ \<Rightarrow> Inr block
    | Captured vars \<Rightarrow> (case block_entries vars of
          Inl e \<Rightarrow> Inl e
        | Inr b \<Rightarrow> Inr ((if vars = [] then [0] else []) @ b @ [0])))"

text \<open>\<^verbatim>\<open>child_ops\<close>: the marker of a contained root, after the caller's own changes. \<^verbatim>\<open>spawn_env\<close> reads the environment once and makes the block of it.\<close>

definition NESTED_ENV :: wide where
  "NESTED_ENV = map of_char ''__COSCA_GROUP_ROOT''"

definition child_ops :: "WEnvOp list \<Rightarrow> bool \<Rightarrow> WEnvOp list" where
  "child_ops ops marker_env = (if marker_env then ops @ [WSet NESTED_ENV [0x31]] else ops)"

record SpawnEnv =
  se_path :: "wide option"
  se_block :: wide
  se_is_root :: bool
  se_marker_env :: bool

definition spawn_env :: "(wide \<Rightarrow> wide \<Rightarrow> Ordering) \<Rightarrow> Error + wide \<Rightarrow> WEnvOp list \<Rightarrow> ContainRequest \<Rightarrow> Error + SpawnEnv" where
  "spawn_env cso snapshot_read env_ops req = (case snapshot_read of
      Inl e \<Rightarrow> Inl e
    | Inr raw \<Rightarrow> (
        let snapshot = from_block raw;
            is_root = (snapshot_var cso snapshot NESTED_ENV = None);
            marker_env = wc_marker_env (windows_contain_setup req is_root);
            ops = child_ops env_ops marker_env;
            child_env = (if ops = [] \<and> cq_mode req = None then inherit cso snapshot else capture cso snapshot ops)
        in case into_block child_env of
            Inl e \<Rightarrow> Inl e
          | Inr block \<Rightarrow> Inr \<lparr>se_path = env_path cso child_env, se_block = block, se_is_root = is_root, se_marker_env = marker_env\<rparr>))"

section \<open>Keys compare unit by unit\<close>

text \<open>What \<^verbatim>\<open>CompareStringOrdinal\<close> is documented to do: an order of the units, folded by the system's own uppercase table.\<close>

definition ordinal_compare :: "(wide \<Rightarrow> wide \<Rightarrow> Ordering) \<Rightarrow> (u16 \<Rightarrow> u16) \<Rightarrow> bool" where
  "ordinal_compare cso up \<longleftrightarrow> (\<forall>a b. cso a b = cmp_of (map up a) (map up b))"

lemma env_cmp_of_Equal [simp]: "cmp_of x y = Equal \<longleftrightarrow> x = y" "Equal = cmp_of x y \<longleftrightarrow> x = y"
  by (auto simp: cmp_of_def)

lemma cmp_of_refl [simp]: "cmp_of x x = Equal"
  by simp

lemma cmp_of_Cons: "cmp_of (x # a) (y # b) = (if x = y then cmp_of a b else cmp_of x y)" for x y :: "'a::linorder"
  by (auto simp: cmp_of_def)

lemma cmp_of_append:
  fixes a b :: "'a::linorder list"
  shows "length a = length b \<or> x = [] \<and> length a \<le> length b \<or> y = [] \<and> length b \<le> length a
    \<Longrightarrow> cmp_of (a @ x) (b @ y) = (if a = b then cmp_of x y else cmp_of a b)"
proof (induction a b rule: list_induct2')
  case (4 c a d b)
  then show ?case by (auto simp: cmp_of_Cons)
qed (auto simp: cmp_of_def)

lemma cmp_of_take_drop:
  "cmp_of a b = (if take n a = take n b then cmp_of (drop n a) (drop n b) else cmp_of (take n a) (take n b))" for a b :: "'a::linorder list"
proof -
  have "length (take n a) = length (take n b) \<or> drop n a = [] \<and> length (take n a) \<le> length (take n b)
      \<or> drop n b = [] \<and> length (take n b) \<le> length (take n a)" by auto
  from cmp_of_append [OF this] show ?thesis by simp
qed

lemma cmp_chunks_eq:
  assumes "ordinal_compare cso up" and "0 < n"
  shows "cmp_chunks cso (zip (chunks n a) (chunks n b)) (cmp_of (length a + k) (length b + k)) = cmp_of (map up a) (map up b)"
  using assms(2)
proof (induction n a arbitrary: b k rule: chunks.induct)
  case (1 m a)
  show ?case
  proof (cases "m = 0 \<or> a = [] \<or> b = []")
    case True
    then show ?thesis using "1.prems" by (cases a; cases b) (auto simp: chunks.simps cmp_of_def)
  next
    case False
    let ?t = "length (take m a)"
    have o: "cso x y = cmp_of (map up x) (map up y)" for x y using assms(1) by (simp add: ordinal_compare_def)
    have split: "cmp_of (map up a) (map up b) = (if map up (take m a) = map up (take m b)
        then cmp_of (map up (drop m a)) (map up (drop m b)) else cmp_of (map up (take m a)) (map up (take m b)))"
      using cmp_of_take_drop [of "map up a" "map up b" m] by (simp add: take_map drop_map)
    have c: "chunks m a = take m a # chunks m (drop m a)" "chunks m b = take m b # chunks m (drop m b)"
      using False by (auto simp: chunks.simps [of m a] chunks.simps [of m b])
    show ?thesis
    proof (cases "map up (take m a) = map up (take m b)")
      case True
      then have t: "length (take m b) = ?t" by (metis length_map)
      have la: "length (drop m a) + (k + ?t) = length a + k" by simp
      have lb: "length (drop m b) + (k + ?t) = length b + k" using t by simp
      have "cmp_chunks cso (zip (chunks m a) (chunks m b)) (cmp_of (length a + k) (length b + k))
          = cmp_chunks cso (zip (chunks m (drop m a)) (chunks m (drop m b))) (cmp_of (length a + k) (length b + k))"
        using True by (simp add: c o cmp_of_def)
      also have "\<dots> = cmp_of (map up (drop m a)) (map up (drop m b))"
        using "1.IH" [of "drop m b" "k + ?t"] False "1.prems" unfolding la lb by simp
      finally show ?thesis using split True by simp
    next
      case F: False
      then show ?thesis using split by (simp add: c o) (auto simp: cmp_of_def)
    qed
  qed
qed

lemma env_key_cmp_eq: "ordinal_compare cso up \<Longrightarrow> env_key_cmp cso a b = cmp_of (map up a) (map up b)"
  using cmp_chunks_eq [of cso up MAX_CHUNK a b 0] by (simp add: env_key_cmp_def cmp_ignore_case_def MAX_CHUNK_def)

section \<open>The map of variables\<close>

definition env_ok :: "(u16 \<Rightarrow> u16) \<Rightarrow> (wide \<times> 'v) list \<Rightarrow> bool" where
  "env_ok up m \<longleftrightarrow> sorted_wrt (\<lambda>a b. map up (fst a) < map up (fst b)) m"

definition env_map :: "(u16 \<Rightarrow> u16) \<Rightarrow> (wide \<times> 'v) list \<Rightarrow> wide \<rightharpoonup> 'v" where
  "env_map up m = map_of (map (\<lambda>(k, v). (map up k, v)) m)"

lemma env_map_Nil [simp]: "env_map up [] = Map.empty"
  and env_map_Cons [simp]: "env_map up ((k, v) # m) = (env_map up m)(map up k \<mapsto> v)"
  by (simp_all add: env_map_def)

lemma env_insert_map:
  "ordinal_compare cso up \<Longrightarrow> env_map up (env_insert cso k v m) = (env_map up m)(map up k \<mapsto> v)"
  by (induction cso k v m rule: env_insert.induct) (auto simp: env_key_cmp_eq fun_eq_iff cmp_of_def split: Ordering.splits if_splits)

lemma env_insert_keys:
  "ordinal_compare cso up \<Longrightarrow> (\<lambda>kv. map up (fst kv)) ` set (env_insert cso k v m) = insert (map up k) ((\<lambda>kv. map up (fst kv)) ` set m)"
  by (induction cso k v m rule: env_insert.induct) (auto simp: env_key_cmp_eq split: Ordering.splits)

lemma env_insert_ok: "ordinal_compare cso up \<Longrightarrow> env_ok up m \<Longrightarrow> env_ok up (env_insert cso k v m)"
proof (induction m)
  case (Cons a m)
  obtain k' v' where a: "a = (k', v')" by (cases a)
  show ?case
  proof (cases "env_key_cmp cso k k'")
    case Less
    then have "map up k < map up k'" using Cons.prems(1) by (simp add: env_key_cmp_eq cmp_of_def split: if_splits)
    then show ?thesis using Cons.prems(2) Less by (auto simp: a env_ok_def)
  next
    case Greater
    then have g: "map up k' < map up k" using Cons.prems(1) by (auto simp: env_key_cmp_eq cmp_of_def split: if_splits)
    have "map up k' < map up (fst x)" if "x \<in> set (env_insert cso k v m)" for x
    proof -
      have "map up (fst x) \<in> insert (map up k) ((\<lambda>kv. map up (fst kv)) ` set m)"
        using env_insert_keys [OF Cons.prems(1), of k v m] that by blast
      then show ?thesis using g Cons.prems(2) by (auto simp: a env_ok_def)
    qed
    then show ?thesis using Cons Greater by (simp add: a env_ok_def)
  qed (use Cons.prems in \<open>simp add: a env_ok_def env_key_cmp_eq\<close>)
qed (simp add: env_ok_def)

lemma env_remove_ok: "env_ok up m \<Longrightarrow> env_ok up (env_remove cso k m)"
  by (simp add: env_ok_def env_remove_def sorted_wrt_filter)

lemma env_remove_map: "ordinal_compare cso up \<Longrightarrow> env_map up (env_remove cso k m) = (env_map up m)(map up k := None)"
  by (induction m) (auto simp: env_remove_def env_key_cmp_eq fun_eq_iff)

lemma env_get_map: "ordinal_compare cso up \<Longrightarrow> env_get cso k m = env_map up m (map up k)"
  by (induction m) (auto simp: env_get_def env_key_cmp_eq)

lemma env_map_in: "env_ok up m \<Longrightarrow> env_map up m q = Some v \<longleftrightarrow> (\<exists>k. (k, v) \<in> set m \<and> map up k = q)"
proof (induction m)
  case (Cons a m)
  obtain k v' where a: "a = (k, v')" by (cases a)
  then have l: "\<And>x. x \<in> set m \<Longrightarrow> map up k < map up (fst x)" and ok: "env_ok up m" using Cons.prems by (auto simp: env_ok_def)
  show ?case
  proof (cases "q = map up k")
    case True
    then have "(k'', v) \<in> set m \<and> map up k'' = q \<Longrightarrow> False" for k'' using l [of "(k'', v)"] by auto
    with True show ?thesis by (auto simp: a)
  next
    case False
    with Cons.IH [OF ok] show ?thesis by (auto simp: a)
  qed
qed simp

section \<open>The environment is the changes replayed\<close>

text \<open>The reference: the caller's calls in order, on the variables of this process; names are compared as Windows compares them.\<close>

definition replay_op :: "(u16 \<Rightarrow> u16) \<Rightarrow> (wide \<rightharpoonup> wide) \<Rightarrow> WEnvOp \<Rightarrow> wide \<rightharpoonup> wide" where
  "replay_op up m op = (case op of
      WSet k v \<Rightarrow> m(map up k \<mapsto> v)
    | WRemove k \<Rightarrow> m(map up k := None)
    | WClear \<Rightarrow> Map.empty)"

definition replay :: "(u16 \<Rightarrow> u16) \<Rightarrow> (wide \<rightharpoonup> wide) \<Rightarrow> WEnvOp list \<Rightarrow> wide \<rightharpoonup> wide" where
  "replay up m ops = foldl (replay_op up) m ops"

text \<open>What recorded changes make of the variables they are applied to.\<close>

definition after_changes :: "(wide \<rightharpoonup> wide) \<Rightarrow> (wide \<rightharpoonup> wide option) \<Rightarrow> wide \<rightharpoonup> wide" where
  "after_changes base changes = (\<lambda>q. case changes q of Some c \<Rightarrow> c | None \<Rightarrow> base q)"

lemma apply_env_state:
  assumes "ordinal_compare cso up"
  shows "env_ok up (ce_vars (apply_env cso ops)) \<and> (ce_clear (apply_env cso ops) \<longleftrightarrow> WClear \<in> set ops)
    \<and> after_changes (if ce_clear (apply_env cso ops) then Map.empty else base) (env_map up (ce_vars (apply_env cso ops))) = replay up base ops"
proof (induction ops rule: rev_induct)
  case Nil
  then show ?case by (simp add: apply_env_def replay_def env_ok_def after_changes_def)
next
  case (snoc op ops)
  let ?ce = "apply_env cso ops"
  have step: "apply_env cso (ops @ [op]) = env_op cso ?ce op" by (simp add: apply_env_def)
  have rep: "replay up base (ops @ [op]) = replay_op up (replay up base ops) op" by (simp add: replay_def)
  note ok = snoc.IH [THEN conjunct1] and cl = snoc.IH [THEN conjunct2, THEN conjunct1] and val = snoc.IH [THEN conjunct2, THEN conjunct2, symmetric]
  show ?case
  proof (cases op)
    case (WSet k v)
    then show ?thesis
      using ok cl env_insert_ok [OF assms(1)] unfolding step rep val
      by (auto simp: env_op_def replay_op_def env_insert_map [OF assms(1)] after_changes_def fun_eq_iff)
  next
    case (WRemove k)
    then show ?thesis
      using ok cl env_insert_ok [OF assms(1)] env_remove_ok unfolding step rep val
      by (auto simp: env_op_def replay_op_def env_insert_map [OF assms(1)] env_remove_map [OF assms(1)] after_changes_def fun_eq_iff)
  next
    case WClear
    then show ?thesis unfolding step rep by (simp add: env_op_def replay_op_def after_changes_def env_ok_def)
  qed
qed

lemma apply_changes:
  assumes "ordinal_compare cso up" and "env_ok up changes" and "env_ok up vars"
  shows "env_map up (foldl (apply_change cso) vars changes) = after_changes (env_map up vars) (env_map up changes)
    \<and> env_ok up (foldl (apply_change cso) vars changes)"
  using assms(2,3)
proof (induction changes arbitrary: vars)
  case (Cons a changes)
  obtain k c where a: "a = (k, c)" by (cases a)
  have ok: "env_ok up changes" and new: "env_map up changes (map up k) = None"
    using Cons.prems(1) env_map_in [of up changes "map up k"] by (auto simp: a env_ok_def) (metis order_less_irrefl fst_conv not_None_eq option.exhaust)
  have s: "env_map up (apply_change cso vars (k, c)) = (case c of Some v \<Rightarrow> (env_map up vars)(map up k \<mapsto> v) | None \<Rightarrow> (env_map up vars)(map up k := None))"
    by (simp add: apply_change_def env_insert_map [OF assms(1)] env_remove_map [OF assms(1)] split: option.split)
  have o: "env_ok up (apply_change cso vars (k, c))"
    using env_insert_ok [OF assms(1) Cons.prems(2)] env_remove_ok [OF Cons.prems(2)] by (simp add: apply_change_def split: option.split)
  from Cons.IH [OF ok o] new show ?case
    by (auto simp: s a after_changes_def fun_eq_iff split: option.split)
qed (simp add: after_changes_def)

lemma base_vars_ok: "ordinal_compare cso up \<Longrightarrow> env_ok up (base_vars cso snapshot)"
proof -
  assume o: "ordinal_compare cso up"
  have "env_ok up m \<Longrightarrow> env_ok up (foldl (\<lambda>vars (k, v). env_insert cso k v vars) m kvs)" for m and kvs :: "(wide \<times> wide) list"
    by (induction kvs arbitrary: m) (auto simp: env_insert_ok [OF o])
  then show ?thesis by (simp add: base_vars_def env_ok_def)
qed

lemma captured_map:
  assumes "ordinal_compare cso up"
  shows "env_map up (captured cso snapshot ops) = replay up (env_map up (base_vars cso snapshot)) ops \<and> env_ok up (captured cso snapshot ops)"
proof -
  let ?base = "if WClear \<in> set ops then [] else base_vars cso snapshot"
  have b: "env_ok up ?base" using base_vars_ok [OF assms] by (simp add: env_ok_def)
  note s = apply_env_state [OF assms, of ops "env_map up (base_vars cso snapshot)"]
  from apply_changes [OF assms s [THEN conjunct1] b] s show ?thesis by (auto simp: captured_def)
qed



section \<open>The block\<close>

text \<open>A name as Win32 lets an entry have it: not empty, and with no equals sign after the first unit.\<close>

definition env_name :: "wide \<Rightarrow> bool" where
  "env_name k \<longleftrightarrow> k \<noteq> [] \<and> EQUALS \<notin> set (tl k)"

lemma entry_var_entry: "env_name k \<Longrightarrow> entry_var (k @ EQUALS # v) = Some (k, v)"
proof -
  assume "env_name k"
  then obtain c r where k: "k = c # r" "EQUALS \<notin> set r" by (cases k) (auto simp: env_name_def)
  have "position (\<lambda>u. u = EQUALS) (r @ EQUALS # v) = Some (length r)" using k(2) by (auto simp: position_Some_iff)
  then show ?thesis by (simp add: entry_var_def k(1))
qed

lemma block_entries_Cons:
  "block_entries ((k, v) # m) = (if 0 \<in> set k \<union> set v then Inl (IoKind InvalidInput)
     else (case block_entries m of Inl e \<Rightarrow> Inl e | Inr r \<Rightarrow> Inr ((k @ EQUALS # v) @ 0 # r)))"
  by (cases "0 \<in> set k"; cases "0 \<in> set v"; cases "block_entries m") (simp_all add: ensure_no_nul_wide_def)

lemma block_entries_vars:
  assumes "block_entries m = Inr b" and "\<forall>(k, _)\<in>set m. env_name k"
  shows "List.map_filter entry_var (filter (\<lambda>e. e \<noteq> []) (split_on (\<lambda>u. u = 0) b)) = m"
  using assms
proof (induction m arbitrary: b)
  case (Cons kv m)
  obtain k v where kv: "kv = (k, v)" by (cases kv)
  from Cons.prems(1) obtain r where r: "block_entries m = Inr r" "b = (k @ EQUALS # v) @ 0 # r" "0 \<notin> set k" "0 \<notin> set v"
    unfolding kv block_entries_Cons by (cases "block_entries m") (auto split: if_splits)
  have "list_all (\<lambda>u. \<not> u = 0) (k @ EQUALS # v)" using r by (auto simp: list_all_iff)
  then have "split_on (\<lambda>u. u = 0) b = (k @ EQUALS # v) # split_on (\<lambda>u. u = 0) r"
    unfolding r(2) by (subst split_on_append_sep) (simp_all add: split_on_no_sep)
  with Cons.IH [OF r(1)] Cons.prems(2) entry_var_entry [of k v] show ?case by (simp add: kv List.map_filter_simps)
qed (simp add: List.map_filter_simps)

text \<open>A child that reads its block back finds exactly the variables it was given, in order; only an embedded NUL is refused, and a block is never the lone terminator that would mean an
  inherited environment.\<close>

theorem env_block_round_trip:
  assumes "\<forall>(k, _)\<in>set vars. env_name k"
  shows "case into_block (Captured vars) of
      Inl e \<Rightarrow> e = IoKind InvalidInput \<and> (\<exists>(k, v)\<in>set vars. 0 \<in> set k \<union> set v)
    | Inr block \<Rightarrow> snapshot_vars (from_block block) = vars \<and> 2 \<le> length block"
proof (cases "block_entries vars")
  case (Inl e)
  have "block_entries m = Inl e \<Longrightarrow> e = IoKind InvalidInput \<and> (\<exists>(k, v)\<in>set m. 0 \<in> set k \<union> set v)" for m
  proof (induction m)
    case (Cons kv m)
    then show ?case by (cases kv; cases "block_entries m") (auto simp: block_entries_Cons simp del: block_entries.simps(2) split: if_splits)
  qed simp
  from this [OF Inl] show ?thesis using Inl by (simp add: into_block_def)
next
  case (Inr b)
  show ?thesis
  proof (cases vars)
    case Nil
    then show ?thesis by (simp add: into_block_def from_block_def snapshot_vars_def List.map_filter_simps)
  next
    case (Cons kv m)
    have "b \<noteq> []" using Inr Cons
      by (cases kv; cases "block_entries m") (auto simp: block_entries_Cons simp del: block_entries.simps(2) split: if_splits)
    then have "snapshot_vars (from_block (b @ [0])) = vars \<and> 2 \<le> length (b @ [0])"
      using block_entries_vars [OF Inr assms] by (simp add: from_block_def snapshot_vars_def Suc_le_eq)
    moreover have "vars \<noteq> []" using Cons by simp
    then have "into_block (Captured vars) = Inr (b @ [0])" using Inr by (simp add: into_block_def)
    ultimately show ?thesis by simp
  qed
qed

theorem env_block_round_trip_witness:
  "snapshot_vars (from_block [0x41, EQUALS, 0x31, 0, 0]) = [([0x41], [0x31])]"
  using env_block_round_trip [of "[([0x41], [0x31])]"] by (simp add: env_name_def into_block_def block_entries_Cons del: block_entries.simps(2))

end
