(* ===== verification/Batch_Gate.thy ===== *)
theory Batch_Gate
  imports Program_Resolve Os_Wide
begin

text \<open>
  The batch gate: \<^verbatim>\<open>src/src/child/spawn/batch_gate.rs\<close> with \<^verbatim>\<open>batch_gate/streams.rs\<close> and \<^verbatim>\<open>batch_gate/walk.rs\<close>. A program token that Windows would resolve to a
  \<^verbatim>\<open>.bat\<close> or \<^verbatim>\<open>.cmd\<close> file is refused, however it is spelled. A token is its WTF-8 bytes, and the gate reads its lossy UTF-8 text.
\<close>

section \<open>Streams and extensions\<close>

definition trim_dots :: "bytes \<Rightarrow> bytes" where
  "trim_dots s = rev (dropWhile (\<lambda>c. c = 0x20 \<or> c = DOT) (rev s))"

definition drive_prefix_len :: "bytes \<Rightarrow> nat option" where
  "drive_prefix_len text = drive_len text"

definition ntfs_stream_names :: "bytes \<Rightarrow> bytes list" where
  "ntfs_stream_names name = (
     let rest = (case drive_prefix_len name of Some len \<Rightarrow> drop len name | None \<Rightarrow> name)
     in map trim_dots (split_on (\<lambda>c. c = COLON) rest))"

definition is_batch_ext :: "bytes \<Rightarrow> bool" where
  "is_batch_ext ext \<longleftrightarrow> eq_ignore_ascii_case ext (ascii ''bat'') \<or> eq_ignore_ascii_case ext (ascii ''cmd'')"

definition is_batch_by_shell :: "bytes \<Rightarrow> bool" where
  "is_batch_by_shell name = (case rposition (\<lambda>c. c = DOT) name of Some dot \<Rightarrow> is_batch_ext (drop (dot + 1) name) | None \<Rightarrow> False)"

definition is_batch_program :: "bytes \<Rightarrow> bool" where
  "is_batch_program file_name \<longleftrightarrow> list_ex is_batch_by_shell (ntfs_stream_names file_name)"

section \<open>The walk\<close>

abbreviation dotdot :: bytes where "dotdot \<equiv> [DOT, DOT]"

definition starts_with_two_separators :: "bytes \<Rightarrow> bool" where
  "starts_with_two_separators text \<longleftrightarrow> sep_at text 0 \<and> sep_at text 1"

definition is_drive_prefix :: "bytes \<Rightarrow> bool" where
  "is_drive_prefix piece \<longleftrightarrow> drive_prefix_len piece = Some (length piece)"

definition unc_root_name :: "bytes \<Rightarrow> bytes \<Rightarrow> bytes option" where
  "unc_root_name server share =
     (if is_batch_program (trim_dots server) then Some (trim_dots server)
      else if trim_dots share \<noteq> [] then Some (trim_dots share) else None)"

text \<open>One segment of the walk: the stack holds each component with whether it is the path's first segment.\<close>

definition walk_segment :: "(bytes \<times> bool) list \<Rightarrow> bytes \<times> bool \<Rightarrow> (bytes \<times> bool) list" where
  "walk_segment stack seg =
     (if fst seg \<in> {[], [DOT]} then stack
      else if fst seg = dotdot then butlast stack
      else stack @ [(trim_dots (fst seg), snd seg)])"

definition segments :: "bytes \<Rightarrow> bytes list" where
  "segments text = split_on (\<lambda>c. is_sep c True) text"

text \<open>The root a path of two separators has, and the segments that are walked, with their positions: \<open>None\<close> when a root is cut short.\<close>

definition root_and_rest :: "bytes \<Rightarrow> ((bytes \<times> bytes) option \<times> (bytes \<times> bool) list) option" where
  "root_and_rest text = (
     let segs = segments text;
         plain = map (\<lambda>s. (s, False))
     in if starts_with_two_separators text then
          (case drop 2 segs of
             [] \<Rightarrow> None
           | server # rest \<Rightarrow>
               if server = [DOT] \<or> server = [0x3F] then Some (None, plain rest)
               else (case rest of [] \<Rightarrow> None | share # rest' \<Rightarrow> Some (Some (server, share), plain rest')))
        else Some (None, (hd segs, True) # plain (tl segs)))"

definition drop_empty_names :: "(bytes \<times> bool) list \<Rightarrow> (bytes \<times> bool) list" where
  "drop_empty_names stack = rev (dropWhile (\<lambda>c. fst c = []) (rev stack))"

definition name_of :: "(bytes \<times> bytes) option \<Rightarrow> (bytes \<times> bool) list \<Rightarrow> bytes option" where
  "name_of root walked = (
     let stack = drop_empty_names walked
     in case (stack, root) of
         ([], Some (server, share)) \<Rightarrow> unc_root_name server share
       | ([], None) \<Rightarrow> None
       | _ \<Rightarrow> let (final, leading) = last stack in if leading \<and> is_drive_prefix final then None else Some final)"

definition win32_effective_file_name :: "bytes \<Rightarrow> bytes option" where
  "win32_effective_file_name text = (case root_and_rest text of
      None \<Rightarrow> None
    | Some (root, segs) \<Rightarrow> name_of root (foldl walk_segment [] segs))"

section \<open>The gate\<close>

datatype Refusal = BATCH | NO_FILE | VERBATIM_DOTDOT

definition last_after :: "u8 \<Rightarrow> bytes \<Rightarrow> bytes" where
  "last_after c text = last (split_on (\<lambda>x. x = c) text)"

definition verbatim_refusal :: "bytes \<Rightarrow> Refusal option" where
  "verbatim_refusal text = (
     let final = last_after BSLASH text;
         after_slash = last_after SLASH final
     in if ends_with_ignore_ascii_case text (ascii ''.bat'') \<or> ends_with_ignore_ascii_case text (ascii ''.cmd'') then Some BATCH
        else if is_batch_program final \<or> is_batch_program after_slash then Some BATCH
        else if final = dotdot then Some VERBATIM_DOTDOT else None)"

definition batch_refusal :: "bytes \<Rightarrow> Refusal option" where
  "batch_refusal text =
     (if is_verbatim text then verbatim_refusal text
      else (case win32_effective_file_name text of
          Some name \<Rightarrow> if is_batch_program name then Some BATCH else None
        | None \<Rightarrow> Some NO_FILE))"

text \<open>\<^verbatim>\<open>win32_prefix\<close> is what Win32 reads of a token: what precedes its first NUL.\<close>

definition win32_prefix :: "bytes \<Rightarrow> bytes" where
  "win32_prefix prog = (case position (\<lambda>c. c = 0) prog of Some i \<Rightarrow> take i prog | None \<Rightarrow> prog)"

definition text_of_token :: "bytes \<Rightarrow> bytes" where
  "text_of_token prog = (case os_to_string_lossy prog of Some t \<Rightarrow> t | None \<Rightarrow> to_string_lossy prog)"

text \<open>The operation named by a refusal is \<^verbatim>\<open>running\<close> and the path, which is left out.\<close>

definition reject_batch_path_on :: "bytes \<Rightarrow> bool \<Rightarrow> Error + unit" where
  "reject_batch_path_on prog win32 =
     (if win32_prefix prog \<noteq> prog then Inl (IoKind InvalidInput)
      else if \<not> win32 then Inr ()
      else (case batch_refusal (text_of_token prog) of
          None \<Rightarrow> Inr ()
        | Some BATCH \<Rightarrow> Inl (Unsupported (STR ''running'') (STR ''windows''))
        | Some _ \<Rightarrow> Inl (IoKind InvalidInput)))"

section \<open>Every spelling\<close>

text \<open>A component that Win32 reads as a batch file: a stem, an extension in any case, and then only dots, spaces or a stream.\<close>

definition dots :: "bytes \<Rightarrow> bool" where
  "dots ts \<longleftrightarrow> list_all (\<lambda>c. c = 0x20 \<or> c = DOT) ts"

definition stream :: "bytes \<Rightarrow> bool" where
  "stream s \<longleftrightarrow> s = [] \<or> hd s = COLON"

definition no_sep :: "bytes \<Rightarrow> bool" where
  "no_sep s \<longleftrightarrow> list_all (\<lambda>c. \<not> is_sep c True) s"

lemma trim_dots_append: "dots ts \<Longrightarrow> trim_dots (s @ ts) = trim_dots s"
  unfolding trim_dots_def dots_def rev_append by (subst dropWhile_append2) (auto simp: list_all_iff)

lemma trim_dots_keep: "s \<noteq> [] \<Longrightarrow> last s \<noteq> 0x20 \<Longrightarrow> last s \<noteq> DOT \<Longrightarrow> trim_dots s = s"
  by (cases s rule: rev_cases) (auto simp: trim_dots_def)

lemma trim_dots_idem [simp]: "trim_dots (trim_dots s) = trim_dots s"
  by (simp add: trim_dots_def dropWhile_idem [unfolded comp_def])

lemma segments_not_Nil [simp]: "segments t \<noteq> []"
  by (simp add: segments_def)

lemma segments_append: "is_sep c True \<Longrightarrow> segments (a @ c # b) = segments a @ segments b"
  by (simp add: segments_def split_on_append_sep)

lemma segments_no_sep: "no_sep s \<Longrightarrow> segments s = [s]"
  by (simp add: segments_def no_sep_def split_on_no_sep)

subsection \<open>Batch names\<close>

text \<open>\<open>A\<close> is a drive or earlier streams, \<open>r\<close> the stem, \<open>ts\<close> dots and spaces, \<open>s\<close> a stream.\<close>

definition batch_name :: "bytes \<Rightarrow> bool" where
  "batch_name n \<longleftrightarrow> (\<exists>A r ext ts s. n = A @ r @ DOT # ext @ ts @ s \<and> (A = [] \<or> last A = COLON) \<and> COLON \<notin> set r
     \<and> is_batch_ext ext \<and> dots ts \<and> stream s)"

lemma lowercase_letter:
  assumes "to_ascii_lowercase c \<in> {0x62, 0x61, 0x74, 0x63, 0x6D, 0x64}"
  shows "c \<noteq> COLON \<and> c \<noteq> DOT \<and> c \<noteq> 0x20 \<and> \<not> is_sep c True"
proof -
  have "to_ascii_lowercase d = d" if "d \<in> {COLON, DOT, 0x20, SLASH, BSLASH}" for d
    using that by (auto simp: to_ascii_lowercase_def)
  moreover have "{COLON, DOT, 0x20, SLASH, BSLASH} \<inter> {0x62, 0x61, 0x74, 0x63, 0x6D, 0x64} = {}" by simp
  ultimately have "c \<notin> {COLON, DOT, 0x20, SLASH, BSLASH}" using assms by (metis disjoint_iff)
  then show ?thesis unfolding is_sep_def by blast
qed

lemma batch_ext_letters:
  assumes "is_batch_ext ext"
  shows "length ext = 3 \<and> list_all (\<lambda>c. c \<noteq> COLON \<and> c \<noteq> DOT \<and> c \<noteq> 0x20 \<and> \<not> is_sep c True) ext"
proof -
  have "map to_ascii_lowercase (ascii ''bat'') = [0x62, 0x61, 0x74]" "map to_ascii_lowercase (ascii ''cmd'') = [0x63, 0x6D, 0x64]" by code_simp+
  with assms have m: "map to_ascii_lowercase ext = [0x62, 0x61, 0x74] \<or> map to_ascii_lowercase ext = [0x63, 0x6D, 0x64]"
    unfolding is_batch_ext_def eq_ignore_ascii_case_def by argo
  then have len: "length ext = 3" by (auto dest: arg_cong [of _ _ length])
  have "set (map to_ascii_lowercase ext) \<subseteq> {0x62, 0x61, 0x74, 0x63, 0x6D, 0x64}" using m by (elim disjE) (simp_all only: list.set, blast+)
  then have "\<forall>c\<in>set ext. to_ascii_lowercase c \<in> {0x62, 0x61, 0x74, 0x63, 0x6D, 0x64}" unfolding set_map by blast
  then have "\<forall>c\<in>set ext. c \<noteq> COLON \<and> c \<noteq> DOT \<and> c \<noteq> 0x20 \<and> \<not> is_sep c True" using lowercase_letter by blast
  with len show ?thesis unfolding list_all_iff by blast
qed

lemma trim_dots_ext:
  assumes "is_batch_ext ext"
  shows "trim_dots (q @ DOT # ext) = q @ DOT # ext"
proof -
  note l = batch_ext_letters [OF assms]
  have ne: "ext \<noteq> []" using l by auto
  then have "last ext \<in> set ext" by simp
  then have "last ext \<noteq> 0x20" "last ext \<noteq> DOT" using l unfolding list_all_iff by blast+
  with ne show ?thesis by (intro trim_dots_keep) auto
qed

lemma split_piece:
  assumes "A = [] \<or> last A = c" and "c \<notin> set M" and "s = [] \<or> hd s = c"
  shows "M \<in> set (split_on (\<lambda>x. x = c) (A @ M @ s))"
proof -
  have sM: "split_on (\<lambda>x. x = c) M = [M]" by (rule split_on_no_sep) (use assms(2) in \<open>auto simp: list_all_iff\<close>)
  have m: "M \<in> set (split_on (\<lambda>x. x = c) (M @ s))"
  proof (cases s)
    case (Cons y r)
    with assms(3) have "split_on (\<lambda>x. x = c) (M @ s) = split_on (\<lambda>x. x = c) M @ split_on (\<lambda>x. x = c) r" by (simp add: split_on_append_sep)
    then show ?thesis using sM by simp
  qed (use sM in simp)
  show ?thesis
  proof (cases A rule: rev_cases)
    case (snoc A' y)
    with assms(1) have "split_on (\<lambda>x. x = c) (A @ M @ s) = split_on (\<lambda>x. x = c) A' @ split_on (\<lambda>x. x = c) (M @ s)" by (simp add: split_on_append_sep)
    with m show ?thesis by simp
  qed (use m in simp)
qed

lemma drive_len_colon: "drive_len b = Some len \<Longrightarrow> len \<le> 4 \<and> 0 < len \<and> len \<le> length b \<and> b ! (len - 1) = COLON"
  by (auto simp: drive_len_def unit_len_def nth_opt_Some split: list.splits option.splits if_splits)

lemma batch_name_program:
  assumes "batch_name n"
  shows "is_batch_program n"
proof -
  from assms obtain A r ext ts s where n: "n = A @ r @ DOT # ext @ ts @ s" and A: "A = [] \<or> last A = COLON" and r: "COLON \<notin> set r"
    and e: "is_batch_ext ext" and ts: "dots ts" and s: "stream s" unfolding batch_name_def by blast
  define M where "M = r @ DOT # ext @ ts"
  have n: "n = A @ M @ s" using n by (simp add: M_def)
  note l = batch_ext_letters [OF e]
  have M: "COLON \<notin> set M" using r l ts by (auto simp: M_def list_all_iff dots_def)
  have len: "4 \<le> length M" using l by (simp add: M_def)
  define rest where "rest = (case drive_len n of Some k \<Rightarrow> drop k n | None \<Rightarrow> n)"
  have "\<exists>B. rest = B @ M @ s \<and> (B = [] \<or> last B = COLON)"
  proof (cases "drive_len n")
    case (Some k)
    note d = drive_len_colon [OF Some]
    have "k \<le> length A"
    proof (rule ccontr)
      assume "\<not> k \<le> length A"
      then have i: "length A \<le> k - 1" "k - 1 - length A < length M" using d len by linarith+
      then have "n ! (k - 1) = M ! (k - 1 - length A)" using n by (simp add: nth_append)
      then show False using d M i nth_mem [of "k - 1 - length A" M] by metis
    qed
    then have "rest = drop k A @ M @ s" using Some n by (simp add: rest_def)
    moreover have "drop k A = [] \<or> last (drop k A) = COLON" using A by (cases "drop k A = []") (auto simp: last_drop)
    ultimately show ?thesis by blast
  qed (use n A in \<open>auto simp: rest_def\<close>)
  then obtain B where B: "rest = B @ M @ s" "B = [] \<or> last B = COLON" by blast
  have "M \<in> set (split_on (\<lambda>x. x = COLON) rest)" unfolding B(1) using split_piece [OF B(2) M] s by (simp add: stream_def)
  then have mem: "trim_dots M \<in> set (ntfs_stream_names n)" by (auto simp: ntfs_stream_names_def drive_prefix_len_def rest_def Let_def split: option.splits)
  have t: "trim_dots M = r @ DOT # ext" using trim_dots_append [OF ts, of "r @ DOT # ext"] trim_dots_ext [OF e, of r] by (simp add: M_def)
  have "rposition (\<lambda>c. c = DOT) (r @ DOT # ext) = Some (length r)"
    using rposition_Some_iff [of "\<lambda>c. c = DOT" "r @ DOT # ext" "length r"] l by (auto simp: list_all_iff)
  then have "is_batch_by_shell (trim_dots M)" using e by (simp add: t is_batch_by_shell_def)
  with mem show ?thesis by (auto simp: is_batch_program_def list_ex_iff)
qed


lemma batch_name_not_dots:
  assumes "batch_name n"
  shows "n \<notin> {[], [DOT], dotdot}" and "\<not> dots n" and "4 \<le> length n"
proof -
  from assms obtain A r ext ts s where n: "n = A @ r @ DOT # ext @ ts @ s" and e: "is_batch_ext ext" unfolding batch_name_def by blast
  note l = batch_ext_letters [OF e]
  show len: "4 \<le> length n" using n l by simp
  then show "n \<notin> {[], [DOT], dotdot}" by auto
  obtain c r' where "ext = c # r'" using l by (cases ext) auto
  then show "\<not> dots n" using n l by (simp add: dots_def)
qed

lemma batch_name_trim: "batch_name n \<Longrightarrow> is_batch_program (trim_dots n)"
proof -
  assume "batch_name n"
  then obtain A r ext ts s where n: "n = A @ r @ DOT # ext @ ts @ s" and A: "A = [] \<or> last A = COLON" and r: "COLON \<notin> set r"
    and e: "is_batch_ext ext" and ts: "dots ts" and s: "stream s" unfolding batch_name_def by blast
  show ?thesis
  proof (cases "s = []")
    case True
    have "trim_dots (A @ r @ DOT # ext) = A @ r @ DOT # ext" using trim_dots_ext [OF e, of "A @ r"] by simp
    with trim_dots_append [OF ts, of "A @ r @ DOT # ext"] have t: "trim_dots n = A @ r @ DOT # ext @ [] @ []" using n True by simp
    have "batch_name (trim_dots n)" unfolding batch_name_def
      by (rule exI [of _ A], rule exI [of _ r], rule exI [of _ ext], rule exI [of _ "[]"], rule exI [of _ "[]"]) (use t A r e in \<open>simp add: dots_def stream_def\<close>)
    then show ?thesis by (rule batch_name_program)
  next
    case False
    with s obtain s' where s': "s = COLON # s'" unfolding stream_def by (cases s) auto
    define w where "w = rev (dropWhile (\<lambda>c. c = 0x20 \<or> c = DOT) (rev s'))"
    have "trim_dots (q @ COLON # s') = q @ COLON # w" for q
      unfolding trim_dots_def w_def by (cases "dropWhile (\<lambda>c. c = 0x20 \<or> c = DOT) (rev s') = []") (auto simp: dropWhile_append)
    then have t: "trim_dots n = A @ r @ DOT # ext @ ts @ COLON # w" using n s' by (metis append_Cons append_assoc)
    have "batch_name (trim_dots n)" unfolding batch_name_def
      by (rule exI [of _ A], rule exI [of _ r], rule exI [of _ ext], rule exI [of _ ts], rule exI [of _ "COLON # w"]) (use t A r e ts in \<open>simp add: stream_def\<close>)
    then show ?thesis by (rule batch_name_program)
  qed
qed

lemma batch_program_name: "is_batch_program b \<Longrightarrow> b \<noteq> [] \<and> \<not> is_drive_prefix b"
  by (auto simp: is_batch_program_def ntfs_stream_names_def is_drive_prefix_def drive_prefix_len_def drive_len_def trim_dots_def is_batch_by_shell_def
      split: option.splits)

subsection \<open>Paths that reach a batch file\<close>

text \<open>A directory prefix: a text that is empty or ends in a separator, and whose root, when it opens with two separators, is complete: a device
marker, or a server and a share.\<close>

definition dir_prefix :: "bytes \<Rightarrow> bool" where
  "dir_prefix q \<longleftrightarrow> (q = [] \<or> is_sep (last q) True) \<and>
     (starts_with_two_separators q \<longrightarrow> (\<exists>c1 c2 server c3 rest. q = c1 # c2 # server @ c3 # rest \<and> no_sep server \<and> is_sep c3 True \<and>
        (server \<in> {[DOT], [0x3F]} \<or> rest \<noteq> [])))"

text \<open>How a path that is not verbatim reaches a batch file: it ends in a batch name, or is a share of such a name; then any number of components
that drop out and of components that a later \<open>..\<close> undoes. At a share a \<open>..\<close> drops out as well.\<close>

inductive batch_spelling :: "bytes \<Rightarrow> bool" where
  name: "dir_prefix q \<Longrightarrow> no_sep n \<Longrightarrow> batch_name n \<Longrightarrow> batch_spelling (q @ n)"
| blank: "batch_spelling p \<Longrightarrow> is_sep c True \<Longrightarrow> dots d \<Longrightarrow> d \<noteq> dotdot \<Longrightarrow> batch_spelling (p @ c # d)"
| undone: "batch_spelling p \<Longrightarrow> is_sep c True \<Longrightarrow> is_sep c' True \<Longrightarrow> no_sep y \<Longrightarrow> y \<notin> {[], [DOT], dotdot} \<Longrightarrow> batch_spelling (p @ c # y @ c' # dotdot)"

inductive share_spelling :: "bytes \<Rightarrow> bool" where
  share: "is_sep c1 True \<Longrightarrow> is_sep c2 True \<Longrightarrow> is_sep c3 True \<Longrightarrow> no_sep server \<Longrightarrow> server \<notin> {[DOT], [0x3F]} \<Longrightarrow> no_sep sh \<Longrightarrow>
     batch_name server \<or> batch_name sh \<Longrightarrow> share_spelling (c1 # c2 # server @ c3 # sh)"
| blank: "share_spelling p \<Longrightarrow> is_sep c True \<Longrightarrow> dots d \<Longrightarrow> share_spelling (p @ c # d)"
| undone: "share_spelling p \<Longrightarrow> is_sep c True \<Longrightarrow> is_sep c' True \<Longrightarrow> no_sep y \<Longrightarrow> y \<notin> {[], [DOT], dotdot} \<Longrightarrow> share_spelling (p @ c # y @ c' # dotdot)"

definition reaches_batch :: "bytes \<Rightarrow> bool" where
  "reaches_batch text \<longleftrightarrow> (if is_verbatim text then batch_name (last_after BSLASH text) else batch_spelling text \<or> share_spelling text)"

text \<open>What the walk has read of a path, for each of the two.\<close>

definition walked :: "bytes \<Rightarrow> (bytes \<times> bytes) option \<Rightarrow> (bytes \<times> bool) list \<Rightarrow> bool" where
  "walked p root st \<longleftrightarrow> (\<exists>segs. 2 \<le> length p \<and> root_and_rest p = Some (root, segs) \<and> foldl walk_segment [] segs = st)"

definition blanks :: "(bytes \<times> bool) list \<Rightarrow> bool" where
  "blanks st \<longleftrightarrow> list_all (\<lambda>c. fst c = []) st"

lemma blanks_Nil: "blanks []"
  by (simp add: blanks_def)

lemma nth_two_append [simp]: "2 \<le> length p \<Longrightarrow> starts_with_two_separators (p @ r) = starts_with_two_separators p"
  by (auto simp: starts_with_two_separators_def sep_at_def nth_opt_def nth_append)

lemma root_and_rest_append:
  assumes "root_and_rest p = Some (root, segs)" and "2 \<le> length p" and "is_sep c True"
  shows "root_and_rest (p @ c # d) = Some (root, segs @ map (\<lambda>s. (s, False)) (segments d))"
proof (cases "starts_with_two_separators p")
  case True
  have "2 \<le> length (segments p)"
  proof -
    obtain a b r where p: "p = a # b # r" using assms(2) by (cases p; cases "tl p") auto
    with True have "is_sep a True" "is_sep b True" by (auto simp: starts_with_two_separators_def sep_at_def nth_opt_def)
    then have "segments p = [] # [] # segments r" using segments_append [of a "[]" "b # r"] segments_append [of b "[]" r] p by (simp add: segments_def)
    then show ?thesis by simp
  qed
  with True assms show ?thesis unfolding root_and_rest_def Let_def
    by (auto simp: segments_append split: list.splits if_splits)
next
  case False
  with assms show ?thesis unfolding root_and_rest_def Let_def by (auto simp: segments_append)
qed

lemma walked_append:
  "walked p root st \<Longrightarrow> is_sep c True \<Longrightarrow> walked (p @ c # d) root (foldl walk_segment st (map (\<lambda>s. (s, False)) (segments d)))"
  unfolding walked_def by (auto simp: root_and_rest_append)

lemma walked_segment: "walked p root st \<Longrightarrow> is_sep c True \<Longrightarrow> no_sep d \<Longrightarrow> walked (p @ c # d) root (walk_segment st (d, False))"
  using walked_append [of p root st c d] by (simp add: segments_no_sep)

lemma dots_no_sep: "dots d \<Longrightarrow> no_sep d"
  by (auto simp: dots_def no_sep_def list_all_iff is_sep_def)

lemma trim_dots_dots: "dots d \<Longrightarrow> trim_dots d = []"
  using trim_dots_append [of d "[]"] by (simp add: trim_dots_def)

lemma walked_blank:
  assumes "walked p root st" and "is_sep c True" and "dots d" and "d \<noteq> dotdot"
  shows "\<exists>es. blanks es \<and> walked (p @ c # d) root (st @ es)"
proof -
  have "walk_segment st (d, False) = st \<or> walk_segment st (d, False) = st @ [([], False)]"
    using assms(3,4) by (auto simp: walk_segment_def trim_dots_dots)
  moreover note walked_segment [OF assms(1,2) dots_no_sep [OF assms(3)]]
  ultimately show ?thesis unfolding blanks_def
    by (elim disjE) (rule exI [of _ "[]"], simp, rule exI [of _ "[([], False)]"], simp)
qed

lemma walked_back:
  assumes "walked p root st" and "is_sep c True" and "is_sep c' True" and "no_sep y" and "y \<notin> {[], [DOT], dotdot}"
  shows "walked (p @ c # y @ c' # dotdot) root st"
proof -
  have "segments (y @ c' # dotdot) = [y, dotdot]"
    using assms(3,4) by (simp add: segments_append segments_no_sep) (simp add: segments_def is_sep_def)
  then have "foldl walk_segment st (map (\<lambda>s. (s, False)) (segments (y @ c' # dotdot))) = st"
    using assms(5) by (simp add: walk_segment_def)
  with walked_append [OF assms(1,2), of "y @ c' # dotdot"] show ?thesis by simp
qed

text \<open>The name under a directory prefix is the last segment walked.\<close>

definition last_segment :: "bytes \<Rightarrow> bytes \<Rightarrow> bool" where
  "last_segment p n \<longleftrightarrow> (\<exists>root segs l. root_and_rest p = Some (root, segs @ [(n, l)]))"

lemma last_segment_alone:
  assumes "n = a # r" and "no_sep n"
  shows "last_segment n n"
proof -
  have "root_and_rest n = Some (None, [] @ [(n, True)])"
    using assms by (simp add: root_and_rest_def segments_no_sep starts_with_two_separators_def sep_at_def nth_opt_def no_sep_def)
  then show ?thesis unfolding last_segment_def by blast
qed

lemma last_segment_rooted:
  assumes two: "starts_with_two_separators (c1 # c2 # t)" and t: "t = server @ c3 # rest @ n" and c3: "is_sep c3 True"
    and server: "no_sep server" and rest: "server \<in> {[DOT], [0x3F]} \<or> rest \<noteq> []" and sep: "rest = [] \<or> is_sep (last rest) True" and n: "no_sep n"
  shows "last_segment (c1 # c2 # t) n"
proof -
  let ?p = "c1 # c2 # t" and ?plain = "map (\<lambda>s. (s, False))"
  have cc: "is_sep c1 True" "is_sep c2 True" using two by (auto simp: starts_with_two_separators_def sep_at_def nth_opt_def)
  have s1: "segments ?p = [] # [] # server # segments (rest @ n)"
    using cc segments_append [of c1 "[]" "c2 # t"] segments_append [of c2 "[]" t] segments_append [OF c3, of server "rest @ n"] t server
    by (simp add: segments_no_sep) (simp add: segments_def)
  show ?thesis
  proof (cases "rest = []")
    case True
    then have "root_and_rest ?p = Some (None, [] @ [(n, False)])" using s1 two rest n by (simp add: root_and_rest_def segments_no_sep)
    then show ?thesis unfolding last_segment_def by blast
  next
    case False
    then have rn: "rest @ n = butlast rest @ last rest # n" by simp
    have "segments (rest @ n) = segments (butlast rest) @ [n]" unfolding rn using False sep n by (simp add: segments_append segments_no_sep)
    moreover obtain x xs where "segments (butlast rest) = x # xs" by (cases "segments (butlast rest)") auto
    ultimately have "root_and_rest ?p = Some (if server \<in> {[DOT], [0x3F]} then None else Some (server, x),
        (if server \<in> {[DOT], [0x3F]} then (x, False) # ?plain xs else ?plain xs) @ [(n, False)])"
      using s1 two by (simp add: root_and_rest_def Let_def)
    then show ?thesis unfolding last_segment_def by blast
  qed
qed

lemma last_segment_plain:
  assumes "\<not> starts_with_two_separators (q @ [c])" and c: "is_sep c True" and n: "n = a # r" "no_sep n"
  shows "last_segment (q @ c # n) n"
proof -
  have "\<not> starts_with_two_separators (q @ c # n)"
  proof (cases q)
    case (Cons x xs)
    then show ?thesis using nth_two_append [of "q @ [c]" n] assms(1) by simp
  qed (use n in \<open>simp add: starts_with_two_separators_def sep_at_def nth_opt_def no_sep_def\<close>)
  moreover have "segments (q @ c # n) = segments q @ [n]" using c n(2) by (simp add: segments_append segments_no_sep)
  moreover obtain x xs where "segments q = x # xs" by (cases "segments q") auto
  ultimately have "root_and_rest (q @ c # n) = Some (None, ((x, True) # map (\<lambda>s. (s, False)) xs) @ [(n, False)])"
    by (simp add: root_and_rest_def)
  then show ?thesis unfolding last_segment_def by blast
qed

lemma dir_prefix_last_segment:
  assumes q: "dir_prefix q" and n: "n = a # r" "no_sep n"
  shows "last_segment (q @ n) n"
proof (cases "q = []")
  case False
  then have c: "is_sep (last q) True" and qn: "q @ n = butlast q @ last q # n" using q by (simp_all add: dir_prefix_def)
  show ?thesis
  proof (cases "starts_with_two_separators q")
    case True
    with q obtain c1 c2 server c3 rest where r: "q = c1 # c2 # server @ c3 # rest" "no_sep server" "is_sep c3 True"
      "server \<in> {[DOT], [0x3F]} \<or> rest \<noteq> []" unfolding dir_prefix_def by blast
    moreover have "starts_with_two_separators (q @ n)" using nth_two_append [of q n] True r(1) by simp
    moreover have "rest = [] \<or> is_sep (last rest) True" using c r(1) by (cases "rest = []") simp_all
    ultimately show ?thesis using last_segment_rooted [of c1 c2 "server @ c3 # rest @ n"] n(2) by simp
  next
    case two: False
    then show ?thesis unfolding qn using c n False by (intro last_segment_plain) simp_all
  qed
qed (use n last_segment_alone in simp)

lemma dir_prefix_walked:
  assumes "dir_prefix q" and "no_sep n" and "batch_name n"
  shows "\<exists>root st l. walked (q @ n) root (st @ [(trim_dots n, l)])"
proof -
  note nd = batch_name_not_dots [OF assms(3)]
  then obtain a r where "n = a # r" by (cases n) auto
  with dir_prefix_last_segment assms obtain root segs l where "root_and_rest (q @ n) = Some (root, segs @ [(n, l)])"
    unfolding last_segment_def by blast
  then have "walked (q @ n) root (foldl walk_segment [] segs @ [(trim_dots n, l)])" using nd by (simp add: walked_def walk_segment_def)
  then show ?thesis by blast
qed

lemma batch_spelling_walked:
  "batch_spelling p \<Longrightarrow> \<exists>root st b l es. walked p root (st @ (b, l) # es) \<and> is_batch_program b \<and> blanks es"
proof (induction rule: batch_spelling.induct)
  case (name q n)
  then show ?case using dir_prefix_walked [OF name] batch_name_trim [OF name(3)] blanks_Nil by blast
next
  case (blank p c d)
  then obtain root st b l es where w: "walked p root (st @ (b, l) # es)" "is_batch_program b" "blanks es" by blast
  from walked_blank [OF w(1) blank(2-4)] obtain es' where "blanks es'" "walked (p @ c # d) root (st @ (b, l) # es @ es')" by auto
  moreover then have "blanks (es @ es')" using w(3) by (simp add: blanks_def)
  ultimately show ?case using w(2) by blast
next
  case (undone p c c' y)
  then show ?case using walked_back by blast
qed

definition batch_share :: "(bytes \<times> bytes) option \<Rightarrow> bool" where
  "batch_share root \<longleftrightarrow> (\<exists>server share b. root = Some (server, share) \<and> unc_root_name server share = Some b \<and> is_batch_program b)"

lemma share_spelling_walked: "share_spelling p \<Longrightarrow> \<exists>root st. walked p root st \<and> batch_share root \<and> blanks st"
proof (induction rule: share_spelling.induct)
  case (share c1 c2 c3 server sh)
  let ?p = "c1 # c2 # server @ c3 # sh"
  have "segments ?p = [[], [], server, sh]"
    using share segments_append [of c1 "[]" "c2 # server @ c3 # sh"] segments_append [of c2 "[]" "server @ c3 # sh"]
      segments_append [of c3 server sh] by (simp add: segments_no_sep) (simp add: segments_def)
  then have "walked ?p (Some (server, sh)) []" using share
    by (simp add: walked_def root_and_rest_def starts_with_two_separators_def sep_at_def nth_opt_def)
  moreover have "batch_share (Some (server, sh))"
    using share(7) batch_name_trim [of server] batch_name_trim [of sh] batch_program_name [of "trim_dots sh"] by (auto simp: batch_share_def unc_root_name_def)
  ultimately show ?case using blanks_Nil by blast
next
  case (blank p c d)
  then obtain root st where w: "walked p root st" "batch_share root" "blanks st" by blast
  show ?case
  proof (cases "d = dotdot")
    case True
    with walked_segment [OF w(1) blank(2) dots_no_sep [OF blank(3)]] have "walked (p @ c # d) root (butlast st)" by (simp add: walk_segment_def)
    moreover have "blanks (butlast st)" using w(3) by (auto simp: blanks_def list_all_iff dest: in_set_butlastD)
    ultimately show ?thesis using w(2) by blast
  next
    case False
    from walked_blank [OF w(1) blank(2,3) False] obtain es where "blanks es" "walked (p @ c # d) root (st @ es)" by blast
    moreover then have "blanks (st @ es)" using w(3) by (simp add: blanks_def)
    ultimately show ?thesis using w(2) by blast
  qed
next
  case (undone p c c' y)
  then show ?case using walked_back by blast
qed

lemma drop_blanks: "blanks es \<Longrightarrow> drop_empty_names (st @ es) = drop_empty_names st"
  unfolding drop_empty_names_def blanks_def rev_append by (subst dropWhile_append2) (auto simp: list_all_iff)

lemma drop_empty_Nil: "drop_empty_names [] = []"
  by (simp add: drop_empty_names_def)

lemma batch_walk_refused:
  assumes "walked p root (st @ (b, l) # es)" and "is_batch_program b" and "blanks es"
  shows "win32_effective_file_name p = Some b"
proof -
  note b = batch_program_name [OF assms(2)]
  have "drop_empty_names (st @ (b, l) # es) = st @ [(b, l)]"
    using drop_blanks [OF assms(3), of "st @ [(b, l)]"] b by (simp add: drop_empty_names_def)
  then have "name_of root (st @ (b, l) # es) = Some b" using b by (cases st) (auto simp: name_of_def Let_def)
  with assms(1) show ?thesis by (auto simp: walked_def win32_effective_file_name_def)
qed

lemma share_walk_refused: "walked p root st \<Longrightarrow> batch_share root \<Longrightarrow> blanks st \<Longrightarrow> \<exists>b. win32_effective_file_name p = Some b \<and> is_batch_program b"
  using drop_blanks [of st "[]"] by (auto simp: walked_def win32_effective_file_name_def name_of_def batch_share_def drop_empty_Nil)

lemma reaches_batch_refused: "reaches_batch text \<Longrightarrow> batch_refusal text = Some BATCH"
proof (cases "is_verbatim text")
  case True
  moreover assume "reaches_batch text"
  ultimately show ?thesis using batch_name_program by (auto simp: reaches_batch_def batch_refusal_def verbatim_refusal_def Let_def)
next
  case False
  moreover assume "reaches_batch text"
  ultimately have "\<exists>b. win32_effective_file_name text = Some b \<and> is_batch_program b"
    unfolding reaches_batch_def using batch_spelling_walked batch_walk_refused share_spelling_walked share_walk_refused by metis
  with False show ?thesis by (auto simp: batch_refusal_def)
qed

text \<open>C22: no spelling of a batch file passes the gate. A token whose text reaches a \<^verbatim>\<open>.bat\<close> or \<^verbatim>\<open>.cmd\<close> file, whatever the directory before the name, the
case of the extension, the dots, spaces and stream after it, the components that drop out or are undone by \<open>..\<close> after that, as a share that
\<open>..\<close> clamps at, or behind the verbatim prefix, is refused on Windows: for its embedded NUL when it has one, as a batch file otherwise.\<close>

theorem batch_files_refused:
  assumes "reaches_batch (text_of_token prog)"
  shows "reject_batch_path_on prog True = Inl (if 0 \<in> set prog then IoKind InvalidInput else Unsupported (STR ''running'') (STR ''windows''))"
proof (cases "0 \<in> set prog")
  case True
  then obtain i where "position (\<lambda>c. c = 0) prog = Some i" "i < length prog" by (cases "position (\<lambda>c. c = 0) prog") (auto simp: position_None_iff position_Some_iff)
  then have "win32_prefix prog \<noteq> prog" by (auto simp: win32_prefix_def)
  with True show ?thesis by (simp add: reject_batch_path_on_def)
next
  case False
  then have "position (\<lambda>c. c = 0) prog = None" by (auto simp: position_None_iff)
  with False reaches_batch_refused [OF assms] show ?thesis by (simp add: reject_batch_path_on_def win32_prefix_def)
qed

text \<open>The token \<^verbatim>\<open>C:\x.BAT .\y\..\ \<close> reaches \<^verbatim>\<open>x.bat\<close>.\<close>

definition sample_token :: bytes where
  "sample_token = [0x43, 0x3A, BSLASH] @ [0x78, DOT, 0x42, 0x41, 0x54, 0x20, DOT]"

theorem batch_files_refused_witness:
  "reject_batch_path_on ((sample_token @ BSLASH # [0x79] @ BSLASH # dotdot) @ BSLASH # [0x20]) True = Inl (Unsupported (STR ''running'') (STR ''windows''))"
proof -
  let ?p = "(sample_token @ BSLASH # [0x79] @ BSLASH # dotdot) @ BSLASH # [0x20]"
  have ext: "is_batch_ext [0x42, 0x41, 0x54]" by code_simp
  have "batch_name [0x78, DOT, 0x42, 0x41, 0x54, 0x20, DOT]" unfolding batch_name_def
    by (rule exI [of _ "[]"], rule exI [of _ "[0x78]"], rule exI [of _ "[0x42, 0x41, 0x54]"], rule exI [of _ "[0x20, DOT]"], rule exI [of _ "[]"])
      (use ext in \<open>simp add: dots_def stream_def\<close>)
  moreover have "dir_prefix [0x43, 0x3A, BSLASH]" by (simp add: dir_prefix_def is_sep_def starts_with_two_separators_def sep_at_def nth_opt_def)
  ultimately have "batch_spelling sample_token" unfolding sample_token_def by (intro batch_spelling.name) (simp_all add: no_sep_def is_sep_def)
  then have sp: "batch_spelling ?p" by (intro batch_spelling.blank batch_spelling.undone) (simp_all add: is_sep_def no_sep_def dots_def)
  have "utf8_valid ?p" by (rule utf8_valid_all_ascii) (simp add: sample_token_def)
  then have t: "text_of_token ?p = ?p" by (simp add: text_of_token_def os_to_string_lossy_def to_str_def from_utf8_def)
  have "\<not> is_verbatim ?p" "0 \<notin> set ?p" by (simp_all add: is_verbatim_def sample_token_def)
  with sp t batch_files_refused [of ?p] show ?thesis by (simp add: reaches_batch_def)
qed

end
