(* ===== verification/Shim_Frames.thy ===== *)
theory Shim_Frames
  imports Prelude
begin

text \<open>
  \<^verbatim>\<open>src/src/elevation/shim/protocol.rs\<close>, second half: the frames the shim sends cosca and the one-byte
  commands cosca sends it. A frame is a tag byte and a four-byte little-endian payload; the commands
  are single bytes.
\<close>

datatype Errno = Errno i32
datatype Signal = Signal i32

section \<open>Frames\<close>

datatype NotExecuted = ForkFailed Errno | ExecFailed Errno | SetupFailed Errno | TerminatedBeforeExec Signal

datatype Refusal = NotCosca | CoscaGone | NoAnswer | Denied

fun refusal_code :: "Refusal \<Rightarrow> i32" where
  "refusal_code NotCosca = 122"
| "refusal_code CoscaGone = 123"
| "refusal_code NoAnswer = 124"
| "refusal_code Denied = 125"

definition from_code :: "i32 \<Rightarrow> Refusal option" where
  "from_code code = find (\<lambda>r. refusal_code r = code) [NotCosca, CoscaGone, NoAnswer, Denied]"

datatype Frame = Hello | Status i32 | Lost i32 | StatusLost | Frame_NotExecuted NotExecuted
  | Refused Refusal

datatype FrameError = Truncated | Garbled

abbreviation KIND_FORK :: u16 where "KIND_FORK \<equiv> 1"
abbreviation KIND_EXEC :: u16 where "KIND_EXEC \<equiv> 2"
abbreviation KIND_SETUP :: u16 where "KIND_SETUP \<equiv> 3"
abbreviation KIND_TERM :: u16 where "KIND_TERM \<equiv> 4"

fun kind_and_value :: "NotExecuted \<Rightarrow> u16 \<times> i32" where
  "kind_and_value (ForkFailed (Errno e)) = (KIND_FORK, e)"
| "kind_and_value (ExecFailed (Errno e)) = (KIND_EXEC, e)"
| "kind_and_value (SetupFailed (Errno e)) = (KIND_SETUP, e)"
| "kind_and_value (TerminatedBeforeExec (Signal s)) = (KIND_TERM, s)"

abbreviation tagH :: u8 where "tagH \<equiv> 0x48"
abbreviation tagS :: u8 where "tagS \<equiv> 0x53"
abbreviation tagL :: u8 where "tagL \<equiv> 0x4C"
abbreviation tagU :: u8 where "tagU \<equiv> 0x55"
abbreviation tagF :: u8 where "tagF \<equiv> 0x46"
abbreviation tagR :: u8 where "tagR \<equiv> 0x52"

fun encode_frame :: "Frame \<Rightarrow> bytes" where
  "encode_frame Hello = [tagH]"
| "encode_frame (Status ws) = tagS # to_le_bytes ws"
| "encode_frame (Lost ws) = tagL # to_le_bytes ws"
| "encode_frame StatusLost = tagU # to_le_bytes 0"
| "encode_frame (Frame_NotExecuted n) = (case kind_and_value n of
     (kind, v) \<Rightarrow> tagF # to_le_bytes (push_bit 16 (ucast kind) OR (v AND 0xffff)))"
| "encode_frame (Refused r) = tagR # to_le_bytes (refusal_code r)"

definition payload_byte_ok :: "u8 \<Rightarrow> bytes \<Rightarrow> nat \<Rightarrow> bool" where
  "payload_byte_ok tag p i =
     (if tag = tagU \<or> (tag = tagR \<and> 1 \<le> i) then p ! i = 0
      else if tag = tagR \<and> i = 0 then from_code (ucast (p ! 0)) \<noteq> None
      else if tag = tagF \<and> i = 1 then p ! 0 \<noteq> 0 \<or> p ! 1 \<noteq> 0
      else if tag = tagF \<and> i = 2 then 1 \<le> p ! 2 \<and> p ! 2 \<le> 4
      else if tag = tagF \<and> i = 3 then p ! 3 = 0
      else True)"

text \<open>The frame a checked four-byte payload spells. The two \<open>unreachable!\<close> arms and the \<open>expect\<close> of
  the source have no value here: they give \<open>None\<close>, and \<open>frame_of_total\<close> below shows they are never
  taken.\<close>

definition frame_of :: "u8 \<Rightarrow> u8 \<Rightarrow> u8 \<Rightarrow> u8 \<Rightarrow> u8 \<Rightarrow> Frame option" where
  "frame_of tag a b c d =
     (let value = from_le_bytes a b c d;
          kind = (ucast (signed_drop_bit 16 value) :: u16);
          low = value AND 0xffff
      in if tag = tagS then Some (Status value)
         else if tag = tagL then Some (Lost value)
         else if tag = tagU then Some StatusLost
         else if tag = tagR then map_option Refused (from_code (ucast a))
         else if tag = tagF then
           (if kind = KIND_FORK then Some (Frame_NotExecuted (ForkFailed (Errno low)))
            else if kind = KIND_EXEC then Some (Frame_NotExecuted (ExecFailed (Errno low)))
            else if kind = KIND_SETUP then Some (Frame_NotExecuted (SetupFailed (Errno low)))
            else if kind = KIND_TERM then Some (Frame_NotExecuted (TerminatedBeforeExec (Signal low)))
            else None)
         else None)"

definition decode_frame :: "bytes \<Rightarrow> FrameError + Frame" where
  "decode_frame bs = (case bs of
      [] \<Rightarrow> Inl Truncated
    | tag # payload \<Rightarrow>
        if tag \<notin> set (ascii ''HSLUFR'') then Inl Garbled
        else if tag = tagH then (if payload = [] then Inr Hello else Inl Garbled)
        else if \<not> list_all (payload_byte_ok tag payload) [0..<min (length payload) 4] \<or> 4 < length payload
          then Inl Garbled
        else (case payload of
            [a, b, c, d] \<Rightarrow> (case frame_of tag a b c d of Some f \<Rightarrow> Inr f | None \<Rightarrow> Inl Garbled)
          | _ \<Rightarrow> Inl Truncated))"

section \<open>Commands\<close>

datatype Command = Allow | Deny | Kill | Terminate | Disarm | Ping

datatype UnknownCommand = UnknownCommand u8

fun encode_command :: "Command \<Rightarrow> u8" where
  "encode_command Allow = 0x41"
| "encode_command Deny = 0x4E"
| "encode_command Kill = 0x4B"
| "encode_command Terminate = 0x54"
| "encode_command Disarm = 0x44"
| "encode_command Ping = 0x50"

definition decode_command :: "u8 \<Rightarrow> UnknownCommand + Command" where
  "decode_command b = (if b = 0x41 then Inr Allow
     else if b = 0x4E then Inr Deny
     else if b = 0x4B then Inr Kill
     else if b = 0x54 then Inr Terminate
     else if b = 0x44 then Inr Disarm
     else if b = 0x50 then Inr Ping
     else Inl (UnknownCommand b))"

section \<open>Frames have one spelling\<close>

definition valid_frame :: "Frame \<Rightarrow> bool" where
  "valid_frame f \<longleftrightarrow> (case f of
      Frame_NotExecuted n \<Rightarrow> snd (kind_and_value n) \<noteq> 0 \<and> snd (kind_and_value n) \<le> 0xffff
    | _ \<Rightarrow> True)"

lemma bit_u32_high [simp]: "32 \<le> n \<Longrightarrow> \<not> bit (v :: i32) n"
  using bit_imp_le_length by fastforce

lemma not_executed_bytes:
  "to_le_bytes (push_bit 16 (ucast (k :: u8)) OR (v AND 0xffff)) = [ucast v, ucast (drop_bit 8 v), k, 0]"
  by (auto simp: to_le_bytes_def mask16_i32 bit_simps intro!: bit_word_eqI)

lemma low_value: "v \<le> 0xffff \<Longrightarrow> (v :: i32) AND 0xffff = v"
proof -
  assume v: "v \<le> 0xffff"
  have "uint (v AND 0xffff) = take_bit 16 (uint v)"
    by (simp add: mask16_i32 take_bit_eq_mask [symmetric] unsigned_take_bit_eq)
  moreover have "uint v < 65536" using v by (simp add: word_le_def)
  then have "take_bit 16 (uint v) = uint v" by (simp add: take_bit_eq_mod)
  ultimately show ?thesis by (simp add: word_uint_eq_iff)
qed

lemma low_from_bytes:
  "ucast (ucast v :: u8) OR push_bit 8 (ucast (ucast (drop_bit 8 v) :: u8)) = (v :: i32) AND 0xffff"
  (is "?lhs = ?rhs")
proof (rule bit_word_eqI)
  fix n assume "n < LENGTH(32)"
  then show "bit ?lhs n = bit ?rhs n"
    by (cases rule: byte_index_cases) (auto simp: bit_simps mask16_i32)
qed

lemma from_code_iff: "from_code c = Some r \<longleftrightarrow> c = refusal_code r"
  by (cases r) (auto simp: from_code_def)

lemma refusal_bytes: "to_le_bytes (refusal_code r) = [ucast (refusal_code r), 0, 0, 0]"
  by (cases r) (simp_all add: to_le_bytes_def)

lemma tags: "set (ascii ''HSLUFR'') = {tagH, tagS, tagL, tagU, tagF, tagR}"
  by auto

lemma kind_u16: "(ucast (signed_drop_bit 16 (from_le_bytes a b c 0)) :: u16) = ucast c"
  by (simp add: high_half_from_le_bytes)

definition payload_ok :: "u8 \<Rightarrow> bytes \<Rightarrow> bool" where
  "payload_ok tag p \<longleftrightarrow> length p \<le> 4 \<and> list_all (payload_byte_ok tag p) [0..<length p]"

lemma decode_frame_Cons:
  "decode_frame (tag # p) =
     (if tag = tagH then (if p = [] then Inr Hello else Inl Garbled)
      else if tag \<notin> {tagS, tagL, tagU, tagF, tagR} \<or> \<not> payload_ok tag p then Inl Garbled
      else (case p of [a, b, c, d] \<Rightarrow> (case frame_of tag a b c d of Some f \<Rightarrow> Inr f | None \<Rightarrow> Inl Garbled)
            | _ \<Rightarrow> Inl Truncated))"
  unfolding decode_frame_def tags by (auto simp: payload_ok_def min_def)

lemma upt_4: "[0..<4] = [0, 1, 2, 3]" by (simp add: upt_rec)

lemma payload_ok_4: "payload_ok tag [a, b, c, d] \<longleftrightarrow>
   (tag = tagU \<longrightarrow> a = 0 \<and> b = 0 \<and> c = 0 \<and> d = 0) \<and>
   (tag = tagR \<longrightarrow> (\<exists>r. refusal_code r = ucast a) \<and> b = 0 \<and> c = 0 \<and> d = 0) \<and>
   (tag = tagF \<longrightarrow> (a \<noteq> 0 \<or> b \<noteq> 0) \<and> 1 \<le> c \<and> c \<le> 4 \<and> d = 0)"
proof -
  have "from_code (ucast a) \<noteq> None \<longleftrightarrow> (\<exists>r. refusal_code r = ucast a)"
    using from_code_iff [of "ucast a"] by (auto dest: sym)
  then show ?thesis
    by (auto simp: payload_ok_def payload_byte_ok_def upt_rec)
qed

lemma kind_cases: "1 \<le> c \<Longrightarrow> c \<le> 4 \<Longrightarrow> (c :: u8) \<in> {1, 2, 3, 4}"
  by (auto; unat_arith)

lemma frame_of_total:
  assumes "tag \<in> {tagS, tagL, tagU, tagF, tagR}" and "payload_ok tag [a, b, c, d]"
  shows "\<exists>f. frame_of tag a b c d = Some f"
proof -
  have r: "from_code (ucast a) = Some r" if "refusal_code r = ucast a" for r
    using that from_code_iff [of "ucast a" r] by simp
  show ?thesis
    using assms kind_cases [of c]
    by (auto simp: payload_ok_4 frame_of_def Let_def kind_u16 dest!: r)
qed

lemma decode_frame_4:
  "tag \<in> {tagS, tagL, tagU, tagF, tagR} \<Longrightarrow>
   decode_frame [tag, a, b, c, d] = Inr f \<longleftrightarrow> payload_ok tag [a, b, c, d] \<and> frame_of tag a b c d = Some f"
  by (auto simp: decode_frame_Cons split: option.splits)

lemma decode_frame_Inr:
  "decode_frame bs = Inr f \<longleftrightarrow> bs = [tagH] \<and> f = Hello \<or>
     (\<exists>tag a b c d. bs = [tag, a, b, c, d] \<and> tag \<in> {tagS, tagL, tagU, tagF, tagR} \<and>
        payload_ok tag [a, b, c, d] \<and> frame_of tag a b c d = Some f)" (is "_ = ?r")
proof
  assume "decode_frame bs = Inr f"
  then obtain tag p where bs: "bs = tag # p" by (cases bs) (auto simp: decode_frame_def)
  with \<open>decode_frame bs = Inr f\<close> show ?r
    by (auto simp: decode_frame_Cons split: if_splits list.splits option.splits)
next
  assume ?r
  then show "decode_frame bs = Inr f" by (auto simp: decode_frame_Cons)
qed

lemma le_bytes_4: "to_le_bytes v = [ucast v, ucast (drop_bit 8 v), ucast (drop_bit 16 v), ucast (drop_bit 24 v)]"
  by (simp add: to_le_bytes_def)

lemma low_bytes_nonzero:
  assumes "(v :: i32) \<noteq> 0" and "v \<le> 0xffff"
  shows "(ucast v :: u8) \<noteq> 0 \<or> (ucast (drop_bit 8 v) :: u8) \<noteq> 0"
proof (rule ccontr)
  assume "\<not> ?thesis"
  with low_from_bytes [of v] low_value [OF assms(2)] assms(1) show False by simp
qed

lemma ucast_kind: "(ucast (ucast (k :: u8) :: u16) :: i32) = ucast k" (is "?lhs = ?rhs")
proof (rule bit_word_eqI)
  fix n assume "n < LENGTH(32)"
  then show "bit ?lhs n = bit ?rhs n"
    by (cases rule: byte_index_cases) (auto simp: bit_simps)
qed

lemma ucast_byte: "(ucast (ucast (k :: u8) :: i32) :: u8) = k"
  by (auto simp: bit_simps intro!: bit_word_eqI)

lemma kind_byte: "\<exists>k :: u8. 1 \<le> k \<and> k \<le> 4 \<and> kind_and_value n = (ucast k, snd (kind_and_value n))"
  by (cases n rule: kind_and_value.cases)
    (auto intro: exI [of _ 1] exI [of _ 2] exI [of _ 3] exI [of _ 4])

lemma decode_not_executed:
  assumes "kind_and_value n = (ucast (k :: u8), v)" and "1 \<le> k" and "k \<le> 4"
    and "v \<noteq> 0" and "v \<le> 0xffff"
  shows "decode_frame (encode_frame (Frame_NotExecuted n)) = Inr (Frame_NotExecuted n)"
proof -
  have enc: "encode_frame (Frame_NotExecuted n) = [tagF, ucast v, ucast (drop_bit 8 v), k, 0]"
    using assms(1) not_executed_bytes [of k v] by (simp add: ucast_kind)
  have low: "from_le_bytes (ucast v) (ucast (drop_bit 8 v)) k 0 AND 0xffff = v"
    by (simp only: low_half_from_le_bytes low_from_bytes low_value [OF assms(5)])
  have fr: "frame_of tagF (ucast v) (ucast (drop_bit 8 v)) k 0 = Some (Frame_NotExecuted n)"
    using kind_cases [OF assms(2,3)] assms(1)
    by (cases n rule: kind_and_value.cases) (auto simp: frame_of_def Let_def kind_u16 low)
  have "payload_ok tagF [ucast v, ucast (drop_bit 8 v), k, 0]"
    using low_bytes_nonzero [OF assms(4,5)] assms(2,3) by (auto simp: payload_ok_4)
  with fr show ?thesis unfolding enc by (simp add: decode_frame_4)
qed

lemma decode_encode_frame: "valid_frame f \<Longrightarrow> decode_frame (encode_frame f) = Inr f"
proof (cases f)
  case (Frame_NotExecuted n)
  assume v: "valid_frame f"
  obtain k :: u8 where "1 \<le> k" "k \<le> 4" "kind_and_value n = (ucast k, snd (kind_and_value n))"
    using kind_byte by blast
  moreover from v Frame_NotExecuted have "snd (kind_and_value n) \<noteq> 0" "snd (kind_and_value n) \<le> 0xffff"
    by (simp_all add: valid_frame_def)
  ultimately show ?thesis unfolding Frame_NotExecuted by (intro decode_not_executed)
next
  case (Refused r)
  then show ?thesis
    by (cases r)
      (auto simp: le_bytes_4 decode_frame_4 payload_ok_4 frame_of_def Let_def from_code_def
        intro: exI [of _ NotCosca] exI [of _ CoscaGone] exI [of _ NoAnswer] exI [of _ Denied])
qed (simp_all add: le_bytes_4 decode_frame_4 payload_ok_4 frame_of_def Let_def from_to_le_bytes
      decode_frame_Cons)

lemma low_parts:
  fixes a b :: u8
  defines "v \<equiv> (ucast a OR push_bit 8 (ucast b) :: i32)"
  shows "ucast v = a" "ucast (drop_bit 8 v) = b" "v \<le> 0xffff" "v = 0 \<longleftrightarrow> a = 0 \<and> b = 0"
proof -
  show a: "ucast v = a" and b: "ucast (drop_bit 8 v) = b"
    by (auto simp: v_def bit_simps intro!: bit_word_eqI)
  have "v = from_le_bytes a b 0 0 AND 0xffff" by (simp add: v_def low_half_from_le_bytes)
  then show "v \<le> 0xffff" using word_and_le1 by metis
  show "v = 0 \<longleftrightarrow> a = 0 \<and> b = 0" using a b by (auto simp: v_def)
qed

lemma encode_not_executed:
  assumes "kind_and_value n = (ucast (c :: u8), ucast a OR push_bit 8 (ucast (b :: u8)))"
  shows "encode_frame (Frame_NotExecuted n) = [tagF, a, b, c, 0]"
  unfolding encode_frame.simps assms prod.case ucast_kind not_executed_bytes low_parts by (rule refl)

lemma encode_decode_frame: "decode_frame bs = Inr f \<Longrightarrow> valid_frame f \<and> encode_frame f = bs"
proof -
  assume "decode_frame bs = Inr f"
  then consider "bs = [tagH]" "f = Hello"
    | tag a b c d where "bs = [tag, a, b, c, d]" "tag \<in> {tagS, tagL, tagU, tagF, tagR}"
      "payload_ok tag [a, b, c, d]" "frame_of tag a b c d = Some f"
    unfolding decode_frame_Inr by blast
  then show ?thesis
  proof cases
    case 1
    then show ?thesis by (simp add: valid_frame_def)
  next
    case (2 tag a b c d)
    consider (S) "tag = tagS" | (L) "tag = tagL" | (U) "tag = tagU" | (R) "tag = tagR" | (F) "tag = tagF"
      using 2(2) by auto
    then show ?thesis
    proof cases
      case R
      with 2 obtain r where "ucast a = refusal_code r" "f = Refused r" "b = 0" "c = 0" "d = 0"
        by (auto simp: payload_ok_4 frame_of_def Let_def from_code_iff)
      moreover have "ucast (refusal_code r) = a"
        using ucast_byte [of a] \<open>ucast a = refusal_code r\<close> by simp
      ultimately show ?thesis using R 2(1) by (simp add: valid_frame_def refusal_bytes)
    next
      case F
      with 2(3) have p: "a \<noteq> 0 \<or> b \<noteq> 0" "1 \<le> c" "c \<le> 4" "d = 0" by (simp_all add: payload_ok_4)
      let ?v = "ucast a OR push_bit 8 (ucast b) :: i32"
      obtain n where f: "f = Frame_NotExecuted n" and n: "kind_and_value n = (ucast c, ?v)"
        using 2(4) F p(4) kind_cases [OF p(2,3)]
        by (auto simp: frame_of_def Let_def kind_u16 low_half_from_le_bytes)
      show ?thesis
        using encode_not_executed [OF n] f F 2(1) p low_parts [of a b] n by (simp add: valid_frame_def)
    next
      case U
      with 2 show ?thesis by (auto simp: valid_frame_def frame_of_def Let_def payload_ok_4 le_bytes_4)
    qed (use 2 in \<open>auto simp: valid_frame_def frame_of_def Let_def to_from_le_bytes\<close>)
  qed
qed

interpretation frame: codec encode_frame decode_frame valid_frame
  using decode_encode_frame encode_decode_frame by unfold_locales auto

interpretation command: codec encode_command decode_command "\<lambda>_. True"
proof
  show "decode_command (encode_command x) = Inr x" for x
    by (cases x) (simp_all add: decode_command_def)
  show "decode_command y = Inr x \<Longrightarrow> True \<and> encode_command x = y" for x y
    by (auto simp: decode_command_def split: if_splits)
qed

section \<open>Truncated means a proper prefix of a frame\<close>

lemma payload_byte_ok_append: "i < length p \<Longrightarrow> payload_byte_ok tag (p @ q) i = payload_byte_ok tag p i"
  by (auto simp: payload_byte_ok_def nth_append)

lemma payload_ok_prefix: "payload_ok tag (p @ q) \<Longrightarrow> payload_ok tag p"
  using payload_byte_ok_append [of _ p tag q] by (fastforce simp: payload_ok_def list_all_iff)

lemma payload_completion:
  assumes "tag \<in> {tagS, tagL, tagU, tagF, tagR}" and "payload_ok tag p" and "length p < 4"
  shows "\<exists>q. q \<noteq> [] \<and> length (p @ q) = 4 \<and> payload_ok tag (p @ q)"
proof -
  let ?q = "drop (length p) (if tag = tagR then [122, 0, 0, 0] else if tag = tagF then
    (if length p = 1 then [1, 1, 1, 0] else [1, 0, 1, 0]) else [0, 0, 0, 0])"
  have r: "from_code (122 :: i32) \<noteq> None" by (simp add: from_code_def)
  consider "p = []" | a where "p = [a]" | a b where "p = [a, b]" | a b c where "p = [a, b, c]"
    using assms(3) by (auto simp: numeral_eq_Suc less_Suc_eq length_Suc_conv)
  then have "?q \<noteq> [] \<and> length (p @ ?q) = 4 \<and> payload_ok tag (p @ ?q)"
    using assms(1,2) r
    by cases (auto simp: payload_ok_def payload_byte_ok_def upt_rec)
  then show ?thesis by blast
qed

lemma length_4E:
  assumes "length xs = 4"
  obtains a b c d where "xs = [a, b, c, d]"
  using assms by (auto simp: numeral_eq_Suc length_Suc_conv)

lemma frame_completes:
  assumes "decode_frame bs = Inl Truncated"
  shows "\<exists>q f. q \<noteq> [] \<and> decode_frame (bs @ q) = Inr f"
proof (cases bs)
  case Nil
  have "decode_frame ([] @ [tagH]) = Inr Hello" by (simp add: decode_frame_Cons)
  with Nil show ?thesis by blast
next
  case (Cons tag p)
  with assms have tag: "tag \<in> {tagS, tagL, tagU, tagF, tagR}" and ok: "payload_ok tag p"
    by (auto simp: decode_frame_Cons split: if_splits)
  have "length p \<noteq> 4"
  proof
    assume "length p = 4"
    then obtain a b c d where p: "p = [a, b, c, d]" by (rule length_4E)
    with assms Cons tag ok show False
      by (auto simp: decode_frame_Cons split: if_splits option.splits)
  qed
  with ok have "length p < 4" by (simp add: payload_ok_def)
  with tag ok obtain q where q: "q \<noteq> []" "length (p @ q) = 4" "payload_ok tag (p @ q)"
    using payload_completion by blast
  from q(2) obtain a b c d where pq: "p @ q = [a, b, c, d]" by (rule length_4E)
  with tag q(3) obtain f where "frame_of tag a b c d = Some f" using frame_of_total by force
  with tag q(3) pq Cons have "decode_frame (bs @ q) = Inr f" by (simp add: decode_frame_4)
  with q(1) show ?thesis by blast
qed

lemma frame_prefix_truncated:
  assumes "decode_frame (bs @ q) = Inr f" and "q \<noteq> []"
  shows "decode_frame bs = Inl Truncated"
proof (cases bs)
  case Nil
  then show ?thesis by (simp add: decode_frame_def)
next
  case (Cons tag p)
  with assms obtain a b c d where pq: "p @ q = [a, b, c, d]"
    and tag: "tag \<in> {tagS, tagL, tagU, tagF, tagR}" and "payload_ok tag (p @ q)"
    unfolding decode_frame_Inr by (auto simp: Cons_eq_append_conv append_eq_Cons_conv)
  then have "payload_ok tag p" using payload_ok_prefix by blast
  moreover have "length p < 4" using arg_cong [OF pq, of length] assms(2) by (cases q) auto
  ultimately show ?thesis using tag Cons
    by (auto simp: decode_frame_Cons split: list.splits)
qed

lemma decode_frame_Truncated_iff:
  "decode_frame bs = Inl Truncated \<longleftrightarrow> (\<exists>q f. q \<noteq> [] \<and> decode_frame (bs @ q) = Inr f)"
  using frame_completes frame_prefix_truncated by blast

lemma decode_frame_Garbled_iff:
  "decode_frame bs = Inl Garbled \<longleftrightarrow> (\<forall>q f. decode_frame (bs @ q) \<noteq> Inr f)"
proof -
  consider "decode_frame bs = Inl Truncated" | "decode_frame bs = Inl Garbled" | f where "decode_frame bs = Inr f"
    by (metis FrameError.exhaust sumE)
  then show ?thesis
  proof cases
    case 1
    then show ?thesis using frame_completes by fastforce
  next
    case 2
    then have "decode_frame (bs @ q) \<noteq> Inr f" for q f
      using frame_prefix_truncated [of bs q f] by (cases q) auto
    with 2 show ?thesis by blast
  next
    case 3
    then have "decode_frame (bs @ []) = Inr f" by simp
    with 3 show ?thesis by fastforce
  qed
qed


lemma decode_command_Inl:
  "decode_command b = Inl e \<longleftrightarrow> e = UnknownCommand b \<and> (\<forall>c. encode_command c \<noteq> b)"
proof -
  have "\<exists>c. decode_command b = Inr c" if "decode_command b \<noteq> Inl (UnknownCommand b)"
    using that by (auto simp: decode_command_def split: if_splits)
  then show ?thesis using command.decode_iff [of b] by (metis sum.inject(1) sum.distinct(1))
qed

section \<open>Properties\<close>

text \<open>Every frame has one spelling. \<open>decode_frame\<close> accepts exactly the encodings of the frames whose
  not-executed value fits the payload (from 1 to \<open>0xffff\<close>).\<close>

theorem frame_one_spelling: "decode_frame bs = Inr f \<longleftrightarrow> valid_frame f \<and> encode_frame f = bs"
  by (rule frame.decode_iff)

text \<open>The two decoding errors are told apart by what more bytes could do. A stream is \<open>Truncated\<close>
  exactly when some further bytes complete it to a frame, and \<open>Garbled\<close> exactly when nothing does.\<close>

theorem frame_truncated_or_garbled:
  "(decode_frame bs = Inl Truncated \<longleftrightarrow> (\<exists>q f. q \<noteq> [] \<and> decode_frame (bs @ q) = Inr f)) \<and>
   (decode_frame bs = Inl Garbled \<longleftrightarrow> (\<forall>q f. decode_frame (bs @ q) \<noteq> Inr f))"
  using decode_frame_Truncated_iff decode_frame_Garbled_iff by blast

text \<open>A command byte decodes to the command it encodes, and any other byte to the error that
  carries it.\<close>

theorem command_one_spelling:
  "(decode_command b = Inr c \<longleftrightarrow> encode_command c = b) \<and>
   (decode_command b = Inl e \<longleftrightarrow> e = UnknownCommand b \<and> (\<forall>c. encode_command c \<noteq> b))"
  using command.decode_iff decode_command_Inl by blast

end
