(* ===== verification/Shim_Step.thy ===== *)
theory Shim_Step
  imports Shim_Frames
begin

text \<open>
  \<^verbatim>\<open>src/src/elevation/shim/step.rs\<close>, \<^verbatim>\<open>codes.rs\<close> and the wait status of \<^verbatim>\<open>run/reap.rs\<close>: the shim's
  supervision step, its verdict and its exit codes. \<^verbatim>\<open>decide\<close> takes the loop state by mutable
  reference, so here it returns the actions and the new state.
\<close>

section \<open>State, events and actions\<close>

record LoopState =
  armed :: bool
  conn_open :: bool
  owner_watched :: bool
  exec_pending :: bool
  test_hooks :: bool

definition new_state :: "bool \<Rightarrow> LoopState" where
  "new_state hooks = \<lparr>armed = True, conn_open = True, owner_watched = True, exec_pending = True,
     test_hooks = hooks\<rparr>"

datatype Control = Control_Nothing | Control_Byte u8 | Control_Eof

datatype ExecEvent = Exec_Nothing | Exec_Eof | Exec_Report

record Events =
  ev_control :: Control
  ev_owner_exited :: bool
  ev_child_exited :: bool
  ev_exec_event :: ExecEvent
  ev_signaled :: bool
  ev_forced_failure :: bool

definition no_events :: Events where
  "no_events = \<lparr>ev_control = Control_Nothing, ev_owner_exited = False, ev_child_exited = False,
     ev_exec_event = Exec_Nothing, ev_signaled = False, ev_forced_failure = False\<rparr>"

datatype ToChild = ToChild_Kill | ToChild_Term

record Actions =
  a_signal :: "ToChild option"
  a_reap :: bool
  a_lost :: bool
  a_pong :: bool
  a_violation :: bool

definition no_actions :: Actions where
  "no_actions = \<lparr>a_signal = None, a_reap = False, a_lost = False, a_pong = False, a_violation = False\<rparr>"

section \<open>The step\<close>

definition serve_byte :: "u8 \<Rightarrow> LoopState \<Rightarrow> Actions \<Rightarrow> Actions \<times> LoopState" where
  "serve_byte byte st a = (case decode_command byte of
      Inr Kill \<Rightarrow> (a\<lparr>a_signal := Some ToChild_Kill\<rparr>, st)
    | Inr Terminate \<Rightarrow> (a\<lparr>a_signal := Some ToChild_Term\<rparr>, st)
    | Inr Disarm \<Rightarrow> (a, st\<lparr>armed := False\<rparr>)
    | Inr Ping \<Rightarrow>
        if test_hooks st then (a\<lparr>a_pong := True\<rparr>, st)
        else (a\<lparr>a_signal := Some ToChild_Kill, a_violation := True\<rparr>, st)
    | _ \<Rightarrow> (a\<lparr>a_signal := Some ToChild_Kill, a_violation := True\<rparr>, st))"

definition serve_control :: "Control \<Rightarrow> LoopState \<Rightarrow> Actions \<Rightarrow> Actions \<times> LoopState" where
  "serve_control c st a = (case c of
      Control_Nothing \<Rightarrow> (a, st)
    | Control_Eof \<Rightarrow>
        (if armed st then a\<lparr>a_signal := Some ToChild_Kill\<rparr> else a, st\<lparr>conn_open := False\<rparr>)
    | Control_Byte byte \<Rightarrow> serve_byte byte st a)"

definition serve_owner :: "bool \<Rightarrow> LoopState \<Rightarrow> Actions \<Rightarrow> Actions \<times> LoopState" where
  "serve_owner exited st a =
     (if exited \<and> owner_watched st
      then (if armed st then a\<lparr>a_signal := Some ToChild_Kill\<rparr> else a, st\<lparr>owner_watched := False\<rparr>)
      else (a, st))"

definition decide :: "LoopState \<Rightarrow> Events \<Rightarrow> Actions \<times> LoopState" where
  "decide st ev =
     (if ev_forced_failure ev then (no_actions\<lparr>a_lost := True\<rparr>, st)
      else
        let st = (if ev_exec_event ev \<noteq> Exec_Nothing then st\<lparr>exec_pending := False\<rparr> else st);
            (a, st) = serve_control (ev_control ev) st no_actions;
            (a, st) = serve_owner (ev_owner_exited ev) st a;
            a = (if ev_signaled ev then a\<lparr>a_signal := Some ToChild_Kill\<rparr> else a)
        in (a\<lparr>a_reap := ev_child_exited ev\<rparr>, st))"

section \<open>The verdict\<close>

abbreviation STATUS_LOST :: i32 where "STATUS_LOST \<equiv> 112"
abbreviation OWNER_WATCH :: i32 where "OWNER_WATCH \<equiv> 116"
abbreviation NOT_EXECUTED :: i32 where "NOT_EXECUTED \<equiv> 117"
abbreviation SUPERVISION :: i32 where "SUPERVISION \<equiv> 118"
abbreviation SET_ID :: i32 where "SET_ID \<equiv> 121"
abbreviation NOT_COSCA :: i32 where "NOT_COSCA \<equiv> 122"
abbreviation OWNER_GONE :: i32 where "OWNER_GONE \<equiv> 123"
abbreviation NO_ANSWER :: i32 where "NO_ANSWER \<equiv> 124"

record Verdict =
  v_frame :: Frame
  v_exit_code :: i32

text \<open>\<^verbatim>\<open>>>\<close> on an \<^verbatim>\<open>i32\<close> is the arithmetic shift.\<close>

definition exit_code_of :: "i32 \<Rightarrow> i32" where
  "exit_code_of wait_status =
     (let signal = wait_status AND 0x7f
      in if signal = 0 then signed_drop_bit 8 wait_status AND 0xff else 128 + signal)"

definition conclude :: "NotExecuted option \<Rightarrow> i32 option \<Rightarrow> bool \<Rightarrow> Verdict" where
  "conclude report reaped lost = (case report of
      Some not_executed \<Rightarrow> \<lparr>v_frame = Frame_NotExecuted not_executed, v_exit_code = NOT_EXECUTED\<rparr>
    | None \<Rightarrow> (case reaped of
          None \<Rightarrow> \<lparr>v_frame = StatusLost, v_exit_code = STATUS_LOST\<rparr>
        | Some status \<Rightarrow>
            if lost then \<lparr>v_frame = Lost status, v_exit_code = SUPERVISION\<rparr>
            else \<lparr>v_frame = Status status, v_exit_code = exit_code_of status\<rparr>))"

text \<open>What \<^verbatim>\<open>waitid\<close> says of the child: rustix's \<^verbatim>\<open>WaitIdStatus\<close> as the source reads it.\<close>

record WaitIdStatus =
  exit_status :: "i32 option"
  terminating_signal :: "i32 option"
  dumped :: bool

definition wait_status :: "WaitIdStatus \<Rightarrow> i32 option" where
  "wait_status s = (case exit_status s of
      Some code \<Rightarrow> Some (push_bit 8 (code AND 0xff))
    | None \<Rightarrow> map_option (\<lambda>signal. signal OR (if dumped s then 0x80 else 0)) (terminating_signal s))"

section \<open>When a step signals, and what it keeps\<close>

text \<open>A byte that kills: \<open>K\<close>, or a violation of the protocol.\<close>

definition kill_byte :: "bool \<Rightarrow> u8 \<Rightarrow> bool" where
  "kill_byte hooks b \<longleftrightarrow> b \<notin> {encode_command Terminate, encode_command Disarm} \<and>
     \<not> (hooks \<and> b = encode_command Ping)"

lemma decode_command_cases:
  obtains c where "b = encode_command c" "decode_command b = Inr c"
  | "decode_command b = Inl (UnknownCommand b)" "\<forall>c. b \<noteq> encode_command c"
  using command.decode_iff [of b] decode_command_Inl [of b] by (metis sum.exhaust_sel)

lemma serve_byte_signal:
  "a_signal (fst (serve_byte b st a)) =
     (if kill_byte (test_hooks st) b then Some ToChild_Kill
      else if b = encode_command Terminate then Some ToChild_Term else a_signal a)"
proof (cases b rule: decode_command_cases)
  case (1 c)
  then show ?thesis by (cases c) (auto simp: serve_byte_def kill_byte_def)
next
  case 2
  then have "\<And>c. b \<noteq> encode_command c" by blast
  from 2(1) this [of Terminate] this [of Disarm] this [of Ping] show ?thesis
    by (simp add: serve_byte_def kill_byte_def)
qed

lemma serve_byte_state:
  "snd (serve_byte b st a) = (if b = encode_command Disarm then st\<lparr>armed := False\<rparr> else st)"
proof (cases b rule: decode_command_cases)
  case (1 c)
  then show ?thesis by (cases c) (auto simp: serve_byte_def)
next
  case 2
  then have "b \<noteq> encode_command Disarm" by blast
  with 2(1) show ?thesis by (simp add: serve_byte_def)
qed

text \<open>Whether the supervision is still armed once this step's control has been served.\<close>

definition still_armed :: "LoopState \<Rightarrow> Events \<Rightarrow> bool" where
  "still_armed st ev \<longleftrightarrow> armed st \<and> ev_control ev \<noteq> Control_Byte (encode_command Disarm)"

definition kills :: "LoopState \<Rightarrow> Events \<Rightarrow> bool" where
  "kills st ev \<longleftrightarrow> ev_signaled ev \<or> (\<exists>b. ev_control ev = Control_Byte b \<and> kill_byte (test_hooks st) b) \<or>
     still_armed st ev \<and> (ev_control ev = Control_Eof \<or> ev_owner_exited ev \<and> owner_watched st)"

lemma serve_control_state:
  "snd (serve_control c st a) = (if c = Control_Eof then st\<lparr>conn_open := False\<rparr>
     else if c = Control_Byte (encode_command Disarm) then st\<lparr>armed := False\<rparr> else st)"
  by (auto simp: serve_control_def serve_byte_state split: Control.splits)

lemma serve_control_signal:
  "a_signal (fst (serve_control c st a)) =
     (if c = Control_Eof \<and> armed st \<or> (\<exists>b. c = Control_Byte b \<and> kill_byte (test_hooks st) b) then Some ToChild_Kill
      else if c = Control_Byte (encode_command Terminate) then Some ToChild_Term else a_signal a)"
  by (auto simp: serve_control_def serve_byte_signal split: Control.splits)

lemma decide_state:
  assumes "\<not> ev_forced_failure ev"
  shows "snd (decide st ev) =
    \<lparr>armed = still_armed st ev, conn_open = (conn_open st \<and> ev_control ev \<noteq> Control_Eof),
     owner_watched = (owner_watched st \<and> \<not> ev_owner_exited ev),
     exec_pending = (exec_pending st \<and> ev_exec_event ev = Exec_Nothing), test_hooks = test_hooks st\<rparr>"
  using assms
  by (cases st) (auto simp: decide_def Let_def case_prod_beta serve_owner_def serve_control_state still_armed_def)

lemma decide_signal:
  assumes "\<not> ev_forced_failure ev"
  shows "a_signal (fst (decide st ev)) =
    (if kills st ev then Some ToChild_Kill
     else if ev_control ev = Control_Byte (encode_command Terminate) then Some ToChild_Term else None)"
  using assms
  by (auto simp: decide_def Let_def case_prod_beta serve_owner_def serve_control_state serve_control_signal
      no_actions_def kills_def still_armed_def)

lemma serve_byte_frame:
  "a_reap (fst (serve_byte b st a)) = a_reap a" "a_lost (fst (serve_byte b st a)) = a_lost a"
  by (simp_all add: serve_byte_def split: sum.split Command.split)

lemma decide_forced: "ev_forced_failure ev \<Longrightarrow> decide st ev = (no_actions\<lparr>a_lost := True\<rparr>, st)"
  by (simp add: decide_def)

lemma decide_reap: "a_reap (fst (decide st ev)) \<longleftrightarrow> ev_child_exited ev \<and> \<not> ev_forced_failure ev"
  by (simp add: decide_def Let_def case_prod_beta no_actions_def)

lemma decide_lost: "a_lost (fst (decide st ev)) \<longleftrightarrow> ev_forced_failure ev"
  by (auto simp: decide_def Let_def case_prod_beta no_actions_def serve_owner_def serve_control_def
      serve_byte_frame split: Control.splits)

section \<open>Wait statuses and exit codes\<close>

lemma exit_code_of_exit: "exit_code_of (push_bit 8 (code AND 0xff)) = code AND 0xff"
proof -
  have m: "(0xff :: i32) = mask 8" "(0x7f :: i32) = mask 7" by (simp_all add: mask_eq_decr_exp)
  have "push_bit 8 (code AND 0xff) AND 0x7f = (0 :: i32)"
    by (auto simp: m bit_simps intro!: bit_word_eqI)
  moreover have "signed_drop_bit 8 (push_bit 8 (code AND 0xff)) AND 0xff = code AND (0xff :: i32)"
    by (auto simp: m bit_simps intro!: bit_word_eqI)
  ultimately show ?thesis by (simp add: exit_code_of_def)
qed

lemma exit_code_of_signal:
  assumes "signal AND 0x7f = signal" and "signal \<noteq> 0"
  shows "exit_code_of (signal OR (if core then 0x80 else 0)) = 128 + signal"
proof -
  have "(signal OR (if core then 0x80 else 0)) AND 0x7f = signal AND 0x7f"
    by (simp add: word_ao_dist)
  with assms show ?thesis by (simp add: exit_code_of_def)
qed

lemma exit_code_of_range: "exit_code_of w \<le> 0xff"
proof (cases "w AND 0x7f = 0")
  case True
  then show ?thesis by (simp add: exit_code_of_def word_and_le1)
next
  case False
  have "w AND 0x7f \<le> 0x7f" by (rule word_and_le1)
  then have "128 + (w AND 0x7f) \<le> 128 + 0x7f" by (intro word_plus_mono_right) auto
  with False show ?thesis by (simp add: exit_code_of_def)
qed

section \<open>Properties\<close>

text \<open>The shim's exit code is the program's. For a wait status made from what \<^verbatim>\<open>waitid\<close> reported, it is
  the low eight bits of the exit code, or 128 plus the terminating signal whether or not core was
  dumped, and it never exceeds 255.\<close>

theorem exit_code_reports_status:
  assumes "wait_status s = Some w"
    and "\<forall>g. terminating_signal s = Some g \<longrightarrow> g \<noteq> 0 \<and> g AND 0x7f = g"
  shows "exit_code_of w \<le> 0xff \<and> exit_code_of w =
    (case exit_status s of Some code \<Rightarrow> code AND 0xff | None \<Rightarrow> 128 + the (terminating_signal s))"
proof (cases "exit_status s")
  case None
  then show ?thesis using assms exit_code_of_range [of w] exit_code_of_signal
    by (auto simp: wait_status_def)
next
  case (Some code)
  with assms(1) have "w = push_bit 8 (code AND 0xff)" unfolding wait_status_def by simp
  then have "exit_code_of w = code AND 0xff" by (simp only: exit_code_of_exit)
  then show ?thesis using Some exit_code_of_range [of w] by simp
qed

theorem exit_code_reports_status_witness:
  "exit_code_of 0x8b = 128 + 11"
proof -
  let ?s = "\<lparr>exit_status = None, terminating_signal = Some 11, dumped = True\<rparr>"
  have "wait_status ?s = Some 0x8b" by code_simp
  from exit_code_reports_status [OF this] show ?thesis by simp
qed

text \<open>One step sends SIGKILL when it must, SIGTERM only on a \<open>T\<close> with no reason to kill, and nothing
  otherwise: a kill wins over the terminate of the same step. A forced failure sends nothing itself.\<close>

theorem step_signal:
  "a_signal (fst (decide st ev)) =
    (if ev_forced_failure ev then None
     else if kills st ev then Some ToChild_Kill
     else if ev_control ev = Control_Byte (encode_command Terminate) then Some ToChild_Term else None)"
  using decide_signal [of ev st] decide_forced [of ev st] by (auto simp: no_actions_def)

end
