(* ===== verification/Shim_Loop.thy ===== *)
theory Shim_Loop
  imports Shim_Step "HOL-Library.Monad_Syntax"
begin

text \<open>
  \<^verbatim>\<open>src/src/elevation/shim/run/run_loop.rs\<close>, \<^verbatim>\<open>run/fds.rs\<close>, \<^verbatim>\<open>run/reap.rs\<close> and the report half of
  \<^verbatim>\<open>run/child.rs\<close>: the shim's supervision loop.

  The system calls are the environment: a retrying loop reads its answers from a list, the answers
  the kernel gives to the calls it makes, in order. A function returns \<open>None\<close> when the list ends
  before the loop does, that is while the call is still blocked or interrupted. The loop's effects are
  the signals it sends to the child, in order. The seam log and the wait for a test's host thread
  have no effect on the state and are left out; debug assertions are off.
\<close>

section \<open>Polling\<close>

text \<open>\<^verbatim>\<open>poll_in\<close>: the slots of the polled descriptors, then each slot's answer. \<open>revents\<close> has an entry
  per polled descriptor.\<close>

primrec poll_slots :: "nat \<Rightarrow> bool list \<Rightarrow> nat option list" where
  "poll_slots n [] = []"
| "poll_slots n (present # fds) =
     (if present then Some n # poll_slots (Suc n) fds else None # poll_slots n fds)"

definition poll_in :: "bool list \<Rightarrow> i32 + bool list \<Rightarrow> i32 + bool list" where
  "poll_in fds polled = (case polled of
      Inl e \<Rightarrow> Inl e
    | Inr revents \<Rightarrow>
        Inr (map (\<lambda>slot. case slot of None \<Rightarrow> False | Some i \<Rightarrow> i < length revents \<and> revents ! i)
          (poll_slots 0 fds)))"

section \<open>Reading what is there\<close>

datatype Read = Read_Ok bytes | Read_Intr | Read_Again | Read_Err i32

datatype Pipe = Pipe_Report NotExecuted | Pipe_Eof | Pipe_Nothing

abbreviation EIO :: i32 where "EIO \<equiv> 5"

definition status_value :: "u16 \<Rightarrow> i32 \<Rightarrow> i32" where
  "status_value kind value = (push_bit 16 (ucast kind) OR (value AND 0xffff))"

definition decode_report :: "i32 \<Rightarrow> NotExecuted" where
  "decode_report value = (case decode_frame (tagF # to_le_bytes value) of
      Inr (Frame_NotExecuted report) \<Rightarrow> report
    | _ \<Rightarrow> ExecFailed (Errno EIO))"

fun drain_status :: "Read list \<Rightarrow> Pipe option" where
  "drain_status [] = None"
| "drain_status (Read_Ok value # _) = Some (case value of
      [a, b, c, d] \<Rightarrow> Pipe_Report (decode_report (from_le_bytes a b c d))
    | [] \<Rightarrow> Pipe_Eof
    | _ \<Rightarrow> Pipe_Nothing)"
| "drain_status (Read_Intr # rs) = drain_status rs"
| "drain_status (Read_Again # _) = Some Pipe_Nothing"
| "drain_status (Read_Err _ # _) = Some Pipe_Nothing"

datatype Recv = Recv_Byte u8 | Recv_End | Recv_Intr | Recv_Again | Recv_Reset | Recv_Err i32

fun drain_control :: "Recv list \<Rightarrow> Control list option" where
  "drain_control [] = None"
| "drain_control (Recv_Byte b # rs) = map_option (\<lambda>cs. Control_Byte b # cs) (drain_control rs)"
| "drain_control (Recv_End # _) = Some [Control_Eof]"
| "drain_control (Recv_Intr # rs) = drain_control rs"
| "drain_control (Recv_Again # _) = Some []"
| "drain_control (Recv_Reset # _) = Some [Control_Eof]"
| "drain_control (Recv_Err _ # _) = Some [Control_Eof]"

fun drain_wake :: "bool \<Rightarrow> Read list \<Rightarrow> bool option" where
  "drain_wake any [] = None"
| "drain_wake any (Read_Ok buf # rs) = (if buf = [] then Some any else drain_wake True rs)"
| "drain_wake any (Read_Again # _) = Some any"
| "drain_wake any (Read_Intr # rs) = drain_wake any rs"
| "drain_wake any (Read_Err _ # _) = Some any"

section \<open>Reaping\<close>

datatype WaitAnswer = WaitAnswer_Some WaitIdStatus | WaitAnswer_None | WaitAnswer_Intr | WaitAnswer_Child
  | WaitAnswer_Err i32

datatype Wait = Wait_Status i32 | Wait_Gone | Wait_NotYet

text \<open>The answers of one \<^verbatim>\<open>waitid\<close> loop; the second component is what is left for the next.\<close>

fun wait_on :: "WaitAnswer list \<Rightarrow> (Wait \<times> WaitAnswer list) option" where
  "wait_on [] = None"
| "wait_on (WaitAnswer_Some s # ws) =
     Some (case wait_status s of None \<Rightarrow> Wait_Gone | Some st \<Rightarrow> Wait_Status st, ws)"
| "wait_on (WaitAnswer_None # ws) = Some (Wait_NotYet, ws)"
| "wait_on (WaitAnswer_Intr # ws) = wait_on ws"
| "wait_on (WaitAnswer_Child # ws) = Some (Wait_Gone, ws)"
| "wait_on (WaitAnswer_Err _ # ws) = Some (Wait_Gone, ws)"

text \<open>\<^verbatim>\<open>reap\<close>. Its argument \<^verbatim>\<open>ready\<close> only adds \<^verbatim>\<open>WNOHANG\<close> to the first call, which bears on the answers
  the kernel can give and on nothing else.\<close>

definition reap :: "WaitAnswer list \<Rightarrow> i32 option option" where
  "reap ws = (case wait_on ws of
      None \<Rightarrow> None
    | Some (Wait_Status status, _) \<Rightarrow> Some (Some status)
    | Some (Wait_Gone, _) \<Rightarrow> Some None
    | Some (Wait_NotYet, ws') \<Rightarrow> (case wait_on ws' of
          None \<Rightarrow> None
        | Some (Wait_Status status, _) \<Rightarrow> Some (Some status)
        | Some (_, _) \<Rightarrow> Some None))"

section \<open>The loop\<close>

text \<open>What the kernel answers in one round.\<close>

record Round =
  rd_poll :: "i32 + bool list"
  rd_wake :: "Read list"
  rd_status :: "Read list"
  rd_control :: "Recv list"

record Finished =
  f_report :: "NotExecuted option"
  f_reaped :: "i32 option"
  f_lost :: bool
  f_conn_open :: bool

datatype RoundEnd = Go_on | Kill_and_reap | Child_exited

definition perform :: "Actions \<Rightarrow> ToChild list" where
  "perform a = (case a_signal a of None \<Rightarrow> [] | Some to \<Rightarrow> [to])"

text \<open>The \<open>for\<close> over the controls before the last: one step each, its signal sent before the next.\<close>

primrec serve_earlier :: "LoopState \<Rightarrow> Control list \<Rightarrow> LoopState \<times> ToChild list" where
  "serve_earlier st [] = (st, [])"
| "serve_earlier st (c # cs) =
     (let (a, st1) = decide st (no_events\<lparr>ev_control := c\<rparr>);
          (st2, sent) = serve_earlier st1 cs
      in (st2, perform a @ sent))"

definition read_report ::
  "bool \<Rightarrow> NotExecuted option \<Rightarrow> Read list \<Rightarrow> (ExecEvent \<times> NotExecuted option) option" where
  "read_report look report rs =
     (if \<not> look then Some (Exec_Nothing, report)
      else do {
        pipe \<leftarrow> drain_status rs;
        Some (case pipe of
            Pipe_Report r \<Rightarrow> (Exec_Report, Some r)
          | Pipe_Eof \<Rightarrow> (Exec_Eof, report)
          | Pipe_Nothing \<Rightarrow> (Exec_Nothing, report))
      })"

definition loop_round ::
  "bool \<Rightarrow> LoopState \<Rightarrow> NotExecuted option \<Rightarrow> Round
     \<Rightarrow> (RoundEnd \<times> LoopState \<times> NotExecuted option \<times> ToChild list) option" where
  "loop_round failure st report r =
     (case poll_in [True, True, conn_open st, owner_watched st, failure, exec_pending st] (rd_poll r) of
        Inl e \<Rightarrow> Some (Kill_and_reap, st, report, [])
      | Inr ready \<Rightarrow>
          let child_ready = ready ! 1; owner_ready = ready ! 3; failure_ready = ready ! 4; status_ready = ready ! 5
          in do {
            sig \<leftarrow> drain_wake False (rd_wake r);
            (exec, report) \<leftarrow> read_report (status_ready \<or> (child_ready \<and> exec_pending st)) report (rd_status r);
            controls \<leftarrow> (if conn_open st then drain_control (rd_control r) else Some []);
            let final = (if controls = [] then Control_Nothing else last controls);
            let (st, sent) = serve_earlier st (butlast controls);
            let events = \<lparr>ev_control = final, ev_owner_exited = owner_ready, ev_child_exited = child_ready,
              ev_exec_event = exec, ev_signaled = sig, ev_forced_failure = failure_ready\<rparr>;
            let (a, st) = decide st events;
            Some (if a_lost a then (Kill_and_reap, st, report, sent)
                  else (if a_reap a then Child_exited else Go_on, st, report, sent @ perform a))
          })"

text \<open>The \<open>loop\<close> and what follows it. The child's answers to \<^verbatim>\<open>waitid\<close> and the last look at the status
  pipe come after the rounds.\<close>

definition finish_run ::
  "NotExecuted option \<Rightarrow> i32 option \<Rightarrow> bool \<Rightarrow> bool \<Rightarrow> Read list \<Rightarrow> Finished option" where
  "finish_run report reaped lost conn tail = do {
     report \<leftarrow> (if report = None then do {
         pipe \<leftarrow> drain_status tail;
         Some (case pipe of Pipe_Report r \<Rightarrow> Some r | _ \<Rightarrow> None)
       } else Some report);
     Some \<lparr>f_report = report, f_reaped = reaped, f_lost = lost, f_conn_open = conn\<rparr>
   }"

primrec loop_run ::
  "bool \<Rightarrow> WaitAnswer list \<Rightarrow> Read list \<Rightarrow> Round list \<Rightarrow> LoopState \<Rightarrow> NotExecuted option
     \<Rightarrow> (Finished \<times> ToChild list) option" where
  "loop_run failure ws tail [] st report = None"
| "loop_run failure ws tail (r # rs) st report = do {
     (how, st, report, sent) \<leftarrow> loop_round failure st report r;
     case how of
       Go_on \<Rightarrow> do {
         (fin, more) \<leftarrow> loop_run failure ws tail rs st report;
         Some (fin, sent @ more)
       }
     | Kill_and_reap \<Rightarrow> do {
         status \<leftarrow> reap ws;
         fin \<leftarrow> finish_run report status True (conn_open st) tail;
         Some (fin, sent @ [ToChild_Kill])
       }
     | Child_exited \<Rightarrow> do {
         status \<leftarrow> reap ws;
         fin \<leftarrow> finish_run report status False (conn_open st) tail;
         Some (fin, sent)
       }
   }"

section \<open>What a round does\<close>

text \<open>The bytes cosca sent in the round, and whether its connection ended.\<close>

definition control_bytes :: "Control list \<Rightarrow> bytes" where
  "control_bytes cs = List.map_filter (\<lambda>c. case c of Control_Byte b \<Rightarrow> Some b | _ \<Rightarrow> None) cs"

lemma control_bytes_simps [simp]:
  "control_bytes [] = []"
  "control_bytes (Control_Byte b # cs) = b # control_bytes cs"
  "control_bytes (Control_Eof # cs) = control_bytes cs"
  "control_bytes (Control_Nothing # cs) = control_bytes cs"
  by (simp_all add: control_bytes_def map_filter_def)

lemma control_bytes_append [simp]: "control_bytes (xs @ ys) = control_bytes xs @ control_bytes ys"
  by (simp add: control_bytes_def map_filter_def)

lemma control_bytes_map [simp]: "control_bytes (map Control_Byte bs) = bs"
  by (induction bs) simp_all

definition controls_in :: "LoopState \<Rightarrow> Round \<Rightarrow> Control list" where
  "controls_in st r =
     (if conn_open st then (case drain_control (rd_control r) of None \<Rightarrow> [] | Some cs \<Rightarrow> cs) else [])"

definition ready_in :: "bool \<Rightarrow> LoopState \<Rightarrow> Round \<Rightarrow> nat \<Rightarrow> bool" where
  "ready_in failure st r slot =
     (case poll_in [True, True, conn_open st, owner_watched st, failure, exec_pending st] (rd_poll r) of
        Inl e \<Rightarrow> False | Inr ready \<Rightarrow> ready ! slot)"

abbreviation child_ready :: "bool \<Rightarrow> LoopState \<Rightarrow> Round \<Rightarrow> bool" where
  "child_ready failure st r \<equiv> ready_in failure st r 1"
abbreviation owner_ready :: "bool \<Rightarrow> LoopState \<Rightarrow> Round \<Rightarrow> bool" where
  "owner_ready failure st r \<equiv> ready_in failure st r 3"
abbreviation failure_ready :: "bool \<Rightarrow> LoopState \<Rightarrow> Round \<Rightarrow> bool" where
  "failure_ready failure st r \<equiv> ready_in failure st r 4"

definition signal_in :: "Round \<Rightarrow> bool" where
  "signal_in r \<longleftrightarrow> drain_wake False (rd_wake r) = Some True"

abbreviation DISARM :: u8 where "DISARM \<equiv> encode_command Disarm"

lemma drain_control_shape:
  "drain_control rs = Some cs \<Longrightarrow> \<exists>bs. cs = map Control_Byte bs \<or> cs = map Control_Byte bs @ [Control_Eof]"
proof (induction rs arbitrary: cs rule: drain_control.induct)
  case (2 b rs)
  then obtain bs where "cs = Control_Byte b # map Control_Byte bs \<or>
    cs = Control_Byte b # map Control_Byte bs @ [Control_Eof]" by fastforce
  then show ?case by (metis append_Cons list.simps(9))
qed auto

lemma decide_byte:
  "decide st (no_events\<lparr>ev_control := Control_Byte b\<rparr>) = (a, st') \<Longrightarrow>
     st' = (if b = DISARM then st\<lparr>armed := False\<rparr> else st) \<and>
     (ToChild_Kill \<in> set (perform a) \<longleftrightarrow> kill_byte (test_hooks st) b)"
  using decide_state [of "no_events\<lparr>ev_control := Control_Byte b\<rparr>" st]
    decide_signal [of "no_events\<lparr>ev_control := Control_Byte b\<rparr>" st]
  by (cases st) (auto simp: no_events_def perform_def kills_def still_armed_def split: if_splits)

lemma serve_earlier_bytes:
  "serve_earlier st (map Control_Byte bs) = (st', sent) \<Longrightarrow>
     st' = st\<lparr>armed := armed st \<and> DISARM \<notin> set bs\<rparr> \<and>
     (ToChild_Kill \<in> set sent \<longleftrightarrow> (\<exists>b\<in>set bs. kill_byte (test_hooks st) b))"
proof (induction bs arbitrary: st st' sent)
  case Nil
  then show ?case by simp
next
  case (Cons b bs)
  obtain a st1 where d: "decide st (no_events\<lparr>ev_control := Control_Byte b\<rparr>) = (a, st1)" by fastforce
  obtain st2 more where e: "serve_earlier st1 (map Control_Byte bs) = (st2, more)" by fastforce
  from Cons.prems d e have "st' = st2" "sent = perform a @ more" by simp_all
  moreover note decide_byte [OF d] Cons.IH [OF e]
  ultimately show ?case by (cases st) (auto split: if_splits)
qed

lemma perform_kill: "ToChild_Kill \<in> set (perform a) \<longleftrightarrow> a_signal a = Some ToChild_Kill"
  by (auto simp: perform_def split: option.split)

lemma kill_byte_not_disarm: "kill_byte hooks b \<Longrightarrow> b \<noteq> DISARM"
  by (auto simp: kill_byte_def)

text \<open>The unfolding of a round whose poll succeeded and which did not fail.\<close>

definition last_control :: "Control list \<Rightarrow> Control" where
  "last_control cs = (if cs = [] then Control_Nothing else last cs)"

lemma loop_roundE:
  assumes "loop_round failure st report r = Some (how, st', report', sent)"
    and "how \<noteq> Kill_and_reap"
  obtains ex st1 sent1 a where
    "drain_wake False (rd_wake r) = Some (signal_in r)"
    "conn_open st \<longrightarrow> drain_control (rd_control r) = Some (controls_in st r)"
    "serve_earlier st (butlast (controls_in st r)) = (st1, sent1)"
    "decide st1 \<lparr>ev_control = last_control (controls_in st r), ev_owner_exited = owner_ready failure st r,
       ev_child_exited = child_ready failure st r, ev_exec_event = ex, ev_signaled = signal_in r,
       ev_forced_failure = False\<rparr> = (a, st')"
    "sent = sent1 @ perform a" "how = (if child_ready failure st r then Child_exited else Go_on)"
    "\<not> failure_ready failure st r"
proof -
  obtain ready where p: "poll_in [True, True, conn_open st, owner_watched st, failure, exec_pending st] (rd_poll r) = Inr ready"
    using assms by (auto simp: loop_round_def split: sum.splits)
  then have rdy: "ready_in failure st r i = ready ! i" for i by (simp add: ready_in_def)
  from assms(1) obtain sig where w: "drain_wake False (rd_wake r) = Some sig"
    by (auto simp: loop_round_def p Let_def bind_eq_Some_conv)
  then have sig: "signal_in r = sig" by (simp add: signal_in_def)
  from assms(1) obtain controls where
    c: "(if conn_open st then drain_control (rd_control r) else Some []) = Some controls"
    by (auto simp: loop_round_def p Let_def bind_eq_Some_conv)
  then have ci: "controls_in st r = controls" by (auto simp: controls_in_def split: if_splits)
  obtain st1 sent1 where e: "serve_earlier st (butlast controls) = (st1, sent1)" by fastforce
  from assms(1) obtain ex rep where rr:
    "read_report (ready ! 5 \<or> ready ! 1 \<and> exec_pending st) report (rd_status r) = Some (ex, rep)"
    by (auto simp: loop_round_def p Let_def bind_eq_Some_conv)
  obtain a st2 where d: "decide st1 \<lparr>ev_control = last_control controls,
      ev_owner_exited = ready ! 3, ev_child_exited = ready ! 1, ev_exec_event = ex, ev_signaled = sig,
      ev_forced_failure = ready ! 4\<rparr> = (a, st2)" (is "decide st1 ?ev = _") by fastforce
  have res: "(how, st', report', sent) = (if a_lost a then (Kill_and_reap, st2, rep, sent1)
      else (if a_reap a then Child_exited else Go_on, st2, rep, sent1 @ perform a))"
    using assms(1) c d w rr e by (simp add: loop_round_def p Let_def last_control_def)
  from d decide_lost [of st1 ?ev] decide_reap [of st1 ?ev]
  have al: "a_lost a \<longleftrightarrow> ready ! 4" and ar: "a_reap a \<longleftrightarrow> ready ! 1 \<and> \<not> ready ! 4" by simp_all
  have nf: "\<not> ready ! 4" using res assms(2) al by (auto split: if_splits)
  with al ar res have "st2 = st'" "sent = sent1 @ perform a" "how = (if ready ! 1 then Child_exited else Go_on)"
    by simp_all
  with d e nf w c show thesis
    by (intro that [of st1 sent1 ex a]) (auto simp: rdy sig ci split: if_splits)
qed

lemma controls_in_shape:
  assumes "conn_open st \<longrightarrow> drain_control (rd_control r) = Some (controls_in st r)"
  shows "\<exists>bs. controls_in st r = map Control_Byte bs \<or> controls_in st r = map Control_Byte bs @ [Control_Eof]"
proof (cases "conn_open st")
  case True
  then show ?thesis using assms drain_control_shape by blast
next
  case False
  then show ?thesis by (simp add: controls_in_def)
qed

lemma controls_split:
  assumes "cs = map Control_Byte bs \<or> cs = map Control_Byte bs @ [Control_Eof]"
  obtains (nothing) "cs = []" "butlast cs = map Control_Byte []" "last_control cs = Control_Nothing"
  | (byte) bs' b where "bs = bs' @ [b]" "cs = map Control_Byte bs" "butlast cs = map Control_Byte bs'"
      "last_control cs = Control_Byte b"
  | (eof) "cs = map Control_Byte bs @ [Control_Eof]" "butlast cs = map Control_Byte bs"
      "last_control cs = Control_Eof"
proof (cases "cs = map Control_Byte bs")
  case True
  show ?thesis
  proof (cases bs rule: rev_cases)
    case Nil
    show ?thesis by (rule nothing) (use True Nil in \<open>simp_all add: last_control_def\<close>)
  next
    case (snoc bs' b)
    show ?thesis by (rule byte [of bs' b]) (use True snoc in \<open>simp_all add: last_control_def\<close>)
  qed
next
  case False
  then show ?thesis using assms eof by (auto simp: last_control_def)
qed

definition round_kills :: "bool \<Rightarrow> LoopState \<Rightarrow> Round \<Rightarrow> bool" where
  "round_kills failure st r \<longleftrightarrow> signal_in r \<or>
     list_ex (kill_byte (test_hooks st)) (control_bytes (controls_in st r)) \<or>
     armed st \<and> DISARM \<notin> set (control_bytes (controls_in st r)) \<and>
       (Control_Eof \<in> set (controls_in st r) \<or> owner_ready failure st r \<and> owner_watched st)"

lemma loop_round_exact:
  assumes "loop_round failure st report r = Some (how, st', report', sent)"
    and "how \<noteq> Kill_and_reap"
  shows "ToChild_Kill \<in> set sent \<longleftrightarrow> round_kills failure st r"
    and "armed st' \<longleftrightarrow> armed st \<and> DISARM \<notin> set (control_bytes (controls_in st r))"
    and "conn_open st' \<longleftrightarrow> conn_open st \<and> Control_Eof \<notin> set (controls_in st r)"
    and "owner_watched st' \<longleftrightarrow> owner_watched st \<and> \<not> owner_ready failure st r"
    and "test_hooks st' = test_hooks st"
proof -
  obtain ex st1 sent1 a where
    "drain_wake False (rd_wake r) = Some (signal_in r)" and
    c: "conn_open st \<longrightarrow> drain_control (rd_control r) = Some (controls_in st r)" and
    e: "serve_earlier st (butlast (controls_in st r)) = (st1, sent1)" and
    d: "decide st1 \<lparr>ev_control = last_control (controls_in st r), ev_owner_exited = owner_ready failure st r,
       ev_child_exited = child_ready failure st r, ev_exec_event = ex, ev_signaled = signal_in r,
       ev_forced_failure = False\<rparr> = (a, st')" (is "decide st1 ?ev = _") and
    sent: "sent = sent1 @ perform a" and
    "how = (if child_ready failure st r then Child_exited else Go_on)" and
    "\<not> failure_ready failure st r"
    by (rule loop_roundE [OF assms])
  obtain bs where "controls_in st r = map Control_Byte bs \<or> controls_in st r = map Control_Byte bs @ [Control_Eof]"
    using controls_in_shape c by blast
  then obtain pre where pre: "butlast (controls_in st r) = map Control_Byte pre" and
    bytes: "control_bytes (controls_in st r) = pre @ control_bytes [last_control (controls_in st r)]" and
    eof: "Control_Eof \<in> set (controls_in st r) \<longleftrightarrow> last_control (controls_in st r) = Control_Eof"
    by (cases rule: controls_split) fastforce+
  from serve_earlier_bytes [OF e [unfolded pre]] have
    st1: "st1 = st\<lparr>armed := armed st \<and> DISARM \<notin> set pre\<rparr>" and
    k1: "ToChild_Kill \<in> set sent1 \<longleftrightarrow> (\<exists>b\<in>set pre. kill_byte (test_hooks st) b)" by blast+
  have sg: "a_signal a = Some ToChild_Kill \<longleftrightarrow> kills st1 ?ev"
    using decide_signal [of ?ev st1] d by auto
  show "ToChild_Kill \<in> set sent \<longleftrightarrow> round_kills failure st r"
    unfolding sent set_append Un_iff k1 perform_kill sg round_kills_def bytes eof st1 kills_def still_armed_def
    by (cases "last_control (controls_in st r)") (auto simp: list_ex_iff)
  have "st' = snd (decide st1 ?ev)" using d by simp
  then have st': "st' = \<lparr>armed = still_armed st1 ?ev, conn_open = (conn_open st1 \<and> ev_control ?ev \<noteq> Control_Eof),
     owner_watched = (owner_watched st1 \<and> \<not> ev_owner_exited ?ev),
     exec_pending = (exec_pending st1 \<and> ev_exec_event ?ev = Exec_Nothing), test_hooks = test_hooks st1\<rparr>"
    using decide_state [of ?ev st1] by simp
  then show "armed st' \<longleftrightarrow> armed st \<and> DISARM \<notin> set (control_bytes (controls_in st r))"
    unfolding bytes by (cases "last_control (controls_in st r)") (auto simp: st1 still_armed_def)
  show "conn_open st' \<longleftrightarrow> conn_open st \<and> Control_Eof \<notin> set (controls_in st r)"
    and "owner_watched st' \<longleftrightarrow> owner_watched st \<and> \<not> owner_ready failure st r"
    and "test_hooks st' = test_hooks st"
    unfolding eof by (auto simp: st' st1)
qed

section \<open>What a run does\<close>

text \<open>The bytes in the answers of \<^verbatim>\<open>recv\<close>, up to the one that ends the reading.\<close>

fun recv_bytes :: "Recv list \<Rightarrow> bytes" where
  "recv_bytes (Recv_Byte b # rs) = b # recv_bytes rs"
| "recv_bytes (Recv_Intr # rs) = recv_bytes rs"
| "recv_bytes _ = []"

lemma drain_control_bytes: "drain_control rs = Some cs \<Longrightarrow> control_bytes cs = recv_bytes rs"
  by (induction rs arbitrary: cs rule: drain_control.induct) auto

definition quiet :: "bool \<Rightarrow> Round \<Rightarrow> bool" where
  "quiet hooks r \<longleftrightarrow> \<not> signal_in r \<and> list_all (\<lambda>b. \<not> kill_byte hooks b) (recv_bytes (rd_control r))"

lemma control_bytes_in:
  "set (control_bytes (controls_in st r)) \<subseteq> set (recv_bytes (rd_control r))"
  using drain_control_bytes [of "rd_control r"] by (auto simp: controls_in_def split: option.splits)

lemma control_bytes_open:
  assumes "loop_round failure st report r = Some (how, st', report', sent)" and "how \<noteq> Kill_and_reap"
    and "conn_open st"
  shows "control_bytes (controls_in st r) = recv_bytes (rd_control r)"
  using loop_roundE [OF assms(1,2)] assms(3) drain_control_bytes by metis

lemma quiet_round:
  assumes "loop_round failure st report r = Some (how, st', report', sent)" and "how \<noteq> Kill_and_reap"
    and "quiet (test_hooks st) r" and "armed st \<Longrightarrow> DISARM \<in> set (control_bytes (controls_in st r))"
  shows "ToChild_Kill \<notin> set sent \<and> \<not> armed st' \<and> test_hooks st' = test_hooks st"
proof -
  have "\<not> list_ex (kill_byte (test_hooks st)) (control_bytes (controls_in st r))"
    using assms(3) control_bytes_in [of st r] by (auto simp: quiet_def list_ex_iff list_all_iff)
  then have "\<not> round_kills failure st r"
    using assms(3,4) by (auto simp: round_kills_def quiet_def)
  then show ?thesis using loop_round_exact [OF assms(1,2)] assms(4) by auto
qed

text \<open>One round of a run, by how it ended.\<close>

lemma loop_run_cases:
  assumes "loop_run failure ws tail (r # rs) st report = Some (fin, sent)"
  obtains (go) st' report' sent1 more where
      "loop_round failure st report r = Some (Go_on, st', report', sent1)"
      "loop_run failure ws tail rs st' report' = Some (fin, more)" "sent = sent1 @ more"
  | (fail) st' report' sent1 status where
      "loop_round failure st report r = Some (Kill_and_reap, st', report', sent1)"
      "reap ws = Some status" "finish_run report' status True (conn_open st') tail = Some fin"
      "sent = sent1 @ [ToChild_Kill]"
  | (exit) st' report' status where
      "loop_round failure st report r = Some (Child_exited, st', report', sent)"
      "reap ws = Some status" "finish_run report' status False (conn_open st') tail = Some fin"
proof -
  from assms obtain how st' report' sent1 where
    l: "loop_round failure st report r = Some (how, st', report', sent1)"
    by (auto simp: bind_eq_Some_conv)
  with assms go fail exit show thesis
    by (cases how) (auto simp: bind_eq_Some_conv)
qed

lemma finish_run_fields:
  "finish_run report reaped lost conn tail = Some fin \<Longrightarrow>
     f_reaped fin = reaped \<and> f_lost fin = lost \<and> f_conn_open fin = conn \<and>
     (report \<noteq> None \<longrightarrow> f_report fin = report)"
  by (auto simp: finish_run_def bind_eq_Some_conv split: if_splits)

lemma run_disarmed:
  assumes "loop_run failure ws tail rs st report = Some (fin, sent)" and "\<not> f_lost fin"
    and "\<not> armed st" and "\<forall>r\<in>set rs. quiet (test_hooks st) r"
  shows "ToChild_Kill \<notin> set sent"
  using assms
proof (induction rs arbitrary: st report sent)
  case Nil
  then show ?case by simp
next
  case (Cons r rs)
  from Cons.prems(1) show ?case
  proof (cases rule: loop_run_cases)
    case (go st' report' sent1 more)
    have "ToChild_Kill \<notin> set sent1 \<and> \<not> armed st' \<and> test_hooks st' = test_hooks st"
      using Cons.prems(3,4) by (intro quiet_round [OF go(1)]) simp_all
    moreover from this have "ToChild_Kill \<notin> set more"
      using Cons.prems(2,4) by (intro Cons.IH [OF go(2)]) simp_all
    ultimately show ?thesis using go(3) by simp
  next
    case (fail st' report' sent1 status)
    then show ?thesis using finish_run_fields Cons.prems(2) by blast
  next
    case (exit st' report' status)
    then show ?thesis using quiet_round [OF exit(1)] Cons.prems(3,4) by simp
  qed
qed

lemma run_disarms:
  assumes "loop_run failure ws tail (r # rs) st report = Some (fin, sent)" and "\<not> f_lost fin"
    and "conn_open st" and "DISARM \<in> set (recv_bytes (rd_control r))"
    and "\<forall>r\<in>set (r # rs). quiet (test_hooks st) r"
  shows "ToChild_Kill \<notin> set sent"
  using assms(1)
proof (cases rule: loop_run_cases)
  case (go st' report' sent1 more)
  have "DISARM \<in> set (control_bytes (controls_in st r))"
    using control_bytes_open [OF go(1) _ assms(3)] assms(4) by simp
  then have q: "ToChild_Kill \<notin> set sent1 \<and> \<not> armed st' \<and> test_hooks st' = test_hooks st"
    using assms(5) by (intro quiet_round [OF go(1)]) simp_all
  then have "ToChild_Kill \<notin> set more"
    using assms(2,5) by (intro run_disarmed [OF go(2)]) simp_all
  with q show ?thesis using go(3) by simp
next
  case (fail st' report' sent1 status)
  then show ?thesis using finish_run_fields assms(2) by blast
next
  case (exit st' report' status)
  have "DISARM \<in> set (control_bytes (controls_in st r))"
    using control_bytes_open [OF exit(1) _ assms(3)] assms(4) by simp
  then show ?thesis using quiet_round [OF exit(1)] assms(5) by simp
qed

lemma run_dead_man:
  assumes "loop_run failure ws tail rs st report = Some (fin, sent)"
    and "armed st" and "conn_open st" and "\<forall>r\<in>set rs. DISARM \<notin> set (recv_bytes (rd_control r))"
    and "\<not> f_conn_open fin"
  shows "ToChild_Kill \<in> set sent"
  using assms
proof (induction rs arbitrary: st report sent)
  case Nil
  then show ?case by simp
next
  case (Cons r rs)
  have nd: "DISARM \<notin> set (control_bytes (controls_in st r))"
    using Cons.prems(4) control_bytes_in [of st r] by auto
  from Cons.prems(1) show ?case
  proof (cases rule: loop_run_cases)
    case (go st' report' sent1 more)
    note x = loop_round_exact [OF go(1), simplified]
    show ?thesis
    proof (cases "conn_open st'")
      case True
      moreover have "armed st'" using x(2) nd Cons.prems(2) by simp
      ultimately have "ToChild_Kill \<in> set more"
        using Cons.prems(4,5) by (intro Cons.IH [OF go(2)]) simp_all
      with go(3) show ?thesis by simp
    next
      case False
      then have "round_kills failure st r" using x(3) nd Cons.prems(2,3) by (simp add: round_kills_def)
      with x(1) go(3) show ?thesis by simp
    qed
  next
    case (fail st' report' sent1 status)
    then show ?thesis by simp
  next
    case (exit st' report' status)
    note x = loop_round_exact [OF exit(1), simplified]
    have "\<not> conn_open st'" using finish_run_fields [OF exit(3)] Cons.prems(5) by simp
    then have "round_kills failure st r" using x(3) nd Cons.prems(2,3) by (simp add: round_kills_def)
    with x(1) show ?thesis by simp
  qed
qed

lemma run_lost_kills:
  "loop_run failure ws tail rs st report = Some (fin, sent) \<Longrightarrow> f_lost fin \<Longrightarrow>
     sent \<noteq> [] \<and> last sent = ToChild_Kill"
proof (induction rs arbitrary: st report sent)
  case (Cons r rs)
  from Cons.prems(1) show ?case
    by (cases rule: loop_run_cases) (use Cons finish_run_fields in fastforce)+
qed simp

section \<open>The loop ends\<close>

text \<open>The kernel answers every call of the round, and says in its poll that the child has exited, or
  fails the poll.\<close>

definition answered :: "Round \<Rightarrow> bool" where
  "answered r \<longleftrightarrow> drain_wake False (rd_wake r) \<noteq> None \<and> drain_status (rd_status r) \<noteq> None \<and>
     drain_control (rd_control r) \<noteq> None"

definition says_exited :: "Round \<Rightarrow> bool" where
  "says_exited r \<longleftrightarrow> (case rd_poll r of Inl e \<Rightarrow> True | Inr revents \<Rightarrow> 1 < length revents \<and> revents ! 1)"

lemma read_report_total:
  "drain_status rs \<noteq> None \<Longrightarrow> \<exists>ex report'. read_report look report rs = Some (ex, report')"
  by (auto simp: read_report_def split: Pipe.splits)

lemma loop_round_total:
  assumes "answered r"
  shows "\<exists>how st' report' sent. loop_round failure st report r = Some (how, st', report', sent) \<and>
    (says_exited r \<longrightarrow> how \<noteq> Go_on)"
proof (cases "poll_in [True, True, conn_open st, owner_watched st, failure, exec_pending st] (rd_poll r)")
  case (Inl e)
  then show ?thesis by (simp add: loop_round_def)
next
  case (Inr ready)
  obtain sig where w: "drain_wake False (rd_wake r) = Some sig" using assms by (auto simp: answered_def)
  obtain cs where c: "(if conn_open st then drain_control (rd_control r) else Some []) = Some cs"
    using assms by (cases "conn_open st") (auto simp: answered_def)
  obtain ex rep where e: "read_report (ready ! 5 \<or> ready ! 1 \<and> exec_pending st) report (rd_status r) = Some (ex, rep)"
    using read_report_total assms by (auto simp: answered_def) blast
  let ?s = "serve_earlier st (butlast cs)"
  let ?ev = "\<lparr>ev_control = last_control cs, ev_owner_exited = ready ! 3, ev_child_exited = ready ! 1,
    ev_exec_event = ex, ev_signaled = sig, ev_forced_failure = ready ! 4\<rparr>"
  let ?d = "decide (fst ?s) ?ev"
  have run: "loop_round failure st report r = Some (if a_lost (fst ?d) then (Kill_and_reap, snd ?d, rep, snd ?s)
    else (if a_reap (fst ?d) then Child_exited else Go_on, snd ?d, rep, snd ?s @ perform (fst ?d)))"
    using w c e by (simp add: loop_round_def Inr Let_def last_control_def case_prod_beta)
  have "says_exited r \<Longrightarrow> ready ! 1" using Inr
    by (auto simp: says_exited_def poll_in_def split: sum.splits)
  then have "says_exited r \<Longrightarrow> a_lost (fst ?d) \<or> a_reap (fst ?d)" by (simp add: decide_lost decide_reap)
  with run show ?thesis by (cases "a_lost (fst ?d)") auto
qed

lemma finish_run_total: "drain_status tail \<noteq> None \<Longrightarrow> \<exists>fin. finish_run report reaped lost conn tail = Some fin"
  by (auto simp: finish_run_def)

lemma loop_run_total:
  assumes "\<forall>r\<in>set rs. answered r" and "\<exists>r\<in>set rs. says_exited r" and "reap ws \<noteq> None"
    and "drain_status tail \<noteq> None"
  shows "\<exists>fin sent. loop_run failure ws tail rs st report = Some (fin, sent)"
  using assms(1,2)
proof (induction rs arbitrary: st report)
  case Nil
  then show ?case by simp
next
  case (Cons r rs)
  obtain how st' report' sent where
    l: "loop_round failure st report r = Some (how, st', report', sent)" and
    h: "says_exited r \<longrightarrow> how \<noteq> Go_on"
    using loop_round_total Cons.prems(1) by (metis list.set_intros(1))
  obtain status where ws: "reap ws = Some status" using assms(3) by blast
  show ?case
  proof (cases how)
    case Go_on
    with h Cons.prems have "\<exists>r\<in>set rs. says_exited r" by auto
    with Cons.IH Cons.prems(1) obtain fin more where "loop_run failure ws tail rs st' report' = Some (fin, more)"
      by (metis list.set_intros(2))
    with l Go_on show ?thesis by simp
  next
    case Kill_and_reap
    obtain fin where "finish_run report' status True (conn_open st') tail = Some fin"
      using finish_run_total [OF assms(4)] by blast
    with Kill_and_reap l ws show ?thesis by simp
  next
    case Child_exited
    obtain fin where "finish_run report' status False (conn_open st') tail = Some fin"
      using finish_run_total [OF assms(4)] by blast
    with Child_exited l ws show ?thesis by simp
  qed
qed

section \<open>The child's report\<close>

lemma decode_report_value:
  assumes "valid_frame (Frame_NotExecuted n)" and "kind_and_value n = (kind, v)"
  shows "decode_report (status_value kind v) = n"
proof -
  have "encode_frame (Frame_NotExecuted n) = tagF # to_le_bytes (status_value kind v)"
    using assms(2) by (simp add: status_value_def)
  then have "decode_frame (tagF # to_le_bytes (status_value kind v)) = Inr (Frame_NotExecuted n)"
    using frame.decode_encode [OF assms(1)] by simp
  then show ?thesis by (simp add: decode_report_def)
qed

lemma poll_in_absent:
  assumes "poll_in fds polled = Inr ready" and "i < length fds"
  shows "ready ! i \<Longrightarrow> fds ! i" and "length ready = length fds"
proof -
  have len: "length (poll_slots n fds) = length fds" for n
    by (induction fds arbitrary: n) auto
  have slot: "poll_slots n fds ! i = None \<longleftrightarrow> \<not> fds ! i" for n
    using assms(2)
  proof (induction fds arbitrary: n i)
    case (Cons p fds)
    then show ?case by (cases i) auto
  qed simp
  obtain revents where "ready = map (\<lambda>slot. case slot of None \<Rightarrow> False | Some i \<Rightarrow> i < length revents \<and> revents ! i)
      (poll_slots 0 fds)"
    using assms(1) by (auto simp: poll_in_def split: sum.splits)
  with assms(2) len slot [of 0] show "ready ! i \<Longrightarrow> fds ! i" and "length ready = length fds"
    by (auto split: option.splits)
qed

section \<open>Concrete rounds\<close>

definition demo_round :: "bool list \<Rightarrow> Recv list \<Rightarrow> Round" where
  "demo_round revents rcv = \<lparr>rd_poll = Inr revents, rd_wake = [Read_Again], rd_status = [Read_Again],
     rd_control = rcv\<rparr>"

definition demo_exit :: "WaitAnswer list" where
  "demo_exit = [WaitAnswer_Some \<lparr>exit_status = Some 0, terminating_signal = None, dumped = False\<rparr>]"

definition demo_disarmed :: "Round list" where
  "demo_disarmed = [demo_round [False, False, True, True, False] [Recv_Byte DISARM, Recv_End],
     demo_round [False, True, False] []]"

definition demo_abandoned :: "Round list" where
  "demo_abandoned = [demo_round [False, False, True, False, False] [Recv_End],
     demo_round [False, True, False, False] []]"

definition demo_state :: "bool \<Rightarrow> bool \<Rightarrow> bool \<Rightarrow> LoopState" where
  "demo_state arm conn owner = \<lparr>armed = arm, conn_open = conn, owner_watched = owner, exec_pending = True,
     test_hooks = False\<rparr>"

section \<open>Properties\<close>

text \<open>One supervision round signals the program with SIGKILL exactly when a signal reached the shim,
  or cosca sent a kill or a byte outside the protocol, or supervision is armed, was not disarmed by a
  byte of this round, and cosca's connection ended or the watched cosca exited.\<close>

theorem round_kill_iff:
  assumes "loop_round failure st report r = Some (how, st', report', sent)" and "how \<noteq> Kill_and_reap"
  shows "ToChild_Kill \<in> set sent \<longleftrightarrow> round_kills failure st r"
  by (rule loop_round_exact(1) [OF assms])

theorem round_kill_iff_witness:
  "loop_round False (new_state False) None (hd demo_disarmed) = Some (Go_on, demo_state False False False, None, [])
   \<and> ToChild_Kill \<notin> set []"
proof -
  have run: "loop_round False (new_state False) None (hd demo_disarmed) =
    Some (Go_on, demo_state False False False, None, [])"
    by code_simp
  have "\<not> round_kills False (new_state False) (hd demo_disarmed)" by code_simp
  with round_kill_iff [OF run] run show ?thesis by simp
qed

text \<open>C4: a disarmed program outlives cosca. When the first round's bytes disarm the supervision, and no
  round brings a signal, a kill or a byte outside the protocol, then SIGKILL is never sent, whatever
  connection ends and owner exits the first round and the later ones bring, unless supervision itself
  failed.\<close>

theorem disarmed_program_outlives_cosca:
  assumes "loop_run failure ws tail (r # rs) st report = Some (fin, sent)" and "\<not> f_lost fin"
    and "conn_open st" and "DISARM \<in> set (recv_bytes (rd_control r))"
    and "\<forall>r\<in>set (r # rs). quiet (test_hooks st) r"
  shows "ToChild_Kill \<notin> set sent"
  by (rule run_disarms [OF assms])

theorem disarmed_program_outlives_cosca_witness:
  "loop_run False demo_exit [Read_Ok []] demo_disarmed (new_state False) None =
     Some (\<lparr>f_report = None, f_reaped = Some 0, f_lost = False, f_conn_open = False\<rparr>, []) \<and>
   ToChild_Kill \<notin> set []"
proof -
  have run: "loop_run False demo_exit [Read_Ok []] demo_disarmed (new_state False) None =
     Some (\<lparr>f_report = None, f_reaped = Some 0, f_lost = False, f_conn_open = False\<rparr>, [])"
    by code_simp
  have q: "\<forall>r\<in>set demo_disarmed. quiet (test_hooks (new_state False)) r" by code_simp
  have d: "DISARM \<in> set (recv_bytes (rd_control (hd demo_disarmed)))" "conn_open (new_state False)"
    by code_simp+
  from run have run': "loop_run False demo_exit [Read_Ok []] (hd demo_disarmed # tl demo_disarmed) (new_state False) None =
     Some (\<lparr>f_report = None, f_reaped = Some 0, f_lost = False, f_conn_open = False\<rparr>, [])"
    by (simp add: demo_disarmed_def)
  from q have q': "\<forall>r\<in>set (hd demo_disarmed # tl demo_disarmed). quiet (test_hooks (new_state False)) r"
    by (simp add: demo_disarmed_def)
  show ?thesis using disarmed_program_outlives_cosca [OF run' _ d(2,1) q'] run by simp
qed

text \<open>C5: an armed program does not outlive cosca's connection. If supervision starts armed and connected,
  no byte ever disarms it, and the connection is closed when the run ends, then SIGKILL was sent.\<close>

theorem armed_program_dies_with_cosca:
  assumes "loop_run failure ws tail rs st report = Some (fin, sent)"
    and "armed st" and "conn_open st" and "\<forall>r\<in>set rs. DISARM \<notin> set (recv_bytes (rd_control r))"
    and "\<not> f_conn_open fin"
  shows "ToChild_Kill \<in> set sent"
  by (rule run_dead_man [OF assms])

theorem armed_program_dies_with_cosca_witness:
  "loop_run False demo_exit [Read_Ok []] demo_abandoned (new_state False) None =
     Some (\<lparr>f_report = None, f_reaped = Some 0, f_lost = False, f_conn_open = False\<rparr>, [ToChild_Kill]) \<and>
   ToChild_Kill \<in> set [ToChild_Kill]"
proof -
  have run: "loop_run False demo_exit [Read_Ok []] demo_abandoned (new_state False) None =
     Some (\<lparr>f_report = None, f_reaped = Some 0, f_lost = False, f_conn_open = False\<rparr>, [ToChild_Kill])"
    by code_simp
  have n: "\<forall>r\<in>set demo_abandoned. DISARM \<notin> set (recv_bytes (rd_control r))" by code_simp
  have "armed (new_state False)" "conn_open (new_state False)" by (simp_all add: new_state_def)
  from armed_program_dies_with_cosca [OF run this n] run show ?thesis by simp
qed

text \<open>C34: the loop returns. When the kernel answers every call, one round's poll fails or shows the child
  exited, and the reap and the last look at the status pipe are answered, the run ends.\<close>

theorem supervision_ends:
  assumes "\<forall>r\<in>set rs. answered r" and "\<exists>r\<in>set rs. says_exited r" and "reap ws \<noteq> None"
    and "drain_status tail \<noteq> None"
  shows "\<exists>fin sent. loop_run failure ws tail rs st report = Some (fin, sent)"
  by (rule loop_run_total [OF assms])

theorem supervision_ends_witness:
  "\<exists>fin sent. loop_run False demo_exit [Read_Intr, Read_Ok []]
     [demo_round [False, False, False, False, False] [Recv_Intr, Recv_Again], demo_round [False, True] [Recv_Again]]
     (new_state False) None = Some (fin, sent)"
  by (rule supervision_ends) code_simp+

text \<open>When supervision failed, the program was killed: the last thing sent to it is SIGKILL.\<close>

theorem lost_program_is_killed:
  assumes "loop_run failure ws tail rs st report = Some (fin, sent)" and "f_lost fin"
  shows "sent \<noteq> [] \<and> last sent = ToChild_Kill"
  by (rule run_lost_kills [OF assms])

theorem lost_program_is_killed_witness:
  "loop_run False demo_exit [Read_Ok []] [\<lparr>rd_poll = Inl 22, rd_wake = [], rd_status = [], rd_control = []\<rparr>]
     (new_state False) None = Some (\<lparr>f_report = None, f_reaped = Some 0, f_lost = True, f_conn_open = True\<rparr>, [ToChild_Kill])
   \<and> [ToChild_Kill] \<noteq> []"
proof -
  have run: "loop_run False demo_exit [Read_Ok []] [\<lparr>rd_poll = Inl 22, rd_wake = [], rd_status = [], rd_control = []\<rparr>]
     (new_state False) None = Some (\<lparr>f_report = None, f_reaped = Some 0, f_lost = True, f_conn_open = True\<rparr>, [ToChild_Kill])"
    by code_simp
  from lost_program_is_killed [OF run] run show ?thesis by simp
qed

text \<open>The child's report crosses the status pipe unchanged: what \<^verbatim>\<open>status_value\<close> writes for a kind and a
  value that fits, \<^verbatim>\<open>decode_report\<close> reads back.\<close>

theorem child_report_round_trip:
  assumes "valid_frame (Frame_NotExecuted n)" and "kind_and_value n = (kind, v)"
  shows "decode_report (status_value kind v) = n"
  by (rule decode_report_value [OF assms])

theorem child_report_round_trip_witness: "decode_report (status_value 2 13) = ExecFailed (Errno 13)"
  by (rule child_report_round_trip) (simp_all add: valid_frame_def)

end
