(* ===== verification/Program_Path.thy ===== *)
theory Program_Path
  imports Shim_Protocol Shim_Frames
begin

text \<open>
  \<^verbatim>\<open>src/src/elevation/shim/program_path.rs\<close>: the search for the program before the child exists, and the
  \<^verbatim>\<open>execve\<close> loop at the end of \<^verbatim>\<open>child_body\<close> in \<^verbatim>\<open>run/child.rs\<close>, which tries the candidates the search
  prepared. The file system is a parameter: \<open>probe\<close> says what a candidate is, and \<open>execve\<close> and
  \<open>exec_sh\<close> give the errno of a failed call, or \<open>None\<close> when the program image replaced the child. The
  errno numbers are Linux's.
\<close>

section \<open>The search\<close>

abbreviation ENOENT :: i32 where "ENOENT \<equiv> 2"
abbreviation ENOEXEC :: i32 where "ENOEXEC \<equiv> 8"
abbreviation EACCES :: i32 where "EACCES \<equiv> 13"
abbreviation ENODEV :: i32 where "ENODEV \<equiv> 19"
abbreviation ENOTDIR :: i32 where "ENOTDIR \<equiv> 20"
abbreviation ETIMEDOUT :: i32 where "ETIMEDOUT \<equiv> 110"
abbreviation ESTALE :: i32 where "ESTALE \<equiv> 116"

datatype Candidate = Missing | Directory | NotExecutable | Executable | Failed i32

definition classify :: "i32 \<Rightarrow> Candidate" where
  "classify errno =
     (if errno \<in> {ENOENT, ENOTDIR, ESTALE, ENODEV, ETIMEDOUT} then Missing
      else if errno = EACCES then NotExecutable
      else Failed errno)"

text \<open>\<open>stat\<close> says whether the path is a directory, \<open>access\<close> checks it for the effective ids; either may fail
  with an errno.\<close>

definition probe_fs :: "(bytes \<Rightarrow> i32 + bool) \<Rightarrow> (bytes \<Rightarrow> i32 option) \<Rightarrow> bytes \<Rightarrow> Candidate" where
  "probe_fs stat access path = (case stat path of
      Inl e \<Rightarrow> classify e
    | Inr is_dir \<Rightarrow>
        if is_dir then Directory
        else (case access path of None \<Rightarrow> Executable | Some e \<Rightarrow> classify e))"

record search =
  sr_candidates :: "bytes list"
  sr_remembered :: bool
  sr_decided :: "(i32 + unit) option"

definition search_step :: "(bytes \<Rightarrow> Candidate) \<Rightarrow> bytes \<Rightarrow> search \<Rightarrow> bytes \<Rightarrow> search" where
  "search_step probe name s element =
     (if take 1 element \<noteq> [SLASH] then s
      else
        let candidate = element @ [SLASH] @ name;
            s = (if sr_decided s \<noteq> None then s
                 else (case probe candidate of
                     Executable \<Rightarrow> s\<lparr>sr_decided := Some (Inr ())\<rparr>
                   | Failed errno \<Rightarrow> s\<lparr>sr_decided := Some (Inl errno)\<rparr>
                   | Directory \<Rightarrow> s\<lparr>sr_remembered := True\<rparr>
                   | NotExecutable \<Rightarrow> s\<lparr>sr_remembered := True\<rparr>
                   | Missing \<Rightarrow> s))
        in s\<lparr>sr_candidates := sr_candidates s @ [candidate]\<rparr>)"

definition resolve_with ::
  "bytes \<Rightarrow> bytes option \<Rightarrow> bytes \<Rightarrow> (bytes \<Rightarrow> Candidate) \<Rightarrow> i32 + bytes list" where
  "resolve_with name path default_path probe =
     (if SLASH \<in> set name then Inr [name]
      else if name = [] then Inl ENOENT
      else
        let path = (case path of Some p \<Rightarrow> p | None \<Rightarrow> default_path);
            s = foldl (search_step probe name) \<lparr>sr_candidates = [], sr_remembered = False, sr_decided = None\<rparr>
                  (split_on (\<lambda>b. b = COLON) path)
        in (case sr_decided s of
              Some (Inr _) \<Rightarrow> Inr (sr_candidates s)
            | Some (Inl errno) \<Rightarrow> Inl errno
            | None \<Rightarrow> Inl (if sr_remembered s then EACCES else ENOENT)))"

section \<open>The child's \<open>execve\<close> loop\<close>

definition tries_the_next :: "i32 \<Rightarrow> bool" where
  "tries_the_next errno \<longleftrightarrow> errno \<in> {ENOENT, ENOTDIR, ESTALE, ENODEV, ETIMEDOUT, EACCES}"

datatype Image = Direct bytes | Via_sh bytes

text \<open>What the loop leaves when no \<^verbatim>\<open>execve\<close> succeeds: \<open>errno\<close>, \<open>denied\<close> and \<open>stopped\<close>.\<close>

primrec exec_loop ::
  "(bytes \<Rightarrow> i32 option) \<Rightarrow> (bytes \<Rightarrow> i32 option) \<Rightarrow> i32 \<Rightarrow> bool \<Rightarrow> bytes list \<Rightarrow> (i32 \<times> bool \<times> bool) + Image" where
  "exec_loop execve exec_sh errno denied [] = Inl (errno, denied, False)"
| "exec_loop execve exec_sh errno denied (c # cs) = (case execve c of
     None \<Rightarrow> Inr (Direct c)
   | Some e \<Rightarrow> (case (if e = ENOEXEC then (case exec_sh c of None \<Rightarrow> None | Some e2 \<Rightarrow> Some e2) else Some e) of
         None \<Rightarrow> Inr (Via_sh c)
       | Some e \<Rightarrow>
           if \<not> tries_the_next e then Inl (e, denied, True)
           else exec_loop execve exec_sh e (denied \<or> e = EACCES) cs))"

definition exec_candidates ::
  "(bytes \<Rightarrow> i32 option) \<Rightarrow> (bytes \<Rightarrow> i32 option) \<Rightarrow> bytes list \<Rightarrow> i32 + Image" where
  "exec_candidates execve exec_sh cs = (case exec_loop execve exec_sh ENOENT False cs of
      Inr img \<Rightarrow> Inr img
    | Inl (errno, denied, stopped) \<Rightarrow> Inl (if denied \<and> \<not> stopped then EACCES else errno))"

section \<open>What the search decides\<close>

definition search_candidates :: "bytes \<Rightarrow> bytes \<Rightarrow> bytes list" where
  "search_candidates name path =
     map (\<lambda>e. e @ [SLASH] @ name) (filter is_absolute (split_on (\<lambda>b. b = COLON) path))"

definition decisive :: "Candidate \<Rightarrow> bool" where
  "decisive c \<longleftrightarrow> (case c of Executable \<Rightarrow> True | Failed _ \<Rightarrow> True | _ \<Rightarrow> False)"

lemma take_1_absolute: "take (Suc 0) e = [SLASH] \<longleftrightarrow> is_absolute e"
  by (cases e) (auto simp: is_absolute_def)

definition verdict_of :: "(bytes \<Rightarrow> Candidate) \<Rightarrow> bytes list \<Rightarrow> (i32 + unit) option" where
  "verdict_of probe cs = (case find (\<lambda>c. decisive (probe c)) cs of
      None \<Rightarrow> None
    | Some c \<Rightarrow> (case probe c of Failed e \<Rightarrow> Some (Inl e) | _ \<Rightarrow> Some (Inr ())))"

lemma verdict_of_Cons: "verdict_of probe (c # cs) = (case probe c of Executable \<Rightarrow> Some (Inr ())
    | Failed e \<Rightarrow> Some (Inl e) | _ \<Rightarrow> verdict_of probe cs)"
  by (simp add: verdict_of_def decisive_def split: Candidate.splits)

lemma search_fold:
  "foldl (search_step probe name) s es =
     (let cs = map (\<lambda>e. e @ [SLASH] @ name) (filter is_absolute es) in
      \<lparr>sr_candidates = sr_candidates s @ cs,
       sr_remembered = (sr_remembered s \<or> sr_decided s = None \<and>
         list_ex (\<lambda>c. probe c \<in> {Directory, NotExecutable}) (takeWhile (\<lambda>c. \<not> decisive (probe c)) cs)),
       sr_decided = (if sr_decided s = None then verdict_of probe cs else sr_decided s)\<rparr>)"
proof (induction es arbitrary: s)
  case Nil
  show ?case by (cases s) (simp add: verdict_of_def)
next
  case (Cons e es)
  show ?case
  proof (cases "is_absolute e")
    case False
    then have "search_step probe name s e = s" by (simp add: search_step_def take_1_absolute)
    with False Cons.IH [of s] show ?thesis by simp
  next
    case True
    then show ?thesis
      using Cons.IH [of "search_step probe name s e"] take_1_absolute [of e]
      by (cases "probe (e @ [SLASH] @ name)"; cases "sr_decided s")
        (auto simp: search_step_def Let_def verdict_of_Cons decisive_def)
  qed
qed

lemma resolve_with_search:
  assumes "SLASH \<notin> set name" and "name \<noteq> []"
  defines "cs p \<equiv> search_candidates name p"
  shows "resolve_with name path dflt probe =
    (let p = (case path of Some p \<Rightarrow> p | None \<Rightarrow> dflt) in
     case verdict_of probe (cs p) of
       Some (Inr _) \<Rightarrow> Inr (cs p)
     | Some (Inl e) \<Rightarrow> Inl e
     | None \<Rightarrow> Inl (if list_ex (\<lambda>c. probe c \<in> {Directory, NotExecutable}) (takeWhile (\<lambda>c. \<not> decisive (probe c)) (cs p))
                   then EACCES else ENOENT))"
  using assms(1,2) unfolding resolve_with_def search_fold cs_def search_candidates_def Let_def
  by (simp split: option.split sum.split)

text \<open>What \<^verbatim>\<open>execve\<close> of a candidate answers when the file system has not changed since the probe: the errno of a missing
  candidate is any of those the probe takes for missing, and a file that may be executed but is no binary runs through the
  shell.\<close>

definition agrees :: "(bytes \<Rightarrow> Candidate) \<Rightarrow> (bytes \<Rightarrow> i32 option) \<Rightarrow> (bytes \<Rightarrow> i32 option) \<Rightarrow> bytes \<Rightarrow> bool" where
  "agrees probe execve exec_sh c \<longleftrightarrow> (case probe c of
      Missing \<Rightarrow> (case execve c of None \<Rightarrow> False | Some e \<Rightarrow> classify e = Missing)
    | Directory \<Rightarrow> execve c = Some EACCES
    | NotExecutable \<Rightarrow> execve c = Some EACCES
    | Executable \<Rightarrow> execve c = None \<or> execve c = Some ENOEXEC \<and> exec_sh c = None
    | Failed e \<Rightarrow> execve c = Some e \<and> classify e = Failed e \<and> e \<noteq> ENOEXEC)"

definition image_of :: "(bytes \<Rightarrow> i32 option) \<Rightarrow> bytes \<Rightarrow> Image" where
  "image_of execve c = (if execve c = None then Direct c else Via_sh c)"

lemma classify_next: "tries_the_next e \<longleftrightarrow> classify e \<in> {Missing, NotExecutable}"
  by (auto simp: classify_def tries_the_next_def)

lemma exec_loop_step:
  assumes "agrees probe execve exec_sh c"
  shows "exec_loop execve exec_sh errno denied (c # cs) = (case probe c of
      Executable \<Rightarrow> Inr (image_of execve c)
    | Failed e \<Rightarrow> Inl (e, denied, True)
    | Missing \<Rightarrow> exec_loop execve exec_sh (the (execve c)) denied cs
    | _ \<Rightarrow> exec_loop execve exec_sh (the (execve c)) True cs)"
proof (cases "probe c")
  case Missing
  with assms obtain e where e: "execve c = Some e" "classify e = Missing" by (auto simp: agrees_def split: option.splits)
  then have "e \<noteq> ENOEXEC" "e \<noteq> EACCES" "tries_the_next e" by (auto simp: classify_def tries_the_next_def split: if_splits)
  with e Missing show ?thesis by simp
next
  case (Failed e)
  with assms have "execve c = Some e" "e \<noteq> ENOEXEC" "\<not> tries_the_next e" by (simp_all add: agrees_def classify_next)
  with Failed show ?thesis by simp
qed (use assms in \<open>auto simp: agrees_def image_of_def tries_the_next_def\<close>)

lemma exec_loop_agrees:
  assumes "list_all (agrees probe execve exec_sh) cs"
  shows "exec_loop execve exec_sh errno denied cs = (case verdict_of probe cs of
      Some (Inr _) \<Rightarrow> Inr (image_of execve (the (find (\<lambda>c. decisive (probe c)) cs)))
    | Some (Inl e) \<Rightarrow> Inl (e, denied \<or> list_ex (\<lambda>c. probe c \<in> {Directory, NotExecutable})
        (takeWhile (\<lambda>c. \<not> decisive (probe c)) cs), True)
    | None \<Rightarrow> Inl (if cs = [] then errno else the (execve (last cs)),
        denied \<or> list_ex (\<lambda>c. probe c \<in> {Directory, NotExecutable}) cs, False))"
  using assms
proof (induction cs arbitrary: errno denied)
  case Nil
  show ?case by (simp add: verdict_of_def)
next
  case (Cons c cs)
  then have "agrees probe execve exec_sh c" "list_all (agrees probe execve exec_sh) cs" by simp_all
  then show ?case
    using exec_loop_step [of probe execve exec_sh c errno denied cs] Cons.IH
    by (cases "probe c"; cases "verdict_of probe cs"; simp only: verdict_of_Cons Candidate.case)
      (simp_all add: decisive_def split: sum.split del: exec_loop.simps)
qed

lemma verdict_None: "verdict_of probe cs = None \<longleftrightarrow> (\<forall>c\<in>set cs. \<not> decisive (probe c))"
proof -
  have "verdict_of probe cs = None \<longleftrightarrow> find (\<lambda>c. decisive (probe c)) cs = None"
    by (simp add: verdict_of_def split: option.split Candidate.split)
  then show ?thesis by (auto simp: find_None_iff)
qed

text \<open>Two errnos say the same of a program: they are equal, or both are of one that is missing.\<close>

definition same_failure :: "i32 \<Rightarrow> i32 \<Rightarrow> bool" where
  "same_failure e e' \<longleftrightarrow> e = e' \<or> classify e = Missing \<and> classify e' = Missing"

lemma exec_candidates_agrees:
  assumes "SLASH \<notin> set name" and "name \<noteq> []"
    and "list_all (agrees probe execve exec_sh) (search_candidates name p)"
  shows "case exec_candidates execve exec_sh (search_candidates name p) of
      Inl e \<Rightarrow> \<exists>e'. resolve_with name (Some p) dflt probe = Inl e' \<and> same_failure e e'
    | Inr img \<Rightarrow> resolve_with name (Some p) dflt probe = Inr (search_candidates name p) \<and>
        (\<exists>c \<in> set (search_candidates name p). probe c = Executable \<and> img = image_of execve c)"
proof -
  let ?cs = "search_candidates name p"
  show ?thesis
  proof (cases "verdict_of probe ?cs")
    case None
    then have nd: "\<forall>c\<in>set ?cs. \<not> decisive (probe c)" by (simp add: verdict_None)
    have "classify (the (execve (last ?cs))) = Missing"
      if "?cs \<noteq> []" "\<not> list_ex (\<lambda>c. probe c \<in> {Directory, NotExecutable}) ?cs"
    proof -
      from that have "last ?cs \<in> set ?cs" by simp
      with that nd assms(3) show ?thesis
        by (cases "probe (last ?cs)")
          (auto simp: list_ex_iff list_all_iff agrees_def decisive_def split: Candidate.splits option.splits)
    qed
    moreover have "classify ENOENT = Missing" by (simp add: classify_def)
    ultimately show ?thesis
      using None nd
      by (simp add: exec_candidates_def exec_loop_agrees [OF assms(3)] resolve_with_search [OF assms(1,2)] same_failure_def
          takeWhile_eq_all_conv [THEN iffD2])
  next
    case (Some v)
    show ?thesis
    proof (cases v)
      case (Inl e)
      with Some show ?thesis
        by (simp add: exec_candidates_def exec_loop_agrees [OF assms(3)] resolve_with_search [OF assms(1,2)] same_failure_def)
    next
      case (Inr u)
      with Some obtain c where f: "find (\<lambda>c. decisive (probe c)) ?cs = Some c" and n: "\<forall>e. probe c \<noteq> Failed e"
        by (cases "find (\<lambda>c. decisive (probe c)) ?cs") (auto simp: verdict_of_def split: Candidate.splits)
      from f have "c \<in> set ?cs" "decisive (probe c)" by (auto simp: find_Some_iff)
      moreover from this n have "probe c = Executable" by (cases "probe c") (auto simp: decisive_def)
      ultimately show ?thesis using f Some Inr
        by (auto simp: exec_candidates_def exec_loop_agrees [OF assms(3)] resolve_with_search [OF assms(1,2)])
    qed
  qed
qed

lemma resolve_absolute:
  assumes "resolve_with name path dflt probe = Inr cs" and "SLASH \<notin> set name" and "c \<in> set cs"
  shows "is_absolute c \<and> (\<exists>e. c = e @ [SLASH] @ name)"
proof -
  have "name \<noteq> []" using assms(1) by (auto simp: resolve_with_def)
  then obtain p where "cs = search_candidates name p"
    using assms(1) resolve_with_search [OF assms(2)] by (auto simp: Let_def split: option.splits sum.splits)
  with assms(3) show ?thesis by (auto simp: search_candidates_def is_absolute_def hd_append split: if_splits)
qed

section \<open>Properties\<close>

text \<open>The search before the clone and the child's \<^verbatim>\<open>execve\<close> loop agree. On a file system that does not change, the search
  for a bare name starts the child exactly when the child's loop over the same candidates finds an image, which is that of a
  candidate the search found executable, directly or through the shell; and otherwise it reports the errno the loop would
  have ended with, except that a program found nowhere is always \<open>ENOENT\<close> to the search, where the loop ends with whichever
  errno of a missing file came last.\<close>

theorem search_agrees_with_exec:
  assumes "SLASH \<notin> set name" and "name \<noteq> []"
    and "list_all (agrees probe execve exec_sh) (search_candidates name p)"
  shows "case exec_candidates execve exec_sh (search_candidates name p) of
      Inl e \<Rightarrow> \<exists>e'. resolve_with name (Some p) dflt probe = Inl e' \<and> same_failure e e'
    | Inr img \<Rightarrow> resolve_with name (Some p) dflt probe = Inr (search_candidates name p) \<and>
        (\<exists>c \<in> set (search_candidates name p). probe c = Executable \<and> img = image_of execve c)"
  by (rule exec_candidates_agrees [OF assms])

definition demo_probe :: "bytes \<Rightarrow> Candidate" where
  "demo_probe c = (if c = ascii ''/b/x'' then Executable else if c = ascii ''/a/x'' then NotExecutable else Missing)"

definition demo_execve :: "bytes \<Rightarrow> i32 option" where
  "demo_execve c = (if c = ascii ''/b/x'' then Some ENOEXEC else if c = ascii ''/a/x'' then Some EACCES else Some ENOTDIR)"

theorem search_agrees_with_exec_witness:
  "exec_candidates demo_execve (\<lambda>_. None) (search_candidates (ascii ''x'') (ascii ''/c:/a:.:/b'')) = Inr (Via_sh (ascii ''/b/x'')) \<and>
   resolve_with (ascii ''x'') (Some (ascii ''/c:/a:.:/b'')) [] demo_probe = Inr [ascii ''/c/x'', ascii ''/a/x'', ascii ''/b/x'']"
proof -
  have "list_all (agrees demo_probe demo_execve (\<lambda>_. None)) (search_candidates (ascii ''x'') (ascii ''/c:/a:.:/b''))"
    by code_simp
  moreover have e: "exec_candidates demo_execve (\<lambda>_. None) (search_candidates (ascii ''x'') (ascii ''/c:/a:.:/b'')) =
    Inr (Via_sh (ascii ''/b/x''))" by code_simp
  moreover have "search_candidates (ascii ''x'') (ascii ''/c:/a:.:/b'') = [ascii ''/c/x'', ascii ''/a/x'', ascii ''/b/x'']" by code_simp
  ultimately show ?thesis
    using search_agrees_with_exec [of "ascii ''x''" demo_probe demo_execve "\<lambda>_. None" "ascii ''/c:/a:.:/b''" "[]"] by simp
qed

text \<open>The search never yields the working directory. Every candidate for a bare name is an absolute
  path that ends in the name, whatever \<^verbatim>\<open>PATH\<close> holds.\<close>

theorem candidates_absolute:
  assumes "resolve_with name path dflt probe = Inr cs" and "SLASH \<notin> set name" and "c \<in> set cs"
  shows "is_absolute c \<and> (\<exists>e. c = e @ [SLASH] @ name)"
  by (rule resolve_absolute [OF assms])

theorem candidates_absolute_witness: "is_absolute (ascii ''/b/x'')"
proof -
  have r: "resolve_with (ascii ''x'') (Some (ascii ''/b::bin'')) [] demo_probe = Inr [ascii ''/b/x'']" by code_simp
  show ?thesis using candidates_absolute [OF r] by simp
qed

end
