(* ===== verification/Shim_Run.thy ===== *)
theory Shim_Run
  imports Shim_Loop Program_Path
begin

text \<open>
  \<^verbatim>\<open>src/src/elevation/shim/run.rs\<close>, \<^verbatim>\<open>run/handshake.rs\<close>, \<^verbatim>\<open>run/start.rs\<close>, \<^verbatim>\<open>owner_watch.rs\<close> and the clone of
  \<^verbatim>\<open>run/child.rs\<close>: the whole shim process, from the set-id check to its exit code.

  The kernel and cosca are the environment, a record of the answers to the calls the shim makes; the
  shim's effects are a trace of the frames it writes and of what it does to the program's process.
  \<open>None\<close> is a call that is never answered. An \<^verbatim>\<open>Err(Exit(code))\<close> is \<open>Inl code\<close>. Messages, the log and the
  gates of the test hooks change nothing and are left out; the faults the hooks inject are in the
  environment.
\<close>

section \<open>The environment\<close>

record Creds =
  cr_pid :: i32
  cr_uid :: u32
  cr_gid :: u32

datatype Received = Received_Eof | Received_Byte u8 "Creds option"

datatype Inject = ForkFails | PipeFails | Clone3Enosys | DieAfterFork | StealReap | ReapingHostThread
  | OwnerPollFails | ChildSetupFails

text \<open>An \<^verbatim>\<open>io::Error\<close>, which may carry no errno.\<close>

type_synonym io_error = "i32 option"

record World =
  w_hooks :: "(Inject \<Rightarrow> bool) option"
  w_uids :: "u32 \<times> u32 \<times> u32 \<times> u32"
  w_connect :: "i32 option list"
  w_peer :: "i32 + Creds"
  w_pidfd_open :: "i32 \<Rightarrow> i32 option"
  w_wake_pipe :: "io_error option"
  w_hello :: "io_error option"
  w_answer_poll :: "i32 + bool list"
  w_answer :: "io_error + Received"
  w_poll_before :: "i32 + bool list"
  w_pipes :: "io_error option"
  w_path :: "bytes option"
  w_default_path :: bytes
  w_probe :: "bytes \<Rightarrow> Candidate"
  w_reaper :: "io_error option"
  w_clone3 :: "i32 option"
  w_clone :: "i32 option"
  w_poll_held :: "i32 + bool list"
  w_held_wait :: "WaitAnswer list"
  w_loop_failure :: bool
  w_rounds :: "Round list"
  w_wait :: "WaitAnswer list"
  w_tail :: "Read list"

datatype Effect = Wrote Frame | Cloned | Abandoned | Released | Signalled "ToChild list"

record Shim =
  s_conn :: bool
  s_hello_sent :: bool
  s_trace :: "Effect list"

type_synonym 'a shim = "(Shim \<times> (i32 + 'a)) option"

text \<open>\<^verbatim>\<open>f(shim)?\<close> and the rest of the function.\<close>

definition and_then :: "'a shim \<Rightarrow> (Shim \<Rightarrow> 'a \<Rightarrow> 'b shim) \<Rightarrow> 'b shim" where
  "and_then m f = (case m of None \<Rightarrow> None
     | Some (s, Inl code) \<Rightarrow> Some (s, Inl code)
     | Some (s, Inr x) \<Rightarrow> f s x)"

section \<open>Reporting\<close>

definition effect :: "Effect \<Rightarrow> Shim \<Rightarrow> Shim" where
  "effect e s = s\<lparr>s_trace := s_trace s @ [e]\<rparr>"

definition send :: "Frame \<Rightarrow> Shim \<Rightarrow> Shim" where
  "send frame s = (if s_conn s then effect (Wrote frame) s else s)"

definition refuse :: "i32 \<Rightarrow> Shim \<Rightarrow> 'a shim" where
  "refuse code s = Some (s, Inl code)"

definition refuse_with :: "Refusal \<Rightarrow> Shim \<Rightarrow> 'a shim" where
  "refuse_with r s = Some (send (Refused r) s, Inl (refusal_code r))"

definition not_executed :: "NotExecuted \<Rightarrow> Shim \<Rightarrow> 'a shim" where
  "not_executed report s = Some (send (Frame_NotExecuted report) s, Inl NOT_EXECUTED)"

definition setup_failed :: "i32 \<Rightarrow> Shim \<Rightarrow> 'a shim" where
  "setup_failed errno s = not_executed (SetupFailed (Errno errno)) s"

definition os_error :: "io_error \<Rightarrow> i32" where
  "os_error e = (case e of None \<Rightarrow> EIO | Some n \<Rightarrow> n)"

definition injected :: "World \<Rightarrow> Inject \<Rightarrow> bool" where
  "injected w what = (case w_hooks w of None \<Rightarrow> False | Some inject \<Rightarrow> inject what)"

section \<open>The handshake\<close>

definition is_set_id :: "u32 \<times> u32 \<times> u32 \<times> u32 \<Rightarrow> bool" where
  "is_set_id ids = (case ids of (uid, euid, gid, egid) \<Rightarrow> uid \<noteq> euid \<or> gid \<noteq> egid)"

text \<open>\<^verbatim>\<open>open\<close>, \<^verbatim>\<open>socket\<close>, \<^verbatim>\<open>SO_PASSCRED\<close>, \<^verbatim>\<open>stat\<close>, the address and \<^verbatim>\<open>connect\<close>: the first failure refuses.\<close>

definition connect :: "World \<Rightarrow> Shim \<Rightarrow> unit shim" where
  "connect w s =
     (if list_ex (\<lambda>e. e \<noteq> None) (w_connect w) then refuse NO_ANSWER s
      else Some (s\<lparr>s_conn := True\<rparr>, Inr ()))"

definition verify_listener :: "World \<Rightarrow> ShimArgs \<Rightarrow> Shim \<Rightarrow> unit shim" where
  "verify_listener w a s = (case w_peer w of
      Inl e \<Rightarrow> refuse NOT_COSCA s
    | Inr creds \<Rightarrow>
        if cr_pid creds \<noteq> sa_cosca_pid a \<or> cr_uid creds \<noteq> sa_cosca_euid a then refuse NOT_COSCA s
        else Some (s, Inr ()))"

datatype OwnerPidfdFailure = OwnerPidfd_CoscaGone | Unwatchable

abbreviation ESRCH :: i32 where "ESRCH \<equiv> 3"
abbreviation EINVAL :: i32 where "EINVAL \<equiv> 22"

definition from_errno :: "i32 \<Rightarrow> OwnerPidfdFailure" where
  "from_errno errno = (if errno = ESRCH \<or> errno = EINVAL then OwnerPidfd_CoscaGone else Unwatchable)"

fun owner_exit_code :: "OwnerPidfdFailure \<Rightarrow> i32" where
  "owner_exit_code OwnerPidfd_CoscaGone = OWNER_GONE"
| "owner_exit_code Unwatchable = OWNER_WATCH"

text \<open>\<^verbatim>\<open>i32::try_from(pid).ok().and_then(Pid::from_raw)\<close>: a pid that fits and is not zero.\<close>

definition watch_owner :: "World \<Rightarrow> ShimArgs \<Rightarrow> Shim \<Rightarrow> unit shim" where
  "watch_owner w a s =
     (let pid = sa_cosca_pid a;
          opened = (if pid < 0x80000000 \<and> pid \<noteq> 0 then w_pidfd_open w pid else Some EINVAL)
      in case opened of
           Some errno \<Rightarrow> refuse (owner_exit_code (from_errno errno)) s
         | None \<Rightarrow> Some (s, Inr ()))"

definition catch_signals :: "World \<Rightarrow> Shim \<Rightarrow> unit shim" where
  "catch_signals w s = (case w_wake_pipe w of Some e \<Rightarrow> refuse NO_ANSWER s | None \<Rightarrow> Some (s, Inr ()))"

definition say_hello :: "World \<Rightarrow> Shim \<Rightarrow> unit shim" where
  "say_hello w s = (case w_hello w of
      Some e \<Rightarrow> refuse NO_ANSWER s
    | None \<Rightarrow> Some ((send Hello s)\<lparr>s_hello_sent := True\<rparr>, Inr ()))"

definition await_answer :: "World \<Rightarrow> ShimArgs \<Rightarrow> Shim \<Rightarrow> unit shim" where
  "await_answer w a s = (case poll_in [True, True, True] (w_answer_poll w) of
      Inl e \<Rightarrow> refuse_with NoAnswer s
    | Inr ready \<Rightarrow>
        if ready ! 0 then refuse_with CoscaGone s
        else if ready ! 1 then refuse_with NoAnswer s
        else (case w_answer w of
            Inl e \<Rightarrow> refuse_with NoAnswer s
          | Inr Received_Eof \<Rightarrow> refuse_with NoAnswer s
          | Inr (Received_Byte byte creds) \<Rightarrow>
              let cosca = (case creds of None \<Rightarrow> False
                    | Some c \<Rightarrow> cr_pid c = sa_cosca_pid a \<and> cr_uid c = sa_cosca_euid a)
              in if \<not> cosca then refuse_with NotCosca s
                 else if byte = 0x41 then Some (s, Inr ())
                 else if byte = 0x4E then refuse_with Denied s
                 else refuse_with NoAnswer s))"

datatype Stop = OwnerExited | Signaled

text \<open>\<open>OwnerPollFails\<close> lowers a limit around the poll; the answer is the kernel's either way.\<close>

definition why_stop :: "i32 + bool list \<Rightarrow> i32 + Stop option" where
  "why_stop polled = (case poll_in [True, True] polled of
      Inl e \<Rightarrow> Inl e
    | Inr ready \<Rightarrow> Inr (if ready ! 0 then Some OwnerExited else if ready ! 1 then Some Signaled else None))"

text \<open>\<open>held\<close> is the answers to the reap of the held child, when there is one.\<close>

definition check_owner :: "i32 + bool list \<Rightarrow> WaitAnswer list option \<Rightarrow> Shim \<Rightarrow> unit shim" where
  "check_owner polled held s =
     (let stop = why_stop polled
      in case (if stop = Inr None then Some s
               else (case held of None \<Rightarrow> Some s
                 | Some ws \<Rightarrow> (case reap ws of None \<Rightarrow> None | Some _ \<Rightarrow> Some (effect Abandoned s)))) of
           None \<Rightarrow> None
         | Some s \<Rightarrow> (case stop of
               Inr None \<Rightarrow> Some (s, Inr ())
             | Inr (Some OwnerExited) \<Rightarrow> refuse_with CoscaGone s
             | Inr (Some Signaled) \<Rightarrow> refuse_with NoAnswer s
             | Inl e \<Rightarrow> setup_failed e s))"

section \<open>The start\<close>

abbreviation EAGAIN :: i32 where "EAGAIN \<equiv> 11"
abbreviation ENOSYS :: i32 where "ENOSYS \<equiv> 38"
abbreviation EMFILE :: i32 where "EMFILE \<equiv> 24"

text \<open>\<^verbatim>\<open>child::spawn\<close>: \<^verbatim>\<open>clone3\<close>, or \<^verbatim>\<open>clone\<close> where \<^verbatim>\<open>clone3\<close> answers \<^verbatim>\<open>ENOSYS\<close>; \<open>Some\<close> is the errno.\<close>

definition spawn :: "World \<Rightarrow> i32 option" where
  "spawn w =
     (let first = (if injected w ForkFails then Some EAGAIN
            else if injected w Clone3Enosys then Some ENOSYS else w_clone3 w)
      in if first = Some ENOSYS then w_clone w else first)"

definition supervise :: "World \<Rightarrow> Shim \<Rightarrow> i32 shim" where
  "supervise w s = (case loop_run (w_loop_failure w) (w_wait w) (w_tail w) (w_rounds w)
        (new_state (w_hooks w \<noteq> None)) None of
      None \<Rightarrow> None
    | Some (fin, sent) \<Rightarrow>
        let s = effect (Signalled sent) s;
            verdict = conclude (f_report fin) (f_reaped fin) (f_lost fin);
            s = (if f_conn_open fin then send (v_frame verdict) s else s)
        in Some (s, Inr (v_exit_code verdict)))"

definition start_child :: "World \<Rightarrow> Shim \<Rightarrow> i32 shim" where
  "start_child w s = (case spawn w of
      Some errno \<Rightarrow> not_executed (ForkFailed (Errno errno)) s
    | None \<Rightarrow>
        and_then (check_owner (w_poll_held w) (Some (w_held_wait w)) (effect Cloned s)) (\<lambda>s _.
          let s = effect Released s
          in if injected w DieAfterFork then Some (s, Inl SUPERVISION) else supervise w s))"

definition start_and_supervise :: "World \<Rightarrow> ShimArgs \<Rightarrow> Shim \<Rightarrow> i32 shim" where
  "start_and_supervise w a s =
     (case (if injected w PipeFails then Some (Some EMFILE) else w_pipes w) of
        Some e \<Rightarrow> not_executed (SetupFailed (Errno (os_error e))) s
      | None \<Rightarrow>
          (case resolve_with (sa_program a)
                 (case sa_search_path a of Some p \<Rightarrow> Some p | None \<Rightarrow> w_path w) (w_default_path w) (w_probe w) of
             Inl errno \<Rightarrow> not_executed (ExecFailed (Errno errno)) s
           | Inr cs \<Rightarrow>
               (case (if injected w ReapingHostThread then w_reaper w else None) of
                  Some e \<Rightarrow> not_executed (SetupFailed (Errno (os_error e))) s
                | None \<Rightarrow> start_child w s)))"

section \<open>The whole shim\<close>

definition go :: "World \<Rightarrow> ShimArgs \<Rightarrow> Shim \<Rightarrow> i32 shim" where
  "go w a s =
     (if is_set_id (w_uids w) then refuse SET_ID s
      else and_then (connect w s) (\<lambda>s _.
           and_then (verify_listener w a s) (\<lambda>s _.
           and_then (watch_owner w a s) (\<lambda>s _.
           and_then (catch_signals w s) (\<lambda>s _.
           and_then (say_hello w s) (\<lambda>s _.
           and_then (await_answer w a s) (\<lambda>s _.
           and_then (check_owner (w_poll_before w) None s) (\<lambda>s _.
           start_and_supervise w a s))))))))"

definition init_shim :: Shim where
  "init_shim = \<lparr>s_conn = False, s_hello_sent = False, s_trace = []\<rparr>"

definition run :: "World \<Rightarrow> ShimArgs \<Rightarrow> (Effect list \<times> i32) option" where
  "run w a = (case go w a init_shim of
      None \<Rightarrow> None
    | Some (s, Inr code) \<Rightarrow> Some (s_trace s, code)
    | Some (s, Inl code) \<Rightarrow> Some (s_trace s, code))"

section \<open>The behaviours of the shim\<close>

text \<open>cosca, and nobody else, told the shim to start: the listener and the writer of the answer have
  cosca's pid and euid, and the answer is \<open>A\<close>.\<close>

definition is_cosca :: "ShimArgs \<Rightarrow> Creds \<Rightarrow> bool" where
  "is_cosca a c \<longleftrightarrow> cr_pid c = sa_cosca_pid a \<and> cr_uid c = sa_cosca_euid a"

definition allowed :: "World \<Rightarrow> ShimArgs \<Rightarrow> bool" where
  "allowed w a \<longleftrightarrow> \<not> is_set_id (w_uids w) \<and>
     (case w_peer w of Inr c \<Rightarrow> is_cosca a c | _ \<Rightarrow> False) \<and>
     (case w_answer w of Inr (Received_Byte b (Some c)) \<Rightarrow> b = encode_command Allow \<and> is_cosca a c | _ \<Rightarrow> False) \<and>
     why_stop (w_poll_before w) = Inr None"

text \<open>A frame and the exit code it goes with.\<close>

definition reports :: "Frame \<Rightarrow> i32 \<Rightarrow> bool" where
  "reports f code = (case f of
      Hello \<Rightarrow> False
    | Status ws \<Rightarrow> code = exit_code_of ws
    | Lost _ \<Rightarrow> code = SUPERVISION
    | StatusLost \<Rightarrow> code = STATUS_LOST
    | Frame_NotExecuted _ \<Rightarrow> code = NOT_EXECUTED
    | Refused r \<Rightarrow> code = refusal_code r)"

fun never_started :: "Frame \<Rightarrow> bool" where
  "never_started (Frame_NotExecuted _) = True"
| "never_started (Refused _) = True"
| "never_started _ = False"

text \<open>The shim's abstract behaviour: what it does, in order, and how it exits.\<close>

inductive behaviour :: "World \<Rightarrow> ShimArgs \<Rightarrow> Effect list \<Rightarrow> i32 \<Rightarrow> bool" for w a where
  silent: "code \<in> {SET_ID, NOT_COSCA, OWNER_GONE, OWNER_WATCH, NO_ANSWER} \<Longrightarrow> behaviour w a [] code"
| unstarted: "never_started f \<Longrightarrow> reports f code \<Longrightarrow> behaviour w a [Wrote Hello, Wrote f] code"
| abandoned: "allowed w a \<Longrightarrow> never_started f \<Longrightarrow> reports f code \<Longrightarrow>
    behaviour w a [Wrote Hello, Cloned, Abandoned, Wrote f] code"
| supervised: "allowed w a \<Longrightarrow> why_stop (w_poll_held w) = Inr None \<Longrightarrow>
    loop_run (w_loop_failure w) (w_wait w) (w_tail w) (w_rounds w) (new_state (w_hooks w \<noteq> None)) None = Some (fin, sent) \<Longrightarrow>
    v = conclude (f_report fin) (f_reaped fin) (f_lost fin) \<Longrightarrow>
    behaviour w a ([Wrote Hello, Cloned, Released, Signalled sent] @
      (if f_conn_open fin then [Wrote (v_frame v)] else [])) (v_exit_code v)"
| died: "allowed w a \<Longrightarrow> why_stop (w_poll_held w) = Inr None \<Longrightarrow> injected w DieAfterFork \<Longrightarrow>
    behaviour w a [Wrote Hello, Cloned, Released] SUPERVISION"

inductive_cases behaviourE: "behaviour w a t code"

section \<open>The shim refines its behaviours\<close>

lemma and_then_Some:
  "and_then m f = Some (s', res) \<longleftrightarrow>
     (\<exists>code. m = Some (s', Inl code) \<and> res = Inl code) \<or> (\<exists>s x. m = Some (s, Inr x) \<and> f s x = Some (s', res))"
  by (cases res) (auto simp: and_then_def split: option.splits sum.splits prod.splits)

definition code_of :: "i32 + i32 \<Rightarrow> i32" where
  "code_of r = (case r of Inl c \<Rightarrow> c | Inr c \<Rightarrow> c)"

lemma run_Some: "run w a = Some (t, code) \<longleftrightarrow>
    (\<exists>s r. go w a init_shim = Some (s, r) \<and> t = s_trace s \<and> code = code_of r)"
  by (auto simp: run_def code_of_def split: option.splits sum.splits prod.splits)

lemmas report_defs = refuse_def refuse_with_def not_executed_def setup_failed_def send_def effect_def

lemma check_owner_cases:
  assumes "check_owner polled held s = Some (s', res)" and "s_conn s"
  obtains (ok) "why_stop polled = Inr None" "s' = s" "res = Inr ()"
  | (stop) f code where "res = Inl code" "never_started f" "reports f code"
      "s_trace s' = s_trace s @ (if held = None then [] else [Abandoned]) @ [Wrote f]"
proof (cases "why_stop polled")
  case (Inl e)
  with assms stop [of NOT_EXECUTED "Frame_NotExecuted (SetupFailed (Errno e))"] show thesis
    by (cases held) (auto simp: check_owner_def report_defs reports_def Let_def split: option.splits)
next
  case (Inr st)
  with assms ok stop [of "refusal_code CoscaGone" "Refused CoscaGone"] stop [of "refusal_code NoAnswer" "Refused NoAnswer"]
  show thesis
    by (cases held; cases st rule: option.exhaust; (cases "the st")?)
      (auto simp: check_owner_def report_defs reports_def Let_def split: option.splits Stop.splits)
qed

lemma conclude_reports: "reports (v_frame (conclude report reaped lost)) (v_exit_code (conclude report reaped lost))"
  by (simp add: conclude_def reports_def split: option.split)

lemma start_child_cases:
  assumes "start_child w s = Some (s', res)" and "s_conn s"
  obtains (unforked) n where "code_of res = NOT_EXECUTED" "s_trace s' = s_trace s @ [Wrote (Frame_NotExecuted n)]"
  | (abandoned) f where "never_started f" "reports f (code_of res)"
      "s_trace s' = s_trace s @ [Cloned, Abandoned, Wrote f]"
  | (died) "why_stop (w_poll_held w) = Inr None" "injected w DieAfterFork" "code_of res = SUPERVISION"
      "s_trace s' = s_trace s @ [Cloned, Released]"
  | (ran) fin sent v where "why_stop (w_poll_held w) = Inr None"
      "loop_run (w_loop_failure w) (w_wait w) (w_tail w) (w_rounds w) (new_state (w_hooks w \<noteq> None)) None = Some (fin, sent)"
      "v = conclude (f_report fin) (f_reaped fin) (f_lost fin)" "code_of res = v_exit_code v"
      "s_trace s' = s_trace s @ [Cloned, Released, Signalled sent] @ (if f_conn_open fin then [Wrote (v_frame v)] else [])"
proof (cases "spawn w")
  case (Some errno)
  with assms unforked show thesis by (auto simp: start_child_def report_defs code_of_def)
next
  case None
  let ?s = "effect Cloned s"
  have conn: "s_conn ?s" using assms(2) by (simp add: effect_def)
  obtain r1 s1 where c: "check_owner (w_poll_held w) (Some (w_held_wait w)) ?s = Some (s1, r1)"
    using assms(1) None by (auto simp: start_child_def and_then_Some)
  from c conn show thesis
  proof (cases rule: check_owner_cases)
    case (stop f code)
    then show thesis using abandoned [of f] assms(1) None c
      by (auto simp: start_child_def and_then_def code_of_def effect_def)
  next
    case ok
    show thesis
    proof (cases "injected w DieAfterFork")
      case True
      then show thesis using died ok assms(1) None c
        by (auto simp: start_child_def and_then_def code_of_def effect_def Let_def)
    next
      case False
      then obtain fin sent where l: "loop_run (w_loop_failure w) (w_wait w) (w_tail w) (w_rounds w)
          (new_state (w_hooks w \<noteq> None)) None = Some (fin, sent)"
        using ok assms(1) None c
        by (auto simp: start_child_def and_then_def supervise_def Let_def split: option.splits prod.splits)
      show thesis
        using ran [OF ok(1) l refl] False ok assms None c l
        by (auto simp: start_child_def and_then_def supervise_def Let_def code_of_def effect_def send_def split: if_splits)
    qed
  qed
qed

lemma start_behaviour:
  assumes "start_and_supervise w a s = Some (s', res)" and "s_conn s" and "s_trace s = [Wrote Hello]"
    and "allowed w a"
  shows "behaviour w a (s_trace s') (code_of res)"
proof -
  consider (unforked) n where "s' = send (Frame_NotExecuted n) s" "res = Inl NOT_EXECUTED"
    | (child) "start_child w s = Some (s', res)"
    using assms(1) by (auto simp: start_and_supervise_def not_executed_def split: option.splits sum.splits if_splits)
  then show ?thesis
  proof cases
    case (unforked n)
    then show ?thesis using unstarted [of "Frame_NotExecuted n" NOT_EXECUTED] assms(2,3)
      by (simp add: code_of_def send_def effect_def reports_def)
  next
    case child
    from child assms(2) show ?thesis
    proof (cases rule: start_child_cases)
      case (unforked n)
      then show ?thesis using unstarted [of "Frame_NotExecuted n" NOT_EXECUTED] assms(3) by (simp add: reports_def)
    next
      case (abandoned f)
      then show ?thesis using behaviour.abandoned [OF assms(4)] assms(3) by simp
    next
      case died
      then show ?thesis using behaviour.died [OF assms(4)] assms(3) by simp
    next
      case (ran fin sent v)
      then show ?thesis using behaviour.supervised [OF assms(4) ran(1,2,3)] assms(3) by simp
    qed
  qed
qed

text \<open>Up to hello nothing is written.\<close>

definition silent_refusal :: "i32 \<Rightarrow> bool" where
  "silent_refusal code \<longleftrightarrow> code \<in> {SET_ID, NOT_COSCA, OWNER_GONE, OWNER_WATCH, NO_ANSWER}"

lemma connect_cases:
  "connect w s = Some (s', r) \<Longrightarrow> (case r of Inl c \<Rightarrow> s' = s \<and> silent_refusal c | Inr _ \<Rightarrow> s' = s\<lparr>s_conn := True\<rparr>)"
  by (auto simp: connect_def refuse_def silent_refusal_def split: if_splits)

lemma verify_listener_cases:
  "verify_listener w a s = Some (s', r) \<Longrightarrow> s' = s \<and>
     (case r of Inl c \<Rightarrow> silent_refusal c | Inr _ \<Rightarrow> (case w_peer w of Inr c \<Rightarrow> is_cosca a c | _ \<Rightarrow> False))"
  by (auto simp: verify_listener_def refuse_def silent_refusal_def is_cosca_def split: if_splits sum.splits)

lemma watch_owner_cases:
  "watch_owner w a s = Some (s', r) \<Longrightarrow> s' = s \<and> (case r of Inl c \<Rightarrow> silent_refusal c | Inr _ \<Rightarrow> True)"
  by (auto simp: watch_owner_def refuse_def silent_refusal_def Let_def from_errno_def split: if_splits option.splits)

lemma catch_signals_cases:
  "catch_signals w s = Some (s', r) \<Longrightarrow> s' = s \<and> (case r of Inl c \<Rightarrow> silent_refusal c | Inr _ \<Rightarrow> True)"
  by (auto simp: catch_signals_def refuse_def silent_refusal_def split: option.splits)

lemma say_hello_cases:
  "say_hello w s = Some (s', r) \<Longrightarrow> s_conn s \<Longrightarrow>
     (case r of Inl c \<Rightarrow> s' = s \<and> silent_refusal c
      | Inr _ \<Rightarrow> s' = s\<lparr>s_hello_sent := True, s_trace := s_trace s @ [Wrote Hello]\<rparr>)"
  by (auto simp: say_hello_def refuse_def silent_refusal_def send_def effect_def split: option.splits)

lemma await_answer_cases:
  assumes "await_answer w a s = Some (s', r)" and "s_conn s"
  shows "case r of
      Inl c \<Rightarrow> \<exists>f. never_started f \<and> reports f c \<and> s_trace s' = s_trace s @ [Wrote f]
    | Inr _ \<Rightarrow> s' = s \<and> (case w_answer w of
        Inr (Received_Byte b (Some c)) \<Rightarrow> b = encode_command Allow \<and> is_cosca a c | _ \<Rightarrow> False)"
proof -
  have rw: "case r of Inl c \<Rightarrow> \<exists>f. never_started f \<and> reports f c \<and> s_trace s' = s_trace s @ [Wrote f] | Inr _ \<Rightarrow> P"
    if "refuse_with q s = Some (s', r)" for q P
    using that assms(2)
    by (auto simp: refuse_with_def send_def effect_def reports_def intro!: exI [of _ "Refused q"])
  show ?thesis
    using assms(1) rw
    by (auto simp: await_answer_def Let_def is_cosca_def split: sum.splits if_splits Received.splits option.splits)
qed

lemma after_hello:
  assumes "and_then (await_answer w a s) (\<lambda>s _. and_then (check_owner (w_poll_before w) None s)
      (\<lambda>s _. start_and_supervise w a s)) = Some (s', r)"
    and "s_conn s" and "s_trace s = [Wrote Hello]" and "\<not> is_set_id (w_uids w)"
    and "case w_peer w of Inr c \<Rightarrow> is_cosca a c | _ \<Rightarrow> False"
  shows "behaviour w a (s_trace s') (code_of r)"
proof -
  obtain s1 r1 where a1: "await_answer w a s = Some (s1, r1)"
    using assms(1) by (auto simp: and_then_Some)
  show ?thesis
  proof (cases r1)
    case (Inl c)
    with a1 await_answer_cases [OF a1 assms(2)] assms(1,3) unstarted show ?thesis
      by (auto simp: and_then_def code_of_def)
  next
    case (Inr u)
    with await_answer_cases [OF a1 assms(2)] have s1: "s1 = s" and
      ans: "case w_answer w of Inr (Received_Byte b (Some c)) \<Rightarrow> b = encode_command Allow \<and> is_cosca a c | _ \<Rightarrow> False"
      by simp_all
    from assms(1) a1 Inr s1 have k: "and_then (check_owner (w_poll_before w) None s) (\<lambda>s _. start_and_supervise w a s) = Some (s', r)"
      by (simp add: and_then_def)
    then obtain s2 r2 where c2: "check_owner (w_poll_before w) None s = Some (s2, r2)"
      by (auto simp: and_then_Some)
    from c2 assms(2) show ?thesis
    proof (cases rule: check_owner_cases)
      case ok
      have "allowed w a" using assms(4,5) ans ok(1) by (simp add: allowed_def)
      with ok k c2 assms(2,3) show ?thesis by (intro start_behaviour) (simp_all add: and_then_def)
    next
      case (stop f code)
      with k c2 assms(3) unstarted [of f code] show ?thesis by (auto simp: and_then_def code_of_def)
    qed
  qed
qed

lemma run_behaviour:
  assumes "run w a = Some (t, code)"
  shows "behaviour w a t code"
proof -
  obtain s r where g: "go w a init_shim = Some (s, r)" and t: "t = s_trace s" and c: "code = code_of r"
    using assms by (auto simp: run_Some)
  have sil: "behaviour w a [] k" if "silent_refusal k" for k
    using that silent by (auto simp: silent_refusal_def)
  show ?thesis
  proof (cases "is_set_id (w_uids w)")
    case True
    then show ?thesis using g t c silent [of SET_ID] by (auto simp: go_def refuse_def init_shim_def code_of_def)
  next
    case False
    let ?rest = "\<lambda>s. and_then (await_answer w a s) (\<lambda>s _. and_then (check_owner (w_poll_before w) None s)
      (\<lambda>s _. start_and_supervise w a s))"
    let ?hello = "\<lparr>s_conn = True, s_hello_sent = True, s_trace = [Wrote Hello]\<rparr>"
    from g False consider (silent) "s_trace s = []" "silent_refusal (code_of r)"
      | (hello) "?rest ?hello = Some (s, r)" "case w_peer w of Inr c \<Rightarrow> is_cosca a c | _ \<Rightarrow> False"
      by (auto simp: go_def and_then_Some init_shim_def code_of_def dest!: connect_cases verify_listener_cases
          watch_owner_cases catch_signals_cases say_hello_cases)
    then show ?thesis
    proof cases
      case silent
      then show ?thesis using sil t c by simp
    next
      case hello
      then show ?thesis using after_hello [OF hello(1) _ _ False] t c by simp
    qed
  qed
qed

section \<open>A concrete run\<close>

definition demo_args :: ShimArgs where
  "demo_args = \<lparr>sa_dir = ascii ''/d'', sa_cosca_pid = 7, sa_cosca_identity = None, sa_cosca_euid = 1000,
     sa_search_path = None, sa_program = ascii ''/bin/x'', sa_args = []\<rparr>"

definition demo_creds :: Creds where
  "demo_creds = \<lparr>cr_pid = 7, cr_uid = 1000, cr_gid = 1000\<rparr>"

text \<open>The second poll of the owner is the argument: \<open>[False, False]\<close> lets the program go.\<close>

definition demo_world :: "bool list \<Rightarrow> World" where
  "demo_world held = \<lparr>w_hooks = None, w_uids = (0, 0, 0, 0), w_connect = [None, None, None, None, None, None],
     w_peer = Inr demo_creds, w_pidfd_open = (\<lambda>_. None), w_wake_pipe = None, w_hello = None,
     w_answer_poll = Inr [False, False, True], w_answer = Inr (Received_Byte 0x41 (Some demo_creds)),
     w_poll_before = Inr [False, False], w_pipes = None, w_path = None, w_default_path = [],
     w_probe = (\<lambda>_. Missing), w_reaper = None, w_clone3 = None, w_clone = None, w_poll_held = Inr held,
     w_held_wait = [WaitAnswer_Child], w_loop_failure = False,
     w_rounds = [demo_round [False, True, False, False, False] [Recv_Again]], w_wait = demo_exit, w_tail = [Read_Ok []]\<rparr>"

definition frames :: "Effect list \<Rightarrow> Frame list" where
  "frames t = List.map_filter (\<lambda>e. case e of Wrote f \<Rightarrow> Some f | _ \<Rightarrow> None) t"

lemma frames_simps [simp]:
  "frames [] = []" "frames (Wrote f # t) = f # frames t" "frames (Cloned # t) = frames t"
  "frames (Abandoned # t) = frames t" "frames (Released # t) = frames t" "frames (Signalled g # t) = frames t"
  by (simp_all add: frames_def map_filter_def)

lemma demo_run:
  "run (demo_world [False, False]) demo_args = Some ([Wrote Hello, Cloned, Released, Signalled [], Wrote (Status 0)], 0)"
  by code_simp

section \<open>Properties\<close>

text \<open>C1: the shim refines its abstract behaviour. Every run either writes nothing and exits with a refusal
  code, or says hello and one not-started frame, or clones, kills the held child and says so, or
  releases the child and ends with the verdict of the supervision loop.\<close>

theorem shim_refines_behaviour:
  assumes "run w a = Some (t, code)"
  shows "behaviour w a t code"
  by (rule run_behaviour [OF assms])

theorem shim_refines_behaviour_witness:
  "behaviour (demo_world [False, False]) demo_args [Wrote Hello, Cloned, Released, Signalled [], Wrote (Status 0)] 0"
  by (rule shim_refines_behaviour [OF demo_run])

text \<open>C3: the program is let go only for cosca. If the child is released, then the process is not set-id,
  the listener has cosca's pid and euid, the answer is \<open>A\<close> and came from cosca's pid and euid, and
  neither owner check, the one before the clone and the one after it, saw cosca gone or a signal.\<close>

theorem program_runs_only_for_cosca:
  assumes "run w a = Some (t, code)" and "Released \<in> set t"
  shows "allowed w a \<and> why_stop (w_poll_held w) = Inr None"
  using run_behaviour [OF assms(1)] assms(2) by (cases rule: behaviourE) (auto split: if_splits)

theorem program_runs_only_for_cosca_witness: "allowed (demo_world [False, False]) demo_args"
  using program_runs_only_for_cosca [OF demo_run] by simp

text \<open>A child that was cloned is settled. If the shim returns after the clone, it either killed and
  collected the held child, or released it to run, and never both.\<close>

theorem cloned_child_is_settled:
  assumes "run w a = Some (t, code)" and "Cloned \<in> set t"
  shows "Abandoned \<in> set t \<longleftrightarrow> Released \<notin> set t"
  using run_behaviour [OF assms(1)] assms(2) by (cases rule: behaviourE) (auto split: if_splits)

theorem cloned_child_is_settled_witness:
  "run (demo_world [True, False]) demo_args =
     Some ([Wrote Hello, Cloned, Abandoned, Wrote (Refused CoscaGone)], 123) \<and>
   Released \<notin> set [Wrote Hello, Cloned, Abandoned, Wrote (Refused CoscaGone)]"
proof -
  have r: "run (demo_world [True, False]) demo_args =
     Some ([Wrote Hello, Cloned, Abandoned, Wrote (Refused CoscaGone)], 123)" by code_simp
  with cloned_child_is_settled [OF r] show ?thesis by simp
qed

text \<open>Without test hooks, cosca hears nothing before hello, and after hello at most one frame, which
  agrees with the exit code. No frame follows hello only when the program was released and cosca's
  connection had ended by the end of the loop.\<close>

theorem one_frame_after_hello:
  assumes "run w a = Some (t, code)" and "w_hooks w = None"
  shows "frames t = [] \<and> silent_refusal code \<or> (\<exists>f. frames t = [Hello, f] \<and> reports f code) \<or>
    frames t = [Hello] \<and> Released \<in> set t \<and>
      (\<exists>fin sent. loop_run (w_loop_failure w) (w_wait w) (w_tail w) (w_rounds w) (new_state False) None = Some (fin, sent)
        \<and> \<not> f_conn_open fin)"
  using run_behaviour [OF assms(1)]
proof (cases rule: behaviour.cases)
  case silent
  then show ?thesis by (auto simp: silent_refusal_def)
next
  case (supervised fin sent v)
  then show ?thesis using conclude_reports assms(2) by (cases "f_conn_open fin") auto
next
  case died
  then show ?thesis using assms(2) by (simp add: injected_def)
qed simp_all

theorem one_frame_after_hello_witness: "reports (Status 0) 0"
  using one_frame_after_hello [OF demo_run] by (simp add: demo_world_def)

end
