(* ===== verification/Shim_Link.thy ===== *)
theory Shim_Link
  imports Shim_Frames
begin

text \<open>
  \<^verbatim>\<open>src/src/elevation/shim/link/state.rs\<close>, \<^verbatim>\<open>link/outcome.rs\<close>, \<^verbatim>\<open>link/acceptor.rs\<close> and the control calls of
  \<^verbatim>\<open>link.rs\<close>: cosca's end of the shim channel. The acceptor thread and the caller's threads act on one
  state behind a lock, so every critical section is one step here and the threads interleave step by
  step.

  Connections are numbers. The outside is in the arguments of the operations: what a socket read
  gives, whether a send succeeds. The fields after \<open>lk_unlinked\<close> record the effects: the connection
  kept, the answers sent, the kill bytes sent, the bytes written to the settled pipe.
\<close>

section \<open>Outcomes\<close>

datatype StartState = Pending | Live | Refused_start

datatype AcceptorFailure = AcceptorErrno i32 | Panicked

datatype NotStartedCause = Withheld | AcceptorFailed AcceptorFailure | Cause_NotExecuted NotExecuted
  | ShimRefused Refusal

record NotStarted =
  shim_connected :: bool
  cause :: NotStartedCause

datatype LinkOutcome = Exited i32 | LinkNotStarted NotStarted | SupervisionLost i32 | LinkStatusLost
  | ShimLost

definition program_is_gone :: "LinkOutcome \<Rightarrow> bool" where
  "program_is_gone o' \<longleftrightarrow> o' \<noteq> ShimLost"

definition outcome_of :: "Frame \<Rightarrow> LinkOutcome" where
  "outcome_of f = (case f of
      Hello \<Rightarrow> ShimLost
    | Status ws \<Rightarrow> Exited ws
    | Lost ws \<Rightarrow> SupervisionLost ws
    | StatusLost \<Rightarrow> LinkStatusLost
    | Frame_NotExecuted n \<Rightarrow> LinkNotStarted \<lparr>shim_connected = True, cause = Cause_NotExecuted n\<rparr>
    | Refused r \<Rightarrow> LinkNotStarted \<lparr>shim_connected = True, cause = ShimRefused r\<rparr>)"

definition classify_frame :: "bytes \<Rightarrow> bool \<Rightarrow> LinkOutcome option" where
  "classify_frame bs eof = (case decode_frame bs of
      Inr f \<Rightarrow> Some (outcome_of f)
    | Inl Garbled \<Rightarrow> Some ShimLost
    | Inl Truncated \<Rightarrow> (if eof then Some ShimLost else None))"

datatype KillOutcome = Delivered | AlreadyEnded | RefusedStart

datatype KillError = KillError_ShimLost | Unkillable | KillError_NotOwner | KillError_Io i32

datatype Origin = Original | Copy | Unknown

definition owner_check :: "Origin \<Rightarrow> bool" where
  "owner_check origin \<longleftrightarrow> origin = Original"

section \<open>The shared state\<close>

abbreviation FRAME_LEN :: nat where "FRAME_LEN \<equiv> 5"

record Link =
  lk_start :: StartState
  lk_hello_seen :: bool
  lk_frame :: bytes
  lk_outcome :: "LinkOutcome option"
  lk_failure :: "AcceptorFailure option"
  lk_unlinked :: bool
  lk_conn :: "nat option"
  lk_answers :: "(nat \<times> Command) list"
  lk_kills :: nat
  lk_settled :: nat
  lk_pending :: "nat list"

definition new_link :: Link where
  "new_link = \<lparr>lk_start = Pending, lk_hello_seen = False, lk_frame = [], lk_outcome = None, lk_failure = None,
     lk_unlinked = False, lk_conn = None, lk_answers = [], lk_kills = 0, lk_settled = 0, lk_pending = []\<rparr>"

definition unlink :: "Link \<Rightarrow> Link" where
  "unlink l = l\<lparr>lk_unlinked := True\<rparr>"

text \<open>In an unknown process: \<open>locked\<close> says whether the lock was free to take.\<close>

definition refuse_pending_in_memory :: "bool \<Rightarrow> Link \<Rightarrow> Link \<times> bool" where
  "refuse_pending_in_memory free l =
     (if \<not> free then (l, False)
      else (if lk_start l = Pending then l\<lparr>lk_start := Refused_start\<rparr> else l, True))"

definition refuse_pending :: "Link \<Rightarrow> Link" where
  "refuse_pending l = (if lk_start l = Pending then unlink (l\<lparr>lk_start := Refused_start\<rparr>) else l)"

definition fail_closed :: "AcceptorFailure \<Rightarrow> Link \<Rightarrow> Link" where
  "fail_closed failure l = (case lk_start l of
      Live \<Rightarrow> unlink l
    | _ \<Rightarrow> refuse_pending (l\<lparr>lk_failure := (case lk_failure l of None \<Rightarrow> Some failure | Some f \<Rightarrow> Some f)\<rparr>))"

definition deny :: "nat \<Rightarrow> bool \<Rightarrow> Link \<Rightarrow> Link" where
  "deny conn sent l = (if sent then l\<lparr>lk_answers := lk_answers l @ [(conn, Deny)]\<rparr> else l)"

definition answer_hello :: "nat \<Rightarrow> bool \<Rightarrow> Link \<Rightarrow> Link" where
  "answer_hello conn sent l =
     (let start = lk_start l; l = l\<lparr>lk_hello_seen := True\<rparr>
      in if start = Pending then
           (if sent then unlink (l\<lparr>lk_start := Live, lk_conn := Some conn, lk_answers := lk_answers l @ [(conn, Allow)]\<rparr>)
            else refuse_pending l)
         else deny conn sent l)"

definition set_outcome :: "LinkOutcome \<Rightarrow> Link \<Rightarrow> Link" where
  "set_outcome out l = l\<lparr>lk_outcome := Some out, lk_settled := Suc (lk_settled l)\<rparr>"

text \<open>What one nonblocking read gives. The kernel fills at most the buffer; with no answer left in the
  list, nothing is there to read.\<close>

datatype Sock_Read = Read_Bytes bytes | Read_Eof | Read_Empty | Read_Failed i32

fun read_frame :: "Sock_Read list \<Rightarrow> Link \<Rightarrow> Link" where
  "read_frame reads l =
     (if lk_outcome l \<noteq> None then l
      else (case reads of
          [] \<Rightarrow> l
        | Read_Bytes bs # rest \<Rightarrow>
            let l = l\<lparr>lk_frame := lk_frame l @ take (FRAME_LEN - length (lk_frame l)) bs\<rparr>
            in (case classify_frame (lk_frame l) False of
                  Some out \<Rightarrow> set_outcome out l
                | None \<Rightarrow> read_frame rest l)
        | Read_Eof # _ \<Rightarrow> (case classify_frame (lk_frame l) True of
              Some out \<Rightarrow> set_outcome out l | None \<Rightarrow> l)
        | Read_Empty # _ \<Rightarrow> l
        | Read_Failed _ # _ \<Rightarrow> set_outcome ShimLost l))"

declare read_frame.simps [simp del]

definition settle :: "Sock_Read list \<Rightarrow> Link \<Rightarrow> Link" where
  "settle reads l =
     (if lk_outcome l \<noteq> None then l
      else
        let l = refuse_pending l
        in if lk_start l = Refused_start then
             set_outcome (LinkNotStarted \<lparr>shim_connected = lk_hello_seen l,
               cause = (case lk_failure l of None \<Rightarrow> Withheld | Some f \<Rightarrow> AcceptorFailed f)\<rparr>) l
           else read_frame reads l)"

definition observe :: "Sock_Read list \<Rightarrow> Link \<Rightarrow> Link" where
  "observe reads l = (if lk_start l = Live \<and> lk_outcome l = None then read_frame reads l else l)"

abbreviation EPIPE :: i32 where "EPIPE \<equiv> 32"
abbreviation ECONNRESET :: i32 where "ECONNRESET \<equiv> 104"
abbreviation ENOTCONN :: i32 where "ENOTCONN \<equiv> 107"
abbreviation EAGAIN :: i32 where "EAGAIN \<equiv> 11"
abbreviation ENOBUFS :: i32 where "ENOBUFS \<equiv> 105"

text \<open>\<open>sent\<close> is the errno of a failed send of \<open>K\<close>, and \<open>reads\<close> what the connection then gives.\<close>

definition kill :: "i32 option \<Rightarrow> Sock_Read list \<Rightarrow> Link \<Rightarrow> Link \<times> (KillError + KillOutcome)" where
  "kill sent reads l =
     (if lk_start l \<noteq> Live then (refuse_pending l, Inr RefusedStart)
      else (case lk_outcome l of
          Some ShimLost \<Rightarrow> (l, Inl KillError_ShimLost)
        | Some _ \<Rightarrow> (l, Inr AlreadyEnded)
        | None \<Rightarrow> (case sent of
              None \<Rightarrow> (l\<lparr>lk_kills := Suc (lk_kills l)\<rparr>, Inr Delivered)
            | Some e \<Rightarrow>
                if e \<in> {EPIPE, ECONNRESET, ENOTCONN} then
                  (let l = read_frame reads l
                   in (l, case lk_outcome l of
                        Some out \<Rightarrow> if program_is_gone out then Inr AlreadyEnded else Inl KillError_ShimLost
                      | None \<Rightarrow> Inl KillError_ShimLost))
                else if e \<in> {EAGAIN, ENOBUFS} then (l, Inl Unkillable)
                else (l, Inl (KillError_Io e)))))"

text \<open>\<^verbatim>\<open>wait\<close>: settle, and while nothing has settled, poll and settle again. A round is what the connection
  gives and the errno of a failed poll; with no round left the caller is still blocked.\<close>

primrec wait :: "(Sock_Read list \<times> i32 option) list \<Rightarrow> Link \<Rightarrow> (Link \<times> (i32 + LinkOutcome)) option" where
  "wait [] l = None"
| "wait (round # rounds) l =
     (let l = settle (fst round) l
      in case lk_outcome l of
           Some out \<Rightarrow> Some (l, Inr out)
         | None \<Rightarrow> (case snd round of Some e \<Rightarrow> Some (l, Inl e) | None \<Rightarrow> wait rounds l))"

text \<open>The control calls of \<^verbatim>\<open>ShimLink\<close>: only the process that bound the link may make them.\<close>

datatype NotOwner = NotOwner

definition shim_kill :: "Origin \<Rightarrow> i32 option \<Rightarrow> Sock_Read list \<Rightarrow> Link \<Rightarrow> Link \<times> (KillError + KillOutcome)" where
  "shim_kill origin sent reads l =
     (if owner_check origin then kill sent reads l else (l, Inl KillError_NotOwner))"

definition shim_try_wait :: "Origin \<Rightarrow> Sock_Read list \<Rightarrow> Link \<Rightarrow> Link \<times> (NotOwner + LinkOutcome option)" where
  "shim_try_wait origin reads l =
     (if owner_check origin then (let l = settle reads l in (l, Inr (lk_outcome l))) else (l, Inl NotOwner))"

record Observed =
  ob_start :: StartState
  ob_outcome :: "LinkOutcome option"
  ob_failure :: "AcceptorFailure option"

definition shim_observe :: "Origin \<Rightarrow> Sock_Read list \<Rightarrow> Link \<Rightarrow> Link \<times> (NotOwner + Observed)" where
  "shim_observe origin reads l =
     (if owner_check origin
      then (let l = observe reads l
            in (l, Inr \<lparr>ob_start = lk_start l, ob_outcome = lk_outcome l, ob_failure = lk_failure l\<rparr>))
      else (l, Inl NotOwner))"

section \<open>The acceptor\<close>

text \<open>\<open>peer\<close> is the errno of a failed look at the peer's credentials, or its euid.\<close>

definition admit :: "u32 \<Rightarrow> nat \<Rightarrow> i32 + u32 \<Rightarrow> Link \<Rightarrow> Link" where
  "admit peer_euid conn peer l = (case peer of
      Inl e \<Rightarrow> l
    | Inr uid \<Rightarrow> if uid \<noteq> peer_euid then l else l\<lparr>lk_pending := lk_pending l @ [conn]\<rparr>)"

definition hear :: "nat \<Rightarrow> Sock_Read \<Rightarrow> bool \<Rightarrow> Link \<Rightarrow> Link \<times> bool" where
  "hear conn rd sent l = (case rd of
      Read_Bytes bs \<Rightarrow> if bs \<noteq> [] \<and> hd bs = tagH then (answer_hello conn sent l, False) else (l, False)
    | Read_Empty \<Rightarrow> (l, True)
    | _ \<Rightarrow> (l, False))"

text \<open>The loop of \<^verbatim>\<open>say_hellos\<close>: a peer that was not polled, or has said nothing, is kept.\<close>

primrec hear_all ::
  "(nat \<Rightarrow> Sock_Read) \<Rightarrow> (nat \<Rightarrow> bool) \<Rightarrow> bool list \<Rightarrow> nat list \<Rightarrow> nat list \<Rightarrow> Link \<Rightarrow> Link" where
  "hear_all rd sent ready kept [] l = l\<lparr>lk_pending := kept\<rparr>"
| "hear_all rd sent ready kept (conn # conns) l =
     (if ready = [] \<or> \<not> hd ready then hear_all rd sent (tl ready) (kept @ [conn]) conns l
      else
        let (l, keep) = hear conn (rd conn) (sent conn) l
        in hear_all rd sent (tl ready) (if keep then kept @ [conn] else kept) conns l)"

definition say_hellos :: "(nat \<Rightarrow> Sock_Read) \<Rightarrow> (nat \<Rightarrow> bool) \<Rightarrow> bool list \<Rightarrow> Link \<Rightarrow> Link" where
  "say_hellos rd sent ready l = hear_all rd sent ready [] (lk_pending l) (l\<lparr>lk_pending := []\<rparr>)"

definition drain :: "(nat \<Rightarrow> bool) \<Rightarrow> Link \<Rightarrow> Link" where
  "drain sent l = foldl (\<lambda>l conn. deny conn (sent conn) l) (l\<lparr>lk_pending := []\<rparr>) (lk_pending l)"

section \<open>Steps\<close>

text \<open>Every critical section any thread can enter. The acceptor's passes over its pending peers are
  steps of their own because each peer is answered under the lock separately.\<close>

inductive link_step :: "u32 \<Rightarrow> Link \<Rightarrow> Link \<Rightarrow> bool" for euid where
  admitted: "link_step euid l (admit euid conn peer l)"
| hello: "link_step euid l (answer_hello conn sent l)"
| denied: "link_step euid l (deny conn sent l)"
| pend: "link_step euid l (l\<lparr>lk_pending := conns\<rparr>)"
| failed: "link_step euid l (fail_closed failure l)"
| refused: "link_step euid l (refuse_pending l)"
| refused_in_memory: "link_step euid l (fst (refuse_pending_in_memory free l))"
| settled: "link_step euid l (settle reads l)"
| observed: "link_step euid l (observe reads l)"
| killed: "link_step euid l (fst (kill sent reads l))"

inductive_cases link_stepE: "link_step euid l l'"

abbreviation link_run :: "u32 \<Rightarrow> Link \<Rightarrow> Link \<Rightarrow> bool" where
  "link_run euid \<equiv> (link_step euid)\<^sup>*\<^sup>*"

section \<open>The invariant\<close>

definition from_shim :: "LinkOutcome \<Rightarrow> bool" where
  "from_shim out = (case out of
      LinkNotStarted n \<Rightarrow> (case cause n of Withheld \<Rightarrow> False | AcceptorFailed _ \<Rightarrow> False | _ \<Rightarrow> True)
    | _ \<Rightarrow> True)"

definition allows :: "Link \<Rightarrow> (nat \<times> Command) list" where
  "allows l = filter (\<lambda>a. snd a = Allow) (lk_answers l)"

definition link_ok :: "Link \<Rightarrow> bool" where
  "link_ok l \<longleftrightarrow>
     (lk_start l = Live \<longrightarrow> lk_unlinked l \<and> lk_hello_seen l \<and> (\<exists>c. lk_conn l = Some c \<and> allows l = [(c, Allow)])) \<and>
     (lk_start l \<noteq> Live \<longrightarrow> lk_conn l = None \<and> allows l = [] \<and> lk_frame l = [] \<and> lk_kills l = 0) \<and>
     (lk_failure l \<noteq> None \<longrightarrow> lk_start l = Refused_start) \<and>
     lk_settled l = (if lk_outcome l = None then 0 else 1) \<and>
     (lk_outcome l = None \<longrightarrow> decode_frame (lk_frame l) = Inl Truncated) \<and>
     (\<forall>out. lk_outcome l = Some out \<longrightarrow> lk_start l = (if from_shim out then Live else Refused_start))"

lemma from_shim_outcome_of: "from_shim (outcome_of f)"
  by (simp add: from_shim_def outcome_of_def split: Frame.split)

lemma from_shim_classify: "classify_frame bs eof = Some out \<Longrightarrow> from_shim out"
  by (auto simp: classify_frame_def from_shim_outcome_of from_shim_def [of ShimLost] split: sum.splits FrameError.splits if_splits)

lemma classify_None: "classify_frame bs False = None \<longleftrightarrow> decode_frame bs = Inl Truncated"
  by (auto simp: classify_frame_def split: sum.splits FrameError.splits)

lemma read_frame_keeps:
  "lk_start (read_frame rs l) = lk_start l" "lk_hello_seen (read_frame rs l) = lk_hello_seen l"
  "lk_failure (read_frame rs l) = lk_failure l" "lk_unlinked (read_frame rs l) = lk_unlinked l"
  "lk_conn (read_frame rs l) = lk_conn l" "lk_answers (read_frame rs l) = lk_answers l"
  "lk_kills (read_frame rs l) = lk_kills l" "lk_pending (read_frame rs l) = lk_pending l"
  "lk_outcome l \<noteq> None \<Longrightarrow> read_frame rs l = l"
  by (induction rs l rule: read_frame.induct; subst read_frame.simps;
      auto simp: set_outcome_def Let_def split: list.split Sock_Read.split option.split)+

lemma read_frame_None:
  "lk_outcome l = None \<Longrightarrow> decode_frame (lk_frame l) = Inl Truncated \<Longrightarrow>
   (lk_outcome (read_frame rs l) = None \<longrightarrow>
      decode_frame (lk_frame (read_frame rs l)) = Inl Truncated \<and> lk_settled (read_frame rs l) = lk_settled l) \<and>
   (\<forall>out. lk_outcome (read_frame rs l) = Some out \<longrightarrow> from_shim out \<and> lk_settled (read_frame rs l) = Suc (lk_settled l))"
proof (induction rs l rule: read_frame.induct)
  case (1 rs l)
  show ?case
  proof (cases rs)
    case Nil
    with 1 show ?thesis by (subst (1 2 3 4 5) read_frame.simps) simp
  next
    case (Cons r rest)
    show ?thesis
    proof (cases r)
      case (Read_Bytes bs)
      let ?l = "l\<lparr>lk_frame := lk_frame l @ take (FRAME_LEN - length (lk_frame l)) bs\<rparr>"
      have step: "read_frame rs l = (case classify_frame (lk_frame ?l) False of
          Some out \<Rightarrow> set_outcome out ?l | None \<Rightarrow> read_frame rest ?l)"
        using 1 Cons Read_Bytes by (subst read_frame.simps) (simp add: Let_def)
      show ?thesis
      proof (cases "classify_frame (lk_frame ?l) False")
        case None
        then have "decode_frame (lk_frame ?l) = Inl Truncated" by (simp add: classify_None)
        with 1 Cons Read_Bytes None step show ?thesis by simp
      next
        case (Some out)
        with step from_shim_classify [OF Some] show ?thesis by (simp add: set_outcome_def)
      qed
    next
      case Read_Eof
      then have "read_frame rs l = set_outcome ShimLost l"
        using 1 Cons by (subst read_frame.simps) (simp add: classify_frame_def)
      then show ?thesis by (simp add: set_outcome_def from_shim_def)
    next
      case Read_Empty
      then have "read_frame rs l = l" using 1 Cons by (subst read_frame.simps) simp
      with 1 show ?thesis by simp
    next
      case (Read_Failed e)
      then have "read_frame rs l = set_outcome ShimLost l"
        using 1 Cons by (subst read_frame.simps) simp
      then show ?thesis by (simp add: set_outcome_def from_shim_def)
    qed
  qed
qed

lemma read_frame_ok:
  assumes "link_ok l" and "lk_start l = Live"
  shows "link_ok (read_frame rs l)"
proof (cases "lk_outcome l")
  case None
  with assms read_frame_None [OF None, of rs] show ?thesis
    by (cases "lk_outcome (read_frame rs l)") (auto simp: link_ok_def read_frame_keeps allows_def)
next
  case (Some out)
  with assms show ?thesis by (simp add: read_frame_keeps)
qed

lemma refuse_pending_ok: "link_ok l \<Longrightarrow> link_ok (refuse_pending l)"
  by (auto simp: link_ok_def refuse_pending_def unlink_def allows_def split: if_splits)

lemma pending_unsettled: "link_ok l \<Longrightarrow> lk_start l = Pending \<Longrightarrow> lk_outcome l = None"
  by (cases "lk_outcome l") (auto simp: link_ok_def split: if_splits)

lemma answer_hello_ok:
  assumes "link_ok l"
  shows "link_ok (answer_hello conn sent l)"
proof (cases "lk_start l = Pending")
  case True
  then have "lk_outcome l = None" using pending_unsettled assms by blast
  with True assms show ?thesis
    by (auto simp: link_ok_def answer_hello_def refuse_pending_def unlink_def allows_def Let_def)
next
  case False
  with assms show ?thesis by (auto simp: link_ok_def answer_hello_def deny_def allows_def Let_def)
qed

lemma deny_ok: "link_ok l \<Longrightarrow> link_ok (deny conn sent l)"
  by (auto simp: link_ok_def deny_def allows_def)

lemma fail_closed_ok:
  assumes "link_ok l"
  shows "link_ok (fail_closed failure l)"
proof (cases "lk_start l")
  case Pending
  then have "lk_outcome l = None" using pending_unsettled assms by blast
  with Pending assms show ?thesis
    by (auto simp: link_ok_def fail_closed_def refuse_pending_def unlink_def allows_def)
qed (use assms in \<open>auto simp: link_ok_def fail_closed_def refuse_pending_def unlink_def allows_def\<close>)

lemma settle_ok: "link_ok l \<Longrightarrow> link_ok (settle reads l)"
proof (cases "lk_outcome l = None \<and> lk_start l = Live")
  case True
  assume "link_ok l"
  with True show ?thesis
    using read_frame_ok [of l reads] by (simp add: settle_def refuse_pending_def)
next
  case False
  assume "link_ok l"
  with False show ?thesis
    by (cases "lk_start l")
      (auto simp: link_ok_def settle_def refuse_pending_def unlink_def set_outcome_def allows_def from_shim_def Let_def
        split: option.splits)
qed

lemma kill_ok: "link_ok l \<Longrightarrow> link_ok (fst (kill sent reads l))"
proof (cases "lk_start l = Live")
  case False
  assume "link_ok l"
  with False show ?thesis using refuse_pending_ok by (simp add: kill_def)
next
  case True
  assume ok: "link_ok l"
  then have "link_ok (l\<lparr>lk_kills := Suc (lk_kills l)\<rparr>)" using True by (auto simp: link_ok_def allows_def)
  with ok True read_frame_ok [of l reads] show ?thesis
    by (auto simp: kill_def Let_def split: option.split LinkOutcome.split)
qed

lemma link_step_ok: "link_ok l \<Longrightarrow> link_step euid l l' \<Longrightarrow> link_ok l'"
proof (erule link_stepE)
  show "link_ok l \<Longrightarrow> l' = admit euid conn peer l \<Longrightarrow> link_ok l'" for conn peer
    by (auto simp: admit_def link_ok_def allows_def split: sum.split)
  show "link_ok l \<Longrightarrow> l' = l\<lparr>lk_pending := conns\<rparr> \<Longrightarrow> link_ok l'" for conns
    by (auto simp: link_ok_def allows_def)
  show "link_ok l \<Longrightarrow> l' = fst (refuse_pending_in_memory free l) \<Longrightarrow> link_ok l'" for free
    by (auto simp: refuse_pending_in_memory_def link_ok_def allows_def)
  show "link_ok l \<Longrightarrow> l' = observe reads l \<Longrightarrow> link_ok l'" for reads
    using read_frame_ok by (simp add: observe_def)
qed (simp_all add: answer_hello_ok deny_ok fail_closed_ok refuse_pending_ok settle_ok kill_ok)

text \<open>How the link moves: the start once, the outcome once, the connection once, and the answers only
  grow.\<close>

definition link_before :: "Link \<Rightarrow> Link \<Rightarrow> bool" where
  "link_before l l' \<longleftrightarrow>
     (lk_start l \<noteq> Pending \<longrightarrow> lk_start l' = lk_start l) \<and>
     (lk_outcome l \<noteq> None \<longrightarrow> lk_outcome l' = lk_outcome l) \<and>
     (lk_conn l \<noteq> None \<longrightarrow> lk_conn l' = lk_conn l) \<and>
     (\<exists>more. lk_answers l' = lk_answers l @ more) \<and> lk_kills l \<le> lk_kills l' \<and>
     (lk_unlinked l \<longrightarrow> lk_unlinked l')"

lemma link_before_refl: "link_before l l"
  by (simp add: link_before_def)

lemma read_frame_before: "link_before l (read_frame rs l)"
  by (cases "lk_outcome l") (simp_all add: link_before_def read_frame_keeps)

lemma refuse_pending_before: "link_before l (refuse_pending l)"
  by (auto simp: link_before_def refuse_pending_def unlink_def)

lemma refuse_pending_outcome: "lk_outcome (refuse_pending l) = lk_outcome l"
  by (simp add: refuse_pending_def unlink_def)

lemma link_before_trans: "link_before l m \<Longrightarrow> link_before m n \<Longrightarrow> link_before l n"
  by (auto simp: link_before_def)

lemma set_outcome_before: "lk_outcome l = None \<Longrightarrow> link_before l (set_outcome out l)"
  by (simp add: link_before_def set_outcome_def)

lemma settle_before: "link_before l (settle reads l)"
proof (cases "lk_outcome l")
  case None
  let ?l = "refuse_pending l"
  have "link_before ?l (settle reads l)"
    using None read_frame_before [of ?l reads] set_outcome_before [of ?l] refuse_pending_outcome [of l]
    by (auto simp: settle_def Let_def)
  then show ?thesis using link_before_trans [OF refuse_pending_before] by blast
next
  case (Some out)
  then show ?thesis by (simp add: settle_def link_before_refl)
qed

lemma link_step_before: "link_ok l \<Longrightarrow> link_step euid l l' \<Longrightarrow> link_before l l'"
proof (erule link_stepE)
  show "link_ok l \<Longrightarrow> l' = answer_hello conn sent l \<Longrightarrow> link_before l l'" for conn sent
    by (auto simp: answer_hello_def link_before_def link_ok_def refuse_pending_def unlink_def deny_def Let_def)
  show "l' = observe reads l \<Longrightarrow> link_before l l'" for reads
    by (auto simp: observe_def read_frame_before link_before_refl)
  show "l' = settle reads l \<Longrightarrow> link_before l l'" for reads
    by (simp add: settle_before)
  show "l' = refuse_pending l \<Longrightarrow> link_before l l'"
    by (simp add: refuse_pending_before)
  show "l' = fst (kill sent reads l) \<Longrightarrow> link_before l l'" for sent reads
    using read_frame_before [of l reads] refuse_pending_before [of l]
    by (auto simp: kill_def Let_def link_before_refl split: option.splits LinkOutcome.splits)
      (simp add: link_before_def)
  show "l' = fail_closed failure l \<Longrightarrow> link_before l l'" for failure
    by (auto simp: fail_closed_def link_before_def refuse_pending_def unlink_def split: StartState.splits)
qed (auto simp: link_before_def admit_def deny_def refuse_pending_in_memory_def split: sum.split)

lemma new_link_ok: "link_ok new_link"
  by (simp add: link_ok_def new_link_def allows_def decode_frame_def)

interpretation link: ordered_system "\<lambda>l. l = new_link" "link_step euid" link_ok link_before for euid
  using new_link_ok link_step_ok link_before_refl link_before_trans link_step_before
  by unfold_locales blast+

section \<open>The frame settles the outcome, however it is cut\<close>

lemma frame_length: "decode_frame bs = Inr f \<Longrightarrow> length bs \<le> FRAME_LEN"
  by (auto simp: decode_frame_Inr)

lemma read_frame_chunks:
  assumes "decode_frame (lk_frame l @ concat chunks) = Inr f" and "lk_outcome l = None"
    and "decode_frame (lk_frame l) = Inl Truncated"
  shows "lk_outcome (read_frame (map Read_Bytes chunks @ rest) l) = Some (outcome_of f)"
  using assms
proof (induction chunks arbitrary: l)
  case Nil
  then show ?case by simp
next
  case (Cons bs chunks)
  let ?l = "l\<lparr>lk_frame := lk_frame l @ bs\<rparr>"
  have len: "length bs \<le> FRAME_LEN - length (lk_frame l)"
    using frame_length [OF Cons.prems(1)] by simp
  have step: "read_frame (map Read_Bytes (bs # chunks) @ rest) l = (case classify_frame (lk_frame ?l) False of
      Some out \<Rightarrow> set_outcome out ?l | None \<Rightarrow> read_frame (map Read_Bytes chunks @ rest) ?l)"
    using Cons.prems(2) len by (subst read_frame.simps) (simp add: Let_def)
  show ?case
  proof (cases "concat chunks = []")
    case True
    with Cons.prems(1) have "decode_frame (lk_frame ?l) = Inr f" by simp
    then show ?thesis unfolding step by (simp add: classify_frame_def set_outcome_def)
  next
    case False
    have "decode_frame (lk_frame ?l @ concat chunks) = Inr f" using Cons.prems(1) by simp
    moreover from frame_prefix_truncated [OF this False] have t: "decode_frame (lk_frame ?l) = Inl Truncated" .
    ultimately have "lk_outcome (read_frame (map Read_Bytes chunks @ rest) ?l) = Some (outcome_of f)"
      using Cons.IH [of ?l] Cons.prems(2) by simp
    then show ?thesis unfolding step using t by (simp add: classify_frame_def)
  qed
qed

lemma settle_reads_frame:
  assumes "link_ok l" and "lk_start l = Live" and "lk_outcome l = None" and "lk_frame l = []"
    and "concat chunks = encode_frame f" and "valid_frame f"
  shows "lk_outcome (settle (map Read_Bytes chunks @ rest) l) = Some (outcome_of f)"
proof -
  have "decode_frame (lk_frame l @ concat chunks) = Inr f"
    using assms(4-6) frame.decode_encode by simp
  moreover have "decode_frame (lk_frame l) = Inl Truncated" using assms(1,3) by (simp add: link_ok_def)
  ultimately have "lk_outcome (read_frame (map Read_Bytes chunks @ rest) l) = Some (outcome_of f)"
    using assms(3) by (intro read_frame_chunks)
  with assms(2,3) show ?thesis by (simp add: settle_def refuse_pending_def)
qed

section \<open>What kill promises\<close>

lemma kill_result:
  assumes "link_ok l" and "kill sent reads l = (l', r)"
  shows "r = Inr Delivered \<Longrightarrow> lk_start l = Live \<and> lk_outcome l = None \<and> lk_kills l' = Suc (lk_kills l)"
    and "r = Inr AlreadyEnded \<Longrightarrow> lk_start l = Live \<and> (\<exists>out. lk_outcome l' = Some out \<and> program_is_gone out)"
    and "r = Inr RefusedStart \<Longrightarrow> lk_start l' = Refused_start \<and> allows l' = []"
    and "r \<noteq> Inr Delivered \<Longrightarrow> lk_kills l' = lk_kills l"
proof -
  have rs: "lk_start l \<noteq> Live \<Longrightarrow> lk_start (refuse_pending l) = Refused_start \<and> allows (refuse_pending l) = []"
    using assms(1) by (cases "lk_start l") (auto simp: refuse_pending_def unlink_def link_ok_def allows_def)
  show "r = Inr Delivered \<Longrightarrow> lk_start l = Live \<and> lk_outcome l = None \<and> lk_kills l' = Suc (lk_kills l)"
    using assms(2) by (auto simp: kill_def Let_def split: if_splits option.splits LinkOutcome.splits)
  show "r = Inr AlreadyEnded \<Longrightarrow> lk_start l = Live \<and> (\<exists>out. lk_outcome l' = Some out \<and> program_is_gone out)"
    using assms(2)
    by (auto simp: kill_def Let_def program_is_gone_def split: if_splits option.splits LinkOutcome.splits)
  show "r = Inr RefusedStart \<Longrightarrow> lk_start l' = Refused_start \<and> allows l' = []"
    using assms(2) rs by (auto simp: kill_def Let_def split: if_splits option.splits LinkOutcome.splits)
  show "r \<noteq> Inr Delivered \<Longrightarrow> lk_kills l' = lk_kills l"
    using assms(2)
    by (auto simp: kill_def Let_def read_frame_keeps refuse_pending_def unlink_def split: if_splits option.splits LinkOutcome.splits)
qed

section \<open>The acceptor's passes are steps\<close>

lemma link_run_1: "link_step euid l l' \<Longrightarrow> link_run euid l l'"
  by blast

lemma link_run_Cons: "link_step euid l m \<Longrightarrow> link_run euid m n \<Longrightarrow> link_run euid l n"
  by (rule converse_rtranclp_into_rtranclp)

lemma hear_run: "link_run euid l (fst (hear conn rd sent l))"
  by (auto simp: hear_def hello split: Sock_Read.split)

lemma hear_all_run: "link_run euid l (hear_all rd sent ready kept conns l)"
proof (induction conns arbitrary: ready kept l)
  case Nil
  then show ?case by (simp add: pend link_run_1)
next
  case (Cons conn conns)
  obtain l' keep where h: "hear conn (rd conn) (sent conn) l = (l', keep)" by fastforce
  with hear_run [of euid l conn "rd conn" "sent conn"] have "link_run euid l l'" by simp
  with h Cons.IH show ?case by (auto intro: rtranclp_trans)
qed

lemma say_hellos_run: "link_run euid l (say_hellos rd sent ready l)"
  unfolding say_hellos_def
  by (rule link_run_Cons [OF pend hear_all_run])

lemma drain_run: "link_run euid l (drain sent l)"
proof -
  have "link_run euid l' (foldl (\<lambda>l conn. deny conn (sent conn) l) l' conns)" for conns l'
  proof (induction conns arbitrary: l')
    case (Cons c conns)
    then show ?case using link_run_Cons [OF denied] by fastforce
  qed simp
  then show ?thesis unfolding drain_def by (rule link_run_Cons [OF pend])
qed

section \<open>The callers' loops are steps too\<close>

lemma wait_run:
  "wait rounds l = Some (l', r) \<Longrightarrow> link_run euid l l' \<and> (\<forall>out. r = Inr out \<longrightarrow> lk_outcome l' = Some out)"
proof (induction rounds arbitrary: l)
  case (Cons round rounds)
  have "link_run euid l (settle (fst round) l)" by (rule link_run_1 [OF settled])
  with Cons show ?case
    by (auto simp: Let_def split: option.splits intro: rtranclp_trans)
qed simp

lemma wait_ends:
  assumes "link_ok l" and "lk_start l \<noteq> Live"
  shows "\<exists>l' out. wait (round # rounds) l = Some (l', Inr out) \<and> lk_start l' = Refused_start"
proof -
  have "\<exists>out. lk_outcome (settle (fst round) l) = Some out \<and> lk_start (settle (fst round) l) = Refused_start"
    using assms pending_unsettled [OF assms(1)]
    by (cases "lk_start l"; cases "lk_outcome l")
      (auto simp: settle_def refuse_pending_def unlink_def set_outcome_def Let_def)
  then show ?thesis by (auto simp: Let_def)
qed

section \<open>Properties\<close>

definition demo_live :: Link where
  "demo_live = answer_hello 3 True new_link"

lemma demo_live_run: "link_run 0 new_link demo_live"
  unfolding demo_live_def by (rule link_run_1 [OF hello])

text \<open>C6: the link's invariant holds after any interleaving of the acceptor's and the callers' critical
  sections. Among others: a start is told \<open>A\<close> at most once and only while it is live, the connection is
  the one that got it, a refused start never has one, the settled pipe is written exactly once, when
  the outcome is set, and the outcome matches the state it was settled in.\<close>

theorem link_invariant:
  assumes "link_run euid new_link l"
  shows "link_ok l"
  using link.reachable_inv assms by blast

theorem link_invariant_witness: "link_ok demo_live"
  by (rule link_invariant [OF demo_live_run])

text \<open>C7: the link moves only forward. Along any run from a reachable state, the start leaves pending at most
  once, a settled outcome and the connection never change, and answers are only added.\<close>

theorem link_moves_forward:
  assumes "link_run euid new_link l" and "link_run euid l l'"
  shows "link_before l l'"
  using link.reachable_run_at assms by blast

theorem link_moves_forward_witness: "link_before demo_live (settle [Read_Eof] demo_live)"
  by (rule link_moves_forward [OF demo_live_run]) (rule link_run_1 [OF settled])

text \<open>The outcome is what the shim's frame says, however the socket cuts it up: reading any split of an
  encoded frame into pieces settles exactly that frame's outcome.\<close>

theorem frame_settles_outcome:
  assumes "link_run euid new_link l" and "lk_start l = Live" and "lk_outcome l = None" and "lk_frame l = []"
    and "concat chunks = encode_frame f" and "valid_frame f"
  shows "lk_outcome (settle (map Read_Bytes chunks @ rest) l) = Some (outcome_of f)"
  by (rule settle_reads_frame [OF _ assms(2-6)]) (use link.reachable_inv assms(1) in blast)

theorem frame_settles_outcome_witness:
  "lk_outcome (settle (map Read_Bytes [[0x53], [0, 1], [], [0, 0]] @ [Read_Eof]) demo_live) = Some (Exited 256)"
proof -
  have l: "lk_start demo_live = Live" "lk_outcome demo_live = None" "lk_frame demo_live = []" by code_simp+
  have c: "concat [[0x53], [0, 1], [], [0, 0]] = encode_frame (Status 256)" by (simp add: to_le_bytes_def)
  show ?thesis
    using frame_settles_outcome [OF demo_live_run l c] by (simp add: valid_frame_def outcome_of_def)
qed

text \<open>C33: waiting for the outcome returns at once unless a shim is live, and then the start is refused for
  good: no later hello is told \<open>A\<close>.\<close>

theorem wait_refuses_pending_start:
  assumes "link_run euid new_link l" and "lk_start l \<noteq> Live"
  shows "\<exists>l' out. wait (round # rounds) l = Some (l', Inr out) \<and> lk_start l' = Refused_start \<and>
    (\<forall>l''. link_run euid l' l'' \<longrightarrow> allows l'' = [])"
proof -
  have ok: "link_ok l" using link.reachable_inv assms(1) by blast
  obtain l' out where w: "wait (round # rounds) l = Some (l', Inr out)" and s: "lk_start l' = Refused_start"
    using wait_ends [OF ok assms(2)] by blast
  have ok': "link_ok l'" using link.run_inv [OF _ ok] wait_run [OF w] by blast
  have "allows l'' = []" if r: "link_run euid l' l''" for l''
  proof -
    have "lk_start l'' = Refused_start" using link.run_at [OF r ok'] s by (simp add: link_before_def)
    moreover have "link_ok l''" using link.run_inv [OF r ok'] .
    ultimately show ?thesis by (simp add: link_ok_def)
  qed
  with w s show ?thesis by blast
qed

theorem wait_refuses_pending_start_witness:
  "\<exists>l' out. wait [([], None)] new_link = Some (l', Inr out) \<and> lk_start l' = Refused_start"
proof -
  have "link_run 0 new_link new_link" "lk_start new_link \<noteq> Live" by (simp_all add: new_link_def)
  from wait_refuses_pending_start [OF this, of "([], None)" "[]"] show ?thesis by blast
qed

text \<open>What kill's answer means, in a reachable state. \<open>Delivered\<close>: the shim is live, nothing had settled,
  and one kill byte was sent. \<open>AlreadyEnded\<close>: the outcome says the program has ended or never ran.
  \<open>RefusedStart\<close>: no shim was or will be told to start. Any other answer sent nothing.\<close>

theorem kill_answer:
  assumes "link_run euid new_link l" and "kill sent reads l = (l', r)"
  shows "case r of
      Inr Delivered \<Rightarrow> lk_start l = Live \<and> lk_outcome l = None \<and> lk_kills l' = Suc (lk_kills l)
    | Inr AlreadyEnded \<Rightarrow> (\<exists>out. lk_outcome l' = Some out \<and> program_is_gone out) \<and> lk_kills l' = lk_kills l
    | Inr RefusedStart \<Rightarrow> lk_start l' = Refused_start \<and> allows l' = [] \<and> lk_kills l' = lk_kills l
    | Inl _ \<Rightarrow> lk_kills l' = lk_kills l"
proof -
  have "link_ok l" using link.reachable_inv assms(1) by blast
  note k = kill_result [OF this assms(2)]
  show ?thesis
  proof (cases r)
    case (Inl e)
    with k(4) show ?thesis by simp
  next
    case (Inr out)
    with k show ?thesis by (cases out) simp_all
  qed
qed

theorem kill_answer_witness:
  "kill (Some EPIPE) [Read_Bytes (encode_frame (Status 0)), Read_Eof] demo_live =
     (set_outcome (Exited 0) (demo_live\<lparr>lk_frame := encode_frame (Status 0)\<rparr>), Inr AlreadyEnded) \<and>
   (\<exists>out. lk_outcome (set_outcome (Exited 0) (demo_live\<lparr>lk_frame := encode_frame (Status 0)\<rparr>)) = Some out \<and> program_is_gone out)"
proof -
  have k: "kill (Some EPIPE) [Read_Bytes (encode_frame (Status 0)), Read_Eof] demo_live =
     (set_outcome (Exited 0) (demo_live\<lparr>lk_frame := encode_frame (Status 0)\<rparr>), Inr AlreadyEnded)"
    by code_simp
  from kill_answer [OF demo_live_run k] k show ?thesis by simp
qed

end
