(* ===== verification/Spec2Isabelle.thy ===== *)
theory Spec2Isabelle
  imports Tree_Call Cgroup_Dir Quote_Windows Path_Posix Path_Win32 Spawn_Flags Elevation_Detect Treewalk
    Identity_Record Program_Resolve Windows_Env Batch_Gate Fd_Map Shim_Run Shim_Link
begin

text \<open>
  \<^bold>\<open>cosca\<close> is a Rust library that starts processes and keeps hold of them: it quotes and parses command lines, names
  paths of either system, elevates a child's privilege, contains and kills the tree a child grows, and waits for it. This
  development models the parts of it that decide something, as functions of what the system answers, and proves what the
  rest of the library relies on.

  \<^bold>\<open>The program's parts.\<close> \<^verbatim>\<open>src/src\<close> is the library: \<^verbatim>\<open>command.rs\<close> builds a request, \<^verbatim>\<open>child/spawn\<close> carries it out, \<^verbatim>\<open>elevation\<close>
  wraps it for another privilege, \<^verbatim>\<open>containment\<close> and \<^verbatim>\<open>identity\<close> name the processes it leaves, \<^verbatim>\<open>child.rs\<close>, \<^verbatim>\<open>wait\<close> and \<^verbatim>\<open>os_process\<close>
  wait for them and end them, and \<^verbatim>\<open>tokio\<close> is the asynchronous twin. \<^verbatim>\<open>src/cosca-path\<close> is the path library. Elevation has a
  second process: the front (\<^verbatim>\<open>sudo\<close>, \<^verbatim>\<open>doas\<close>, \<^verbatim>\<open>pkexec\<close>, \<^verbatim>\<open>osascript\<close>) runs the \<^emph>\<open>shim\<close>, cosca's own binary again, which
  connects back to cosca over a socket (the \<^emph>\<open>link\<close>), says hello, waits to be told to start, and supervises the elevated
  program until it ends, reporting in frames.

  \<^bold>\<open>How the system is modelled.\<close> A call into the system is an argument, in one of three ways. Where a part makes its calls in
  a fixed order, the argument is the list of answers that the calls of one kind give; a function that runs out of answers is
  \<open>None\<close>, so that a property of a result is about a run that the system completed, and the properties of termination say
  which answers are enough. Where an answer depends on the question alone, the argument is a function, with the documented
  behaviour that a property needs as a named hypothesis. Where calls depend on each other, the argument is a kernel with a
  state of any type (\<open>Fd_Map\<close>), and where their order is what is proved, a computation in the state monad of \<open>Effects\<close>, which
  keeps the log of every call with its answer. What several threads do at once is an inductive step relation (\<open>Owned_Child\<close>,
  \<open>Shim_Link\<close>). What the code sends (signals, frames, bytes to a pipe) is part of the result or of the log. Integers that can
  wrap are words (\<open>u8\<close>, \<open>u16\<close>, \<open>u32\<close>, \<open>u64\<close>, \<open>i32\<close>); an \<^verbatim>\<open>OsString\<close> or a path is its bytes on Unix, and its WTF-8 bytes or
  UTF-16 units on Windows; an error is a value of a sum without its explaining text. Debug assertions are off, as in a release
  build: where the code only asserts a condition, the property takes it as a hypothesis.

  \<^bold>\<open>Theories.\<close>

  \<^item> \<open>Prelude\<close>: machine integers, slices, and the interfaces: \<open>argv_quoting\<close> (a split that reads what a join wrote), \<open>codec\<close>
    (one spelling per value), \<open>total_comparison\<close> (an \<^verbatim>\<open>Ord\<close>), \<open>transition_system\<close> and \<open>ordered_system\<close> (invariants and
    progress of runs). \<open>Errors\<close>: \<^verbatim>\<open>error.rs\<close>. \<open>Utf8\<close>, \<open>Decimal\<close>: the standard library's UTF-8 and decimal numbers.
    \<open>Effects\<close>: the monad with its log, the weakest precondition of a run, and the rules by which a run keeps a relation between
    the log before and after it (the locale \<open>run_order\<close>).
  \<^item> \<open>Quote_Posix\<close>, \<open>Quote_Windows\<close>, \<open>Quote_AppleScript\<close>: \<^verbatim>\<open>quote\<close>, as lexers with the code's states. The first two
    interpret \<open>argv_quoting\<close>: joining and splitting are inverse, for every argument vector the quoting can carry; each
    POSIX error names the byte that caused it; an escaped AppleScript literal reads as its text to every reader that keeps the
    documented rules.
  \<^item> \<open>Path_Pure\<close>, \<open>Path_Posix\<close>: \<^verbatim>\<open>cosca-path/src/lib.rs\<close> and \<^verbatim>\<open>posix.rs\<close>. The trait \<^verbatim>\<open>PurePath\<close> is the locale \<open>pure_path\<close>,
    interpreted on the operations of both systems. The components spell the path; \<open>join\<close>, \<open>parent\<close>, \<open>pop\<close> and \<open>file_name\<close> agree;
    \<open>lexically_normal\<close> computes a normal form that is stable under joins; the order on paths is total.
  \<^item> \<open>Os_Wide\<close>, \<open>Path_Windows\<close>, \<open>Path_Win32\<close>: \<^verbatim>\<open>cosca-path/src/windows.rs\<close>, \<^verbatim>\<open>windows/os_str.rs\<close> and \<^verbatim>\<open>windows/convert.rs\<close>: the
    strings of Windows, the paths, whose stored text is never verbatim, and the conversions to what Win32 is given.
  \<^item> \<open>Command_Model\<close>, \<open>Spawn_Flags\<close>: \<^verbatim>\<open>command.rs\<close>, \<^verbatim>\<open>stdio.rs\<close> and \<^verbatim>\<open>command/flags.rs\<close>: what a sequence of calls builds, and the
    creation flags of a Windows spawn, bit by bit.
  \<^item> \<open>Program_Resolve\<close>, \<open>Batch_Gate\<close>, \<open>Windows_Env\<close>, \<open>Fd_Map\<close>: \<^verbatim>\<open>resolve.rs\<close> with its files, and of \<^verbatim>\<open>child/spawn\<close> the batch gate,
    the environment of a Windows child and the descriptors of a Unix child: which file a name loads, that no spelling of a batch
    file passes, and that the child gets exactly the variables and descriptors it was given.
  \<^item> \<open>Elevation_Plan\<close>: \<^verbatim>\<open>elevation/plan.rs\<close> and \<^verbatim>\<open>pkexec.rs\<close>. What a plan guarantees of the caller, the backend and the
    password, and that a verdict on a request's shape does not depend on the caller's privilege; which \<^verbatim>\<open>pkexec\<close> is launched.
  \<^item> \<open>Elevation_Detect\<close>, \<open>Elevation_Argv\<close>, \<open>Elevation_Macos\<close>, \<open>Elevation_Rewrite\<close>, \<open>Elevation_Password\<close>: \<^verbatim>\<open>elevation/posix.rs\<close> and
    \<^verbatim>\<open>elevation/macos.rs\<close>: the fronts that are found, the argv of each, the derived command, which runs the caller's program
    and no other whenever the front (or \<^verbatim>\<open>osascript\<close> and the shell) reads its words as documented (\<open>fronts_documented\<close>,
    \<open>osascript_documented\<close>, \<open>shell_documented\<close>; the readers themselves are parameters), and the password, which is in the pipe and nowhere else, and is delivered whole, not at all, or the call fails.
  \<^item> \<open>Env_Sanitize\<close>: \<^verbatim>\<open>elevation/sanitize.rs\<close>. Which variables cross into the elevated program.
  \<^item> \<open>Elevation_Front\<close>: \<^verbatim>\<open>elevation/front.rs\<close> and \<^verbatim>\<open>Child::kill\<close>. A running front is never signalled.
  \<^item> \<open>Shim_Protocol\<close>, \<open>Shim_Frames\<close>: \<^verbatim>\<open>elevation/shim/protocol.rs\<close>, the shim's argv, frames and commands. They interpret
    \<open>codec\<close>: what is read is exactly what is written.
  \<^item> \<open>Shim_Step\<close>, \<open>Shim_Loop\<close>: \<^verbatim>\<open>shim/step.rs\<close> and the supervision loop of \<^verbatim>\<open>shim/run\<close>: what one round decides, when the program
    is killed and when it is left alone, and that supervision ends.
  \<^item> \<open>Program_Path\<close>: \<^verbatim>\<open>shim/program_path.rs\<close> with the child's \<^verbatim>\<open>execve\<close> loop, and that the two agree.
  \<^item> \<open>Shim_Run\<close>: \<^verbatim>\<open>shim/run.rs\<close>, \<^verbatim>\<open>run/start.rs\<close>, \<^verbatim>\<open>run/handshake.rs\<close>, \<^verbatim>\<open>run/child.rs\<close>: the whole run of the shim, with the
    abstract specification \<open>behaviour\<close>, an inductive relation of the outcomes it may have, and the refinement to it.
  \<^item> \<open>Shim_Link\<close>: \<^verbatim>\<open>shim/link\<close>, cosca's side: the state of the link under any interleaving of the acceptor and the callers, an
    interpretation of \<open>ordered_system\<close>.
  \<^item> \<open>Proc_Text\<close>, \<open>Identity\<close>, \<open>Identity_Linux\<close>, \<open>Identity_Record\<close>: the texts of \<^verbatim>\<open>/proc\<close>, \<^verbatim>\<open>identity.rs\<close>, \<^verbatim>\<open>identity/linux.rs\<close> with its
    files, and \<^verbatim>\<open>identity/persist.rs\<close>: what is answered about a process is true of the process table, whatever a \<^verbatim>\<open>/proc\<close> that is not
    the caller's own prints.
  \<^item> \<open>Treewalk\<close>: \<^verbatim>\<open>containment/treewalk.rs\<close>: the walk finds the genuine descendants in a snapshot, and a kill reaches only those.
  \<^item> \<open>Owned_Child\<close>, \<open>Child_Linux\<close>, \<open>Teardown\<close>: \<^verbatim>\<open>child/owned.rs\<close> with its files, and \<^verbatim>\<open>os_process\<close> and \<^verbatim>\<open>wait/exit_only\<close> on Linux: a
    child that threads wait on and signal at once is reaped once, no waiter is stranded and none is told a falsehood. The
    first states what it relies on of the answers as predicates; the second proves them of the calls of Linux.
  \<^item> \<open>Group_Kill\<close>, \<open>Tree_Call\<close>: \<^verbatim>\<open>containment/unix.rs\<close>, \<^verbatim>\<open>unix/group.rs\<close> and \<^verbatim>\<open>group_root.rs\<close>, then \<^verbatim>\<open>child/tree_call.rs\<close>,
    \<^verbatim>\<open>child/graceful.rs\<close>, \<^verbatim>\<open>containment/dispatch.rs\<close> and the drop of \<^verbatim>\<open>child.rs\<close>, on Linux: every signal by number is vouched for
    right before it is sent, a group that was killed is down, and a shutdown waits only for a root that something ended.
  \<^item> \<open>Cgroup_Dir\<close>: \<^verbatim>\<open>containment/cgroup/dir.rs\<close>: the traversal of the cgroups under a leaf, which may change at every call: the
    walk ends and answers truly, and the sweep removes only what is under the leaf, deepest first; both rest on the locale
    \<open>dir_order\<close>, an extension of \<open>run_order\<close>.
  \<^item> This theory: both ends together. What cosca concludes from the frame that a run of the shim wrote is true of that run.

  \<^bold>\<open>Bounds.\<close> No fuel is chosen anywhere: loops recurse on the answers of the system or on their data, or have a measure; a loop
  that the system can keep going forever is an option, \<open>None\<close> for a run that does not end.

  \<^bold>\<open>Not modelled.\<close> The system calls themselves, descriptor ownership and signal masks: they are answers or effects. The
  mechanisms of other systems (job objects and fd markers, \<^verbatim>\<open>containment/windows.rs\<close>, \<^verbatim>\<open>containment/fdmarker.rs\<close>, the macOS and
  Windows halves of \<^verbatim>\<open>identity\<close>, \<^verbatim>\<open>os_process\<close> and \<^verbatim>\<open>wait\<close>, \<^verbatim>\<open>elevation/windows.rs\<close>): they are sequences of calls on handles
  with little to decide between them. fork, exec and \<^verbatim>\<open>CreateProcess\<close> in \<^verbatim>\<open>child/spawn.rs\<close>. The interface files of a cgroup
  (\<^verbatim>\<open>leaf.rs\<close>, \<^verbatim>\<open>watcher.rs\<close>, \<^verbatim>\<open>drain.rs\<close>), which the tree calls ask as an environment. The tokio front end, the asynchronous twin of what is modelled here, whose behaviour is that of
  a runtime outside the repository. The build scripts and the support of tests.
\<close>

section \<open>From the shim's run to cosca's outcome\<close>

lemma behaviour_truthful:
  assumes "behaviour w a t code" and "frames t = [Hello, f]"
  shows "case outcome_of f of
      Exited ws \<Rightarrow> Released \<in> set t \<and> code = exit_code_of ws
    | SupervisionLost _ \<Rightarrow> Released \<in> set t \<and> (\<exists>sent. Signalled sent \<in> set t \<and> sent \<noteq> [] \<and> last sent = ToChild_Kill)
    | LinkStatusLost \<Rightarrow> Released \<in> set t
    | LinkNotStarted n \<Rightarrow> shim_connected n \<and> ((\<exists>r. cause n = ShimRefused r) \<longrightarrow> Released \<notin> set t)
    | ShimLost \<Rightarrow> False"
  using assms(1)
proof (cases rule: behaviour.cases)
  case (supervised fin sent v)
  with assms(2) have f: "f = v_frame v" by (auto split: if_splits)
  have t: "Released \<in> set t" "Signalled sent \<in> set t" using supervised by auto
  show ?thesis
    using t run_lost_kills [OF supervised(5)] unfolding f supervised(2,6)
    by (auto simp: conclude_def outcome_of_def split: option.splits if_splits)
next
  case died
  then show ?thesis using assms(2) by simp
next
  case (unstarted f')
  with assms(2) show ?thesis by (cases f') (auto simp: outcome_of_def)
next
  case (abandoned f')
  with assms(2) show ?thesis by (cases f') (auto simp: outcome_of_def)
qed (use assms(2) in simp)

text \<open>C2: what cosca learns is true. Take any run of the shim that wrote a frame after hello, and a live link
  that has not read it yet; however the socket cuts the frame, the next settle gives cosca an outcome,
  and the outcome describes the run: \<open>Exited\<close> means the program was released and the shim's exit code is
  the program's; \<open>SupervisionLost\<close> means it was released and killed; a refusal by the shim means it was
  never released; and the outcome is never \<open>ShimLost\<close>.\<close>

theorem outcome_describes_the_run:
  assumes "run w a = Some (t, code)" and "frames t = [Hello, f]" and "valid_frame f"
    and "link_run euid new_link l" and "lk_start l = Live" and "lk_outcome l = None" and "lk_frame l = []"
    and "concat cuts = encode_frame f"
  shows "\<exists>out. lk_outcome (settle (map Read_Bytes cuts @ rest) l) = Some out \<and>
    (case out of
      Exited ws \<Rightarrow> Released \<in> set t \<and> code = exit_code_of ws
    | SupervisionLost _ \<Rightarrow> Released \<in> set t \<and> (\<exists>sent. Signalled sent \<in> set t \<and> sent \<noteq> [] \<and> last sent = ToChild_Kill)
    | LinkStatusLost \<Rightarrow> Released \<in> set t
    | LinkNotStarted n \<Rightarrow> shim_connected n \<and> ((\<exists>r. cause n = ShimRefused r) \<longrightarrow> Released \<notin> set t)
    | ShimLost \<Rightarrow> False)"
proof -
  have "link_ok l" using link.reachable_inv assms(4) by blast
  from settle_reads_frame [OF this assms(5-8) assms(3)] behaviour_truthful [OF run_behaviour [OF assms(1)] assms(2)]
  show ?thesis by blast
qed

theorem outcome_describes_the_run_witness:
  "\<exists>out. lk_outcome (settle (map Read_Bytes [[0x53, 0], [0, 0, 0]] @ []) demo_live) = Some out \<and> out \<noteq> ShimLost"
proof -
  have f: "frames [Wrote Hello, Cloned, Released, Signalled [], Wrote (Status 0)] = [Hello, Status 0]" by simp
  have l: "lk_start demo_live = Live" "lk_outcome demo_live = None" "lk_frame demo_live = []" by code_simp+
  have c: "concat [[0x53, 0], [0, 0, 0]] = encode_frame (Status 0)" by (simp add: to_le_bytes_def)
  have v: "valid_frame (Status 0)" by (simp add: valid_frame_def)
  obtain out where o: "lk_outcome (settle (map Read_Bytes [[0x53, 0], [0, 0, 0]] @ []) demo_live) = Some out"
    and "out \<noteq> ShimLost"
    using outcome_describes_the_run [OF demo_run f v demo_live_run l c, of "[]"]
    by - (elim exE conjE, rule that, assumption, auto)
  then show ?thesis by blast
qed

end
